(* ===== verification/Prelude.thy ===== *)
theory Prelude
  imports Main "HOL-Library.Word"
begin

unbundle bit_operations_syntax

text \<open>
  Shared vocabulary of the development: the types that stand for the machine
  types of the virtual machine, the collections of rewrite rules the component
  theories use, and facts on arithmetic, bits, lists and stores that more than
  one component needs.

  A value of type \<open>addr\<close> is a byte address of the 64-bit virtual machine, so that the
  masks the source applies to pointers are the masks of the model; NULL is 0.
  A \<open>size_t\<close> is a natural number; where the source lets a subtraction of
  \<open>size_t\<close> or \<open>uintptr_t\<close> wrap, the model writes the reduction
  modulo \<open>2 ^ 64\<close> out.  Values of \<open>intptr_t\<close> and \<open>int\<close> are
  \<^typ>\<open>int\<close>.
\<close>

type_synonym addr = nat
type_synonym size_t = nat
type_synonym idx_t = nat

abbreviation (input) NULL :: addr where
  "NULL \<equiv> 0"

definition size_t_max1 :: nat where
  "size_t_max1 = 2 ^ 64"

named_theorems addr_simps \<open>address arithmetic under the bounds the components keep\<close>
named_theorems inv_intros \<open>preservation of the component invariants\<close>

section \<open>Faults\<close>

text \<open>
  What a debug build turns into an abort and a product build into undefined
  behaviour is a value of the model: dereferencing NULL or a pointer that was
  never allocated, leaving an array, dividing by zero, and the VM's own exits.
\<close>

datatype fault =
    NullDeref
  | OutOfBounds
  | DivideByZero
  | AssertFailed string
  | VMExit string

type_synonym 'a result = "fault + 'a"

abbreviation bind_result :: "'a result \<Rightarrow> ('a \<Rightarrow> 'b result) \<Rightarrow> 'b result" where
  "bind_result m f \<equiv> (case m of Inl e \<Rightarrow> Inl e | Inr a \<Rightarrow> f a)"

lemma bind_result_Inr:
  "bind_result m f = Inr b \<longleftrightarrow> (\<exists>a. m = Inr a \<and> f a = Inr b)"
  by (cases m) auto

text \<open>A loop over a list of indices whose body may fault.\<close>

fun fold_result :: "('a \<Rightarrow> 's \<Rightarrow> 's result) \<Rightarrow> 'a list \<Rightarrow> 's \<Rightarrow> 's result" where
  "fold_result f [] s = Inr s"
| "fold_result f (x # xs) s = bind_result (f x s) (fold_result f xs)"

lemma fold_result_append:
  "fold_result f (xs @ ys) s = bind_result (fold_result f xs s) (fold_result f ys)"
  by (induction xs arbitrary: s) (auto split: sum.splits)

text \<open>A loop whose body never faults and keeps an invariant.\<close>

lemma fold_result_inv:
  assumes "\<And>i s. i < n \<Longrightarrow> P i s \<Longrightarrow> \<exists>s'. f (a + i) s = Inr s' \<and> P (Suc i) s'" "P 0 s"
  shows "\<exists>s'. fold_result f [a..<a + n] s = Inr s' \<and> P n s'"
  using assms
proof (induction n)
  case (Suc n)
  then obtain s1 where "fold_result f [a..<a + n] s = Inr s1" "P n s1" by auto
  moreover obtain s2 where "f (a + n) s1 = Inr s2" "P (Suc n) s2"
    using Suc.prems(1)[of n s1] calculation(2) by auto
  ultimately show ?case by (auto simp: fold_result_append)
qed auto

section \<open>Masks\<close>

text \<open>Clearing the low bits with the complement of a mask is rounding down.\<close>

lemma and_not_mask_int:
  fixes x :: int
  shows "x AND NOT (2 ^ n - 1) = x - x mod 2 ^ n"
proof -
  have "x - take_bit n x = x AND NOT (take_bit n x)"
    by (rule disjunctive_diff_eq_and_not) (auto simp: bit_eq_iff bit_simps)
  also have "\<dots> = x AND NOT (mask n)"
    by (auto simp: bit_eq_iff bit_simps)
  finally show ?thesis
    by (simp add: mask_eq_exp_minus_1 take_bit_eq_mod)
qed

text \<open>And keeping them with the mask is the remainder.\<close>

lemma and_mask_nat: "(x :: nat) AND (2 ^ n - 1) = x mod 2 ^ n"
  using take_bit_eq_mask[of n x] by (simp add: mask_eq_exp_minus_1 take_bit_eq_mod)

section \<open>Words\<close>

lemma unat_pow2: "k < LENGTH('a) \<Longrightarrow> unat (2 ^ k :: 'a::len word) = 2 ^ k"
  using unat_of_nat[of "2 ^ k", where 'a = 'a]
  by (simp add: take_bit_eq_mod power_strict_increasing)

lemma unat_pow2_or_1:
  assumes "0 < k" "k < LENGTH('a)"
  shows "unat (2 ^ k OR 1 :: 'a::len word) = 2 ^ k + 1"
proof -
  have "even (2 ^ k :: 'a word)" using assms(1) by simp
  then have eq: "(2 ^ k OR 1 :: 'a word) = 2 ^ k + 1" by (simp add: or_one_eq)
  obtain l where l: "LENGTH('a) = Suc l" "0 < l" "k \<le> l" using assms by (cases "LENGTH('a)") auto
  have "(2::nat) ^ k \<le> 2 ^ l" using l(3) by (intro power_increasing) auto
  moreover have "(2::nat) \<le> 2 ^ l" using l(2) by (cases l) auto
  ultimately have "(2::nat) ^ k + 1 < 2 ^ l + 2 ^ l" by linarith
  then have "(2::nat) ^ k + 1 < 2 ^ LENGTH('a)" by (simp only: l(1) power_Suc mult_2)
  then show ?thesis
    using assms unat_pow2[of k, where 'a = 'a] l by (simp add: eq unat_word_ariths)
qed

lemma unat_shift_less: "w \<noteq> 0 \<Longrightarrow> unat (drop_bit (Suc 0) (w :: 'a::len word)) < unat w"
  using unat_gt_0[of w] by (subst unat_drop_bit_eq) (simp add: drop_bit_eq_div)

end
