(* ===== verification/GlobalDefs.thy ===== *)
theory GlobalDefs
  imports Prelude
begin

text \<open>
  The integer and pointer helpers of \<open>utilities/globalDefinitions.hpp\<close> the
  big-data extensions are written with: pointer differences, alignment, and
  logarithms.  The alignment helpers are the mask expressions of the source, so
  that what they do for an alignment that is not a power of two can be stated.
\<close>

section \<open>Heap words\<close>

definition LogHeapWordSize :: nat where
  "LogHeapWordSize = 3"

definition HeapWordSize :: nat where
  "HeapWordSize = 8"

text \<open>\<open>p + n\<close> for a \<open>HeapWord* p\<close>.\<close>

definition hw_add :: "addr \<Rightarrow> nat \<Rightarrow> addr" where
  "hw_add p n = p + n * HeapWordSize"

text \<open>
  \<open>pointer_delta\<close> subtracts \<open>uintptr_t\<close> values: a left operand below the
  right one wraps around to a huge count, it does not fail.
\<close>

definition pointer_delta_sz :: "addr \<Rightarrow> addr \<Rightarrow> size_t \<Rightarrow> size_t" where
  "pointer_delta_sz left right element_size =
     ((left + size_t_max1 - right) mod size_t_max1) div element_size"

definition pointer_delta :: "addr \<Rightarrow> addr \<Rightarrow> size_t" where
  "pointer_delta left right = pointer_delta_sz left right HeapWordSize"

definition heap_word_size :: "size_t \<Rightarrow> size_t" where
  "heap_word_size byte_size = (byte_size + (HeapWordSize - 1)) div 2 ^ LogHeapWordSize"

section \<open>Alignment\<close>

definition align_size_up :: "int \<Rightarrow> int \<Rightarrow> int" where
  "align_size_up sz alignment = (sz + (alignment - 1)) AND NOT (alignment - 1)"

definition align_size_down :: "int \<Rightarrow> int \<Rightarrow> int" where
  "align_size_down sz alignment = sz AND NOT (alignment - 1)"

text \<open>\<open>align_ptr_up\<close> and \<open>align_ptr_down\<close>, on addresses.\<close>

definition align_ptr_up :: "addr \<Rightarrow> nat \<Rightarrow> addr" where
  "align_ptr_up p a = nat (align_size_up (int p) (int a))"

definition align_ptr_down :: "addr \<Rightarrow> nat \<Rightarrow> addr" where
  "align_ptr_down p a = nat (align_size_down (int p) (int a))"

definition is_size_aligned :: "int \<Rightarrow> int \<Rightarrow> bool" where
  "is_size_aligned sz alignment \<longleftrightarrow> align_size_up sz alignment = sz"

definition align_size_down_bounded :: "int \<Rightarrow> int \<Rightarrow> int" where
  "align_size_down_bounded sz alignment =
     (let aligned_size = align_size_down sz alignment
      in if aligned_size > 0 then aligned_size else alignment)"

definition mask_bits :: "int \<Rightarrow> int \<Rightarrow> int" where
  "mask_bits x m = x AND m"

definition round_to :: "int \<Rightarrow> int \<Rightarrow> int" where
  "round_to x s = (let m = s - 1 in mask_bits (x + m) (NOT m))"

definition round_down :: "int \<Rightarrow> int \<Rightarrow> int" where
  "round_down x s = (let m = s - 1 in mask_bits x (NOT m))"

definition is_power_of_2 :: "int \<Rightarrow> bool" where
  "is_power_of_2 x \<longleftrightarrow> x \<noteq> 0 \<and> mask_bits x (x - 1) = 0"

definition is_odd :: "int \<Rightarrow> bool" where
  "is_odd x \<longleftrightarrow> x AND 1 \<noteq> 0"

section \<open>Logarithms\<close>

text \<open>
  The loop of \<open>log2_intptr\<close>: \<open>p\<close> is a \<open>uintptr_t\<close> that is doubled
  until it passes \<open>x\<close> or wraps to zero.  It is doubled 64 times at most, so
  65 units of fuel let it finish from every start the function uses
  (\<open>log2_loop_enough\<close> below).
\<close>

fun log2_loop :: "nat \<Rightarrow> int \<Rightarrow> nat \<Rightarrow> nat \<Rightarrow> int option" where
  "log2_loop 0 i p x = None"
| "log2_loop (Suc fuel) i p x =
     (if p \<noteq> 0 \<and> p \<le> x then log2_loop fuel (i + 1) (p * 2 mod size_t_max1) x
      else Some i)"

definition log2_intptr :: "nat \<Rightarrow> int" where
  "log2_intptr x = (case log2_loop 65 (-1) 1 x of Some i \<Rightarrow> i | None \<Rightarrow> -1)"

definition exact_log2 :: "nat \<Rightarrow> int" where
  "exact_log2 x = log2_intptr x"

section \<open>Facts\<close>

lemma pointer_delta_le [addr_simps]:
  assumes "r \<le> l" "l < size_t_max1"
  shows "pointer_delta l r = (l - r) div HeapWordSize"
proof -
  have "(l + size_t_max1 - r) mod size_t_max1 = ((l - r) + size_t_max1) mod size_t_max1"
    using assms(1) by (simp only: Nat.add_diff_assoc2)
  also have "\<dots> = l - r" using assms(2) by simp
  finally show ?thesis by (simp only: pointer_delta_def pointer_delta_sz_def)
qed

lemma pointer_delta_hw_add [simp]:
  "hw_add p n < size_t_max1 \<Longrightarrow> pointer_delta (hw_add p n) p = n"
  by (subst pointer_delta_le) (auto simp: hw_add_def HeapWordSize_def)

lemma pointer_delta_ge_iff:
  assumes "r \<le> l" "l < size_t_max1"
  shows "n \<le> pointer_delta l r \<longleftrightarrow> hw_add r n \<le> l"
  using assms by (auto simp: pointer_delta_le hw_add_def HeapWordSize_def less_eq_div_iff_mult_less_eq)

lemma pointer_delta_wraps:
  "l < r \<Longrightarrow> r < size_t_max1 \<Longrightarrow>
     pointer_delta l r = (size_t_max1 - (r - l)) div HeapWordSize"
  by (simp add: pointer_delta_def pointer_delta_sz_def algebra_simps)

lemma hw_add_0 [simp]: "hw_add p 0 = p"
  by (simp add: hw_add_def)

lemma hw_add_hw_add [simp]: "hw_add (hw_add p m) n = hw_add p (m + n)"
  by (simp add: hw_add_def algebra_simps)

lemma hw_add_mono [simp]: "hw_add p m \<le> hw_add p n \<longleftrightarrow> m \<le> n"
  by (simp add: hw_add_def HeapWordSize_def)

lemma hw_add_less [simp]: "hw_add p m < hw_add p n \<longleftrightarrow> m < n"
  by (simp add: hw_add_def HeapWordSize_def)

lemma hw_add_ge [simp]: "p \<le> hw_add p n"
  by (simp add: hw_add_def)

lemma hw_add_inj [simp]: "hw_add p m = hw_add p n \<longleftrightarrow> m = n"
  by (simp add: hw_add_def HeapWordSize_def)

lemma align_size_down_pow2:
  "align_size_down x (2 ^ n) = x - x mod 2 ^ n"
  unfolding align_size_down_def by (rule and_not_mask_int)

lemma align_size_up_pow2:
  "align_size_up x (2 ^ n) = (x + (2 ^ n - 1)) - (x + (2 ^ n - 1)) mod 2 ^ n"
  unfolding align_size_up_def by (rule and_not_mask_int)

lemma round_to_eq_align: "round_to x s = align_size_up x s"
  by (simp add: round_to_def align_size_up_def mask_bits_def Let_def)

lemma round_down_eq_align: "round_down x s = align_size_down x s"
  by (simp add: round_down_def align_size_down_def mask_bits_def Let_def)

lemma align_size_up_ge: "x \<le> align_size_up x (2 ^ n)"
proof -
  have "(x + (2 ^ n - 1)) mod 2 ^ n \<le> 2 ^ n - 1"
    by (simp add: pos_mod_bound zle_diff1_eq)
  then show ?thesis unfolding align_size_up_pow2 by linarith
qed

lemma align_size_up_lt: "align_size_up x (2 ^ n) < x + 2 ^ n"
proof -
  have "0 \<le> (x + (2 ^ n - 1)) mod 2 ^ n" by simp
  then show ?thesis unfolding align_size_up_pow2 by linarith
qed

lemma align_size_up_dvd: "2 ^ n dvd align_size_up x (2 ^ n)"
  by (simp add: align_size_up_pow2 dvd_minus_mod)

lemma align_size_down_dvd: "2 ^ n dvd align_size_down x (2 ^ n)"
  by (simp add: align_size_down_pow2 dvd_minus_mod)

lemma align_size_down_le: "align_size_down x (2 ^ n) \<le> x"
  by (simp add: align_size_down_pow2)

lemma align_size_down_gt: "x - 2 ^ n < align_size_down x (2 ^ n)"
  by (simp add: align_size_down_pow2 pos_mod_bound)

text \<open>An aligned bound at or above \<open>x\<close> is at or above the rounded \<open>x\<close>.\<close>

lemma align_size_up_least:
  assumes "x \<le> y" "2 ^ n dvd y"
  shows "align_size_up x (2 ^ n) \<le> y"
proof (rule ccontr)
  assume "\<not> align_size_up x (2 ^ n) \<le> y"
  then have pos: "0 < align_size_up x (2 ^ n) - y" by simp
  moreover have "2 ^ n dvd align_size_up x (2 ^ n) - y"
    using assms(2) align_size_up_dvd by (rule dvd_diff[rotated])
  ultimately have "2 ^ n \<le> align_size_up x (2 ^ n) - y"
    by (simp add: zdvd_imp_le)
  with assms(1) align_size_up_lt[of x n] show False by linarith
qed

lemma align_size_up_id: "2 ^ n dvd x \<Longrightarrow> align_size_up x (2 ^ n) = x"
  using align_size_up_ge align_size_up_least by (simp add: order_antisym)

lemma align_size_up_add:
  assumes "2 ^ n dvd y"
  shows "align_size_up (x + y) (2 ^ n) = align_size_up x (2 ^ n) + y"
proof (rule order_antisym)
  show "align_size_up (x + y) (2 ^ n) \<le> align_size_up x (2 ^ n) + y"
    using assms by (intro align_size_up_least) (simp_all add: align_size_up_ge align_size_up_dvd)
  have "align_size_up x (2 ^ n) \<le> align_size_up (x + y) (2 ^ n) - y"
    using assms align_size_up_ge[of "x + y" n]
    by (intro align_size_up_least dvd_diff align_size_up_dvd) simp_all
  then show "align_size_up x (2 ^ n) + y \<le> align_size_up (x + y) (2 ^ n)" by simp
qed

lemma align_ptr_up_int: "int (align_ptr_up p (2 ^ n)) = align_size_up (int p) (2 ^ n)"
  using align_size_up_ge[of "int p" n] by (simp add: align_ptr_up_def)

lemma align_ptr_down_eq: "align_ptr_down p (2 ^ n) = p - p mod 2 ^ n"
proof -
  have "int p - int p mod 2 ^ n = int (p - p mod 2 ^ n)"
    by (simp add: of_nat_diff zmod_int)
  then show ?thesis by (simp add: align_ptr_down_def align_size_down_pow2)
qed

lemma align_ptr_up_ge: "p \<le> align_ptr_up p (2 ^ n)"
  using align_ptr_up_int[of p n] align_size_up_ge[of "int p" n] by linarith

lemma align_ptr_up_lt: "align_ptr_up p (2 ^ n) < p + 2 ^ n"
proof -
  have "int (align_ptr_up p (2 ^ n)) < int (p + 2 ^ n)"
    using align_size_up_lt[of "int p" n] by (simp add: align_ptr_up_int)
  then show ?thesis by linarith
qed

lemma dvd_int_pow2: "(2 ^ n :: int) dvd int p \<longleftrightarrow> 2 ^ n dvd p"
  by (metis int_dvd_int_iff of_nat_numeral of_nat_power)

lemma align_ptr_up_dvd: "2 ^ n dvd align_ptr_up p (2 ^ n)"
  using align_size_up_dvd[of n "int p"] by (simp add: dvd_int_pow2[symmetric] align_ptr_up_int)

lemma align_ptr_up_least: "p \<le> q \<Longrightarrow> 2 ^ n dvd q \<Longrightarrow> align_ptr_up p (2 ^ n) \<le> q"
  using align_size_up_least[of "int p" "int q" n]
  by (simp add: dvd_int_pow2 align_ptr_up_int[symmetric])

lemma align_ptr_up_add: "2 ^ n dvd q \<Longrightarrow> align_ptr_up (p + q) (2 ^ n) = align_ptr_up p (2 ^ n) + q"
proof -
  assume "2 ^ n dvd q"
  then have "int (align_ptr_up (p + q) (2 ^ n)) = int (align_ptr_up p (2 ^ n) + q)"
    using align_size_up_add[of n "int q" "int p"] by (simp add: dvd_int_pow2 align_ptr_up_int)
  then show ?thesis by linarith
qed

lemma is_odd_iff: "is_odd x \<longleftrightarrow> odd x"
  by (simp add: is_odd_def and_one_eq odd_iff_mod_2_eq_one)

lemma log2_loop_Some:
  assumes "k \<le> 64" "64 - k < fuel" "2 ^ k \<le> x \<longrightarrow> x < size_t_max1" "0 < k \<longrightarrow> 2 ^ (k - 1) \<le> x"
    "x < size_t_max1"
  shows "\<exists>j. log2_loop fuel (int k - 1) (2 ^ k mod size_t_max1) x = Some (int j - 1) \<and>
     x < 2 ^ j \<and> (0 < j \<longrightarrow> 2 ^ (j - 1) \<le> x)"
  using assms
proof (induction "64 - k" arbitrary: k fuel)
  case 0
  then have "k = 64" "0 < fuel" by auto
  then show ?case using "0.prems" by (cases fuel) (auto simp: size_t_max1_def intro!: exI[of _ 64])
next
  case (Suc d)
  then have k: "k < 64" by simp
  obtain f where f: "fuel = Suc f" using Suc.prems(2) by (cases fuel) auto
  have small: "(2::nat) ^ k mod size_t_max1 = 2 ^ k"
    using k by (simp add: size_t_max1_def power_strict_increasing_iff del: power_numeral)
  show ?case
  proof (cases "2 ^ k \<le> x")
    case True
    have "\<exists>j. log2_loop f (int (Suc k) - 1) (2 ^ Suc k mod size_t_max1) x = Some (int j - 1) \<and>
        x < 2 ^ j \<and> (0 < j \<longrightarrow> 2 ^ (j - 1) \<le> x)"
      using Suc.hyps(2) Suc.prems True f k by (intro Suc.hyps(1)) auto
    moreover have "log2_loop fuel (int k - 1) (2 ^ k mod size_t_max1) x =
        log2_loop f (int (Suc k) - 1) (2 ^ Suc k mod size_t_max1) x"
      using True by (simp add: f small mult.commute)
    ultimately show ?thesis by simp
  next
    case False
    then show ?thesis using Suc.prems by (intro exI[of _ k]) (simp add: f small)
  qed
qed

lemma log2_loop_enough:
  "x < size_t_max1 \<Longrightarrow> \<exists>j. log2_loop 65 (-1) 1 x = Some (int j - 1) \<and>
     x < 2 ^ j \<and> (0 < j \<longrightarrow> 2 ^ (j - 1) \<le> x)"
proof -
  assume x: "x < size_t_max1"
  have one: "(2::nat) ^ 0 mod size_t_max1 = 1" by (simp add: size_t_max1_def)
  show ?thesis
    using log2_loop_Some[of 0 65 x] x unfolding one by (simp del: log2_loop.simps)
qed

lemma log2_intptr_bounds:
  assumes "0 < x" "x < size_t_max1"
  shows "0 \<le> log2_intptr x" "2 ^ nat (log2_intptr x) \<le> x" "x < 2 ^ Suc (nat (log2_intptr x))"
proof -
  obtain j where j: "log2_loop 65 (-1) 1 x = Some (int j - 1)" "x < 2 ^ j"
      "0 < j \<longrightarrow> 2 ^ (j - 1) \<le> x"
    using log2_loop_enough[OF assms(2)] by blast
  have j0: "0 < j" using j(2) assms(1) by (cases j) auto
  have l: "log2_intptr x = int (j - 1)" using j(1) j0 by (simp add: log2_intptr_def)
  show "0 \<le> log2_intptr x" "2 ^ nat (log2_intptr x) \<le> x" "x < 2 ^ Suc (nat (log2_intptr x))"
    using j(2,3) j0 by (simp_all only: l) (simp_all add: power_Suc[symmetric] del: power_Suc of_nat_diff)
qed

lemma log2_intptr_unique:
  assumes "2 ^ k \<le> x" "x < 2 ^ Suc k" "x < size_t_max1"
  shows "log2_intptr x = int k"
proof -
  have x: "0 < x" using assms(1) by (metis gr_zeroI le_zero_eq power_not_zero zero_neq_numeral)
  note b = log2_intptr_bounds[OF x assms(3)]
  have "(2::nat) ^ nat (log2_intptr x) < 2 ^ Suc k" using b(2) assms(2) by linarith
  then have "nat (log2_intptr x) < Suc k" by (rule power_less_imp_less_exp[rotated]) simp
  moreover have "(2::nat) ^ k < 2 ^ Suc (nat (log2_intptr x))" using b(3) assms(1) by linarith
  then have "k < Suc (nat (log2_intptr x))" by (rule power_less_imp_less_exp[rotated]) simp
  ultimately have "nat (log2_intptr x) = k" by simp
  with b(1) show ?thesis by simp
qed

lemma log2_intptr_pow2: "k < 64 \<Longrightarrow> log2_intptr (2 ^ k) = int k"
  by (rule log2_intptr_unique)
     (simp_all add: size_t_max1_def power_strict_increasing_iff del: power_numeral)

end
