(* ===== verification/BdaRegion.thy ===== *)
theory BdaRegion
  imports GlobalDefs
begin

text \<open>
  The region identifiers of \<open>bda/bdaGlobals.hpp\<close> and \<open>bda/bdaGlobals.cpp\<close>.
  A \<open>bdareg_t\<close> is a 32-bit word: 0 is no region, 1 the region of all other
  objects, \<open>2 ^ k\<close> the containers of the \<open>k\<close>-th class of interest and
  \<open>2 ^ k OR 1\<close> its elements.  A \<open>BDARegion*\<close> is the address of a cell of
  the table \<open>KlassRegionMap::_region_data\<close>; the two static limits of the class
  are fields of the table's record.
\<close>

section \<open>Values\<close>

type_synonym bdareg_t = "32 word"

datatype BDAType = BDA_other | BDA_container | BDA_element

definition region_shift :: nat where
  "region_shift = 1"

definition no_region :: bdareg_t where
  "no_region = 0"

definition region_start :: bdareg_t where
  "region_start = 1"

definition other_mask :: bdareg_t where
  "other_mask = 1"

definition container_mask :: "64 word" where
  "container_mask = push_bit 63 1 - 2"

definition badheap_mask :: bdareg_t where
  "badheap_mask = ucast ((push_bit 32 1 :: 64 word) - 1)"

definition badHeapWord :: bdareg_t where
  "badHeapWord = 0xBAADBABE"

text \<open>\<open>value & container_mask\<close>, computed at 64 bits and stored back to 32.\<close>

definition mask_out_element_obj :: "bdareg_t \<Rightarrow> bdareg_t" where
  "mask_out_element_obj v = ucast ((ucast v :: 64 word) AND container_mask)"

definition mask_out_element :: "bdareg_t \<Rightarrow> bdareg_t" where
  "mask_out_element v =
     (if v \<noteq> region_start then ucast ((ucast v :: 64 word) AND container_mask) else region_start)"

definition set_element :: "bdareg_t \<Rightarrow> bdareg_t" where
  "set_element v = v OR 1"

definition get_bda_type :: "bdareg_t \<Rightarrow> BDAType" where
  "get_bda_type v =
     (if v AND other_mask \<noteq> 0 \<and> (ucast v :: 64 word) AND container_mask \<noteq> 0 then BDA_element
      else if v AND other_mask \<noteq> 0 then BDA_other
      else BDA_container)"

definition space_id :: "bdareg_t \<Rightarrow> int" where
  "space_id v = log2_intptr (unat v) + 1"

definition is_null_region :: "bdareg_t \<Rightarrow> bool" where
  "is_null_region v \<longleftrightarrow> v = no_region"

definition is_element :: "bdareg_t \<Rightarrow> bool" where
  "is_element v \<longleftrightarrow> (ucast v :: 64 word) AND NOT container_mask = ucast region_start"

definition is_bad_region :: "bdareg_t \<Rightarrow> bool" where
  "is_bad_region v \<longleftrightarrow> v AND badheap_mask = badHeapWord \<or> v = 0"

definition toString :: "bdareg_t \<Rightarrow> string" where
  "toString v =
     (if v = 1 then ''General Object''
      else if v = 2 then ''Container Object''
      else if v = 3 then ''Element Object''
      else ''[No Region Assigned]'')"

section \<open>Pointers into the region table\<close>

record region_table =
  region_data :: "bdareg_t list"
  region_start_addr :: addr
  region_end_addr :: addr

definition bdaregion_size :: nat where
  "bdaregion_size = 4"

text \<open>\<open>&_region_data[i]\<close> and \<open>p->value()\<close>.\<close>

definition region_ptr :: "region_table \<Rightarrow> nat \<Rightarrow> addr" where
  "region_ptr rt i = region_start_addr rt + i * bdaregion_size"

definition region_index :: "region_table \<Rightarrow> addr \<Rightarrow> nat" where
  "region_index rt p = (p - region_start_addr rt) div bdaregion_size"

definition value_at :: "region_table \<Rightarrow> addr \<Rightarrow> bdareg_t result" where
  "value_at rt p =
     (if region_start_addr rt \<le> p \<and> region_index rt p < length (region_data rt)
      then Inr (region_data rt ! region_index rt p) else Inl OutOfBounds)"

definition no_region_ptr :: "region_table \<Rightarrow> addr" where
  "no_region_ptr rt = region_ptr rt 0"

definition region_start_ptr :: "region_table \<Rightarrow> addr" where
  "region_start_ptr rt = region_ptr rt 1"

definition last_region_ptr :: "region_table \<Rightarrow> addr" where
  "last_region_ptr rt = region_ptr rt (length (region_data rt) - 1)"

definition is_bad_region_ptr :: "region_table \<Rightarrow> addr \<Rightarrow> bool" where
  "is_bad_region_ptr rt p \<longleftrightarrow> p < region_start_addr rt \<or> p > region_end_addr rt"

definition is_valid :: "region_table \<Rightarrow> addr \<Rightarrow> bool" where
  "is_valid rt p \<longleftrightarrow> \<not> is_bad_region_ptr rt p \<and> p \<noteq> region_start_addr rt"

definition space_id_ptr :: "region_table \<Rightarrow> addr \<Rightarrow> int result" where
  "space_id_ptr rt v =
     (if is_bad_region_ptr rt v then Inr 0
      else bind_result (value_at rt v) (\<lambda>x. Inr (log2_intptr (unat x) + 1)))"

definition mask_out_element_ptr :: "region_table \<Rightarrow> addr \<Rightarrow> addr result" where
  "mask_out_element_ptr rt v =
     (if is_bad_region_ptr rt v then Inr (region_start_ptr rt)
      else bind_result (value_at rt v)
        (\<lambda>x. let idx = log2_intptr (unat x)
             in if is_odd idx \<and> idx > 2 then Inr (v - bdaregion_size) else Inr v))"

text \<open>
  \<open>encode_oop_element\<close> of \<open>bda/globals.inline.hpp\<close>: the region an object
  reached from region \<open>r\<close> is given.  The field is read and written through
  the object, so the model takes whether the field is null and returns the new
  region of the object, if it gets one.
\<close>

definition encode_oop_element :: "region_table \<Rightarrow> bool \<Rightarrow> addr \<Rightarrow> addr option result" where
  "encode_oop_element rt heap_oop_is_null r =
     (if heap_oop_is_null then Inr None
      else if \<not> is_valid rt r then Inr (Some (region_start_ptr rt))
      else bind_result (value_at rt r)
        (\<lambda>v. if is_element v then Inr (Some r) else Inr (Some (r + bdaregion_size))))"

section \<open>What the values mean\<close>

lemma container_mask_bit: "bit container_mask n \<longleftrightarrow> 0 < n \<and> n < 63"
proof -
  have eq: "container_mask = mask 63 AND NOT (mask 1)"
    by (simp add: container_mask_def mask_eq_exp_minus_1)
  show ?thesis
    unfolding eq by (auto simp only: bit_and_iff bit_mask_iff bit_not_iff exp_eq_zero_iff) auto
qed

lemma and_container_mask:
  "(ucast (v :: bdareg_t) :: 64 word) AND container_mask = ucast (v AND NOT 1)"
  by (rule bit_word_eqI) (auto simp: bit_simps container_mask_bit dest: bit_imp_le_length)

lemma ucast_and_container_mask:
  "ucast ((ucast v :: 64 word) AND container_mask) = (v AND NOT 1 :: bdareg_t)"
  by (rule bit_word_eqI) (auto simp: bit_simps container_mask_bit)

lemma and_container_mask_0:
  "(ucast (v :: bdareg_t) :: 64 word) AND container_mask = 0 \<longleftrightarrow> v AND NOT 1 = 0"
  using ucast_and_container_mask[of v] by (auto simp: and_container_mask)

lemma is_element_iff: "is_element v \<longleftrightarrow> bit v 0"
proof -
  have "(ucast v :: 64 word) AND NOT container_mask = of_bool (bit v 0)"
    by (rule bit_word_eqI) (auto simp: bit_simps container_mask_bit dest: bit_imp_le_length)
  then show ?thesis by (simp add: is_element_def region_start_def)
qed

section \<open>The identifiers of one class of interest\<close>

lemma or_1_and_not_1: "0 < k \<Longrightarrow> (2 ^ k OR 1 :: bdareg_t) AND NOT 1 = 2 ^ k"
  by (rule bit_word_eqI) (auto simp: bit_simps)

lemma pow2_and_not_1: "0 < k \<Longrightarrow> (2 ^ k :: bdareg_t) AND NOT 1 = 2 ^ k"
  by (rule bit_word_eqI) (auto simp: bit_simps)

lemma pow2_reg_neq:
  "k < 32 \<Longrightarrow> (2 ^ k :: bdareg_t) \<noteq> 0"
  using unat_pow2[of k, where 'a = 32] by fastforce

lemma space_id_container: "k < 32 \<Longrightarrow> space_id (2 ^ k) = int k + 1"
  by (simp add: space_id_def unat_pow2 log2_intptr_pow2)

lemma log2_element:
  assumes "0 < k" "k < 32"
  shows "log2_intptr (unat (2 ^ k OR 1 :: bdareg_t)) = int k"
proof (rule log2_intptr_unique)
  have le: "(2::nat) ^ k \<le> 2 ^ 31" using assms by (intro power_increasing) auto
  have "(2::nat) ^ 1 \<le> 2 ^ k" using assms by (intro power_increasing) auto
  then show "unat (2 ^ k OR 1 :: bdareg_t) < 2 ^ Suc k" using assms by (simp add: unat_pow2_or_1)
  show "unat (2 ^ k OR 1 :: bdareg_t) < size_t_max1"
    using assms le by (simp add: unat_pow2_or_1 size_t_max1_def)
qed (use assms in \<open>simp add: unat_pow2_or_1\<close>)

text \<open>
  The container identifier of a class and its element identifier are told apart
  by the low bit, fall in the same space, and masking the element bit out gives
  the container identifier back.
\<close>

theorem region_identifiers:
  assumes "0 < k" "k < 32"
  shows "get_bda_type (2 ^ k) = BDA_container \<and> get_bda_type (set_element (2 ^ k)) = BDA_element
    \<and> \<not> is_element (2 ^ k) \<and> is_element (set_element (2 ^ k))
    \<and> mask_out_element (set_element (2 ^ k)) = 2 ^ k \<and> mask_out_element (2 ^ k) = 2 ^ k
    \<and> space_id (2 ^ k) = int k + 1 \<and> space_id (set_element (2 ^ k)) = int k + 1"
proof -
  have bits: "\<not> bit (2 ^ k :: bdareg_t) 0" "bit (2 ^ k OR 1 :: bdareg_t) 0"
    using assms by (simp_all add: bit_simps)
  have ne: "(2 ^ k :: bdareg_t) \<noteq> 0" "(2 ^ k OR 1 :: bdareg_t) \<noteq> 1"
    using pow2_reg_neq[OF assms(2)] or_1_and_not_1[OF assms(1)] by fastforce+
  note nots = or_1_and_not_1[simplified] pow2_and_not_1[simplified]
  have ne1: "(2 ^ k :: bdareg_t) \<noteq> 1" using bits(1) bit_1_iff[of 0, where 'a = bdareg_t] by metis
  have m: "(2 ^ k :: bdareg_t) mod 2 = 0" using bits(1) by (simp add: bit_0 even_iff_mod_2_eq_zero)
  show ?thesis
    using assms ne ne1 bits m
    by (simp add: get_bda_type_def set_element_def is_element_iff mask_out_element_def
        ucast_and_container_mask and_container_mask_0 nots unat_pow2 log2_intptr_pow2
        space_id_container space_id_def log2_element other_mask_def region_start_def
        and_one_eq bit_0 odd_iff_mod_2_eq_one)
qed

end
