(* ===== verification/KlassRegions.thy ===== *)
theory KlassRegions
  imports BdaRegion
begin

text \<open>
  \<open>oops/klassRegionMap.hpp\<close> and \<open>oops/klassRegionMap.cpp\<close>: the table of
  region identifiers built from the \<open>BDAKlasses\<close> option, and the hash table
  from classes to regions.  Writes past the fixed buffers of the parser and past
  the ends of the region table are the fault \<^const>\<open>OutOfBounds\<close>.
\<close>

section \<open>Searching a growable array\<close>

text \<open>\<open>GrowableArray::find\<close>: the first index the predicate accepts, or -1.\<close>

fun ga_find_from :: "int \<Rightarrow> ('a \<Rightarrow> bool) \<Rightarrow> 'a list \<Rightarrow> int" where
  "ga_find_from i f [] = -1"
| "ga_find_from i f (x # xs) = (if f x then i else ga_find_from (i + 1) f xs)"

definition ga_find :: "('a \<Rightarrow> bool) \<Rightarrow> 'a list \<Rightarrow> int" where
  "ga_find f xs = ga_find_from 0 f xs"

section \<open>Parsing the option\<close>

type_synonym klass_region_el = "string \<times> bdareg_t"

record parse_state =
  next_region :: bdareg_t
  bda_class_names :: "klass_region_el list"

definition line_buffer_size :: nat where
  "line_buffer_size = 256"

definition name_buffer_size :: nat where
  "name_buffer_size = 64"

text \<open>
  The copying loop of \<open>parse_from_line\<close>: the first of \<open>.\<close> and \<open>/\<close>
  met becomes the separator, and both are written as it.
\<close>

fun copy_name :: "string \<Rightarrow> char option \<Rightarrow> string \<Rightarrow> string result" where
  "copy_name [] delimiter buffer = Inr buffer"
| "copy_name (c # cs) delimiter buffer =
     (let delimiter' =
            (if c = CHR ''.'' \<and> delimiter = None then Some CHR ''.''
             else if c = CHR ''/'' \<and> delimiter = None then Some CHR ''/''
             else delimiter);
          out = (if c = CHR ''/'' \<or> c = CHR ''.'' then the delimiter' else c)
      in if length buffer < name_buffer_size then copy_name cs delimiter' (buffer @ [out])
         else Inl OutOfBounds)"

definition parse_from_line :: "parse_state \<Rightarrow> string \<Rightarrow> parse_state result" where
  "parse_from_line s line =
     bind_result (copy_name line None [])
       (\<lambda>buffer.
          if buffer = [] then Inr s
          else if length buffer < name_buffer_size then
            (let r = push_bit region_shift (next_region s)
             in Inr (s\<lparr>next_region := r, bda_class_names := bda_class_names s @ [(buffer, r)]\<rparr>))
          else Inl OutOfBounds)"

fun parse_loop :: "parse_state \<Rightarrow> string \<Rightarrow> string \<Rightarrow> parse_state result" where
  "parse_loop s buffer [] =
     (if length buffer < line_buffer_size then parse_from_line s buffer else Inl OutOfBounds)"
| "parse_loop s buffer (c # cs) =
     (if length buffer < line_buffer_size then
        (if c = CHR '','' then
           bind_result (parse_from_line s buffer) (\<lambda>s'. parse_loop s' [] cs)
         else parse_loop s (buffer @ [c]) cs)
      else Inl OutOfBounds)"

definition parse_from_string :: "parse_state \<Rightarrow> string \<Rightarrow> parse_state result" where
  "parse_from_string s line = parse_loop s [] line"

section \<open>The region table\<close>

text \<open>
  The filling loop of the constructor.  \<open>_region_data\<close> is freshly allocated, so
  the model starts from an arbitrary list of the right length.  A write outside
  the table, in front of it or past it, is \<open>OutOfBounds\<close>.
\<close>

function fill_region_data :: "nat \<Rightarrow> bdareg_t \<Rightarrow> bdareg_t list \<Rightarrow> bdareg_t list result" where
  "fill_region_data j reg rd =
     (if j < length rd then
        (let reg' = push_bit region_shift reg;
             idx = log2_intptr (unat reg') * 2
         in if idx < 0 \<or> nat idx + 1 \<ge> length rd then Inl OutOfBounds
            else fill_region_data (j + 2) reg' (rd[nat idx := reg', nat idx + 1 := reg' OR 1]))
      else Inr rd)"
  by pat_completeness auto
termination
  by (relation "measure (\<lambda>(j, reg, rd). length rd - j)") auto

declare fill_region_data.simps [simp del]

text \<open>\<open>region_elem\<close> runs along the table with no bound; None is running off it.\<close>

fun region_elem_from :: "nat \<Rightarrow> bdareg_t list \<Rightarrow> bdareg_t \<Rightarrow> nat option" where
  "region_elem_from i [] r = None"
| "region_elem_from i (v # vs) r = (if v = r then Some i else region_elem_from (i + 1) vs r)"

definition region_elem :: "region_table \<Rightarrow> bdareg_t \<Rightarrow> addr result" where
  "region_elem rt r =
     (case region_elem_from 0 (region_data rt) r of
        Some i \<Rightarrow> Inr (region_ptr rt i) | None \<Rightarrow> Inl OutOfBounds)"

section \<open>The hash table\<close>

datatype klass = Klass
  (klass_addr: addr)
  (external_name: string)
  (super_depth: nat)
  (primary_supers: "klass option list")

definition primary_super_limit :: nat where
  "primary_super_limit = 8"

text \<open>
  The display of a class holds \<open>primary_super_limit\<close> entries, as the source asserts; the two loops
  that read it stop at that limit.
\<close>

definition primary_super_of_depth :: "klass \<Rightarrow> nat \<Rightarrow> klass option" where
  "primary_super_of_depth k i = primary_supers k ! i"

record klass_entry =
  e_hash :: nat
  e_literal :: addr
  e_klass :: addr

record krh =
  table_size :: nat
  buckets :: "nat \<Rightarrow> klass_entry list"
  number_of_entries :: nat

text \<open>The encoding of class pointers: the flag, \<open>narrow_klass_base\<close> and \<open>narrow_klass_shift\<close>.\<close>

record klass_encoding =
  UseCompressedClassPointers :: bool
  narrow_klass_base :: addr
  narrow_klass_shift :: nat

text \<open>
  The value the source returns; its assertions on the address of the class, which has to be aligned
  and near enough to the base to be encoded, are left out.
\<close>

definition encode_klass_not_null :: "klass_encoding \<Rightarrow> addr \<Rightarrow> nat" where
  "encode_klass_not_null ke v =
     (pointer_delta_sz v (narrow_klass_base ke) 1 div 2 ^ narrow_klass_shift ke) mod 2 ^ 32"

definition compressed_ptr :: "klass_encoding \<Rightarrow> addr \<Rightarrow> nat" where
  "compressed_ptr ke k =
     (if UseCompressedClassPointers ke then encode_klass_not_null ke k else k mod 2 ^ 32)"

definition hash_to_index :: "krh \<Rightarrow> nat \<Rightarrow> nat" where
  "hash_to_index t full_hash = full_hash mod table_size t"

text \<open>\<open>BasicHashtable::add_entry\<close> links the entry in front of its bucket.\<close>

definition basic_add_entry :: "krh \<Rightarrow> nat \<Rightarrow> klass_entry \<Rightarrow> krh" where
  "basic_add_entry t index entry =
     t\<lparr>buckets := (buckets t)(index := entry # buckets t index),
       number_of_entries := number_of_entries t + 1\<rparr>"

definition krh_add_entry :: "klass_encoding \<Rightarrow> krh \<Rightarrow> addr \<Rightarrow> addr \<Rightarrow> krh" where
  "krh_add_entry ke t k region =
     (let h = compressed_ptr ke k
      in basic_add_entry t (hash_to_index t h)
           \<lparr>e_hash = h, e_literal = region, e_klass = k\<rparr>)"

text \<open>
  The loop of \<open>get_region\<close> over a bucket with more than one entry: the literal
  of the entry of \<open>k\<close>, or None when the chain ends, in which case the source
  adds an entry for \<open>k\<close> and stops at it.
\<close>

fun chain_lookup :: "klass_entry list \<Rightarrow> addr \<Rightarrow> addr option" where
  "chain_lookup [] k = None"
| "chain_lookup (e # es) k = (if e_klass e = k then Some (e_literal e) else chain_lookup es k)"

definition get_region ::
  "klass_encoding \<Rightarrow> region_table \<Rightarrow> krh \<Rightarrow> addr \<Rightarrow> (krh \<times> addr) result" where
  "get_region ke rt t k =
     (if number_of_entries t = 0 then Inr (t, no_region_ptr rt)
      else
        (case buckets t (hash_to_index t (compressed_ptr ke k)) of
           [] \<Rightarrow> bind_result (region_elem rt region_start) (\<lambda>r. Inr (krh_add_entry ke t k r, r))
         | [e] \<Rightarrow> Inr (t, e_literal e)
         | es \<Rightarrow>
             (case chain_lookup es k of
                Some r \<Rightarrow> Inr (t, r)
              | None \<Rightarrow> Inr (krh_add_entry ke t k (region_start_ptr rt), region_start_ptr rt))))"

section \<open>The map\<close>

record krm =
  krm_names :: "klass_region_el list"
  krm_table :: region_table
  krm_map :: krh

definition krm_table_size :: nat where
  "krm_table_size = 4096"

definition krh_empty :: krh where
  "krh_empty = \<lparr>table_size = krm_table_size, buckets = (\<lambda>_. []), number_of_entries = 0\<rparr>"

text \<open>\<open>_next_region\<close> and \<open>_bda_class_names\<close> as the constructor leaves them before parsing.\<close>

definition init_parse :: parse_state where
  "init_parse = \<lparr>next_region = region_start, bda_class_names = []\<rparr>"

text \<open>
  The constructor.  \<open>base\<close> and \<open>rd\<close> are the address and the contents of
  the freshly allocated array, so \<open>rd\<close> has the length the source asks for.
\<close>

definition new_krm :: "string \<Rightarrow> addr \<Rightarrow> (nat \<Rightarrow> bdareg_t) \<Rightarrow> krm result" where
  "new_krm bda_klasses base garbage =
     bind_result (parse_from_string init_parse bda_klasses)
       (\<lambda>s. let sz = 2 * length (bda_class_names s) + 2;
                rd = (map garbage [0..<sz])[0 := no_region, 1 := region_start]
            in bind_result (fill_region_data 2 region_start rd)
                 (\<lambda>rd'. Inr
                    \<lparr>krm_names = bda_class_names s,
                     krm_table = \<lparr>region_data = rd', region_start_addr = base,
                                  region_end_addr = base + (sz - 1) * bdaregion_size\<rparr>,
                     krm_map = krh_empty\<rparr>))"

definition equals_name :: "string \<Rightarrow> klass_region_el \<Rightarrow> bool" where
  "equals_name klass_name v \<longleftrightarrow> klass_name = fst v"

definition is_bda_type :: "krm \<Rightarrow> string \<Rightarrow> bool" where
  "is_bda_type m name \<longleftrightarrow> ga_find (equals_name name) (krm_names m) \<ge> 0"

definition bda_type :: "krm \<Rightarrow> string \<Rightarrow> addr result" where
  "bda_type m name =
     (let i = ga_find (equals_name name) (krm_names m)
      in if i < 0 then Inl (AssertFailed ''index out of bounds'')
         else
           (let r = snd (krm_names m ! nat i);
                idx = log2_intptr (unat r) * 2
            in if idx < 0 then Inl OutOfBounds else Inr (region_ptr (krm_table m) (nat idx))))"

definition add_other_entry :: "klass_encoding \<Rightarrow> krm \<Rightarrow> klass \<Rightarrow> krm" where
  "add_other_entry ke m k =
     m\<lparr>krm_map := krh_add_entry ke (krm_map m) (klass_addr k) (region_start_ptr (krm_table m))\<rparr>"

definition add_region_entry :: "klass_encoding \<Rightarrow> krm \<Rightarrow> klass \<Rightarrow> addr \<Rightarrow> krm" where
  "add_region_entry ke m k r =
     m\<lparr>krm_map := krh_add_entry ke (krm_map m) (klass_addr k) r\<rparr>"

text \<open>The loop of \<open>KlassRegionMap::add_entry\<close> from depth \<open>index\<close> on.\<close>

function add_entry_from :: "klass_encoding \<Rightarrow> krm \<Rightarrow> klass \<Rightarrow> nat \<Rightarrow> krm result" where
  "add_entry_from ke m k index =
     (if index \<le> super_depth k then
        (if index = primary_super_limit then Inr (add_other_entry ke m k)
         else
           (case primary_super_of_depth k index of
              Some super \<Rightarrow>
                if is_bda_type m (external_name super) then
                  bind_result (bda_type m (external_name super))
                    (\<lambda>region. Inr (add_region_entry ke m k region))
                else add_entry_from ke m k (index + 1)
            | None \<Rightarrow> add_entry_from ke m k (index + 1)))
      else Inr (add_other_entry ke m k))"
  by pat_completeness auto
termination
  by (relation "measure (\<lambda>(ke, m, k, index). Suc (super_depth k) - index)") auto

declare add_entry_from.simps [simp del]

definition krm_add_entry :: "klass_encoding \<Rightarrow> krm \<Rightarrow> klass \<Rightarrow> krm result" where
  "krm_add_entry ke m k = add_entry_from ke m k 0"

definition region_for_klass :: "klass_encoding \<Rightarrow> krm \<Rightarrow> addr \<Rightarrow> (krm \<times> addr) result" where
  "region_for_klass ke m k =
     bind_result (get_region ke (krm_table m) (krm_map m) k)
       (\<lambda>(t, r). Inr (m\<lparr>krm_map := t\<rparr>, r))"

definition is_bda_klass :: "klass_encoding \<Rightarrow> krm \<Rightarrow> addr \<Rightarrow> (krm \<times> addr) result" where
  "is_bda_klass ke m k =
     bind_result (region_for_klass ke m k)
       (\<lambda>(m', r).
          if r \<noteq> no_region_ptr (krm_table m) \<and> r \<noteq> region_start_ptr (krm_table m)
          then Inr (m', r) else Inr (m', NULL))"

definition number_bdaregions :: "krm \<Rightarrow> nat" where
  "number_bdaregions m = length (krm_names m)"

section \<open>The parser reads back a list of class names\<close>

definition wf_name :: "string \<Rightarrow> bool" where
  "wf_name nm \<longleftrightarrow>
     nm \<noteq> [] \<and> length nm < name_buffer_size \<and> CHR '','' \<notin> set nm \<and>
     (CHR ''/'' \<notin> set nm \<or> CHR ''.'' \<notin> set nm)"

fun join_names :: "string list \<Rightarrow> string" where
  "join_names [] = []"
| "join_names [nm] = nm"
| "join_names (nm # nms) = nm @ CHR '','' # join_names nms"

text \<open>The identifiers handed out to \<open>n\<close> classes when \<open>r\<close> is \<open>_next_region\<close>.\<close>

fun region_ids :: "bdareg_t \<Rightarrow> nat \<Rightarrow> bdareg_t list" where
  "region_ids r 0 = []"
| "region_ids r (Suc n) = push_bit region_shift r # region_ids (push_bit region_shift r) n"

lemma copy_name_one_delimiter:
  assumes "\<And>c. c \<in> set nm \<Longrightarrow> c \<noteq> d'" "{d, d'} = {CHR ''/'', CHR ''.''}"
    "delimiter = None \<or> delimiter = Some d" "length buf + length nm \<le> name_buffer_size"
  shows "copy_name nm delimiter buf = Inr (buf @ nm)"
  using assms
proof (induction nm arbitrary: delimiter buf)
  case (Cons c nm)
  have c: "c \<noteq> d'" using Cons.prems(1) by simp
  define d2 where "d2 = (if c = d then Some d else delimiter)"
  have d2: "d2 = None \<or> d2 = Some d" using Cons.prems(3) by (auto simp: d2_def)
  have "copy_name nm d2 (buf @ [c]) = Inr ((buf @ [c]) @ nm)"
    using Cons.prems d2 by (intro Cons.IH) auto
  then show ?case
    using Cons.prems(2,3,4) c by (auto simp: d2_def Let_def doubleton_eq_iff)
qed simp

lemma parse_from_line_name:
  assumes "wf_name nm"
  shows "parse_from_line s nm =
    Inr (s\<lparr>next_region := push_bit region_shift (next_region s),
           bda_class_names := bda_class_names s @ [(nm, push_bit region_shift (next_region s))]\<rparr>)"
proof -
  have "copy_name nm None [] = Inr ([] @ nm)"
  proof (cases "CHR ''/'' \<in> set nm")
    case True
    then show ?thesis using assms unfolding wf_name_def
      by (intro copy_name_one_delimiter[where d = "CHR ''/''" and d' = "CHR ''.''"]) auto
  next
    case False
    then show ?thesis using assms unfolding wf_name_def
      by (intro copy_name_one_delimiter[where d = "CHR ''.''" and d' = "CHR ''/''"]) auto
  qed
  then show ?thesis using assms by (simp add: parse_from_line_def wf_name_def Let_def)
qed

lemma parse_loop_name:
  assumes "CHR '','' \<notin> set nm" "length buf + length nm \<le> line_buffer_size"
  shows "parse_loop s buf (nm @ cs) = parse_loop s (buf @ nm) cs"
  using assms
proof (induction nm arbitrary: buf)
  case (Cons c nm)
  then show ?case using Cons.IH[of "buf @ [c]"] by auto
qed simp

lemma wf_name_fits: "wf_name nm \<Longrightarrow> length nm < line_buffer_size"
  by (simp add: wf_name_def name_buffer_size_def line_buffer_size_def)

lemma parse_loop_join:
  assumes "list_all wf_name nms" "nms \<noteq> []"
  shows "\<exists>r. parse_loop s [] (join_names nms) =
    Inr (s\<lparr>next_region := r,
           bda_class_names := bda_class_names s @ zip nms (region_ids (next_region s) (length nms))\<rparr>)"
  using assms
proof (induction nms arbitrary: s rule: join_names.induct)
  case (2 nm)
  then have "parse_loop s [] (nm @ []) = parse_loop s ([] @ nm) []"
    using wf_name_fits[of nm] by (intro parse_loop_name) (auto simp: wf_name_def)
  then show ?case using 2 wf_name_fits[of nm] by (auto simp: parse_from_line_name)
next
  case (3 nm nm' nms)
  then have w: "wf_name nm" by simp
  have "parse_loop s [] (nm @ CHR '','' # join_names (nm' # nms)) =
      parse_loop s ([] @ nm) (CHR '','' # join_names (nm' # nms))"
    using w wf_name_fits[of nm] by (intro parse_loop_name) (auto simp: wf_name_def)
  then show ?case
    using 3 w wf_name_fits[of nm]
      3(1)[of "s\<lparr>next_region := push_bit region_shift (next_region s),
        bda_class_names := bda_class_names s @ [(nm, push_bit region_shift (next_region s))]\<rparr>"]
    by (simp add: parse_from_line_name)
qed simp

lemma region_ids_length [simp]: "length (region_ids r n) = n"
  by (induction n arbitrary: r) auto

lemma region_ids_nth: "i < n \<Longrightarrow> region_ids r n ! i = push_bit (Suc i) r"
proof (induction n arbitrary: r i)
  case (Suc n)
  then show ?case by (cases i) (auto simp: region_shift_def push_bit_push_bit)
qed simp

section \<open>The layout of the region table\<close>

definition region_layout :: "nat \<Rightarrow> bdareg_t" where
  "region_layout i =
     (if i = 0 then no_region
      else if even i then 2 ^ (i div 2) else 2 ^ (i div 2) OR 1)"

lemma region_layout_simps [simp]:
  "region_layout 0 = no_region" "region_layout (Suc 0) = region_start"
  "0 < k \<Longrightarrow> region_layout (2 * k) = 2 ^ k" "region_layout (Suc (2 * k)) = 2 ^ k OR 1"
  by (auto simp: region_layout_def region_start_def)

lemma fill_region_data_step:
  assumes "length rd = 2 * n + 2" "k < n" "k < 31"
  shows "fill_region_data (2 * k + 2) (2 ^ k) rd =
    fill_region_data (2 * Suc k + 2) (2 ^ Suc k)
      (rd[2 * Suc k := 2 ^ Suc k, Suc (2 * Suc k) := 2 ^ Suc k OR 1])"
proof -
  have "push_bit region_shift (2 ^ k) = (2 ^ Suc k :: bdareg_t)"
    by (simp add: region_shift_def push_bit_eq_mult)
  moreover have "log2_intptr (unat (2 ^ Suc k :: bdareg_t)) * 2 = int (2 * Suc k)"
    using assms(3) by (simp add: unat_pow2 log2_intptr_pow2 del: power_Suc of_nat_Suc) simp
  moreover have "\<not> Suc (2 * n) \<le> 2 * Suc k" "Suc (Suc (Suc (Suc (2 * k)))) = Suc (Suc (2 * Suc k))"
    using assms(2) by simp_all
  ultimately show ?thesis
    using assms
    by (subst fill_region_data.simps) (simp add: Let_def del: power_Suc mult_Suc_right of_nat_mult of_nat_Suc)
qed

lemma fill_region_data_prefix:
  assumes "length rd = 2 * n + 2" "k \<le> n" "k \<le> 31"
    "rd ! 0 = no_region" "rd ! 1 = region_start"
  shows "\<exists>rd'. fill_region_data 2 region_start rd = fill_region_data (2 * k + 2) (2 ^ k) rd' \<and>
    length rd' = length rd \<and> (\<forall>i < 2 * k + 2. rd' ! i = region_layout i)"
  using assms(2,3)
proof (induction k)
  case 0
  then show ?case using assms by (intro exI[of _ rd]) (auto simp: region_start_def less_Suc_eq numeral_2_eq_2)
next
  case (Suc k)
  then obtain rd' where rd': "fill_region_data 2 region_start rd = fill_region_data (2 * k + 2) (2 ^ k) rd'"
      "length rd' = length rd" "\<forall>i < 2 * k + 2. rd' ! i = region_layout i"
    by auto
  let ?rd = "rd'[2 * Suc k := 2 ^ Suc k, Suc (2 * Suc k) := 2 ^ Suc k OR 1]"
  have "\<forall>i < 2 * Suc k + 2. ?rd ! i = region_layout i"
  proof (intro allI impI)
    fix i assume "i < 2 * Suc k + 2"
    then consider "i < 2 * k + 2" | "i = 2 * Suc k" | "i = Suc (2 * Suc k)"
      by (metis add_2_eq_Suc' less_Suc_eq mult_Suc_right add.commute)
    then show "?rd ! i = region_layout i"
      using rd'(2,3) assms(1) Suc.prems
      by cases (simp_all only: nth_list_update region_layout_simps, auto)
  qed
  then show ?case
    using rd' fill_region_data_step[of rd' n k] assms(1) Suc.prems
    by (intro exI[of _ ?rd]) (simp del: power_Suc)
qed

lemma fill_region_data_layout:
  assumes "length rd = 2 * n + 2" "n \<le> 31" "rd ! 0 = no_region" "rd ! 1 = region_start"
  shows "fill_region_data 2 region_start rd = Inr (map region_layout [0..<2 * n + 2])"
proof -
  obtain rd' where "fill_region_data 2 region_start rd = fill_region_data (2 * n + 2) (2 ^ n) rd'"
      "length rd' = length rd" "\<forall>i < 2 * n + 2. rd' ! i = region_layout i"
    using fill_region_data_prefix[of rd n n] assms by auto
  moreover from this have "rd' = map region_layout [0..<2 * n + 2]"
    using assms(1) by (intro nth_equalityI) (auto simp del: upt_Suc)
  moreover have "fill_region_data (2 * n + 2) (2 ^ n) rd' = Inr rd'"
    using assms(1) \<open>length rd' = length rd\<close> by (simp add: fill_region_data.simps)
  ultimately show ?thesis by (simp del: upt_Suc)
qed

lemma fill_region_data_too_many:
  assumes "length rd = 2 * n + 2" "n > 31" "rd ! 0 = no_region" "rd ! 1 = region_start"
  shows "fill_region_data 2 region_start rd = Inl OutOfBounds"
proof -
  obtain rd' where rd': "fill_region_data 2 region_start rd = fill_region_data (2 * 31 + 2) (2 ^ 31) rd'"
      "length rd' = length rd"
    using fill_region_data_prefix[of rd n 31] assms by auto
  have "push_bit region_shift (2 ^ 31) = (0 :: bdareg_t)"
    by (simp add: region_shift_def push_bit_eq_mult)
  moreover have "log2_intptr 0 = -1" by (simp add: log2_intptr_def numeral_eq_Suc)
  ultimately show ?thesis
    using rd' assms(1,2) by (simp add: fill_region_data.simps Let_def)
qed

section \<open>The map built by the constructor\<close>

lemma ga_find_from_Some:
  assumes "i < length xs" "f (xs ! i)" "\<And>i'. i' < i \<Longrightarrow> \<not> f (xs ! i')"
  shows "ga_find_from j f xs = j + int i"
  using assms
proof (induction xs arbitrary: i j)
  case (Cons x xs)
  show ?case
  proof (cases i)
    case (Suc i')
    then have "\<not> f x" using Cons.prems(3)[of 0] by simp
    moreover have "ga_find_from (j + 1) f xs = (j + 1) + int i'"
      using Cons.prems Suc by (intro Cons.IH) fastforce+
    ultimately show ?thesis by (simp add: Suc)
  qed (use Cons in auto)
qed simp

lemma ga_find_from_None: "(\<forall>x\<in>set xs. \<not> f x) \<Longrightarrow> ga_find_from j f xs = -1"
  by (induction xs arbitrary: j) auto

lemma ga_find_from_ge: "0 \<le> j \<Longrightarrow> ga_find_from j f xs = -1 \<or> 0 \<le> ga_find_from j f xs"
  by (induction xs arbitrary: j) auto

lemma ga_find_ge_iff: "0 \<le> ga_find f xs \<longleftrightarrow> (\<exists>x\<in>set xs. f x)"
proof
  assume "\<exists>x\<in>set xs. f x"
  then obtain i where "i < length xs" "f (xs ! i)" by (auto simp: in_set_conv_nth)
  then obtain i where i: "i < length xs" "f (xs ! i)" "\<And>i'. i' < i \<Longrightarrow> \<not> (i' < length xs \<and> f (xs ! i'))"
    using exists_least_iff[of "\<lambda>i. i < length xs \<and> f (xs ! i)"] by blast
  then have "ga_find_from 0 f xs = 0 + int i" by (intro ga_find_from_Some) auto
  then show "0 \<le> ga_find f xs" by (simp add: ga_find_def)
qed (use ga_find_from_None[of xs f 0] in \<open>auto simp: ga_find_def\<close>)

text \<open>The map the constructor leaves for the classes \<open>nms\<close>.\<close>

definition krm_for :: "string list \<Rightarrow> addr \<Rightarrow> krm" where
  "krm_for nms base =
     \<lparr>krm_names = zip nms (map (\<lambda>i. 2 ^ (i + 1)) [0..<length nms]),
      krm_table = \<lparr>region_data = map region_layout [0..<2 * length nms + 2],
                   region_start_addr = base,
                   region_end_addr = base + (2 * length nms + 1) * bdaregion_size\<rparr>,
      krm_map = krh_empty\<rparr>"

lemma parse_join_names:
  assumes "list_all wf_name nms"
  obtains s where "parse_from_string init_parse (join_names nms) = Inr s"
    "bda_class_names s = zip nms (map (\<lambda>i. 2 ^ (i + 1)) [0..<length nms])"
proof -
  have "region_ids region_start (length nms) = map (\<lambda>i. 2 ^ (i + 1)) [0..<length nms]"
    by (rule nth_equalityI) (auto simp: region_ids_nth region_start_def push_bit_of_1)
  then show ?thesis
    using that parse_loop_join[OF assms, of init_parse]
    by (cases nms)
       (auto simp: parse_from_string_def init_parse_def parse_from_line_def line_buffer_size_def)
qed

lemma new_krm_ok:
  assumes "list_all wf_name nms" "length nms \<le> 31"
  shows "new_krm (join_names nms) base garbage = Inr (krm_for nms base)"
proof -
  obtain s where s: "parse_from_string init_parse (join_names nms) = Inr s"
      "bda_class_names s = zip nms (map (\<lambda>i. 2 ^ (i + 1)) [0..<length nms])"
    by (rule parse_join_names[OF assms(1)])
  show ?thesis
    using fill_region_data_layout[OF _ assms(2), of
        "(map garbage [0..<2 * length nms + 2])[0 := no_region, 1 := region_start]"]
    by (simp add: new_krm_def s krm_for_def Let_def del: upt_Suc)
qed

lemma bda_type_krm_for:
  assumes "distinct nms" "i < length nms" "length nms \<le> 31"
  shows "bda_type (krm_for nms base) (nms ! i) = Inr (region_ptr (krm_table (krm_for nms base)) (2 * i + 2))"
proof -
  have "ga_find_from 0 (equals_name (nms ! i)) (krm_names (krm_for nms base)) = 0 + int i"
    using assms by (intro ga_find_from_Some)
      (auto simp: krm_for_def equals_name_def nth_eq_iff_index_eq)
  moreover have "unat (2 ^ Suc i :: bdareg_t) = 2 ^ Suc i" using assms by (intro unat_pow2) simp
  moreover have "log2_intptr (2 ^ Suc i) = int (Suc i)" using assms by (intro log2_intptr_pow2) simp
  moreover have "nat (int (Suc i) * 2) = 2 * i + 2" by simp
  ultimately show ?thesis
    using assms unfolding bda_type_def ga_find_def
    by (simp add: krm_for_def Let_def del: power_Suc of_nat_Suc)
qed

text \<open>
  C18: parsing the comma-separated list of class names of the \<open>BDAKlasses\<close>
  option gives the names back in order, the \<open>i\<close>-th with the identifier
  \<open>2 ^ (i + 1)\<close>, for names that are not empty, fit the buffer and do not mix
  dots and slashes.
\<close>

theorem parse_roundtrip:
  assumes "list_all wf_name nms"
  shows "\<exists>s. parse_from_string init_parse (join_names nms) = Inr s \<and>
    bda_class_names s = zip nms (map (\<lambda>i. 2 ^ (i + 1)) [0..<length nms])"
  by (rule parse_join_names[OF assms]) blast

theorem parse_roundtrip_witness:
  "list_all wf_name [''java.util.Map'', ''a/b'']
    \<and> (\<exists>s. parse_from_string init_parse ''java.util.Map,a/b'' = Inr s \<and>
        bda_class_names s = [(''java.util.Map'', 2), (''a/b'', 4)])"
proof -
  have wf: "list_all wf_name [''java.util.Map'', ''a/b'']"
    by (simp add: wf_name_def name_buffer_size_def)
  show ?thesis using parse_roundtrip[OF wf] wf by (simp add: upt_rec)
qed

text \<open>
  C19: for up to 31 distinct class names the constructor builds a table in which
  the pointer \<open>bda_type\<close> gives for the \<open>i\<close>-th class is a valid region
  pointer, its cell holds the container identifier of the class and the next cell
  the element identifier, whatever the allocated memory held before.
\<close>

theorem new_krm_regions:
  assumes "list_all wf_name nms" "distinct nms" "length nms \<le> 31" "i < length nms"
  shows "\<exists>m p. new_krm (join_names nms) base garbage = Inr m \<and> bda_type m (nms ! i) = Inr p \<and>
    is_valid (krm_table m) p \<and> value_at (krm_table m) p = Inr (2 ^ (i + 1)) \<and>
    value_at (krm_table m) (p + bdaregion_size) = Inr (set_element (2 ^ (i + 1)))"
proof -
  let ?rt = "krm_table (krm_for nms base)"
  have v: "value_at ?rt (region_ptr ?rt j) = Inr (region_layout j)" if "j < 2 * length nms + 2" for j
    using that by (auto simp: krm_for_def value_at_def region_ptr_def region_index_def bdaregion_size_def
        simp del: upt_Suc)
  have "region_ptr ?rt (2 * i + 2) + bdaregion_size = region_ptr ?rt (Suc (2 * Suc i))"
    by (simp add: region_ptr_def)
  moreover have "is_valid ?rt (region_ptr ?rt (2 * i + 2))"
    using assms by (auto simp: krm_for_def is_valid_def is_bad_region_ptr_def region_ptr_def bdaregion_size_def)
  moreover have "value_at ?rt (region_ptr ?rt (2 * i + 2)) = Inr (2 ^ (i + 1))"
    using v[of "2 * Suc i"] assms(4) region_layout_simps(3)[of "Suc i"] by simp
  moreover have "value_at ?rt (region_ptr ?rt (Suc (2 * Suc i))) = Inr (2 ^ (i + 1) OR 1)"
    using v[of "Suc (2 * Suc i)"] assms(4) region_layout_simps(4)[of "Suc i"] by simp
  ultimately show ?thesis
    using new_krm_ok[OF assms(1,3)] bda_type_krm_for[OF assms(2,4,3), of base]
    by (simp add: set_element_def)
qed

theorem new_krm_regions_witness:
  "\<exists>m p. new_krm ''A,B.C'' 4096 (\<lambda>_. 77) = Inr m \<and> bda_type m ''B.C'' = Inr p \<and>
    is_valid (krm_table m) p \<and> value_at (krm_table m) p = Inr 4 \<and>
    value_at (krm_table m) (p + bdaregion_size) = Inr (set_element 4)"
  using new_krm_regions[of "[''A'', ''B.C'']" 1 4096 "\<lambda>_. 77"]
  by (simp add: wf_name_def name_buffer_size_def)

text \<open>
  C27: with more than 31 classes the identifier is shifted out of its 32 bits,
  its logarithm is -1 and the constructor writes before the table.
\<close>

theorem new_krm_too_many:
  assumes "list_all wf_name nms" "length nms > 31"
  shows "new_krm (join_names nms) base garbage = Inl OutOfBounds"
proof -
  obtain s where s: "parse_from_string init_parse (join_names nms) = Inr s"
      "bda_class_names s = zip nms (map (\<lambda>i. 2 ^ (i + 1)) [0..<length nms])"
    by (rule parse_join_names[OF assms(1)])
  show ?thesis
    using fill_region_data_too_many[OF _ assms(2), of
        "(map garbage [0..<2 * length nms + 2])[0 := no_region, 1 := region_start]"]
    by (simp add: new_krm_def s Let_def del: upt_Suc)
qed

theorem new_krm_too_many_witness:
  "new_krm (join_names (replicate 32 ''A'')) 4096 (\<lambda>_. 0) = Inl OutOfBounds"
  by (rule new_krm_too_many) (simp_all add: wf_name_def name_buffer_size_def list_all_iff)

section \<open>Classes and their regions\<close>

text \<open>Entering a list of classes with their values, in order.\<close>

definition enter_all :: "('t \<Rightarrow> 'k \<Rightarrow> 'v \<Rightarrow> 't) \<Rightarrow> 't \<Rightarrow> ('k \<times> 'v) list \<Rightarrow> 't" where
  "enter_all add t kvs = foldl (\<lambda>t (k, v). add t k v) t kvs"

lemma enter_all_Nil [simp]: "enter_all add t [] = t"
  by (simp add: enter_all_def)

lemma enter_all_snoc [simp]:
  "enter_all add t (kvs @ [kv]) = add (enter_all add t kvs) (fst kv) (snd kv)"
  by (simp add: enter_all_def split: prod.split)

text \<open>
  What the map of classes relies on: a table in which a class that was entered
  is found with its value, entries for other classes leave it alone, and a lookup
  changes the table at most by entering the class looked up.
\<close>

locale klass_table =
  fixes empty :: 't
    and add :: "'t \<Rightarrow> 'k \<Rightarrow> 'v \<Rightarrow> 't"
    and get :: "'t \<Rightarrow> 'k \<Rightarrow> ('t \<times> 'v) result"
    and known :: "'t \<Rightarrow> 'k set"
    and inv :: "'t \<Rightarrow> bool"
  assumes inv_empty: "inv empty"
    and inv_add: "inv t \<Longrightarrow> inv (add t k v)"
    and known_add: "inv t \<Longrightarrow> known (add t k v) = insert k (known t)"
    and get_same: "inv t \<Longrightarrow> get (add t k v) k = Inr (add t k v, v)"
    and get_other: "\<lbrakk>inv t; k' \<in> known t; k' \<noteq> k; get t k' = Inr (t, w)\<rbrakk>
        \<Longrightarrow> get (add t k v) k' = Inr (add t k v, w)"
    and get_effect: "\<lbrakk>inv t; get t k = Inr (t', v)\<rbrakk> \<Longrightarrow> t' = t \<or> k \<notin> known t \<and> t' = add t k v"
begin

lemma inv_load: "inv t \<Longrightarrow> inv (enter_all add t kvs)"
  by (induction kvs rule: rev_induct) (auto intro: inv_add)

lemma known_load: "inv t \<Longrightarrow> known (enter_all add t kvs) = known t \<union> fst ` set kvs"
  by (induction kvs rule: rev_induct) (auto simp: known_add inv_load)

lemma get_load:
  assumes "inv t" "distinct (map fst kvs)" "(k, v) \<in> set kvs"
  shows "get (enter_all add t kvs) k = Inr (enter_all add t kvs, v)"
  using assms(2,3)
proof (induction kvs rule: rev_induct)
  case (snoc kv kvs)
  show ?case
  proof (cases "kv = (k, v)")
    case True
    then show ?thesis using get_same[OF inv_load[OF assms(1)]] by simp
  next
    case False
    then have "(k, v) \<in> set kvs" "k \<noteq> fst kv" using snoc.prems by (auto simp: image_iff)
    moreover from this have "k \<in> known (enter_all add t kvs)" by (force simp: known_load assms(1))
    ultimately show ?thesis
      using snoc get_other[OF inv_load[OF assms(1)]] by simp
  qed
qed simp

lemma get_keeps:
  assumes "inv t" "get t k = Inr (t', v)" "k' \<in> known t" "get t k' = Inr (t, w)"
  shows "get t' k' = Inr (t', w)"
  using get_effect[OF assms(1,2)] get_other[OF assms(1,3) _ assms(4), of k v] assms(3,4) by blast

end

definition krh_known :: "krh \<Rightarrow> addr set" where
  "krh_known t = {k. \<exists>i. \<exists>e \<in> set (buckets t i). e_klass e = k}"

text \<open>
  Every entry is in the bucket of its hash, the hash is that of its class, and
  the count is zero only in an empty table.
\<close>

definition krh_inv :: "klass_encoding \<Rightarrow> krh \<Rightarrow> bool" where
  "krh_inv ke t \<longleftrightarrow>
     (\<forall>i. \<forall>e \<in> set (buckets t i). e_hash e = compressed_ptr ke (e_klass e) \<and> i = hash_to_index t (e_hash e)) \<and>
     (number_of_entries t = 0 \<longrightarrow> (\<forall>i. buckets t i = []))"

lemma krh_add_entry_simps [simp]:
  "table_size (krh_add_entry ke t k r) = table_size t"
  "hash_to_index (krh_add_entry ke t k r) h = hash_to_index t h"
  "number_of_entries (krh_add_entry ke t k r) = number_of_entries t + 1"
  "buckets (krh_add_entry ke t k r) =
    (buckets t)(hash_to_index t (compressed_ptr ke k) :=
       \<lparr>e_hash = compressed_ptr ke k, e_literal = r, e_klass = k\<rparr>
       # buckets t (hash_to_index t (compressed_ptr ke k)))"
  by (simp_all add: krh_add_entry_def basic_add_entry_def hash_to_index_def Let_def)

lemma krh_known_bucket:
  assumes "krh_inv ke t" "k \<in> krh_known t"
  shows "\<exists>e \<in> set (buckets t (hash_to_index t (compressed_ptr ke k))). e_klass e = k"
  using assms by (fastforce simp: krh_inv_def krh_known_def)

lemma chain_lookup_known: "(\<exists>e \<in> set es. e_klass e = k) \<Longrightarrow> \<exists>r. chain_lookup es k = Some r"
  by (induction es) auto

lemma get_region_known:
  assumes "krh_inv ke t" "k \<in> krh_known t"
  shows "get_region ke rt t k =
    Inr (t, the (chain_lookup (buckets t (hash_to_index t (compressed_ptr ke k))) k))"
proof -
  obtain e es where es: "buckets t (hash_to_index t (compressed_ptr ke k)) = e # es"
    using krh_known_bucket[OF assms] by (cases "buckets t (hash_to_index t (compressed_ptr ke k))") auto
  moreover have "number_of_entries t \<noteq> 0" using assms(1) es by (auto simp: krh_inv_def)
  moreover obtain r where "chain_lookup (e # es) k = Some r"
    using chain_lookup_known krh_known_bucket[OF assms] es by metis
  moreover have "es = [] \<Longrightarrow> e_klass e = k" using krh_known_bucket[OF assms] es by simp
  ultimately show ?thesis by (auto simp: get_region_def split: list.split)
qed

lemma krh_inv_add: "krh_inv ke t \<Longrightarrow> krh_inv ke (krh_add_entry ke t k r)"
  by (auto simp: krh_inv_def; metis)

lemma krh_known_add: "krh_known (krh_add_entry ke t k r) = insert k (krh_known t)"
proof -
  have "j \<in> krh_known (krh_add_entry ke t k r) \<longleftrightarrow> j = k \<or> j \<in> krh_known t" for j
    by (auto simp: krh_known_def split: if_splits) (metis fun_upd_apply list.set_intros(2))+
  then show ?thesis by blast
qed

interpretation krh: klass_table krh_empty "krh_add_entry ke" "get_region ke rt" krh_known "krh_inv ke"
  for ke rt
proof
  show "krh_inv ke krh_empty" by (simp add: krh_inv_def krh_empty_def)
next
  fix t k v assume inv: "krh_inv ke t"
  then show "krh_inv ke (krh_add_entry ke t k v)" by (rule krh_inv_add)
  show "krh_known (krh_add_entry ke t k v) = insert k (krh_known t)" by (rule krh_known_add)
  show "get_region ke rt (krh_add_entry ke t k v) k = Inr (krh_add_entry ke t k v, v)"
    using inv by (subst get_region_known) (simp_all add: krh_inv_add krh_known_add)
next
  fix t k' k w v
  assume a: "krh_inv ke t" "k' \<in> krh_known t" "k' \<noteq> k" "get_region ke rt t k' = Inr (t, w)"
  then show "get_region ke rt (krh_add_entry ke t k v) k' = Inr (krh_add_entry ke t k v, w)"
    by (subst get_region_known) (auto simp add: krh_inv_add krh_known_add get_region_known)
next
  fix t k t' v
  assume a: "krh_inv ke t" "get_region ke rt t k = Inr (t', v)"
  show "t' = t \<or> k \<notin> krh_known t \<and> t' = krh_add_entry ke t k v"
  proof (cases "k \<in> krh_known t")
    case True
    then show ?thesis using a by (simp add: get_region_known)
  next
    case False
    then show ?thesis using a(2)
      by (auto simp: get_region_def split: if_splits list.splits sum.splits option.splits)
  qed
qed

text \<open>
  C28: after distinct classes were entered in any order into the hash table, every
  one of them is found with the region it was entered with, whatever classes
  share its bucket, and the lookup leaves the table as it is.
\<close>

theorem get_region_loaded:
  assumes "distinct (map fst krs)" "(k, r) \<in> set krs"
  shows "get_region ke rt (enter_all (krh_add_entry ke) krh_empty krs) k =
    Inr (enter_all (krh_add_entry ke) krh_empty krs, r)"
  using krh.get_load[OF krh.inv_empty assms] .

theorem get_region_loaded_witness:
  "\<exists>t. get_region \<lparr>UseCompressedClassPointers = False, narrow_klass_base = 0, narrow_klass_shift = 3\<rparr>
      \<lparr>region_data = [0, 1, 2, 3], region_start_addr = 512, region_end_addr = 524\<rparr>
      t 8192 = Inr (t, 520)"
  using get_region_loaded[of "[(4096, 516), (8192, 520), (12288, 516)]" 8192 520] by fastforce

text \<open>
  a class that was never entered but whose hash selects a bucket with exactly
  one entry gets the region of that entry's class, whichever class it is: the
  comparison of the classes is only made in longer buckets.
\<close>

theorem get_region_collision:
  assumes "hash_to_index krh_empty (compressed_ptr ke k) = hash_to_index krh_empty (compressed_ptr ke k')"
  shows "get_region ke rt (krh_add_entry ke krh_empty k r) k' = Inr (krh_add_entry ke krh_empty k r, r)"
  using assms by (simp add: get_region_def krh_empty_def hash_to_index_def)

theorem get_region_collision_witness:
  "get_region \<lparr>UseCompressedClassPointers = False, narrow_klass_base = 0, narrow_klass_shift = 3\<rparr>
     \<lparr>region_data = [0, 1, 2, 3], region_start_addr = 512, region_end_addr = 524\<rparr>
     (krh_add_entry \<lparr>UseCompressedClassPointers = False, narrow_klass_base = 0, narrow_klass_shift = 3\<rparr>
        krh_empty 4096 520) 8192 =
   Inr (krh_add_entry \<lparr>UseCompressedClassPointers = False, narrow_klass_base = 0, narrow_klass_shift = 3\<rparr>
        krh_empty 4096 520, 520)"
  by (rule get_region_collision)
     (simp add: hash_to_index_def krh_empty_def krm_table_size_def compressed_ptr_def)

section \<open>The region of a class\<close>

text \<open>The supers the loop of \<open>add_entry\<close> looks at, from \<open>Object\<close> down.\<close>

definition bda_supers :: "krm \<Rightarrow> klass \<Rightarrow> nat \<Rightarrow> string list" where
  "bda_supers m k i =
     filter (is_bda_type m)
       (map external_name
         (List.map_filter (primary_super_of_depth k) [i..<min (Suc (super_depth k)) primary_super_limit]))"

lemma upt_min_step:
  "i \<le> d \<Longrightarrow> i < l \<Longrightarrow> [i..<min (Suc d) l] = i # [Suc i..<min (Suc d) l]"
  by (simp add: upt_rec)

lemma add_entry_from_spec:
  assumes "i \<le> primary_super_limit"
  shows "add_entry_from ke m k i =
    (case bda_supers m k i of
       [] \<Rightarrow> Inr (add_other_entry ke m k)
     | nm # _ \<Rightarrow> bind_result (bda_type m nm) (\<lambda>r. Inr (add_region_entry ke m k r)))"
  using assms
proof (induction ke m k i rule: add_entry_from.induct)
  case (1 ke m k i)
  show ?case
  proof (cases "i \<le> super_depth k \<and> i \<noteq> primary_super_limit")
    case True
    then have l: "i < primary_super_limit" using 1(3) by simp
    have b: "bda_supers m k i =
        (case primary_super_of_depth k i of
           None \<Rightarrow> bda_supers m k (Suc i)
         | Some s \<Rightarrow> (if is_bda_type m (external_name s) then external_name s # bda_supers m k (Suc i)
                     else bda_supers m k (Suc i)))"
      using True l
      by (simp add: bda_supers_def upt_min_step map_filter_simps split: option.split)
    then show ?thesis
      using True l 1(1,2)
      by (subst add_entry_from.simps) (auto split: option.split)
  next
    case False
    then have "bda_supers m k i = []" using 1(3) by (auto simp: bda_supers_def map_filter_simps)
    then show ?thesis using False by (subst add_entry_from.simps) auto
  qed
qed

text \<open>
  C20: once a class was added to the map, looking it up gives the general region
  when no class of interest is among the first eight classes of its chain of
  supers, itself included, and otherwise the region of the topmost of them.
\<close>

theorem add_entry_region:
  assumes "krh_inv ke (krm_map m)" "krm_add_entry ke m k = Inr m'"
  shows "region_for_klass ke m' (klass_addr k) =
    (case bda_supers m k 0 of
       [] \<Rightarrow> Inr (m', region_start_ptr (krm_table m))
     | nm # _ \<Rightarrow> bind_result (bda_type m nm) (\<lambda>r. Inr (m', r)))"
proof -
  have found: "region_for_klass ke (add_region_entry ke m k r) (klass_addr k) = Inr (add_region_entry ke m k r, r)" for r
    using krh.get_same[OF assms(1), of "krm_table m" "klass_addr k" r]
    by (simp add: region_for_klass_def add_region_entry_def)
  have other: "add_other_entry ke m k = add_region_entry ke m k (region_start_ptr (krm_table m))"
    by (simp add: add_other_entry_def add_region_entry_def)
  show ?thesis
    using assms(2)
    by (auto simp: krm_add_entry_def add_entry_from_spec found other split: list.splits sum.splits)
qed

theorem add_entry_region_witness:
  "let ke = \<lparr>UseCompressedClassPointers = False, narrow_klass_base = 0, narrow_klass_shift = 3\<rparr>;
       obj = Klass 4096 ''Object'' 0 (replicate 8 None);
       k = Klass 8192 ''B'' 1 (Some obj # Some (Klass 8192 ''B'' 1 []) # replicate 6 None);
       m = krm_for [''A'', ''B''] 512
   in \<exists>m'. krm_add_entry ke m k = Inr m' \<and> region_for_klass ke m' 8192 = Inr (m', 528)"
proof -
  let ?ke = "\<lparr>UseCompressedClassPointers = False, narrow_klass_base = 0, narrow_klass_shift = 3\<rparr>"
  let ?k = "Klass 8192 ''B'' 1 (Some (Klass 4096 ''Object'' 0 (replicate 8 None)) #
              Some (Klass 8192 ''B'' 1 []) # replicate 6 None)"
  let ?m = "krm_for [''A'', ''B''] 512"
  have i: "krh_inv ?ke (krm_map ?m)" by (simp add: krm_for_def krh.inv_empty)
  have s: "bda_supers ?m ?k 0 = [''B'']"
    by (simp add: bda_supers_def primary_super_limit_def upt_rec map_filter_simps primary_super_of_depth_def
        is_bda_type_def ga_find_def krm_for_def equals_name_def)
  have t: "bda_type ?m ''B'' = Inr 528"
    using bda_type_krm_for[of "[''A'', ''B'']" 1 512]
    by (simp add: region_ptr_def krm_for_def bdaregion_size_def)
  obtain m' where m': "krm_add_entry ?ke ?m ?k = Inr m'"
    using add_entry_from_spec[of 0 ?ke ?m ?k] s t by (simp add: krm_add_entry_def)
  show ?thesis using add_entry_region[OF i m'] m' s t by (simp add: Let_def)
qed

end
