(* ===== verification/Containers.thy ===== *)
theory Containers
  imports GlobalDefs
begin

text \<open>
  The \<open>struct container\<close> of \<open>bda/bdaGlobals.hpp\<close> and the store it lives
  in.  A \<open>container_t\<close> is a pointer: None is NULL, and a pointer the store
  does not map is one that was freed or never allocated, so that reading through
  either is a fault.  The links of the source (\<open>_next\<close>/\<open>_previous\<close> and
  \<open>_next_segment\<close>/\<open>_prev_segment\<close>) form doubly linked lists over the
  same cells; the predicate \<open>dseg\<close> says which cells a list is made of.
\<close>

section \<open>The store\<close>

type_synonym cid = nat
type_synonym container_t = "cid option"

record container =
  c_top :: addr
  c_start :: addr
  c_end :: addr
  c_hard_end :: addr
  c_saved_top :: addr
  c_space_id :: int
  c_scanned_flag :: int
  c_next_segment :: container_t
  c_prev_segment :: container_t
  c_next :: container_t
  c_previous :: container_t

type_synonym cheap = "cid \<Rightarrow> container option"

definition cget :: "cheap \<Rightarrow> container_t \<Rightarrow> container result" where
  "cget h p =
     (case p of
        None \<Rightarrow> Inl NullDeref
      | Some a \<Rightarrow> (case h a of None \<Rightarrow> Inl NullDeref | Some c \<Rightarrow> Inr c))"

definition cmod :: "cheap \<Rightarrow> container_t \<Rightarrow> (container \<Rightarrow> container) \<Rightarrow> cheap result" where
  "cmod h p f =
     (case p of
        None \<Rightarrow> Inl NullDeref
      | Some a \<Rightarrow> (case h a of None \<Rightarrow> Inl NullDeref | Some c \<Rightarrow> Inr (h(a \<mapsto> f c))))"

lemma cget_simps [simp]:
  "cget h None = Inl NullDeref"
  "h a = Some c \<Longrightarrow> cget h (Some a) = Inr c"
  "h a = None \<Longrightarrow> cget h (Some a) = Inl NullDeref"
  by (simp_all add: cget_def)

lemma cmod_simps [simp]:
  "cmod h None f = Inl NullDeref"
  "h a = Some c \<Longrightarrow> cmod h (Some a) f = Inr (h(a \<mapsto> f c))"
  "h a = None \<Longrightarrow> cmod h (Some a) f = Inl NullDeref"
  by (simp_all add: cmod_def)

section \<open>Doubly linked segments\<close>

text \<open>
  \<open>dseg f g h prev p xs nxt\<close>: following \<open>f\<close> from \<open>p\<close> visits the
  cells \<open>xs\<close> and arrives at \<open>nxt\<close>; the \<open>g\<close> of every cell is the
  cell before it, that of the first being \<open>prev\<close>.
\<close>

fun dseg :: "(container \<Rightarrow> container_t) \<Rightarrow> (container \<Rightarrow> container_t) \<Rightarrow> cheap \<Rightarrow>
    container_t \<Rightarrow> container_t \<Rightarrow> cid list \<Rightarrow> container_t \<Rightarrow> bool" where
  "dseg f g h prev p [] nxt \<longleftrightarrow> p = nxt"
| "dseg f g h prev p (x # xs) nxt \<longleftrightarrow>
     p = Some x \<and>
     (case h x of None \<Rightarrow> False | Some c \<Rightarrow> g c = prev \<and> dseg f g h (Some x) (f c) xs nxt)"

definition last_ptr :: "container_t \<Rightarrow> cid list \<Rightarrow> container_t" where
  "last_ptr prev xs = (if xs = [] then prev else Some (last xs))"

lemma last_ptr_simps [simp]:
  "last_ptr prev [] = prev" "last_ptr prev (x # xs) = last_ptr (Some x) xs"
  "last_ptr prev (xs @ ys) = last_ptr (last_ptr prev xs) ys"
  by (simp_all add: last_ptr_def)

lemma dseg_append:
  "dseg f g h prev p (xs @ ys) nxt \<longleftrightarrow>
   (\<exists>mid. dseg f g h prev p xs mid \<and> dseg f g h (last_ptr prev xs) mid ys nxt)"
  by (induction xs arbitrary: prev p) (auto split: option.splits)

lemma dseg_frame:
  assumes "dseg f g h prev p xs nxt"
    "\<And>x c. x \<in> set xs \<Longrightarrow> h x = Some c \<Longrightarrow> \<exists>c'. h' x = Some c' \<and> f c' = f c \<and> g c' = g c"
  shows "dseg f g h' prev p xs nxt"
  using assms
proof (induction xs arbitrary: prev p)
  case (Cons x xs)
  then obtain c where c: "h x = Some c" "g c = prev" "dseg f g h (Some x) (f c) xs nxt" "p = Some x"
    by (auto split: option.splits)
  moreover obtain c' where "h' x = Some c'" "f c' = f c" "g c' = g c"
    using Cons.prems(2)[of x c] c(1) by auto
  moreover have "dseg f g h' (Some x) (f c) xs nxt" using Cons.IH[OF c(3)] Cons.prems(2) by simp
  ultimately show ?case by simp
qed simp

lemma dseg_upd_other [simp]: "a \<notin> set xs \<Longrightarrow> dseg f g (h(a := v)) prev p xs nxt \<longleftrightarrow> dseg f g h prev p xs nxt"
  by (rule iffI; erule dseg_frame) (auto split: if_splits)

lemma dseg_mapped: "dseg f g h prev p xs nxt \<Longrightarrow> x \<in> set xs \<Longrightarrow> \<exists>c. h x = Some c"
  by (induction xs arbitrary: prev p) (auto split: option.splits)

lemma dseg_hd: "dseg f g h prev p xs nxt \<Longrightarrow> p = (case xs of [] \<Rightarrow> nxt | x # _ \<Rightarrow> Some x)"
  by (cases xs) auto

lemma dseg_hd_in: "dseg f g h prev p xs nxt \<Longrightarrow> xs \<noteq> [] \<Longrightarrow> \<exists>x \<in> set xs. p = Some x"
  by (cases xs) auto

text \<open>Relinking the two ends: the \<open>g\<close> of the first cell and the \<open>f\<close> of the last.\<close>

lemma dseg_set_prev:
  assumes "dseg f g h prev p (x # xs) nxt" "h x = Some c" "x \<notin> set xs" "f c' = f c" "g c' = prev'"
  shows "dseg f g (h(x \<mapsto> c')) prev' p (x # xs) nxt"
  using assms by simp

lemma dseg_set_next:
  assumes "dseg f g h prev p (xs @ [x]) nxt" "h x = Some c" "x \<notin> set xs" "g c' = g c" "f c' = nxt'"
  shows "dseg f g (h(x \<mapsto> c')) prev p (xs @ [x]) nxt'"
  using assms by (auto simp: dseg_append)

section \<open>The cell before a cell\<close>

definition pred_of :: "cid list \<Rightarrow> cid \<Rightarrow> container_t" where
  "pred_of xs x = last_ptr None (takeWhile (\<lambda>y. y \<noteq> x) xs)"

lemma takeWhile_neq_nth: "distinct xs \<Longrightarrow> i < length xs \<Longrightarrow> takeWhile (\<lambda>y. y \<noteq> xs ! i) xs = take i xs"
  by (intro takeWhile_eq_take_P_nth) (auto simp: nth_eq_iff_index_eq)

lemma pred_of_nth:
  "distinct xs \<Longrightarrow> i < length xs \<Longrightarrow> pred_of xs (xs ! i) = (if i = 0 then None else Some (xs ! (i - 1)))"
  by (cases i) (auto simp: pred_of_def last_ptr_def takeWhile_neq_nth take_Suc_conv_app_nth)

lemma pred_of_old [simp]: "x \<in> set xs \<Longrightarrow> pred_of (xs @ ys) x = pred_of xs x"
  by (simp add: pred_of_def)

lemma pred_of_new [simp]: "y \<notin> set xs \<Longrightarrow> pred_of (xs @ [y]) y = last_ptr None xs"
proof -
  assume "y \<notin> set xs"
  then have "takeWhile (\<lambda>z. z \<noteq> y) (xs @ [y]) = xs" by (subst takeWhile_append2) auto
  then show ?thesis by (simp add: pred_of_def)
qed

lemma pred_of_in: "pred_of xs x = Some y \<Longrightarrow> y \<in> set xs"
  using set_takeWhileD[of y "\<lambda>y. y \<noteq> x" xs] last_in_set[of "takeWhile (\<lambda>y. y \<noteq> x) xs"]
  by (auto simp: pred_of_def last_ptr_def split: if_splits)

lemma pred_of_inj:
  assumes "distinct xs" "x \<in> set xs" "y \<in> set xs" "pred_of xs x = pred_of xs y"
  shows "x = y"
proof -
  obtain i j where ij: "i < length xs" "x = xs ! i" "j < length xs" "y = xs ! j"
    using assms by (auto simp: in_set_conv_nth)
  then have "i = j"
    using assms by (auto simp: pred_of_nth nth_eq_iff_index_eq split: if_splits)
  then show ?thesis using ij by simp
qed

lemma pred_of_None: "distinct xs \<Longrightarrow> x \<in> set xs \<Longrightarrow> pred_of xs x = None \<longleftrightarrow> x = hd xs"
proof -
  assume a: "distinct xs" "x \<in> set xs"
  then obtain i where i: "i < length xs" "x = xs ! i" by (auto simp: in_set_conv_nth)
  then have "hd xs = xs ! 0" by (intro hd_conv_nth) auto
  moreover have "xs ! i = xs ! 0 \<longleftrightarrow> i = 0" using a(1) i(1) by (subst nth_eq_iff_index_eq) auto
  ultimately show ?thesis using a(1) i by (simp add: pred_of_nth)
qed

lemma dseg_nth:
  "dseg f g h prev p xs nxt \<longleftrightarrow>
     p = (if xs = [] then nxt else Some (hd xs)) \<and>
     (\<forall>i < length xs. \<exists>c. h (xs ! i) = Some c \<and>
        f c = (if Suc i < length xs then Some (xs ! Suc i) else nxt) \<and>
        g c = (if i = 0 then prev else Some (xs ! (i - 1))))"
proof (induction xs arbitrary: prev p)
  case (Cons x xs)
  have i: "(if i = 0 then Some x else Some (xs ! (i - 1))) = Some ((x # xs) ! i)" for i
    by (cases i) auto
  have f: "f c = (if xs = [] then nxt else Some (hd xs)) \<longleftrightarrow>
      f c = (if Suc 0 < length (x # xs) then Some (xs ! 0) else nxt)" for c
    by (cases xs) auto
  show ?case
    unfolding dseg.simps Cons.IH i f by (cases "h x") (simp_all add: All_less_Suc2 conj_ac)
qed simp

text \<open>
  A list whose cells point back at the cell before them, and forward at exactly
  the cells they are before, is a doubly linked list from its head to its end.
\<close>

lemma dseg_of_pred:
  assumes "distinct xs"
    "\<And>x. x \<in> set xs \<Longrightarrow> \<exists>c. h x = Some c \<and> g c = pred_of xs x \<and>
        (\<forall>y. f c = Some y \<longleftrightarrow> y \<in> set xs \<and> pred_of xs y = Some x)"
  shows "dseg f g h None (if xs = [] then None else Some (hd xs)) xs None"
  unfolding dseg_nth
proof (intro conjI allI impI)
  fix i assume i: "i < length xs"
  then obtain c where c: "h (xs ! i) = Some c" "g c = pred_of xs (xs ! i)"
      "\<And>y. f c = Some y \<longleftrightarrow> y \<in> set xs \<and> pred_of xs y = Some (xs ! i)"
    using assms(2)[of "xs ! i"] by auto
  have "f c = (if Suc i < length xs then Some (xs ! Suc i) else None)"
  proof (cases "Suc i < length xs")
    case True
    then show ?thesis using c(3)[of "xs ! Suc i"] assms(1) by (simp add: pred_of_nth)
  next
    case False
    have "f c \<noteq> Some y" for y
      using c(3)[of y] assms(1) i False
      by (auto simp: in_set_conv_nth pred_of_nth nth_eq_iff_index_eq split: if_splits)
    then show ?thesis using False by (cases "f c") auto
  qed
  then show "\<exists>c. h (xs ! i) = Some c \<and> f c = (if Suc i < length xs then Some (xs ! Suc i) else None) \<and>
      g c = (if i = 0 then None else Some (xs ! (i - 1)))"
    using c(1,2) assms(1) i by (simp add: pred_of_nth)
qed auto

lemma pred_of_dseg:
  assumes "dseg f g h None p xs None" "distinct xs" "x \<in> set xs"
  shows "\<exists>c. h x = Some c \<and> g c = pred_of xs x \<and>
    (\<forall>y. f c = Some y \<longleftrightarrow> y \<in> set xs \<and> pred_of xs y = Some x)"
proof -
  obtain i where i: "i < length xs" "x = xs ! i" using assms(3) by (auto simp: in_set_conv_nth)
  then obtain c where c: "h x = Some c" "f c = (if Suc i < length xs then Some (xs ! Suc i) else None)"
      "g c = (if i = 0 then None else Some (xs ! (i - 1)))"
    using assms(1) unfolding dseg_nth by blast
  have "f c = Some y \<longleftrightarrow> y \<in> set xs \<and> pred_of xs y = Some x" for y
    using c(2) i assms(2)
    by (auto simp: in_set_conv_nth pred_of_nth nth_eq_iff_index_eq split: if_splits)
  then show ?thesis using c i assms(2) by (auto simp: pred_of_nth)
qed

end
