(* ===== verification/Queues.thy ===== *)
theory Queues
  imports Prelude
begin

text \<open>
  The contract of the two linked queues of \<open>bda/\<close>: \<open>inv s xs\<close> says that
  the state holds the queue \<open>xs\<close>, oldest element first.  The client's view,
  that what is enqueued is dequeued in the same order and nothing else, is proved
  here once.
\<close>

fun enq_all :: "('s \<Rightarrow> 'a \<Rightarrow> 's result) \<Rightarrow> 's \<Rightarrow> 'a list \<Rightarrow> 's result" where
  "enq_all enq s [] = Inr s"
| "enq_all enq s (x # xs) = bind_result (enq s x) (\<lambda>s'. enq_all enq s' xs)"

text \<open>At most \<open>n\<close> calls of dequeue, stopping at the first that finds the queue empty.\<close>

fun deq_upto :: "('s \<Rightarrow> ('s \<times> 'a option) result) \<Rightarrow> nat \<Rightarrow> 's \<Rightarrow> ('s \<times> 'a list) result" where
  "deq_upto deq 0 s = Inr (s, [])"
| "deq_upto deq (Suc n) s =
     bind_result (deq s)
       (\<lambda>(s', r). case r of
          None \<Rightarrow> Inr (s', [])
        | Some x \<Rightarrow> bind_result (deq_upto deq n s') (\<lambda>(s'', xs). Inr (s'', x # xs)))"

locale fifo_queue =
  fixes inv :: "'s \<Rightarrow> 'a list \<Rightarrow> bool"
    and enq :: "'s \<Rightarrow> 'a \<Rightarrow> 's result"
    and deq :: "'s \<Rightarrow> ('s \<times> 'a option) result"
    and fresh :: "'s \<Rightarrow> 'a list \<Rightarrow> 'a \<Rightarrow> bool"
    and indep :: "'a \<Rightarrow> 'a \<Rightarrow> bool"
  assumes enq_ok: "inv s xs \<Longrightarrow> fresh s xs a \<Longrightarrow> \<exists>s'. enq s a = Inr s' \<and> inv s' (xs @ [a])"
    and enq_fresh: "\<lbrakk>inv s xs; fresh s xs a; fresh s xs b; indep a b; enq s a = Inr s'\<rbrakk>
        \<Longrightarrow> fresh s' (xs @ [a]) b"
    and deq_empty: "inv s [] \<Longrightarrow> deq s = Inr (s, None)"
    and deq_ok: "inv s (x # xs) \<Longrightarrow> \<exists>s'. deq s = Inr (s', Some x) \<and> inv s' xs"
begin

lemma enq_all_ok:
  assumes "inv s xs" "\<And>a. a \<in> set as \<Longrightarrow> fresh s xs a" "sorted_wrt indep as"
  shows "\<exists>s'. enq_all enq s as = Inr s' \<and> inv s' (xs @ as)"
  using assms
proof (induction as arbitrary: s xs)
  case (Cons a as)
  obtain s1 where s1: "enq s a = Inr s1" "inv s1 (xs @ [a])"
    using enq_ok[of s xs a] Cons.prems by auto
  have "\<exists>s'. enq_all enq s1 as = Inr s' \<and> inv s' ((xs @ [a]) @ as)"
    using Cons.prems enq_fresh[of s xs a _ s1] s1 by (intro Cons.IH) auto
  then show ?case using s1 by simp
qed simp

lemma deq_upto_ok:
  assumes "inv s (xs @ ys)"
  shows "\<exists>s'. deq_upto deq (length xs) s = Inr (s', xs) \<and> inv s' ys"
  using assms
proof (induction xs arbitrary: s)
  case (Cons x xs)
  then obtain s1 where "deq s = Inr (s1, Some x)" "inv s1 (xs @ ys)"
    using deq_ok[of s x "xs @ ys"] by auto
  then show ?case using Cons.IH[of s1] by auto
qed simp

lemma deq_upto_all:
  assumes "inv s xs" "length xs < n"
  shows "\<exists>s'. deq_upto deq n s = Inr (s', xs) \<and> inv s' []"
  using assms
proof (induction xs arbitrary: s n)
  case Nil
  then show ?case using deq_empty by (cases n) auto
next
  case (Cons x xs)
  then obtain s1 where "deq s = Inr (s1, Some x)" "inv s1 xs" using deq_ok[of s x xs] by auto
  then show ?case using Cons.IH[of s1 "n - 1"] Cons.prems(2) by (cases n) auto
qed

lemma fifo:
  assumes "inv s xs" "\<And>a. a \<in> set as \<Longrightarrow> fresh s xs a" "sorted_wrt indep as"
    "length xs + length as < n"
  shows "\<exists>s1 s2. enq_all enq s as = Inr s1 \<and> deq_upto deq n s1 = Inr (s2, xs @ as) \<and> inv s2 []"
  using enq_all_ok[OF assms(1-3)] deq_upto_all[of _ "xs @ as" n] assms(4) by fastforce

end

end
