(* ===== verification/GenQueue.thy ===== *)
theory GenQueue
  imports Containers Queues
begin

text \<open>
  \<open>bda/gen_queue.hpp\<close> at its one instance, the queue of containers.  A queue
  is the record of its ends and counter, its elements are cells of the store, and
  every operation takes and returns both.  The operations are single-threaded
  here; in them a compare-and-exchange meets no other thread and succeeds at its
  first try.  Concurrent \<open>enqueue\<close>s are the subject of the theory
  \<open>GenQueueMT\<close>.
\<close>

section \<open>Operations\<close>

record genqueue =
  insert_end :: container_t
  remove_end :: container_t
  n_elements :: int

definition gq_create :: genqueue where
  "gq_create = \<lparr>insert_end = None, remove_end = None, n_elements = 0\<rparr>"

definition gq_destroy :: "genqueue \<Rightarrow> genqueue" where
  "gq_destroy q = q\<lparr>insert_end := None, remove_end := None, n_elements := 0\<rparr>"

definition gq_peek :: "genqueue \<Rightarrow> container_t" where
  "gq_peek q = remove_end q"

definition gq_bot :: "genqueue \<Rightarrow> container_t" where
  "gq_bot q = insert_end q"

text \<open>\<open>if (temp != NULL) temp->_next = el\<close>.\<close>

definition link_next :: "cheap \<Rightarrow> container_t \<Rightarrow> container_t \<Rightarrow> cheap result" where
  "link_next h temp el =
     (if temp \<noteq> None then cmod h temp (\<lambda>c. c\<lparr>c_next := el\<rparr>) else Inr h)"

definition gq_enqueue_no_mt :: "cheap \<Rightarrow> genqueue \<Rightarrow> container_t \<Rightarrow> (cheap \<times> genqueue) result" where
  "gq_enqueue_no_mt h q el =
     (let old_end = insert_end q;
          q1 = q\<lparr>insert_end := el\<rparr>
      in bind_result (cmod h el (\<lambda>c. c\<lparr>c_previous := old_end\<rparr>))
        (\<lambda>h1. bind_result (link_next h1 old_end el)
          (\<lambda>h2. bind_result (cget h2 el)
            (\<lambda>c. let q2 = (if c_previous c = None \<and> remove_end q1 = None
                           then q1\<lparr>remove_end := el\<rparr> else q1)
                 in Inr (h2, q2\<lparr>n_elements := n_elements q2 + 1\<rparr>)))))"

text \<open>
  \<open>enqueue\<close> differs in the compare-and-exchange and in the closing assertion
  that the old end points at the new element.
\<close>

definition gq_enqueue :: "cheap \<Rightarrow> genqueue \<Rightarrow> container_t \<Rightarrow> (cheap \<times> genqueue) result" where
  "gq_enqueue h q el =
     (let temp = insert_end q;
          q1 = q\<lparr>insert_end := el\<rparr>
      in bind_result (cmod h el (\<lambda>c. c\<lparr>c_previous := temp\<rparr>))
        (\<lambda>h1. bind_result (link_next h1 temp el)
          (\<lambda>h2. bind_result (cget h2 el)
            (\<lambda>c. let q2 = (if c_previous c = None \<and> remove_end q1 = None
                           then q1\<lparr>remove_end := el\<rparr> else q1);
                     q3 = q2\<lparr>n_elements := n_elements q2 + 1\<rparr>
                 in if temp = None then Inr (h2, q3)
                    else bind_result (cget h2 temp)
                      (\<lambda>t. if c_next t = el then Inr (h2, q3)
                           else Inl (AssertFailed ''just checking if assign was valid''))))))"

definition gq_dequeue :: "cheap \<Rightarrow> genqueue \<Rightarrow> (cheap \<times> genqueue \<times> container_t) result" where
  "gq_dequeue h q =
     (let temp = remove_end q
      in if temp = None then Inr (h, q, temp)
         else bind_result (cget h temp)
           (\<lambda>t. let nxt = c_next t;
                    q1 = q\<lparr>remove_end := nxt\<rparr>
                in bind_result
                     (if nxt \<noteq> None then cmod h nxt (\<lambda>c. c\<lparr>c_previous := None\<rparr>) else Inr h)
                     (\<lambda>h1. let q2 = (if remove_end q1 = None then q1\<lparr>insert_end := None\<rparr> else q1)
                           in bind_result (cmod h1 temp (\<lambda>c. c\<lparr>c_next := None\<rparr>))
                             (\<lambda>h2. Inr (h2, q2\<lparr>n_elements := n_elements q2 - 1\<rparr>, temp)))))"

text \<open>The part of \<open>remove_element\<close> that unlinks \<open>el\<close> from the queue.\<close>

definition gq_unlink :: "cheap \<Rightarrow> genqueue \<Rightarrow> container_t \<Rightarrow> (cheap \<times> genqueue) result" where
  "gq_unlink h q el =
     (if remove_end q = el then
        bind_result (gq_dequeue h q) (\<lambda>(h1, q1, _). Inr (h1, q1))
      else if insert_end q = el then
        bind_result (cget h el)
          (\<lambda>c. let q1 = q\<lparr>insert_end := c_previous c\<rparr>
               in bind_result (cmod h (insert_end q1) (\<lambda>c. c\<lparr>c_next := None\<rparr>))
                    (\<lambda>h1. Inr (h1, q1)))
      else
        bind_result (cget h el)
          (\<lambda>c. bind_result (cmod h (c_previous c) (\<lambda>p. p\<lparr>c_next := c_next c\<rparr>))
            (\<lambda>h1. bind_result (cget h1 el)
              (\<lambda>c1. bind_result (cmod h1 (c_next c1) (\<lambda>n. n\<lparr>c_previous := c_previous c1\<rparr>))
                (\<lambda>h2. Inr (h2, q))))))"

text \<open>The part that unlinks \<open>el\<close> from the segments of its container.\<close>

definition unlink_segment :: "cheap \<Rightarrow> container_t \<Rightarrow> cheap result" where
  "unlink_segment h el =
     bind_result (cget h el)
       (\<lambda>c. if c_prev_segment c = None then
              (if c_next_segment c \<noteq> None
               then cmod h (c_next_segment c) (\<lambda>n. n\<lparr>c_prev_segment := None\<rparr>)
               else Inr h)
            else
              bind_result (cmod h (c_prev_segment c) (\<lambda>p. p\<lparr>c_next_segment := c_next_segment c\<rparr>))
                (\<lambda>h1. bind_result (cget h1 el)
                  (\<lambda>c1. if c_next_segment c1 \<noteq> None
                        then cmod h1 (c_next_segment c1) (\<lambda>n. n\<lparr>c_prev_segment := c_prev_segment c1\<rparr>)
                        else Inr h1)))"

definition gq_remove_element :: "cheap \<Rightarrow> genqueue \<Rightarrow> container_t \<Rightarrow> (cheap \<times> genqueue) result" where
  "gq_remove_element h q el =
     bind_result (gq_unlink h q el)
       (\<lambda>(h1, q1). bind_result (unlink_segment h1 el)
         (\<lambda>h2. Inr (h2, q1\<lparr>n_elements := n_elements q1 - 1\<rparr>)))"

text \<open>\<open>remove_element_mt\<close> is the same under the queue's monitor.\<close>

definition gq_remove_element_mt :: "cheap \<Rightarrow> genqueue \<Rightarrow> container_t \<Rightarrow> (cheap \<times> genqueue) result" where
  "gq_remove_element_mt h q el = gq_remove_element h q el"

definition gq_phantom_remove :: "genqueue \<Rightarrow> genqueue" where
  "gq_phantom_remove q = q\<lparr>n_elements := n_elements q - 1\<rparr>"

definition gq_iterator :: "genqueue \<Rightarrow> container_t result" where
  "gq_iterator q =
     (if remove_end q \<noteq> None \<and> insert_end q \<noteq> None then Inr (remove_end q)
      else Inl (AssertFailed ''queue is empty or malformed''))"

definition gq_iterator_next :: "cheap \<Rightarrow> container_t \<Rightarrow> container_t result" where
  "gq_iterator_next h current = bind_result (cget h current) (\<lambda>c. Inr (c_next c))"

section \<open>The queue as a list\<close>

definition gq_list :: "cheap \<Rightarrow> genqueue \<Rightarrow> cid list \<Rightarrow> bool" where
  "gq_list h q xs \<longleftrightarrow>
     distinct xs \<and> dseg c_next c_previous h None (remove_end q) xs None \<and>
     insert_end q = last_ptr None xs"

definition gq_inv :: "cheap \<Rightarrow> genqueue \<Rightarrow> cid list \<Rightarrow> bool" where
  "gq_inv h q xs \<longleftrightarrow> gq_list h q xs \<and> n_elements q = int (length xs)"

text \<open>An element that may be enqueued: it is allocated and its links are clear.\<close>

definition unlinked :: "cheap \<Rightarrow> cid \<Rightarrow> bool" where
  "unlinked h a \<longleftrightarrow> (case h a of None \<Rightarrow> False | Some c \<Rightarrow> c_next c = None)"

lemmas gq_list_defs = gq_list_def last_ptr_def

lemma gq_list_Nil_iff: "gq_list h q [] \<longleftrightarrow> remove_end q = None \<and> insert_end q = None"
  by (auto simp: gq_list_def)

lemma gq_create_inv: "gq_inv h gq_create []"
  by (simp add: gq_inv_def gq_list_Nil_iff gq_create_def)

lemma gq_destroy_inv: "gq_inv h (gq_destroy q) []"
  by (simp add: gq_inv_def gq_list_Nil_iff gq_destroy_def)

text \<open>Two stores that differ in the links of the queue only.\<close>

definition strip_links :: "container \<Rightarrow> container" where
  "strip_links c = c\<lparr>c_next := None, c_previous := None\<rparr>"

definition same_data :: "cheap \<Rightarrow> cheap \<Rightarrow> bool" where
  "same_data h h' \<longleftrightarrow> (\<forall>x. map_option strip_links (h' x) = map_option strip_links (h x))"

lemma same_data_refl [simp]: "same_data h h"
  by (simp add: same_data_def)

lemma same_data_upd:
  "same_data h h' \<Longrightarrow> h' a = Some c \<Longrightarrow> strip_links c' = strip_links c \<Longrightarrow> same_data h (h'(a \<mapsto> c'))"
  by (simp add: same_data_def) (metis option.simps(9))

lemma strip_links_simps [simp]:
  "strip_links (c\<lparr>c_next := n\<rparr>) = strip_links c" "strip_links (c\<lparr>c_previous := p\<rparr>) = strip_links c"
  by (simp_all add: strip_links_def)

lemma gq_enqueue_empty:
  assumes "gq_list h q []" "h a = Some c" "c_next c = None"
  shows "gq_enqueue h q (Some a) =
      Inr (h(a \<mapsto> c\<lparr>c_previous := None\<rparr>),
           \<lparr>insert_end = Some a, remove_end = Some a, n_elements = n_elements q + 1\<rparr>)"
  using assms by (simp add: gq_list_Nil_iff gq_enqueue_def link_next_def Let_def)

lemma gq_enqueue_snoc:
  assumes "gq_list h q (ys @ [y])" "h a = Some c" "a \<notin> set (ys @ [y])" "h y = Some d"
  shows "gq_enqueue h q (Some a) =
      Inr (h(a \<mapsto> c\<lparr>c_previous := Some y\<rparr>, y \<mapsto> d\<lparr>c_next := Some a\<rparr>),
           q\<lparr>insert_end := Some a, n_elements := n_elements q + 1\<rparr>)"
proof -
  have "remove_end q \<noteq> None" using assms(1) by (cases ys) (auto simp: gq_list_def)
  then show ?thesis using assms by (auto simp: gq_enqueue_def link_next_def Let_def gq_list_def)
qed

lemma gq_list_snoc:
  assumes "gq_list h q (ys @ [y])" "h a = Some c" "c_next c = None" "a \<notin> set (ys @ [y])" "h y = Some d"
  shows "gq_list (h(a \<mapsto> c\<lparr>c_previous := Some y\<rparr>, y \<mapsto> d\<lparr>c_next := Some a\<rparr>))
      (q\<lparr>insert_end := Some a, n_elements := n\<rparr>) ((ys @ [y]) @ [a])"
proof -
  have "dseg c_next c_previous (h(a \<mapsto> c\<lparr>c_previous := Some y\<rparr>)) None (remove_end q) (ys @ [y]) None"
    using assms(1,4) by (simp add: gq_list_def)
  then have "dseg c_next c_previous (h(a \<mapsto> c\<lparr>c_previous := Some y\<rparr>, y \<mapsto> d\<lparr>c_next := Some a\<rparr>))
      None (remove_end q) (ys @ [y]) (Some a)"
    using assms(1,4,5) by (intro dseg_set_next[where c = d]) (auto simp: gq_list_def)
  then show ?thesis
    using assms(1,3,4) unfolding gq_list_def dseg_append[of _ _ _ _ _ "ys @ [y]" "[a]"] by auto
qed

lemma gq_enqueue_ok:
  assumes "gq_list h q xs" "unlinked h a" "a \<notin> set xs"
  shows "\<exists>h' q'. gq_enqueue h q (Some a) = Inr (h', q') \<and> gq_list h' q' (xs @ [a]) \<and>
    n_elements q' = n_elements q + 1 \<and> same_data h h' \<and> (\<forall>b. b \<noteq> a \<longrightarrow> b \<notin> set xs \<longrightarrow> h' b = h b)"
proof -
  obtain c where c: "h a = Some c" "c_next c = None"
    using assms(2) by (auto simp: unlinked_def split: option.splits)
  show ?thesis
  proof (cases xs rule: rev_cases)
    case Nil
    then show ?thesis using assms c by (simp add: gq_enqueue_empty gq_list_def same_data_upd)
  next
    case (snoc ys y)
    then obtain d where d: "h y = Some d" using assms(1) dseg_mapped unfolding gq_list_def by fastforce
    show ?thesis
      using gq_enqueue_snoc[of h q ys y a c d] gq_list_snoc[of h q ys y a c d] assms c d snoc
      by (auto intro!: same_data_upd)
  qed
qed

lemma gq_enqueue_no_mt_eq:
  assumes "gq_list h q xs" "unlinked h a" "a \<notin> set xs"
  shows "gq_enqueue_no_mt h q (Some a) = gq_enqueue h q (Some a)"
proof (cases xs rule: rev_cases)
  case Nil
  then show ?thesis using assms(1,2)
    by (auto simp: gq_enqueue_no_mt_def gq_enqueue_def gq_list_Nil_iff unlinked_def link_next_def Let_def
        split: option.splits)
next
  case (snoc ys y)
  then obtain d where d: "h y = Some d" using assms(1) dseg_mapped unfolding gq_list_def by fastforce
  then show ?thesis using assms snoc
    by (auto simp: gq_enqueue_no_mt_def gq_enqueue_def gq_list_def unlinked_def link_next_def Let_def
        split: option.splits)
qed

lemma gq_dequeue_empty: "gq_list h q [] \<Longrightarrow> gq_dequeue h q = Inr (h, q, None)"
  by (simp add: gq_list_Nil_iff gq_dequeue_def)

lemma gq_dequeue_ok:
  assumes "gq_list h q (x # xs)"
  shows "\<exists>h' q'. gq_dequeue h q = Inr (h', q', Some x) \<and> gq_list h' q' xs \<and>
    n_elements q' = n_elements q - 1 \<and> same_data h h' \<and> (\<forall>b. b \<notin> set (x # xs) \<longrightarrow> h' b = h b) \<and> unlinked h' x"
proof -
  obtain c where c: "h x = Some c" "c_previous c = None" "dseg c_next c_previous h (Some x) (c_next c) xs None"
    and q: "remove_end q = Some x" "insert_end q = last_ptr None (x # xs)" "distinct (x # xs)"
    using assms by (auto simp: gq_list_def split: option.splits)
  show ?thesis
  proof (cases xs)
    case Nil
    then show ?thesis using c q
      by (auto simp: gq_dequeue_def Let_def gq_list_def unlinked_def same_data_upd)
  next
    case (Cons y ys)
    then obtain d where d: "c_next c = Some y" "h y = Some d" "c_previous d = Some x"
        "dseg c_next c_previous h (Some y) (c_next d) ys None"
      using c(3) by (auto split: option.splits)
    then show ?thesis using c q Cons
      by (auto simp: gq_dequeue_def Let_def gq_list_def unlinked_def intro!: same_data_upd)
  qed
qed

definition gq_enq :: "cheap \<times> genqueue \<Rightarrow> cid \<Rightarrow> (cheap \<times> genqueue) result" where
  "gq_enq s a = gq_enqueue (fst s) (snd s) (Some a)"

definition gq_deq :: "cheap \<times> genqueue \<Rightarrow> ((cheap \<times> genqueue) \<times> cid option) result" where
  "gq_deq s = bind_result (gq_dequeue (fst s) (snd s)) (\<lambda>(h, q, r). Inr ((h, q), r))"

interpretation gq: fifo_queue "\<lambda>s. gq_inv (fst s) (snd s)" gq_enq gq_deq
  "\<lambda>s xs a. unlinked (fst s) a \<and> a \<notin> set xs" "(\<noteq>)"
proof
  fix s xs a
  assume "gq_inv (fst s) (snd s) xs" "unlinked (fst s) a \<and> a \<notin> set xs"
  then show "\<exists>s'. gq_enq s a = Inr s' \<and> gq_inv (fst s') (snd s') (xs @ [a])"
    using gq_enqueue_ok[of "fst s" "snd s" xs a] by (auto simp: gq_inv_def gq_enq_def)
next
  fix s xs a b s'
  assume "gq_inv (fst s) (snd s) xs" "unlinked (fst s) a \<and> a \<notin> set xs" "unlinked (fst s) b \<and> b \<notin> set xs"
    "a \<noteq> b" "gq_enq s a = Inr s'"
  then show "unlinked (fst s') b \<and> b \<notin> set (xs @ [a])"
    using gq_enqueue_ok[of "fst s" "snd s" xs a] by (auto simp: gq_inv_def gq_enq_def unlinked_def)
next
  fix s assume "gq_inv (fst s) (snd s) []"
  then show "gq_deq s = Inr (s, None)" by (simp add: gq_deq_def gq_inv_def gq_dequeue_empty)
next
  fix s x xs assume "gq_inv (fst s) (snd s) (x # xs)"
  then show "\<exists>s'. gq_deq s = Inr (s', Some x) \<and> gq_inv (fst s') (snd s') xs"
    using gq_dequeue_ok[of "fst s" "snd s" x xs] by (auto simp: gq_deq_def gq_inv_def)
qed

section \<open>Removing an element\<close>

lemma gq_unlink_first:
  assumes "gq_list h q (x # xs)"
  shows "\<exists>h' q'. gq_unlink h q (Some x) = Inr (h', q') \<and> gq_list h' q' xs \<and>
    same_data h h' \<and> n_elements q' = n_elements q - 1"
  using gq_dequeue_ok[OF assms] assms by (auto simp: gq_unlink_def gq_list_def)

lemma gq_unlink_last:
  assumes "gq_list h q (ys @ [y, x])"
  shows "\<exists>h' q'. gq_unlink h q (Some x) = Inr (h', q') \<and> gq_list h' q' (ys @ [y]) \<and>
    same_data h h' \<and> n_elements q' = n_elements q"
proof -
  have d: "dseg c_next c_previous h None (remove_end q) (ys @ [y]) (Some x)"
    using assms dseg_append[of _ _ _ _ _ "ys @ [y]" "[x]"] by (auto simp: gq_list_def)
  obtain c e where c: "h x = Some c" "c_previous c = Some y" and e: "h y = Some e"
    using assms by (auto simp: gq_list_def dseg_append split: option.splits)
  have ne: "remove_end q \<noteq> Some x" "insert_end q = Some x" "x \<noteq> y" "y \<notin> set ys" "distinct (ys @ [y])"
    using assms dseg_hd_in[OF d] by (auto simp: gq_list_def)
  have "gq_unlink h q (Some x) = Inr (h(y \<mapsto> e\<lparr>c_next := None\<rparr>), q\<lparr>insert_end := Some y\<rparr>)"
    using ne c e by (simp add: gq_unlink_def Let_def)
  moreover have "dseg c_next c_previous (h(y \<mapsto> e\<lparr>c_next := None\<rparr>)) None (remove_end q) (ys @ [y]) None"
    using d e ne by (intro dseg_set_next[where c = e]) auto
  ultimately show ?thesis using ne e by (auto simp: gq_list_def same_data_upd)
qed

lemma gq_unlink_middle:
  assumes "gq_list h q (ys @ [y] @ [x] @ z # zs)"
  shows "\<exists>h' q'. gq_unlink h q (Some x) = Inr (h', q') \<and> gq_list h' q' (ys @ [y] @ z # zs) \<and>
    same_data h h' \<and> n_elements q' = n_elements q"
proof -
  obtain c where c: "h x = Some c" "c_previous c = Some y" "c_next c = Some z"
    and d1: "dseg c_next c_previous h None (remove_end q) (ys @ [y]) (Some x)"
    and d2: "dseg c_next c_previous h (Some x) (Some z) (z # zs) None"
    using assms dseg_append[of _ _ _ _ _ "ys @ [y]" "x # z # zs"]
    by (auto simp: gq_list_def split: option.splits)
  obtain e g where e: "h y = Some e" and g: "h z = Some g"
    using d1 d2 dseg_mapped[OF d1, of y] by (auto split: option.splits)
  have ne: "remove_end q \<noteq> Some x" "insert_end q = last_ptr None (z # zs)" "insert_end q \<noteq> Some x"
      "distinct (ys @ [y] @ z # zs)" "x \<notin> set (ys @ [y] @ z # zs)"
    using assms dseg_hd_in[OF d1] by (auto simp: gq_list_def last_ptr_def split: if_splits)
  let ?h1 = "h(y \<mapsto> e\<lparr>c_next := Some z\<rparr>)" and ?g = "g\<lparr>c_previous := Some y\<rparr>"
  have "gq_unlink h q (Some x) = Inr (?h1(z \<mapsto> ?g), q)"
    using ne c e g by (auto simp: gq_unlink_def)
  moreover have "dseg c_next c_previous (?h1(z \<mapsto> ?g)) None (remove_end q) (ys @ [y]) (Some z)"
  proof -
    have "dseg c_next c_previous ?h1 None (remove_end q) (ys @ [y]) (Some z)"
      using d1 e ne by (intro dseg_set_next[where c = e]) auto
    then show ?thesis using ne by simp
  qed
  moreover have "dseg c_next c_previous (?h1(z \<mapsto> ?g)) (Some y) (Some z) (z # zs) None"
    using d2 g ne by (intro dseg_set_prev[where c = g and prev = "Some x"]) auto
  ultimately show ?thesis
    using ne e g by (auto simp: gq_list_def dseg_append[of _ _ _ _ _ "ys @ [y]" "z # zs", simplified]
        intro!: same_data_upd)
qed

lemma gq_unlink_ok:
  assumes "gq_list h q xs" "x \<in> set xs"
  shows "\<exists>h' q'. gq_unlink h q (Some x) = Inr (h', q') \<and> gq_list h' q' (remove1 x xs) \<and>
    same_data h h' \<and> n_elements q' = n_elements q - (if x = hd xs then 1 else 0)"
proof -
  obtain ys zs where xs: "xs = ys @ x # zs" using assms(2) by (auto simp: in_set_conv_decomp)
  have nin: "x \<notin> set ys" using assms(1) xs by (auto simp: gq_list_def)
  consider "ys = []" | ws w where "ys = ws @ [w]" "zs = []" | ws w v vs where "ys = ws @ [w]" "zs = v # vs"
    by (cases ys rule: rev_cases; cases zs) auto
  then show ?thesis
  proof cases
    case 1
    then show ?thesis using gq_unlink_first[of h q x zs] assms xs by auto
  next
    case 2
    have "hd (ws @ w # [x]) \<noteq> x" using nin 2 by (cases ws) auto
    then show ?thesis using gq_unlink_last[of h q ws w x] assms xs 2 nin by (auto simp: remove1_append)
  next
    case 3
    have "hd (ws @ w # x # v # vs) \<noteq> x" using nin 3 by (cases ws) auto
    then show ?thesis
      using gq_unlink_middle[of h q ws w x v vs] assms xs 3 nin by (auto simp: remove1_append)
  qed
qed

lemma same_data_mapped: "same_data h h' \<Longrightarrow> h x = Some c \<Longrightarrow> \<exists>c'. h' x = Some c' \<and> strip_links c' = strip_links c"
  by (cases "h' x") (auto simp: same_data_def dest: spec[of _ x])

lemma strip_links_segments:
  "strip_links c' = strip_links c \<Longrightarrow> c_next_segment c' = c_next_segment c \<and> c_prev_segment c' = c_prev_segment c"
  by (cases c; cases c') (simp add: strip_links_def)

lemma dseg_segments_same_data:
  "dseg c_next_segment c_prev_segment h prev p ss nxt \<Longrightarrow> same_data h h' \<Longrightarrow>
   dseg c_next_segment c_prev_segment h' prev p ss nxt"
  by (erule dseg_frame) (metis same_data_mapped strip_links_segments)

text \<open>Two stores that differ in the segment links only.\<close>

definition strip_segments :: "container \<Rightarrow> container" where
  "strip_segments c = c\<lparr>c_next_segment := None, c_prev_segment := None\<rparr>"

definition same_queue_data :: "cheap \<Rightarrow> cheap \<Rightarrow> bool" where
  "same_queue_data h h' \<longleftrightarrow> (\<forall>x. map_option strip_segments (h' x) = map_option strip_segments (h x))"

lemma same_queue_data_refl [simp]: "same_queue_data h h"
  by (simp add: same_queue_data_def)

lemma same_queue_data_upd:
  "same_queue_data h h' \<Longrightarrow> h' a = Some c \<Longrightarrow> strip_segments c' = strip_segments c \<Longrightarrow>
   same_queue_data h (h'(a \<mapsto> c'))"
  by (simp add: same_queue_data_def) (metis option.simps(9))

lemma strip_segments_simps [simp]:
  "strip_segments (c\<lparr>c_next_segment := n\<rparr>) = strip_segments c"
  "strip_segments (c\<lparr>c_prev_segment := p\<rparr>) = strip_segments c"
  by (simp_all add: strip_segments_def)

lemma strip_segments_links:
  "strip_segments c' = strip_segments c \<Longrightarrow> c_next c' = c_next c \<and> c_previous c' = c_previous c"
  by (cases c; cases c') (simp add: strip_segments_def)

lemma same_queue_data_mapped:
  "same_queue_data h h' \<Longrightarrow> h x = Some c \<Longrightarrow> \<exists>c'. h' x = Some c' \<and> strip_segments c' = strip_segments c"
  by (cases "h' x") (auto simp: same_queue_data_def dest: spec[of _ x])

lemma dseg_links_same_queue_data:
  "dseg c_next c_previous h prev p xs nxt \<Longrightarrow> same_queue_data h h' \<Longrightarrow>
   dseg c_next c_previous h' prev p xs nxt"
  by (erule dseg_frame) (metis same_queue_data_mapped strip_segments_links)

lemma gq_list_same_queue_data: "gq_list h q xs \<Longrightarrow> same_queue_data h h' \<Longrightarrow> gq_list h' q xs"
  by (auto simp: gq_list_def intro: dseg_links_same_queue_data)

lemma unlink_segment_parent:
  assumes "dseg c_next_segment c_prev_segment h None p (x # zs) None" "distinct (x # zs)"
  shows "\<exists>h'. unlink_segment h (Some x) = Inr h' \<and> same_queue_data h h' \<and>
    dseg c_next_segment c_prev_segment h' None (case zs of [] \<Rightarrow> None | z # _ \<Rightarrow> Some z) zs None"
proof (cases zs)
  case Nil
  then show ?thesis using assms by (auto simp: unlink_segment_def split: option.splits)
next
  case (Cons z zs')
  then obtain c e where c: "h x = Some c" "c_prev_segment c = None" "c_next_segment c = Some z"
      and e: "h z = Some e" and d: "dseg c_next_segment c_prev_segment h (Some x) (Some z) zs None"
    using assms(1) by (auto split: option.splits)
  have "dseg c_next_segment c_prev_segment (h(z \<mapsto> e\<lparr>c_prev_segment := None\<rparr>)) None (Some z) zs None"
    using d e assms(2) Cons by simp
  then show ?thesis
    using c e Cons by (simp add: unlink_segment_def same_queue_data_upd)
qed

lemma unlink_segment_middle:
  assumes "dseg c_next_segment c_prev_segment h None p ((ws @ [w]) @ x # zs) None"
    "distinct ((ws @ [w]) @ x # zs)"
  shows "\<exists>h'. unlink_segment h (Some x) = Inr h' \<and> same_queue_data h h' \<and>
    dseg c_next_segment c_prev_segment h' None p ((ws @ [w]) @ zs) None"
proof -
  obtain c where c: "h x = Some c" "c_prev_segment c = Some w"
    and d1: "dseg c_next_segment c_prev_segment h None p (ws @ [w]) (Some x)"
    and d2: "dseg c_next_segment c_prev_segment h (Some x) (c_next_segment c) zs None"
    using assms(1) unfolding dseg_append[of _ _ _ _ _ "ws @ [w]"] by (auto split: option.splits)
  obtain e where e: "h w = Some e" using dseg_mapped[OF d1, of w] by auto
  let ?h1 = "h(w \<mapsto> e\<lparr>c_next_segment := c_next_segment c\<rparr>)"
  have e1: "dseg c_next_segment c_prev_segment ?h1 None p (ws @ [w]) (c_next_segment c)"
    using d1 e assms(2) by (intro dseg_set_next[where c = e]) auto
  have s1: "same_queue_data h ?h1" using e by (simp add: same_queue_data_upd)
  show ?thesis
  proof (cases zs)
    case Nil
    then have "c_next_segment c = None" using d2 by simp
    moreover have "unlink_segment h (Some x) = Inr ?h1"
      using c e assms(2) calculation by (auto simp: unlink_segment_def)
    ultimately show ?thesis using e1 s1 Nil by auto
  next
    case (Cons z zs')
    then obtain g where g: "c_next_segment c = Some z" "h z = Some g" using d2 by (auto split: option.splits)
    let ?h2 = "?h1(z \<mapsto> g\<lparr>c_prev_segment := Some w\<rparr>)"
    have "unlink_segment h (Some x) = Inr ?h2"
      using c e g assms(2) Cons by (auto simp: unlink_segment_def)
    moreover have "dseg c_next_segment c_prev_segment ?h2 None p (ws @ [w]) (Some z)"
      using e1 g assms(2) Cons by auto
    moreover have "dseg c_next_segment c_prev_segment ?h2 (Some w) (Some z) zs None"
      using d2 g assms(2) Cons by (auto split: option.splits)
    moreover have "same_queue_data h ?h2" using e g assms(2) Cons by (auto intro!: same_queue_data_upd)
    ultimately show ?thesis unfolding dseg_append[of _ _ _ _ _ "ws @ [w]"] by auto
  qed
qed

lemma gq_unlink_keeps:
  assumes "gq_unlink h q el = Inr (h', q')" "gq_list h q xs" "el = Some x" "x \<in> set xs"
    "dseg c_next_segment c_prev_segment h None p ss None"
  shows "dseg c_next_segment c_prev_segment h' None p ss None"
  using gq_unlink_ok[OF assms(2,4)] assms(1,3,5) dseg_segments_same_data by auto

lemma unlink_segment_ok:
  assumes "dseg c_next_segment c_prev_segment h None p ss None" "distinct ss" "x \<in> set ss"
  shows "\<exists>h' p'. unlink_segment h (Some x) = Inr h' \<and> same_queue_data h h' \<and>
    dseg c_next_segment c_prev_segment h' None p' (remove1 x ss) None"
proof -
  obtain ys zs where ss: "ss = ys @ x # zs" using assms(3) by (auto simp: in_set_conv_decomp)
  have nin: "x \<notin> set ys" using assms(2) ss by simp
  show ?thesis
  proof (cases ys rule: rev_cases)
    case Nil
    then show ?thesis using unlink_segment_parent[of h p x zs] assms ss by auto
  next
    case (snoc ws w)
    then show ?thesis
      using unlink_segment_middle[of h p ws w x zs] assms ss nin by (auto simp: remove1_append)
  qed
qed

text \<open>
  containers enqueued one after the other into a well-formed queue come out
  of \<open>dequeue\<close> in the order they went in, after the ones already there, and
  leave the queue empty.
\<close>

theorem gq_fifo:
  assumes "gq_inv h q xs" "list_all (unlinked h) as" "distinct (xs @ as)" "length (xs @ as) < n"
  shows "\<exists>h1 q1 h2 q2. enq_all gq_enq (h, q) as = Inr (h1, q1) \<and>
    deq_upto gq_deq n (h1, q1) = Inr ((h2, q2), xs @ as) \<and> gq_inv h2 q2 []"
proof -
  have "distinct as" using assms(3) by simp
  then have "sorted_wrt (\<noteq>) as" by (auto simp: sorted_wrt_iff_nth_less nth_eq_iff_index_eq)
  then show ?thesis
    using gq.fifo[of "(h, q)" xs as n] assms by (fastforce simp: list_all_iff)
qed

definition sample_container :: container where
  "sample_container = \<lparr>c_top = 0, c_start = 0, c_end = 0, c_hard_end = 0, c_saved_top = 0, c_space_id = 0,
     c_scanned_flag = 0, c_next_segment = None, c_prev_segment = None, c_next = None, c_previous = None\<rparr>"

theorem gq_fifo_witness:
  "\<exists>h1 q1 h2 q2. enq_all gq_enq ((\<lambda>a. if a < 3 then Some sample_container else None), gq_create) [2, 0, 1] =
      Inr (h1, q1) \<and>
    deq_upto gq_deq 4 (h1, q1) = Inr ((h2, q2), [2, 0, 1]) \<and> gq_inv h2 q2 []"
  using gq_fifo[OF gq_create_inv, of "\<lambda>a. if a < 3 then Some sample_container else None" "[2, 0, 1]" 4]
  by (simp add: unlinked_def sample_container_def)

text \<open>
  C29: removing any element of a well-formed queue leaves the queue of the others
  in order, and the list of segments it belongs to without it; the counter is
  decremented once for an element that is not the first and twice for the first,
  since \<open>dequeue\<close> has counted it already.
\<close>

theorem gq_remove_element_ok:
  assumes "gq_list h q xs" "x \<in> set xs"
    "dseg c_next_segment c_prev_segment h None p ss None" "distinct ss" "x \<in> set ss"
  shows "\<exists>h' q' p'. gq_remove_element h q (Some x) = Inr (h', q') \<and> gq_list h' q' (remove1 x xs) \<and>
    dseg c_next_segment c_prev_segment h' None p' (remove1 x ss) None \<and>
    n_elements q' = n_elements q - (if x = hd xs then 2 else 1)"
proof -
  obtain h1 q1 where 1: "gq_unlink h q (Some x) = Inr (h1, q1)" "gq_list h1 q1 (remove1 x xs)"
      "n_elements q1 = n_elements q - (if x = hd xs then 1 else 0)"
    using gq_unlink_ok[OF assms(1,2)] by blast
  have "dseg c_next_segment c_prev_segment h1 None p ss None"
    by (rule gq_unlink_keeps[OF 1(1) assms(1) refl assms(2,3)])
  then obtain h2 p' where "unlink_segment h1 (Some x) = Inr h2" "same_queue_data h1 h2"
      "dseg c_next_segment c_prev_segment h2 None p' (remove1 x ss) None"
    using unlink_segment_ok assms(4,5) by blast
  moreover from this have "gq_list h2 (q1\<lparr>n_elements := n_elements q1 - 1\<rparr>) (remove1 x xs)"
    using 1(2) gq_list_same_queue_data by (auto simp: gq_list_def)
  ultimately show ?thesis using 1 by (auto simp: gq_remove_element_def)
qed

theorem gq_remove_element_ok_witness:
  "\<exists>h' q' p'. gq_remove_element
      ((\<lambda>_. None)(5 \<mapsto> sample_container\<lparr>c_next := Some 7\<rparr>, 7 \<mapsto> sample_container\<lparr>c_previous := Some 5\<rparr>))
      \<lparr>insert_end = Some 7, remove_end = Some 5, n_elements = 2\<rparr> (Some 5) = Inr (h', q') \<and>
    gq_list h' q' [7] \<and> dseg c_next_segment c_prev_segment h' None p' [] None \<and> n_elements q' = 0"
  using gq_remove_element_ok[of
      "(\<lambda>_. None)(5 \<mapsto> sample_container\<lparr>c_next := Some 7\<rparr>, 7 \<mapsto> sample_container\<lparr>c_previous := Some 5\<rparr>)"
      "\<lparr>insert_end = Some 7, remove_end = Some 5, n_elements = 2\<rparr>" "[5, 7]" 5 "Some 5" "[5]"]
  by (simp add: gq_list_def sample_container_def)

end
