(* ===== verification/GenQueueMT.thy ===== *)
theory GenQueueMT
  imports GenQueue
begin

text \<open>
  \<open>GenQueue::enqueue\<close> run by several threads at once: a step relation with one
  step per access to shared memory, its invariant, and what the queue is once all
  threads have returned.
\<close>

section \<open>Concurrent enqueues\<close>

text \<open>
  Threads \<open>t\<close> enqueue one cell each, \<open>own t\<close>.  A program counter says
  which statement of \<open>enqueue\<close> is next, with the value of \<open>temp\<close> from the
  read on; every access to shared memory is a step of its own.  A thread that would
  dereference NULL, or for which the closing assertion does not hold, has no step.
\<close>

datatype enq_pc =
    ReadEnd
  | CasEnd container_t
  | SetPrevious container_t
  | LinkNext container_t
  | CheckFirst container_t
  | CheckRemove container_t
  | SetRemove container_t
  | CountUp container_t
  | CheckLink container_t
  | Done

record enq_state =
  st_heap :: cheap
  st_queue :: genqueue
  st_pc :: "nat \<Rightarrow> enq_pc"

text \<open>The assertion \<open>temp == NULL || temp->_next == el\<close>.\<close>

definition link_set :: "cheap \<Rightarrow> container_t \<Rightarrow> container_t \<Rightarrow> unit result" where
  "link_set h temp el =
     (if temp = None then Inr ()
      else bind_result (cget h temp) (\<lambda>c.
        if c_next c = el then Inr () else Inl (AssertFailed ''just checking if assign was valid'')))"

inductive enq_step :: "(nat \<Rightarrow> cid) \<Rightarrow> enq_state \<Rightarrow> enq_state \<Rightarrow> bool" for own where
  read_end: "st_pc s t = ReadEnd \<Longrightarrow>
    enq_step own s (s\<lparr>st_pc := (st_pc s)(t := CasEnd (insert_end (st_queue s)))\<rparr>)"
| cas_ok: "st_pc s t = CasEnd temp \<Longrightarrow> insert_end (st_queue s) = temp \<Longrightarrow>
    enq_step own s (s\<lparr>st_queue := (st_queue s)\<lparr>insert_end := Some (own t)\<rparr>,
                       st_pc := (st_pc s)(t := SetPrevious temp)\<rparr>)"
| cas_fail: "st_pc s t = CasEnd temp \<Longrightarrow> insert_end (st_queue s) \<noteq> temp \<Longrightarrow>
    enq_step own s (s\<lparr>st_pc := (st_pc s)(t := ReadEnd)\<rparr>)"
| set_previous: "st_pc s t = SetPrevious temp \<Longrightarrow>
    cmod (st_heap s) (Some (own t)) (\<lambda>c. c\<lparr>c_previous := temp\<rparr>) = Inr h' \<Longrightarrow>
    enq_step own s (s\<lparr>st_heap := h', st_pc := (st_pc s)(t := LinkNext temp)\<rparr>)"
| link_next: "st_pc s t = LinkNext temp \<Longrightarrow> link_next (st_heap s) temp (Some (own t)) = Inr h' \<Longrightarrow>
    enq_step own s (s\<lparr>st_heap := h', st_pc := (st_pc s)(t := CheckFirst temp)\<rparr>)"
| check_first: "st_pc s t = CheckFirst temp \<Longrightarrow> cget (st_heap s) (Some (own t)) = Inr c \<Longrightarrow>
    enq_step own s (s\<lparr>st_pc := (st_pc s)(t := (if c_previous c = None then CheckRemove temp else CountUp temp))\<rparr>)"
| check_remove: "st_pc s t = CheckRemove temp \<Longrightarrow>
    enq_step own s (s\<lparr>st_pc := (st_pc s)
      (t := (if remove_end (st_queue s) = None then SetRemove temp else CountUp temp))\<rparr>)"
| set_remove: "st_pc s t = SetRemove temp \<Longrightarrow>
    enq_step own s (s\<lparr>st_queue := (st_queue s)\<lparr>remove_end := Some (own t)\<rparr>,
                       st_pc := (st_pc s)(t := CountUp temp)\<rparr>)"
| count_up: "st_pc s t = CountUp temp \<Longrightarrow>
    enq_step own s (s\<lparr>st_queue := (st_queue s)\<lparr>n_elements := n_elements (st_queue s) + 1\<rparr>,
                       st_pc := (st_pc s)(t := CheckLink temp)\<rparr>)"
| check_link: "st_pc s t = CheckLink temp \<Longrightarrow> link_set (st_heap s) temp (Some (own t)) = Inr () \<Longrightarrow>
    enq_step own s (s\<lparr>st_pc := (st_pc s)(t := Done)\<rparr>)"

inductive_cases enq_stepE: "enq_step own s s'"

text \<open>Which statements of \<open>enqueue\<close> a thread has behind it.\<close>

fun past_cas :: "enq_pc \<Rightarrow> bool" where
  "past_cas ReadEnd = False"
| "past_cas (CasEnd temp) = False"
| "past_cas _ = True"

fun past_previous :: "enq_pc \<Rightarrow> bool" where
  "past_previous (SetPrevious temp) = False"
| "past_previous pc = past_cas pc"

fun past_link :: "enq_pc \<Rightarrow> bool" where
  "past_link (LinkNext temp) = False"
| "past_link pc = past_previous pc"

fun past_remove :: "enq_pc \<Rightarrow> bool" where
  "past_remove (CountUp temp) = True"
| "past_remove (CheckLink temp) = True"
| "past_remove Done = True"
| "past_remove _ = False"

fun temp_of :: "enq_pc \<Rightarrow> container_t option" where
  "temp_of (SetPrevious temp) = Some temp"
| "temp_of (LinkNext temp) = Some temp"
| "temp_of (CheckFirst temp) = Some temp"
| "temp_of (CheckRemove temp) = Some temp"
| "temp_of (SetRemove temp) = Some temp"
| "temp_of (CountUp temp) = Some temp"
| "temp_of (CheckLink temp) = Some temp"
| "temp_of _ = None"

text \<open>Threads past the test of \<open>_previous\<close> have no element before them.\<close>

fun at_first :: "enq_pc \<Rightarrow> bool" where
  "at_first (CheckRemove temp) = (temp = None)"
| "at_first (SetRemove temp) = (temp = None)"
| "at_first _ = True"

fun counted :: "enq_pc \<Rightarrow> bool" where
  "counted (CheckLink temp) = True"
| "counted Done = True"
| "counted _ = False"

text \<open>The cells of the threads \<open>T\<close> that satisfy \<open>P\<close>.\<close>

definition cells :: "(nat \<Rightarrow> cid) \<Rightarrow> nat set \<Rightarrow> (enq_pc \<Rightarrow> bool) \<Rightarrow> (nat \<Rightarrow> enq_pc) \<Rightarrow> cid set" where
  "cells own T P pc = own ` {t \<in> T. P (pc t)}"

lemma cells_upd:
  assumes "inj_on own T" "t \<in> T"
  shows "cells own T P (pc(t := v)) = (if P v then insert (own t) (cells own T P pc) else cells own T P pc - {own t})"
  using assms unfolding cells_def by (auto dest: inj_onD)

lemma cells_in: "inj_on own T \<Longrightarrow> t \<in> T \<Longrightarrow> own t \<in> cells own T P pc \<longleftrightarrow> P (pc t)"
  unfolding cells_def by (auto dest: inj_onD)

text \<open>
  The invariant, for a queue that was \<open>xs\<close> and in which the cells \<open>full\<close>
  have taken their place by a compare-and-exchange.  Every cell behind \<open>temp\<close>
  is where \<open>temp\<close> says, links backwards once its thread is past that store,
  and is linked to from the cell before it once its thread is past that one.
\<close>

definition enq_shape :: "(nat \<Rightarrow> cid) \<Rightarrow> nat set \<Rightarrow> cid list \<Rightarrow> enq_state \<Rightarrow> cid list \<Rightarrow> bool" where
  "enq_shape own T xs s full \<longleftrightarrow>
     distinct full \<and> (\<exists>ys. full = xs @ ys \<and> set ys = cells own T past_cas (st_pc s)) \<and>
     insert_end (st_queue s) = last_ptr None full \<and> (\<forall>t. t \<notin> T \<longrightarrow> st_pc s t = Done) \<and>
     (\<forall>t \<in> T. \<forall>temp. temp_of (st_pc s t) = Some temp \<longrightarrow> pred_of full (own t) = temp) \<and>
     (\<forall>t \<in> T. at_first (st_pc s t))"

definition linked_cell :: "cid set \<Rightarrow> cid set \<Rightarrow> cid list \<Rightarrow> cid \<Rightarrow> container \<Rightarrow> bool" where
  "linked_cell L V full x c \<longleftrightarrow>
     (\<forall>y. c_next c = Some y \<longleftrightarrow> y \<in> L \<and> pred_of full y = Some x) \<and>
     (x \<in> V \<longrightarrow> c_previous c = pred_of full x)"

definition enq_links :: "(nat \<Rightarrow> cid) \<Rightarrow> nat set \<Rightarrow> cid list \<Rightarrow> enq_state \<Rightarrow> cid list \<Rightarrow> bool" where
  "enq_links own T xs s full \<longleftrightarrow>
     (\<forall>x \<in> set xs \<union> own ` T. \<exists>c. st_heap s x = Some c \<and>
        linked_cell (set xs \<union> cells own T past_link (st_pc s))
          (set xs \<union> cells own T past_previous (st_pc s)) full x c)"

lemma enq_linksE:
  assumes "enq_links own T xs s full" "x \<in> set xs \<union> own ` T"
  obtains c where "st_heap s x = Some c"
    "linked_cell (set xs \<union> cells own T past_link (st_pc s))
       (set xs \<union> cells own T past_previous (st_pc s)) full x c"
  using bspec[OF assms(1)[unfolded enq_links_def] assms(2)] that by blast

definition enq_ends :: "(nat \<Rightarrow> cid) \<Rightarrow> nat set \<Rightarrow> cid list \<Rightarrow> enq_state \<Rightarrow> cid list \<Rightarrow> bool" where
  "enq_ends own T xs s full \<longleftrightarrow>
     remove_end (st_queue s) =
       (if full \<noteq> [] \<and> hd full \<in> set xs \<union> cells own T past_remove (st_pc s)
        then Some (hd full) else None) \<and>
     n_elements (st_queue s) = int (length xs) + int (card {t \<in> T. counted (st_pc s t)})"

definition enq_inv :: "(nat \<Rightarrow> cid) \<Rightarrow> nat set \<Rightarrow> cid list \<Rightarrow> enq_state \<Rightarrow> bool" where
  "enq_inv own T xs s \<longleftrightarrow>
     (\<exists>full. enq_shape own T xs s full \<and> enq_links own T xs s full \<and> enq_ends own T xs s full)"

lemma cells_past_link: "cells own T past_link pc \<subseteq> cells own T past_previous pc"
  and cells_past_previous: "cells own T past_previous pc \<subseteq> cells own T past_cas pc"
  and cells_past_remove: "cells own T past_remove pc \<subseteq> cells own T past_link pc"
proof -
  have "past_link p \<Longrightarrow> past_previous p" "past_previous p \<Longrightarrow> past_cas p" "past_remove p \<Longrightarrow> past_link p" for p
    by (cases p; simp)+
  then show "cells own T past_link pc \<subseteq> cells own T past_previous pc"
    "cells own T past_previous pc \<subseteq> cells own T past_cas pc"
    "cells own T past_remove pc \<subseteq> cells own T past_link pc"
    unfolding cells_def by blast+
qed

lemma card_counted_upd:
  assumes "finite T" "t \<in> T" "\<not> counted (pc t)"
  shows "card {u \<in> T. counted ((pc(t := v)) u)} = card {u \<in> T. counted (pc u)} + (if counted v then 1 else 0)"
proof -
  have "{u \<in> T. counted ((pc(t := v)) u)} =
      (if counted v then insert t {u \<in> T. counted (pc u)} else {u \<in> T. counted (pc u)})"
    using assms by auto
  then show ?thesis using assms by simp
qed

lemma card_counted_same:
  "counted v = counted (pc t) \<Longrightarrow> card {u \<in> T. counted ((pc(t := v)) u)} = card {u \<in> T. counted (pc u)}"
  by (rule arg_cong[of _ _ card]) auto

lemma cells_same:
  assumes "inj_on own T" "t \<in> T" "P v = P (pc t)"
  shows "cells own T P (pc(t := v)) = cells own T P pc"
  using cells_upd[OF assms(1,2), of P pc v] cells_in[OF assms(1,2), of P pc] assms(3) by auto

lemma enq_inv_local:
  assumes "inj_on own T" "finite T" "t \<in> T" "enq_inv own T xs s"
    "past_cas v = past_cas (st_pc s t)" "past_previous v = past_previous (st_pc s t)"
    "past_link v = past_link (st_pc s t)" "past_remove v = past_remove (st_pc s t)"
    "temp_of v = None \<or> temp_of v = temp_of (st_pc s t)" "counted v = counted (st_pc s t)" "at_first v"
  shows "enq_inv own T xs (s\<lparr>st_pc := (st_pc s)(t := v)\<rparr>)"
proof -
  obtain full where f: "enq_shape own T xs s full" "enq_links own T xs s full" "enq_ends own T xs s full"
    using assms(4) by (auto simp: enq_inv_def)
  have "enq_shape own T xs (s\<lparr>st_pc := (st_pc s)(t := v)\<rparr>) full"
    using f(1) assms(1,3,5,9,11) unfolding enq_shape_def by (auto simp: cells_same)
  moreover have "enq_links own T xs (s\<lparr>st_pc := (st_pc s)(t := v)\<rparr>) full"
    using f(2) assms(1,3,6,7) unfolding enq_links_def by (simp add: cells_same)
  moreover have "enq_ends own T xs (s\<lparr>st_pc := (st_pc s)(t := v)\<rparr>) full"
    using f(3) assms(1,3,8) card_counted_same[of v "st_pc s" t T, OF assms(10)]
    unfolding enq_ends_def by (simp add: cells_same)
  ultimately show ?thesis unfolding enq_inv_def by blast
qed

lemma enq_inv_cas:
  assumes own: "inj_on own T" "finite T" "own ` T \<inter> set xs = {}" and inv: "enq_inv own T xs s"
    and pc: "st_pc s t = CasEnd temp" "insert_end (st_queue s) = temp" and t: "t \<in> T"
  shows "enq_inv own T xs (s\<lparr>st_queue := (st_queue s)\<lparr>insert_end := Some (own t)\<rparr>,
    st_pc := (st_pc s)(t := SetPrevious temp)\<rparr>)" (is "enq_inv own T xs ?s")
proof -
  obtain full ys where f: "enq_shape own T xs s full" "enq_links own T xs s full" "enq_ends own T xs s full"
    and ys: "full = xs @ ys" "set ys = cells own T past_cas (st_pc s)"
    using inv by (auto simp: enq_inv_def enq_shape_def)
  have new: "own t \<notin> set full" using own t pc ys cells_in[OF own(1) t, of past_cas "st_pc s"] by auto
  have others: "own u \<in> set full" if "u \<in> T" "temp_of (st_pc s u) \<noteq> None" for u
  proof -
    have "past_cas (st_pc s u)" using that(2) by (cases "st_pc s u") auto
    then show ?thesis using that(1) ys by (simp add: cells_in[OF own(1)])
  qed
  have temp: "last_ptr None full = temp" using f(1) pc(2) by (simp add: enq_shape_def)
  have "\<forall>u \<in> T. \<forall>tmp. temp_of (st_pc ?s u) = Some tmp \<longrightarrow> pred_of (full @ [own t]) (own u) = tmp"
    using f(1) new others temp by (auto simp: enq_shape_def)
  moreover have "\<exists>zs. full @ [own t] = xs @ zs \<and> set zs = cells own T past_cas (st_pc ?s)"
    using ys t own(1) by (intro exI[of _ "ys @ [own t]"]) (simp add: cells_upd)
  ultimately have "enq_shape own T xs ?s (full @ [own t])"
    using f(1) new t unfolding enq_shape_def by auto
  moreover have old: "y \<in> set xs \<union> cells own T past_link (st_pc s) \<Longrightarrow> y \<in> set full" for y
    using ys cells_past_link[of own T "st_pc s"] cells_past_previous[of own T "st_pc s"] by auto
  have old': "y \<in> set xs \<union> cells own T past_previous (st_pc s) \<Longrightarrow> y \<in> set full" for y
    using ys cells_past_previous[of own T "st_pc s"] by auto
  have "enq_links own T xs ?s (full @ [own t])"
    using f(2) old old' pc(1) own(1) t unfolding enq_links_def linked_cell_def
    by (simp add: cells_same) (metis pred_of_old)
  moreover have "enq_ends own T xs ?s (full @ [own t])"
    using f(3) pc(1) own t card_counted_upd[OF own(2) t, of "st_pc s" "SetPrevious temp"]
      cells_in[OF own(1) t, of past_remove "st_pc s"]
    unfolding enq_ends_def by (cases full) (auto simp: cells_same)
  ultimately show ?thesis unfolding enq_inv_def by blast
qed

lemma enq_inv_set_previous:
  assumes own: "inj_on own T" "finite T" and inv: "enq_inv own T xs s"
    and pc: "st_pc s t = SetPrevious temp" and t: "t \<in> T"
    and h': "cmod (st_heap s) (Some (own t)) (\<lambda>c. c\<lparr>c_previous := temp\<rparr>) = Inr h'"
  shows "enq_inv own T xs (s\<lparr>st_heap := h', st_pc := (st_pc s)(t := LinkNext temp)\<rparr>)" (is "enq_inv own T xs ?s")
proof -
  obtain full where f: "enq_shape own T xs s full" "enq_links own T xs s full" "enq_ends own T xs s full"
    using inv by (auto simp: enq_inv_def)
  obtain c where c: "st_heap s (own t) = Some c" "h' = (st_heap s)(own t \<mapsto> c\<lparr>c_previous := temp\<rparr>)"
    using f(2) h' t unfolding enq_links_def by (cases "st_heap s (own t)") auto
  have p: "pred_of full (own t) = temp" using f(1) t pc by (simp add: enq_shape_def)
  have "enq_shape own T xs ?s full"
    using f(1) pc t own(1) unfolding enq_shape_def by (auto simp: cells_same)
  moreover have "enq_links own T xs ?s full"
  proof -
    have "\<exists>c. h' x = Some c \<and> linked_cell (set xs \<union> cells own T past_link (st_pc s))
        (set xs \<union> insert (own t) (cells own T past_previous (st_pc s))) full x c"
      if x: "x \<in> set xs \<union> own ` T" for x
    proof -
      obtain d where "st_heap s x = Some d" "linked_cell (set xs \<union> cells own T past_link (st_pc s))
          (set xs \<union> cells own T past_previous (st_pc s)) full x d"
        by (rule enq_linksE[OF f(2) x])
      then show ?thesis using c p by (cases "x = own t") (auto simp: linked_cell_def)
    qed
    then show ?thesis using pc t own(1) unfolding enq_links_def by (simp add: cells_same cells_upd)
  qed
  moreover have "enq_ends own T xs ?s full"
    using f(3) pc t own card_counted_upd[OF own(2) t, of "st_pc s" "LinkNext temp"]
    unfolding enq_ends_def by (simp add: cells_same)
  ultimately show ?thesis unfolding enq_inv_def by blast
qed

lemma enq_inv_link:
  assumes own: "inj_on own T" "finite T" and inv: "enq_inv own T xs s"
    and pc: "st_pc s t = LinkNext temp" and t: "t \<in> T"
    and h': "link_next (st_heap s) temp (Some (own t)) = Inr h'"
  shows "enq_inv own T xs (s\<lparr>st_heap := h', st_pc := (st_pc s)(t := CheckFirst temp)\<rparr>)" (is "enq_inv own T xs ?s")
proof -
  obtain full where f: "enq_shape own T xs s full" "enq_links own T xs s full" "enq_ends own T xs s full"
    using inv by (auto simp: enq_inv_def)
  have p: "pred_of full (own t) = temp" using f(1) t pc by (simp add: enq_shape_def)
  have sub: "set xs \<union> cells own T past_link (st_pc s) \<subseteq> set full" "own t \<in> set full" "distinct full"
    using f(1) cells_past_link[of own T "st_pc s"] cells_past_previous[of own T "st_pc s"]
      cells_in[OF own(1) t, of past_cas "st_pc s"] pc unfolding enq_shape_def by auto
  have only: "y = own t" if "y \<in> set full" "pred_of full y = temp" for y
    using pred_of_inj[OF sub(3) that(1) sub(2)] that(2) p by simp
  have "enq_shape own T xs ?s full"
    using f(1) pc t own(1) unfolding enq_shape_def by (auto simp: cells_same)
  moreover have "enq_links own T xs ?s full"
  proof -
    have "\<exists>c. h' x = Some c \<and> linked_cell (set xs \<union> insert (own t) (cells own T past_link (st_pc s)))
        (set xs \<union> cells own T past_previous (st_pc s)) full x c"
      if x: "x \<in> set xs \<union> own ` T" for x
    proof -
      obtain d where d: "st_heap s x = Some d" "linked_cell (set xs \<union> cells own T past_link (st_pc s))
          (set xs \<union> cells own T past_previous (st_pc s)) full x d"
        by (rule enq_linksE[OF f(2) x])
      show ?thesis
      proof (cases "temp = Some x")
        case True
        then have "h' = (st_heap s)(x \<mapsto> d\<lparr>c_next := Some (own t)\<rparr>)" using h' d(1) by (simp add: link_next_def)
        moreover have "Some (own t) = Some y \<longleftrightarrow>
            y \<in> set xs \<union> insert (own t) (cells own T past_link (st_pc s)) \<and> pred_of full y = Some x" for y
          using only[of y] p True subsetD[OF sub(1), of y] by (cases "y = own t") auto
        ultimately show ?thesis using d(2) by (simp add: linked_cell_def)
      next
        case False
        then have "h' x = Some d" using h' d(1)
          by (auto simp: link_next_def cmod_def split: if_splits option.splits)
        then show ?thesis using d(2) p False by (auto simp: linked_cell_def)
      qed
    qed
    then show ?thesis using pc t own(1) unfolding enq_links_def by (simp add: cells_same cells_upd)
  qed
  moreover have "enq_ends own T xs ?s full"
    using f(3) pc t own card_counted_upd[OF own(2) t, of "st_pc s" "CheckFirst temp"]
    unfolding enq_ends_def by (simp add: cells_same)
  ultimately show ?thesis unfolding enq_inv_def by blast
qed

lemma enq_inv_check:
  assumes own: "inj_on own T" "finite T" "own ` T \<inter> set xs = {}" and inv: "enq_inv own T xs s"
    and pc: "st_pc s t = CheckFirst temp" and t: "t \<in> T" and c: "cget (st_heap s) (Some (own t)) = Inr c"
  shows "enq_inv own T xs (s\<lparr>st_pc := (st_pc s)(t := (if c_previous c = None then CheckRemove temp else CountUp temp))\<rparr>)"
proof -
  obtain full where f: "enq_shape own T xs s full" "enq_links own T xs s full" "enq_ends own T xs s full"
    using inv by (auto simp: enq_inv_def)
  have p: "pred_of full (own t) = temp" using f(1) t pc by (simp add: enq_shape_def)
  obtain d where "st_heap s (own t) = Some d" "linked_cell (set xs \<union> cells own T past_link (st_pc s))
          (set xs \<union> cells own T past_previous (st_pc s)) full (own t) d"
    by (rule enq_linksE[OF f(2), of "own t"]) (use t in auto)
  then have prev: "c_previous c = temp"
    using c p pc cells_in[OF own(1) t, of past_previous "st_pc s"] by (auto simp: linked_cell_def)
  have mem: "own t \<in> set full" "distinct full" "own t \<notin> set xs" "own t \<notin> cells own T past_remove (st_pc s)"
    using f(1) cells_in[OF own(1) t, of past_cas "st_pc s"] cells_in[OF own(1) t, of past_remove "st_pc s"]
      pc own(3) t unfolding enq_shape_def by auto
  have hd: "temp = None \<longleftrightarrow> own t = hd full" using pred_of_None[OF mem(2,1)] p by simp
  show ?thesis
  proof (cases "temp = None")
    case True
    then show ?thesis using prev pc enq_inv_local[OF own(1,2) t inv, of "CheckRemove temp"] by simp
  next
    case False
    have "enq_shape own T xs (s\<lparr>st_pc := (st_pc s)(t := CountUp temp)\<rparr>) full"
      using f(1) pc t own(1) unfolding enq_shape_def by (auto simp: cells_same)
    moreover have "enq_links own T xs (s\<lparr>st_pc := (st_pc s)(t := CountUp temp)\<rparr>) full"
      using f(2) pc t own(1) unfolding enq_links_def by (simp add: cells_same)
    moreover have "enq_ends own T xs (s\<lparr>st_pc := (st_pc s)(t := CountUp temp)\<rparr>) full"
      using f(3) pc t own False hd card_counted_upd[OF own(2) t, of "st_pc s" "CountUp temp"]
      unfolding enq_ends_def by (auto simp: cells_upd)
    ultimately show ?thesis using False prev unfolding enq_inv_def by auto
  qed
qed

lemma enq_inv_check_remove:
  assumes own: "inj_on own T" "finite T" "own ` T \<inter> set xs = {}" and inv: "enq_inv own T xs s"
    and pc: "st_pc s t = CheckRemove temp" and t: "t \<in> T"
  shows "enq_inv own T xs (s\<lparr>st_pc := (st_pc s)
    (t := (if remove_end (st_queue s) = None then SetRemove temp else CountUp temp))\<rparr>)"
proof -
  obtain full where f: "enq_shape own T xs s full" "enq_ends own T xs s full" using inv by (auto simp: enq_inv_def)
  have "at_first (st_pc s t)" using f(1) t by (simp add: enq_shape_def)
  then have temp: "temp = None" by (simp add: pc)
  have mem: "own t \<in> set full" "distinct full" "own t \<notin> set xs" "own t \<notin> cells own T past_remove (st_pc s)"
    using f(1) cells_in[OF own(1) t, of past_cas "st_pc s"] cells_in[OF own(1) t, of past_remove "st_pc s"]
      pc own(3) t unfolding enq_shape_def by auto
  have "own t = hd full" using f(1) t pc temp pred_of_None[OF mem(2,1)] by (simp add: enq_shape_def)
  then have "remove_end (st_queue s) = None" using f(2) mem by (auto simp: enq_ends_def)
  then show ?thesis using pc temp enq_inv_local[OF own(1,2) t inv, of "SetRemove temp"] by simp
qed

lemma enq_inv_set_remove:
  assumes own: "inj_on own T" "finite T" and inv: "enq_inv own T xs s"
    and pc: "st_pc s t = SetRemove temp" and t: "t \<in> T"
  shows "enq_inv own T xs (s\<lparr>st_queue := (st_queue s)\<lparr>remove_end := Some (own t)\<rparr>,
    st_pc := (st_pc s)(t := CountUp temp)\<rparr>)" (is "enq_inv own T xs ?s")
proof -
  obtain full where f: "enq_shape own T xs s full" "enq_links own T xs s full" "enq_ends own T xs s full"
    using inv by (auto simp: enq_inv_def)
  have mem: "own t \<in> set full" "distinct full"
    using f(1) cells_in[OF own(1) t, of past_cas "st_pc s"] pc unfolding enq_shape_def by auto
  have hd: "own t = hd full"
    using f(1) t pc pred_of_None[OF mem(2,1)] unfolding enq_shape_def by force
  have "enq_shape own T xs ?s full"
    using f(1) pc t own(1) unfolding enq_shape_def by (auto simp: cells_same)
  moreover have "enq_links own T xs ?s full"
    using f(2) pc t own(1) unfolding enq_links_def by (simp add: cells_same)
  moreover have "enq_ends own T xs ?s full"
    using f(3) pc t own hd mem(1) card_counted_upd[OF own(2) t, of "st_pc s" "CountUp temp"]
    unfolding enq_ends_def by (auto simp: cells_upd)
  ultimately show ?thesis unfolding enq_inv_def by blast
qed

lemma enq_inv_count:
  assumes own: "inj_on own T" "finite T" and inv: "enq_inv own T xs s"
    and pc: "st_pc s t = CountUp temp" and t: "t \<in> T"
  shows "enq_inv own T xs (s\<lparr>st_queue := (st_queue s)\<lparr>n_elements := n_elements (st_queue s) + 1\<rparr>,
    st_pc := (st_pc s)(t := CheckLink temp)\<rparr>)" (is "enq_inv own T xs ?s")
proof -
  obtain full where f: "enq_shape own T xs s full" "enq_links own T xs s full" "enq_ends own T xs s full"
    using inv by (auto simp: enq_inv_def)
  have "enq_shape own T xs ?s full"
    using f(1) pc t own(1) unfolding enq_shape_def by (auto simp: cells_same)
  moreover have "enq_links own T xs ?s full"
    using f(2) pc t own(1) unfolding enq_links_def by (simp add: cells_same)
  moreover have "enq_ends own T xs ?s full"
    using f(3) pc t own card_counted_upd[OF own(2) t, of "st_pc s" "CheckLink temp"]
    unfolding enq_ends_def by (simp add: cells_same)
  ultimately show ?thesis unfolding enq_inv_def by blast
qed

lemma enq_inv_step:
  assumes "enq_step own s s'" "enq_inv own T xs s" "inj_on own T" "finite T" "own ` T \<inter> set xs = {}"
  shows "enq_inv own T xs s'"
proof -
  have T: "t \<in> T" if "st_pc s t \<noteq> Done" for t
    using assms(2) that by (auto simp: enq_inv_def enq_shape_def)
  from assms(1) show ?thesis
  proof cases
    case (read_end t)
    then show ?thesis using enq_inv_local[OF assms(3,4) T[of t] assms(2)] by simp
  next
    case (cas_ok t temp)
    then show ?thesis using enq_inv_cas[OF assms(3,4,5,2)] T[of t] by simp
  next
    case (cas_fail t temp)
    then show ?thesis using enq_inv_local[OF assms(3,4) T[of t] assms(2)] by simp
  next
    case (set_previous t temp h')
    then show ?thesis using enq_inv_set_previous[OF assms(3,4,2)] T[of t] by simp
  next
    case (link_next t temp h')
    then show ?thesis using enq_inv_link[OF assms(3,4,2)] T[of t] by simp
  next
    case (check_first t temp c)
    then show ?thesis using enq_inv_check[OF assms(3,4,5,2)] T[of t] by simp
  next
    case (check_remove t temp)
    then show ?thesis using enq_inv_check_remove[OF assms(3,4,5,2)] T[of t] by simp
  next
    case (set_remove t temp)
    then show ?thesis using enq_inv_set_remove[OF assms(3,4,2)] T[of t] by simp
  next
    case (count_up t temp)
    then show ?thesis using enq_inv_count[OF assms(3,4,2)] T[of t] by simp
  next
    case (check_link t temp)
    then show ?thesis using enq_inv_local[OF assms(3,4) T[of t] assms(2), of Done] by simp
  qed
qed

text \<open>A queue \<open>xs\<close> and threads \<open>T\<close> about to enqueue their cells.\<close>

definition enq_start :: "(nat \<Rightarrow> cid) \<Rightarrow> nat set \<Rightarrow> cid list \<Rightarrow> enq_state \<Rightarrow> bool" where
  "enq_start own T xs s \<longleftrightarrow>
     gq_inv (st_heap s) (st_queue s) xs \<and> st_pc s = (\<lambda>t. if t \<in> T then ReadEnd else Done) \<and>
     finite T \<and> inj_on own T \<and> own ` T \<inter> set xs = {} \<and> (\<forall>t \<in> T. unlinked (st_heap s) (own t))"

lemma enq_start_inv:
  assumes "enq_start own T xs s"
  shows "enq_inv own T xs s"
proof -
  have e: "cells own T P (st_pc s) = {}" if "\<not> P ReadEnd" for P
    using assms that by (auto simp: cells_def enq_start_def)
  have g: "distinct xs" "dseg c_next c_previous (st_heap s) None (remove_end (st_queue s)) xs None"
    using assms by (auto simp: enq_start_def gq_inv_def gq_list_def)
  have "enq_shape own T xs s xs"
    using assms e[of past_cas] by (auto simp: enq_shape_def enq_start_def gq_inv_def gq_list_def)
  moreover have "enq_links own T xs s xs"
    unfolding enq_links_def
  proof
    fix x assume x: "x \<in> set xs \<union> own ` T"
    show "\<exists>c. st_heap s x = Some c \<and> linked_cell (set xs \<union> cells own T past_link (st_pc s))
       (set xs \<union> cells own T past_previous (st_pc s)) xs x c"
    proof (cases "x \<in> set xs")
      case True
      then show ?thesis using pred_of_dseg[OF g(2,1) True] e[of past_link] e[of past_previous]
        by (auto simp: linked_cell_def)
    next
      case False
      then have "unlinked (st_heap s) x" using x assms by (auto simp: enq_start_def)
      then show ?thesis using False e[of past_link] e[of past_previous]
        by (auto simp: linked_cell_def unlinked_def dest: pred_of_in split: option.splits)
    qed
  qed
  moreover have "enq_ends own T xs s xs"
    using assms dseg_hd[OF g(2)] e[of past_remove]
    by (auto simp: enq_ends_def enq_start_def gq_inv_def split: list.splits)
  ultimately show ?thesis unfolding enq_inv_def by blast
qed

lemma enq_inv_reachable:
  assumes "(enq_step own)\<^sup>*\<^sup>* s s'" "enq_start own T xs s"
  shows "enq_inv own T xs s'"
  using assms(1)
  by (induction rule: rtranclp_induct)
     (use assms(2) in \<open>auto simp: enq_start_inv enq_start_def intro: enq_inv_step\<close>)

text \<open>
  C9: whatever the interleaving of the threads' steps, once all of them have
  returned the queue is well-formed and holds what it held before followed by
  every thread's container exactly once, and its counter is right.
\<close>

theorem concurrent_enqueue:
  assumes "enq_start own T xs s" "(enq_step own)\<^sup>*\<^sup>* s s'" "\<forall>t \<in> T. st_pc s' t = Done"
  shows "\<exists>ys. distinct ys \<and> set ys = own ` T \<and> gq_inv (st_heap s') (st_queue s') (xs @ ys)"
proof -
  obtain full where f: "enq_shape own T xs s' full" "enq_links own T xs s' full" "enq_ends own T xs s' full"
    using enq_inv_reachable[OF assms(2,1)] by (auto simp: enq_inv_def)
  have c: "cells own T P (st_pc s') = own ` T" if "P Done" for P
    using assms(3) that by (auto simp: cells_def)
  obtain ys where ys: "full = xs @ ys" "set ys = own ` T" "distinct full" "insert_end (st_queue s') = last_ptr None full"
    using f(1) c[of past_cas] by (auto simp: enq_shape_def)
  have "dseg c_next c_previous (st_heap s') None (if full = [] then None else Some (hd full)) full None"
  proof (rule dseg_of_pred[OF ys(3)])
    fix x assume "x \<in> set full"
    then have "x \<in> set xs \<union> own ` T" using ys by auto
    then obtain c where "st_heap s' x = Some c"
        "linked_cell (set xs \<union> cells own T past_link (st_pc s'))
          (set xs \<union> cells own T past_previous (st_pc s')) full x c"
      by (rule enq_linksE[OF f(2)])
    then show "\<exists>c. st_heap s' x = Some c \<and> c_previous c = pred_of full x \<and>
        (\<forall>y. c_next c = Some y \<longleftrightarrow> y \<in> set full \<and> pred_of full y = Some x)"
      using \<open>x \<in> set full\<close> ys by (auto simp: linked_cell_def c)
  qed
  moreover have "remove_end (st_queue s') = (if full = [] then None else Some (hd full))"
    using f(3) ys hd_in_set[of full] by (auto simp: enq_ends_def c)
  moreover have "n_elements (st_queue s') = int (length full)"
  proof -
    have "{t \<in> T. counted (st_pc s' t)} = T" using assms(3) by auto
    moreover have "card T = length ys"
      using ys assms(1) card_image[of own T] distinct_card[of ys] by (auto simp: enq_start_def)
    ultimately show ?thesis using f(3) ys by (simp add: enq_ends_def)
  qed
  ultimately have "gq_inv (st_heap s') (st_queue s') full" using ys by (simp add: gq_inv_def gq_list_def)
  then show ?thesis using ys by auto
qed

text \<open>
  Two threads, the second of which wins the compare-and-exchange while the first
  still holds the old end, and sets its links only after the first has checked
  \<open>remove_end\<close>.
\<close>

definition mt_heap :: cheap where
  "mt_heap = (\<lambda>a. if a < 2 then Some sample_container else None)"

definition mt_start :: enq_state where
  "mt_start = \<lparr>st_heap = mt_heap, st_queue = gq_create,
     st_pc = (\<lambda>t. if t \<in> {0, 1} then ReadEnd else Done)\<rparr>"

lemma mt_start_ok: "enq_start (\<lambda>t. t) {0, 1} [] mt_start"
  by (auto simp: enq_start_def mt_start_def gq_create_inv unlinked_def mt_heap_def sample_container_def)

text \<open>One step of the thread \<open>t\<close>, as a function, to run schedules.\<close>

definition enq_run1 :: "(nat \<Rightarrow> cid) \<Rightarrow> enq_state \<Rightarrow> nat \<Rightarrow> enq_state result" where
  "enq_run1 own s t =
     (let go = (\<lambda>s pc. Inr (s\<lparr>st_pc := (st_pc s)(t := pc)\<rparr>)); q = st_queue s; h = st_heap s
      in case st_pc s t of
           ReadEnd \<Rightarrow> go s (CasEnd (insert_end q))
         | CasEnd temp \<Rightarrow>
             if insert_end q = temp then go (s\<lparr>st_queue := q\<lparr>insert_end := Some (own t)\<rparr>\<rparr>) (SetPrevious temp)
             else go s ReadEnd
         | SetPrevious temp \<Rightarrow>
             bind_result (cmod h (Some (own t)) (\<lambda>c. c\<lparr>c_previous := temp\<rparr>))
               (\<lambda>h'. go (s\<lparr>st_heap := h'\<rparr>) (LinkNext temp))
         | LinkNext temp \<Rightarrow>
             bind_result (link_next h temp (Some (own t))) (\<lambda>h'. go (s\<lparr>st_heap := h'\<rparr>) (CheckFirst temp))
         | CheckFirst temp \<Rightarrow>
             bind_result (cget h (Some (own t)))
               (\<lambda>c. go s (if c_previous c = None then CheckRemove temp else CountUp temp))
         | CheckRemove temp \<Rightarrow> go s (if remove_end q = None then SetRemove temp else CountUp temp)
         | SetRemove temp \<Rightarrow> go (s\<lparr>st_queue := q\<lparr>remove_end := Some (own t)\<rparr>\<rparr>) (CountUp temp)
         | CountUp temp \<Rightarrow> go (s\<lparr>st_queue := q\<lparr>n_elements := n_elements q + 1\<rparr>\<rparr>) (CheckLink temp)
         | CheckLink temp \<Rightarrow> bind_result (link_set h temp (Some (own t))) (\<lambda>_. go s Done)
         | Done \<Rightarrow> Inr s)"

fun enq_run :: "(nat \<Rightarrow> cid) \<Rightarrow> enq_state \<Rightarrow> nat list \<Rightarrow> enq_state result" where
  "enq_run own s [] = Inr s"
| "enq_run own s (t # ts) = bind_result (enq_run1 own s t) (\<lambda>s'. enq_run own s' ts)"

lemma enq_step_check:
  "st_pc s t = CheckFirst temp \<Longrightarrow> cget (st_heap s) (Some (own t)) = Inr c \<Longrightarrow>
   v = (if c_previous c = None then CheckRemove temp else CountUp temp) \<Longrightarrow>
   enq_step own s (s\<lparr>st_pc := (st_pc s)(t := v)\<rparr>)"
  "st_pc s t = CheckRemove temp \<Longrightarrow> v = (if remove_end (st_queue s) = None then SetRemove temp else CountUp temp) \<Longrightarrow>
   enq_step own s (s\<lparr>st_pc := (st_pc s)(t := v)\<rparr>)"
  by (simp_all add: enq_step.check_first enq_step.check_remove)

lemma enq_run1_step: "enq_run1 own s t = Inr s' \<Longrightarrow> (enq_step own)\<^sup>*\<^sup>* s s'"
  by (cases "st_pc s t")
     (auto simp: enq_run1_def Let_def split: sum.splits if_splits intro!: r_into_rtranclp
        intro: enq_step.intros enq_step_check)

lemma enq_run_steps: "enq_run own s ts = Inr s' \<Longrightarrow> (enq_step own)\<^sup>*\<^sup>* s s'"
  by (induction ts arbitrary: s)
     (auto split: sum.splits dest!: enq_run1_step intro: rtranclp_trans)

theorem concurrent_enqueue_witness:
  "\<exists>s' ys. enq_run (\<lambda>t. t) mt_start [0, 1, 1, 0, 0, 0, 0, 0, 0, 0, 0, 1, 1, 1, 1, 1, 1, 1] = Inr s' \<and>
    distinct ys \<and> set ys = {0, 1} \<and> gq_inv (st_heap s') (st_queue s') ys"
proof -
  obtain s' where s': "enq_run (\<lambda>t. t) mt_start [0, 1, 1, 0, 0, 0, 0, 0, 0, 0, 0, 1, 1, 1, 1, 1, 1, 1] = Inr s'"
      "st_pc s' 0 = Done" "st_pc s' 1 = Done"
    by (simp add: enq_run1_def mt_start_def mt_heap_def gq_create_def link_next_def link_set_def sample_container_def Let_def)
  then show ?thesis
    using concurrent_enqueue[OF mt_start_ok enq_run_steps[OF s'(1)]] by auto
qed

text \<open>
  C30: no interleaving gets stuck, dereferences NULL or violates the assertion at the
  end of \<open>enqueue\<close>: as long as some thread has not returned, every thread that has
  not can take its next step.
\<close>

theorem concurrent_enqueue_progress:
  assumes "enq_start own T xs s" "(enq_step own)\<^sup>*\<^sup>* s s'" "st_pc s' t \<noteq> Done"
  shows "\<exists>s''. enq_run1 own s' t = Inr s'' \<and> enq_step own s' s'' \<and> st_pc s'' t \<noteq> st_pc s' t"
proof -
  obtain full where f: "enq_shape own T xs s' full" "enq_links own T xs s' full"
    using enq_inv_reachable[OF assms(2,1)] by (auto simp: enq_inv_def)
  have t: "t \<in> T" using f(1) assms(3) by (auto simp: enq_shape_def)
  then obtain c where c: "st_heap s' (own t) = Some c" using enq_linksE[OF f(2), of "own t"] by blast
  have inj: "inj_on own T" using assms(1) by (simp add: enq_start_def)
  have pred: "\<exists>d. st_heap s' x = Some d \<and> (past_link (st_pc s' t) \<longrightarrow> c_next d = Some (own t))"
    if "temp_of (st_pc s' t) = Some (Some x)" for x
  proof -
    have p: "pred_of full (own t) = Some x" using f(1) t that by (simp add: enq_shape_def)
    then have "x \<in> set full" by (rule pred_of_in)
    then have "x \<in> set xs \<union> own ` T" using f(1) by (auto simp: enq_shape_def cells_def)
    then obtain d where "st_heap s' x = Some d" "linked_cell (set xs \<union> cells own T past_link (st_pc s'))
        (set xs \<union> cells own T past_previous (st_pc s')) full x d"
      by (rule enq_linksE[OF f(2)])
    then show ?thesis using p cells_in[OF inj t, of past_link "st_pc s'"] by (auto simp: linked_cell_def)
  qed
  have n: "\<exists>h'. link_next (st_heap s') temp (Some (own t)) = Inr h'" if "st_pc s' t = LinkNext temp" for temp
    using pred that by (cases temp) (auto simp: link_next_def)
  have a: "link_set (st_heap s') temp (Some (own t)) = Inr ()" if "st_pc s' t = CheckLink temp" for temp
    using pred that by (cases temp) (auto simp: link_set_def)
  have "\<exists>s''. enq_run1 own s' t = Inr s''"
    using c n a by (cases "st_pc s' t") (auto simp: enq_run1_def Let_def)
  then obtain s'' where r: "enq_run1 own s' t = Inr s''" by blast
  then have "enq_step own s' s'' \<and> st_pc s'' t \<noteq> st_pc s' t"
    using assms(3)
    by (cases "st_pc s' t")
       (auto simp: enq_run1_def Let_def split: sum.splits if_splits intro: enq_step.intros enq_step_check)
  then show ?thesis using r by blast
qed

theorem concurrent_enqueue_progress_witness:
  "\<exists>s''. enq_run1 (\<lambda>t. t) mt_start 0 = Inr s'' \<and> enq_step (\<lambda>t. t) mt_start s'' \<and>
    st_pc s'' 0 \<noteq> st_pc mt_start 0"
  using concurrent_enqueue_progress[OF mt_start_ok rtranclp.rtrancl_refl, of 0] by (simp add: mt_start_def)

end
