(* ===== verification/RefQueue.thy ===== *)
theory RefQueue
  imports Queues
begin

text \<open>
  \<open>bda/refqueue.hpp\<close> and \<open>bda/refqueue.cpp\<close>: the queue of references to
  container objects.  The cells are allocated by \<open>enqueue\<close>, so the state holds
  the store of cells and the next free one with the ends of the queue; the
  counter is the one of debug builds.
\<close>

section \<open>Operations\<close>

type_synonym rid = nat
type_synonym ref_ptr = "rid option"

record ref =
  r_next :: ref_ptr
  actual_ref :: addr
  r_region :: addr

record refqueue =
  rq_heap :: "rid \<Rightarrow> ref option"
  rq_free :: rid
  rq_insert_end :: ref_ptr
  rq_remove_end :: ref_ptr
  rq_n_elements :: int

text \<open>\<open>new Ref(obj, r)\<close>.\<close>

definition new_Ref :: "addr \<Rightarrow> addr \<Rightarrow> ref" where
  "new_Ref obj r = \<lparr>r_next = None, actual_ref = obj, r_region = r\<rparr>"

definition rq_alloc :: "refqueue \<Rightarrow> ref \<Rightarrow> refqueue \<times> rid" where
  "rq_alloc q v =
     (q\<lparr>rq_heap := (rq_heap q)(rq_free q \<mapsto> v), rq_free := rq_free q + 1\<rparr>, rq_free q)"

text \<open>\<open>create\<close> does not set the counter, which keeps what the memory held.\<close>

definition rq_create :: "int \<Rightarrow> refqueue" where
  "rq_create garbage = \<lparr>rq_heap = (\<lambda>_. None), rq_free = 0, rq_insert_end = None, rq_remove_end = None,
     rq_n_elements = garbage\<rparr>"

definition set_next :: "(rid \<Rightarrow> ref option) \<Rightarrow> ref_ptr \<Rightarrow> ref_ptr \<Rightarrow> (rid \<Rightarrow> ref option) result" where
  "set_next h p n =
     (case p of
        None \<Rightarrow> Inl NullDeref
      | Some a \<Rightarrow> (case h a of None \<Rightarrow> Inl NullDeref | Some c \<Rightarrow> Inr (h(a \<mapsto> c\<lparr>r_next := n\<rparr>))))"

definition get_ref :: "(rid \<Rightarrow> ref option) \<Rightarrow> ref_ptr \<Rightarrow> ref result" where
  "get_ref h p =
     (case p of
        None \<Rightarrow> Inl NullDeref
      | Some a \<Rightarrow> (case h a of None \<Rightarrow> Inl NullDeref | Some c \<Rightarrow> Inr c))"

definition rq_enqueue :: "refqueue \<Rightarrow> addr \<Rightarrow> addr \<Rightarrow> refqueue result" where
  "rq_enqueue q obj r =
     (let (q1, a) = rq_alloc q (new_Ref obj r);
          temp = rq_insert_end q1;
          q2 = q1\<lparr>rq_insert_end := Some a\<rparr>
      in bind_result (if temp \<noteq> None then set_next (rq_heap q2) temp (Some a) else Inr (rq_heap q2))
        (\<lambda>h. let q3 = q2\<lparr>rq_heap := h\<rparr>;
                 q4 = (if rq_remove_end q3 = None then q3\<lparr>rq_remove_end := Some a\<rparr> else q3)
             in Inr (q4\<lparr>rq_n_elements := rq_n_elements q4 + 1\<rparr>)))"

definition rq_dequeue :: "refqueue \<Rightarrow> (refqueue \<times> ref_ptr) result" where
  "rq_dequeue q =
     (let temp = rq_remove_end q
      in if temp = None then Inr (q, temp)
         else bind_result (get_ref (rq_heap q) temp)
           (\<lambda>c. let q1 = q\<lparr>rq_remove_end := r_next c\<rparr>;
                    q2 = (if rq_remove_end q1 = None then q1\<lparr>rq_insert_end := None\<rparr> else q1)
                in Inr (q2\<lparr>rq_n_elements := rq_n_elements q2 - 1\<rparr>, temp)))"

definition rq_clear :: "refqueue \<Rightarrow> refqueue \<times> bool" where
  "rq_clear q = (q\<lparr>rq_insert_end := None, rq_remove_end := None, rq_n_elements := 0\<rparr>, True)"

definition rq_peek :: "refqueue \<Rightarrow> ref_ptr" where
  "rq_peek q = rq_remove_end q"

definition rq_is_empty :: "refqueue \<Rightarrow> bool" where
  "rq_is_empty q \<longleftrightarrow> rq_insert_end q = None \<and> rq_remove_end q = None"

section \<open>The queue as a list\<close>

text \<open>Following \<open>_next\<close> from \<open>p\<close> visits the cells \<open>xs\<close> and ends.\<close>

fun rlist :: "(rid \<Rightarrow> ref option) \<Rightarrow> ref_ptr \<Rightarrow> rid list \<Rightarrow> bool" where
  "rlist h p [] \<longleftrightarrow> p = None"
| "rlist h p (x # xs) \<longleftrightarrow> p = Some x \<and> (case h x of None \<Rightarrow> False | Some c \<Rightarrow> rlist h (r_next c) xs)"

lemma rlist_frame:
  "rlist h p xs \<Longrightarrow> (\<And>x. x \<in> set xs \<Longrightarrow> h' x = h x) \<Longrightarrow> rlist h' p xs"
  by (induction xs arbitrary: p) (auto split: option.splits)

lemma rlist_mapped: "rlist h p xs \<Longrightarrow> x \<in> set xs \<Longrightarrow> \<exists>c. h x = Some c"
  by (induction xs arbitrary: p) (auto split: option.splits)

lemma rlist_snoc:
  assumes "rlist h p (xs @ [y])" "h y = Some c" "y \<notin> set xs" "h a = Some d" "r_next d = None" "a \<notin> set (xs @ [y])"
  shows "rlist (h(y \<mapsto> c\<lparr>r_next := Some a\<rparr>)) p ((xs @ [y]) @ [a])"
  using assms
proof (induction xs arbitrary: p)
  case (Cons x xs)
  then obtain e where "h x = Some e" "rlist h (r_next e) (xs @ [y])" "p = Some x"
    by (auto split: option.splits)
  then show ?case using Cons.IH[of "r_next e"] Cons.prems by auto
qed auto

definition cells_of :: "refqueue \<Rightarrow> rid list \<Rightarrow> (addr \<times> addr) list" where
  "cells_of q xs = map (\<lambda>x. case rq_heap q x of Some c \<Rightarrow> (actual_ref c, r_region c) | None \<Rightarrow> (0, 0)) xs"

definition rq_wf :: "refqueue \<Rightarrow> rid list \<Rightarrow> bool" where
  "rq_wf q xs \<longleftrightarrow>
     distinct xs \<and> rlist (rq_heap q) (rq_remove_end q) xs \<and>
     rq_insert_end q = (if xs = [] then None else Some (last xs)) \<and>
     (\<forall>a \<ge> rq_free q. rq_heap q a = None)"

text \<open>The contents: the pairs of object and region, oldest first.\<close>

definition rq_holds :: "refqueue \<Rightarrow> (addr \<times> addr) list \<Rightarrow> bool" where
  "rq_holds q vs \<longleftrightarrow> (\<exists>xs. rq_wf q xs \<and> cells_of q xs = vs)"

lemma rq_create_holds: "rq_holds (rq_create garbage) []"
  by (simp add: rq_holds_def rq_wf_def rq_create_def cells_of_def)

lemma rq_clear_holds: "\<forall>a \<ge> rq_free q. rq_heap q a = None \<Longrightarrow> rq_holds (fst (rq_clear q)) []"
  by (simp add: rq_holds_def rq_wf_def rq_clear_def cells_of_def)

lemma rq_is_empty_iff: "rq_wf q xs \<Longrightarrow> rq_is_empty q \<longleftrightarrow> xs = []"
  by (cases xs) (auto simp: rq_is_empty_def rq_wf_def)

lemma rq_enqueue_holds:
  assumes "rq_wf q xs"
  shows "\<exists>q'. rq_enqueue q obj r = Inr q' \<and> rq_wf q' (xs @ [rq_free q]) \<and>
    cells_of q' (xs @ [rq_free q]) = cells_of q xs @ [(obj, r)]"
proof (cases xs rule: rev_cases)
  case Nil
  then show ?thesis using assms
    by (auto simp: rq_wf_def rq_enqueue_def rq_alloc_def new_Ref_def cells_of_def Let_def)
next
  case (snoc ys y)
  have m: "\<And>x. x \<in> set xs \<Longrightarrow> \<exists>c. rq_heap q x = Some c"
    using assms rlist_mapped unfolding rq_wf_def by blast
  have f: "rq_free q \<notin> set xs" using m assms by (fastforce simp: rq_wf_def)
  obtain c where c: "rq_heap q y = Some c" using m snoc by auto
  have ne: "rq_remove_end q \<noteq> None" using assms snoc by (cases ys) (auto simp: rq_wf_def)
  let ?h = "(rq_heap q)(rq_free q \<mapsto> new_Ref obj r)"
  have l: "rlist (?h(y \<mapsto> c\<lparr>r_next := Some (rq_free q)\<rparr>)) (rq_remove_end q) ((ys @ [y]) @ [rq_free q])"
  proof (rule rlist_snoc)
    show "rlist ?h (rq_remove_end q) (ys @ [y])"
      using assms f snoc by (auto simp: rq_wf_def intro: rlist_frame)
  qed (use assms c f snoc in \<open>auto simp: rq_wf_def new_Ref_def\<close>)
  have "rq_enqueue q obj r = Inr (q\<lparr>rq_heap := ?h(y \<mapsto> c\<lparr>r_next := Some (rq_free q)\<rparr>), rq_free := rq_free q + 1,
      rq_insert_end := Some (rq_free q), rq_n_elements := rq_n_elements q + 1\<rparr>)"
    using assms c f ne snoc
    by (auto simp: rq_enqueue_def rq_alloc_def Let_def set_next_def rq_wf_def)
  moreover have "y < rq_free q" using assms c by (metis leI option.distinct(1) rq_wf_def)
  ultimately show ?thesis using l assms c f snoc
    by (auto simp: rq_wf_def cells_of_def new_Ref_def)
qed

lemma rq_dequeue_empty: "rq_wf q [] \<Longrightarrow> rq_dequeue q = Inr (q, None)"
  by (simp add: rq_wf_def rq_dequeue_def)

lemma rq_dequeue_holds:
  assumes "rq_wf q (x # xs)"
  shows "\<exists>q'. rq_dequeue q = Inr (q', Some x) \<and> rq_wf q' xs \<and> rq_heap q' = rq_heap q"
  using assms
  by (cases xs) (auto simp: rq_wf_def rq_dequeue_def get_ref_def Let_def split: option.splits)

definition rq_enq :: "refqueue \<Rightarrow> addr \<times> addr \<Rightarrow> refqueue result" where
  "rq_enq q v = rq_enqueue q (fst v) (snd v)"

definition rq_deq :: "refqueue \<Rightarrow> (refqueue \<times> (addr \<times> addr) option) result" where
  "rq_deq q =
     bind_result (rq_dequeue q)
       (\<lambda>(q', p). case p of
          None \<Rightarrow> Inr (q', None)
        | Some a \<Rightarrow> bind_result (get_ref (rq_heap q') p) (\<lambda>c. Inr (q', Some (actual_ref c, r_region c))))"

interpretation rq: fifo_queue rq_holds rq_enq rq_deq "\<lambda>_ _ _. True" "\<lambda>_ _. True"
proof
  fix q vs v assume "rq_holds q vs"
  then show "\<exists>q'. rq_enq q v = Inr q' \<and> rq_holds q' (vs @ [v])"
    using rq_enqueue_holds[of q _ "fst v" "snd v"] by (fastforce simp: rq_holds_def rq_enq_def)
next
  fix q assume "rq_holds q []"
  then show "rq_deq q = Inr (q, None)"
    by (auto simp: rq_holds_def cells_of_def rq_deq_def rq_dequeue_empty)
next
  fix q v vs assume "rq_holds q (v # vs)"
  then obtain x xs where x: "rq_wf q (x # xs)" "cells_of q (x # xs) = v # vs"
    by (auto simp: rq_holds_def cells_of_def)
  then obtain c where "rq_heap q x = Some c" by (auto simp: rq_wf_def split: option.splits)
  then show "\<exists>q'. rq_deq q = Inr (q', Some v) \<and> rq_holds q' vs"
    using rq_dequeue_holds[OF x(1)] x(2)
    by (fastforce simp: rq_deq_def get_ref_def rq_holds_def cells_of_def)
qed simp_all

text \<open>
  references enqueued one after the other come out in the order they went
  in, object and region, after the ones already there, and leave the queue empty.
\<close>

theorem rq_fifo:
  assumes "rq_holds q vs" "length (vs @ ws) < n"
  shows "\<exists>q1 q2. enq_all rq_enq q ws = Inr q1 \<and> deq_upto rq_deq n q1 = Inr (q2, vs @ ws) \<and>
    rq_holds q2 []"
  using rq.fifo[OF assms(1), of ws n] assms(2) by (simp add: sorted_wrt_true)

theorem rq_fifo_witness:
  "\<exists>q1 q2. enq_all rq_enq (rq_create 0) [(800, 4), (808, 8), (800, 4)] = Inr q1 \<and>
    deq_upto rq_deq 4 q1 = Inr (q2, [(800, 4), (808, 8), (800, 4)]) \<and> rq_holds q2 []"
  using rq_fifo[OF rq_create_holds, of "[(800, 4), (808, 8), (800, 4)]" 4] by simp

end
