(* ===== verification/RefQueueMT.thy ===== *)
theory RefQueueMT
  imports RefQueue Containers
begin

text \<open>
  \<open>RefQueue\<close> under concurrency.  Java threads enqueue while the program runs
  and collector threads dequeue during a pause, never both; so there are two step
  relations, one per phase, with a step per access to shared memory.
\<close>

section \<open>Concurrent dequeues\<close>

text \<open>
  Every thread calls \<open>dequeue\<close> until it returns NULL.  \<open>dq_taken\<close> logs
  the successful exchanges, in order, with the thread that made them.
\<close>

datatype deq_pc =
    ReadRemove
  | ReadNext rid
  | CasRemove rid ref_ptr
  | CheckEmpty
  | ClearInsert
  | CountDown
  | SawNull

record deq_state =
  dq_queue :: refqueue
  dq_pc :: "nat \<Rightarrow> deq_pc"
  dq_taken :: "(nat \<times> rid) list"

abbreviation dq_goto :: "deq_state \<Rightarrow> nat \<Rightarrow> deq_pc \<Rightarrow> deq_state" where
  "dq_goto s t pc \<equiv> s\<lparr>dq_pc := (dq_pc s)(t := pc)\<rparr>"

inductive deq_step :: "deq_state \<Rightarrow> deq_state \<Rightarrow> bool" where
  read_null: "dq_pc s t = ReadRemove \<Longrightarrow> rq_remove_end (dq_queue s) = None \<Longrightarrow> deq_step s (dq_goto s t SawNull)"
| read_some: "dq_pc s t = ReadRemove \<Longrightarrow> rq_remove_end (dq_queue s) = Some a \<Longrightarrow>
    deq_step s (dq_goto s t (ReadNext a))"
| read_next: "dq_pc s t = ReadNext a \<Longrightarrow> get_ref (rq_heap (dq_queue s)) (Some a) = Inr c \<Longrightarrow>
    deq_step s (dq_goto s t (CasRemove a (r_next c)))"
| cas_ok: "dq_pc s t = CasRemove a n \<Longrightarrow> rq_remove_end (dq_queue s) = Some a \<Longrightarrow>
    deq_step s (s\<lparr>dq_queue := (dq_queue s)\<lparr>rq_remove_end := n\<rparr>, dq_pc := (dq_pc s)(t := CheckEmpty),
                  dq_taken := dq_taken s @ [(t, a)]\<rparr>)"
| cas_fail: "dq_pc s t = CasRemove a n \<Longrightarrow> rq_remove_end (dq_queue s) \<noteq> Some a \<Longrightarrow>
    deq_step s (dq_goto s t ReadRemove)"
| check_null: "dq_pc s t = CheckEmpty \<Longrightarrow> rq_remove_end (dq_queue s) = None \<Longrightarrow>
    deq_step s (dq_goto s t ClearInsert)"
| check_some: "dq_pc s t = CheckEmpty \<Longrightarrow> rq_remove_end (dq_queue s) \<noteq> None \<Longrightarrow>
    deq_step s (dq_goto s t CountDown)"
| clear_insert: "dq_pc s t = ClearInsert \<Longrightarrow>
    deq_step s (s\<lparr>dq_queue := (dq_queue s)\<lparr>rq_insert_end := None\<rparr>, dq_pc := (dq_pc s)(t := CountDown)\<rparr>)"
| count_down: "dq_pc s t = CountDown \<Longrightarrow>
    deq_step s (s\<lparr>dq_queue := (dq_queue s)\<lparr>rq_n_elements := rq_n_elements (dq_queue s) - 1\<rparr>,
                  dq_pc := (dq_pc s)(t := ReadRemove)\<rparr>)"

definition clearing :: "(nat \<Rightarrow> deq_pc) \<Rightarrow> bool" where
  "clearing pc \<longleftrightarrow> (\<exists>t. pc t \<in> {CheckEmpty, ClearInsert})"

lemma clearing_upd:
  "clearing pc \<Longrightarrow> pc t \<notin> {CheckEmpty, ClearInsert} \<Longrightarrow> clearing (pc(t := v))"
  "v \<in> {CheckEmpty, ClearInsert} \<Longrightarrow> clearing (pc(t := v))"
  unfolding clearing_def by (metis fun_upd_apply)+

text \<open>
  The cells taken so far and the ones still in the queue make up the queue the
  phase started with, the links of all of them are as they were, and an empty
  queue has its insert end cleared or a thread on its way to clear it.
\<close>

definition deq_inv :: "refqueue \<Rightarrow> rid list \<Rightarrow> deq_state \<Rightarrow> bool" where
  "deq_inv q0 xs s \<longleftrightarrow>
     rq_heap (dq_queue s) = rq_heap q0 \<and>
     (\<exists>rest. xs = map snd (dq_taken s) @ rest \<and> rlist (rq_heap q0) (rq_remove_end (dq_queue s)) rest \<and>
       (rest \<noteq> [] \<longrightarrow> rq_insert_end (dq_queue s) = rq_insert_end q0) \<and>
       (rest = [] \<longrightarrow> rq_insert_end (dq_queue s) = None \<or> clearing (dq_pc s))) \<and>
     (\<forall>t a n. dq_pc s t = CasRemove a n \<longrightarrow> (\<exists>c. rq_heap q0 a = Some c \<and> r_next c = n)) \<and>
     (\<forall>t a. dq_pc s t = ReadNext a \<longrightarrow> a \<in> set xs) \<and>
     (\<forall>t. dq_pc s t = ClearInsert \<or> dq_pc s t = SawNull \<longrightarrow> rq_remove_end (dq_queue s) = None)"

lemma rlist_det: "rlist h p xs \<Longrightarrow> rlist h p ys \<Longrightarrow> xs = ys"
  by (induction xs arbitrary: p ys) (case_tac [!] ys, auto split: option.splits)

lemma deq_inv_step:
  assumes "deq_step s s'" "deq_inv q0 xs s"
  shows "deq_inv q0 xs s'"
proof -
  obtain rest where i: "rq_heap (dq_queue s) = rq_heap q0" "xs = map snd (dq_taken s) @ rest"
      "rlist (rq_heap q0) (rq_remove_end (dq_queue s)) rest"
      "rest \<noteq> [] \<longrightarrow> rq_insert_end (dq_queue s) = rq_insert_end q0"
      "rest = [] \<longrightarrow> rq_insert_end (dq_queue s) = None \<or> clearing (dq_pc s)"
      "\<forall>t a n. dq_pc s t = CasRemove a n \<longrightarrow> (\<exists>c. rq_heap q0 a = Some c \<and> r_next c = n)"
      "\<forall>t a. dq_pc s t = ReadNext a \<longrightarrow> a \<in> set xs"
      "\<forall>t. dq_pc s t = ClearInsert \<or> dq_pc s t = SawNull \<longrightarrow> rq_remove_end (dq_queue s) = None"
    using assms(2) unfolding deq_inv_def by blast
  have e: "rest = [] \<longleftrightarrow> rq_remove_end (dq_queue s) = None" using i(3) by (cases rest) auto
  from assms(1) show ?thesis
  proof cases
    case (cas_ok t a n)
    then obtain rest' c where r: "rest = a # rest'" "rq_heap q0 a = Some c" "r_next c = n"
        "rlist (rq_heap q0) n rest'"
      using i(3,6) by (cases rest) (fastforce split: option.splits)+
    have "\<forall>u. dq_pc s u \<noteq> ClearInsert \<and> dq_pc s u \<noteq> SawNull" using i(8) cas_ok(3) by fastforce
    then show ?thesis
      unfolding deq_inv_def cas_ok(1)
      using i(1,2,4,6,7) r by (intro conjI exI[of _ rest']) (auto simp: clearing_upd)
  next
    case (read_some t a)
    moreover from this have "a \<in> set xs" using i(2,3) by (cases rest) auto
    ultimately show ?thesis using i e unfolding deq_inv_def
      by (intro conjI exI[of _ rest]) (auto simp: clearing_upd)
  next
    case (read_next t a c)
    then show ?thesis using i e unfolding deq_inv_def
      by (intro conjI exI[of _ rest]) (auto simp: clearing_upd get_ref_def split: option.splits)
  next
    case (read_null t)
    then show ?thesis using i e unfolding deq_inv_def
      by (intro conjI exI[of _ rest]) (auto simp: clearing_upd)
  next
    case (cas_fail t a n)
    then show ?thesis using i e unfolding deq_inv_def
      by (intro conjI exI[of _ rest]) (auto simp: clearing_upd)
  next
    case (check_null t)
    then show ?thesis using i e unfolding deq_inv_def
      by (intro conjI exI[of _ rest]) (auto simp: clearing_upd)
  next
    case (check_some t)
    then show ?thesis using i e unfolding deq_inv_def
      by (intro conjI exI[of _ rest]) (auto simp: clearing_upd)
  next
    case (clear_insert t)
    then show ?thesis using i e unfolding deq_inv_def
      by (intro conjI exI[of _ rest]) (auto simp: clearing_upd)
  next
    case (count_down t)
    then show ?thesis using i e unfolding deq_inv_def
      by (intro conjI exI[of _ rest]) (auto simp: clearing_upd)
  qed
qed

definition deq_start :: "refqueue \<Rightarrow> deq_state" where
  "deq_start q = \<lparr>dq_queue = q, dq_pc = (\<lambda>_. ReadRemove), dq_taken = []\<rparr>"

lemma deq_start_inv: "rq_wf q xs \<Longrightarrow> deq_inv q xs (deq_start q)"
  by (auto simp: deq_inv_def deq_start_def rq_wf_def)

lemma deq_inv_reachable:
  "deq_step\<^sup>*\<^sup>* (deq_start q) s \<Longrightarrow> rq_wf q xs \<Longrightarrow> deq_inv q xs s"
  by (induction rule: rtranclp_induct) (auto intro: deq_start_inv deq_inv_step)

text \<open>
  C15: however many threads drain the queue at once, the references taken so far
  are a prefix of the queue, in order and each taken once, and the rest is still
  linked from the remove end; a thread that was told the queue is empty was told
  so after every reference had been taken.
\<close>

theorem concurrent_dequeue:
  assumes "rq_wf q xs" "deq_step\<^sup>*\<^sup>* (deq_start q) s"
  shows "(\<exists>rest. xs = map snd (dq_taken s) @ rest \<and>
      rlist (rq_heap (dq_queue s)) (rq_remove_end (dq_queue s)) rest) \<and>
    distinct (map snd (dq_taken s)) \<and>
    (dq_pc s t = SawNull \<longrightarrow> map snd (dq_taken s) = xs)"
proof -
  obtain rest where i: "rq_heap (dq_queue s) = rq_heap q" "xs = map snd (dq_taken s) @ rest"
      "rlist (rq_heap q) (rq_remove_end (dq_queue s)) rest"
      "dq_pc s t = SawNull \<longrightarrow> rq_remove_end (dq_queue s) = None"
    using deq_inv_reachable[OF assms(2,1)] unfolding deq_inv_def by blast
  have "distinct xs" using assms(1) by (simp add: rq_wf_def)
  then have "distinct (map snd (dq_taken s))" using i(2) by (metis distinct_append)
  moreover have "map snd (dq_taken s) = xs" if "dq_pc s t = SawNull"
    using that i by (cases rest) auto
  ultimately show ?thesis using i by auto
qed

definition two_refs :: refqueue where
  "two_refs = \<lparr>rq_heap = (\<lambda>_. None)(0 \<mapsto> (new_Ref 800 4)\<lparr>r_next := Some 1\<rparr>, 1 \<mapsto> new_Ref 808 8),
     rq_free = 2, rq_insert_end = Some 1, rq_remove_end = Some 0, rq_n_elements = 2\<rparr>"

theorem concurrent_dequeue_witness:
  "rq_wf two_refs [0, 1] \<and> deq_step (deq_start two_refs) (dq_goto (deq_start two_refs) 3 (ReadNext 0)) \<and>
    (\<exists>rest. [0, 1] = map snd [] @ rest \<and> rlist (rq_heap two_refs) (Some 0) rest)"
proof -
  have w: "rq_wf two_refs [0, 1]" by (auto simp: rq_wf_def two_refs_def new_Ref_def)
  have st: "deq_step (deq_start two_refs) (dq_goto (deq_start two_refs) 3 (ReadNext 0))"
    by (rule deq_step.read_some) (simp_all add: deq_start_def two_refs_def)
  show ?thesis
    using concurrent_dequeue[OF w r_into_rtranclp[of deq_step, OF st], of 3] w st
    by (simp add: deq_start_def two_refs_def)
qed

section \<open>Concurrent enqueues\<close>

text \<open>
  Threads enqueue one reference each; the cell of the thread \<open>t\<close> is
  \<open>own t\<close>, already allocated and initialised, which is private to the thread.
\<close>

datatype renq_pc =
    RReadEnd
  | RCasEnd ref_ptr
  | RLinkNext ref_ptr
  | RCheckFirst
  | RSetRemove
  | RCountUp
  | RDone

record renq_state =
  rn_queue :: refqueue
  rn_pc :: "nat \<Rightarrow> renq_pc"

text \<open>One step of the thread \<open>t\<close>.\<close>

definition renq_step :: "(nat \<Rightarrow> rid) \<Rightarrow> nat \<Rightarrow> renq_state \<Rightarrow> renq_state result" where
  "renq_step own t s =
     (let q = rn_queue s;
          go = (\<lambda>q pc. Inr \<lparr>rn_queue = q, rn_pc = (rn_pc s)(t := pc)\<rparr>)
      in case rn_pc s t of
           RReadEnd \<Rightarrow> go q (RCasEnd (rq_insert_end q))
         | RCasEnd temp \<Rightarrow>
             if rq_insert_end q = temp then go (q\<lparr>rq_insert_end := Some (own t)\<rparr>) (RLinkNext temp)
             else go q RReadEnd
         | RLinkNext temp \<Rightarrow>
             if temp \<noteq> None then
               bind_result (set_next (rq_heap q) temp (Some (own t)))
                 (\<lambda>h. go (q\<lparr>rq_heap := h\<rparr>) RCheckFirst)
             else go q RCheckFirst
         | RCheckFirst \<Rightarrow> go q (if rq_remove_end q = None then RSetRemove else RCountUp)
         | RSetRemove \<Rightarrow> go (q\<lparr>rq_remove_end := Some (own t)\<rparr>) RCountUp
         | RCountUp \<Rightarrow> go (q\<lparr>rq_n_elements := rq_n_elements q + 1\<rparr>) RDone
         | RDone \<Rightarrow> Inr s)"

fun renq_run :: "(nat \<Rightarrow> rid) \<Rightarrow> renq_state \<Rightarrow> nat list \<Rightarrow> renq_state result" where
  "renq_run own s [] = Inr s"
| "renq_run own s (t # ts) = bind_result (renq_step own t s) (\<lambda>s'. renq_run own s' ts)"

text \<open>
  The invariant, for a queue that was \<open>xs\<close> and in which the cells \<open>full\<close> have
  taken their place: the links are set up to the threads that have not linked
  theirs yet, and the remove end points to some cell of \<open>full\<close>, to the first one if
  the queue was not empty.
\<close>

fun r_past_cas :: "renq_pc \<Rightarrow> bool" where
  "r_past_cas RReadEnd = False"
| "r_past_cas (RCasEnd temp) = False"
| "r_past_cas _ = True"

fun r_past_link :: "renq_pc \<Rightarrow> bool" where
  "r_past_link (RLinkNext temp) = False"
| "r_past_link pc = r_past_cas pc"

fun r_past_remove :: "renq_pc \<Rightarrow> bool" where
  "r_past_remove RCountUp = True"
| "r_past_remove RDone = True"
| "r_past_remove _ = False"

definition r_cells :: "(nat \<Rightarrow> rid) \<Rightarrow> nat set \<Rightarrow> (renq_pc \<Rightarrow> bool) \<Rightarrow> (nat \<Rightarrow> renq_pc) \<Rightarrow> rid set" where
  "r_cells own T P pc = own ` {t \<in> T. P (pc t)}"

lemma r_cells_upd:
  assumes "inj_on own T" "t \<in> T"
  shows "r_cells own T P (pc(t := v)) = (if P v then insert (own t) (r_cells own T P pc) else r_cells own T P pc - {own t})"
  using assms unfolding r_cells_def by (auto dest: inj_onD)

lemma r_cells_in: "inj_on own T \<Longrightarrow> t \<in> T \<Longrightarrow> own t \<in> r_cells own T P pc \<longleftrightarrow> P (pc t)"
  unfolding r_cells_def by (auto dest: inj_onD)

lemma r_cells_same:
  assumes "inj_on own T" "t \<in> T" "P v = P (pc t)"
  shows "r_cells own T P (pc(t := v)) = r_cells own T P pc"
  using r_cells_upd[OF assms(1,2), of P pc v] r_cells_in[OF assms(1,2), of P pc] assms(3) by auto

text \<open>The links, given the set \<open>L\<close> of cells linked to, and the contents of the cells.\<close>

definition r_linked :: "(rid \<Rightarrow> ref option) \<Rightarrow> rid set \<Rightarrow> rid set \<Rightarrow> rid list \<Rightarrow> (rid \<Rightarrow> ref option) \<Rightarrow> bool" where
  "r_linked h0 A L full h \<longleftrightarrow>
     (\<forall>x \<in> A. \<exists>c. h x = Some c \<and> (\<forall>y. r_next c = Some y \<longleftrightarrow> y \<in> L \<and> pred_of full y = Some x)) \<and>
     (\<forall>x. map_option (\<lambda>c. (actual_ref c, r_region c)) (h x) = map_option (\<lambda>c. (actual_ref c, r_region c)) (h0 x))"

definition r_places :: "(nat \<Rightarrow> rid) \<Rightarrow> nat set \<Rightarrow> rid list \<Rightarrow> renq_state \<Rightarrow> rid list \<Rightarrow> bool" where
  "r_places own T xs s full \<longleftrightarrow>
     distinct full \<and> (\<exists>ys. full = xs @ ys \<and> set ys = r_cells own T r_past_cas (rn_pc s)) \<and>
     rq_insert_end (rn_queue s) = last_ptr None full \<and> (\<forall>t. t \<notin> T \<longrightarrow> rn_pc s t = RDone) \<and>
     (\<forall>t \<in> T. \<forall>temp. rn_pc s t = RLinkNext temp \<longrightarrow> pred_of full (own t) = temp)"

definition r_ends :: "nat set \<Rightarrow> rid list \<Rightarrow> int \<Rightarrow> renq_state \<Rightarrow> rid list \<Rightarrow> bool" where
  "r_ends T xs n s full \<longleftrightarrow>
     (xs \<noteq> [] \<longrightarrow> rq_remove_end (rn_queue s) = Some (hd xs) \<and> (\<forall>t \<in> T. rn_pc s t \<noteq> RSetRemove)) \<and>
     (\<forall>y. rq_remove_end (rn_queue s) = Some y \<longrightarrow> y \<in> set full) \<and>
     (rq_remove_end (rn_queue s) = None \<longrightarrow> (\<forall>t \<in> T. \<not> r_past_remove (rn_pc s t))) \<and>
     rq_n_elements (rn_queue s) = n + int (card {t \<in> T. rn_pc s t = RDone})"

definition renq_inv :: "(nat \<Rightarrow> rid) \<Rightarrow> nat set \<Rightarrow> rid list \<Rightarrow> refqueue \<Rightarrow> renq_state \<Rightarrow> bool" where
  "renq_inv own T xs q0 s \<longleftrightarrow>
     rq_free (rn_queue s) = rq_free q0 \<and>
     (\<exists>full. r_places own T xs s full \<and> r_ends T xs (rq_n_elements q0) s full \<and>
        r_linked (rq_heap q0) (set xs \<union> own ` T) (set xs \<union> r_cells own T r_past_link (rn_pc s)) full (rq_heap (rn_queue s)))"

lemma card_rdone_upd:
  assumes "finite T" "t \<in> T" "pc t \<noteq> RDone"
  shows "card {u \<in> T. (pc(t := v)) u = RDone} = card {u \<in> T. pc u = RDone} + (if v = RDone then 1 else 0)"
proof -
  have "{u \<in> T. (pc(t := v)) u = RDone} = (if v = RDone then insert t {u \<in> T. pc u = RDone} else {u \<in> T. pc u = RDone})"
    using assms by auto
  then show ?thesis using assms by simp
qed

text \<open>Taking a place at the end, and linking the cell before.\<close>

lemma renq_cas_ok:
  assumes own: "inj_on own T" "finite T" "own ` T \<inter> set xs = {}" and t: "t \<in> T"
    and pc: "rn_pc s t = RCasEnd temp" "rq_insert_end (rn_queue s) = temp" and inv: "renq_inv own T xs q0 s"
  shows "renq_inv own T xs q0 \<lparr>rn_queue = (rn_queue s)\<lparr>rq_insert_end := Some (own t)\<rparr>, rn_pc = (rn_pc s)(t := RLinkNext temp)\<rparr>"
    (is "renq_inv own T xs q0 ?s")
proof -
  obtain full where f: "r_places own T xs s full" "r_ends T xs (rq_n_elements q0) s full"
      "r_linked (rq_heap q0) (set xs \<union> own ` T) (set xs \<union> r_cells own T r_past_link (rn_pc s)) full (rq_heap (rn_queue s))"
    using inv unfolding renq_inv_def by blast
  obtain ys where ys: "full = xs @ ys" "set ys = r_cells own T r_past_cas (rn_pc s)" using f(1) by (auto simp: r_places_def)
  have new: "own t \<notin> set full" using own(3) t pc ys r_cells_in[OF own(1) t, of r_past_cas "rn_pc s"] by auto
  have others: "own u \<in> set full" if "u \<in> T" "rn_pc s u = RLinkNext tmp" for u tmp
    using that ys r_cells_in[OF own(1) that(1), of r_past_cas "rn_pc s"] by simp
  have "r_places own T xs ?s (full @ [own t])"
    unfolding r_places_def
  proof (intro conjI)
    show "\<exists>zs. full @ [own t] = xs @ zs \<and> set zs = r_cells own T r_past_cas (rn_pc ?s)"
      using ys t own(1) by (intro exI[of _ "ys @ [own t]"]) (simp add: r_cells_upd)
    show "\<forall>u \<in> T. \<forall>tmp. rn_pc ?s u = RLinkNext tmp \<longrightarrow> pred_of (full @ [own t]) (own u) = tmp"
      using f(1) new others pc(2) by (auto simp: r_places_def)
  qed (use f(1) new t in \<open>auto simp: r_places_def last_ptr_def\<close>)
  moreover have "r_ends T xs (rq_n_elements q0) ?s (full @ [own t])"
    using f(2) pc(1) card_rdone_upd[OF own(2) t, of "rn_pc s" "RLinkNext temp"] by (auto simp: r_ends_def)
  moreover have "y \<in> set full" if "y \<in> set xs \<union> r_cells own T r_past_link (rn_pc s)" for y
  proof -
    have "r_past_link p \<Longrightarrow> r_past_cas p" for p by (cases p) auto
    then show ?thesis using that ys by (auto simp: r_cells_def)
  qed
  then have "r_linked (rq_heap q0) (set xs \<union> own ` T) (set xs \<union> r_cells own T r_past_link (rn_pc ?s)) (full @ [own t])
      (rq_heap (rn_queue ?s))"
    using f(3) pc(1) own(1) t unfolding r_linked_def by (simp add: r_cells_same) (metis pred_of_old)
  ultimately show ?thesis using inv unfolding renq_inv_def by auto
qed

lemma renq_link_ok:
  assumes own: "inj_on own T" "finite T" and t: "t \<in> T" and pc: "rn_pc s t = RLinkNext temp" and inv: "renq_inv own T xs q0 s"
  shows "\<exists>h. (if temp \<noteq> None then set_next (rq_heap (rn_queue s)) temp (Some (own t)) else Inr (rq_heap (rn_queue s))) = Inr h \<and>
    renq_inv own T xs q0 \<lparr>rn_queue = (rn_queue s)\<lparr>rq_heap := h\<rparr>, rn_pc = (rn_pc s)(t := RCheckFirst)\<rparr>"
proof -
  let ?A = "set xs \<union> own ` T" and ?L = "set xs \<union> r_cells own T r_past_link (rn_pc s)" and ?h = "rq_heap (rn_queue s)"
  obtain full where f: "r_places own T xs s full" "r_ends T xs (rq_n_elements q0) s full" "r_linked (rq_heap q0) ?A ?L full ?h"
    using inv unfolding renq_inv_def by blast
  have p: "pred_of full (own t) = temp" using f(1) t pc by (simp add: r_places_def)
  have mem: "own t \<in> set full" "distinct full" "set full \<subseteq> ?A"
    using f(1) r_cells_in[OF own(1) t, of r_past_cas "rn_pc s"] pc by (auto simp: r_places_def r_cells_def)
  have "r_past_link q \<Longrightarrow> r_past_cas q" for q by (cases q) auto
  then have sub: "?L \<subseteq> set full" using f(1) by (auto simp: r_places_def r_cells_def)
  have only: "y = own t" if "y \<in> ?L" "pred_of full y = temp" for y
    using pred_of_inj[OF mem(2) _ mem(1)] that p sub by auto
  have notin: "own t \<notin> r_cells own T r_past_link (rn_pc s)" using r_cells_in[OF own(1) t, of r_past_link "rn_pc s"] pc by simp
  have fin: "renq_inv own T xs q0 \<lparr>rn_queue = (rn_queue s)\<lparr>rq_heap := h\<rparr>, rn_pc = (rn_pc s)(t := RCheckFirst)\<rparr>"
    if "r_linked (rq_heap q0) ?A (insert (own t) ?L) full h" for h
  proof -
    have "r_places own T xs \<lparr>rn_queue = (rn_queue s)\<lparr>rq_heap := h\<rparr>, rn_pc = (rn_pc s)(t := RCheckFirst)\<rparr> full"
      using f(1) pc t own(1) by (auto simp: r_places_def r_cells_same)
    moreover have "r_ends T xs (rq_n_elements q0) \<lparr>rn_queue = (rn_queue s)\<lparr>rq_heap := h\<rparr>, rn_pc = (rn_pc s)(t := RCheckFirst)\<rparr> full"
      using f(2) pc card_rdone_upd[OF own(2) t, of "rn_pc s" RCheckFirst] by (auto simp: r_ends_def)
    ultimately show ?thesis using inv that t own(1) unfolding renq_inv_def by (auto simp: r_cells_upd)
  qed
  show ?thesis
  proof (cases temp)
    case None
    then have "y \<in> insert (own t) ?L \<and> pred_of full y = Some x \<longleftrightarrow> y \<in> ?L \<and> pred_of full y = Some x" for x y
      using p by auto
    then have "r_linked (rq_heap q0) ?A (insert (own t) ?L) full ?h" using f(3) unfolding r_linked_def by simp
    then show ?thesis using None fin[of ?h] by simp
  next
    case (Some x)
    then have x: "x \<in> ?A" using p pred_of_in mem(3) by blast
    then obtain c where c: "?h x = Some c" using f(3) unfolding r_linked_def by blast
    have "r_linked (rq_heap q0) ?A (insert (own t) ?L) full (?h(x \<mapsto> c\<lparr>r_next := Some (own t)\<rparr>))"
      unfolding r_linked_def
    proof (intro conjI ballI allI)
      fix z assume z: "z \<in> ?A"
      obtain d where d: "?h z = Some d" "\<forall>y. r_next d = Some y \<longleftrightarrow> y \<in> ?L \<and> pred_of full y = Some z"
        using f(3) z unfolding r_linked_def by blast
      show "\<exists>c'. (?h(x \<mapsto> c\<lparr>r_next := Some (own t)\<rparr>)) z = Some c' \<and>
          (\<forall>y. r_next c' = Some y \<longleftrightarrow> y \<in> insert (own t) ?L \<and> pred_of full y = Some z)"
        using d p Some only by (cases "z = x") auto
    next
      fix z
      show "map_option (\<lambda>c. (actual_ref c, r_region c)) ((?h(x \<mapsto> c\<lparr>r_next := Some (own t)\<rparr>)) z) =
          map_option (\<lambda>c. (actual_ref c, r_region c)) (rq_heap q0 z)"
        using f(3) c unfolding r_linked_def by (cases "z = x") (auto dest: spec[of _ x])
    qed
    then show ?thesis using Some c fin by (simp add: set_next_def)
  qed
qed

text \<open>The steps that only read, set the remove end or count.\<close>

lemma renq_other_ok:
  assumes own: "inj_on own T" "finite T" "own ` T \<inter> set xs = {}" and t: "t \<in> T" and inv: "renq_inv own T xs q0 s"
    and pc: "rn_pc s t \<noteq> RDone" "r_past_cas v = r_past_cas (rn_pc s t)" "r_past_link v = r_past_link (rn_pc s t)"
      "\<And>temp. v \<noteq> RLinkNext temp"
    and q: "rq_heap q = rq_heap (rn_queue s) \<and> rq_free q = rq_free (rn_queue s)" "rq_insert_end q = rq_insert_end (rn_queue s)"
      "rq_n_elements q = rq_n_elements (rn_queue s) + (if v = RDone then 1 else 0)"
    and r: "rq_remove_end q = rq_remove_end (rn_queue s) \<and> (v = RSetRemove \<or> r_past_remove v \<longrightarrow> (v = RSetRemove) = (rq_remove_end q = None)) \<or>
      rn_pc s t = RSetRemove \<and> v = RCountUp \<and> rq_remove_end q = Some (own t)"
  shows "renq_inv own T xs q0 \<lparr>rn_queue = q, rn_pc = (rn_pc s)(t := v)\<rparr>" (is "renq_inv own T xs q0 ?s")
proof -
  obtain full where f: "r_places own T xs s full" "r_ends T xs (rq_n_elements q0) s full"
      "r_linked (rq_heap q0) (set xs \<union> own ` T) (set xs \<union> r_cells own T r_past_link (rn_pc s)) full (rq_heap (rn_queue s))"
    using inv unfolding renq_inv_def by blast
  have "r_places own T xs ?s full" using f(1) pc(2,4) q(2) t own(1) by (auto simp: r_places_def r_cells_same)
  moreover have "r_ends T xs (rq_n_elements q0) ?s full"
  proof -
    have "own t \<in> set full" if "rn_pc s t = RSetRemove"
      using f(1) that r_cells_in[OF own(1) t, of r_past_cas "rn_pc s"] by (auto simp: r_places_def)
    then show ?thesis
      using f(2) r q(3) pc(1) t card_rdone_upd[of T t "rn_pc s" v, OF own(2) t pc(1)] unfolding r_ends_def by auto
  qed
  ultimately show ?thesis using inv f(3) q(1) pc(3) t own(1) unfolding renq_inv_def by (auto simp: r_cells_same)
qed

lemma renq_step_ok:
  assumes own: "inj_on own T" "finite T" "own ` T \<inter> set xs = {}" and inv: "renq_inv own T xs q0 s"
  shows "\<exists>s'. renq_step own t s = Inr s' \<and> renq_inv own T xs q0 s'"
proof (cases "rn_pc s t = RDone")
  case True
  then show ?thesis using inv by (simp add: renq_step_def Let_def)
next
  case False
  then have t: "t \<in> T" using inv by (auto simp: renq_inv_def r_places_def)
  note other = renq_other_ok[OF own t inv False]
  show ?thesis
  proof (cases "rn_pc s t")
    case RReadEnd
    then show ?thesis using other[of "RCasEnd (rq_insert_end (rn_queue s))" "rn_queue s"] by (simp add: renq_step_def Let_def)
  next
    case (RCasEnd temp)
    then show ?thesis using renq_cas_ok[OF own t RCasEnd _ inv] other[of RReadEnd "rn_queue s"] by (simp add: renq_step_def Let_def)
  next
    case (RLinkNext temp)
    obtain h where h: "(if temp \<noteq> None then set_next (rq_heap (rn_queue s)) temp (Some (own t)) else Inr (rq_heap (rn_queue s))) = Inr h"
        "renq_inv own T xs q0 \<lparr>rn_queue = (rn_queue s)\<lparr>rq_heap := h\<rparr>, rn_pc = (rn_pc s)(t := RCheckFirst)\<rparr>"
      using renq_link_ok[OF own(1,2) t RLinkNext inv] by blast
    then have "renq_step own t s = Inr \<lparr>rn_queue = (rn_queue s)\<lparr>rq_heap := h\<rparr>, rn_pc = (rn_pc s)(t := RCheckFirst)\<rparr>"
      using RLinkNext by (cases temp) (simp_all add: renq_step_def Let_def)
    with h(2) show ?thesis by (intro exI conjI)
  next
    case RCheckFirst
    show ?thesis
    proof (cases "rq_remove_end (rn_queue s) = None")
      case True
      then show ?thesis using RCheckFirst other[of RSetRemove "rn_queue s"] by (simp add: renq_step_def Let_def)
    next
      case False
      then show ?thesis using RCheckFirst other[of RCountUp "rn_queue s"] by (auto simp: renq_step_def Let_def)
    qed
  next
    case RSetRemove
    then show ?thesis
      using other[of RCountUp "(rn_queue s)\<lparr>rq_remove_end := Some (own t)\<rparr>"] by (simp add: renq_step_def Let_def)
  next
    case RCountUp
    have "rq_remove_end (rn_queue s) \<noteq> None" using inv t RCountUp by (fastforce simp: renq_inv_def r_ends_def)
    then show ?thesis
      using RCountUp other[of RDone "(rn_queue s)\<lparr>rq_n_elements := rq_n_elements (rn_queue s) + 1\<rparr>"] by (simp add: renq_step_def Let_def)
  qed (use False in simp)
qed

lemma renq_run_ok:
  assumes "inj_on own T" "finite T" "own ` T \<inter> set xs = {}"
  shows "renq_inv own T xs q0 s \<Longrightarrow> \<exists>s'. renq_run own s ts = Inr s' \<and> renq_inv own T xs q0 s'"
proof (induction ts arbitrary: s)
  case (Cons t ts)
  then show ?case using renq_step_ok[OF assms Cons.prems, of t] by auto
qed simp

text \<open>Once every cell is linked, each cell of \<open>full\<close> leads through the ones behind it to the end.\<close>

lemma rlist_of_pred:
  assumes d: "distinct full" and l: "r_linked h0 A (set full) full h" "set full \<subseteq> A"
  shows "i \<le> length full \<Longrightarrow> rlist h (if i < length full then Some (full ! i) else None) (drop i full)"
proof (induction "length full - i" arbitrary: i)
  case (Suc k)
  then have i: "i < length full" by simp
  then have "full ! i \<in> A" using l(2) nth_mem by blast
  then obtain c where c: "h (full ! i) = Some c" "\<And>y. r_next c = Some y \<longleftrightarrow> y \<in> set full \<and> pred_of full y = Some (full ! i)"
    using conjunct1[OF l(1)[unfolded r_linked_def], THEN bspec] by blast
  have "r_next c = (if Suc i < length full then Some (full ! Suc i) else None)"
  proof (cases "r_next c")
    case None
    then have "\<not> Suc i < length full" using c(2)[of "full ! Suc i"] pred_of_nth[OF d, of "Suc i"] by auto
    then show ?thesis using None by simp
  next
    case (Some y)
    then have "y \<in> set full" "pred_of full y = Some (full ! i)" using c(2) by auto
    then obtain j where j: "j < length full" "y = full ! j" "j \<noteq> 0" "full ! (j - 1) = full ! i"
      using d by (auto simp: in_set_conv_nth pred_of_nth split: if_splits)
    then have "j - 1 = i" using d i by (simp add: nth_eq_iff_index_eq)
    then show ?thesis using Some j by auto
  qed
  then show ?case using Suc.hyps(1)[of "Suc i"] Suc.hyps(2) i c(1) by (simp add: Cons_nth_drop_Suc[symmetric])
qed simp

text \<open>A queue \<open>xs\<close> and threads about to enqueue their cells.\<close>

definition renq_start :: "(nat \<Rightarrow> rid) \<Rightarrow> nat set \<Rightarrow> rid list \<Rightarrow> renq_state \<Rightarrow> bool" where
  "renq_start own T xs s \<longleftrightarrow>
     rq_wf (rn_queue s) xs \<and> rn_pc s = (\<lambda>t. if t \<in> T then RReadEnd else RDone) \<and>
     finite T \<and> inj_on own T \<and> own ` T \<inter> set xs = {} \<and>
     (\<forall>t \<in> T. \<exists>c. rq_heap (rn_queue s) (own t) = Some c \<and> r_next c = None)"

lemma rlist_links:
  "rlist h p xs \<Longrightarrow> distinct xs \<Longrightarrow> x \<in> set xs \<Longrightarrow>
    \<exists>c. h x = Some c \<and> (\<forall>y. r_next c = Some y \<longleftrightarrow> y \<in> set xs \<and> pred_of xs y = Some x)"
proof -
  assume a: "rlist h p xs" "distinct xs" "x \<in> set xs"
  have nx: "\<exists>c. h (xs ! i) = Some c \<and> r_next c = (if Suc i < length xs then Some (xs ! Suc i) else None)"
    if "i < length xs" for i
    using a(1) that
  proof (induction xs arbitrary: p i)
    case (Cons z zs)
    then obtain c where "h z = Some c" "rlist h (r_next c) zs" by (auto split: option.splits)
    then show ?case using Cons.IH[of "r_next c" "i - 1"] Cons.prems(2) by (cases i; cases zs) auto
  qed simp
  obtain i where i: "i < length xs" "x = xs ! i" using a(3) by (auto simp: in_set_conv_nth)
  obtain c where c: "h x = Some c" "r_next c = (if Suc i < length xs then Some (xs ! Suc i) else None)" using nx i by blast
  have "r_next c = Some y \<longleftrightarrow> y \<in> set xs \<and> pred_of xs y = Some x" for y
  proof
    assume "r_next c = Some y"
    then have "Suc i < length xs" "y = xs ! Suc i" using c(2) by (auto split: if_splits)
    then show "y \<in> set xs \<and> pred_of xs y = Some x" using pred_of_nth[OF a(2), of "Suc i"] i by simp
  next
    assume "y \<in> set xs \<and> pred_of xs y = Some x"
    then obtain j where "j < length xs" "y = xs ! j" "j \<noteq> 0" "xs ! (j - 1) = x"
      using a(2) by (auto simp: in_set_conv_nth pred_of_nth split: if_splits)
    moreover from this have "j - 1 = i" using a(2) i by (simp add: nth_eq_iff_index_eq)
    ultimately show "r_next c = Some y" using c(2) by auto
  qed
  then show ?thesis using c(1) by blast
qed

lemma renq_start_inv:
  assumes "renq_start own T xs s"
  shows "renq_inv own T xs (rn_queue s) s"
proof -
  have w: "distinct xs" "rlist (rq_heap (rn_queue s)) (rq_remove_end (rn_queue s)) xs"
    using assms by (simp_all add: renq_start_def rq_wf_def)
  have none: "r_cells own T P (rn_pc s) = {}" if "\<not> P RReadEnd" for P using assms that by (auto simp: r_cells_def renq_start_def)
  have "r_places own T xs s xs"
    using assms none[of r_past_cas] by (auto simp: r_places_def renq_start_def rq_wf_def last_ptr_def)
  moreover have "r_ends T xs (rq_n_elements (rn_queue s)) s xs"
    using assms w(2) by (cases xs) (auto simp: r_ends_def renq_start_def)
  moreover have "\<exists>c. rq_heap (rn_queue s) x = Some c \<and> (\<forall>y. r_next c = Some y \<longleftrightarrow> y \<in> set xs \<and> pred_of xs y = Some x)"
    if x: "x \<in> set xs \<union> own ` T" for x
  proof (cases "x \<in> set xs")
    case True
    then show ?thesis by (rule rlist_links[OF w(2,1)])
  next
    case False
    then obtain c where "rq_heap (rn_queue s) x = Some c" "r_next c = None" using x assms by (auto simp: renq_start_def)
    moreover have "pred_of xs y \<noteq> Some x" for y using False pred_of_in by blast
    ultimately show ?thesis by auto
  qed
  then have "r_linked (rq_heap (rn_queue s)) (set xs \<union> own ` T) (set xs \<union> r_cells own T r_past_link (rn_pc s)) xs (rq_heap (rn_queue s))"
    using none[of r_past_link] by (simp add: r_linked_def)
  ultimately show ?thesis unfolding renq_inv_def by blast
qed

lemma cells_of_linked:
  assumes "r_linked (rq_heap q0) A L full (rq_heap q)"
  shows "cells_of q zs = cells_of q0 zs"
proof -
  have "(case rq_heap q x of Some c \<Rightarrow> (actual_ref c, r_region c) | None \<Rightarrow> (0, 0)) =
      (case rq_heap q0 x of Some c \<Rightarrow> (actual_ref c, r_region c) | None \<Rightarrow> (0, 0))" for x
  proof -
    have "map_option (\<lambda>c. (actual_ref c, r_region c)) (rq_heap q x) = map_option (\<lambda>c. (actual_ref c, r_region c)) (rq_heap q0 x)"
      using assms unfolding r_linked_def by blast
    then show ?thesis by (cases "rq_heap q x"; cases "rq_heap q0 x") auto
  qed
  then show ?thesis by (simp add: cells_of_def)
qed

text \<open>When all threads have returned, the remove end is some cell of the list.\<close>

lemma r_ends_place:
  assumes f: "r_ends T xs k s' (xs @ ys)" and all: "\<forall>t \<in> T. rn_pc s' t = RDone" and ys: "set ys = own ` T" "distinct (xs @ ys)"
    and len: "length ys = card T"
  shows "\<exists>n. rq_remove_end (rn_queue s') = (if n < length (xs @ ys) then Some ((xs @ ys) ! n) else None) \<and> n \<le> length (xs @ ys) \<and>
    (T \<noteq> {} \<longrightarrow> n < length (xs @ ys)) \<and> (xs \<noteq> [] \<or> card T \<le> 1 \<longrightarrow> n = 0)"
proof (cases "rq_remove_end (rn_queue s')")
  case None
  then have "T = {}" "xs = []" using f all by (auto simp: r_ends_def)
  then show ?thesis using None ys(1) by auto
next
  case (Some y)
  then have "y \<in> set (xs @ ys)" using f unfolding r_ends_def by blast
  then obtain n where n: "n < length (xs @ ys)" "(xs @ ys) ! n = y" unfolding in_set_conv_nth by blast
  have "n = 0" if "xs \<noteq> []"
  proof -
    have "y = (xs @ ys) ! 0" using f Some that by (auto simp: r_ends_def hd_conv_nth nth_append)
    then show ?thesis using n ys(2) that by (metis length_greater_0_conv append_is_Nil_conv nth_eq_iff_index_eq)
  qed
  moreover have "n = 0" if "xs = []" "card T \<le> 1" using n(1) len that by simp
  ultimately show ?thesis using Some n by (intro exI[of _ n]) auto
qed

text \<open>
  C31: concurrent enqueues.  Whatever the schedule of the threads' steps, none
  dereferences NULL.  Once all have returned, the cells have some order \<open>ys\<close> behind
  the old elements, the counter has risen by the number of threads, and the queue is
  a final piece of \<open>xs @ ys\<close> with the references as they were given.  If the queue was not empty or
  only one thread enqueued, the piece is everything: no reference is lost.
\<close>

theorem concurrent_ref_enqueue:
  assumes "renq_start own T xs s"
  shows "\<exists>s'. renq_run own s ts = Inr s' \<and>
    ((\<forall>t \<in> T. rn_pc s' t = RDone) \<longrightarrow>
      (\<exists>ys n. distinct ys \<and> set ys = own ` T \<and> rq_wf (rn_queue s') (drop n (xs @ ys)) \<and>
         cells_of (rn_queue s') (xs @ ys) = cells_of (rn_queue s) (xs @ ys) \<and>
         rq_n_elements (rn_queue s') = rq_n_elements (rn_queue s) + int (card T) \<and>
         (T \<noteq> {} \<longrightarrow> n < length (xs @ ys)) \<and> (xs \<noteq> [] \<or> card T \<le> 1 \<longrightarrow> n = 0)))"
proof -
  have own: "inj_on own T" "finite T" "own ` T \<inter> set xs = {}" using assms by (simp_all add: renq_start_def)
  obtain s' where s': "renq_run own s ts = Inr s'" "renq_inv own T xs (rn_queue s) s'"
    using renq_run_ok[OF own renq_start_inv[OF assms]] by blast
  have "\<exists>ys n. distinct ys \<and> set ys = own ` T \<and> rq_wf (rn_queue s') (drop n (xs @ ys)) \<and>
         cells_of (rn_queue s') (xs @ ys) = cells_of (rn_queue s) (xs @ ys) \<and>
         rq_n_elements (rn_queue s') = rq_n_elements (rn_queue s) + int (card T) \<and>
         (T \<noteq> {} \<longrightarrow> n < length (xs @ ys)) \<and> (xs \<noteq> [] \<or> card T \<le> 1 \<longrightarrow> n = 0)"
    if all: "\<forall>t \<in> T. rn_pc s' t = RDone"
  proof -
    let ?q = "rn_queue s'"
    have c: "r_cells own T P (rn_pc s') = own ` T" if "P RDone" for P using all that by (auto simp: r_cells_def)
    obtain ys where f: "r_places own T xs s' (xs @ ys)" "r_ends T xs (rq_n_elements (rn_queue s)) s' (xs @ ys)"
        "r_linked (rq_heap (rn_queue s)) (set xs \<union> own ` T) (set (xs @ ys)) (xs @ ys) (rq_heap ?q)"
      and ys: "set ys = own ` T" "distinct (xs @ ys)"
      using s'(2) c[of r_past_cas] c[of r_past_link] unfolding renq_inv_def r_places_def by auto
    have len: "length ys = card T" using ys own(1) by (metis card_image distinct_append distinct_card)
    have "rq_heap ?q a = None \<longleftrightarrow> rq_heap (rn_queue s) a = None" for a
      using conjunct2[OF f(3)[unfolded r_linked_def], THEN spec, of a] by (cases "rq_heap ?q a"; cases "rq_heap (rn_queue s) a") auto
    moreover have "rq_free ?q = rq_free (rn_queue s)" using s'(2) by (simp add: renq_inv_def)
    ultimately have free: "\<forall>a \<ge> rq_free ?q. rq_heap ?q a = None" using assms by (simp add: renq_start_def rq_wf_def)
    obtain n where n: "rq_remove_end ?q = (if n < length (xs @ ys) then Some ((xs @ ys) ! n) else None)" "n \<le> length (xs @ ys)"
      "T \<noteq> {} \<longrightarrow> n < length (xs @ ys)" "xs \<noteq> [] \<or> card T \<le> 1 \<longrightarrow> n = 0"
      using r_ends_place[OF f(2) all ys len] by blast
    have "rlist (rq_heap ?q) (rq_remove_end ?q) (drop n (xs @ ys))"
      unfolding n(1) by (rule rlist_of_pred[OF ys(2) f(3) _ n(2)]) (use ys(1) in auto)
    moreover have "rq_insert_end ?q = (if drop n (xs @ ys) = [] then None else Some (last (drop n (xs @ ys))))"
    proof (cases "n < length (xs @ ys)")
      case True
      have "rq_insert_end ?q = last_ptr None (xs @ ys)" using f(1) by (simp add: r_places_def)
      moreover have "drop n (xs @ ys) \<noteq> []" "xs @ ys \<noteq> []" using True by (simp_all del: drop_append append_is_Nil_conv) auto
      ultimately show ?thesis using last_drop[OF True] by (simp only: last_ptr_def if_False)
    next
      case False
      then have "T = {}" "n = length (xs @ ys)" using n(2,3) by auto
      then show ?thesis using f(1) ys(1) n(4) by (auto simp: r_places_def last_ptr_def)
    qed
    ultimately have "rq_wf ?q (drop n (xs @ ys))" using free distinct_drop[OF ys(2), of n] unfolding rq_wf_def by blast
    moreover have "{t \<in> T. rn_pc s' t = RDone} = T" using all by auto
    ultimately show ?thesis
      using ys f(2) n(3,4) cells_of_linked[OF f(3)] by (intro exI[of _ ys] exI[of _ n]) (simp add: r_ends_def)
  qed
  then show ?thesis using s'(1) by blast
qed

text \<open>Two threads add to a queue of two; the second is faster.\<close>

definition renq_sample :: renq_state where
  "renq_sample = \<lparr>rn_queue = two_refs\<lparr>rq_heap := (rq_heap two_refs)(2 \<mapsto> new_Ref 816 4, 3 \<mapsto> new_Ref 824 8), rq_free := 4\<rparr>,
     rn_pc = (\<lambda>t. if t \<in> {0, 1} then RReadEnd else RDone)\<rparr>"

lemma renq_sample_start: "renq_start (\<lambda>t. t + 2) {0, 1} [0, 1] renq_sample"
  by (auto simp: renq_start_def renq_sample_def rq_wf_def two_refs_def new_Ref_def)

theorem concurrent_ref_enqueue_witness:
  "\<exists>s' ys. renq_run (\<lambda>t. t + 2) renq_sample [0, 1, 1, 0, 0, 0, 0, 0, 0, 1, 1, 1] = Inr s' \<and>
    set ys = {2, 3} \<and> rq_wf (rn_queue s') ([0, 1] @ ys) \<and> rq_n_elements (rn_queue s') = 4"
proof -
  let ?ts = "[0, 1, 1, 0, 0, 0, 0, 0, 0, 1, 1, 1]"
  obtain s' where s': "renq_run (\<lambda>t. t + 2) renq_sample ?ts = Inr s'" "rn_pc s' 0 = RDone" "rn_pc s' 1 = RDone"
    by (simp add: renq_step_def renq_sample_def two_refs_def new_Ref_def set_next_def Let_def)
  then obtain ys n where "set ys = (\<lambda>t. t + 2) ` {0, 1}" "rq_wf (rn_queue s') (drop n ([0, 1] @ ys))" "n = 0"
      "rq_n_elements (rn_queue s') = rq_n_elements (rn_queue renq_sample) + int (card {0, 1::nat})"
    using concurrent_ref_enqueue[OF renq_sample_start, of ?ts] by auto
  moreover have "(\<lambda>t. t + 2) ` {0, 1} = {2, 3::rid}" by auto
  moreover have "rq_n_elements (rn_queue renq_sample) + int (card {0, 1::nat}) = 4" by (simp add: renq_sample_def two_refs_def)
  ultimately show ?thesis using s'(1) by (intro exI[of _ s'] exI[of _ ys]) (simp only: drop0)
qed

text \<open>An empty queue, and the private cells 0 and 1 of the threads 0 and 1.\<close>

definition race_start :: "addr \<Rightarrow> addr \<Rightarrow> addr \<Rightarrow> addr \<Rightarrow> renq_state" where
  "race_start o1 r1 o2 r2 =
     \<lparr>rn_queue = \<lparr>rq_heap = (\<lambda>_. None)(0 \<mapsto> new_Ref o1 r1, 1 \<mapsto> new_Ref o2 r2), rq_free = 2,
                 rq_insert_end = None, rq_remove_end = None, rq_n_elements = 0\<rparr>,
      rn_pc = (\<lambda>t. if t < 2 then RReadEnd else RDone)\<rparr>"

text \<open>
  The remaining case is real: two threads that enqueue into an empty queue can both
  return with the first reference lost.  Between the exchange and the check of the
  first thread the second one enqueues, finds \<open>_remove_end\<close> still NULL and sets it to
  its own reference, and the first thread then sees it set.  The queue holds the
  second reference only, while its counter says two.
\<close>

lemma concurrent_enqueue_loses:
  "\<exists>ts s. renq_run (\<lambda>t. t) (race_start o1 r1 o2 r2) ts = Inr s \<and>
    rn_pc s 0 = RDone \<and> rn_pc s 1 = RDone \<and>
    rlist (rq_heap (rn_queue s)) (rq_remove_end (rn_queue s)) [1] \<and>
    cells_of (rn_queue s) [1] = [(o2, r2)] \<and> rq_n_elements (rn_queue s) = 2"
  by (rule exI[of _ "[0, 0, 1, 1, 1, 1, 1, 1, 0, 0, 0]"])
     (simp add: renq_step_def race_start_def Let_def set_next_def new_Ref_def cells_of_def)

end
