(* ===== verification/BitMaps.thy ===== *)
theory BitMaps
  imports GlobalDefs
begin

text \<open>
  \<open>utilities/bitMap.hpp\<close>, \<open>bitMap.inline.hpp\<close> and \<open>bitMap.cpp\<close>: the bit
  map is its array of 64-bit words and its size in bits.  The assertions of the
  source (\<open>verify_index\<close>, \<open>verify_range\<close> and the explicit ones) are faults;
  in a map whose array has \<open>size_in_words\<close> words they keep every access in the
  array.  Shifts of indices are computed on naturals: bit indices are far below
  \<open>2 ^ 64\<close>.
\<close>

section \<open>Words and bits\<close>

type_synonym bm_word = "64 word"

record bitmap =
  bm_map :: "bm_word list"
  bm_size :: nat

datatype range_size_hint = unknown_range | small_range | large_range

definition bit_in_word :: "idx_t \<Rightarrow> nat" where
  "bit_in_word b = b mod 64"

definition bit_mask :: "idx_t \<Rightarrow> bm_word" where
  "bit_mask b = push_bit (bit_in_word b) 1"

definition word_index :: "idx_t \<Rightarrow> idx_t" where
  "word_index b = b div 64"

definition bit_index :: "idx_t \<Rightarrow> idx_t" where
  "bit_index w = w * 64"

definition size_in_words_of :: "nat \<Rightarrow> idx_t" where
  "size_in_words_of size_in_bits = (size_in_bits + 63) div 64"

definition size_in_words :: "bitmap \<Rightarrow> idx_t" where
  "size_in_words m = size_in_words_of (bm_size m)"

text \<open>\<open>at\<close> reads a bit; \<open>verify_index\<close>, which it asserts, is a bound on \<open>b\<close> where it is used.\<close>

definition bm_at :: "bitmap \<Rightarrow> idx_t \<Rightarrow> bool" where
  "bm_at m b \<longleftrightarrow> bm_map m ! word_index b AND bit_mask b \<noteq> 0"

definition verify_index :: "bitmap \<Rightarrow> idx_t \<Rightarrow> bool" where
  "verify_index m b \<longleftrightarrow> b < bm_size m"

definition verify_range :: "bitmap \<Rightarrow> idx_t \<Rightarrow> idx_t \<Rightarrow> bool" where
  "verify_range m beg e \<longleftrightarrow> beg \<le> e \<and> e \<le> bm_size m"

section \<open>Single bits\<close>

definition upd_word :: "bitmap \<Rightarrow> idx_t \<Rightarrow> bm_word \<Rightarrow> bitmap" where
  "upd_word m i w = m\<lparr>bm_map := (bm_map m)[i := w]\<rparr>"

definition bm_set_bit :: "bitmap \<Rightarrow> idx_t \<Rightarrow> bitmap result" where
  "bm_set_bit m b =
     (if verify_index m b
      then Inr (upd_word m (word_index b) (bm_map m ! word_index b OR bit_mask b))
      else Inl (AssertFailed ''BitMap index out of bounds''))"

definition bm_clear_bit :: "bitmap \<Rightarrow> idx_t \<Rightarrow> bitmap result" where
  "bm_clear_bit m b =
     (if verify_index m b
      then Inr (upd_word m (word_index b) (bm_map m ! word_index b AND NOT (bit_mask b)))
      else Inl (AssertFailed ''BitMap index out of bounds''))"

text \<open>With no other thread the exchange succeeds at once; the flag is the source's result.\<close>

definition par_set_bit :: "bitmap \<Rightarrow> idx_t \<Rightarrow> (bitmap \<times> bool) result" where
  "par_set_bit m b =
     (if verify_index m b then
        (let old_val = bm_map m ! word_index b; new_val = old_val OR bit_mask b
         in if new_val = old_val then Inr (m, False) else Inr (upd_word m (word_index b) new_val, True))
      else Inl (AssertFailed ''BitMap index out of bounds''))"

definition par_clear_bit :: "bitmap \<Rightarrow> idx_t \<Rightarrow> (bitmap \<times> bool) result" where
  "par_clear_bit m b =
     (if verify_index m b then
        (let old_val = bm_map m ! word_index b; new_val = old_val AND NOT (bit_mask b)
         in if new_val = old_val then Inr (m, False) else Inr (upd_word m (word_index b) new_val, True))
      else Inl (AssertFailed ''BitMap index out of bounds''))"

definition at_put :: "bitmap \<Rightarrow> idx_t \<Rightarrow> bool \<Rightarrow> bitmap result" where
  "at_put m offset val = (if val then bm_set_bit m offset else bm_clear_bit m offset)"

definition par_at_put :: "bitmap \<Rightarrow> idx_t \<Rightarrow> bool \<Rightarrow> (bitmap \<times> bool) result" where
  "par_at_put m b val = (if val then par_set_bit m b else par_clear_bit m b)"

section \<open>Ranges\<close>

text \<open>
  The range is not empty and inside one word; the callers see to it, and the source asserts it.
\<close>

definition inverted_bit_mask_for_range :: "idx_t \<Rightarrow> idx_t \<Rightarrow> bm_word" where
  "inverted_bit_mask_for_range beg e =
     (let m = bit_mask beg - 1
      in if bit_in_word e \<noteq> 0 then m OR NOT (bit_mask e - 1) else m)"

definition set_range_within_word :: "bitmap \<Rightarrow> idx_t \<Rightarrow> idx_t \<Rightarrow> bitmap" where
  "set_range_within_word m beg e =
     (if beg \<noteq> e
      then upd_word m (word_index beg)
             (bm_map m ! word_index beg OR NOT (inverted_bit_mask_for_range beg e))
      else m)"

definition clear_range_within_word :: "bitmap \<Rightarrow> idx_t \<Rightarrow> idx_t \<Rightarrow> bitmap" where
  "clear_range_within_word m beg e =
     (if beg \<noteq> e
      then upd_word m (word_index beg)
             (bm_map m ! word_index beg AND inverted_bit_mask_for_range beg e)
      else m)"

definition par_put_range_within_word :: "bitmap \<Rightarrow> idx_t \<Rightarrow> idx_t \<Rightarrow> bool \<Rightarrow> bitmap" where
  "par_put_range_within_word m beg e val =
     (if beg \<noteq> e
      then (let w = bm_map m ! word_index beg;
                mr = inverted_bit_mask_for_range beg e;
                nw = (if val then w OR NOT mr else w AND mr)
            in upd_word m (word_index beg) nw)
      else m)"

text \<open>The loops over whole words, and the \<open>memset\<close>s of the large variants.\<close>

function fill_words :: "bm_word list \<Rightarrow> idx_t \<Rightarrow> idx_t \<Rightarrow> bm_word \<Rightarrow> bm_word list" where
  "fill_words ws i e v = (if i < e then fill_words (ws[i := v]) (i + 1) e v else ws)"
  by pat_completeness auto
termination
  by (relation "measure (\<lambda>(ws, i, e, v). e - i)") auto

declare fill_words.simps [simp del]

definition set_range_of_words :: "bitmap \<Rightarrow> idx_t \<Rightarrow> idx_t \<Rightarrow> bitmap" where
  "set_range_of_words m beg e = m\<lparr>bm_map := fill_words (bm_map m) beg e (NOT 0)\<rparr>"

definition clear_range_of_words :: "bitmap \<Rightarrow> idx_t \<Rightarrow> idx_t \<Rightarrow> bitmap" where
  "clear_range_of_words m beg e = m\<lparr>bm_map := fill_words (bm_map m) beg e 0\<rparr>"

definition memset_words :: "bitmap \<Rightarrow> idx_t \<Rightarrow> idx_t \<Rightarrow> bm_word \<Rightarrow> bitmap result" where
  "memset_words m beg e v =
     (if beg \<le> e \<and> e \<le> length (bm_map m)
      then Inr (m\<lparr>bm_map := take beg (bm_map m) @ replicate (e - beg) v @ drop e (bm_map m)\<rparr>)
      else Inl OutOfBounds)"

definition set_large_range_of_words :: "bitmap \<Rightarrow> idx_t \<Rightarrow> idx_t \<Rightarrow> bitmap result" where
  "set_large_range_of_words m beg e = memset_words m beg e (NOT 0)"

definition clear_large_range_of_words :: "bitmap \<Rightarrow> idx_t \<Rightarrow> idx_t \<Rightarrow> bitmap result" where
  "clear_large_range_of_words m beg e = memset_words m beg e 0"

definition word_index_round_up :: "bitmap \<Rightarrow> idx_t \<Rightarrow> idx_t" where
  "word_index_round_up m b =
     (let bit_rounded_up = (b + 63) mod size_t_max1
      in if bit_rounded_up > b then word_index bit_rounded_up else size_in_words m)"

definition set_range :: "bitmap \<Rightarrow> idx_t \<Rightarrow> idx_t \<Rightarrow> bitmap result" where
  "set_range m beg e =
     (if verify_range m beg e then
        (let beg_full_word = word_index_round_up m beg; end_full_word = word_index e
         in if beg_full_word < end_full_word then
              (let m1 = set_range_within_word m beg (bit_index beg_full_word);
                   m2 = set_range_of_words m1 beg_full_word end_full_word
               in Inr (set_range_within_word m2 (bit_index end_full_word) e))
            else
              (let boundary = min (bit_index beg_full_word) e;
                   m1 = set_range_within_word m beg boundary
               in Inr (set_range_within_word m1 boundary e)))
      else Inl (AssertFailed ''BitMap range error''))"

definition clear_range :: "bitmap \<Rightarrow> idx_t \<Rightarrow> idx_t \<Rightarrow> bitmap result" where
  "clear_range m beg e =
     (if verify_range m beg e then
        (let beg_full_word = word_index_round_up m beg; end_full_word = word_index e
         in if beg_full_word < end_full_word then
              (let m1 = clear_range_within_word m beg (bit_index beg_full_word);
                   m2 = clear_range_of_words m1 beg_full_word end_full_word
               in Inr (clear_range_within_word m2 (bit_index end_full_word) e))
            else
              (let boundary = min (bit_index beg_full_word) e;
                   m1 = clear_range_within_word m beg boundary
               in Inr (clear_range_within_word m1 boundary e)))
      else Inl (AssertFailed ''BitMap range error''))"

text \<open>
  The assertion of the large variants is on the difference of two unsigned
  indices, which wraps when the range has no full word.
\<close>

definition large_enough :: "idx_t \<Rightarrow> idx_t \<Rightarrow> bool" where
  "large_enough beg_full_word end_full_word \<longleftrightarrow>
     (end_full_word + size_t_max1 - beg_full_word) mod size_t_max1 \<ge> 32"

definition put_large_range ::
  "(bitmap \<Rightarrow> idx_t \<Rightarrow> idx_t \<Rightarrow> bitmap) \<Rightarrow> (bitmap \<Rightarrow> idx_t \<Rightarrow> idx_t \<Rightarrow> bitmap result) \<Rightarrow>
   bitmap \<Rightarrow> idx_t \<Rightarrow> idx_t \<Rightarrow> bitmap result" where
  "put_large_range within words m beg e =
     (if verify_range m beg e then
        (let beg_full_word = word_index_round_up m beg; end_full_word = word_index e
         in if large_enough beg_full_word end_full_word then
              (let m1 = within m beg (bit_index beg_full_word)
               in bind_result (words m1 beg_full_word end_full_word)
                    (\<lambda>m2. Inr (within m2 (bit_index end_full_word) e)))
            else Inl (AssertFailed ''the range must include at least 32 bytes''))
      else Inl (AssertFailed ''BitMap range error''))"

definition set_large_range :: "bitmap \<Rightarrow> idx_t \<Rightarrow> idx_t \<Rightarrow> bitmap result" where
  "set_large_range m beg e = put_large_range set_range_within_word set_large_range_of_words m beg e"

definition clear_large_range :: "bitmap \<Rightarrow> idx_t \<Rightarrow> idx_t \<Rightarrow> bitmap result" where
  "clear_large_range m beg e = put_large_range clear_range_within_word clear_large_range_of_words m beg e"

definition par_at_put_large_range :: "bitmap \<Rightarrow> idx_t \<Rightarrow> idx_t \<Rightarrow> bool \<Rightarrow> bitmap result" where
  "par_at_put_large_range m beg e val =
     put_large_range (\<lambda>m b e. par_put_range_within_word m b e val)
       (if val then set_large_range_of_words else clear_large_range_of_words) m beg e"

definition at_put_large_range :: "bitmap \<Rightarrow> idx_t \<Rightarrow> idx_t \<Rightarrow> bool \<Rightarrow> bitmap result" where
  "at_put_large_range m beg e val = (if val then set_large_range m beg e else clear_large_range m beg e)"

definition at_put_range :: "bitmap \<Rightarrow> idx_t \<Rightarrow> idx_t \<Rightarrow> bool \<Rightarrow> bitmap result" where
  "at_put_range m beg e val = (if val then set_range m beg e else clear_range m beg e)"

definition par_at_put_range :: "bitmap \<Rightarrow> idx_t \<Rightarrow> idx_t \<Rightarrow> bool \<Rightarrow> bitmap result" where
  "par_at_put_range m beg e val =
     (if verify_range m beg e then
        (let beg_full_word = word_index_round_up m beg; end_full_word = word_index e
         in if beg_full_word < end_full_word then
              (let m1 = par_put_range_within_word m beg (bit_index beg_full_word) val;
                   m2 = (if val then set_range_of_words m1 beg_full_word end_full_word
                         else clear_range_of_words m1 beg_full_word end_full_word)
               in Inr (par_put_range_within_word m2 (bit_index end_full_word) e val))
            else
              (let boundary = min (bit_index beg_full_word) e;
                   m1 = par_put_range_within_word m beg boundary val
               in Inr (par_put_range_within_word m1 boundary e val)))
      else Inl (AssertFailed ''BitMap range error''))"

definition set_range_hint :: "bitmap \<Rightarrow> idx_t \<Rightarrow> idx_t \<Rightarrow> range_size_hint \<Rightarrow> bitmap result" where
  "set_range_hint m beg e hint =
     (if hint = small_range \<and> int e - int beg = 1 then bm_set_bit m beg
      else if hint = large_range then set_large_range m beg e else set_range m beg e)"

definition clear_range_hint :: "bitmap \<Rightarrow> idx_t \<Rightarrow> idx_t \<Rightarrow> range_size_hint \<Rightarrow> bitmap result" where
  "clear_range_hint m beg e hint =
     (if hint = small_range \<and> int e - int beg = 1 then bm_clear_bit m beg
      else if hint = large_range then clear_large_range m beg e else clear_range m beg e)"

definition par_set_range :: "bitmap \<Rightarrow> idx_t \<Rightarrow> idx_t \<Rightarrow> range_size_hint \<Rightarrow> bitmap result" where
  "par_set_range m beg e hint =
     (if hint = small_range \<and> int e - int beg = 1
      then bind_result (par_at_put m beg True) (\<lambda>(m', _). Inr m')
      else if hint = large_range then par_at_put_large_range m beg e True
      else par_at_put_range m beg e True)"

definition par_clear_range :: "bitmap \<Rightarrow> idx_t \<Rightarrow> idx_t \<Rightarrow> range_size_hint \<Rightarrow> bitmap result" where
  "par_clear_range m beg e hint =
     (if hint = small_range \<and> int e - int beg = 1
      then bind_result (par_at_put m beg False) (\<lambda>(m', _). Inr m')
      else if hint = large_range then par_at_put_large_range m beg e False
      else par_at_put_range m beg e False)"

definition bm_clear :: "bitmap \<Rightarrow> bitmap" where
  "bm_clear m = clear_range_of_words m 0 (size_in_words m)"

definition bm_clear_large :: "bitmap \<Rightarrow> bitmap result" where
  "bm_clear_large m = clear_large_range_of_words m 0 (size_in_words m)"

text \<open>\<open>resize\<close>; \<open>garbage\<close> is what the newly allocated array holds.\<close>

definition bm_resize :: "bitmap \<Rightarrow> nat \<Rightarrow> (nat \<Rightarrow> bm_word) \<Rightarrow> bitmap" where
  "bm_resize m size_in_bits garbage =
     (let old_size_in_words = size_in_words m;
          new_size_in_words = size_in_words_of size_in_bits;
          k = min old_size_in_words new_size_in_words;
          m1 = \<lparr>bm_map = take k (bm_map m) @ map garbage [k..<new_size_in_words], bm_size = size_in_bits\<rparr>
      in if new_size_in_words > old_size_in_words
         then clear_range_of_words m1 old_size_in_words new_size_in_words else m1)"

definition new_bitmap :: "nat \<Rightarrow> (nat \<Rightarrow> bm_word) \<Rightarrow> bitmap" where
  "new_bitmap size_in_bits garbage = bm_resize \<lparr>bm_map = [], bm_size = 0\<rparr> size_in_bits garbage"

definition at_put_grow :: "bitmap \<Rightarrow> idx_t \<Rightarrow> bool \<Rightarrow> (nat \<Rightarrow> bm_word) \<Rightarrow> bitmap result" where
  "at_put_grow m offset val garbage =
     (let m1 = (if offset \<ge> bm_size m then bm_resize m (2 * max (bm_size m) offset) garbage else m)
      in at_put m1 offset val)"

section \<open>Searching\<close>

text \<open>
  The inner loops shift the word until its low bit is a one (a zero); the first
  never ends on a zero word, which is the value None.
\<close>

function find_one :: "bm_word \<Rightarrow> idx_t \<Rightarrow> idx_t option" where
  "find_one res res_offset =
     (if res AND 1 \<noteq> 0 then Some res_offset
      else if res = 0 then None
      else find_one (drop_bit 1 res) (res_offset + 1))"
  by pat_completeness auto
termination
  by (relation "measure (\<lambda>(res, res_offset). unat res)")
     (auto simp: unat_shift_less)

declare find_one.simps [simp del]

function find_zero :: "bm_word \<Rightarrow> idx_t \<Rightarrow> idx_t" where
  "find_zero res res_offset =
     (if res AND 1 \<noteq> 0 then find_zero (drop_bit 1 res) (res_offset + 1) else res_offset)"
  by pat_completeness auto
termination
  by (relation "measure (\<lambda>(res, res_offset). unat res)") (auto intro!: unat_shift_less)

declare find_zero.simps [simp del]

text \<open>The loop over the following words, for a one and for a zero.\<close>

function skip_zero_words :: "bm_word list \<Rightarrow> idx_t \<Rightarrow> idx_t \<Rightarrow> idx_t option option" where
  "skip_zero_words ws index r_index =
     (if index < r_index then
        (if ws ! index \<noteq> 0 then Some (find_one (ws ! index) (bit_index index))
         else skip_zero_words ws (index + 1) r_index)
      else None)"
  by pat_completeness auto
termination
  by (relation "measure (\<lambda>(ws, index, r_index). r_index - index)") auto

declare skip_zero_words.simps [simp del]

function skip_one_words :: "bm_word list \<Rightarrow> idx_t \<Rightarrow> idx_t \<Rightarrow> idx_t option" where
  "skip_one_words ws index r_index =
     (if index < r_index then
        (if ws ! index \<noteq> NOT 0 then Some (find_zero (ws ! index) (bit_index index))
         else skip_one_words ws (index + 1) r_index)
      else None)"
  by pat_completeness auto
termination
  by (relation "measure (\<lambda>(ws, index, r_index). r_index - index)") auto

declare skip_one_words.simps [simp del]

text \<open>
  Outer None: an assertion on the offsets that the source makes on entry fails; inner loops that do
  not end are None too.  The check under \<open>ASSERT\<close> that the bit found lies below the size is not
  made: it does not hold when the last word has a stale bit past the size, which \<open>resize\<close> can
  leave there.
\<close>

definition get_next_one_offset_inline :: "bitmap \<Rightarrow> idx_t \<Rightarrow> idx_t \<Rightarrow> idx_t option" where
  "get_next_one_offset_inline m l_offset r_offset =
     (if \<not> (l_offset \<le> bm_size m \<and> r_offset \<le> bm_size m \<and> l_offset \<le> r_offset) then None
      else if l_offset = r_offset then Some l_offset
      else
        (let index = word_index l_offset;
             r_index = word_index (r_offset - 1) + 1;
             res = drop_bit (bit_in_word l_offset) (bm_map m ! index)
         in if res \<noteq> 0 then map_option (\<lambda>off. min off r_offset) (find_one res l_offset)
            else
              (case skip_zero_words (bm_map m) (index + 1) r_index of
                 None \<Rightarrow> Some r_offset
               | Some off \<Rightarrow> map_option (\<lambda>off. min off r_offset) off)))"

definition left_n_bits :: "nat \<Rightarrow> bm_word" where
  "left_n_bits n =
     (let right_n_bits = (if n \<ge> 64 then 0 else push_bit n 1) - 1
      in push_bit (if n \<ge> 64 then 0 else 64 - n) right_n_bits)"

definition get_next_zero_offset_inline :: "bitmap \<Rightarrow> idx_t \<Rightarrow> idx_t \<Rightarrow> idx_t option" where
  "get_next_zero_offset_inline m l_offset r_offset =
     (if \<not> (l_offset \<le> bm_size m \<and> r_offset \<le> bm_size m \<and> l_offset \<le> r_offset) then None
      else if l_offset = r_offset then Some l_offset
      else
        (let index = word_index l_offset;
             r_index = word_index (r_offset - 1) + 1;
             pos = bit_in_word l_offset;
             res = drop_bit pos (bm_map m ! index) OR left_n_bits pos
         in if res \<noteq> NOT 0 then Some (min (find_zero res l_offset) r_offset)
            else
              (case skip_one_words (bm_map m) (index + 1) r_index of
                 None \<Rightarrow> Some r_offset
               | Some off \<Rightarrow> Some (min off r_offset))))"

definition get_next_one_offset_inline_aligned_right :: "bitmap \<Rightarrow> idx_t \<Rightarrow> idx_t \<Rightarrow> idx_t option" where
  "get_next_one_offset_inline_aligned_right m l_offset r_offset =
     (if \<not> (verify_range m l_offset r_offset \<and> bit_in_word r_offset = 0) then None
      else if l_offset = r_offset then Some l_offset
      else
        (let index = word_index l_offset;
             r_index = word_index r_offset;
             res = drop_bit (bit_in_word l_offset) (bm_map m ! index)
         in if res \<noteq> 0 then find_one res l_offset
            else
              (case skip_zero_words (bm_map m) (index + 1) r_index of
                 None \<Rightarrow> Some r_offset
               | Some off \<Rightarrow> off)))"

section \<open>Whole maps\<close>

definition same_size :: "bitmap \<Rightarrow> bitmap \<Rightarrow> 'a \<Rightarrow> 'a result" where
  "same_size m other r =
     (if bm_size m = bm_size other then Inr r else Inl (AssertFailed ''must have same size''))"

definition bm_contains :: "bitmap \<Rightarrow> bitmap \<Rightarrow> bool result" where
  "bm_contains m other =
     same_size m other
       (list_all (\<lambda>i. bm_map m ! i OR bm_map other ! i = bm_map m ! i) [0..<size_in_words m])"

definition bm_intersects :: "bitmap \<Rightarrow> bitmap \<Rightarrow> bool result" where
  "bm_intersects m other =
     same_size m other
       (list_ex (\<lambda>i. bm_map m ! i AND bm_map other ! i \<noteq> 0) [0..<size_in_words m])"

text \<open>\<open>for (index = 0; index < size; index++) dest_map[index] = f(index)\<close>.\<close>

fun map_words :: "(nat \<Rightarrow> bm_word \<Rightarrow> bm_word) \<Rightarrow> nat list \<Rightarrow> bm_word list \<Rightarrow> bm_word list" where
  "map_words f [] ws = ws"
| "map_words f (i # is) ws = map_words f is (ws[i := f i (ws ! i)])"

definition put_words :: "bitmap \<Rightarrow> (nat \<Rightarrow> bm_word \<Rightarrow> bm_word) \<Rightarrow> bitmap" where
  "put_words m f = m\<lparr>bm_map := map_words f [0..<size_in_words m] (bm_map m)\<rparr>"

definition set_union :: "bitmap \<Rightarrow> bitmap \<Rightarrow> bitmap result" where
  "set_union m other = same_size m other (put_words m (\<lambda>i w. w OR bm_map other ! i))"

definition set_difference :: "bitmap \<Rightarrow> bitmap \<Rightarrow> bitmap result" where
  "set_difference m other = same_size m other (put_words m (\<lambda>i w. w AND NOT (bm_map other ! i)))"

definition set_intersection :: "bitmap \<Rightarrow> bitmap \<Rightarrow> bitmap result" where
  "set_intersection m other = same_size m other (put_words m (\<lambda>i w. w AND bm_map other ! i))"

definition set_intersection_at_offset :: "bitmap \<Rightarrow> bitmap \<Rightarrow> idx_t \<Rightarrow> bitmap result" where
  "set_intersection_at_offset m other offset =
     (if bm_size other < offset then Inl (AssertFailed ''offset not in range'')
      else if bm_size other - offset < bm_size m then Inl (AssertFailed ''other not large enough'')
      else if offset mod 64 \<noteq> 0 then Inl (VMExit ''Only handle aligned cases so far.'')
      else Inr (put_words m (\<lambda>i w. w AND bm_map other ! (word_index offset + i))))"

text \<open>The \<open>_with_result\<close> variants also say whether a word changed.\<close>

definition words_changed :: "bitmap \<Rightarrow> (nat \<Rightarrow> bm_word \<Rightarrow> bm_word) \<Rightarrow> bool" where
  "words_changed m f = list_ex (\<lambda>i. f i (bm_map m ! i) \<noteq> bm_map m ! i) [0..<size_in_words m]"

definition set_union_with_result :: "bitmap \<Rightarrow> bitmap \<Rightarrow> (bitmap \<times> bool) result" where
  "set_union_with_result m other =
     (let f = (\<lambda>i w. w OR bm_map other ! i) in same_size m other (put_words m f, words_changed m f))"

definition set_difference_with_result :: "bitmap \<Rightarrow> bitmap \<Rightarrow> (bitmap \<times> bool) result" where
  "set_difference_with_result m other =
     (let f = (\<lambda>i w. w AND NOT (bm_map other ! i)) in same_size m other (put_words m f, words_changed m f))"

definition set_intersection_with_result :: "bitmap \<Rightarrow> bitmap \<Rightarrow> (bitmap \<times> bool) result" where
  "set_intersection_with_result m other =
     (let f = (\<lambda>i w. w AND bm_map other ! i) in same_size m other (put_words m f, words_changed m f))"

definition set_from :: "bitmap \<Rightarrow> bitmap \<Rightarrow> bitmap result" where
  "set_from m other = same_size m other (put_words m (\<lambda>i w. bm_map other ! i))"

definition is_same :: "bitmap \<Rightarrow> bitmap \<Rightarrow> bool result" where
  "is_same m other =
     same_size m other (list_all (\<lambda>i. bm_map m ! i = bm_map other ! i) [0..<size_in_words m])"

definition right_n_bits :: "nat \<Rightarrow> bm_word" where
  "right_n_bits n = (if n \<ge> 64 then 0 else push_bit n 1) - 1"

function is_full_loop :: "bm_word list \<Rightarrow> nat \<Rightarrow> nat \<Rightarrow> bool" where
  "is_full_loop ws i rest =
     (if rest \<ge> 64 then (if ws ! i \<noteq> NOT 0 then False else is_full_loop ws (i + 1) (rest - 64))
      else rest = 0 \<or> ws ! i OR NOT (right_n_bits rest) = NOT 0)"
  by pat_completeness auto
termination
  by (relation "measure (\<lambda>(ws, i, rest). rest)") auto

declare is_full_loop.simps [simp del]

definition is_full :: "bitmap \<Rightarrow> bool" where
  "is_full m = is_full_loop (bm_map m) 0 (bm_size m)"

function is_empty_loop :: "bm_word list \<Rightarrow> nat \<Rightarrow> nat \<Rightarrow> bool" where
  "is_empty_loop ws i rest =
     (if rest \<ge> 64 then (if ws ! i \<noteq> 0 then False else is_empty_loop ws (i + 1) (rest - 64))
      else rest = 0 \<or> ws ! i AND right_n_bits rest = 0)"
  by pat_completeness auto
termination
  by (relation "measure (\<lambda>(ws, i, rest). rest)") auto

declare is_empty_loop.simps [simp del]

definition bm_is_empty :: "bitmap \<Rightarrow> bool" where
  "bm_is_empty m = is_empty_loop (bm_map m) 0 (bm_size m)"

section \<open>Iteration\<close>

text \<open>
  A closure takes the map and its own state and may change both; the word is read
  again after every call, as in the source.
\<close>

type_synonym 's bm_closure = "bitmap \<times> 's \<Rightarrow> idx_t \<Rightarrow> (bitmap \<times> 's) \<times> bool"

function iter_word ::
  "'s bm_closure \<Rightarrow> idx_t \<Rightarrow> idx_t \<Rightarrow> idx_t \<Rightarrow> bm_word \<Rightarrow> bitmap \<times> 's \<Rightarrow> (bitmap \<times> 's) \<times> bool" where
  "iter_word do_bit right index offset rest ms =
     (if offset < right \<and> rest \<noteq> 0 then
        (if rest AND 1 \<noteq> 0 then
           (let (ms', ok) = do_bit ms offset
            in if \<not> ok then (ms', False)
               else iter_word do_bit right index (offset + 1)
                      (drop_bit 1 (drop_bit (offset mod 64) (bm_map (fst ms') ! index))) ms')
         else iter_word do_bit right index (offset + 1) (drop_bit 1 rest) ms)
      else (ms, True))"
  by pat_completeness auto
termination
  by (relation "measure (\<lambda>(do_bit, right, index, offset, rest, ms). right - offset)") auto

declare iter_word.simps [simp del]

function iter_words ::
  "'s bm_closure \<Rightarrow> idx_t \<Rightarrow> idx_t \<Rightarrow> idx_t \<Rightarrow> idx_t \<Rightarrow> bitmap \<times> 's \<Rightarrow> (bitmap \<times> 's) \<times> bool" where
  "iter_words do_bit right endIndex index offset ms =
     (if offset < right \<and> index < endIndex then
        (let (ms', ok) = iter_word do_bit right index offset
                           (drop_bit (offset mod 64) (bm_map (fst ms) ! index)) ms
         in if \<not> ok then (ms', False)
            else iter_words do_bit right endIndex (index + 1) (bit_index (index + 1)) ms')
      else (ms, True))"
  by pat_completeness auto
termination
  by (relation "measure (\<lambda>(do_bit, right, endIndex, index, offset, ms). endIndex - index)") auto

declare iter_words.simps [simp del]

definition bm_iterate ::
  "'s bm_closure \<Rightarrow> idx_t \<Rightarrow> idx_t \<Rightarrow> bitmap \<times> 's \<Rightarrow> ((bitmap \<times> 's) \<times> bool) result" where
  "bm_iterate do_bit leftOffset rightOffset ms =
     (if verify_range (fst ms) leftOffset rightOffset
      then Inr (iter_words do_bit rightOffset
                  (min (word_index rightOffset + 1) (size_in_words (fst ms)))
                  (word_index leftOffset) leftOffset ms)
      else Inl (AssertFailed ''BitMap range error''))"

section \<open>Counting\<close>

text \<open>\<open>while ((w & 1) == 0) w >>= 1\<close>, for a word that is not zero.\<close>

function strip_zeros :: "bm_word \<Rightarrow> bm_word" where
  "strip_zeros w = (if w \<noteq> 0 \<and> w AND 1 = 0 then strip_zeros (drop_bit 1 w) else w)"
  by pat_completeness auto
termination
  by (relation "measure unat") (auto intro!: unat_shift_less)

declare strip_zeros.simps [simp del]

lemma strip_zeros_le: "unat (strip_zeros w) \<le> unat w"
proof (induction w rule: strip_zeros.induct)
  case (1 w)
  then show ?case
    using unat_shift_less[of w] by (subst strip_zeros.simps) (auto dest: less_imp_le order_trans)
qed

lemma strip_zeros_0: "strip_zeros w = 0 \<longleftrightarrow> w = 0"
proof (induction w rule: strip_zeros.induct)
  case (1 w)
  have "drop_bit 1 w \<noteq> 0" if "w \<noteq> 0" "w AND 1 = 0"
  proof
    assume "drop_bit 1 w = 0"
    then have "w = take_bit 1 w" using bits_ident[of 1 w] by simp
    then show False using that by (simp add: and_one_eq take_bit_Suc mod_2_eq_odd)
  qed
  then show ?case using 1 by (subst strip_zeros.simps) auto
qed

function num_set_bits :: "bm_word \<Rightarrow> nat \<Rightarrow> nat" where
  "num_set_bits w bits =
     (if w \<noteq> 0 then num_set_bits (drop_bit 1 (strip_zeros w)) (bits + 1) else bits)"
  by pat_completeness auto
termination
proof (relation "measure (\<lambda>(w, bits). unat w)")
  fix w :: bm_word and bits :: nat
  assume "w \<noteq> 0"
  then have "unat (drop_bit 1 (strip_zeros w)) < unat w"
    using unat_shift_less[of "strip_zeros w"] strip_zeros_le[of w] by (simp add: strip_zeros_0)
  then show "((drop_bit 1 (strip_zeros w), bits + 1), w, bits) \<in> measure (\<lambda>(w, bits). unat w)" by simp
qed simp

declare num_set_bits.simps [simp del]

definition pop_count_table :: "nat list" where
  "pop_count_table = map (\<lambda>i. num_set_bits (of_nat i) 0) [0..<256]"

definition num_set_bits_from_table :: "bm_word \<Rightarrow> nat" where
  "num_set_bits_from_table c = pop_count_table ! unat c"

text \<open>The eight bytes of a word, low byte first.\<close>

fun count_bytes :: "nat \<Rightarrow> bm_word \<Rightarrow> nat \<Rightarrow> nat" where
  "count_bytes 0 w sm = sm"
| "count_bytes (Suc j) w sm = count_bytes j (drop_bit 8 w) (sm + num_set_bits_from_table (w AND 255))"

definition count_one_bits :: "bitmap \<Rightarrow> nat" where
  "count_one_bits m = fold (\<lambda>i sm. count_bytes 8 (bm_map m ! i) sm) [0..<size_in_words m] 0"

end
