(* ===== verification/BitMapFacts.thy ===== *)
theory BitMapFacts
  imports BitMaps
begin

text \<open>
  What the word-level operations of the bit maps do bit by bit.  The relation
  \<open>range_put\<close> says that one map is another with a range of bits set to a
  value; the three-part loops of the range operations are compositions of it.
\<close>

section \<open>Bits\<close>

definition bm_wf :: "bitmap \<Rightarrow> bool" where
  "bm_wf m \<longleftrightarrow> length (bm_map m) = size_in_words m \<and> bm_size m + 64 \<le> size_t_max1"

lemmas index_defs = word_index_def bit_in_word_def bit_index_def size_in_words_def size_in_words_of_def

lemma bm_at_iff: "bm_at m b \<longleftrightarrow> bit (bm_map m ! (b div 64)) (b mod 64)"
  by (simp add: bm_at_def bit_mask_def word_index_def bit_in_word_def bit_iff_and_push_bit_not_eq_0)

lemma bm_size_words: "bm_size m \<le> 64 * size_in_words m"
  by (simp add: index_defs)

lemma word_in_map: "bm_wf m \<Longrightarrow> b < bm_size m \<Longrightarrow> b div 64 < length (bm_map m)"
  by (simp add: bm_wf_def index_defs)

lemma upd_word_simps [simp]:
  "bm_size (upd_word m i w) = bm_size m" "length (bm_map (upd_word m i w)) = length (bm_map m)"
  "size_in_words (upd_word m i w) = size_in_words m"
  by (simp_all add: upd_word_def size_in_words_def)

lemma upd_word_wf [simp]: "bm_wf (upd_word m i w) \<longleftrightarrow> bm_wf m"
  by (simp add: bm_wf_def)

lemma bm_at_upd_word:
  "i < length (bm_map m) \<Longrightarrow>
   bm_at (upd_word m i w) b \<longleftrightarrow> (if b div 64 = i then bit w (b mod 64) else bm_at m b)"
  by (simp add: bm_at_iff upd_word_def nth_list_update)

lemma bit_bit_mask: "bit (bit_mask b) n \<longleftrightarrow> n = b mod 64"
  by (auto simp: bit_mask_def bit_in_word_def bit_simps)

lemma same_bit: "(i :: nat) div 64 = b div 64 \<Longrightarrow> i mod 64 = b mod 64 \<longleftrightarrow> i = b"
  by (metis div_mod_decomp)

section \<open>Setting a range of bits\<close>

definition range_put :: "bitmap \<Rightarrow> idx_t \<Rightarrow> idx_t \<Rightarrow> bool \<Rightarrow> bitmap \<Rightarrow> bool" where
  "range_put m beg e val m' \<longleftrightarrow>
     bm_wf m' \<and> bm_size m' = bm_size m \<and>
     (\<forall>i < 64 * size_in_words m. bm_at m' i = (if beg \<le> i \<and> i < e then val else bm_at m i))"

lemma range_put_empty: "bm_wf m \<Longrightarrow> range_put m b b val m"
  by (auto simp: range_put_def)

lemma range_put_trans:
  "range_put m a b val m1 \<Longrightarrow> range_put m1 b c val m2 \<Longrightarrow> a \<le> b \<Longrightarrow> b \<le> c \<Longrightarrow> range_put m a c val m2"
  by (auto simp: range_put_def size_in_words_def)

lemma range_put_at: "range_put m beg e val m' \<Longrightarrow> i < bm_size m \<Longrightarrow>
  bm_at m' i = (if beg \<le> i \<and> i < e then val else bm_at m i)"
  using bm_size_words[of m] by (auto simp: range_put_def)

lemma bit_inverted_mask:
  assumes "n < 64"
  shows "bit (inverted_bit_mask_for_range beg e) n \<longleftrightarrow>
    n < beg mod 64 \<or> e mod 64 \<noteq> 0 \<and> e mod 64 \<le> n"
proof -
  have m: "bit_mask b - 1 = mask (b mod 64)" for b
    by (simp add: bit_mask_def bit_in_word_def mask_eq_exp_minus_1)
  show ?thesis
    using assms by (auto simp: inverted_bit_mask_for_range_def m bit_simps bit_in_word_def Let_def)
qed

lemma within_word_arith:
  fixes beg e i :: nat
  assumes "beg < e" "e \<le> (beg div 64 + 1) * 64"
  shows "beg \<le> i \<and> i < e \<longleftrightarrow>
    i div 64 = beg div 64 \<and> \<not> (i mod 64 < beg mod 64 \<or> e mod 64 \<noteq> 0 \<and> e mod 64 \<le> i mod 64)"
proof -
  obtain q a j c k d where
    b: "beg = 64 * q + a" "a < 64" "beg div 64 = q" "beg mod 64 = a" and
    i: "i = 64 * j + c" "c < 64" "i div 64 = j" "i mod 64 = c" and
    e: "e = 64 * k + d" "d < 64" "e div 64 = k" "e mod 64 = d"
    by (metis div_mod_decomp mod_less_divisor mult.commute zero_less_numeral)
  have "d = 0 \<and> k = q + 1 \<or> d \<noteq> 0 \<and> k = q"
  proof -
    consider "k < q" | "k = q" | "k = q + 1" | "k > q + 1" by linarith
    then show ?thesis using assms b(1,2) e(1,2) unfolding b(3) by cases auto
  qed
  moreover have "j < q \<or> j = q \<or> q < j" by linarith
  ultimately show ?thesis
    unfolding b(3,4) i(3,4) e(4) using b(1,2) i(1,2) e(1,2) by (elim disjE conjE) auto
qed

lemma par_put_within:
  assumes "bm_wf m" "beg \<le> e" "e \<le> (beg div 64 + 1) * 64" "beg < e \<longrightarrow> beg div 64 < length (bm_map m)"
  shows "range_put m beg e val (par_put_range_within_word m beg e val)"
proof (cases "beg = e")
  case True
  then show ?thesis using assms by (simp add: par_put_range_within_word_def range_put_empty)
next
  case False
  then have lt: "beg < e" using assms(2) by simp
  let ?w = "bm_map m ! (beg div 64)" and ?mr = "inverted_bit_mask_for_range beg e"
  have "bm_at (par_put_range_within_word m beg e val) i = (if beg \<le> i \<and> i < e then val else bm_at m i)" for i
  proof -
    have "bm_at (par_put_range_within_word m beg e val) i =
        (if i div 64 = beg div 64 then bit (if val then ?w OR NOT ?mr else ?w AND ?mr) (i mod 64) else bm_at m i)"
      using False lt assms(4)
      by (simp add: par_put_range_within_word_def Let_def bm_at_upd_word word_index_def)
    also have "\<dots> = (if i div 64 = beg div 64 \<and> \<not> bit ?mr (i mod 64) then val else bm_at m i)"
      by (auto simp: bit_simps bm_at_iff)
    also have "\<dots> = (if beg \<le> i \<and> i < e then val else bm_at m i)"
      unfolding within_word_arith[OF lt assms(3)] by (simp add: bit_inverted_mask)
    finally show ?thesis .
  qed
  then show ?thesis
    using assms(1) by (simp add: range_put_def par_put_range_within_word_def Let_def)
qed

lemma within_word_eqs:
  "set_range_within_word m beg e = par_put_range_within_word m beg e True"
  "clear_range_within_word m beg e = par_put_range_within_word m beg e False"
  by (simp_all add: set_range_within_word_def clear_range_within_word_def par_put_range_within_word_def Let_def)

lemma fill_words_length [simp]: "length (fill_words ws i e v) = length ws"
  by (induction ws i e v rule: fill_words.induct) (subst fill_words.simps, simp)

lemma fill_words_nth:
  "e \<le> length ws \<Longrightarrow> j < length ws \<Longrightarrow> fill_words ws i e v ! j = (if i \<le> j \<and> j < e then v else ws ! j)"
proof (induction ws i e v rule: fill_words.induct)
  case (1 ws i e v)
  then show ?case by (subst fill_words.simps) (auto simp: nth_list_update)
qed

lemma words_put:
  assumes "bm_wf m" "e \<le> length (bm_map m)" "length ws = length (bm_map m)"
    "\<And>j. j < length ws \<Longrightarrow> ws ! j = (if beg \<le> j \<and> j < e then (if val then NOT 0 else 0) else bm_map m ! j)"
  shows "range_put m (bit_index beg) (bit_index e) val (m\<lparr>bm_map := ws\<rparr>)"
proof -
  have "bit (ws ! (i div 64)) (i mod 64) =
      (if bit_index beg \<le> i \<and> i < bit_index e then val else bit (bm_map m ! (i div 64)) (i mod 64))"
    if "i < 64 * size_in_words m" for i
  proof -
    have l: "i div 64 < length ws" using that assms(1,3) by (simp add: bm_wf_def less_mult_imp_div_less mult.commute)
    have "bit_index beg \<le> i \<longleftrightarrow> beg \<le> i div 64" "i < bit_index e \<longleftrightarrow> i div 64 < e"
      by (simp_all add: bit_index_def less_eq_div_iff_mult_less_eq div_less_iff_less_mult)
    then show ?thesis using assms(4)[OF l] by (simp add: bit_simps)
  qed
  then show ?thesis
    using assms(1,3) by (simp add: range_put_def bm_wf_def size_in_words_def bm_at_iff)
qed

lemma range_of_words_put:
  assumes "bm_wf m" "e \<le> length (bm_map m)"
  shows "range_put m (bit_index beg) (bit_index e) True (set_range_of_words m beg e)"
    "range_put m (bit_index beg) (bit_index e) False (clear_range_of_words m beg e)"
  unfolding set_range_of_words_def clear_range_of_words_def
  using assms by (intro words_put; simp add: fill_words_nth)+

lemma memset_words_put:
  assumes "bm_wf m" "beg \<le> e" "e \<le> length (bm_map m)"
  shows "\<exists>m'. memset_words m beg e (if val then NOT 0 else 0) = Inr m' \<and>
    range_put m (bit_index beg) (bit_index e) val m'"
proof -
  let ?ws = "take beg (bm_map m) @ replicate (e - beg) (if val then NOT 0 else 0) @ drop e (bm_map m)"
  have "range_put m (bit_index beg) (bit_index e) val (m\<lparr>bm_map := ?ws\<rparr>)"
    using assms by (intro words_put) (auto simp: nth_append nth_take)
  then show ?thesis using assms by (simp add: memset_words_def)
qed

lemma word_index_round_up:
  assumes "bm_wf m" "b \<le> bm_size m"
  shows "word_index_round_up m b = (b + 63) div 64"
  using assms by (simp add: word_index_round_up_def word_index_def bm_wf_def)

lemma range_words_arith:
  fixes beg e :: nat
  shows "beg \<le> bit_index ((beg + 63) div 64)" "bit_index ((beg + 63) div 64) \<le> (beg div 64 + 1) * 64"
    "bit_index (e div 64) \<le> e" "e \<le> (bit_index (e div 64) div 64 + 1) * 64"
proof -
  have "(beg + 63) div 64 \<le> (beg + 64) div 64" by (rule div_le_mono) simp
  then have "(beg + 63) div 64 \<le> beg div 64 + 1" by simp
  then show "bit_index ((beg + 63) div 64) \<le> (beg div 64 + 1) * 64"
    unfolding bit_index_def by (rule mult_le_mono1)
qed (simp_all add: bit_index_def)

lemma range_put_size: "range_put m a b val m' \<Longrightarrow> bm_size m' = bm_size m"
  and range_put_wf: "range_put m a b val m' \<Longrightarrow> bm_wf m'"
  and range_put_length: "bm_wf m \<Longrightarrow> range_put m a b val m' \<Longrightarrow> length (bm_map m') = length (bm_map m)"
  by (auto simp: range_put_def bm_wf_def size_in_words_def)

text \<open>
  Composing the three parts: the partial word up to the first boundary, the whole
  words, the partial word at the end.
\<close>

lemma three_parts:
  assumes "bm_wf m" "verify_range m beg e"
    "(beg + 63) div 64 \<le> e div 64"
    "\<And>m'. range_put m beg (bit_index ((beg + 63) div 64)) val m' \<Longrightarrow>
       range_put m' (bit_index ((beg + 63) div 64)) (bit_index (e div 64)) val (words m')"
  shows "range_put m beg e val
    (par_put_range_within_word
       (words (par_put_range_within_word m beg (bit_index ((beg + 63) div 64)) val)) (bit_index (e div 64)) e val)"
proof -
  have sz: "e \<le> bm_size m" "beg \<le> e" using assms(2) by (auto simp: verify_range_def)
  let ?m1 = "par_put_range_within_word m beg (bit_index ((beg + 63) div 64)) val"
  have le: "bit_index ((beg + 63) div 64) \<le> bit_index (e div 64)" using assms(3) by (simp add: bit_index_def)
  have p1: "range_put m beg (bit_index ((beg + 63) div 64)) val ?m1"
    using assms(1) sz range_words_arith(1,2)[of beg] range_words_arith(3,4)[of e] le word_in_map[of m beg]
    by (intro par_put_within) auto
  have p2: "range_put m beg (bit_index (e div 64)) val (words ?m1)"
    using range_put_trans[OF p1 assms(4)[OF p1]] range_words_arith le by auto
  have "range_put (words ?m1) (bit_index (e div 64)) e val
      (par_put_range_within_word (words ?m1) (bit_index (e div 64)) e val)"
  proof (intro par_put_within)
    have "bit_index (e div 64) < e \<Longrightarrow> e div 64 < length (bm_map m)"
      using assms(1) sz by (auto simp: bm_wf_def index_defs)
    then show "bit_index (e div 64) < e \<longrightarrow> bit_index (e div 64) div 64 < length (bm_map (words ?m1))"
      using range_put_length[OF assms(1) p2] by (simp add: bit_index_def)
  qed (use p2 range_words_arith in \<open>auto intro: range_put_wf\<close>)
  then show ?thesis using range_put_trans[OF p2] range_words_arith le sz by (meson order_trans)
qed

lemma two_parts:
  assumes "bm_wf m" "verify_range m beg e" "\<not> (beg + 63) div 64 < e div 64"
  defines "b \<equiv> min (bit_index ((beg + 63) div 64)) e"
  shows "range_put m beg e val
    (par_put_range_within_word (par_put_range_within_word m beg b val) b e val)"
proof -
  have sz: "e \<le> bm_size m" "beg \<le> e" using assms(2) by (auto simp: verify_range_def)
  have b: "beg \<le> b" "b \<le> e" "b \<le> (beg div 64 + 1) * 64"
    using range_words_arith(1,2)[of beg] range_words_arith(3,4)[of e] sz by (auto simp: b_def)
  have p1: "range_put m beg b val (par_put_range_within_word m beg b val)"
    using assms(1) sz b word_in_map[of m beg] by (intro par_put_within) auto
  have "e \<le> (b div 64 + 1) * 64"
    using assms(3) by (auto simp: b_def bit_index_def min_def)
  then have "range_put (par_put_range_within_word m beg b val) b e val
      (par_put_range_within_word (par_put_range_within_word m beg b val) b e val)"
    using p1 b sz word_in_map[of m b] assms(1) range_put_length[OF assms(1) p1] range_put_wf[OF p1]
    by (intro par_put_within) auto
  then show ?thesis using range_put_trans[OF p1] b by blast
qed

lemma par_at_put_range_put:
  assumes "bm_wf m" "verify_range m beg e"
  shows "\<exists>m'. par_at_put_range m beg e val = Inr m' \<and> range_put m beg e val m'"
proof (cases "(beg + 63) div 64 < e div 64")
  case True
  have b: "beg \<le> bm_size m" "e div 64 \<le> length (bm_map m)"
    using assms by (auto simp: verify_range_def bm_wf_def index_defs)
  have "range_put m beg e val (par_put_range_within_word
      ((\<lambda>m1. if val then set_range_of_words m1 ((beg + 63) div 64) (e div 64)
            else clear_range_of_words m1 ((beg + 63) div 64) (e div 64))
       (par_put_range_within_word m beg (bit_index ((beg + 63) div 64)) val)) (bit_index (e div 64)) e val)"
    using True b assms(1) range_of_words_put range_put_wf range_put_length
    by (intro three_parts[OF assms]) (auto simp: less_imp_le)
  then show ?thesis
    using True assms b(1)
    by (simp add: par_at_put_range_def word_index_round_up word_index_def Let_def)
next
  case False
  have b: "beg \<le> bm_size m" using assms by (auto simp: verify_range_def)
  show ?thesis
    using False assms b two_parts[OF assms False, of val]
    by (simp add: par_at_put_range_def word_index_round_up word_index_def Let_def)
qed

lemma at_put_range_par: "at_put_range m beg e val = par_at_put_range m beg e val"
  by (simp add: at_put_range_def set_range_def clear_range_def par_at_put_range_def within_word_eqs Let_def)

lemma set_range_put:
  "bm_wf m \<Longrightarrow> verify_range m beg e \<Longrightarrow> \<exists>m'. set_range m beg e = Inr m' \<and> range_put m beg e True m'"
  and clear_range_put:
  "bm_wf m \<Longrightarrow> verify_range m beg e \<Longrightarrow> \<exists>m'. clear_range m beg e = Inr m' \<and> range_put m beg e False m'"
  using par_at_put_range_put[of m beg e] at_put_range_par[of m beg e]
  by (simp_all add: at_put_range_def) metis+

end
