(* ===== verification/BitMapSearch.thy ===== *)
theory BitMapSearch
  imports BitMapFacts
begin

text \<open>
  The searches of the bit maps find the first bit with the value they look for,
  and the range operations with a hint do what the plain ones do.
\<close>

section \<open>The first bit of a word\<close>

lemma and_1_bit: "w AND 1 \<noteq> 0 \<longleftrightarrow> bit (w :: 'a::len word) 0"
  by (simp add: and_one_eq bit_0 odd_iff_mod_2_eq_one)

lemma find_one_spec:
  "res \<noteq> 0 \<Longrightarrow> \<exists>k. find_one res off = Some (off + k) \<and> bit res k \<and> (\<forall>j < k. \<not> bit res j)"
proof (induction res off rule: find_one.induct)
  case (1 res off)
  show ?case
  proof (cases "bit res 0")
    case True
    then show ?thesis by (intro exI[of _ 0]) (subst find_one.simps, simp add: and_1_bit)
  next
    case False
    have "drop_bit 1 res \<noteq> 0"
    proof
      assume "drop_bit 1 res = 0"
      then have "\<not> bit res (Suc n)" for n using bit_drop_bit_eq[of 1 res] by (simp add: fun_eq_iff)
      then have "res = 0" using False by (intro bit_word_eqI) (metis bit_0_eq bot_nat_0.not_eq_extremum gr0_implies_Suc bot_apply bot_bool_def)
      then show False using 1(2) by simp
    qed
    then obtain k where k: "find_one (drop_bit 1 res) (off + 1) = Some (off + 1 + k)"
        "bit (drop_bit 1 res) k" "\<forall>j < k. \<not> bit (drop_bit 1 res) j"
      using 1 False by (auto simp: and_1_bit)
    have "\<forall>j < Suc k. \<not> bit res j" using k(3) False by (auto simp: less_Suc_eq_0_disj bit_drop_bit_eq)
    then show ?thesis
      using k(1,2) 1(2) False
      by (intro exI[of _ "Suc k"]) (subst find_one.simps, simp add: and_1_bit bit_drop_bit_eq)
  qed
qed

lemma find_zero_spec:
  "\<exists>k. find_zero res off = off + k \<and> \<not> bit res k \<and> (\<forall>j < k. bit res j)"
proof (induction res off rule: find_zero.induct)
  case (1 res off)
  show ?case
  proof (cases "bit res 0")
    case False
    then show ?thesis by (intro exI[of _ 0]) (subst find_zero.simps, simp add: and_1_bit)
  next
    case True
    then obtain k where k: "find_zero (drop_bit 1 res) (off + 1) = off + 1 + k"
        "\<not> bit (drop_bit 1 res) k" "\<forall>j < k. bit (drop_bit 1 res) j"
      using 1 by (auto simp: and_1_bit)
    have "\<forall>j < Suc k. bit res j" using k(3) True by (auto simp: less_Suc_eq_0_disj bit_drop_bit_eq)
    then show ?thesis
      using k(1,2) True
      by (intro exI[of _ "Suc k"]) (subst find_zero.simps, simp add: and_1_bit bit_drop_bit_eq)
  qed
qed

section \<open>The first bit of a range\<close>

text \<open>\<open>off\<close> is the first position from \<open>l\<close> on whose bit is \<open>v\<close>, or \<open>r\<close>.\<close>

definition is_next :: "bitmap \<Rightarrow> bool \<Rightarrow> idx_t \<Rightarrow> idx_t \<Rightarrow> idx_t \<Rightarrow> bool" where
  "is_next m v l r off \<longleftrightarrow>
     l \<le> off \<and> off \<le> r \<and> (\<forall>i. l \<le> i \<and> i < off \<longrightarrow> bm_at m i \<noteq> v) \<and> (off < r \<longrightarrow> bm_at m off = v)"

lemma is_next_unique: "is_next m v l r a \<Longrightarrow> is_next m v l r b \<Longrightarrow> a = b"
  unfolding is_next_def by (metis le_neq_implies_less linorder_neqE_nat order_trans less_le_trans)

lemma is_next_min:
  assumes "l \<le> r" "l \<le> off" "\<And>i. l \<le> i \<Longrightarrow> i < off \<Longrightarrow> bm_at m i \<noteq> v" "off < r \<Longrightarrow> bm_at m off = v"
  shows "is_next m v l r (min off r)"
  using assms by (auto simp: is_next_def)

lemma bm_at_word: "k < 64 \<Longrightarrow> bm_at m (64 * j + k) \<longleftrightarrow> bit (bm_map m ! j) k"
  by (simp add: bm_at_iff)

lemma find_upt_Some:
  assumes "find P [i..<r] = Some j"
  shows "i \<le> j" "j < r" "P j" "\<And>j'. i \<le> j' \<Longrightarrow> j' < j \<Longrightarrow> \<not> P j'"
proof -
  obtain n where n: "n < r - i" "P (i + n)" "j = i + n" "\<And>n'. n' < n \<Longrightarrow> \<not> P (i + n')"
    using assms by (auto simp: find_Some_iff)
  show "i \<le> j" "j < r" "P j" using n by auto
  show "\<not> P j'" if "i \<le> j'" "j' < j" for j' using n(3) n(4)[of "j' - i"] that by simp
qed

lemma find_upt_None: "find P [i..<r] = None \<longleftrightarrow> (\<forall>j. i \<le> j \<and> j < r \<longrightarrow> \<not> P j)"
  by (auto simp: find_None_iff)

lemma skip_zero_words_find:
  "skip_zero_words ws i r =
     (case find (\<lambda>j. ws ! j \<noteq> 0) [i..<r] of
        None \<Rightarrow> None | Some j \<Rightarrow> Some (find_one (ws ! j) (bit_index j)))"
  by (induction ws i r rule: skip_zero_words.induct)
     (subst skip_zero_words.simps, simp add: upt_conv_Cons)

lemma skip_one_words_find:
  "skip_one_words ws i r =
     (case find (\<lambda>j. ws ! j \<noteq> NOT 0) [i..<r] of
        None \<Rightarrow> None | Some j \<Rightarrow> Some (find_zero (ws ! j) (bit_index j)))"
  by (induction ws i r rule: skip_one_words.induct)
     (subst skip_one_words.simps, simp add: upt_conv_Cons)

text \<open>
  The shape of both searches: nothing in the rest of the first word, nothing in
  the words skipped, and the first hit in the word where they stop.
\<close>

lemma is_next_words:
  assumes "l \<le> r" "\<And>i. l \<le> i \<Longrightarrow> i < 64 * (l div 64 + 1) \<Longrightarrow> bm_at m i \<noteq> v"
    "\<And>w i. l div 64 + 1 \<le> w \<Longrightarrow> w < j \<Longrightarrow> i < 64 \<Longrightarrow> bm_at m (64 * w + i) \<noteq> v"
    "l div 64 + 1 \<le> j" "k < 64" "bm_at m (64 * j + k) = v" "\<And>i. i < k \<Longrightarrow> bm_at m (64 * j + i) \<noteq> v"
  shows "is_next m v l r (min (64 * j + k) r)"
proof (rule is_next_min[OF assms(1)])
  have "l < 64 * (l div 64 + 1)" by simp
  also have "\<dots> \<le> 64 * j" using assms(4) by simp
  finally show "l \<le> 64 * j + k" by simp
  fix i assume i: "l \<le> i" "i < 64 * j + k"
  consider "i < 64 * (l div 64 + 1)" | "64 * (l div 64 + 1) \<le> i" "i div 64 < j" | "i div 64 = j"
    using i(2) assms(5) by linarith
  then show "bm_at m i \<noteq> v"
  proof cases
    case 2
    then have "l div 64 + 1 \<le> i div 64" by (simp add: less_eq_div_iff_mult_less_eq mult.commute)
    then show ?thesis using assms(3)[of "i div 64" "i mod 64"] 2(2) by simp
  next
    case 3
    then have "i mod 64 < k" using i(2) by (metis add_less_cancel_left mult_div_mod_eq)
    then show ?thesis using assms(7)[of "i mod 64"] 3 by (metis mult_div_mod_eq)
  qed (use assms(2) i in simp)
qed (use assms(6) in simp)

lemma is_next_none:
  assumes "l < r" "\<And>i. l \<le> i \<Longrightarrow> i < 64 * (l div 64 + 1) \<Longrightarrow> bm_at m i \<noteq> v"
    "\<And>w i. l div 64 + 1 \<le> w \<Longrightarrow> w < (r - 1) div 64 + 1 \<Longrightarrow> i < 64 \<Longrightarrow> bm_at m (64 * w + i) \<noteq> v"
  shows "is_next m v l r r"
proof -
  have "bm_at m i \<noteq> v" if "l \<le> i" "i < r" for i
  proof (cases "i < 64 * (l div 64 + 1)")
    case False
    then have "l div 64 + 1 \<le> i div 64" by (simp add: less_eq_div_iff_mult_less_eq mult.commute)
    moreover have "i div 64 < (r - 1) div 64 + 1" using that(2) div_le_mono[of i "r - 1" 64] by simp
    ultimately show ?thesis using assms(3)[of "i div 64" "i mod 64"] by simp
  qed (use assms(2) that in blast)
  then show ?thesis using assms(1) by (auto simp: is_next_def)
qed

lemma bm_at_from:
  assumes "l mod 64 + k < 64"
  shows "bm_at m (l + k) \<longleftrightarrow> bit (bm_map m ! (l div 64)) (l mod 64 + k)"
proof -
  have "l + k = 64 * (l div 64) + (l mod 64 + k)" by simp
  then show ?thesis using bm_at_word[OF assms, of m "l div 64"] by simp
qed

lemma word_end_less: "l + k < 64 * (l div 64 + 1) \<longleftrightarrow> l mod 64 + k < (64 :: nat)"
proof -
  obtain q a where l: "64 * q + a = l" "l div 64 = q" "l mod 64 = a" by (metis mult_div_mod_eq)
  have "64 * q + a + k < 64 * (q + 1) \<longleftrightarrow> a + k < 64" by simp
  then show ?thesis unfolding l .
qed

lemma first_word_none:
  assumes "\<And>k. l mod 64 + k < 64 \<Longrightarrow> bit (bm_map m ! (l div 64)) (l mod 64 + k) \<noteq> v" "l \<le> i" "i < 64 * (l div 64 + 1)"
  shows "bm_at m i \<noteq> v"
proof -
  obtain d where d: "i = l + d" using assms(2) le_Suc_ex by blast
  have "l mod 64 + d < 64" using assms(3) unfolding d word_end_less .
  then show ?thesis using bm_at_from[of l d m] assms(1)[of d] d by simp
qed

lemma first_word_hit:
  assumes "l \<le> r" "l mod 64 + k < 64" "bit (bm_map m ! (l div 64)) (l mod 64 + k) = v"
    "\<And>j. j < k \<Longrightarrow> bit (bm_map m ! (l div 64)) (l mod 64 + j) \<noteq> v"
  shows "is_next m v l r (min (l + k) r)"
proof (rule is_next_min[OF assms(1)])
  fix i assume "l \<le> i" "i < l + k"
  then show "bm_at m i \<noteq> v" using bm_at_from[of l "i - l" m] assms(2) assms(4)[of "i - l"] by simp
qed (use bm_at_from[OF assms(2)] assms(3) in auto)

lemma next_one:
  assumes "l \<le> r" "r \<le> bm_size m"
  shows "\<exists>off. get_next_one_offset_inline m l r = Some off \<and> is_next m True l r off"
proof (cases "l = r")
  case True
  then show ?thesis using assms by (auto simp: get_next_one_offset_inline_def is_next_def)
next
  case False
  let ?w = "bm_map m ! (l div 64)" and ?res = "drop_bit (l mod 64) (bm_map m ! (l div 64))"
  have def: "get_next_one_offset_inline m l r =
      (if ?res \<noteq> 0 then map_option (\<lambda>off. min off r) (find_one ?res l)
       else case skip_zero_words (bm_map m) (l div 64 + 1) ((r - 1) div 64 + 1) of
              None \<Rightarrow> Some r | Some off \<Rightarrow> map_option (\<lambda>off. min off r) off)"
    using False assms by (simp add: get_next_one_offset_inline_def word_index_def bit_in_word_def Let_def)
  show ?thesis
  proof (cases "?res = 0")
    case False
    then obtain k where k: "find_one ?res l = Some (l + k)" "bit ?res k" "\<forall>j < k. \<not> bit ?res j"
      using find_one_spec by blast
    moreover have "l mod 64 + k < 64" using bit_imp_le_length[of ?w] k(2) by (simp add: bit_drop_bit_eq)
    ultimately have "is_next m True l r (min (l + k) r)"
      using assms(1) by (intro first_word_hit) (auto simp: bit_drop_bit_eq)
    then show ?thesis using k(1) False by (simp add: def)
  next
    case True
    then have none: "\<And>i. l \<le> i \<Longrightarrow> i < 64 * (l div 64 + 1) \<Longrightarrow> bm_at m i \<noteq> True"
      using bit_drop_bit_eq[of "l mod 64" ?w] by (intro first_word_none) (auto simp: fun_eq_iff)
    show ?thesis
    proof (cases "find (\<lambda>j. bm_map m ! j \<noteq> 0) [l div 64 + 1..<(r - 1) div 64 + 1]")
      case None
      then have "is_next m True l r r"
        using \<open>l \<noteq> r\<close> assms(1) none None[unfolded find_upt_None]
        by (intro is_next_none) (auto simp: bm_at_word)
      then show ?thesis using True None by (auto simp: def skip_zero_words_find)
    next
      case (Some j)
      note f = find_upt_Some[OF Some]
      obtain k where k: "find_one (bm_map m ! j) (bit_index j) = Some (64 * j + k)" "bit (bm_map m ! j) k"
          "\<forall>i < k. \<not> bit (bm_map m ! j) i"
        using find_one_spec[OF f(3), of "bit_index j"] by (auto simp: bit_index_def mult.commute)
      have "k < 64" using bit_imp_le_length[OF k(2)] by simp
      then have "is_next m True l r (min (64 * j + k) r)"
        using assms(1) none f k by (intro is_next_words) (auto simp: bm_at_word)
      then show ?thesis using True Some k(1) by (auto simp: def skip_zero_words_find)
    qed
  qed
qed

lemma bit_left_n_bits:
  assumes "pos < 64" "n < 64"
  shows "bit (left_n_bits pos) n \<longleftrightarrow> 64 - pos \<le> n"
proof -
  have "push_bit pos 1 - 1 = (mask pos :: bm_word)" by (simp add: mask_eq_exp_minus_1)
  then show ?thesis using assms by (auto simp: left_n_bits_def Let_def bit_simps)
qed

lemma next_zero:
  assumes "l \<le> r" "r \<le> bm_size m"
  shows "\<exists>off. get_next_zero_offset_inline m l r = Some off \<and> is_next m False l r off"
proof (cases "l = r")
  case True
  then show ?thesis using assms by (auto simp: get_next_zero_offset_inline_def is_next_def)
next
  case False
  let ?w = "bm_map m ! (l div 64)"
  let ?res = "drop_bit (l mod 64) ?w OR left_n_bits (l mod 64)"
  have def: "get_next_zero_offset_inline m l r =
      (if ?res \<noteq> NOT 0 then Some (min (find_zero ?res l) r)
       else case skip_one_words (bm_map m) (l div 64 + 1) ((r - 1) div 64 + 1) of
              None \<Rightarrow> Some r | Some off \<Rightarrow> Some (min off r))"
    using False assms by (simp add: get_next_zero_offset_inline_def word_index_def bit_in_word_def Let_def)
  have bits: "bit ?res k \<longleftrightarrow> l mod 64 + k < 64 \<longrightarrow> bit ?w (l mod 64 + k)" if "k < 64" for k
    using that bit_left_n_bits[of "l mod 64" k] bit_imp_le_length[of ?w "l mod 64 + k"]
    by (auto simp: bit_or_iff bit_drop_bit_eq)
  show ?thesis
  proof (cases "?res = NOT 0")
    case False
    obtain k where k: "find_zero ?res l = l + k" "\<not> bit ?res k" "\<forall>j < k. bit ?res j"
      using find_zero_spec by blast
    have "k < 64"
    proof (rule ccontr)
      assume "\<not> k < 64"
      then have "?res = NOT 0" using k(3) by (intro bit_word_eqI) (simp add: bit_simps)
      then show False using False by simp
    qed
    then have "is_next m False l r (min (l + k) r)"
      using assms(1) k bits by (intro first_word_hit) auto
    then show ?thesis using k(1) False by (simp add: def)
  next
    case True
    have none: "\<And>i. l \<le> i \<Longrightarrow> i < 64 * (l div 64 + 1) \<Longrightarrow> bm_at m i \<noteq> False"
      using bits True by (intro first_word_none) (auto simp: bit_simps)
    show ?thesis
    proof (cases "find (\<lambda>j. bm_map m ! j \<noteq> NOT 0) [l div 64 + 1..<(r - 1) div 64 + 1]")
      case None
      then have "is_next m False l r r"
        using \<open>l \<noteq> r\<close> assms(1) none None[unfolded find_upt_None]
        by (intro is_next_none) (auto simp: bm_at_word bit_simps)
      then show ?thesis using True None by (auto simp: def skip_one_words_find)
    next
      case (Some j)
      note f = find_upt_Some[OF Some]
      obtain k where k: "find_zero (bm_map m ! j) (bit_index j) = 64 * j + k" "\<not> bit (bm_map m ! j) k"
          "\<forall>i < k. bit (bm_map m ! j) i"
        using find_zero_spec[of "bm_map m ! j" "bit_index j"] by (auto simp: bit_index_def mult.commute)
      have "k < 64"
      proof (rule ccontr)
        assume "\<not> k < 64"
        then have "bm_map m ! j = NOT 0" using k(3) by (intro bit_word_eqI) (simp add: bit_simps)
        then show False using f(3) by simp
      qed
      then have "is_next m False l r (min (64 * j + k) r)"
        using assms(1) none f k by (intro is_next_words) (auto simp: bm_at_word bit_simps)
      then show ?thesis using True Some k(1) by (auto simp: def skip_one_words_find)
    qed
  qed
qed

lemma next_one_aligned:
  assumes "verify_range m l r" "r mod 64 = 0"
  shows "get_next_one_offset_inline_aligned_right m l r = get_next_one_offset_inline m l r"
proof (cases "l = r")
  case True
  then show ?thesis using assms
    by (simp add: get_next_one_offset_inline_aligned_right_def get_next_one_offset_inline_def
        verify_range_def bit_in_word_def)
next
  case False
  let ?w = "bm_map m ! (l div 64)" and ?res = "drop_bit (l mod 64) (bm_map m ! (l div 64))"
  have lt: "l < r" "l \<le> r" "r \<le> bm_size m" using False assms(1) by (auto simp: verify_range_def)
  obtain q where q: "r = 64 * q" "0 < q" using assms(2) lt(1) by (auto elim!: dvdE simp: mod_eq_0_iff_dvd)
  have ri: "(r - 1) div 64 + 1 = q" "r div 64 = q"
    using q div_mult_self_is_m[of 64 q] by (auto simp: nat_neq_iff gr0_conv_Suc)
  have first: "l + k < r" if "l mod 64 + k < 64" for k
  proof -
    have "l + k < 64 * (l div 64 + 1)" using that by (simp only: word_end_less)
    also have "l div 64 + 1 \<le> q"
      using lt(1) q(1) less_mult_imp_div_less[of l q 64] by (simp add: mult.commute)
    then have "64 * (l div 64 + 1) \<le> 64 * q" by (rule mult_le_mono2)
    finally show ?thesis using q(1) by simp
  qed
  have f1: "map_option (\<lambda>off. min off r) (find_one ?res l) = find_one ?res l" if nz: "?res \<noteq> 0"
  proof -
    obtain k where k: "find_one ?res l = Some (l + k)" "bit ?res k" using find_one_spec[OF nz] by blast
    have "l mod 64 + k < 64" using bit_imp_le_length[of ?w] k(2) by (simp add: bit_drop_bit_eq)
    then show ?thesis using k(1) first by fastforce
  qed
  have f2: "map_option (\<lambda>off. min off r) (find_one (bm_map m ! j) (bit_index j)) = find_one (bm_map m ! j) (bit_index j)"
    if j: "find (\<lambda>j. bm_map m ! j \<noteq> 0) [l div 64 + 1..<q] = Some j" for j
  proof -
    note f = find_upt_Some[OF j]
    obtain k where k: "find_one (bm_map m ! j) (bit_index j) = Some (bit_index j + k)" "bit (bm_map m ! j) k"
      using find_one_spec[OF f(3)] by blast
    have "k < 64" using bit_imp_le_length[OF k(2)] by simp
    then have "bit_index j + k < r" using f(2) q(1) by (simp add: bit_index_def)
    then show ?thesis using k(1) by simp
  qed
  show ?thesis
    using False assms lt f1 f2
    unfolding get_next_one_offset_inline_aligned_right_def get_next_one_offset_inline_def
    by (simp add: word_index_def bit_in_word_def ri ri[simplified] skip_zero_words_find Let_def split: option.split)
qed

section \<open>Single bits\<close>

lemma bit_put:
  assumes "bm_wf m" "b < bm_size m"
  shows "range_put m b (Suc b) True (upd_word m (word_index b) (bm_map m ! word_index b OR bit_mask b))"
    "range_put m b (Suc b) False (upd_word m (word_index b) (bm_map m ! word_index b AND NOT (bit_mask b)))"
  using assms word_in_map[OF assms]
  by (auto simp: range_put_def bm_at_upd_word word_index_def bit_simps bit_bit_mask bm_at_iff[of m]
      dest: same_bit)

lemma set_bit_put: "bm_wf m \<Longrightarrow> b < bm_size m \<Longrightarrow> \<exists>m'. bm_set_bit m b = Inr m' \<and> range_put m b (Suc b) True m'"
  and clear_bit_put: "bm_wf m \<Longrightarrow> b < bm_size m \<Longrightarrow> \<exists>m'. bm_clear_bit m b = Inr m' \<and> range_put m b (Suc b) False m'"
  using bit_put[of m b] by (simp_all add: bm_set_bit_def bm_clear_bit_def verify_index_def)

lemma upd_word_same: "i < length (bm_map m) \<Longrightarrow> upd_word m i (bm_map m ! i) = m"
  by (simp add: upd_word_def)

lemma par_set_bit_put:
  assumes "bm_wf m" "b < bm_size m"
  shows "\<exists>m'. par_set_bit m b = Inr (m', \<not> bm_at m b) \<and> range_put m b (Suc b) True m'"
proof -
  let ?w = "bm_map m ! word_index b"
  have at: "bm_at m b \<longleftrightarrow> ?w OR bit_mask b = ?w"
  proof
    assume "bm_at m b"
    then show "?w OR bit_mask b = ?w"
      by (intro bit_word_eqI) (auto simp: bm_at_iff bit_simps bit_bit_mask word_index_def)
  next
    assume "?w OR bit_mask b = ?w"
    then have "bit ?w (b mod 64) = bit (?w OR bit_mask b) (b mod 64)" by simp
    then show "bm_at m b" by (simp add: bm_at_iff word_index_def bit_or_iff bit_bit_mask)
  qed
  have "upd_word m (word_index b) ?w = m"
    using word_in_map[OF assms] by (intro upd_word_same) (simp add: word_index_def)
  then show ?thesis
    using assms bit_put(1)[OF assms] at
    by (cases "?w OR bit_mask b = ?w") (auto simp: par_set_bit_def verify_index_def Let_def)
qed

lemma par_clear_bit_put:
  assumes "bm_wf m" "b < bm_size m"
  shows "\<exists>m'. par_clear_bit m b = Inr (m', bm_at m b) \<and> range_put m b (Suc b) False m'"
proof -
  let ?w = "bm_map m ! word_index b"
  have at: "\<not> bm_at m b \<longleftrightarrow> ?w AND NOT (bit_mask b) = ?w"
  proof
    assume "\<not> bm_at m b"
    then show "?w AND NOT (bit_mask b) = ?w"
      by (intro bit_word_eqI) (auto simp: bm_at_iff bit_simps bit_bit_mask word_index_def)
  next
    assume "?w AND NOT (bit_mask b) = ?w"
    then have "bit ?w (b mod 64) = bit (?w AND NOT (bit_mask b)) (b mod 64)" by simp
    then show "\<not> bm_at m b" by (simp add: bm_at_iff word_index_def bit_simps bit_bit_mask)
  qed
  have "upd_word m (word_index b) ?w = m"
    using word_in_map[OF assms] by (intro upd_word_same) (simp add: word_index_def)
  then show ?thesis
    using assms bit_put(2)[OF assms] at
    by (cases "?w AND NOT (bit_mask b) = ?w") (auto simp: par_clear_bit_def verify_index_def Let_def)
qed

end
