(* ===== verification/BitSets.thy ===== *)
theory BitSets
  imports BitMapSearch
begin

text \<open>
  Bit maps as sets of positions: the contract the mark bit map relies on, the
  operations on whole maps, counting and iteration.
\<close>

section \<open>The contract\<close>

text \<open>Walking from one to one with the search, for at most \<open>n\<close> positions.\<close>

fun scan_ones :: "('m \<Rightarrow> nat \<Rightarrow> nat \<Rightarrow> nat option) \<Rightarrow> 'm \<Rightarrow> nat \<Rightarrow> nat \<Rightarrow> nat \<Rightarrow> nat list option" where
  "scan_ones next1 m 0 l r = None"
| "scan_ones next1 m (Suc n) l r =
     (case next1 m l r of
        None \<Rightarrow> None
      | Some off \<Rightarrow>
          if off < r then map_option ((#) off) (scan_ones next1 m n (off + 1) r) else Some [])"

locale bit_set =
  fixes wf :: "'m \<Rightarrow> bool"
    and bits :: "'m \<Rightarrow> nat"
    and mem :: "'m \<Rightarrow> nat \<Rightarrow> bool"
    and put :: "'m \<Rightarrow> nat \<Rightarrow> nat \<Rightarrow> bool \<Rightarrow> 'm result"
    and test_set :: "'m \<Rightarrow> nat \<Rightarrow> ('m \<times> bool) result"
    and next1 :: "'m \<Rightarrow> nat \<Rightarrow> nat \<Rightarrow> nat option"
  assumes put_ok: "\<lbrakk>wf m; b \<le> e; e \<le> bits m\<rbrakk> \<Longrightarrow>
      \<exists>m'. put m b e v = Inr m' \<and> wf m' \<and> bits m' = bits m \<and>
        (\<forall>i < bits m. mem m' i = (if b \<le> i \<and> i < e then v else mem m i))"
    and test_set_ok: "\<lbrakk>wf m; b < bits m\<rbrakk> \<Longrightarrow>
      \<exists>m'. test_set m b = Inr (m', \<not> mem m b) \<and> wf m' \<and> bits m' = bits m \<and>
        (\<forall>i < bits m. mem m' i \<longleftrightarrow> i = b \<or> mem m i)"
    and next1_ok: "\<lbrakk>wf m; l \<le> r; r \<le> bits m\<rbrakk> \<Longrightarrow>
      \<exists>off. next1 m l r = Some off \<and> l \<le> off \<and> off \<le> r \<and>
        (\<forall>i. l \<le> i \<and> i < off \<longrightarrow> \<not> mem m i) \<and> (off < r \<longrightarrow> mem m off)"
begin

lemma filter_upto_next:
  assumes "l \<le> off" "off \<le> r" "\<forall>i. l \<le> i \<and> i < off \<longrightarrow> \<not> mem m i"
  shows "filter (mem m) [l..<r] = filter (mem m) [off..<r]"
proof -
  have "[l..<r] = [l..<off] @ [off..<r]" using assms(1,2) upt_add_eq_append[of l off "r - off"] by simp
  then show ?thesis using assms(3) by (simp add: filter_empty_conv)
qed

lemma scan_ones_all:
  assumes "wf m" "l \<le> r" "r \<le> bits m" "r - l < n"
  shows "scan_ones next1 m n l r = Some (filter (mem m) [l..<r])"
  using assms(2,4)
proof (induction n arbitrary: l)
  case (Suc n)
  obtain off where off: "next1 m l r = Some off" "l \<le> off" "off \<le> r"
      "\<forall>i. l \<le> i \<and> i < off \<longrightarrow> \<not> mem m i" "off < r \<longrightarrow> mem m off"
    using next1_ok[OF assms(1) Suc.prems(1) assms(3)] by blast
  note f = filter_upto_next[OF off(2,3,4)]
  show ?case
  proof (cases "off < r")
    case True
    then have "scan_ones next1 m n (off + 1) r = Some (filter (mem m) [off + 1..<r])"
      using Suc off(2) by (intro Suc.IH) auto
    then show ?thesis using True off f by (simp add: upt_conv_Cons)
  qed (use off f in simp)
qed simp

text \<open>Setting positions one after the other reports each of them as new exactly once.\<close>

lemma test_set_twice:
  assumes "wf m" "b < bits m" "test_set m b = Inr (m', new)"
  shows "new \<longleftrightarrow> \<not> mem m b" "\<exists>m''. test_set m' b = Inr (m'', False)"
  using test_set_ok[OF assms(1,2)] test_set_ok[of m' b] assms by auto

end

lemma range_put_mem:
  "range_put m b e v m' \<Longrightarrow>
   bm_wf m' \<and> bm_size m' = bm_size m \<and>
   (\<forall>i < bm_size m. bm_at m' i = (if b \<le> i \<and> i < e then v else bm_at m i))"
  by (intro conjI allI impI) (erule range_put_wf range_put_size range_put_at, assumption?)+

interpretation bm: bit_set bm_wf bm_size bm_at par_at_put_range par_set_bit get_next_one_offset_inline
proof
  fix m b e v assume "bm_wf m" "b \<le> e" "e \<le> bm_size m"
  then show "\<exists>m'. par_at_put_range m b e v = Inr m' \<and> bm_wf m' \<and> bm_size m' = bm_size m \<and>
      (\<forall>i < bm_size m. bm_at m' i = (if b \<le> i \<and> i < e then v else bm_at m i))"
    using par_at_put_range_put[of m b e v] range_put_mem[of m b e v] by (auto simp: verify_range_def)
next
  fix m b assume "bm_wf m" "b < bm_size m"
  then show "\<exists>m'. par_set_bit m b = Inr (m', \<not> bm_at m b) \<and> bm_wf m' \<and> bm_size m' = bm_size m \<and>
      (\<forall>i < bm_size m. bm_at m' i \<longleftrightarrow> i = b \<or> bm_at m i)"
    using par_set_bit_put[of m b] range_put_mem[of m b "Suc b" True] by fastforce
next
  fix m l r assume "bm_wf m" "l \<le> r" "r \<le> bm_size m"
  then show "\<exists>off. get_next_one_offset_inline m l r = Some off \<and> l \<le> off \<and> off \<le> r \<and>
      (\<forall>i. l \<le> i \<and> i < off \<longrightarrow> \<not> bm_at m i) \<and> (off < r \<longrightarrow> bm_at m off)"
    using next_one[of l r m] by (auto simp: is_next_def)
qed

section \<open>Whole maps\<close>

lemma map_words_length [simp]: "length (map_words f is ws) = length ws"
  by (induction "is" arbitrary: ws) auto

lemma map_words_nth:
  "distinct is \<Longrightarrow> set is \<subseteq> {..<length ws} \<Longrightarrow> j < length ws \<Longrightarrow>
   map_words f is ws ! j = (if j \<in> set is then f j (ws ! j) else ws ! j)"
  by (induction "is" arbitrary: ws) (auto simp: nth_list_update)

lemma put_words_at:
  assumes "bm_wf m" "i < bm_size m"
  shows "bm_at (put_words m f) i \<longleftrightarrow> bit (f (i div 64) (bm_map m ! (i div 64))) (i mod 64)"
    and "bm_wf (put_words m f)" "bm_size (put_words m f) = bm_size m"
proof -
  have "i div 64 < size_in_words m" using word_in_map[OF assms] assms(1) by (simp add: bm_wf_def)
  then show "bm_at (put_words m f) i \<longleftrightarrow> bit (f (i div 64) (bm_map m ! (i div 64))) (i mod 64)"
    using assms(1) by (simp add: put_words_def bm_at_iff bm_wf_def map_words_nth lessThan_atLeast0)
  show "bm_wf (put_words m f)" "bm_size (put_words m f) = bm_size m"
    using assms(1) by (simp_all add: put_words_def bm_wf_def size_in_words_def)
qed

text \<open>
  union, difference, intersection and copy of two bit maps of one size are
  the set operations on the positions of their bits.
\<close>

theorem set_operations:
  assumes "bm_wf m" "bm_size other = bm_size m" "i < bm_size m"
  shows "\<exists>u d n f. set_union m other = Inr u \<and> set_difference m other = Inr d \<and>
    set_intersection m other = Inr n \<and> set_from m other = Inr f \<and>
    bm_at u i = (bm_at m i \<or> bm_at other i) \<and> bm_at d i = (bm_at m i \<and> \<not> bm_at other i) \<and>
    bm_at n i = (bm_at m i \<and> bm_at other i) \<and> bm_at f i = bm_at other i"
  using assms put_words_at(1)[OF assms(1,3)]
  by (simp add: set_union_def set_difference_def set_intersection_def set_from_def same_size_def bit_simps)
     (simp add: bm_at_iff)

theorem set_operations_witness:
  "let m = \<lparr>bm_map = [5, 0], bm_size = 70\<rparr>; other = \<lparr>bm_map = [6, 1], bm_size = 70\<rparr>
   in \<exists>u d n f. set_union m other = Inr u \<and> set_difference m other = Inr d \<and>
    set_intersection m other = Inr n \<and> set_from m other = Inr f \<and>
    bm_at u 64 \<and> \<not> bm_at d 64 \<and> \<not> bm_at n 64 \<and> bm_at f 64"
  using set_operations[of "\<lparr>bm_map = [5, 0], bm_size = 70\<rparr>" "\<lparr>bm_map = [6, 1], bm_size = 70\<rparr>" 64]
  by (simp add: bm_wf_def index_defs size_t_max1_def bm_at_iff)

section \<open>Counting\<close>

definition popc :: "bm_word \<Rightarrow> nat" where
  "popc w = card {n. bit w n}"

lemma finite_bits: "finite {n. bit (w :: 'a::len word) n}"
  by (rule finite_subset[of _ "{..<LENGTH('a)}"]) (auto dest: bit_imp_le_length)

lemma popc_0 [simp]: "popc 0 = 0"
  by (simp add: popc_def)

lemma popc_split: "popc w = popc (w AND mask k) + popc (drop_bit k w)"
proof -
  have "{n. bit w n} = {n. bit (w AND mask k) n} \<union> (+) k ` {n. bit (drop_bit k w) n}"
  proof (rule set_eqI)
    fix n
    show "n \<in> {n. bit w n} \<longleftrightarrow> n \<in> {n. bit (w AND mask k) n} \<union> (+) k ` {n. bit (drop_bit k w) n}"
      using bit_imp_le_length[of w n]
      by (cases "n < k") (auto simp: bit_simps image_iff intro: exI[of _ "n - k"] dest: bit_imp_le_length)
  qed
  moreover have "{n. bit (w AND mask k) n} \<inter> (+) k ` {n. bit (drop_bit k w) n} = {}"
    by (auto simp: bit_simps)
  ultimately show ?thesis
    using finite_bits[of "w AND mask k"] finite_bits[of "drop_bit k w"]
    by (simp add: popc_def card_Un_disjoint card_image)
qed

lemma popc_odd: "popc w = popc (drop_bit 1 w) + (if w AND 1 \<noteq> 0 then 1 else 0)"
proof -
  have "{n. bit (w AND 1) n} = (if w AND 1 \<noteq> 0 then {0} else {})"
    by (auto simp: and_1_bit bit_simps)
  then have "popc (w AND 1) = (if w AND 1 \<noteq> 0 then 1 else 0)" by (simp add: popc_def)
  then show ?thesis using popc_split[of w 1] by simp
qed

lemma popc_strip_zeros: "popc (strip_zeros w) = popc w"
proof (induction w rule: strip_zeros.induct)
  case (1 w)
  then show ?case using popc_odd[of w] by (subst strip_zeros.simps) auto
qed

lemma strip_zeros_odd: "w \<noteq> 0 \<Longrightarrow> strip_zeros w AND 1 \<noteq> 0"
proof (induction w rule: strip_zeros.induct)
  case (1 w)
  have "w AND 1 = 0 \<Longrightarrow> drop_bit 1 w \<noteq> 0"
    using 1(2) strip_zeros_0[of "drop_bit 1 w"] strip_zeros_0[of w] by (metis strip_zeros.simps)
  then show ?case using 1 by (subst strip_zeros.simps) auto
qed

lemma num_set_bits_popc: "num_set_bits w bits = bits + popc w"
proof (induction w bits rule: num_set_bits.induct)
  case (1 w bits)
  then show ?case
    using popc_odd[of "strip_zeros w"] popc_strip_zeros[of w] strip_zeros_odd[of w]
    by (subst num_set_bits.simps) auto
qed

lemma num_set_bits_from_table_popc: "num_set_bits_from_table (w AND 255) = popc (w AND 255)"
proof -
  have "w AND 255 = take_bit 8 w" using take_bit_eq_mask[of 8 w] by (simp add: mask_eq_exp_minus_1)
  then have "unat (w AND 255) < 2 ^ 8"
    using take_bit_nat_less_exp[of 8 "unat w"] by (simp add: unsigned_take_bit_eq)
  then show ?thesis
    by (simp add: num_set_bits_from_table_def pop_count_table_def num_set_bits_popc)
qed

lemma count_bytes_popc: "drop_bit (8 * j) w = 0 \<Longrightarrow> count_bytes j w sm = sm + popc w"
proof (induction j arbitrary: w sm)
  case (Suc j)
  have "drop_bit (8 * j) (drop_bit 8 w) = 0" using Suc.prems by (simp add: drop_bit_drop_bit add.commute)
  moreover have "popc w = popc (w AND 255) + popc (drop_bit 8 w)"
    using popc_split[of w 8] by (simp add: mask_eq_exp_minus_1)
  ultimately show ?case using Suc.IH by (simp add: num_set_bits_from_table_popc)
qed simp

lemma count_words_popc:
  "fold (\<lambda>i sm. count_bytes 8 (ws ! i) sm) is k = k + sum_list (map (\<lambda>i. popc (ws ! i)) is)"
proof (induction "is" arbitrary: k)
  case (Cons i "is")
  have "drop_bit 64 (ws ! i) = 0" by (rule bit_word_eqI) (auto simp: bit_simps dest: bit_imp_le_length)
  then show ?case using Cons count_bytes_popc[of 8 "ws ! i" k] by simp
qed simp

text \<open>
  the count by bytes over a precomputed table is the number of bits set in
  the words of the map.
\<close>

theorem count_one_bits_card:
  "count_one_bits m = card {i. i < 64 * size_in_words m \<and> bm_at m i}"
proof -
  have "card {i. i < 64 * n \<and> bm_at m i} = sum_list (map (\<lambda>i. popc (bm_map m ! i)) [0..<n])" for n
  proof (induction n)
    case (Suc n)
    let ?A = "{i. i < 64 * n \<and> bm_at m i}" and ?B = "(+) (64 * n) ` {k. bit (bm_map m ! n) k}"
    have "{i. i < 64 * Suc n \<and> bm_at m i} = ?A \<union> ?B"
    proof (rule set_eqI)
      fix i
      show "i \<in> {i. i < 64 * Suc n \<and> bm_at m i} \<longleftrightarrow> i \<in> ?A \<union> ?B"
      proof (cases "i < 64 * n")
        case False
        then obtain k where k: "i = 64 * n + k" using le_Suc_ex not_less by blast
        show ?thesis
          using bm_at_word[of k m n] bit_imp_le_length[of "bm_map m ! n" k] by (cases "k < 64") (auto simp: k)
      qed auto
    qed
    moreover have "?A \<inter> ?B = {}" by auto
    ultimately show ?case
      using Suc finite_bits[of "bm_map m ! n"] by (simp add: card_Un_disjoint card_image popc_def)
  qed simp
  then show ?thesis by (simp add: count_one_bits_def count_words_popc)
qed

section \<open>Iteration\<close>

text \<open>Calling the closure on a list of positions until it answers False.\<close>

fun run_closure :: "'s bm_closure \<Rightarrow> bitmap \<times> 's \<Rightarrow> idx_t list \<Rightarrow> (bitmap \<times> 's) \<times> bool" where
  "run_closure do_bit ms [] = (ms, True)"
| "run_closure do_bit ms (i # is) =
     (let (ms', ok) = do_bit ms i in if ok then run_closure do_bit ms' is else (ms', False))"

definition keeps_map :: "'s bm_closure \<Rightarrow> bool" where
  "keeps_map do_bit \<longleftrightarrow> (\<forall>ms i. fst (fst (do_bit ms i)) = fst ms)"

lemma run_closure_append:
  "run_closure do_bit ms (is @ js) =
     (let (ms', ok) = run_closure do_bit ms is in if ok then run_closure do_bit ms' js else (ms', False))"
  by (induction "is" arbitrary: ms) (auto simp: split: prod.split)

lemma run_closure_keeps:
  "keeps_map do_bit \<Longrightarrow> fst (fst (run_closure do_bit ms is)) = fst ms"
proof (induction "is" arbitrary: ms)
  case (Cons i "is")
  have "fst (fst (do_bit ms i)) = fst ms" using Cons.prems unfolding keeps_map_def by blast
  then show ?case using Cons by (auto split: prod.split)
qed simp

text \<open>\<open>off\<close> is \<open>k\<close> positions into the word \<open>index\<close>, and \<open>rest\<close> what is left of it.\<close>

lemma iter_word_run:
  assumes "keeps_map do_bit" "off = 64 * index + k" "k \<le> 64"
    "rest = drop_bit k (bm_map (fst ms) ! index)"
  shows "iter_word do_bit right index off rest ms =
    run_closure do_bit ms (filter (bm_at (fst ms)) [off..<min right (64 * index + 64)])"
  using assms
proof (induction do_bit right index off rest ms arbitrary: k rule: iter_word.induct)
  case (1 do_bit right index off rest ms)
  let ?w = "bm_map (fst ms) ! index"
  show ?case
  proof (cases "off < right \<and> rest \<noteq> 0")
    case True
    have k: "k < 64"
    proof (rule ccontr)
      assume "\<not> k < 64"
      then have "rest = 0" using "1.prems"(4) by (intro bit_word_eqI) (auto simp: bit_simps dest: bit_imp_le_length)
      then show False using True by simp
    qed
    have at: "bm_at (fst ms) off \<longleftrightarrow> rest AND 1 \<noteq> 0"
      using bm_at_word[OF k, of "fst ms" index] "1.prems"(2,4) by (simp add: and_1_bit bit_drop_bit_eq)
    have next_rest: "drop_bit 1 (drop_bit k w) = drop_bit (k + 1) w" for w :: bm_word
      by (simp add: drop_bit_drop_bit)
    have upt: "[off..<min right (64 * index + 64)] = off # [off + 1..<min right (64 * index + 64)]"
      using True k "1.prems"(2) by (simp add: upt_conv_Cons)
    have m: "off mod 64 = k" using "1.prems"(2) k by simp
    show ?thesis
    proof (cases "rest AND 1 \<noteq> 0")
      case odd: True
      obtain ms' ok where ms': "do_bit ms off = (ms', ok)" by fastforce
      have fst: "fst ms' = fst ms" using "1.prems"(1) ms' by (metis fst_conv keeps_map_def)
      show ?thesis
      proof (cases ok)
        case ok: True
        have "iter_word do_bit right index (off + 1) (drop_bit 1 (drop_bit (off mod 64) (bm_map (fst ms') ! index))) ms' =
            run_closure do_bit ms' (filter (bm_at (fst ms')) [off + 1..<min right (64 * index + 64)])"
          using True odd ms' ok m k "1.prems" fst next_rest by (intro "1.IH"(1)) auto
        then show ?thesis using True odd ms' ok at upt fst by (subst iter_word.simps) simp
      next
        case False
        then show ?thesis using True odd ms' at upt by (subst iter_word.simps) simp
      qed
    next
      case even: False
      have "iter_word do_bit right index (off + 1) (drop_bit 1 rest) ms =
          run_closure do_bit ms (filter (bm_at (fst ms)) [off + 1..<min right (64 * index + 64)])"
        using True even k "1.prems" next_rest by (intro "1.IH"(2)) auto
      then show ?thesis using True even at upt by (subst iter_word.simps) simp
    qed
  next
    case False
    have "\<not> bm_at (fst ms) i" if r: "rest = 0" and i: "off \<le> i" "i < 64 * index + 64" for i
    proof -
      obtain j where j: "i = 64 * index + (k + j)" "k + j < 64"
        using i "1.prems"(2) le_Suc_ex[of off i] by auto
      have "\<not> bit rest j" using r by simp
      then show ?thesis using bm_at_word[OF j(2), of "fst ms" index] "1.prems"(4) j(1) by (simp add: bit_drop_bit_eq)
    qed
    then have "filter (bm_at (fst ms)) [off..<min right (64 * index + 64)] = []"
      using False by (auto simp: filter_empty_conv)
    then show ?thesis using False by (subst iter_word.simps) auto
  qed
qed

lemma iter_words_run:
  assumes "keeps_map do_bit" "off div 64 = index \<or> off = 64 * index" "right \<le> 64 * endIndex"
  shows "iter_words do_bit right endIndex index off ms =
    run_closure do_bit ms (filter (bm_at (fst ms)) [off..<right])"
  using assms
proof (induction do_bit right endIndex index off ms rule: iter_words.induct)
  case (1 do_bit right endIndex index off ms)
  show ?case
  proof (cases "off < right \<and> index < endIndex")
    case True
    let ?b = "min right (64 * index + 64)"
    have k: "off = 64 * index + off mod 64" "off div 64 = index" using "1.prems"(2) by auto
    have "off < 64 * index + 64" using k by (metis add_less_cancel_left mod_less_divisor zero_less_numeral)
    then have b: "off \<le> ?b" "?b \<le> right" using True by auto
    obtain ms' ok where r: "run_closure do_bit ms (filter (bm_at (fst ms)) [off..<?b]) = (ms', ok)" by fastforce
    then have w: "iter_word do_bit right index off (drop_bit (off mod 64) (bm_map (fst ms) ! index)) ms = (ms', ok)"
      using iter_word_run[OF "1.prems"(1) k(1), of _ ms right] by simp
    have fst: "fst ms' = fst ms" using run_closure_keeps[OF "1.prems"(1)] r by (metis fst_conv)
    have split: "[off..<right] = [off..<?b] @ [?b..<right]"
      using b upt_add_eq_append[of off ?b "right - ?b"] by simp
    have rest: "[64 * index + 64..<right] = [?b..<right]" by (auto simp: min_def)
    show ?thesis
    proof (cases ok)
      case ok: True
      have "iter_words do_bit right endIndex (index + 1) (bit_index (index + 1)) ms' =
          run_closure do_bit ms' (filter (bm_at (fst ms')) [64 * index + 64..<right])"
        using "1.IH"[OF True w[symmetric] refl] ok "1.prems" by (simp add: bit_index_def algebra_simps)
      then show ?thesis
        using True w ok r fst rest by (subst iter_words.simps) (simp add: split run_closure_append)
    next
      case False
      then show ?thesis
        using True w r by (subst iter_words.simps) (simp add: split run_closure_append)
    qed
  next
    case False
    then have "right \<le> off" using "1.prems"(2,3) by auto
    then show ?thesis using False by (subst iter_words.simps) auto
  qed
qed

text \<open>
  C33: \<open>iterate\<close> calls a closure that leaves the map alone on exactly the
  positions of the range whose bit is set, in ascending order, up to the first
  call that answers False.
\<close>

theorem iterate_visits:
  assumes "keeps_map do_bit" "l \<le> r" "r \<le> bm_size m"
  shows "bm_iterate do_bit l r (m, s) = Inr (run_closure do_bit (m, s) (filter (bm_at m) [l..<r]))"
proof -
  have "r \<le> 64 * min (word_index r + 1) (size_in_words m)"
  proof -
    have "r < 64 * (r div 64 + 1)" by simp
    moreover have "r \<le> 64 * size_in_words m" using assms(3) bm_size_words[of m] by simp
    ultimately show ?thesis by (simp add: word_index_def min_def)
  qed
  then show ?thesis
    using assms iter_words_run[OF assms(1), of l "l div 64" r "min (word_index r + 1) (size_in_words m)" "(m, s)"]
    by (simp add: bm_iterate_def verify_range_def word_index_def)
qed

theorem iterate_visits_witness:
  "bm_iterate (\<lambda>(m, s) i. ((m, s @ [i]), i < 64)) 1 70 (\<lparr>bm_map = [7, 3], bm_size = 70\<rparr>, []) =
    Inr ((\<lparr>bm_map = [7, 3], bm_size = 70\<rparr>, [1, 2, 64]), False)"
proof -
  have "filter (bm_at \<lparr>bm_map = [7, 3], bm_size = 70\<rparr>) [1..<70] = [1, 2, 64, 65]"
    by (simp add: upt_rec bm_at_def word_index_def bit_mask_def bit_in_word_def push_bit_eq_mult)
  then show ?thesis
    using iterate_visits[of "\<lambda>(m, s) i. ((m, s @ [i]), i < 64)" 1 70 "\<lparr>bm_map = [7, 3], bm_size = 70\<rparr>" "[]"]
    by (simp add: keeps_map_def split: prod.splits)
qed

section \<open>Ranges, with and without a hint\<close>

text \<open>
  C32: setting or clearing a range, word by word with masks at its two ends,
  changes exactly the bits of the range, in the sequential and in the parallel
  version alike.
\<close>

theorem range_operations:
  assumes "bm_wf m" "beg \<le> e" "e \<le> bm_size m"
  shows "\<exists>m'. at_put_range m beg e v = Inr m' \<and> par_at_put_range m beg e v = Inr m' \<and> bm_wf m' \<and>
    bm_size m' = bm_size m \<and> (\<forall>i < bm_size m. bm_at m' i = (if beg \<le> i \<and> i < e then v else bm_at m i))"
  using bm.put_ok[OF assms] by (simp add: at_put_range_par)

theorem range_operations_witness:
  "\<exists>m'. at_put_range \<lparr>bm_map = [0, 0, 0], bm_size = 150\<rparr> 3 130 True = Inr m' \<and>
    par_at_put_range \<lparr>bm_map = [0, 0, 0], bm_size = 150\<rparr> 3 130 True = Inr m' \<and> bm_wf m' \<and>
    bm_size m' = 150 \<and> \<not> bm_at m' 2 \<and> bm_at m' 3 \<and> bm_at m' 100 \<and> bm_at m' 129 \<and> \<not> bm_at m' 130"
proof -
  let ?m = "\<lparr>bm_map = [0, 0, 0], bm_size = 150\<rparr>"
  have "bm_wf ?m" by (simp add: bm_wf_def index_defs size_t_max1_def)
  then obtain m' where m': "at_put_range ?m 3 130 True = Inr m'" "par_at_put_range ?m 3 130 True = Inr m'"
      "bm_wf m'" "bm_size m' = 150"
      and at: "\<And>i. i < 150 \<Longrightarrow> bm_at m' i = (if 3 \<le> i \<and> i < 130 then True else bm_at ?m i)"
    using range_operations[of ?m 3 130 True] by auto
  have "\<not> bm_at ?m 2" "\<not> bm_at ?m 130" by (simp_all add: bm_at_iff)
  then show ?thesis using m' at[of 2] at[of 3] at[of 100] at[of 129] at[of 130] by simp
qed

lemma large_enough_iff:
  assumes "bm_wf m" "verify_range m beg e"
  shows "large_enough ((beg + 63) div 64) (e div 64) \<longleftrightarrow>
    (beg + 63) div 64 + 32 \<le> e div 64 \<or> e div 64 < (beg + 63) div 64"
proof -
  have "e + 64 \<le> size_t_max1" "beg \<le> e" using assms by (auto simp: bm_wf_def verify_range_def)
  then have b: "e div 64 + 1 \<le> size_t_max1 div 64" "(beg + 63) div 64 \<le> e div 64 + 1"
    using div_le_mono[of "e + 64" size_t_max1 64] div_le_mono[of "beg + 63" "e + 64" 64] by simp_all
  have s: "size_t_max1 div 64 + 100 < size_t_max1" by (simp add: size_t_max1_def)
  define E F where "E = e div 64" and "F = (beg + 63) div 64"
  have EF: "F \<le> E + 1" "E + 100 < size_t_max1" using b s by (simp_all add: E_def F_def)
  show ?thesis
  proof (cases "F \<le> E")
    case True
    then have "(E + size_t_max1 - F) mod size_t_max1 = E - F"
      using EF mod_add_self2[of "E - F" size_t_max1] by (simp add: mod_less)
    then show ?thesis using True unfolding large_enough_def E_def[symmetric] F_def[symmetric] by auto
  next
    case False
    then have "(E + size_t_max1 - F) mod size_t_max1 = size_t_max1 - 1" using EF by (simp add: le_Suc_eq)
    then show ?thesis
      using False EF unfolding large_enough_def E_def[symmetric] F_def[symmetric] by auto
  qed
qed

text \<open>
  the large variants, which write the whole words with \<open>memset\<close>, set
  exactly the range when it spans at least 32 whole words; the assertion rejects a
  range with fewer, but not one inside a single word, where the difference of the
  unsigned indices wraps and the \<open>memset\<close> leaves the map.
\<close>

theorem large_range_operations:
  assumes "bm_wf m" "beg \<le> e" "e \<le> bm_size m"
  defines "F \<equiv> (beg + 63) div 64" and "E \<equiv> e div 64"
  shows "if E < F then at_put_large_range m beg e v = Inl OutOfBounds
    else if E < F + 32
      then at_put_large_range m beg e v = Inl (AssertFailed ''the range must include at least 32 bytes'')
    else \<exists>m'. at_put_large_range m beg e v = Inr m' \<and> par_at_put_large_range m beg e v = Inr m' \<and>
      bm_wf m' \<and> (\<forall>i < bm_size m. bm_at m' i = (if beg \<le> i \<and> i < e then v else bm_at m i))"
proof -
  have vr: "verify_range m beg e" using assms by (simp add: verify_range_def)
  have F: "word_index_round_up m beg = F" using assms by (simp add: F_def word_index_round_up)
  have eq: "at_put_large_range m beg e v = par_at_put_large_range m beg e v"
  proof -
    have "set_range_within_word = (\<lambda>m b e. par_put_range_within_word m b e True)"
      "clear_range_within_word = (\<lambda>m b e. par_put_range_within_word m b e False)"
      by (intro ext, simp add: within_word_eqs)+
    then show ?thesis
      by (simp add: at_put_large_range_def set_large_range_def clear_large_range_def par_at_put_large_range_def)
  qed
  have words: "(if v then set_large_range_of_words else clear_large_range_of_words) m1 F E =
      memset_words m1 F E (if v then NOT 0 else 0)" for m1
    by (simp add: set_large_range_of_words_def clear_large_range_of_words_def)
  have def: "par_at_put_large_range m beg e v =
      (if large_enough F E then
         bind_result (memset_words (par_put_range_within_word m beg (bit_index F) v) F E (if v then NOT 0 else 0))
           (\<lambda>m2. Inr (par_put_range_within_word m2 (bit_index E) e v))
       else Inl (AssertFailed ''the range must include at least 32 bytes''))"
  proof -
    have E: "word_index e = E" by (simp add: word_index_def E_def)
    show ?thesis
      unfolding par_at_put_large_range_def put_large_range_def Let_def F E words using vr by simp
  qed
  show ?thesis
  proof (cases "E < F + 32")
    case True
    then show ?thesis
      using def eq large_enough_iff[OF assms(1) vr] by (auto simp: memset_words_def F_def E_def)
  next
    case False
    have El: "E \<le> length (bm_map m)" using assms by (simp add: E_def bm_wf_def index_defs)
    have put: "\<exists>m2. memset_words m1 F E (if v then NOT 0 else 0) = Inr m2 \<and>
        range_put m1 (bit_index F) (bit_index E) v m2"
      if "range_put m beg (bit_index F) v m1" for m1
      using False El range_put_length[OF assms(1) that] range_put_wf[OF that] by (intro memset_words_put) auto
    define words' where "words' m1 = projr (memset_words m1 F E (if v then NOT 0 else 0))" for m1
    have p: "range_put m beg e v (par_put_range_within_word
        (words' (par_put_range_within_word m beg (bit_index F) v)) (bit_index E) e v)"
      unfolding F_def E_def
      using False put by (intro three_parts[OF assms(1) vr]) (fastforce simp: F_def E_def words'_def)+
    have "range_put m beg (bit_index F) v (par_put_range_within_word m beg (bit_index F) v)"
      using assms(1-3) range_words_arith(1,2)[of beg] word_in_map[of m beg] False
      by (intro par_put_within) (auto simp: F_def E_def)
    then obtain m2 where m2: "memset_words (par_put_range_within_word m beg (bit_index F) v) F E
        (if v then NOT 0 else 0) = Inr m2"
      using put by blast
    then have "par_at_put_large_range m beg e v = Inr (par_put_range_within_word m2 (bit_index E) e v)"
      using False def large_enough_iff[OF assms(1) vr] by (simp add: F_def E_def)
    then show ?thesis using False eq p m2 range_put_mem[OF p] by (simp add: words'_def)
  qed
qed

theorem large_range_operations_witness:
  "at_put_large_range \<lparr>bm_map = replicate 40 0, bm_size = 2560\<rparr> 1 2 True = Inl OutOfBounds"
  using large_range_operations[of "\<lparr>bm_map = replicate 40 0, bm_size = 2560\<rparr>" 1 2 True]
  by (simp add: bm_wf_def index_defs size_t_max1_def)

section \<open>Growing\<close>

text \<open>
  shrinking a bit map and growing it again makes old bits visible that the
  comment on \<open>resize\<close> says are zeroed: only whole new words are cleared.
\<close>

theorem resize_keeps_stale_bits:
  "bm_at (bm_resize (bm_resize \<lparr>bm_map = [2 ^ 40], bm_size = 64\<rparr> 10 g) 64 g') 40"
  by (simp add: bm_resize_def index_defs bm_at_iff bit_simps Let_def)

lemma bm_resize_wf:
  assumes "bm_wf m" "n + 64 \<le> size_t_max1"
  shows "bm_wf (bm_resize m n g)" "bm_size (bm_resize m n g) = n"
  using assms
  by (auto simp: bm_resize_def bm_wf_def size_in_words_def clear_range_of_words_def Let_def)

text \<open>
  \<open>at_put_grow\<close> puts the bit into a map it has grown as needed, except
  that it cannot put the first bit into a map of size zero, which it leaves at
  size zero.
\<close>

theorem at_put_grow_ok:
  assumes "bm_wf m" "2 * max (bm_size m) offset + 64 \<le> size_t_max1"
  shows "if offset = 0 \<and> bm_size m = 0
    then at_put_grow m offset v g = Inl (AssertFailed ''BitMap index out of bounds'')
    else \<exists>m'. at_put_grow m offset v g = Inr m' \<and> bm_wf m' \<and> offset < bm_size m' \<and> bm_at m' offset = v"
proof -
  define m1 where "m1 = (if offset \<ge> bm_size m then bm_resize m (2 * max (bm_size m) offset) g else m)"
  have m1: "bm_wf m1" "bm_size m1 = (if offset \<ge> bm_size m then 2 * offset else bm_size m)"
    using assms bm_resize_wf[OF assms] by (auto simp: m1_def)
  show ?thesis
  proof (cases "offset < bm_size m1")
    case True
    have "\<exists>m'. at_put m1 offset v = Inr m' \<and> range_put m1 offset (Suc offset) v m'"
      using set_bit_put[OF m1(1) True] clear_bit_put[OF m1(1) True] by (simp add: at_put_def)
    then obtain m' where m': "at_put m1 offset v = Inr m'" "range_put m1 offset (Suc offset) v m'" by blast
    have "bm_wf m' \<and> bm_size m' = bm_size m1 \<and> bm_at m' offset = v"
      using range_put_mem[OF m'(2)] True by simp
    moreover have "\<not> (offset = 0 \<and> bm_size m = 0)" using True m1(2) by auto
    ultimately show ?thesis using m' True by (auto simp: at_put_grow_def m1_def[symmetric])
  next
    case False
    then have "offset = 0 \<and> bm_size m = 0" using m1(2) by (auto split: if_splits)
    moreover have "at_put m1 offset v = Inl (AssertFailed ''BitMap index out of bounds'')"
      using False by (simp add: at_put_def bm_set_bit_def bm_clear_bit_def verify_index_def)
    ultimately show ?thesis by (simp add: at_put_grow_def m1_def)
  qed
qed

theorem at_put_grow_ok_witness:
  "at_put_grow \<lparr>bm_map = [], bm_size = 0\<rparr> 0 True (\<lambda>_. 0) = Inl (AssertFailed ''BitMap index out of bounds'') \<and>
   (\<exists>m'. at_put_grow \<lparr>bm_map = [], bm_size = 0\<rparr> 5 True (\<lambda>_. 0) = Inr m' \<and> bm_at m' 5)"
  using at_put_grow_ok[of "\<lparr>bm_map = [], bm_size = 0\<rparr>" 0 True "\<lambda>_. 0"]
    at_put_grow_ok[of "\<lparr>bm_map = [], bm_size = 0\<rparr>" 5 True "\<lambda>_. 0"]
  by (auto simp: bm_wf_def index_defs size_t_max1_def)

end
