(* ===== verification/MemRegions.thy ===== *)
theory MemRegions
  imports GlobalDefs
begin

text \<open>
  \<open>memory/memRegion.hpp\<close> and \<open>memory/memRegion.cpp\<close>: a region is its start
  and its size in words.
\<close>

record mem_region =
  mr_start :: addr
  mr_word_size :: size_t

definition mr_end :: "mem_region \<Rightarrow> addr" where
  "mr_end r = hw_add (mr_start r) (mr_word_size r)"

definition mr_empty :: mem_region where
  "mr_empty = \<lparr>mr_start = NULL, mr_word_size = 0\<rparr>"

definition mem_region_of :: "addr \<Rightarrow> addr \<Rightarrow> mem_region" where
  "mem_region_of s e = \<lparr>mr_start = s, mr_word_size = pointer_delta e s\<rparr>"

definition mr_is_empty :: "mem_region \<Rightarrow> bool" where
  "mr_is_empty r \<longleftrightarrow> mr_word_size r = 0"

definition mr_contains :: "mem_region \<Rightarrow> mem_region \<Rightarrow> bool" where
  "mr_contains r r2 \<longleftrightarrow> mr_start r \<le> mr_start r2 \<and> mr_end r \<ge> mr_end r2"

definition mr_contains_addr :: "mem_region \<Rightarrow> addr \<Rightarrow> bool" where
  "mr_contains_addr r a \<longleftrightarrow> a \<ge> mr_start r \<and> a < mr_end r"

definition mr_equals :: "mem_region \<Rightarrow> mem_region \<Rightarrow> bool" where
  "mr_equals r r2 \<longleftrightarrow>
     mr_is_empty r \<and> mr_is_empty r2 \<or> mr_start r = mr_start r2 \<and> mr_end r = mr_end r2"

definition mr_byte_size :: "mem_region \<Rightarrow> size_t" where
  "mr_byte_size r = mr_word_size r * HeapWordSize"

definition mr_intersection :: "mem_region \<Rightarrow> mem_region \<Rightarrow> mem_region" where
  "mr_intersection r r2 =
     (let res_start = max (mr_start r) (mr_start r2);
          res_end = min (mr_end r) (mr_end r2)
      in if res_start < res_end then mem_region_of res_start res_end else mr_empty)"

definition mr_union :: "mem_region \<Rightarrow> mem_region \<Rightarrow> mem_region result" where
  "mr_union r r2 =
     (if mr_is_empty r then Inr r2
      else if mr_is_empty r2 then Inr (mem_region_of (mr_start r) (mr_end r))
      else if mr_start r \<le> mr_start r2 \<and> mr_end r \<ge> mr_start r2 \<or>
              mr_start r2 \<le> mr_start r \<and> mr_end r2 \<ge> mr_start r
      then Inr (mem_region_of (min (mr_start r) (mr_start r2)) (max (mr_end r) (mr_end r2)))
      else Inl (AssertFailed ''non-adjacent or overlapping regions''))"

definition mr_minus :: "mem_region \<Rightarrow> mem_region \<Rightarrow> mem_region result" where
  "mr_minus r r2 =
     (if mr_end r2 \<le> mr_start r then Inr (mem_region_of (mr_start r) (mr_end r))
      else if mr_start r2 \<le> mr_start r \<and> mr_end r2 \<le> mr_end r then Inr (mem_region_of (mr_end r2) (mr_end r))
      else if mr_start r2 \<ge> mr_end r then Inr (mem_region_of (mr_start r) (mr_end r))
      else if mr_start r2 \<ge> mr_start r \<and> mr_end r2 \<ge> mr_end r
      then Inr (mem_region_of (mr_start r) (mr_start r2))
      else if mr_start r2 \<le> mr_start r \<and> mr_end r2 \<ge> mr_end r then Inr mr_empty
      else Inl (VMExit ''MemRegion::minus, but interior''))"

section \<open>Regions as sets of addresses\<close>

definition mr_addrs :: "mem_region \<Rightarrow> addr set" where
  "mr_addrs r = {a. mr_contains_addr r a}"

text \<open>Word-aligned regions below the end of the address space.\<close>

definition mr_wf :: "mem_region \<Rightarrow> bool" where
  "mr_wf r \<longleftrightarrow> mr_start r mod HeapWordSize = 0 \<and> mr_end r < size_t_max1"

lemma mr_end_ge [simp]: "mr_start r \<le> mr_end r"
  by (simp add: mr_end_def)

lemma mr_end_aligned: "mr_wf r \<Longrightarrow> mr_end r mod HeapWordSize = 0"
  by (simp add: mr_wf_def mr_end_def hw_add_def)

lemma mr_end_of:
  assumes "s \<le> e" "e < size_t_max1" "s mod HeapWordSize = 0" "e mod HeapWordSize = 0"
  shows "mr_end (mem_region_of s e) = e"
proof -
  have "(e - s) mod HeapWordSize = 0" using assms(3,4) by (simp add: mod_eq_0_iff_dvd dvd_diff_nat)
  then show ?thesis
    using assms(1,2) by (simp add: mr_end_def mem_region_of_def pointer_delta_le hw_add_def mod_eq_0_iff_dvd)
qed

lemma mr_start_of [simp]: "mr_start (mem_region_of s e) = s"
  by (simp add: mem_region_of_def)

lemma mr_is_empty_iff: "mr_is_empty r \<longleftrightarrow> mr_start r = mr_end r"
  by (simp add: mr_is_empty_def mr_end_def hw_add_def HeapWordSize_def)

lemma mr_addrs_of:
  "\<lbrakk>s \<le> e; e < size_t_max1; s mod HeapWordSize = 0; e mod HeapWordSize = 0\<rbrakk> \<Longrightarrow>
   mr_addrs (mem_region_of s e) = {s..<e} \<and> mr_wf (mem_region_of s e)"
  by (auto simp: mr_addrs_def mr_contains_addr_def mr_end_of mr_wf_def)

lemma mr_addrs_empty: "mr_addrs mr_empty = {} \<and> mr_wf mr_empty"
  by (auto simp: mr_addrs_def mr_contains_addr_def mr_empty_def mr_end_def mr_wf_def size_t_max1_def)

lemma mr_addrs_eq: "mr_addrs r = {mr_start r..<mr_end r}"
  by (auto simp: mr_addrs_def mr_contains_addr_def)

lemmas mr_wf_bounds = mr_wf_def mr_end_aligned

lemma mr_intersection_addrs:
  assumes "mr_wf r" "mr_wf r2"
  shows "mr_addrs (mr_intersection r r2) = mr_addrs r \<inter> mr_addrs r2 \<and> mr_wf (mr_intersection r r2)"
proof (cases "max (mr_start r) (mr_start r2) < min (mr_end r) (mr_end r2)")
  case True
  have "mr_addrs (mem_region_of (max (mr_start r) (mr_start r2)) (min (mr_end r) (mr_end r2))) =
      {max (mr_start r) (mr_start r2)..<min (mr_end r) (mr_end r2)} \<and>
      mr_wf (mem_region_of (max (mr_start r) (mr_start r2)) (min (mr_end r) (mr_end r2)))"
    using True assms mr_end_aligned[of r] mr_end_aligned[of r2]
    by (intro mr_addrs_of) (auto simp: max_def min_def mr_wf_def)
  then show ?thesis using True by (auto simp: mr_intersection_def mr_addrs_eq)
next
  case False
  then show ?thesis using mr_addrs_empty by (auto simp: mr_intersection_def mr_addrs_eq)
qed

lemma mr_intersection_sub:
  assumes "mr_wf r" "mr_wf r2" "\<not> mr_is_empty (mr_intersection r r2)"
  shows "mr_contains r2 (mr_intersection r r2)"
proof -
  let ?i = "mr_intersection r r2"
  have lt: "mr_start ?i < mr_end ?i" using assms(3) by (simp add: mr_is_empty_iff le_neq_implies_less)
  have "{mr_start ?i..<mr_end ?i} \<subseteq> {mr_start r2..<mr_end r2}"
    using mr_intersection_addrs[OF assms(1,2)] unfolding mr_addrs_eq by blast
  then show ?thesis using lt by (simp add: mr_contains_def atLeastLessThan_subset_iff)
qed

text \<open>
  intersection and difference of regions are those of the sets of addresses
  they hold, and give word-aligned regions again; the difference refuses exactly
  the removal of a proper interior part.
\<close>

theorem mr_set_operations:
  assumes "mr_wf r" "mr_wf r2"
  shows "mr_addrs (mr_intersection r r2) = mr_addrs r \<inter> mr_addrs r2 \<and> mr_wf (mr_intersection r r2) \<and>
    (if mr_start r < mr_start r2 \<and> mr_end r2 < mr_end r \<and> \<not> mr_is_empty r2
     then mr_minus r r2 = Inl (VMExit ''MemRegion::minus, but interior'')
     else \<not> mr_is_empty r2 \<longrightarrow>
       (\<exists>d. mr_minus r r2 = Inr d \<and> mr_wf d \<and> mr_addrs d = mr_addrs r - mr_addrs r2))"
proof -
  have b: "mr_end r < size_t_max1" "mr_end r2 < size_t_max1" "mr_start r mod HeapWordSize = 0"
      "mr_start r2 mod HeapWordSize = 0" "mr_end r mod HeapWordSize = 0" "mr_end r2 mod HeapWordSize = 0"
      "mr_start r \<le> mr_end r" "mr_start r2 \<le> mr_end r2"
    using assms mr_end_aligned by (auto simp: mr_wf_def)
  have i: "mr_addrs (mr_intersection r r2) = mr_addrs r \<inter> mr_addrs r2 \<and> mr_wf (mr_intersection r r2)"
    by (rule mr_intersection_addrs[OF assms])
  have m: "\<exists>d. mr_minus r r2 = Inr d \<and> mr_wf d \<and> mr_addrs d = mr_addrs r - mr_addrs r2"
    if "\<not> (mr_start r < mr_start r2 \<and> mr_end r2 < mr_end r)" "\<not> mr_is_empty r2"
  proof -
    have "mr_start r2 < mr_end r2" using that(2) by (simp add: mr_is_empty_iff le_neq_implies_less)
    then show ?thesis
      using that(1) b mr_addrs_of[of "mr_start r" "mr_end r"] mr_addrs_of[of "mr_end r2" "mr_end r"]
        mr_addrs_of[of "mr_start r" "mr_start r2"] mr_addrs_empty
      by (auto simp: mr_minus_def mr_addrs_eq[of r] mr_addrs_eq[of r2])
  qed
  have "mr_minus r r2 = Inl (VMExit ''MemRegion::minus, but interior'')"
    if "mr_start r < mr_start r2" "mr_end r2 < mr_end r" "\<not> mr_is_empty r2"
    using that b by (auto simp: mr_minus_def mr_is_empty_iff simp del: mr_end_ge)
  then show ?thesis using i m by auto
qed

theorem mr_set_operations_witness:
  "let r = \<lparr>mr_start = 800, mr_word_size = 10\<rparr>; r2 = \<lparr>mr_start = 840, mr_word_size = 10\<rparr>
   in mr_addrs (mr_intersection r r2) = {840..<880} \<and>
     (\<exists>d. mr_minus r r2 = Inr d \<and> mr_addrs d = {800..<840})"
  using mr_set_operations[of "\<lparr>mr_start = 800, mr_word_size = 10\<rparr>" "\<lparr>mr_start = 840, mr_word_size = 10\<rparr>"]
  by (fastforce simp: mr_wf_def mr_end_def hw_add_def HeapWordSize_def size_t_max1_def mr_is_empty_def
      mr_addrs_eq Let_def)

end
