(* ===== verification/BumpSpaces.thy ===== *)
theory BumpSpaces
  imports GlobalDefs
begin

text \<open>
  The contract of the allocators that hand out memory by moving a top pointer:
  the spaces, the containers and the promotion buffers.  What their callers rely
  on, that no two blocks overlap and all lie in the space, is proved here once.
\<close>

text \<open>The blocks a sequence of requests gets, as pairs of address and size.\<close>

fun alloc_all :: "('s \<Rightarrow> size_t \<Rightarrow> 's \<times> addr option) \<Rightarrow> 's \<Rightarrow> size_t list \<Rightarrow> 's \<times> (addr \<times> size_t) list" where
  "alloc_all alloc s [] = (s, [])"
| "alloc_all alloc s (n # ns) =
     (let (s1, r) = alloc s n; (s2, bs) = alloc_all alloc s1 ns
      in (s2, (case r of None \<Rightarrow> bs | Some p \<Rightarrow> (p, n) # bs)))"

definition before :: "addr \<times> size_t \<Rightarrow> addr \<times> size_t \<Rightarrow> bool" where
  "before b c \<longleftrightarrow> hw_add (fst b) (snd b) \<le> fst c"

locale bump_space =
  fixes ok :: "'s \<Rightarrow> bool"
    and cur :: "'s \<Rightarrow> addr"
    and lim :: "'s \<Rightarrow> addr"
    and alloc :: "'s \<Rightarrow> size_t \<Rightarrow> 's \<times> addr option"
    and good :: "size_t \<Rightarrow> bool"
  assumes alloc_some: "\<lbrakk>ok s; good n; alloc s n = (s', Some p)\<rbrakk> \<Longrightarrow>
      ok s' \<and> lim s' = lim s \<and> cur s \<le> p \<and> hw_add p n \<le> cur s' \<and> cur s' \<le> lim s"
    and alloc_none: "\<lbrakk>ok s; good n; alloc s n = (s', None)\<rbrakk> \<Longrightarrow> s' = s"
begin

lemma alloc_all_bounds:
  assumes "ok s" "list_all good ns" "alloc_all alloc s ns = (s', bs)"
  shows "ok s' \<and> lim s' = lim s \<and> cur s \<le> cur s' \<and>
    (\<forall>b \<in> set bs. cur s \<le> fst b \<and> hw_add (fst b) (snd b) \<le> cur s' \<and> hw_add (fst b) (snd b) \<le> lim s)"
  using assms
proof (induction ns arbitrary: s s' bs)
  case (Cons n ns)
  obtain s1 r where a: "alloc s n = (s1, r)" by fastforce
  obtain s2 bs2 where b: "alloc_all alloc s1 ns = (s2, bs2)" by fastforce
  show ?case
  proof (cases r)
    case None
    then have "s1 = s" using alloc_none[of s n s1] Cons.prems a by simp
    then show ?thesis using Cons.IH[of s s2 bs2] Cons.prems a b None by auto
  next
    case (Some p)
    have 1: "ok s1" "lim s1 = lim s" "cur s \<le> p" "hw_add p n \<le> cur s1" "cur s1 \<le> lim s"
      using alloc_some[of s n s1 p] Cons.prems a Some by auto
    have "cur s \<le> cur s1" using 1(3,4) hw_add_ge[of p n] by linarith
    then show ?thesis
      using Cons.IH[OF 1(1) _ b] Cons.prems a b Some 1 by fastforce
  qed
qed simp

lemma alloc_all_disjoint:
  assumes "ok s" "list_all good ns" "alloc_all alloc s ns = (s', bs)"
  shows "sorted_wrt before bs"
  using assms
proof (induction ns arbitrary: s s' bs)
  case (Cons n ns)
  obtain s1 r where a: "alloc s n = (s1, r)" by fastforce
  obtain s2 bs2 where b: "alloc_all alloc s1 ns = (s2, bs2)" by fastforce
  have ok1: "ok s1" using alloc_none[of s n s1] alloc_some[of s n s1] Cons.prems a by (cases r) auto
  have s: "sorted_wrt before bs2" using Cons.IH[OF ok1 _ b] Cons.prems by simp
  show ?case
  proof (cases r)
    case (Some p)
    have "\<forall>c \<in> set bs2. before (p, n) c"
      using alloc_all_bounds[OF ok1 _ b] alloc_some[of s n s1 p] Cons.prems a Some
      by (fastforce simp: before_def)
    then show ?thesis using s Cons.prems a b Some by auto
  qed (use s Cons.prems a b in auto)
qed simp

end

end
