(* ===== verification/MutableSpaces.thy ===== *)
theory MutableSpaces
  imports MemRegions BumpSpaces
begin

text \<open>
  \<open>gc_implementation/shared/mutableSpace.hpp\<close> and \<open>mutableSpace.cpp\<close>: a
  space between \<open>bottom\<close> and \<open>end\<close> whose objects end at \<open>top\<close>.  The
  debug-only mangler is left out.  Calls into the operating system made while
  pages are set up are collected in a list; the scaling by
  \<open>NUMASpaceResizeRate\<close>, which the source computes in floating point, is a
  parameter.
\<close>

section \<open>State\<close>

record mspace =
  ms_bottom :: addr
  ms_end :: addr
  ms_top :: addr
  ms_alignment :: size_t
  ms_last_setup :: mem_region

definition new_mspace :: "size_t \<Rightarrow> size_t \<Rightarrow> mspace result" where
  "new_mspace vm_page_size alignment =
     (if alignment mod vm_page_size = 0
      then Inr \<lparr>ms_bottom = NULL, ms_end = NULL, ms_top = NULL, ms_alignment = alignment,
                ms_last_setup = mr_empty\<rparr>
      else Inl (AssertFailed ''Space should be aligned''))"

definition ms_used_region :: "mspace \<Rightarrow> mem_region" where
  "ms_used_region s = mem_region_of (ms_bottom s) (ms_top s)"

definition ms_contains :: "mspace \<Rightarrow> addr \<Rightarrow> bool" where
  "ms_contains s p \<longleftrightarrow> ms_bottom s \<le> p \<and> p < ms_end s"

definition ms_capacity_in_words :: "mspace \<Rightarrow> size_t" where
  "ms_capacity_in_words s = pointer_delta (ms_end s) (ms_bottom s)"

definition ms_capacity_in_bytes :: "mspace \<Rightarrow> size_t" where
  "ms_capacity_in_bytes s = ms_capacity_in_words s * HeapWordSize"

definition ms_used_in_words :: "mspace \<Rightarrow> size_t" where
  "ms_used_in_words s = pointer_delta (ms_top s) (ms_bottom s)"

definition ms_free_in_words :: "mspace \<Rightarrow> size_t" where
  "ms_free_in_words s = pointer_delta (ms_end s) (ms_top s)"

definition ms_used_in_bytes :: "mspace \<Rightarrow> size_t" where
  "ms_used_in_bytes s = ms_used_in_words s * HeapWordSize"

definition ms_free_in_bytes :: "mspace \<Rightarrow> size_t" where
  "ms_free_in_bytes s = ms_free_in_words s * HeapWordSize"

definition ms_is_empty :: "mspace \<Rightarrow> bool" where
  "ms_is_empty s \<longleftrightarrow> ms_used_in_words s = 0"

definition ms_not_empty :: "mspace \<Rightarrow> bool" where
  "ms_not_empty s \<longleftrightarrow> ms_used_in_words s > 0"

section \<open>Setting up pages\<close>

datatype os_call =
    Os_free_memory addr size_t size_t
  | Os_numa_make_global addr size_t
  | Os_pretouch addr addr

record setup_flags =
  UseNUMA :: bool
  AlwaysPreTouch :: bool
  UseLargePages :: bool
  NUMASpaceResizeRate :: size_t
  vm_page_size :: size_t

definition numa_setup_pages :: "setup_flags \<Rightarrow> mspace \<Rightarrow> mem_region \<Rightarrow> bool \<Rightarrow> os_call list" where
  "numa_setup_pages fl s mr clear_space =
     (if mr_is_empty mr then []
      else
        (let page_size = (if UseLargePages fl then ms_alignment s else vm_page_size fl);
             start = round_to (int (mr_start mr)) (int page_size);
             e = round_down (int (mr_end mr)) (int page_size)
         in if e > start then
              (let sz = pointer_delta_sz (nat e) (nat start) 1
               in (if clear_space then [Os_free_memory (nat start) sz page_size] else [])
                  @ [Os_numa_make_global (nat start) sz])
            else []))"

definition pretouch_pages :: "mem_region \<Rightarrow> os_call list" where
  "pretouch_pages mr = [Os_pretouch (mr_start mr) (mr_end mr)]"

text \<open>
  Head and tail of the region that still have to be set up; \<open>scale rate part
  whole\<close> is \<open>(size_t)(setup_rate_words * part / whole)\<close>.
\<close>

definition setup_head_tail ::
  "setup_flags \<Rightarrow> (size_t \<Rightarrow> size_t \<Rightarrow> size_t \<Rightarrow> size_t) \<Rightarrow> mem_region \<Rightarrow> mem_region \<Rightarrow> mem_region \<times> mem_region" where
  "setup_head_tail fl scale last_setup mr =
     (if mr_is_empty last_setup then (mr, mem_region_of (mr_end mr) (mr_end mr))
      else
        (let i0 = mr_intersection last_setup mr;
             isect = (if mr_is_empty i0 then mem_region_of (mr_end mr) (mr_end mr) else i0);
             head_size = (if mr_start mr \<le> mr_start isect
                          then pointer_delta (mr_start isect) (mr_start mr) else 0);
             tail_size = (if mr_end isect \<le> mr_end mr
                          then pointer_delta (mr_end mr) (mr_end isect) else 0);
             limited = NUMASpaceResizeRate fl > 0 \<and> \<not> AlwaysPreTouch fl;
             change_size = head_size + tail_size;
             setup_rate_words = NUMASpaceResizeRate fl div 2 ^ LogHeapWordSize;
             head_size = (if limited then min (scale setup_rate_words head_size change_size) head_size
                          else head_size);
             tail_size = (if limited then min (scale setup_rate_words tail_size change_size) tail_size
                          else tail_size)
         in (mem_region_of (mr_start isect - head_size * HeapWordSize) (mr_start isect),
             mem_region_of (mr_end isect) (hw_add (mr_end isect) tail_size))))"

definition ms_clear :: "mspace \<Rightarrow> mspace" where
  "ms_clear s = s\<lparr>ms_top := ms_bottom s\<rparr>"

definition ms_initialize ::
  "setup_flags \<Rightarrow> (size_t \<Rightarrow> size_t \<Rightarrow> size_t \<Rightarrow> size_t) \<Rightarrow> mspace \<Rightarrow> mem_region \<Rightarrow> bool \<Rightarrow> bool \<Rightarrow>
   (mspace \<times> os_call list) result" where
  "ms_initialize fl scale s mr clear_space setup_pages =
     (if mr_start mr mod vm_page_size fl = 0 \<and> mr_end mr mod vm_page_size fl = 0 then
        (let finish = (\<lambda>s. let s1 = s\<lparr>ms_bottom := mr_start mr, ms_end := mr_end mr\<rparr>
                          in if clear_space then ms_clear s1 else s1)
         in if setup_pages \<and> (UseNUMA fl \<or> AlwaysPreTouch fl) then
              (let (head, tail) = setup_head_tail fl scale (ms_last_setup s) mr
               in if mr_contains mr head \<and> mr_contains mr tail then
                    Inr (finish (s\<lparr>ms_last_setup := mem_region_of (mr_start head) (mr_end tail)\<rparr>),
                         (if UseNUMA fl
                          then numa_setup_pages fl s head clear_space @ numa_setup_pages fl s tail clear_space
                          else [])
                         @ (if AlwaysPreTouch fl then pretouch_pages head @ pretouch_pages tail else []))
                  else Inl (AssertFailed ''Sanity''))
            else Inr (finish s, []))
      else Inl (AssertFailed ''invalid space boundaries''))"

section \<open>Allocation\<close>

definition word_aligned :: "addr \<Rightarrow> bool" where
  "word_aligned p \<longleftrightarrow> p mod HeapWordSize = 0"

text \<open>
  \<open>allocate\<close>, and \<open>cas_allocate\<close> with no other thread.  NULL is None.  The assertions on
  the lock of the caller and on the alignment of the block and of the new top are left out; with
  objects aligned to words the latter hold by \<open>ms_allocate_aligned_ends\<close> below.
\<close>

definition ms_allocate :: "mspace \<Rightarrow> size_t \<Rightarrow> mspace \<times> addr option" where
  "ms_allocate s n =
     (let obj = ms_top s
      in if pointer_delta (ms_end s) obj \<ge> n then (s\<lparr>ms_top := hw_add obj n\<rparr>, Some obj) else (s, None))"

definition ms_cas_allocate :: "mspace \<Rightarrow> size_t \<Rightarrow> mspace \<times> addr option" where
  "ms_cas_allocate s n =
     (let obj = ms_top s
      in if pointer_delta (ms_end s) obj \<ge> n then (s\<lparr>ms_top := hw_add obj n\<rparr>, Some obj) else (s, None))"

definition card_alignment :: nat where
  "card_alignment = 2 ^ 9"

text \<open>
  \<open>cas_allocate_aligned\<close>: the third component is the filler object it installs
  in front of the block, if any, as address and size.
\<close>

definition ms_cas_allocate_aligned ::
  "size_t \<Rightarrow> mspace \<Rightarrow> size_t \<Rightarrow> mspace \<times> addr option \<times> (addr \<times> size_t) option" where
  "ms_cas_allocate_aligned filler_min_sz s n =
     (let obj = ms_top s
      in if pointer_delta (ms_end s) obj \<ge> n then
           (let new_top = align_ptr_up (hw_add obj n) card_alignment;
                res = align_ptr_up obj card_alignment;
                gap = pointer_delta res obj
            in (s\<lparr>ms_top := new_top\<rparr>, Some res,
                (if gap \<ge> filler_min_sz then Some (obj, gap) else None)))
         else (s, None, None))"

definition ms_cas_deallocate :: "mspace \<Rightarrow> addr \<Rightarrow> size_t \<Rightarrow> mspace \<times> bool" where
  "ms_cas_deallocate s obj n =
     (let expected_top = hw_add obj n
      in if ms_top s = expected_top then (s\<lparr>ms_top := obj\<rparr>, True) else (s, False))"

section \<open>Walking over objects\<close>

text \<open>
  The iteration loops: from object to object by their sizes, \<open>osize\<close>.  None is
  a loop that does not end because it met a size of zero.
\<close>

function walk_objects :: "(addr \<Rightarrow> size_t) \<Rightarrow> addr \<Rightarrow> addr \<Rightarrow> (addr list \<times> addr) option" where
  "walk_objects osize p t =
     (if p < t then
        (if osize p = 0 then None
         else map_option (\<lambda>(ps, q). (p # ps, q)) (walk_objects osize (hw_add p (osize p)) t))
      else Some ([], p))"
  by pat_completeness auto
termination
  by (relation "measure (\<lambda>(osize, p, t). t - p)") (auto simp: hw_add_def HeapWordSize_def)

declare walk_objects.simps [simp del]

definition ms_object_iterate :: "(addr \<Rightarrow> size_t) \<Rightarrow> mspace \<Rightarrow> addr list option" where
  "ms_object_iterate osize s = map_option fst (walk_objects osize (ms_bottom s) (ms_top s))"

definition ms_oop_iterate :: "(addr \<Rightarrow> size_t) \<Rightarrow> mspace \<Rightarrow> addr list option" where
  "ms_oop_iterate osize s = map_option fst (walk_objects osize (ms_bottom s) (ms_top s))"

definition ms_oop_iterate_no_header :: "(addr \<Rightarrow> size_t) \<Rightarrow> mspace \<Rightarrow> addr list option" where
  "ms_oop_iterate_no_header osize s = map_option fst (walk_objects osize (ms_bottom s) (ms_top s))"

definition ms_verify :: "(addr \<Rightarrow> size_t) \<Rightarrow> mspace \<Rightarrow> unit result option" where
  "ms_verify osize s =
     map_option
       (\<lambda>(_, q). if q = ms_top s then Inr () else Inl (VMExit ''end of last object must match end of space''))
       (walk_objects osize (ms_bottom s) (ms_top s))"

section \<open>Invariant and allocation\<close>

definition ms_inv :: "mspace \<Rightarrow> bool" where
  "ms_inv s \<longleftrightarrow>
     ms_bottom s \<le> ms_top s \<and> ms_top s \<le> ms_end s \<and> ms_end s < size_t_max1 \<and> word_aligned (ms_top s)"

lemma word_aligned_hw_add [simp]: "word_aligned (hw_add p n) \<longleftrightarrow> word_aligned p"
  by (simp add: word_aligned_def hw_add_def)

lemma ms_allocate_cases:
  assumes "ms_inv s"
  shows "ms_allocate s n =
    (if hw_add (ms_top s) n \<le> ms_end s then (s\<lparr>ms_top := hw_add (ms_top s) n\<rparr>, Some (ms_top s)) else (s, None))"
  using assms by (simp add: ms_allocate_def ms_inv_def pointer_delta_ge_iff Let_def)

lemma ms_cas_allocate_eq: "ms_cas_allocate s n = ms_allocate s n"
  by (simp add: ms_cas_allocate_def ms_allocate_def)

interpretation ms: bump_space ms_inv ms_top ms_end ms_allocate "\<lambda>_. True"
proof
  fix s n s' p assume "ms_inv s" "ms_allocate s n = (s', Some p)"
  then show "ms_inv s' \<and> ms_end s' = ms_end s \<and> ms_top s \<le> p \<and> hw_add p n \<le> ms_top s' \<and> ms_top s' \<le> ms_end s"
    using hw_add_ge[of "ms_top s" n]
    by (auto simp: ms_allocate_cases ms_inv_def split: if_splits simp del: hw_add_ge)
qed (simp add: ms_allocate_cases split: if_splits)

text \<open>
  C34: the blocks a space hands out, in whatever order and of whatever sizes they
  are requested, are disjoint, lie between the old top and the end of the space,
  and leave its invariant intact.
\<close>

theorem ms_allocate_disjoint:
  assumes "ms_inv s" "alloc_all ms_allocate s ns = (s', bs)"
  shows "ms_inv s' \<and> sorted_wrt before bs \<and>
    (\<forall>b \<in> set bs. ms_top s \<le> fst b \<and> hw_add (fst b) (snd b) \<le> ms_end s)"
  using ms.alloc_all_bounds[OF assms(1) _ assms(2)] ms.alloc_all_disjoint[OF assms(1) _ assms(2)]
  by (simp add: list_all_iff)

definition sample_space :: mspace where
  "sample_space = \<lparr>ms_bottom = 1024, ms_end = 4096, ms_top = 1032, ms_alignment = 4096,
     ms_last_setup = mr_empty\<rparr>"

lemma sample_space_inv: "ms_inv sample_space"
  by (simp add: ms_inv_def sample_space_def word_aligned_def HeapWordSize_def size_t_max1_def)

lemma sample_space_allocs:
  "alloc_all ms_allocate sample_space [3, 1000, 2] = (sample_space\<lparr>ms_top := 1072\<rparr>, [(1032, 3), (1056, 2)])"
proof -
  have "pointer_delta 4096 p = (4096 - p) div 8" if "p \<le> 4096" for p
    using that pointer_delta_le[of p 4096] by (simp add: HeapWordSize_def size_t_max1_def)
  then show ?thesis
    by (simp add: ms_allocate_def sample_space_def hw_add_def HeapWordSize_def Let_def)
qed

theorem ms_allocate_disjoint_witness:
  "ms_inv (sample_space\<lparr>ms_top := 1072\<rparr>) \<and> sorted_wrt before [(1032, 3), (1056, 2)]"
  using ms_allocate_disjoint[OF sample_space_inv sample_space_allocs] by blast

text \<open>The card-aligned allocator, without the filler it installs.\<close>

definition ms_alloc_aligned :: "size_t \<Rightarrow> mspace \<Rightarrow> size_t \<Rightarrow> mspace \<times> addr option" where
  "ms_alloc_aligned filler_min_sz s n =
     (let (s', r, _) = ms_cas_allocate_aligned filler_min_sz s n in (s', r))"

definition whole_cards :: "size_t \<Rightarrow> bool" where
  "whole_cards n \<longleftrightarrow> n mod 64 = 0"

definition ms_card_inv :: "mspace \<Rightarrow> bool" where
  "ms_card_inv s \<longleftrightarrow> ms_inv s \<and> ms_end s mod card_alignment = 0"

lemma ms_alloc_aligned_cases:
  assumes "ms_inv s"
  shows "ms_alloc_aligned f s n =
    (if hw_add (ms_top s) n \<le> ms_end s
     then (s\<lparr>ms_top := align_ptr_up (hw_add (ms_top s) n) (2 ^ 9)\<rparr>, Some (align_ptr_up (ms_top s) (2 ^ 9)))
     else (s, None))"
  using assms
  by (simp add: ms_alloc_aligned_def ms_cas_allocate_aligned_def ms_inv_def pointer_delta_ge_iff
      card_alignment_def Let_def)

lemma aligned_512_words: "2 ^ 9 dvd p \<Longrightarrow> word_aligned p"
  by (auto simp: word_aligned_def HeapWordSize_def elim!: dvdE)

interpretation msa: bump_space ms_card_inv ms_top ms_end "ms_alloc_aligned f" whole_cards for f
proof
  fix s n s' p assume a: "ms_card_inv s" "whole_cards n" "ms_alloc_aligned f s n = (s', Some p)"
  have inv: "ms_inv s" and e: "2 ^ 9 dvd ms_end s"
    using a(1) by (auto simp: ms_card_inv_def card_alignment_def mod_eq_0_iff_dvd)
  have fits: "hw_add (ms_top s) n \<le> ms_end s" and
    s': "s' = s\<lparr>ms_top := align_ptr_up (hw_add (ms_top s) n) (2 ^ 9)\<rparr>" and p: "p = align_ptr_up (ms_top s) (2 ^ 9)"
    using a(3) ms_alloc_aligned_cases[OF inv, of f n] by (auto split: if_splits)
  have "2 ^ 9 dvd n * HeapWordSize" using a(2) by (auto simp: whole_cards_def HeapWordSize_def elim!: dvdE)
  then have top: "ms_top s' = hw_add p n" using align_ptr_up_add[of 9] by (simp add: s' p hw_add_def)
  have "ms_top s' \<le> ms_end s" using align_ptr_up_least[OF fits e] by (simp add: s')
  moreover have "word_aligned (ms_top s')"
    using aligned_512_words[OF align_ptr_up_dvd] by (simp add: s')
  moreover have "ms_top s \<le> p" using align_ptr_up_ge[of "ms_top s" 9] by (simp only: p)
  moreover have "ms_top s \<le> ms_top s'" using calculation(3) top hw_add_ge[of p n] by linarith
  ultimately show "ms_card_inv s' \<and> ms_end s' = ms_end s \<and> ms_top s \<le> p \<and> hw_add p n \<le> ms_top s' \<and>
      ms_top s' \<le> ms_end s"
    using a(1) top by (auto simp: ms_card_inv_def ms_inv_def s')
next
  fix s n s' assume "ms_card_inv s" "whole_cards n" "ms_alloc_aligned f s n = (s', None)"
  then show "s' = s" by (auto simp: ms_card_inv_def ms_alloc_aligned_cases split: if_splits)
qed

lemma alloc_all_on_cards:
  "alloc_all (ms_alloc_aligned f) s ns = (s', bs) \<Longrightarrow> b \<in> set bs \<Longrightarrow> card_alignment dvd fst b"
proof (induction ns arbitrary: s bs)
  case (Cons n ns)
  obtain s1 r where 1: "ms_alloc_aligned f s n = (s1, r)" by (rule prod.exhaust)
  obtain s2 bs1 where "alloc_all (ms_alloc_aligned f) s1 ns = (s2, bs1)" by (rule prod.exhaust)
  then have 2: "alloc_all (ms_alloc_aligned f) s1 ns = (s', bs1)" "bs = (case r of None \<Rightarrow> bs1 | Some p \<Rightarrow> (p, n) # bs1)"
    using Cons.prems(1) 1 by simp_all
  moreover have "card_alignment dvd p" if "r = Some p" for p
    using 1 that align_ptr_up_dvd[of 9 "ms_top s"]
    by (auto simp: ms_alloc_aligned_def ms_cas_allocate_aligned_def Let_def card_alignment_def split: if_splits)
  ultimately show ?case using Cons.IH[OF 2(1)] Cons.prems(2) by (auto split: option.splits)
qed simp

text \<open>
  C35: the card-aligned allocator hands out disjoint blocks inside the space, each
  on a card boundary, when the space ends on a card boundary and the requests are
  for whole cards.
\<close>

theorem ms_aligned_disjoint:
  assumes "ms_card_inv s" "list_all whole_cards ns" "alloc_all (ms_alloc_aligned f) s ns = (s', bs)"
  shows "ms_card_inv s' \<and> sorted_wrt before bs \<and>
    (\<forall>b \<in> set bs. ms_top s \<le> fst b \<and> hw_add (fst b) (snd b) \<le> ms_end s \<and> card_alignment dvd fst b)"
  using msa.alloc_all_bounds[OF assms] msa.alloc_all_disjoint[OF assms] alloc_all_on_cards[OF assms(3)] by blast

text \<open>The assertions on alignment in the three allocators.\<close>

lemma ms_allocate_aligned_ends:
  assumes "ms_inv s"
  shows "ms_allocate s n = (s', Some p) \<Longrightarrow> word_aligned p \<and> word_aligned (ms_top s')"
    and "ms_cas_allocate s n = (s', Some p) \<Longrightarrow> word_aligned p \<and> word_aligned (ms_top s')"
    and "ms_alloc_aligned f s n = (s', Some p) \<Longrightarrow> word_aligned p \<and> word_aligned (ms_top s')"
proof -
  have "word_aligned (ms_top s)" using assms by (simp add: ms_inv_def)
  then show "ms_allocate s n = (s', Some p) \<Longrightarrow> word_aligned p \<and> word_aligned (ms_top s')"
    and "ms_cas_allocate s n = (s', Some p) \<Longrightarrow> word_aligned p \<and> word_aligned (ms_top s')"
    by (auto simp: ms_allocate_def ms_cas_allocate_def Let_def split: if_splits)
  show "ms_alloc_aligned f s n = (s', Some p) \<Longrightarrow> word_aligned p \<and> word_aligned (ms_top s')"
    using aligned_512_words[OF align_ptr_up_dvd] by (auto simp: ms_alloc_aligned_cases[OF assms] split: if_splits)
qed

lemma sample_space_card_inv: "ms_card_inv sample_space"
  using sample_space_inv by (simp add: ms_card_inv_def sample_space_def card_alignment_def)

lemma align_ptr_up_512:
  "align_ptr_up 1032 (2 ^ 9) = 1536" "align_ptr_up 1040 (2 ^ 9) = 1536" "align_ptr_up 1536 (2 ^ 9) = 1536"
  "align_ptr_up 1544 (2 ^ 9) = 2048" "align_ptr_up 1560 (2 ^ 9) = 2048"
  "align_ptr_up 2048 (2 ^ 9) = 2048" "align_ptr_up 3072 (2 ^ 9) = 3072"
  unfolding align_ptr_up_def of_nat_power of_nat_numeral align_size_up_pow2 by simp_all

lemma sample_space_aligned:
  "alloc_all (ms_alloc_aligned 2) sample_space [64, 128] = (sample_space\<lparr>ms_top := 3072\<rparr>, [(1536, 64), (2048, 128)])"
proof -
  have i: "ms_inv (sample_space\<lparr>ms_top := 2048\<rparr>)"
    by (simp add: ms_inv_def sample_space_def word_aligned_def HeapWordSize_def size_t_max1_def)
  have "ms_alloc_aligned 2 sample_space 64 = (sample_space\<lparr>ms_top := 2048\<rparr>, Some 1536)"
    using align_ptr_up_512 by (subst ms_alloc_aligned_cases[OF sample_space_inv])
      (simp add: sample_space_def hw_add_def HeapWordSize_def)
  moreover have "ms_alloc_aligned 2 (sample_space\<lparr>ms_top := 2048\<rparr>) 128 = (sample_space\<lparr>ms_top := 3072\<rparr>, Some 2048)"
    using align_ptr_up_512 by (subst ms_alloc_aligned_cases[OF i]) (simp add: sample_space_def hw_add_def HeapWordSize_def)
  ultimately show ?thesis by simp
qed

theorem ms_aligned_disjoint_witness:
  "ms_card_inv (sample_space\<lparr>ms_top := 3072\<rparr>) \<and> sorted_wrt before [(1536, 64), (2048, 128)] \<and>
   card_alignment dvd 1536 \<and> card_alignment dvd 2048"
proof -
  have "list_all whole_cards [64, 128]" by (simp add: whole_cards_def)
  from ms_aligned_disjoint[OF sample_space_card_inv this sample_space_aligned] show ?thesis by auto
qed

text \<open>
  for a request that is not for whole cards the block can lie above the new
  top, and the next request then gets the same memory.
\<close>

theorem ms_aligned_overlap:
  "\<exists>s1 s2. ms_alloc_aligned f sample_space 1 = (s1, Some 1536) \<and> ms_alloc_aligned f s1 3 = (s2, Some 1536)"
proof -
  have 1: "ms_alloc_aligned f sample_space 1 = (sample_space\<lparr>ms_top := 1536\<rparr>, Some 1536)"
    using align_ptr_up_512
    by (subst ms_alloc_aligned_cases[OF sample_space_inv])
       (simp add: sample_space_def hw_add_def HeapWordSize_def)
  have inv: "ms_inv (sample_space\<lparr>ms_top := 1536\<rparr>)"
    by (simp add: ms_inv_def sample_space_def word_aligned_def HeapWordSize_def size_t_max1_def)
  have "ms_alloc_aligned f (sample_space\<lparr>ms_top := 1536\<rparr>) 3 = (sample_space\<lparr>ms_top := 2048\<rparr>, Some 1536)"
    using align_ptr_up_512
    by (subst ms_alloc_aligned_cases[OF inv]) (simp add: sample_space_def hw_add_def HeapWordSize_def)
  with 1 show ?thesis by blast
qed

section \<open>Parsable spaces\<close>

text \<open>The objects \<open>os\<close> fill the memory from \<open>p\<close> to \<open>q\<close> without a gap.\<close>

fun tiles :: "(addr \<Rightarrow> size_t) \<Rightarrow> addr \<Rightarrow> addr list \<Rightarrow> addr \<Rightarrow> bool" where
  "tiles osize p [] q \<longleftrightarrow> p = q"
| "tiles osize p (x # xs) q \<longleftrightarrow> p = x \<and> osize x > 0 \<and> tiles osize (hw_add x (osize x)) xs q"

lemma tiles_le: "tiles osize p os q \<Longrightarrow> p \<le> q"
  by (induction os arbitrary: p) (auto intro: order_trans[OF hw_add_ge])

lemma hw_add_gt: "0 < n \<Longrightarrow> p < hw_add p n"
  by (simp add: hw_add_def HeapWordSize_def)

lemma walk_objects_tiles: "tiles osize p os q \<Longrightarrow> walk_objects osize p q = Some (os, q)"
proof (induction os arbitrary: p)
  case Nil
  then show ?case by (subst walk_objects.simps) simp
next
  case (Cons x os)
  have "p < q" using Cons.prems tiles_le[of osize _ os q] hw_add_gt[of "osize x" x] by fastforce
  then show ?case using Cons by (subst walk_objects.simps) auto
qed

lemma walk_objects_Some: "walk_objects osize p t = Some (os, q) \<Longrightarrow> tiles osize p os q \<and> (p \<le> t \<longrightarrow> t \<le> q)"
proof (induction osize p t arbitrary: os q rule: walk_objects.induct)
  case (1 osize p t)
  show ?case
  proof (cases "p < t")
    case True
    then obtain os' where os': "os = p # os'" "osize p > 0"
        "walk_objects osize (hw_add p (osize p)) t = Some (os', q)"
      using "1.prems" by (subst (asm) walk_objects.simps) (auto split: if_splits)
    then have t: "tiles osize (hw_add p (osize p)) os' q \<and> (hw_add p (osize p) \<le> t \<longrightarrow> t \<le> q)"
      using 1(1)[OF True] by auto
    then show ?thesis using os' tiles_le[of osize "hw_add p (osize p)" os' q] by auto
  next
    case False
    then show ?thesis using "1.prems" by (subst (asm) walk_objects.simps) auto
  qed
qed

text \<open>
  \<open>verify\<close> accepts a space exactly when objects of positive size fill it
  from bottom to top without a gap, and iterating over its objects then visits
  these, in address order.
\<close>

theorem ms_verify_iff_parsable:
  assumes "\<forall>p. osize p > 0" "ms_bottom s \<le> ms_top s"
  shows "ms_verify osize s = Some (Inr ()) \<longleftrightarrow>
    (\<exists>os. tiles osize (ms_bottom s) os (ms_top s) \<and> ms_object_iterate osize s = Some os)"
proof
  assume "ms_verify osize s = Some (Inr ())"
  then obtain os where "walk_objects osize (ms_bottom s) (ms_top s) = Some (os, ms_top s)"
    by (auto simp: ms_verify_def split: if_splits)
  then show "\<exists>os. tiles osize (ms_bottom s) os (ms_top s) \<and> ms_object_iterate osize s = Some os"
    using walk_objects_Some by (auto simp: ms_object_iterate_def)
next
  assume "\<exists>os. tiles osize (ms_bottom s) os (ms_top s) \<and> ms_object_iterate osize s = Some os"
  then show "ms_verify osize s = Some (Inr ())"
    using walk_objects_tiles by (auto simp: ms_verify_def)
qed

theorem ms_verify_iff_parsable_witness:
  "ms_verify (\<lambda>_. 1) sample_space = Some (Inr ()) \<and>
    (\<exists>os. tiles (\<lambda>_. 1) 1024 os 1032 \<and> ms_object_iterate (\<lambda>_. 1) sample_space = Some os)"
proof -
  have "ms_verify (\<lambda>_. 1) sample_space = Some (Inr ())"
    using walk_objects_tiles[of "\<lambda>_. 1" 1024 "[1024]" 1032]
    by (simp add: ms_verify_def sample_space_def hw_add_def HeapWordSize_def)
  then show ?thesis
    using ms_verify_iff_parsable[of "\<lambda>_. 1" sample_space] by (simp add: sample_space_def)
qed

section \<open>Initialisation\<close>

lemma mr_of_sub:
  assumes "mr_wf mr" "mr_start mr \<le> i" "i \<le> mr_end mr" "i mod HeapWordSize = 0"
    "n \<le> pointer_delta i (mr_start mr)"
  shows "mr_contains mr (mem_region_of (i - n * HeapWordSize) i) \<and> i - n * HeapWordSize \<le> i"
proof -
  have i: "i < size_t_max1" using assms(1,3) by (simp add: mr_wf_def)
  then have "hw_add (mr_start mr) n \<le> i" using assms(2,5) pointer_delta_ge_iff by blast
  then have le: "mr_start mr \<le> i - n * HeapWordSize" "n * HeapWordSize \<le> i" by (auto simp: hw_add_def)
  have "(i - n * HeapWordSize) mod HeapWordSize = 0"
    using assms(4) by (simp add: mod_eq_0_iff_dvd dvd_diff_nat)
  then have "mr_end (mem_region_of (i - n * HeapWordSize) i) = i" using i assms(4) by (intro mr_end_of) auto
  then show ?thesis using le assms(3) by (simp add: mr_contains_def)
qed

lemma mr_of_tail:
  assumes "mr_wf mr" "mr_start mr \<le> i" "i \<le> mr_end mr" "i mod HeapWordSize = 0"
    "n \<le> pointer_delta (mr_end mr) i"
  shows "mr_contains mr (mem_region_of i (hw_add i n))"
proof -
  have e: "mr_end mr < size_t_max1" using assms(1) by (simp add: mr_wf_def)
  then have le: "hw_add i n \<le> mr_end mr" using assms(3,5) pointer_delta_ge_iff by blast
  have "mr_end (mem_region_of i (hw_add i n)) = hw_add i n"
    using le e assms(4) by (intro mr_end_of) (auto simp: hw_add_def)
  then show ?thesis using le assms(2) by (simp add: mr_contains_def)
qed

lemma setup_within:
  assumes "mr_wf mr" "mr_wf lst" "setup_head_tail fl scale lst mr = (head, tail)"
  shows "mr_contains mr head \<and> mr_contains mr tail"
proof (cases "mr_is_empty lst")
  case True
  have "mr_contains mr (mem_region_of (mr_end mr) (hw_add (mr_end mr) 0))"
    using assms(1) mr_end_aligned[OF assms(1)] by (intro mr_of_tail) auto
  then show ?thesis using True assms by (auto simp: setup_head_tail_def mr_contains_def)
next
  case False
  define i0 where "i0 = mr_intersection lst mr"
  define isect where "isect = (if mr_is_empty i0 then mem_region_of (mr_end mr) (mr_end mr) else i0)"
  have e: "mr_end (mem_region_of (mr_end mr) (mr_end mr)) = mr_end mr"
    using assms(1) mr_end_aligned[OF assms(1)] by (intro mr_end_of) (auto simp: mr_wf_def)
  have wf: "mr_wf isect" "mr_contains mr isect"
    using mr_intersection_addrs[OF assms(2,1)] mr_intersection_sub[OF assms(2,1)] e assms(1)
      mr_end_aligned[OF assms(1)]
    by (auto simp: isect_def i0_def mr_wf_def mr_contains_def)
  have b: "mr_start mr \<le> mr_start isect" "mr_start isect \<le> mr_end mr" "mr_start mr \<le> mr_end isect"
      "mr_end isect \<le> mr_end mr" "mr_start isect mod HeapWordSize = 0" "mr_end isect mod HeapWordSize = 0"
    using wf mr_end_ge[of isect] mr_end_aligned[OF wf(1)]
    by (auto simp: mr_contains_def mr_wf_def intro: order_trans simp del: mr_end_ge)
  obtain hs ts where
    h: "head = mem_region_of (mr_start isect - hs * HeapWordSize) (mr_start isect)"
      "hs \<le> pointer_delta (mr_start isect) (mr_start mr)" and
    t: "tail = mem_region_of (mr_end isect) (hw_add (mr_end isect) ts)"
      "ts \<le> pointer_delta (mr_end mr) (mr_end isect)"
    using assms(3) False b(1,4) unfolding setup_head_tail_def Let_def isect_def[symmetric] i0_def[symmetric]
    by (auto split: if_splits)
  show ?thesis
    using mr_of_sub[OF assms(1) b(1,2,5) h(2)] mr_of_tail[OF assms(1) b(3,4,6) t(2)] h(1) t(1) by simp
qed

text \<open>
  initialising a space with a page-aligned region never trips its sanity
  assertion, whatever part of the region the rate limit leaves for later: it sets
  the bounds, resets the top if asked to, and the part set up lies in the region.
\<close>

theorem ms_initialize_ok:
  assumes "mr_wf mr" "mr_wf (ms_last_setup s)"
    "mr_start mr mod vm_page_size fl = 0" "mr_end mr mod vm_page_size fl = 0"
  shows "\<exists>s' calls. ms_initialize fl scale s mr clear_space setup_pages = Inr (s', calls) \<and>
    ms_bottom s' = mr_start mr \<and> ms_end s' = mr_end mr \<and>
    ms_top s' = (if clear_space then mr_start mr else ms_top s)"
proof -
  obtain head tail where ht: "setup_head_tail fl scale (ms_last_setup s) mr = (head, tail)" by fastforce
  show ?thesis
    using assms setup_within[OF assms(1,2) ht] ht by (auto simp: ms_initialize_def ms_clear_def Let_def)
qed

theorem ms_initialize_ok_witness:
  "\<exists>s' calls. ms_initialize
      \<lparr>UseNUMA = True, AlwaysPreTouch = False, UseLargePages = False, NUMASpaceResizeRate = 1024,
       vm_page_size = 4096\<rparr> (\<lambda>r p w. r * p div w)
      (sample_space\<lparr>ms_last_setup := \<lparr>mr_start = 8192, mr_word_size = 512\<rparr>\<rparr>)
      \<lparr>mr_start = 4096, mr_word_size = 2048\<rparr> True True = Inr (s', calls) \<and>
    ms_bottom s' = 4096 \<and> ms_end s' = 20480 \<and> ms_top s' = 4096"
  using ms_initialize_ok[of "\<lparr>mr_start = 4096, mr_word_size = 2048\<rparr>"
      "sample_space\<lparr>ms_last_setup := \<lparr>mr_start = 8192, mr_word_size = 512\<rparr>\<rparr>"
      "\<lparr>UseNUMA = True, AlwaysPreTouch = False, UseLargePages = False, NUMASpaceResizeRate = 1024,
       vm_page_size = 4096\<rparr>" "\<lambda>r p w. r * p div w" True True]
  by (simp add: mr_wf_def mr_end_def hw_add_def HeapWordSize_def size_t_max1_def sample_space_def)

end
