(* ===== verification/ObjectStarts.thy ===== *)
theory ObjectStarts
  imports MutableSpaces
begin

text \<open>
  \<open>gc_implementation/parallelScavenge/objectStartArray.hpp\<close> and
  \<open>objectStartArray.cpp\<close>: for every 512-byte block of the old space one byte with
  the offset of the last object that starts there, and the search for the object
  around an address, in the original form and in the one with a lower bound that
  the big-data spaces use.  A pointer into the byte array is its index, so that
  the pointer one below the array, which the source computes, is -1.  Reserving
  and committing memory are parameters.
\<close>

section \<open>State\<close>

record osarray =
  osa_reserved :: mem_region
  osa_covered :: mem_region
  osa_blocks :: "int list"

record osa_memory =
  osa_reserve_ok :: bool
  osa_expand_by :: "size_t \<Rightarrow> bool"
  osa_page_size :: size_t

definition clean_block :: int where
  "clean_block = -1"

definition block_shift :: nat where
  "block_shift = 9"

definition block_size :: nat where
  "block_size = 2 ^ block_shift"

definition block_size_in_words :: nat where
  "block_size_in_words = block_size div HeapWordSize"

definition osa_initialize :: "osa_memory \<Rightarrow> mem_region \<Rightarrow> osarray result" where
  "osa_initialize vm reserved_region =
     (if mr_word_size reserved_region div block_size_in_words > 0 then
        (if osa_reserve_ok vm then
           Inr \<lparr>osa_reserved = reserved_region,
                osa_covered = \<lparr>mr_start = mr_start reserved_region, mr_word_size = 0\<rparr>, osa_blocks = []\<rparr>
         else Inl (VMExit ''Could not reserve space for ObjectStartArray''))
      else Inl (AssertFailed ''Sanity''))"

section \<open>Blocks and addresses\<close>

definition in_blocks :: "osarray \<Rightarrow> int \<Rightarrow> bool" where
  "in_blocks osa b \<longleftrightarrow> 0 \<le> b \<and> b < int (length (osa_blocks osa))"

text \<open>The index of \<open>_offset_base\<close>, relative to \<open>_raw_base\<close>.\<close>

definition offset_base :: "osarray \<Rightarrow> int" where
  "offset_base osa = - int (mr_start (osa_reserved osa) div 2 ^ block_shift)"

definition block_for_addr :: "osarray \<Rightarrow> addr \<Rightarrow> int result" where
  "block_for_addr osa p =
     (if mr_contains_addr (osa_covered osa) p then
        (let result = offset_base osa + int (p div 2 ^ block_shift)
         in if in_blocks osa result then Inr result else Inl (AssertFailed ''out of bounds result in byte_for''))
      else Inl (AssertFailed ''out of bounds access to object start array''))"

definition addr_for_block :: "osarray \<Rightarrow> int \<Rightarrow> addr result" where
  "addr_for_block osa b =
     (if in_blocks osa b then
        (let delta = b - offset_base osa;
             result = nat (delta * 2 ^ block_shift)
         in if mr_contains_addr (osa_covered osa) result then Inr result
            else Inl (AssertFailed ''out of bounds accessor from card marking array''))
      else Inl (AssertFailed ''out of bounds access to object start array''))"

definition offset_addr_for_block :: "osarray \<Rightarrow> int \<Rightarrow> addr result" where
  "offset_addr_for_block osa b =
     (if b < 0 then Inr (mr_start (osa_covered osa))
      else if \<not> in_blocks osa b then Inl (AssertFailed ''out of bounds access to object start array'')
      else if osa_blocks osa ! nat b = clean_block then Inr (mr_end (osa_covered osa))
      else
        (let delta = b - offset_base osa;
             result = nat (delta * 2 ^ block_shift + osa_blocks osa ! nat b * int HeapWordSize)
         in if mr_contains_addr (osa_covered osa) result then Inr result
            else Inl (AssertFailed ''out of bounds accessor from card marking array'')))"

section \<open>Updates\<close>

definition allocate_block :: "osarray \<Rightarrow> addr \<Rightarrow> osarray result" where
  "allocate_block osa p =
     (if mr_contains_addr (osa_covered osa) p then
        bind_result (block_for_addr osa p) (\<lambda>block.
        bind_result (addr_for_block osa block) (\<lambda>block_base.
          let offset = pointer_delta_sz p block_base 8
          in if offset < 128 then Inr (osa\<lparr>osa_blocks := (osa_blocks osa)[nat block := int offset]\<rparr>)
             else Inl (AssertFailed ''Sanity'')))
      else Inl (AssertFailed ''Must be in covered region''))"

definition osa_reset :: "osarray \<Rightarrow> osarray" where
  "osa_reset osa = osa\<lparr>osa_blocks := replicate (length (osa_blocks osa)) clean_block\<rparr>"

definition set_covered_region :: "osa_memory \<Rightarrow> osarray \<Rightarrow> mem_region \<Rightarrow> osarray result" where
  "set_covered_region vm osa mr =
     (if mr_contains (osa_reserved osa) mr \<and> mr_start (osa_reserved osa) = mr_start mr \<and>
         mr_start mr mod block_size = 0 \<and> mr_end mr mod block_size = 0 then
        (let requested = nat (align_size_up (int (mr_word_size mr div block_size_in_words)) (int (osa_page_size vm)));
             current = length (osa_blocks osa);
             osa1 = osa\<lparr>osa_covered := mr\<rparr>;
             finish = (\<lambda>osa2.
               if requested mod HeapWordSize = 0 then
                 bind_result (block_for_addr osa2 (mr_start mr)) (\<lambda>b0.
                 bind_result (block_for_addr osa2 (mr_end mr - HeapWordSize)) (\<lambda>b1.
                   if b0 = 0 \<and> b1 \<le> int (length (osa_blocks osa2)) - 1 then Inr osa2
                   else Inl (AssertFailed ''Checking start of map'')))
               else Inl (AssertFailed ''Block table not expanded in word sized increment''))
         in if requested > current then
              (if osa_expand_by vm (requested - current)
               then finish (osa1\<lparr>osa_blocks := osa_blocks osa @ replicate (requested - current) clean_block\<rparr>)
               else Inl (VMExit ''object start array expansion''))
            else finish (osa1\<lparr>osa_blocks := take requested (osa_blocks osa)\<rparr>))
      else Inl (AssertFailed ''MemRegion outside of reserved space''))"

section \<open>Searches\<close>

text \<open>
  Scrolling backwards through the blocks.  Below the array the source reads the
  start of the covered region, again and again if that is above the address.
\<close>

function scroll :: "osarray \<Rightarrow> addr \<Rightarrow> int \<Rightarrow> addr result" where
  "scroll osa a block =
     (case offset_addr_for_block osa block of
        Inl f \<Rightarrow> Inl f
      | Inr scroll_forward \<Rightarrow>
          if scroll_forward > a then (if block < 0 then Inl OutOfBounds else scroll osa a (block - 1))
          else Inr scroll_forward)"
  by pat_completeness auto
termination by (relation "measure (\<lambda>(osa, a, block). nat (block + 1))") auto

declare scroll.simps [simp del]

text \<open>
  The same with the lower bound; \<open>block\<close> is already the next block to look at.
\<close>

function scroll_bounded :: "osarray \<Rightarrow> addr \<Rightarrow> addr \<Rightarrow> addr \<Rightarrow> int \<Rightarrow> addr result" where
  "scroll_bounded osa a low_bound scroll_forward block =
     (if scroll_forward > a then
        (if block \<ge> 0 then
           (case addr_for_block osa block of
              Inl f \<Rightarrow> Inl f
            | Inr base \<Rightarrow>
                if base < low_bound then Inr low_bound
                else
                  (case offset_addr_for_block osa block of
                     Inl f \<Rightarrow> Inl f
                   | Inr sf \<Rightarrow> scroll_bounded osa a low_bound sf (block - 1)))
         else if mr_start (osa_covered osa) > a then Inl OutOfBounds
         else Inr (mr_start (osa_covered osa)))
      else Inr scroll_forward)"
  by pat_completeness auto
termination by (relation "measure (\<lambda>(osa, a, low, sf, block). nat (block + 1))") auto

declare scroll_bounded.simps [simp del]

text \<open>
  Walking forward over the objects: the last object at or below the address and
  the one after it.  None is a walk that stands still at an object of size zero.
\<close>

function walk_to :: "(addr \<Rightarrow> size_t) \<Rightarrow> addr \<Rightarrow> addr \<Rightarrow> addr \<Rightarrow> (addr \<times> addr) option" where
  "walk_to osize scroll_forward nxt a =
     (if nxt \<le> a then
        (if osize nxt = 0 then None else walk_to osize nxt (hw_add nxt (osize nxt)) a)
      else Some (scroll_forward, nxt))"
  by pat_completeness auto
termination
  by (relation "measure (\<lambda>(osize, sf, nxt, a). Suc a - nxt)") (auto simp: hw_add_def HeapWordSize_def)

declare walk_to.simps [simp del]

definition object_start :: "osarray \<Rightarrow> (addr \<Rightarrow> size_t) \<Rightarrow> addr \<Rightarrow> addr result option" where
  "object_start osa osize a =
     (if mr_contains_addr (osa_covered osa) a then
        (case block_for_addr osa a of
           Inl f \<Rightarrow> Some (Inl f)
         | Inr block \<Rightarrow>
             (case scroll osa a block of
                Inl f \<Rightarrow> Some (Inl f)
              | Inr sf \<Rightarrow>
                  map_option (\<lambda>(sf, nxt). if sf \<le> a \<and> a \<le> nxt then Inr sf else Inl (AssertFailed ''wrong order''))
                    (walk_to osize sf sf a)))
      else Some (Inl (AssertFailed ''Must be in covered region'')))"

definition object_start_bounded :: "osarray \<Rightarrow> (addr \<Rightarrow> size_t) \<Rightarrow> addr \<Rightarrow> addr \<Rightarrow> addr result option" where
  "object_start_bounded osa osize a low_bound =
     (if mr_contains_addr (osa_covered osa) a then
        (case block_for_addr osa a of
           Inl f \<Rightarrow> Some (Inl f)
         | Inr block \<Rightarrow>
             (case bind_result (offset_addr_for_block osa block)
                     (\<lambda>sf. scroll_bounded osa a low_bound sf (block - 1)) of
                Inl f \<Rightarrow> Some (Inl f)
              | Inr sf0 \<Rightarrow>
                  (let sf = (if sf0 < low_bound then low_bound else sf0)
                   in map_option (\<lambda>(sf, nxt). if a \<le> nxt then Inr sf else Inl (AssertFailed ''wrong order for arg and next''))
                        (walk_to osize sf sf a))))
      else Some (Inl (AssertFailed ''Must be in covered region'')))"

definition is_block_allocated :: "osarray \<Rightarrow> addr \<Rightarrow> bool result" where
  "is_block_allocated osa a =
     (if mr_contains_addr (osa_covered osa) a then
        bind_result (block_for_addr osa a) (\<lambda>block. Inr (osa_blocks osa ! nat block \<noteq> clean_block))
      else Inl (AssertFailed ''Must be in covered region''))"

definition object_starts_in_range :: "osarray \<Rightarrow> addr \<Rightarrow> addr \<Rightarrow> bool result" where
  "object_starts_in_range osa start_addr end_addr =
     (if start_addr \<le> end_addr then
        bind_result (block_for_addr osa start_addr) (\<lambda>start_block.
        bind_result (block_for_addr osa end_addr) (\<lambda>end_block.
          Inr (list_ex (\<lambda>block. osa_blocks osa ! nat block \<noteq> clean_block) [start_block..end_block])))
      else Inl (AssertFailed ''range is wrong''))"

section \<open>The array as a set of object starts\<close>

definition osa_base :: "osarray \<Rightarrow> addr" where
  "osa_base osa = mr_start (osa_covered osa)"

definition osa_wf :: "osarray \<Rightarrow> bool" where
  "osa_wf osa \<longleftrightarrow>
     mr_start (osa_reserved osa) = osa_base osa \<and> osa_base osa mod 512 = 0 \<and>
     mr_end (osa_covered osa) \<le> osa_base osa + 512 * length (osa_blocks osa) \<and>
     mr_end (osa_covered osa) < size_t_max1"

definition blk :: "osarray \<Rightarrow> addr \<Rightarrow> nat" where
  "blk osa p = (p - osa_base osa) div 512"

definition entry :: "osarray \<Rightarrow> nat \<Rightarrow> addr" where
  "entry osa k = osa_base osa + 512 * k + 8 * nat (osa_blocks osa ! k)"

definition osa_rep :: "osarray \<Rightarrow> addr set \<Rightarrow> bool" where
  "osa_rep osa S \<longleftrightarrow>
     (\<forall>x \<in> S. mr_contains_addr (osa_covered osa) x) \<and>
     (\<forall>k < length (osa_blocks osa).
        if \<exists>x \<in> S. blk osa x = k then 0 \<le> osa_blocks osa ! k \<and> entry osa k \<in> S
        else osa_blocks osa ! k = clean_block)"

lemma osa_blocks_of:
  assumes "osa_wf osa" "mr_contains_addr (osa_covered osa) p"
  shows "block_for_addr osa p = Inr (int (blk osa p))" "blk osa p < length (osa_blocks osa)"
    "osa_base osa + 512 * blk osa p \<le> p" "p < osa_base osa + 512 * blk osa p + 512"
proof -
  have p: "osa_base osa \<le> p" "p < mr_end (osa_covered osa)"
    using assms(2) by (auto simp: mr_contains_addr_def osa_base_def)
  obtain s0 where s0: "osa_base osa = 512 * s0" using assms(1) by (auto simp: osa_wf_def elim!: dvdE)
  obtain d where d: "p = osa_base osa + d" using p(1) by (metis le_add_diff_inverse)
  have lt: "d < 512 * length (osa_blocks osa)" using assms(1) p(2) d by (simp add: osa_wf_def)
  then show k: "blk osa p < length (osa_blocks osa)" by (simp add: blk_def d less_mult_imp_div_less mult.commute)
  have "p div 512 = s0 + blk osa p" by (simp add: blk_def d s0)
  then show "block_for_addr osa p = Inr (int (blk osa p))"
    using assms k s0
    by (simp add: block_for_addr_def offset_base_def in_blocks_def block_shift_def osa_wf_def Let_def)
  show "osa_base osa + 512 * blk osa p \<le> p" "p < osa_base osa + 512 * blk osa p + 512"
    by (simp_all add: blk_def d)
qed

lemma addr_for_block_ok:
  assumes "osa_wf osa" "k < length (osa_blocks osa)" "osa_base osa + 512 * k < mr_end (osa_covered osa)"
  shows "addr_for_block osa (int k) = Inr (osa_base osa + 512 * k)"
proof -
  obtain s0 where s0: "osa_base osa = 512 * s0" using assms(1) by (auto simp: osa_wf_def elim!: dvdE)
  have "nat ((int k + int s0) * 512) = 512 * s0 + 512 * k" by (simp add: nat_add_distrib nat_mult_distrib)
  then show ?thesis
    using assms s0
    by (simp add: addr_for_block_def offset_base_def in_blocks_def block_shift_def osa_wf_def Let_def
        mr_contains_addr_def osa_base_def)
qed

lemma offset_addr_ok:
  assumes "osa_wf osa" "osa_rep osa S" "k < length (osa_blocks osa)"
  shows "offset_addr_for_block osa (int k) =
    Inr (if osa_blocks osa ! k = clean_block then mr_end (osa_covered osa) else entry osa k)"
    "osa_blocks osa ! k \<noteq> clean_block \<Longrightarrow> entry osa k \<in> S"
proof -
  obtain s0 where s0: "osa_base osa = 512 * s0" using assms(1) by (auto simp: osa_wf_def elim!: dvdE)
  show e: "osa_blocks osa ! k \<noteq> clean_block \<Longrightarrow> entry osa k \<in> S"
    using assms(2,3) by (auto simp: osa_rep_def split: if_splits)
  have pos: "osa_blocks osa ! k \<noteq> clean_block \<Longrightarrow> 0 \<le> osa_blocks osa ! k"
    using assms(2,3) by (auto simp: osa_rep_def split: if_splits)
  have "nat ((int k + int s0) * 512 + osa_blocks osa ! k * 8) = entry osa k" if "0 \<le> osa_blocks osa ! k"
    using that by (simp add: entry_def s0 nat_add_distrib nat_mult_distrib)
  then show "offset_addr_for_block osa (int k) =
    Inr (if osa_blocks osa ! k = clean_block then mr_end (osa_covered osa) else entry osa k)"
    using assms e pos s0
    by (auto simp: offset_addr_for_block_def offset_base_def in_blocks_def block_shift_def osa_wf_def
        osa_rep_def HeapWordSize_def Let_def)
qed

section \<open>Finding the object around an address\<close>

lemma scroll_ok:
  assumes "osa_wf osa" "osa_rep osa S" "mr_contains_addr (osa_covered osa) a"
  shows "k < length (osa_blocks osa) \<Longrightarrow>
    \<exists>sf. scroll osa a (int k) = Inr sf \<and> sf \<le> a \<and> (sf = osa_base osa \<or> sf \<in> S)"
proof (induction k)
  case 0
  have a: "osa_base osa \<le> a" using assms(3) by (simp add: mr_contains_addr_def osa_base_def)
  have "scroll osa a (-1) = Inr (osa_base osa)"
    using a by (subst scroll.simps) (simp add: offset_addr_for_block_def osa_base_def)
  then show ?case
    using a offset_addr_ok[OF assms(1,2) 0] assms(3)
    by (subst scroll.simps) (auto simp: mr_contains_addr_def)
next
  case (Suc k)
  then obtain sf where "scroll osa a (int k) = Inr sf" "sf \<le> a" "sf = osa_base osa \<or> sf \<in> S" by auto
  then show ?case
    using offset_addr_ok[OF assms(1,2) Suc.prems] assms(3)
    by (subst scroll.simps) (auto simp: mr_contains_addr_def)
qed

lemma scroll_bounded_ok:
  assumes "osa_wf osa" "osa_rep osa S" "mr_contains_addr (osa_covered osa) a" "low \<le> a"
  shows "n \<le> blk osa a \<Longrightarrow> (sf \<le> a \<Longrightarrow> sf \<in> S) \<Longrightarrow>
    \<exists>sf'. scroll_bounded osa a low sf (int n - 1) = Inr sf' \<and> sf' \<le> a \<and> (sf' = osa_base osa \<or> sf' = low \<or> sf' \<in> S)"
proof (induction n arbitrary: sf)
  case 0
  have "osa_base osa \<le> a" using assms(3) by (simp add: mr_contains_addr_def osa_base_def)
  then show ?case using 0 by (subst scroll_bounded.simps) (auto simp: osa_base_def)
next
  case (Suc n)
  note b = osa_blocks_of[OF assms(1,3)]
  have n: "n < length (osa_blocks osa)" using Suc.prems(1) b(2) by simp
  have "osa_base osa + 512 * n \<le> osa_base osa + 512 * blk osa a" using Suc.prems(1) by simp
  then have lt: "osa_base osa + 512 * n < mr_end (osa_covered osa)"
    using b(3) assms(3) by (auto simp: mr_contains_addr_def)
  let ?sf = "if osa_blocks osa ! n = clean_block then mr_end (osa_covered osa) else entry osa n"
  note off = offset_addr_ok[OF assms(1,2) n]
  have "\<exists>sf'. scroll_bounded osa a low ?sf (int n - 1) = Inr sf' \<and> sf' \<le> a \<and> (sf' = osa_base osa \<or> sf' = low \<or> sf' \<in> S)"
    using Suc off(2) assms(3) by (intro Suc.IH) (auto simp: mr_contains_addr_def split: if_splits)
  then show ?case
    using Suc.prems(2) addr_for_block_ok[OF assms(1) n lt] off(1) assms(4)
    by (subst scroll_bounded.simps) auto
qed

lemma walk_to_tiles:
  "tiles osize p os q \<Longrightarrow> p \<le> a \<Longrightarrow> a < q \<Longrightarrow>
   \<exists>x \<in> set os. walk_to osize p p a = Some (x, hw_add x (osize x)) \<and> x \<le> a \<and> a < hw_add x (osize x)"
proof (induction os arbitrary: p)
  case (Cons x os)
  have x: "p = x" "osize x > 0" "tiles osize (hw_add x (osize x)) os q" using Cons.prems by auto
  have step: "walk_to osize sf x a = walk_to osize x (hw_add x (osize x)) a" for sf
    using x Cons.prems(2) by (subst walk_to.simps) simp
  show ?case
  proof (cases "hw_add x (osize x) \<le> a")
    case True
    then obtain y where y: "y \<in> set os" "walk_to osize (hw_add x (osize x)) (hw_add x (osize x)) a =
        Some (y, hw_add y (osize y))" "y \<le> a" "a < hw_add y (osize y)"
      using Cons.IH[OF x(3) True Cons.prems(3)] by blast
    have "osize (hw_add x (osize x)) > 0"
      using x(3) Cons.prems(3) True by (cases os) auto
    then have "walk_to osize x (hw_add x (osize x)) a = walk_to osize (hw_add x (osize x)) (hw_add x (osize x)) a"
      using True by (subst (1 2) walk_to.simps) simp
    then show ?thesis using y x(1) step by auto
  next
    case False
    then show ?thesis using x Cons.prems(2) step by (subst (asm) (2) walk_to.simps) (auto simp: not_le)
  qed
qed simp

lemma tiles_split: "tiles osize p os q \<Longrightarrow> x \<in> set os \<Longrightarrow> \<exists>ys. tiles osize x ys q \<and> set ys \<subseteq> set os"
proof (induction os arbitrary: p)
  case (Cons y os)
  show ?case
  proof (cases "x = y")
    case True
    then show ?thesis using Cons.prems by (intro exI[of _ "y # os"]) auto
  next
    case False
    then show ?thesis using Cons.IH[of "hw_add y (osize y)"] Cons.prems by fastforce
  qed
qed simp

lemma walk_from_start:
  assumes "tiles osize low os tp" "sf = low \<or> sf \<in> set os" "sf \<le> a" "a < tp"
  shows "\<exists>x \<in> set os. walk_to osize sf sf a = Some (x, hw_add x (osize x)) \<and> x \<le> a \<and> a < hw_add x (osize x)"
proof -
  obtain ys where "tiles osize sf ys tp" "set ys \<subseteq> set os" using tiles_split[OF assms(1)] assms(1,2) by blast
  then show ?thesis using walk_to_tiles[of osize sf ys tp a] assms(3,4) by blast
qed

text \<open>
  when the objects of a space fill it from its lower bound to its top, the
  bounded search returns the object an address of the space lies in, whatever
  objects other spaces have entered in the array below and above.
\<close>

theorem object_start_bounded_ok:
  assumes "osa_wf osa" "osa_rep osa S" "tiles osize low os tp"
    "\<forall>x \<in> S. x \<in> set os \<or> x < low \<or> tp \<le> x"
    "osa_base osa \<le> low" "tp \<le> mr_end (osa_covered osa)" "low \<le> a" "a < tp"
  shows "\<exists>x \<in> set os. object_start_bounded osa osize a low = Some (Inr x) \<and> x \<le> a \<and> a < hw_add x (osize x)"
proof -
  have a: "mr_contains_addr (osa_covered osa) a" using assms(5-8) by (simp add: mr_contains_addr_def osa_base_def)
  note b = osa_blocks_of[OF assms(1) a]
  define sf0 where "sf0 = (if osa_blocks osa ! blk osa a = clean_block then mr_end (osa_covered osa)
    else entry osa (blk osa a))"
  have o: "offset_addr_for_block osa (int (blk osa a)) = Inr sf0" "sf0 \<le> a \<Longrightarrow> sf0 \<in> S"
    using offset_addr_ok[OF assms(1,2) b(2)] a by (auto simp: sf0_def mr_contains_addr_def split: if_splits)
  obtain sf where sf: "scroll_bounded osa a low sf0 (int (blk osa a) - 1) = Inr sf" "sf \<le> a"
      "sf = osa_base osa \<or> sf = low \<or> sf \<in> S"
    using scroll_bounded_ok[OF assms(1,2) a assms(7) order_refl o(2)] by blast
  let ?sf = "if sf < low then low else sf"
  have "?sf = low \<or> ?sf \<in> set os" "?sf \<le> a" using sf(2,3) assms(4,5,7,8) by auto
  then obtain x where "x \<in> set os" "walk_to osize ?sf ?sf a = Some (x, hw_add x (osize x))" "x \<le> a" "a < hw_add x (osize x)"
    using walk_from_start[OF assms(3) _ _ assms(8), of ?sf] by blast
  then show ?thesis
    using a b(1) o(1) sf(1) by (intro bexI[of _ x]) (auto simp: object_start_bounded_def Let_def)
qed

section \<open>Entering objects\<close>

lemma allocate_block_ok:
  assumes "osa_wf osa" "osa_rep osa S" "mr_contains_addr (osa_covered osa) p" "p mod 8 = 0"
  shows "\<exists>osa'. allocate_block osa p = Inr osa' \<and> osa_wf osa' \<and> osa_rep osa' (insert p S) \<and>
    osa_covered osa' = osa_covered osa"
proof -
  note b = osa_blocks_of[OF assms(1,3)]
  let ?k = "blk osa p" and ?base = "osa_base osa + 512 * blk osa p"
  have lt: "?base < mr_end (osa_covered osa)" "p < size_t_max1"
    using assms(1,3) b(3) by (auto simp: mr_contains_addr_def osa_wf_def)
  have off: "pointer_delta_sz p ?base 8 = (p - ?base) div 8"
    using pointer_delta_le[OF b(3) lt(2)] by (simp add: pointer_delta_def HeapWordSize_def)
  define osa' where "osa' = osa\<lparr>osa_blocks := (osa_blocks osa)[?k := int ((p - ?base) div 8)]\<rparr>"
  have "(p - ?base) div 8 < 128" using b(4) by (simp add: less_mult_imp_div_less)
  then have res: "allocate_block osa p = Inr osa'"
    using assms(3) b(1) addr_for_block_ok[OF assms(1) b(2) lt(1)] off by (simp add: allocate_block_def osa'_def)
  have base: "osa_base osa' = osa_base osa" "blk osa' = blk osa" "length (osa_blocks osa') = length (osa_blocks osa)"
    "osa_covered osa' = osa_covered osa"
    by (auto simp: osa'_def osa_base_def blk_def)
  have bl: "osa_blocks osa' = (osa_blocks osa)[?k := int ((p - ?base) div 8)]" by (simp add: osa'_def)
  have "8 dvd osa_base osa" using assms(1) by (auto simp: osa_wf_def elim!: dvdE)
  moreover have "8 dvd (512 :: nat) * blk osa p" by (rule dvd_mult2) simp
  moreover have "8 dvd p" using assms(4) by (simp add: dvd_eq_mod_eq_0)
  ultimately have "8 dvd p - ?base" by (intro dvd_diff_nat dvd_add)
  then have ek: "entry osa' ?k = p" using b(2,3) by (simp add: entry_def base bl)
  have eo: "entry osa' k = entry osa k" "osa_blocks osa' ! k = osa_blocks osa ! k" if "k \<noteq> ?k" for k
    using that by (simp_all add: entry_def base bl)
  have "osa_rep osa' (insert p S)"
    unfolding osa_rep_def
  proof (intro conjI allI impI)
    fix k assume k: "k < length (osa_blocks osa')"
    show "if \<exists>x \<in> insert p S. blk osa' x = k then 0 \<le> osa_blocks osa' ! k \<and> entry osa' k \<in> insert p S
        else osa_blocks osa' ! k = clean_block"
    proof (cases "k = ?k")
      case True
      then show ?thesis using ek k by (auto simp: base bl)
    next
      case False
      then show ?thesis using eo[OF False] k assms(2) by (auto simp: osa_rep_def base)
    qed
  qed (use assms(2,3) in \<open>auto simp: osa_rep_def base\<close>)
  moreover have "osa_wf osa'" using assms(1) base by (auto simp: osa_wf_def osa'_def osa_base_def)
  ultimately show ?thesis using res base(4) by blast
qed

fun alloc_blocks :: "osarray \<Rightarrow> addr list \<Rightarrow> osarray result" where
  "alloc_blocks osa [] = Inr osa"
| "alloc_blocks osa (p # ps) = bind_result (allocate_block osa p) (\<lambda>osa. alloc_blocks osa ps)"

lemma alloc_blocks_ok:
  "osa_wf osa \<Longrightarrow> osa_rep osa S \<Longrightarrow> \<forall>p \<in> set ps. mr_contains_addr (osa_covered osa) p \<and> p mod 8 = 0 \<Longrightarrow>
   \<exists>osa'. alloc_blocks osa ps = Inr osa' \<and> osa_wf osa' \<and> osa_rep osa' (S \<union> set ps) \<and> osa_covered osa' = osa_covered osa"
proof (induction ps arbitrary: osa S)
  case (Cons p ps)
  obtain osa1 where 1: "allocate_block osa p = Inr osa1" "osa_wf osa1" "osa_rep osa1 (insert p S)"
      "osa_covered osa1 = osa_covered osa"
    using allocate_block_ok[of osa S p] Cons.prems by auto
  show ?case using Cons.IH[OF 1(2,3)] Cons.prems 1 by auto
qed simp

lemma tiles_bounds: "tiles osize p os q \<Longrightarrow> x \<in> set os \<Longrightarrow> p \<le> x \<and> x < q"
proof (induction os arbitrary: p)
  case (Cons y os)
  have "y < hw_add y (osize y)" "hw_add y (osize y) \<le> q"
    using Cons.prems hw_add_gt[of "osize y" y] tiles_le[of osize "hw_add y (osize y)" os q] by auto
  then show ?case using Cons.IH[of "hw_add y (osize y)"] Cons.prems by fastforce
qed simp

lemma tiles_aligned: "tiles osize p os q \<Longrightarrow> p mod 8 = 0 \<Longrightarrow> x \<in> set os \<Longrightarrow> x mod 8 = 0"
proof (induction os arbitrary: p)
  case (Cons y os)
  have "hw_add y (osize y) mod 8 = y mod 8" by (simp add: hw_add_def HeapWordSize_def)
  then show ?case using Cons.IH[of "hw_add y (osize y)"] Cons.prems by auto
qed simp

lemma object_starts_in_range_ok:
  assumes "osa_wf osa" "osa_rep osa S" "s \<le> e" "mr_contains_addr (osa_covered osa) s"
    "mr_contains_addr (osa_covered osa) e"
  shows "object_starts_in_range osa s e = Inr (\<exists>x \<in> S. blk osa s \<le> blk osa x \<and> blk osa x \<le> blk osa e)"
proof -
  note bs = osa_blocks_of[OF assms(1,4)] and be = osa_blocks_of[OF assms(1,5)]
  have "list_ex (\<lambda>b. osa_blocks osa ! nat b \<noteq> clean_block) [int (blk osa s)..int (blk osa e)] \<longleftrightarrow>
      (\<exists>k. blk osa s \<le> k \<and> k \<le> blk osa e \<and> osa_blocks osa ! k \<noteq> clean_block)"
    (is "?l \<longleftrightarrow> ?r")
  proof
    assume ?l
    then obtain b where "int (blk osa s) \<le> b" "b \<le> int (blk osa e)" "osa_blocks osa ! nat b \<noteq> clean_block"
      by (auto simp: list_ex_iff)
    then show ?r by (intro exI[of _ "nat b"]) auto
  next
    assume ?r
    then obtain k where "blk osa s \<le> k" "k \<le> blk osa e" "osa_blocks osa ! k \<noteq> clean_block" by blast
    then show ?l by (auto simp: list_ex_iff intro!: bexI[of _ "int k"])
  qed
  also have "\<dots> \<longleftrightarrow> (\<exists>x \<in> S. blk osa s \<le> blk osa x \<and> blk osa x \<le> blk osa e)"
  proof -
    have "osa_blocks osa ! k \<noteq> clean_block \<longleftrightarrow> (\<exists>x \<in> S. blk osa x = k)" if "k \<le> blk osa e" for k
    proof -
      have "k < length (osa_blocks osa)" using that be(2) by simp
      then have "if \<exists>x \<in> S. blk osa x = k then 0 \<le> osa_blocks osa ! k \<and> entry osa k \<in> S
          else osa_blocks osa ! k = clean_block"
        using assms(2) unfolding osa_rep_def by blast
      then show ?thesis by (auto simp: clean_block_def split: if_splits)
    qed
    then show ?thesis by blast
  qed
  finally show ?thesis using assms(3) bs(1) be(1) by (simp add: object_starts_in_range_def)
qed

text \<open>
  C37: after every object of a space has been entered, the search finds the object
  around every address of the space, and the range query tells whether an object
  starts in one of the blocks the range touches.
\<close>

theorem object_start_after_alloc:
  assumes "osa_wf osa" "osa_rep osa {}" "tiles osize (osa_base osa) os tp" "tp \<le> mr_end (osa_covered osa)"
  shows "\<exists>osa'. alloc_blocks osa os = Inr osa' \<and>
    (\<forall>a. osa_base osa \<le> a \<and> a < tp \<longrightarrow>
       (\<exists>x \<in> set os. object_start osa' osize a = Some (Inr x) \<and> x \<le> a \<and> a < hw_add x (osize x))) \<and>
    (\<forall>s e. s \<le> e \<and> osa_base osa \<le> s \<and> e < mr_end (osa_covered osa) \<longrightarrow>
       object_starts_in_range osa' s e = Inr (\<exists>x \<in> set os. blk osa s \<le> blk osa x \<and> blk osa x \<le> blk osa e))"
proof -
  have al: "osa_base osa mod 8 = 0" using assms(1) by (auto simp: osa_wf_def elim!: dvdE)
  have ps: "\<forall>p \<in> set os. mr_contains_addr (osa_covered osa) p \<and> p mod 8 = 0"
    using tiles_bounds[OF assms(3)] tiles_aligned[OF assms(3) al] assms(4)
    by (fastforce simp: mr_contains_addr_def osa_base_def)
  then obtain osa' where o: "alloc_blocks osa os = Inr osa'" "osa_wf osa'" "osa_rep osa' (set os)"
      "osa_covered osa' = osa_covered osa"
    using alloc_blocks_ok[OF assms(1,2)] by auto
  have base: "osa_base osa' = osa_base osa" "blk osa' = blk osa" using o(4) by (auto simp: osa_base_def blk_def)
  have "\<exists>x \<in> set os. object_start osa' osize a = Some (Inr x) \<and> x \<le> a \<and> a < hw_add x (osize x)"
    if a: "osa_base osa \<le> a" "a < tp" for a
  proof -
    have c: "mr_contains_addr (osa_covered osa') a"
      using a assms(4) o(4) by (simp add: mr_contains_addr_def osa_base_def)
    note b = osa_blocks_of[OF o(2) c]
    obtain sf where sf: "scroll osa' a (int (blk osa' a)) = Inr sf" "sf \<le> a" "sf = osa_base osa \<or> sf \<in> set os"
      using scroll_ok[OF o(2,3) c b(2)] base(1) by auto
    obtain x where x: "x \<in> set os" "walk_to osize sf sf a = Some (x, hw_add x (osize x))" "x \<le> a" "a < hw_add x (osize x)"
      using walk_from_start[OF assms(3) sf(3,2) a(2)] by blast
    then show ?thesis using sf(1) c b(1) by (intro bexI[of _ x]) (auto simp: object_start_def)
  qed
  moreover have "object_starts_in_range osa' s e = Inr (\<exists>x \<in> set os. blk osa s \<le> blk osa x \<and> blk osa x \<le> blk osa e)"
    if "s \<le> e" "osa_base osa \<le> s" "e < mr_end (osa_covered osa)" for s e
    using object_starts_in_range_ok[OF o(2,3) that(1)] that o(4) base
    by (auto simp: mr_contains_addr_def osa_base_def)
  ultimately show ?thesis using o(1) by blast
qed

text \<open>An array set up over two blocks, and three objects.\<close>

definition sample_osa :: osarray where
  "sample_osa = \<lparr>osa_reserved = \<lparr>mr_start = 1024, mr_word_size = 128\<rparr>,
     osa_covered = \<lparr>mr_start = 1024, mr_word_size = 128\<rparr>, osa_blocks = replicate 8 clean_block\<rparr>"

definition sample_sizes :: "addr \<Rightarrow> size_t" where
  "sample_sizes a = (if a = 1024 then 10 else if a = 1104 then 80 else 4)"

lemma sample_osa_base: "osa_base sample_osa = 1024" "mr_end (osa_covered sample_osa) = 2048"
  by (simp_all add: osa_base_def sample_osa_def mr_end_def hw_add_def HeapWordSize_def)

lemma sample_osa_ok: "osa_wf sample_osa" "osa_rep sample_osa {}"
  using sample_osa_base by (simp_all add: osa_wf_def osa_rep_def sample_osa_def size_t_max1_def)

lemma sample_tiles: "tiles sample_sizes 1024 [1024, 1104, 1744] 1776"
  by (simp add: sample_sizes_def hw_add_def HeapWordSize_def)

theorem object_start_after_alloc_witness:
  "\<exists>osa'. alloc_blocks sample_osa [1024, 1104, 1744] = Inr osa' \<and>
     (\<exists>x \<in> {1024, 1104, 1744}. object_start osa' sample_sizes 1600 = Some (Inr x) \<and> x \<le> 1600)"
proof -
  have le: "(1776 :: nat) \<le> 2048" by simp
  obtain osa' where o: "alloc_blocks sample_osa [1024, 1104, 1744] = Inr osa'"
      "\<forall>a. 1024 \<le> a \<and> a < 1776 \<longrightarrow> (\<exists>x \<in> set [1024, 1104, 1744].
         object_start osa' sample_sizes a = Some (Inr x) \<and> x \<le> a \<and> a < hw_add x (sample_sizes x))"
    using object_start_after_alloc[OF sample_osa_ok, unfolded sample_osa_base, OF sample_tiles le] by blast
  have "\<exists>x \<in> set [1024, 1104, 1744]. object_start osa' sample_sizes 1600 = Some (Inr x) \<and> x \<le> 1600"
    using o(2)[rule_format, of 1600] by auto
  then show ?thesis using o(1) by auto
qed

text \<open>The array with the three objects entered; the search is bounded by the second.\<close>

definition sample_osa2 :: osarray where
  "sample_osa2 = sample_osa\<lparr>osa_blocks := [10, 26, -1, -1, -1, -1, -1, -1]\<rparr>"

lemma sample_osa2_ok: "osa_wf sample_osa2" "osa_rep sample_osa2 {1024, 1104, 1744}"
proof -
  have base: "osa_base sample_osa2 = 1024" "mr_end (osa_covered sample_osa2) = 2048"
    by (simp_all add: osa_base_def sample_osa2_def sample_osa_def mr_end_def hw_add_def HeapWordSize_def)
  have blocks: "osa_blocks sample_osa2 = [10, 26, -1, -1, -1, -1, -1, -1]" by (simp add: sample_osa2_def)
  show "osa_wf sample_osa2" using base by (simp add: osa_wf_def blocks sample_osa2_def sample_osa_def size_t_max1_def)
  have blks: "blk sample_osa2 1024 = 0" "blk sample_osa2 1104 = 0" "blk sample_osa2 1744 = 1"
    by (simp_all add: blk_def base)
  have ex: "(\<exists>x \<in> {1024, 1104, 1744}. blk sample_osa2 x = k) \<longleftrightarrow> k = 0 \<or> k = 1" for k using blks by auto
  have entries: "entry sample_osa2 0 = 1104" "entry sample_osa2 1 = 1744" by (simp_all add: entry_def base blocks)
  have clean: "osa_blocks sample_osa2 ! k = clean_block" if "k < 8" "k \<noteq> 0" "k \<noteq> 1" for k
  proof -
    have "k = 2 \<or> k = 3 \<or> k = 4 \<or> k = 5 \<or> k = 6 \<or> k = 7" using that by linarith
    then show ?thesis unfolding blocks clean_block_def by auto
  qed
  show "osa_rep sample_osa2 {1024, 1104, 1744}"
    unfolding osa_rep_def ex
  proof (intro conjI allI impI)
    fix k assume "k < length (osa_blocks sample_osa2)"
    then show "if k = 0 \<or> k = 1 then 0 \<le> osa_blocks sample_osa2 ! k \<and> entry sample_osa2 k \<in> {1024, 1104, 1744}
        else osa_blocks sample_osa2 ! k = clean_block"
      using clean[of k] entries by (auto simp: blocks)
  qed (use base in \<open>auto simp: mr_contains_addr_def osa_base_def\<close>)
qed

theorem object_start_bounded_ok_witness:
  "\<exists>x \<in> {1104, 1744}. object_start_bounded sample_osa2 sample_sizes 1700 1104 = Some (Inr x) \<and>
     x \<le> 1700 \<and> 1700 < hw_add x (sample_sizes x)"
proof -
  have "tiles sample_sizes 1104 [1104, 1744] 1776" by (simp add: sample_sizes_def hw_add_def HeapWordSize_def)
  moreover have "osa_base sample_osa2 = 1024" "mr_end (osa_covered sample_osa2) = 2048"
    by (simp_all add: osa_base_def sample_osa2_def sample_osa_def mr_end_def hw_add_def HeapWordSize_def)
  ultimately show ?thesis
    using object_start_bounded_ok[OF sample_osa2_ok, of sample_sizes 1104 "[1104, 1744]" 1776 1700] by auto
qed

section \<open>Setting the array up\<close>

lemma covered_blocks:
  assumes "mr_start mr mod block_size = 0" "mr_end mr mod block_size = 0"
  shows "mr_end mr = mr_start mr + 512 * (mr_word_size mr div block_size_in_words)"
proof -
  have "512 dvd mr_word_size mr * 8"
    using assms by (simp add: mr_end_def hw_add_def HeapWordSize_def block_size_def block_shift_def
        dvd_eq_mod_eq_0[symmetric] dvd_add_right_iff)
  then obtain j where "mr_word_size mr * 8 = 512 * j" by (elim dvdE)
  then have "mr_word_size mr = 64 * j" by simp
  then show ?thesis
    by (simp add: mr_end_def hw_add_def HeapWordSize_def block_size_in_words_def block_size_def block_shift_def)
qed

text \<open>
  an array that is initialised over a reserved region and told to cover the
  start of it has a byte for every block of the covered region and no object
  entered.
\<close>

theorem osa_setup_ok:
  assumes "osa_initialize vm R = Inr osa" "set_covered_region vm osa mr = Inr osa'"
    "osa_page_size vm = 2 ^ k" "mr_end mr < size_t_max1"
  shows "osa_wf osa' \<and> osa_rep osa' {} \<and> osa_covered osa' = mr"
proof -
  define req where "req = nat (align_size_up (int (mr_word_size mr div block_size_in_words)) (int (osa_page_size vm)))"
  have osa: "osa_blocks osa = []" "osa_reserved osa = R" using assms(1) by (auto simp: osa_initialize_def split: if_splits)
  have mr: "mr_start R = mr_start mr" "mr_start mr mod block_size = 0" "mr_end mr mod block_size = 0"
    using assms(2) osa by (auto simp: set_covered_region_def split: if_splits)
  have "osa' = osa\<lparr>osa_covered := mr, osa_blocks := replicate req clean_block\<rparr>"
    using assms(2) osa
    by (auto simp: set_covered_region_def Let_def req_def[symmetric] split: if_splits sum.splits)
  then have osa': "osa_covered osa' = mr" "osa_blocks osa' = replicate req clean_block" "osa_reserved osa' = R"
    using osa by auto
  have "int (mr_word_size mr div block_size_in_words) \<le> int req"
    using align_size_up_ge[of "int (mr_word_size mr div block_size_in_words)" k] assms(3) by (simp add: req_def)
  then have "mr_end mr \<le> mr_start mr + 512 * req" using covered_blocks[OF mr(2,3)] by simp
  then show ?thesis
    using osa' mr assms(4) by (simp add: osa_wf_def osa_rep_def osa_base_def block_size_def block_shift_def)
qed

definition sample_osa_vm :: osa_memory where
  "sample_osa_vm = \<lparr>osa_reserve_ok = True, osa_expand_by = (\<lambda>_. True), osa_page_size = 2 ^ 12\<rparr>"

theorem osa_setup_ok_witness:
  "\<exists>osa osa'. osa_initialize sample_osa_vm \<lparr>mr_start = 1024, mr_word_size = 1024\<rparr> = Inr osa \<and>
     set_covered_region sample_osa_vm osa \<lparr>mr_start = 1024, mr_word_size = 128\<rparr> = Inr osa' \<and>
     osa_wf osa' \<and> osa_rep osa' {}"
proof -
  let ?R = "\<lparr>mr_start = 1024, mr_word_size = 1024\<rparr> :: mem_region" and ?mr = "\<lparr>mr_start = 1024, mr_word_size = 128\<rparr> :: mem_region"
  let ?osa = "\<lparr>osa_reserved = ?R, osa_covered = \<lparr>mr_start = 1024, mr_word_size = 0\<rparr>, osa_blocks = []\<rparr>"
  have i: "osa_initialize sample_osa_vm ?R = Inr ?osa"
    by (simp add: osa_initialize_def sample_osa_vm_def block_size_in_words_def block_size_def block_shift_def HeapWordSize_def)
  have al: "align_size_up 2 4096 = 4096" using align_size_up_pow2[of 2 12] by simp
  have "set_covered_region sample_osa_vm ?osa ?mr = Inr (?osa\<lparr>osa_covered := ?mr, osa_blocks := replicate 4096 clean_block\<rparr>)"
    by (simp add: set_covered_region_def sample_osa_vm_def al block_size_in_words_def block_size_def block_shift_def HeapWordSize_def
        mr_contains_def mr_end_def hw_add_def block_for_addr_def mr_contains_addr_def offset_base_def in_blocks_def Let_def)
  then obtain osa' where s: "set_covered_region sample_osa_vm ?osa ?mr = Inr osa'" by blast
  have "mr_end ?mr < size_t_max1" by (simp add: mr_end_def hw_add_def HeapWordSize_def size_t_max1_def)
  then show ?thesis using osa_setup_ok[OF i s, of 12] i s by (auto simp: sample_osa_vm_def)
qed

end
