(* ===== verification/ParMarkBitMaps.thy ===== *)
theory ParMarkBitMaps
  imports BitSets MemRegions
begin

text \<open>
  \<open>gc_implementation/parallelScavenge/parMarkBitMap.hpp\<close> and
  \<open>parMarkBitMap.cpp\<close>: two bit maps over one heap region, one with the first
  and one with the last word of every live object.  The old collector uses it for
  objects and the big-data space for its container segments.  The object
  alignment is the default of the 64-bit virtual machine, one word.  Virtual
  memory is a parameter: the page sizes, whether committing succeeds and what
  fresh memory holds.  The debug counters of marked objects are left out.
\<close>

section \<open>State\<close>

datatype iteration_status = incomplete | complete | full | would_overflow

record pm_bitmap =
  pm_region_start :: addr
  pm_region_size :: size_t
  pm_beg_bits :: bitmap
  pm_end_bits :: bitmap
  pm_reserved_byte_size :: size_t

record pm_memory =
  page_size_for_region :: "size_t \<Rightarrow> size_t"
  vm_allocation_granularity :: size_t
  expand_by :: "size_t \<Rightarrow> bool"
  fresh_word :: "nat \<Rightarrow> bm_word"

definition LogMinObjAlignment :: nat where
  "LogMinObjAlignment = 0"

definition MinObjAlignment :: nat where
  "MinObjAlignment = 1"

definition bits_to_words :: "idx_t \<Rightarrow> size_t" where
  "bits_to_words bits = bits * 2 ^ LogMinObjAlignment"

definition words_to_bits :: "size_t \<Rightarrow> idx_t" where
  "words_to_bits words = words div 2 ^ LogMinObjAlignment"

definition bits_required :: "size_t \<Rightarrow> idx_t" where
  "bits_required words = words_to_bits (words * 2)"

definition bits_required_region :: "mem_region \<Rightarrow> idx_t" where
  "bits_required_region covered_region = bits_required (mr_word_size covered_region)"

definition new_pm :: pm_bitmap where
  "new_pm = \<lparr>pm_region_start = NULL, pm_region_size = 0,
     pm_beg_bits = \<lparr>bm_map = [], bm_size = 0\<rparr>, pm_end_bits = \<lparr>bm_map = [], bm_size = 0\<rparr>,
     pm_reserved_byte_size = 0\<rparr>"

definition pm_initialize :: "pm_memory \<Rightarrow> pm_bitmap \<Rightarrow> mem_region \<Rightarrow> (pm_bitmap \<times> bool) result" where
  "pm_initialize vm pm covered_region =
     (let bits = bits_required_region covered_region
      in if bits mod (64 * 2) = 0 then
           (let words = bits div 64;
                raw_bytes = words * 8;
                page_sz = page_size_for_region vm raw_bytes;
                reserved = nat (align_size_up (int raw_bytes) (int (max page_sz (vm_allocation_granularity vm))));
                pm1 = pm\<lparr>pm_reserved_byte_size := reserved\<rparr>
            in if expand_by vm reserved then
                 Inr (pm1\<lparr>pm_region_start := mr_start covered_region,
                          pm_region_size := mr_word_size covered_region,
                          pm_beg_bits := \<lparr>bm_map = map (fresh_word vm) [0..<words div 2], bm_size = bits div 2\<rparr>,
                          pm_end_bits := \<lparr>bm_map = map (fresh_word vm) [words div 2..<words], bm_size = bits div 2\<rparr>\<rparr>,
                      True)
               else Inr (pm1\<lparr>pm_region_start := NULL, pm_region_size := 0\<rparr>, False))
         else Inl (AssertFailed ''region size unaligned''))"

definition pm_region_end :: "pm_bitmap \<Rightarrow> addr" where
  "pm_region_end pm = hw_add (pm_region_start pm) (pm_region_size pm)"

definition pm_size :: "pm_bitmap \<Rightarrow> idx_t" where
  "pm_size pm = bm_size (pm_beg_bits pm)"

definition verify_bit :: "pm_bitmap \<Rightarrow> idx_t \<Rightarrow> bool" where
  "verify_bit pm b \<longleftrightarrow> b \<le> bm_size (pm_beg_bits pm)"

definition verify_addr :: "pm_bitmap \<Rightarrow> addr \<Rightarrow> bool" where
  "verify_addr pm a \<longleftrightarrow> a \<ge> pm_region_start pm \<and> a \<le> pm_region_end pm"

definition addr_to_bit :: "pm_bitmap \<Rightarrow> addr \<Rightarrow> idx_t result" where
  "addr_to_bit pm a =
     (if verify_addr pm a then Inr (words_to_bits (pointer_delta a (pm_region_start pm)))
      else Inl (AssertFailed ''addr out of region''))"

definition bit_to_addr :: "pm_bitmap \<Rightarrow> idx_t \<Rightarrow> addr result" where
  "bit_to_addr pm b =
     (if verify_bit pm b then Inr (hw_add (pm_region_start pm) (bits_to_words b))
      else Inl (AssertFailed ''bit out of range''))"

section \<open>Marks\<close>

definition is_obj_beg :: "pm_bitmap \<Rightarrow> idx_t \<Rightarrow> bool" where
  "is_obj_beg pm b \<longleftrightarrow> bm_at (pm_beg_bits pm) b"

definition is_obj_end :: "pm_bitmap \<Rightarrow> idx_t \<Rightarrow> bool" where
  "is_obj_end pm b \<longleftrightarrow> bm_at (pm_end_bits pm) b"

definition is_marked_bit :: "pm_bitmap \<Rightarrow> idx_t \<Rightarrow> bool" where
  "is_marked_bit pm b \<longleftrightarrow> is_obj_beg pm b"

definition is_unmarked_bit :: "pm_bitmap \<Rightarrow> idx_t \<Rightarrow> bool" where
  "is_unmarked_bit pm b \<longleftrightarrow> \<not> is_marked_bit pm b"

definition is_marked :: "pm_bitmap \<Rightarrow> addr \<Rightarrow> bool result" where
  "is_marked pm a = bind_result (addr_to_bit pm a) (\<lambda>b. Inr (is_marked_bit pm b))"

definition is_unmarked :: "pm_bitmap \<Rightarrow> addr \<Rightarrow> bool result" where
  "is_unmarked pm a = bind_result (is_marked pm a) (\<lambda>r. Inr (\<not> r))"

text \<open>\<open>addr + size - 1\<close> is computed on \<open>HeapWord*\<close>.\<close>

definition mark_obj :: "pm_bitmap \<Rightarrow> addr \<Rightarrow> size_t \<Rightarrow> (pm_bitmap \<times> bool) result" where
  "mark_obj pm a n =
     bind_result (addr_to_bit pm a)
       (\<lambda>beg_bit. bind_result (par_set_bit (pm_beg_bits pm) beg_bit)
         (\<lambda>(beg_bits, new).
            let pm1 = pm\<lparr>pm_beg_bits := beg_bits\<rparr>
            in if new then
                 bind_result (addr_to_bit pm1 (hw_add a n - HeapWordSize))
                   (\<lambda>end_bit. bind_result (par_set_bit (pm_end_bits pm1) end_bit)
                     (\<lambda>(end_bits, end_bit_ok).
                        if end_bit_ok then Inr (pm1\<lparr>pm_end_bits := end_bits\<rparr>, True)
                        else Inl (AssertFailed ''concurrency problem'')))
               else Inr (pm1, False)))"

definition pm_clear_range :: "pm_bitmap \<Rightarrow> idx_t \<Rightarrow> idx_t \<Rightarrow> pm_bitmap result" where
  "pm_clear_range pm b e =
     bind_result (clear_range (pm_beg_bits pm) b e)
       (\<lambda>beg_bits. bind_result (clear_range (pm_end_bits pm) b e)
         (\<lambda>end_bits. Inr (pm\<lparr>pm_beg_bits := beg_bits, pm_end_bits := end_bits\<rparr>)))"

text \<open>\<open>BitMap::word_align_up\<close>.\<close>

definition word_align_up :: "idx_t \<Rightarrow> idx_t" where
  "word_align_up b = nat (align_size_up (int b) 64)"

definition next_mark :: "bitmap \<Rightarrow> idx_t \<Rightarrow> idx_t \<Rightarrow> idx_t result" where
  "next_mark m b e =
     (case get_next_one_offset_inline_aligned_right m b e of
        None \<Rightarrow> Inl (AssertFailed ''BitMap range error'')
      | Some off \<Rightarrow> Inr off)"

definition find_obj_beg :: "pm_bitmap \<Rightarrow> idx_t \<Rightarrow> idx_t \<Rightarrow> idx_t result" where
  "find_obj_beg pm b e = next_mark (pm_beg_bits pm) b e"

definition find_obj_end :: "pm_bitmap \<Rightarrow> idx_t \<Rightarrow> idx_t \<Rightarrow> idx_t result" where
  "find_obj_end pm b e = next_mark (pm_end_bits pm) b e"

definition find_obj_beg_addr :: "pm_bitmap \<Rightarrow> addr \<Rightarrow> addr \<Rightarrow> addr result" where
  "find_obj_beg_addr pm b e =
     bind_result (addr_to_bit pm b) (\<lambda>beg_bit.
     bind_result (addr_to_bit pm e) (\<lambda>end_bit.
     bind_result (find_obj_beg pm beg_bit (word_align_up end_bit)) (\<lambda>r.
     bit_to_addr pm (min r end_bit))))"

definition find_obj_end_addr :: "pm_bitmap \<Rightarrow> addr \<Rightarrow> addr \<Rightarrow> addr result" where
  "find_obj_end_addr pm b e =
     bind_result (addr_to_bit pm b) (\<lambda>beg_bit.
     bind_result (addr_to_bit pm e) (\<lambda>end_bit.
     bind_result (find_obj_end pm beg_bit (word_align_up end_bit)) (\<lambda>r.
     bit_to_addr pm (min r end_bit))))"

section \<open>Object sizes\<close>

text \<open>\<open>end_bit - beg_bit + 1\<close> on unsigned values: an end just below the begin gives 0.\<close>

definition obj_size_bits :: "pm_bitmap \<Rightarrow> idx_t \<Rightarrow> idx_t \<Rightarrow> size_t result" where
  "obj_size_bits pm beg_bit end_bit =
     (if verify_bit pm beg_bit \<and> verify_bit pm end_bit
      then Inr (bits_to_words ((end_bit + 1 + size_t_max1 - beg_bit) mod size_t_max1))
      else Inl (AssertFailed ''bit out of range''))"

definition obj_size_addrs :: "pm_bitmap \<Rightarrow> addr \<Rightarrow> addr \<Rightarrow> size_t result" where
  "obj_size_addrs pm beg_addr end_addr =
     (if verify_addr pm beg_addr \<and> verify_addr pm end_addr
      then Inr (pointer_delta end_addr beg_addr + MinObjAlignment)
      else Inl (AssertFailed ''addr out of region''))"

definition obj_size_bit :: "pm_bitmap \<Rightarrow> idx_t \<Rightarrow> size_t result" where
  "obj_size_bit pm beg_bit =
     (case get_next_one_offset_inline (pm_end_bits pm) beg_bit (pm_size pm) of
        None \<Rightarrow> Inl (AssertFailed ''BitMap range error'')
      | Some end_bit \<Rightarrow>
          if is_marked_bit pm beg_bit \<and> end_bit < pm_size pm then obj_size_bits pm beg_bit end_bit
          else Inl (AssertFailed ''obj not marked or end bit missing''))"

definition obj_size :: "pm_bitmap \<Rightarrow> addr \<Rightarrow> size_t result" where
  "obj_size pm a = bind_result (addr_to_bit pm a) (obj_size_bit pm)"

lemma next_mark_bounds: "next_mark m b e = Inr off \<Longrightarrow> b \<le> off \<and> off \<le> e"
proof -
  assume a: "next_mark m b e = Inr off"
  then have r: "verify_range m b e" "e mod 64 = 0" "get_next_one_offset_inline_aligned_right m b e = Some off"
    by (auto simp: next_mark_def get_next_one_offset_inline_aligned_right_def bit_in_word_def
        split: option.splits if_splits)
  then show ?thesis
    using next_one[of b e m] next_one_aligned[OF r(1,2)] by (auto simp: verify_range_def is_next_def)
qed

section \<open>Loops over the marked objects\<close>

text \<open>
  The loop of \<open>live_words_in_range\<close>.  Every round moves past an end bit, so it
  ends.
\<close>

function live_loop :: "pm_bitmap \<Rightarrow> idx_t \<Rightarrow> idx_t \<Rightarrow> idx_t \<Rightarrow> idx_t \<Rightarrow> idx_t result" where
  "live_loop pm end_bit range_end beg_bit live_bits =
     (if beg_bit < end_bit then
        (case find_obj_end pm beg_bit range_end of
           Inl f \<Rightarrow> Inl f
         | Inr tmp_end \<Rightarrow>
             if tmp_end < end_bit then
               (case find_obj_beg pm (tmp_end + 1) range_end of
                  Inl f \<Rightarrow> Inl f
                | Inr b \<Rightarrow> live_loop pm end_bit range_end b (live_bits + (tmp_end - beg_bit + 1)))
             else Inl (AssertFailed ''missing end bit''))
      else Inr live_bits)"
  by pat_completeness auto
termination
  by (relation "measure (\<lambda>(pm, end_bit, range_end, beg_bit, live_bits). end_bit - beg_bit)")
     (auto simp: find_obj_end_def find_obj_beg_def dest!: next_mark_bounds)

declare live_loop.simps [simp del]

definition live_words_in_range :: "pm_bitmap \<Rightarrow> addr \<Rightarrow> addr \<Rightarrow> size_t result" where
  "live_words_in_range pm beg_addr end_obj =
     (if beg_addr \<le> end_obj then
        bind_result (is_marked pm end_obj) (\<lambda>marked.
          if marked then
            bind_result (addr_to_bit pm end_obj) (\<lambda>end_bit.
              let range_end = word_align_up end_bit
              in bind_result (addr_to_bit pm beg_addr) (\<lambda>b.
                 bind_result (find_obj_beg pm b range_end) (\<lambda>beg_bit.
                 bind_result (live_loop pm end_bit range_end beg_bit 0) (\<lambda>live_bits.
                 Inr (bits_to_words live_bits)))))
          else Inl (AssertFailed ''end_obj must be live''))
      else Inl (AssertFailed ''bad range''))"

text \<open>A closure is its \<open>do_addr\<close> and \<open>set_source\<close> on a state the client chooses.\<close>

record 's pm_closure =
  do_addr :: "'s \<Rightarrow> addr \<Rightarrow> size_t \<Rightarrow> 's \<times> iteration_status"
  set_source :: "'s \<Rightarrow> addr \<Rightarrow> 's"

definition closure_result :: "'s \<Rightarrow> iteration_status \<Rightarrow> ('s \<times> iteration_status) result" where
  "closure_result s status =
     (if status = would_overflow \<or> status = full then Inr (s, status) else Inl (AssertFailed ''sanity''))"

function iterate_loop ::
  "pm_bitmap \<Rightarrow> 's pm_closure \<Rightarrow> idx_t \<Rightarrow> idx_t \<Rightarrow> 's \<Rightarrow> idx_t \<Rightarrow> ('s \<times> iteration_status) result" where
  "iterate_loop pm cl range_end search_end s cur_beg =
     (if cur_beg < range_end then
        (case find_obj_end pm cur_beg search_end of
           Inl f \<Rightarrow> Inl f
         | Inr cur_end \<Rightarrow>
             if cur_end \<ge> range_end then
               bind_result (bit_to_addr pm cur_beg) (\<lambda>a. Inr (set_source cl s a, incomplete))
             else
               (case obj_size_bits pm cur_beg cur_end of
                  Inl f \<Rightarrow> Inl f
                | Inr n \<Rightarrow>
                    (case bit_to_addr pm cur_beg of
                       Inl f \<Rightarrow> Inl f
                     | Inr a \<Rightarrow>
                         (case do_addr cl s a n of
                            (s1, status) \<Rightarrow>
                              if status \<noteq> incomplete then closure_result s1 status
                              else
                                (case find_obj_beg pm (cur_end + 1) search_end of
                                   Inl f \<Rightarrow> Inl f
                                 | Inr b \<Rightarrow> iterate_loop pm cl range_end search_end s1 b)))))
      else bind_result (bit_to_addr pm range_end) (\<lambda>a. Inr (set_source cl s a, complete)))"
  by pat_completeness auto
termination
  by (relation "measure (\<lambda>(pm, cl, range_end, search_end, s, cur_beg). range_end - cur_beg)")
     (auto simp: find_obj_end_def find_obj_beg_def dest!: next_mark_bounds)

declare iterate_loop.simps [simp del]

definition pm_iterate ::
  "pm_bitmap \<Rightarrow> 's pm_closure \<Rightarrow> 's \<Rightarrow> idx_t \<Rightarrow> idx_t \<Rightarrow> ('s \<times> iteration_status) result" where
  "pm_iterate pm cl s range_beg range_end =
     (if verify_bit pm range_beg \<and> verify_bit pm range_end \<and> range_beg \<le> range_end then
        (let search_end = word_align_up range_end
         in bind_result (find_obj_beg pm range_beg search_end)
              (iterate_loop pm cl range_end search_end s))
      else Inl (AssertFailed ''live range invalid''))"

definition pm_iterate_addr ::
  "pm_bitmap \<Rightarrow> 's pm_closure \<Rightarrow> 's \<Rightarrow> addr \<Rightarrow> addr \<Rightarrow> ('s \<times> iteration_status) result" where
  "pm_iterate_addr pm cl s range_beg range_end =
     bind_result (addr_to_bit pm range_beg) (\<lambda>b.
     bind_result (addr_to_bit pm range_end) (\<lambda>e. pm_iterate pm cl s b e))"

text \<open>
  The dense-prefix variant.  The dead closure shares the state; its result is
  ignored by the source.
\<close>

definition fill_dead ::
  "pm_bitmap \<Rightarrow> ('s \<Rightarrow> addr \<Rightarrow> size_t \<Rightarrow> 's) \<Rightarrow> idx_t \<Rightarrow> 's \<Rightarrow> idx_t \<Rightarrow> idx_t \<Rightarrow> 's result" where
  "fill_dead pm dead dead_range_end s dead_space_beg cur_beg =
     (let dead_space_end = min (cur_beg - 1) (dead_range_end - 1)
      in bind_result (obj_size_bits pm dead_space_beg dead_space_end) (\<lambda>n.
         bind_result (bit_to_addr pm dead_space_beg) (\<lambda>a. Inr (dead s a n))))"

function iterate_dead_loop ::
  "pm_bitmap \<Rightarrow> 's pm_closure \<Rightarrow> ('s \<Rightarrow> addr \<Rightarrow> size_t \<Rightarrow> 's) \<Rightarrow> idx_t \<Rightarrow> idx_t \<Rightarrow> idx_t \<Rightarrow> idx_t \<Rightarrow>
   's \<Rightarrow> idx_t \<Rightarrow> ('s \<times> iteration_status) result" where
  "iterate_dead_loop pm cl dead range_end dead_range_end live_end dead_end s cur_beg =
     (if cur_beg < range_end then
        (case find_obj_end pm cur_beg live_end of
           Inl f \<Rightarrow> Inl f
         | Inr cur_end \<Rightarrow>
             if cur_end \<ge> range_end then
               bind_result (bit_to_addr pm cur_beg) (\<lambda>a. Inr (set_source cl s a, incomplete))
             else
               (case obj_size_bits pm cur_beg cur_end of
                  Inl f \<Rightarrow> Inl f
                | Inr n \<Rightarrow>
                    (case bit_to_addr pm cur_beg of
                       Inl f \<Rightarrow> Inl f
                     | Inr a \<Rightarrow>
                         (case do_addr cl s a n of
                            (s1, status) \<Rightarrow>
                              if status \<noteq> incomplete then closure_result s1 status
                              else
                                (case find_obj_beg pm (cur_end + 1) dead_end of
                                   Inl f \<Rightarrow> Inl f
                                 | Inr b \<Rightarrow>
                                     (case (if b > cur_end + 1
                                            then fill_dead pm dead dead_range_end s1 (cur_end + 1) b
                                            else Inr s1) of
                                        Inl f \<Rightarrow> Inl f
                                      | Inr s2 \<Rightarrow>
                                          iterate_dead_loop pm cl dead range_end dead_range_end
                                            live_end dead_end s2 b))))))
      else bind_result (bit_to_addr pm range_end) (\<lambda>a. Inr (set_source cl s a, complete)))"
  by pat_completeness auto
termination
  by (relation "measure (\<lambda>(pm, cl, dead, range_end, dead_range_end, live_end, dead_end, s, cur_beg).
        range_end - cur_beg)")
     (auto simp: find_obj_end_def find_obj_beg_def dest!: next_mark_bounds)

declare iterate_dead_loop.simps [simp del]

definition pm_iterate_dead ::
  "pm_bitmap \<Rightarrow> 's pm_closure \<Rightarrow> ('s \<Rightarrow> addr \<Rightarrow> size_t \<Rightarrow> 's) \<Rightarrow> 's \<Rightarrow> idx_t \<Rightarrow> idx_t \<Rightarrow> idx_t \<Rightarrow>
   ('s \<times> iteration_status) result" where
  "pm_iterate_dead pm cl dead s range_beg range_end dead_range_end =
     (if verify_bit pm range_beg \<and> verify_bit pm range_end \<and> verify_bit pm dead_range_end \<and>
         range_beg \<le> range_end \<and> range_end \<le> dead_range_end then
        (let live_end = word_align_up range_end;
             dead_end = word_align_up dead_range_end;
             loop = iterate_dead_loop pm cl dead range_end dead_range_end live_end dead_end
         in if range_beg < range_end \<and> is_unmarked_bit pm range_beg then
              bind_result (find_obj_beg pm (range_beg + 1) dead_end) (\<lambda>cur_beg.
              bind_result (fill_dead pm dead dead_range_end s range_beg cur_beg) (\<lambda>s1.
              loop s1 cur_beg))
            else loop s range_beg)
      else Inl (AssertFailed ''live range invalid''))"

end
