(* ===== verification/ParMarkObjects.thy ===== *)
theory ParMarkObjects
  imports ParMarkBitMaps
begin

text \<open>
  The mark bit map as the list of live objects it stands for, in address order,
  and what marking, measuring and iterating do to and with that list.
\<close>

section \<open>The objects of a mark bit map\<close>

type_synonym mobj = "idx_t \<times> nat"

definition obj_before :: "mobj \<Rightarrow> mobj \<Rightarrow> bool" where
  "obj_before o1 o2 \<longleftrightarrow> fst o1 + snd o1 \<le> fst o2"

definition pm_wf :: "pm_bitmap \<Rightarrow> bool" where
  "pm_wf pm \<longleftrightarrow>
     bm_wf (pm_beg_bits pm) \<and> bm_wf (pm_end_bits pm) \<and>
     bm_size (pm_end_bits pm) = bm_size (pm_beg_bits pm) \<and> bm_size (pm_beg_bits pm) mod 64 = 0 \<and>
     pm_region_size pm = bm_size (pm_beg_bits pm) \<and> pm_region_end pm < size_t_max1"

definition pm_objs_ok :: "pm_bitmap \<Rightarrow> mobj list \<Rightarrow> bool" where
  "pm_objs_ok pm os \<longleftrightarrow>
     sorted_wrt obj_before os \<and> (\<forall>(b, n) \<in> set os. 0 < n \<and> b + n \<le> pm_size pm)"

definition pm_rep :: "pm_bitmap \<Rightarrow> mobj list \<Rightarrow> bool" where
  "pm_rep pm os \<longleftrightarrow>
     pm_wf pm \<and> pm_objs_ok pm os \<and>
     (\<forall>i < pm_size pm. is_obj_beg pm i \<longleftrightarrow> (\<exists>n. (i, n) \<in> set os)) \<and>
     (\<forall>i < pm_size pm. is_obj_end pm i \<longleftrightarrow> (\<exists>b n. (b, n) \<in> set os \<and> Suc i = b + n))"

definition objs_from :: "idx_t \<Rightarrow> mobj list \<Rightarrow> mobj list" where
  "objs_from l os = filter (\<lambda>ob. l \<le> fst ob) os"

definition first_beg :: "mobj list \<Rightarrow> idx_t \<Rightarrow> idx_t" where
  "first_beg os r = (case os of [] \<Rightarrow> r | ob # _ \<Rightarrow> min (fst ob) r)"

lemma obj_before_trans: "sorted_wrt obj_before ((b, n) # os) \<Longrightarrow> (c, k) \<in> set os \<Longrightarrow> b + n \<le> c"
  by (auto simp: obj_before_def)

lemma objs_unique:
  assumes "pm_objs_ok pm os" "(b, n) \<in> set os" "(c, k) \<in> set os" "b \<le> c" "c < b + n"
  shows "c = b \<and> k = n"
proof -
  obtain i j where ij: "i < length os" "os ! i = (b, n)" "j < length os" "os ! j = (c, k)"
    using assms(2,3) by (auto simp: in_set_conv_nth)
  have s: "sorted_wrt obj_before os" using assms(1) by (simp add: pm_objs_ok_def)
  have k: "0 < k" using assms(1,3) by (auto simp: pm_objs_ok_def)
  have "i = j"
    using sorted_wrt_nth_less[OF s, of i j] sorted_wrt_nth_less[OF s, of j i] ij assms(4,5) k
    by (cases i j rule: linorder_cases) (auto simp: obj_before_def)
  then show ?thesis using ij by simp
qed

lemma objs_from_suffix:
  "sorted_wrt obj_before os \<Longrightarrow> \<exists>pre. os = pre @ objs_from l os \<and> (\<forall>ob \<in> set pre. fst ob < l)"
proof (induction os)
  case (Cons ob os)
  show ?case
  proof (cases "l \<le> fst ob")
    case True
    then have "objs_from l (ob # os) = ob # os"
      using Cons.prems by (fastforce simp: objs_from_def obj_before_def filter_id_conv)
    then show ?thesis by (intro exI[of _ "[]"]) simp
  next
    case False
    obtain pre where "os = pre @ objs_from l os" "\<forall>ob \<in> set pre. fst ob < l" using Cons by auto
    then show ?thesis using False by (intro exI[of _ "ob # pre"]) (simp add: objs_from_def)
  qed
qed (simp add: objs_from_def)

lemma objs_from_after:
  assumes "pm_objs_ok pm (pre @ (b, n) # rest)"
  shows "objs_from (b + n) (pre @ (b, n) # rest) = rest" "objs_from b (pre @ (b, n) # rest) = (b, n) # rest"
proof -
  have n: "0 < n" and pos: "\<forall>ob \<in> set pre. 0 < snd ob" using assms by (auto simp: pm_objs_ok_def)
  have p: "\<forall>ob \<in> set pre. fst ob < b"
    using assms pos by (fastforce simp: pm_objs_ok_def sorted_wrt_append obj_before_def)
  have r: "\<forall>ob \<in> set rest. b + n \<le> fst ob"
    using assms by (fastforce simp: pm_objs_ok_def sorted_wrt_append obj_before_def)
  show "objs_from (b + n) (pre @ (b, n) # rest) = rest"
    using p r n by (fastforce simp: objs_from_def filter_empty_conv filter_id_conv)
  have "\<forall>ob \<in> set rest. b \<le> fst ob" using r by auto
  then show "objs_from b (pre @ (b, n) # rest) = (b, n) # rest"
    using p by (fastforce simp: objs_from_def filter_empty_conv filter_id_conv)
qed

section \<open>Searching\<close>

lemma word_align_up_ptr: "word_align_up b = align_ptr_up b (2 ^ 6)"
  by (simp add: word_align_up_def align_ptr_up_def)

lemma word_align_up_props:
  "b \<le> word_align_up b" "word_align_up b mod 64 = 0" "b \<le> s \<Longrightarrow> s mod 64 = 0 \<Longrightarrow> word_align_up b \<le> s"
  using align_ptr_up_ge[of b 6] align_ptr_up_dvd[of 6 b] align_ptr_up_least[of b s 6]
  by (auto simp: word_align_up_ptr dvd_eq_mod_eq_0)

lemma next_mark_is_next:
  assumes "verify_range m l r" "r mod 64 = 0" "is_next m True l r off"
  shows "next_mark m l r = Inr off"
  using next_one[of l r m] next_one_aligned[OF assms(1,2)] assms is_next_unique
  by (fastforce simp: next_mark_def verify_range_def)

lemma find_obj_beg_first:
  assumes "pm_rep pm os" "l \<le> r" "r \<le> pm_size pm" "r mod 64 = 0"
  shows "find_obj_beg pm l r = Inr (first_beg (objs_from l os) r)"
proof -
  have beg: "bm_at (pm_beg_bits pm) i \<longleftrightarrow> (\<exists>n. (i, n) \<in> set os)" if "i < pm_size pm" for i
    using assms(1) that by (simp add: pm_rep_def is_obj_beg_def)
  have srt: "sorted_wrt obj_before (objs_from l os)"
    using assms(1) by (simp add: pm_rep_def pm_objs_ok_def objs_from_def sorted_wrt_filter)
  have "is_next (pm_beg_bits pm) True l r (first_beg (objs_from l os) r)"
  proof (cases "objs_from l os")
    case Nil
    then show ?thesis
      using assms beg by (force simp: is_next_def first_beg_def objs_from_def filter_empty_conv)
  next
    case (Cons ob rest)
    obtain b n where ob: "ob = (b, n)" by (cases ob)
    have mem: "(i, k) \<in> set os \<and> l \<le> i \<longleftrightarrow> (i, k) \<in> set ((b, n) # rest)" for i k
      unfolding ob[symmetric] Cons[symmetric] by (auto simp: objs_from_def)
    have least: "b \<le> i" if "(i, k) \<in> set os" "l \<le> i" for i k
      using obj_before_trans[of b n rest i k] srt that mem[of i k] by (auto simp: Cons ob)
    have b: "(b, n) \<in> set os" "l \<le> b" using mem[of b n] by auto
    then have bs: "b < pm_size pm" using assms(1) by (force simp: pm_rep_def pm_objs_ok_def)
    have "is_next (pm_beg_bits pm) True l r (min b r)"
    proof (rule is_next_min)
      show "bm_at (pm_beg_bits pm) i \<noteq> True" if "l \<le> i" "i < b" for i
        using beg[of i] least that bs by fastforce
    qed (use assms(2) b bs beg in auto)
    then show ?thesis by (simp add: Cons ob first_beg_def)
  qed
  then show ?thesis
    using assms by (simp add: find_obj_beg_def next_mark_is_next verify_range_def pm_size_def)
qed

lemma find_obj_end_first:
  assumes "pm_rep pm os" "(b, n) \<in> set os" "b \<le> r" "r \<le> pm_size pm" "r mod 64 = 0"
  shows "find_obj_end pm b r = Inr (min (b + n - 1) r)"
proof -
  have ok: "pm_objs_ok pm os" using assms(1) by (simp add: pm_rep_def)
  have n: "0 < n" using ok assms(2) by (auto simp: pm_objs_ok_def)
  have e: "bm_at (pm_end_bits pm) i \<longleftrightarrow> (\<exists>b n. (b, n) \<in> set os \<and> Suc i = b + n)" if "i < pm_size pm" for i
    using assms(1) that by (simp add: pm_rep_def is_obj_end_def)
  have no: "\<not> (c, k) \<in> set os" if "b \<le> i" "i < b + n - 1" "Suc i = c + k" for c k i
  proof
    assume c: "(c, k) \<in> set os"
    then have k: "0 < k" using ok by (auto simp: pm_objs_ok_def)
    show False
    proof (cases "b \<le> c")
      case True
      have "c < b + n" using that k by linarith
      then show False using objs_unique[OF ok assms(2) c True] that by simp
    next
      case False
      then have "c \<le> b" "b < c + k" using that by linarith+
      then show False using objs_unique[OF ok c assms(2)] that False by simp
    qed
  qed
  have "is_next (pm_end_bits pm) True b r (min (b + n - 1) r)"
  proof (rule is_next_min)
    have bn: "b + n \<le> pm_size pm" using ok assms(2) by (auto simp: pm_objs_ok_def)
    show "bm_at (pm_end_bits pm) i \<noteq> True" if "b \<le> i" "i < b + n - 1" for i
      using e[of i] no that bn by auto
    show "bm_at (pm_end_bits pm) (b + n - 1) = True"
      using e[of "b + n - 1"] bn n assms(2) by auto
  qed (use assms(3) n in auto)
  then show ?thesis
    using assms by (simp add: find_obj_end_def next_mark_is_next verify_range_def pm_size_def pm_rep_def pm_wf_def)
qed

section \<open>Addresses, marking and sizes\<close>

abbreviation pm_addr :: "pm_bitmap \<Rightarrow> idx_t \<Rightarrow> addr" where
  "pm_addr pm b \<equiv> hw_add (pm_region_start pm) b"

lemma pm_addr_bound: "pm_wf pm \<Longrightarrow> b \<le> pm_size pm \<Longrightarrow> pm_addr pm b \<le> pm_region_end pm \<and> pm_addr pm b < size_t_max1"
  using hw_add_mono[of "pm_region_start pm" b "pm_size pm"]
  by (auto simp: pm_wf_def pm_region_end_def pm_size_def simp del: hw_add_mono)

lemma addr_to_bit_addr: "pm_wf pm \<Longrightarrow> b \<le> pm_size pm \<Longrightarrow> addr_to_bit pm (pm_addr pm b) = Inr b"
  using pm_addr_bound[of pm b]
  by (simp add: addr_to_bit_def verify_addr_def words_to_bits_def LogMinObjAlignment_def)

lemma bit_to_addr_bit: "b \<le> pm_size pm \<Longrightarrow> bit_to_addr pm b = Inr (pm_addr pm b)"
  by (simp add: bit_to_addr_def verify_bit_def pm_size_def bits_to_words_def LogMinObjAlignment_def)

lemma obj_size_bits_ok:
  assumes "pm_wf pm" "b \<le> Suc e" "Suc e \<le> pm_size pm"
  shows "obj_size_bits pm b e = Inr (Suc e - b)"
proof -
  have lt: "Suc e - b < size_t_max1" using assms by (auto simp: pm_wf_def bm_wf_def pm_size_def)
  have "e + 1 + size_t_max1 - b = (Suc e - b) + size_t_max1" using assms(2) by simp
  then have "(e + 1 + size_t_max1 - b) mod size_t_max1 = (Suc e - b) mod size_t_max1" by (simp only: mod_add_self2)
  also have "\<dots> = Suc e - b" using lt by (rule mod_less)
  finally have "(e + 1 + size_t_max1 - b) mod size_t_max1 = Suc e - b" .
  then show ?thesis
    using assms(2,3) by (simp add: obj_size_bits_def verify_bit_def pm_size_def bits_to_words_def LogMinObjAlignment_def)
qed

lemma objs_apart:
  assumes "pm_objs_ok pm (pre @ (b, n) # post)" "(c, k) \<in> set (pre @ post)"
  shows "0 < k \<and> (c + k \<le> b \<or> b + n \<le> c)"
  using assms by (fastforce simp: pm_objs_ok_def sorted_wrt_append obj_before_def)

lemma mark_obj_marked:
  assumes "pm_rep pm os" "(b, n) \<in> set os"
  shows "mark_obj pm (pm_addr pm b) k = Inr (pm, False)"
proof -
  have b: "b < pm_size pm" "pm_wf pm" "bm_at (pm_beg_bits pm) b"
    using assms by (force simp: pm_rep_def pm_objs_ok_def is_obj_beg_def)+
  then have "par_set_bit (pm_beg_bits pm) b = Inr (pm_beg_bits pm, False)"
    using bm.test_set_ok[of "pm_beg_bits pm" b]
    by (auto simp: pm_wf_def pm_size_def par_set_bit_def Let_def split: if_splits)
  then show ?thesis using b by (simp add: mark_obj_def addr_to_bit_addr Let_def)
qed

lemma obj_size_marked:
  assumes "pm_rep pm os" "(b, n) \<in> set os"
  shows "obj_size pm (pm_addr pm b) = Inr n"
proof -
  have b: "0 < n" "b + n \<le> pm_size pm" "pm_wf pm" using assms by (auto simp: pm_rep_def pm_objs_ok_def)
  then have m: "is_obj_beg pm b" using assms by (auto simp: pm_rep_def)
  have "find_obj_end pm b (pm_size pm) = Inr (min (b + n - 1) (pm_size pm))"
    using b by (intro find_obj_end_first[OF assms]) (auto simp: pm_wf_def pm_size_def)
  then have "get_next_one_offset_inline (pm_end_bits pm) b (pm_size pm) = Some (b + n - 1)"
    using b next_one_aligned[of "pm_end_bits pm" b "pm_size pm"]
    by (auto simp: find_obj_end_def next_mark_def pm_size_def pm_wf_def verify_range_def split: option.splits)
  then show ?thesis
    using b m obj_size_bits_ok[of pm b "b + n - 1"]
    by (simp add: obj_size_def obj_size_bit_def addr_to_bit_addr is_marked_bit_def)
qed

text \<open>The state after both bits of a new object are set.\<close>

lemma pm_rep_add:
  assumes "pm_rep pm (pre @ post)" "pm_objs_ok pm (pre @ (b, n) # post)"
    "bm_wf bb" "bm_size bb = pm_size pm" "\<forall>i < pm_size pm. bm_at bb i \<longleftrightarrow> i = b \<or> bm_at (pm_beg_bits pm) i"
    "bm_wf eb" "bm_size eb = pm_size pm"
    "\<forall>i < pm_size pm. bm_at eb i \<longleftrightarrow> i = b + n - 1 \<or> bm_at (pm_end_bits pm) i"
  shows "pm_rep (pm\<lparr>pm_beg_bits := bb, pm_end_bits := eb\<rparr>) (pre @ (b, n) # post)" (is "pm_rep ?pm' ?os")
  unfolding pm_rep_def
proof (intro conjI allI impI)
  have n: "0 < n" using assms(2) by (auto simp: pm_objs_ok_def)
  have sz: "pm_size ?pm' = pm_size pm" using assms(4) by (simp add: pm_size_def)
  show "pm_wf ?pm'" "pm_objs_ok ?pm' ?os"
    using assms by (auto simp: pm_rep_def pm_wf_def pm_size_def pm_objs_ok_def pm_region_end_def)
  fix i assume i: "i < pm_size ?pm'"
  show "is_obj_beg ?pm' i \<longleftrightarrow> (\<exists>n'. (i, n') \<in> set ?os)"
    using assms(1,5) i sz by (auto simp: pm_rep_def is_obj_beg_def)
  have "is_obj_end ?pm' i \<longleftrightarrow> Suc i = b + n \<or> is_obj_end pm i"
    using assms(8) i sz n by (auto simp: is_obj_end_def)
  also have "is_obj_end pm i \<longleftrightarrow> (\<exists>b' n'. (b', n') \<in> set (pre @ post) \<and> Suc i = b' + n')"
    using assms(1) i sz by (simp add: pm_rep_def)
  finally show "is_obj_end ?pm' i \<longleftrightarrow> (\<exists>b' n'. (b', n') \<in> set ?os \<and> Suc i = b' + n')" by auto
qed

lemma mark_obj_new:
  assumes "pm_rep pm (pre @ post)" "pm_objs_ok pm (pre @ (b, n) # post)"
  shows "\<exists>pm'. mark_obj pm (pm_addr pm b) n = Inr (pm', True) \<and> pm_rep pm' (pre @ (b, n) # post) \<and>
    pm_region_start pm' = pm_region_start pm \<and> pm_size pm' = pm_size pm"
proof -
  have wf: "pm_wf pm" and n: "0 < n" "b + n \<le> pm_size pm"
    using assms by (auto simp: pm_rep_def pm_objs_ok_def)
  note sz = pm_size_def pm_wf_def pm_rep_def is_obj_beg_def is_obj_end_def
  have nb: "\<not> bm_at (pm_beg_bits pm) b" and ne: "\<not> bm_at (pm_end_bits pm) (b + n - 1)"
    using assms(1) objs_apart[OF assms(2)] n by (fastforce simp: sz)+
  have le: "b + n - 1 < pm_size pm" using n by linarith
  obtain bb where bb: "par_set_bit (pm_beg_bits pm) b = Inr (bb, True)" "bm_wf bb"
      "bm_size bb = pm_size pm" "\<forall>i < pm_size pm. bm_at bb i \<longleftrightarrow> i = b \<or> bm_at (pm_beg_bits pm) i"
    using bm.test_set_ok[of "pm_beg_bits pm" b] wf n nb by (auto simp: sz)
  obtain eb where eb: "par_set_bit (pm_end_bits pm) (b + n - 1) = Inr (eb, True)" "bm_wf eb"
      "bm_size eb = pm_size pm"
      "\<forall>i < pm_size pm. bm_at eb i \<longleftrightarrow> i = b + n - 1 \<or> bm_at (pm_end_bits pm) i"
    using bm.test_set_ok[of "pm_end_bits pm" "b + n - 1"] wf le ne by (auto simp: sz)
  let ?pm1 = "pm\<lparr>pm_beg_bits := bb\<rparr>" and ?pm' = "pm\<lparr>pm_beg_bits := bb, pm_end_bits := eb\<rparr>"
  have wf1: "pm_wf ?pm1" "pm_size ?pm1 = pm_size pm"
    using wf bb by (auto simp: sz pm_region_end_def)
  have "hw_add (pm_addr pm b) n - HeapWordSize = pm_addr ?pm1 (b + n - 1)"
    using n(1) by (cases n) (auto simp: hw_add_def algebra_simps)
  then have "mark_obj pm (pm_addr pm b) n = Inr (?pm', True)"
    using wf wf1 n bb(1) eb(1) addr_to_bit_addr[of ?pm1 "b + n - 1"]
    by (simp add: mark_obj_def addr_to_bit_addr Let_def)
  then show ?thesis using pm_rep_add[OF assms bb(2-4) eb(2-4)] bb(3) by (simp add: pm_size_def)
qed

text \<open>
  C22: marking an object that overlaps no marked one reports it as new and adds
  it, and nothing else, to the objects of the bit map; marking it again changes
  nothing; its size is read back from the bits.
\<close>

theorem mark_obj_ok:
  assumes "pm_rep pm (pre @ post)" "pm_objs_ok pm (pre @ (b, n) # post)"
  shows "\<exists>pm'. mark_obj pm (pm_addr pm b) n = Inr (pm', True) \<and> pm_rep pm' (pre @ (b, n) # post) \<and>
    mark_obj pm' (pm_addr pm b) n = Inr (pm', False) \<and> obj_size pm' (pm_addr pm b) = Inr n"
proof -
  obtain pm' where pm': "mark_obj pm (pm_addr pm b) n = Inr (pm', True)" "pm_rep pm' (pre @ (b, n) # post)"
      "pm_region_start pm' = pm_region_start pm"
    using mark_obj_new[OF assms] by blast
  then show ?thesis
    using mark_obj_marked[OF pm'(2), of b n n] obj_size_marked[OF pm'(2), of b n] by simp
qed

section \<open>A fresh bit map\<close>

lemma pm_initialize_rep:
  assumes "mr_word_size mr mod 64 = 0" "mr_end mr < size_t_max1" "\<forall>i. fresh_word vm i = 0"
    "\<forall>n. expand_by vm n"
  shows "\<exists>pm'. pm_initialize vm pm mr = Inr (pm', True) \<and> pm_rep pm' [] \<and>
    pm_region_start pm' = mr_start mr \<and> pm_size pm' = mr_word_size mr"
proof -
  obtain q where q: "mr_word_size mr = 64 * q" using assms(1) by (auto elim!: dvdE simp: mod_eq_0_iff_dvd)
  have b: "bits_required_region mr = 128 * q"
    by (simp add: bits_required_region_def bits_required_def words_to_bits_def LogMinObjAlignment_def q)
  have lt: "mr_word_size mr + 64 \<le> size_t_max1"
    using assms(2) by (simp add: q mr_end_def hw_add_def HeapWordSize_def size_t_max1_def)
  define fresh where "fresh = \<lparr>bm_map = replicate q (0 :: bm_word), bm_size = 64 * q\<rparr>"
  have wf: "bm_wf fresh" using lt by (simp add: fresh_def bm_wf_def index_defs q)
  have at: "\<not> bm_at fresh i" if "i < 64 * q" for i
    using that by (simp add: fresh_def bm_at_iff less_mult_imp_div_less mult.commute)
  have maps: "map (fresh_word vm) [0..<q] = replicate q 0" "map (fresh_word vm) [q..<2 * q] = replicate q 0"
    using assms(3) by (auto intro!: nth_equalityI)
  show ?thesis
    using wf at assms(2,4)
    by (auto simp: pm_initialize_def b maps fresh_def[symmetric] Let_def pm_rep_def pm_wf_def pm_objs_ok_def
        pm_size_def is_obj_beg_def is_obj_end_def pm_region_end_def mr_end_def)
       (simp_all add: fresh_def q)
qed

definition sample_pm :: pm_bitmap where
  "sample_pm = \<lparr>pm_region_start = 1024, pm_region_size = 128,
     pm_beg_bits = \<lparr>bm_map = [2 ^ 1, 2 ^ 6], bm_size = 128\<rparr>,
     pm_end_bits = \<lparr>bm_map = [2 ^ 2, 2 ^ 8], bm_size = 128\<rparr>, pm_reserved_byte_size = 4096\<rparr>"

lemma two_bits:
  assumes "a < 64" "b < 64" "i < 128"
  shows "bm_at \<lparr>bm_map = [2 ^ a, 2 ^ b], bm_size = 128\<rparr> i \<longleftrightarrow> i = a \<or> i = 64 + b"
proof (cases "i < 64")
  case True
  then show ?thesis using assms by (auto simp: bm_at_iff bit_exp_iff)
next
  case False
  then have "i div 64 = 1" "i mod 64 = i - 64" using assms(3) by (auto simp: div_nat_eqI le_mod_geq)
  then show ?thesis using assms False by (auto simp: bm_at_iff bit_exp_iff)
qed

lemma sample_pm_rep: "pm_rep sample_pm [(1, 2), (70, 3)]"
  unfolding pm_rep_def
proof (intro conjI allI impI)
  show "pm_wf sample_pm"
    by (simp add: sample_pm_def pm_wf_def bm_wf_def index_defs pm_region_end_def hw_add_def HeapWordSize_def size_t_max1_def)
  show "pm_objs_ok sample_pm [(1, 2), (70, 3)]"
    by (simp add: sample_pm_def pm_objs_ok_def obj_before_def pm_size_def)
  fix i assume "i < pm_size sample_pm"
  then have i: "i < 128" by (simp add: sample_pm_def pm_size_def)
  show "is_obj_beg sample_pm i \<longleftrightarrow> (\<exists>n. (i, n) \<in> set [(1, 2), (70, 3)])"
    using two_bits[of 1 6 i] i unfolding is_obj_beg_def sample_pm_def by auto
  show "is_obj_end sample_pm i \<longleftrightarrow> (\<exists>b n. (b, n) \<in> set [(1, 2), (70, 3)] \<and> Suc i = b + n)"
    using two_bits[of 2 8 i] i unfolding is_obj_end_def sample_pm_def
    by (auto simp: ex_disj_distrib conj_disj_distribR)
qed

lemma sample_pm_simps: "pm_region_start sample_pm = 1024" "pm_size sample_pm = 128"
  by (simp_all add: sample_pm_def pm_size_def)

theorem mark_obj_ok_witness:
  "\<exists>pm'. mark_obj sample_pm 1104 4 = Inr (pm', True) \<and> pm_rep pm' [(1, 2), (10, 4), (70, 3)] \<and>
    mark_obj pm' 1104 4 = Inr (pm', False) \<and> obj_size pm' 1104 = Inr 4"
  using mark_obj_ok[of sample_pm "[(1, 2)]" "[(70, 3)]" 10 4] sample_pm_rep
  by (simp add: pm_objs_ok_def obj_before_def sample_pm_simps hw_add_def HeapWordSize_def)

section \<open>Iterating\<close>

text \<open>
  Iteration over the list of objects: a closure is applied to the objects that
  end in the range until it refuses one or an object reaches out of the range.
\<close>

fun iter_objs :: "pm_bitmap \<Rightarrow> 's pm_closure \<Rightarrow> idx_t \<Rightarrow> 's \<Rightarrow> mobj list \<Rightarrow> ('s \<times> iteration_status) result" where
  "iter_objs pm cl range_end s [] = Inr (set_source cl s (pm_addr pm range_end), complete)"
| "iter_objs pm cl range_end s ((b, n) # os) =
     (if range_end \<le> b then Inr (set_source cl s (pm_addr pm range_end), complete)
      else if range_end < b + n then Inr (set_source cl s (pm_addr pm b), incomplete)
      else (case do_addr cl s (pm_addr pm b) n of
              (s1, status) \<Rightarrow>
                if status \<noteq> incomplete then closure_result s1 status
                else iter_objs pm cl range_end s1 os))"

lemma first_beg_simps [simp]: "first_beg [] r = r" "first_beg (ob # os) r = min (fst ob) r"
  by (simp_all add: first_beg_def)

lemma iterate_loop_objs:
  assumes "pm_rep pm (pre @ rest)" "range_end \<le> search_end" "search_end \<le> pm_size pm" "search_end mod 64 = 0"
  shows "iterate_loop pm cl range_end search_end s (first_beg rest search_end) = iter_objs pm cl range_end s rest"
  using assms(1)
proof (induction rest arbitrary: pre s)
  case Nil
  show ?case using assms(2,3) by (subst iterate_loop.simps) (simp add: bit_to_addr_bit)
next
  case (Cons ob rest)
  obtain b n where ob: "ob = (b, n)" by (cases ob)
  have rep: "pm_rep pm (pre @ (b, n) # rest)" using Cons.prems ob by simp
  then have wf: "pm_wf pm" and ok: "pm_objs_ok pm (pre @ (b, n) # rest)" by (auto simp: pm_rep_def)
  then have n: "0 < n" "b + n \<le> pm_size pm" by (auto simp: pm_objs_ok_def)
  show ?case
  proof (cases "b < range_end")
    case False
    then have "\<not> min b search_end < range_end" using assms(2) by simp
    then show ?thesis using False assms(2,3) by (subst iterate_loop.simps) (simp add: ob bit_to_addr_bit)
  next
    case True
    have e: "find_obj_end pm b search_end = Inr (min (b + n - 1) search_end)"
      using True assms(2-4) by (intro find_obj_end_first[OF rep]) auto
    have next_b: "find_obj_beg pm (b + n) search_end = Inr (first_beg rest search_end)" if "b + n \<le> range_end"
      using find_obj_beg_first[OF rep, of "b + n" search_end] objs_from_after(1)[OF ok] that assms(2-4) by simp
    have IH: "iterate_loop pm cl range_end search_end s (first_beg rest search_end) = iter_objs pm cl range_end s rest" for s
      using Cons.IH[of "pre @ [(b, n)]"] rep by simp
    have m: "min b search_end = b" using True assms(2) by simp
    have iff: "range_end \<le> min (b + n - 1) search_end \<longleftrightarrow> range_end < b + n" using assms(2) n(1) by auto
    have mm: "min (b + n - 1) search_end = b + n - 1" if "b + n \<le> range_end" using that assms(2) by simp
    show ?thesis
    proof (cases "range_end < b + n")
      case True
      then show ?thesis using \<open>b < range_end\<close> n e m iff bit_to_addr_bit[of b pm]
        by (subst iterate_loop.simps) (simp add: ob)
    next
      case False
      then show ?thesis
        using \<open>b < range_end\<close> n e m mm next_b obj_size_bits_ok[OF wf, of b "b + n - 1"] bit_to_addr_bit[of b pm]
        by (subst iterate_loop.simps) (auto simp: ob IH split: prod.splits)
    qed
  qed
qed

text \<open>
  C23: iteration applies the closure to the marked objects that begin at or after
  the start of the range, in address order, up to the first one that reaches out
  of the range or that the closure refuses, and reports the reason it stopped.
\<close>

theorem pm_iterate_objects:
  assumes "pm_rep pm os" "range_beg \<le> range_end" "range_end \<le> pm_size pm"
  shows "pm_iterate pm cl s range_beg range_end = iter_objs pm cl range_end s (objs_from range_beg os)"
proof -
  have sz: "pm_size pm mod 64 = 0" using assms(1) by (simp add: pm_rep_def pm_wf_def pm_size_def)
  note w = word_align_up_props[of range_end] word_align_up_props(3)[OF assms(3) sz]
  obtain pre where pre: "os = pre @ objs_from range_beg os"
    using objs_from_suffix[of os range_beg] assms(1) by (auto simp: pm_rep_def pm_objs_ok_def)
  have "pm_rep pm (pre @ objs_from range_beg os)" using assms(1) pre by simp
  from iterate_loop_objs[OF this w(1) w(4) w(2)] show ?thesis
    using assms find_obj_beg_first[OF assms(1) _ w(4) w(2), of range_beg] w(1)
    by (simp add: pm_iterate_def verify_bit_def pm_size_def Let_def)
qed

text \<open>A closure that keeps the objects it is given in its state.\<close>

definition log_closure :: "(addr \<times> size_t) list pm_closure" where
  "log_closure = \<lparr>do_addr = (\<lambda>s a n. (s @ [(a, n)], incomplete)), set_source = (\<lambda>s a. s)\<rparr>"

theorem pm_iterate_objects_witness:
  "pm_iterate sample_pm log_closure [] 0 72 = Inr ([(1032, 2)], incomplete)"
  using pm_iterate_objects[OF sample_pm_rep, of 0 72 log_closure "[]"]
  by (simp add: sample_pm_simps objs_from_def log_closure_def hw_add_def HeapWordSize_def)

section \<open>Live words\<close>

lemma live_loop_objs:
  assumes "pm_rep pm (pre @ rest)" "(eb, k) \<in> set rest" "eb \<le> r" "r \<le> pm_size pm" "r mod 64 = 0"
  shows "live_loop pm eb r (first_beg rest r) lb =
    Inr (lb + sum_list (map snd (filter (\<lambda>ob. fst ob < eb) rest)))"
  using assms(1,2)
proof (induction rest arbitrary: pre lb)
  case (Cons ob rest)
  obtain b n where ob: "ob = (b, n)" by (cases ob)
  have rep: "pm_rep pm (pre @ (b, n) # rest)" using Cons.prems ob by simp
  then have ok: "pm_objs_ok pm (pre @ (b, n) # rest)" by (simp add: pm_rep_def)
  then have n: "0 < n" and after: "\<forall>ob \<in> set rest. b + n \<le> fst ob"
    by (auto simp: pm_objs_ok_def sorted_wrt_append obj_before_def)
  show ?case
  proof (cases "b = eb")
    case True
    then have "filter (\<lambda>ob. fst ob < eb) (ob # rest) = []" using after ob by (force simp: filter_empty_conv)
    then show ?thesis using True assms(3) ob by (subst live_loop.simps) (simp add: min_def)
  next
    case False
    then have eb: "(eb, k) \<in> set rest" "b + n \<le> eb" using Cons.prems(2) ob after by auto
    have e: "find_obj_end pm b r = Inr (b + n - 1)"
      using find_obj_end_first[OF rep, of b n r] eb assms(3-5) by simp
    have nb: "find_obj_beg pm (b + n) r = Inr (first_beg rest r)"
      using find_obj_beg_first[OF rep, of "b + n" r] objs_from_after(1)[OF ok] eb assms(3-5) by simp
    have m: "min b r = b" "b < eb" using eb assms(3) n by auto
    show ?thesis
      using Cons.IH[of "pre @ [(b, n)]" "lb + n"] rep eb(1,2) e nb m n
      by (subst live_loop.simps) (simp add: ob)
  qed
qed simp

lemma live_words_objs:
  assumes "pm_rep pm os" "(eb, k) \<in> set os" "l \<le> eb"
  shows "live_words_in_range pm (pm_addr pm l) (pm_addr pm eb) =
    Inr (sum_list (map snd (filter (\<lambda>(b, n). l \<le> b \<and> b < eb) os)))"
proof -
  have eb: "eb < pm_size pm" "pm_wf pm" "is_obj_beg pm eb"
    using assms by (force simp: pm_rep_def pm_objs_ok_def)+
  then have sz: "pm_size pm mod 64 = 0" by (simp add: pm_wf_def pm_size_def)
  note w = word_align_up_props[of eb] word_align_up_props(3)[OF less_imp_le[OF eb(1)] sz]
  obtain pre where pre: "os = pre @ objs_from l os"
    using objs_from_suffix[of os l] assms(1) by (auto simp: pm_rep_def pm_objs_ok_def)
  have "(eb, k) \<in> set (objs_from l os)" using assms(2,3) by (simp add: objs_from_def)
  with pre assms(1) have "live_loop pm eb (word_align_up eb) (first_beg (objs_from l os) (word_align_up eb)) 0 =
      Inr (0 + sum_list (map snd (filter (\<lambda>ob. fst ob < eb) (objs_from l os))))"
    by (intro live_loop_objs[of pm pre _ eb k] w) auto
  moreover have "filter (\<lambda>ob. fst ob < eb) (objs_from l os) = filter (\<lambda>(b, n). l \<le> b \<and> b < eb) os"
    by (auto simp: objs_from_def intro!: filter_cong)
  ultimately show ?thesis
    using assms(3) eb find_obj_beg_first[OF assms(1) _ w(4) w(2), of l] w(1)
    by (simp add: live_words_in_range_def is_marked_def is_marked_bit_def addr_to_bit_addr bits_to_words_def
        LogMinObjAlignment_def Let_def)
qed

text \<open>
  C36: the number of live words between an address and a marked object is the sum
  of the sizes of the marked objects that begin between them.
\<close>

theorem live_words_sum:
  assumes "pm_rep pm os" "(eb, k) \<in> set os" "l \<le> eb"
  shows "live_words_in_range pm (pm_addr pm l) (pm_addr pm eb) =
    Inr (sum_list (map snd (filter (\<lambda>(b, n). l \<le> b \<and> b < eb) os)))"
  by (rule live_words_objs [OF assms])

theorem live_words_sum_witness:
  "live_words_in_range sample_pm 1024 1584 = Inr 2"
  using live_words_sum[OF sample_pm_rep, of 70 3 0]
  by (simp add: sample_pm_simps hw_add_def HeapWordSize_def)

section \<open>Iterating over live and dead space\<close>

fun log_tiles :: "addr \<Rightarrow> (addr \<times> size_t \<times> bool) list \<Rightarrow> addr \<Rightarrow> bool" where
  "log_tiles a [] e \<longleftrightarrow> a = e"
| "log_tiles a ((x, n, _) # log) e \<longleftrightarrow> x = a \<and> log_tiles (hw_add a n) log e"

definition tag_closure :: "(addr \<times> size_t \<times> bool) list pm_closure" where
  "tag_closure = \<lparr>do_addr = (\<lambda>s a n. (s @ [(a, n, True)], incomplete)), set_source = (\<lambda>s a. s)\<rparr>"

definition tag_dead :: "(addr \<times> size_t \<times> bool) list \<Rightarrow> addr \<Rightarrow> size_t \<Rightarrow> (addr \<times> size_t \<times> bool) list" where
  "tag_dead s a n = s @ [(a, n, False)]"

definition live_part :: "(addr \<times> size_t \<times> bool) list \<Rightarrow> (addr \<times> size_t) list" where
  "live_part log = map (\<lambda>(a, n, _). (a, n)) (filter (\<lambda>(_, _, live). live) log)"

definition dead_end :: "mobj list \<Rightarrow> idx_t \<Rightarrow> idx_t \<Rightarrow> iteration_status \<Rightarrow> idx_t \<Rightarrow> bool" where
  "dead_end os range_end dead_range_end st e \<longleftrightarrow>
     st = complete \<and> range_end \<le> e \<and> e \<le> dead_range_end \<or>
     st = incomplete \<and> e < range_end \<and> (\<exists>n. (e, n) \<in> set os \<and> range_end < e + n)"

lemma live_part_append [simp]: "live_part (xs @ ys) = live_part xs @ live_part ys"
  by (simp add: live_part_def)

lemma log_tiles_append: "log_tiles a (xs @ ys) e \<longleftrightarrow> (\<exists>m. log_tiles a xs m \<and> log_tiles m ys e)"
  by (induction xs arbitrary: a) auto

lemma fill_dead_tag:
  assumes "pm_wf pm" "b \<le> dre" "b \<le> c" "0 < c" "0 < dre" "dre \<le> pm_size pm"
  shows "fill_dead pm tag_dead dre s b c = Inr (s @ [(pm_addr pm b, min c dre - b, False)])"
proof -
  have m: "Suc (min (c - 1) (dre - 1)) = min c dre" using assms(4,5) by auto
  have "obj_size_bits pm b (min (c - 1) (dre - 1)) = Inr (min c dre - b)"
    using obj_size_bits_ok[OF assms(1), of b "min (c - 1) (dre - 1)"] assms(2,3,6) unfolding m by simp
  then show ?thesis
    using assms(2,6) bit_to_addr_bit[of b pm] by (simp add: fill_dead_def tag_dead_def Let_def)
qed

lemma objs_after_range:
  assumes "pm_objs_ok pm ((b, n) # rest)" "re < b + n"
  shows "filter (\<lambda>(b, n). b + n \<le> re) ((b, n) # rest) = []"
  using assms by (fastforce simp: pm_objs_ok_def obj_before_def filter_empty_conv)

lemma pm_objs_ok_suffix: "pm_objs_ok pm (pre @ rest) \<Longrightarrow> pm_objs_ok pm rest"
  by (auto simp: pm_objs_ok_def sorted_wrt_append)

lemma iterate_dead_loop_tiles:
  assumes "pm_rep pm (pre @ rest)" "re \<le> le" "re \<le> dre" "dre \<le> de" "le \<le> pm_size pm" "de \<le> pm_size pm"
    "le mod 64 = 0" "de mod 64 = 0"
  shows "\<exists>log st e. iterate_dead_loop pm tag_closure tag_dead re dre le de s (first_beg rest de) = Inr (s @ log, st) \<and>
    log_tiles (pm_addr pm (min (first_beg rest de) dre)) log (pm_addr pm e) \<and>
    live_part log = map (\<lambda>(b, n). (pm_addr pm b, n)) (filter (\<lambda>(b, n). b + n \<le> re) rest) \<and>
    dead_end rest re dre st e"
    (is "\<exists>log st e. ?loop s rest = Inr (s @ log, st) \<and> ?post rest log st e")
  using assms(1)
proof (induction rest arbitrary: pre s)
  case Nil
  have "?loop s [] = Inr (s @ [], complete)"
    using assms(3-6) by (subst iterate_dead_loop.simps) (simp add: bit_to_addr_bit tag_closure_def)
  moreover have "?post [] [] complete dre" using assms(3,4) by (simp add: live_part_def dead_end_def)
  ultimately show ?case by blast
next
  case (Cons ob rest)
  obtain b n where ob: "ob = (b, n)" by (cases ob)
  have rep: "pm_rep pm (pre @ (b, n) # rest)" using Cons.prems ob by simp
  then have wf: "pm_wf pm" and ok: "pm_objs_ok pm (pre @ (b, n) # rest)" by (auto simp: pm_rep_def)
  then have n: "0 < n" "b + n \<le> pm_size pm" by (auto simp: pm_objs_ok_def)
  note none = objs_after_range[OF pm_objs_ok_suffix[OF ok], of re]
  consider "re \<le> b" | "b < re" "re < b + n" | "b + n \<le> re" using n(1) by linarith
  then show ?case
  proof cases
    case 1
    then have nb: "\<not> min b de < re" "re \<le> min (min b de) dre" using assms(3,4) by auto
    have "?loop s (ob # rest) = Inr (s @ [], complete)"
      using nb(1) assms(3-6) by (subst iterate_dead_loop.simps) (simp add: ob bit_to_addr_bit tag_closure_def)
    moreover have "?post (ob # rest) [] complete (min (min b de) dre)"
      using 1 nb(2) none n(1) by (simp add: ob live_part_def dead_end_def)
    ultimately show ?thesis by blast
  next
    case 2
    have e: "find_obj_end pm b le = Inr (min (b + n - 1) le)"
      using 2 assms(2,5,7) by (intro find_obj_end_first[OF rep]) auto
    have m: "min b de = b" "min b dre = b" "re \<le> min (b + n - 1) le" using 2 assms(2-4) n(1) by auto
    have "?loop s (ob # rest) = Inr (s @ [], incomplete)"
      using 2 e m n by (subst iterate_dead_loop.simps) (simp add: ob bit_to_addr_bit tag_closure_def)
    moreover have "?post (ob # rest) [] incomplete b"
      using 2 m none by (auto simp: ob live_part_def dead_end_def)
    ultimately show ?thesis by blast
  next
    case 3
    let ?c = "first_beg rest de"
    have e: "find_obj_end pm b le = Inr (b + n - 1)"
      using find_obj_end_first[OF rep, of b n le] 3 assms(2,5,7) n(1) by simp
    have c: "find_obj_beg pm (b + n) de = Inr ?c"
      using find_obj_beg_first[OF rep, of "b + n" de] objs_from_after(1)[OF ok] 3 assms(3,4,6,8) by simp
    then have bc: "b + n \<le> ?c" using next_mark_bounds[of _ "b + n" de ?c] by (simp add: find_obj_beg_def)
    define gap where "gap = (if b + n < ?c then [(pm_addr pm (b + n), min ?c dre - (b + n), False)] else [])"
    have fill: "b + n < ?c \<Longrightarrow> fill_dead pm tag_dead dre s1 (b + n) ?c = Inr (s1 @ gap)"
      "\<not> b + n < ?c \<Longrightarrow> gap = []" for s1
      using fill_dead_tag[OF wf, of "b + n" dre ?c s1] 3 bc assms(3,4,6) n(1) by (auto simp: gap_def)
    obtain log st e' where IH: "?loop ((s @ [(pm_addr pm b, n, True)]) @ gap) rest =
        Inr (((s @ [(pm_addr pm b, n, True)]) @ gap) @ log, st)" "?post rest log st e'"
      using Cons.IH[of "pre @ [(b, n)]" "(s @ [(pm_addr pm b, n, True)]) @ gap"] rep by auto
    have m: "min b de = b" "b < re" "min b dre = b" "\<not> re \<le> b + n - 1" using 3 n(1) assms(3,4) by auto
    have step: "do_addr tag_closure s a k = (s @ [(a, k, True)], incomplete)" for a k by (simp add: tag_closure_def)
    have "?loop s (ob # rest) = Inr (s @ (pm_addr pm b, n, True) # gap @ log, st)"
      using 3 e c m n obj_size_bits_ok[OF wf, of b "b + n - 1"] bit_to_addr_bit[of b pm] IH(1)
      by (cases "b + n < ?c"; subst iterate_dead_loop.simps) (simp_all add: ob step fill)
    moreover have "?post (ob # rest) ((pm_addr pm b, n, True) # gap @ log) st e'"
      using IH(2) m 3 bc assms(3) by (auto simp: ob gap_def live_part_def dead_end_def log_tiles_append)
    ultimately show ?thesis by blast
  qed
qed

text \<open>The loop entered at the first object of the range.\<close>

lemma iterate_dead_loop_from:
  assumes "pm_rep pm os" "re \<le> dre" "dre \<le> pm_size pm"
  shows "\<exists>log st e. iterate_dead_loop pm tag_closure tag_dead re dre (word_align_up re) (word_align_up dre) s
      (first_beg (objs_from rb os) (word_align_up dre)) = Inr (s @ log, st) \<and>
    log_tiles (pm_addr pm (min (first_beg (objs_from rb os) (word_align_up dre)) dre)) log (pm_addr pm e) \<and>
    live_part log = map (\<lambda>(b, n). (pm_addr pm b, n)) (filter (\<lambda>(b, n). rb \<le> b \<and> b + n \<le> re) os) \<and>
    dead_end os re dre st e"
proof -
  have ok: "pm_objs_ok pm os" and sz: "pm_size pm mod 64 = 0"
    using assms(1) by (auto simp: pm_rep_def pm_wf_def pm_size_def)
  have re: "re \<le> pm_size pm" using assms by simp
  note wl = word_align_up_props[of re] word_align_up_props(3)[OF re sz]
  note wd = word_align_up_props[of dre] word_align_up_props(3)[OF assms(3) sz]
  obtain pre where pre: "os = pre @ objs_from rb os"
    using objs_from_suffix[of os rb] ok by (auto simp: pm_objs_ok_def)
  have rep: "pm_rep pm (pre @ objs_from rb os)" using assms(1) pre by simp
  have sub: "dead_end (objs_from rb os) re dre st e \<Longrightarrow> dead_end os re dre st e" for st e
    by (auto simp: dead_end_def objs_from_def)
  have "filter (\<lambda>(b, n). b + n \<le> re) (objs_from rb os) = filter (\<lambda>(b, n). rb \<le> b \<and> b + n \<le> re) os"
    by (auto simp: objs_from_def intro!: filter_cong)
  with iterate_dead_loop_tiles[OF rep wl(1) assms(2) wd(1) wl(4) wd(4) wl(2) wd(2), of s] sub
  show ?thesis by fastforce
qed

text \<open>
  iterating with a dead closure covers the heap from the start of the range
  without a gap or an overlap: the live closure gets exactly the objects that
  begin and end in the range, the dead closure the space between them, up to the
  first object that begins at or after the end of the range, the end of the dead
  range, or the object that reaches out of the range.
\<close>

theorem pm_iterate_dead_tiles:
  assumes "pm_rep pm os" "rb \<le> re" "re \<le> dre" "dre \<le> pm_size pm"
  shows "\<exists>log st e. pm_iterate_dead pm tag_closure tag_dead [] rb re dre = Inr (log, st) \<and>
    log_tiles (pm_addr pm rb) log (pm_addr pm e) \<and>
    live_part log = map (\<lambda>(b, n). (pm_addr pm b, n)) (filter (\<lambda>(b, n). rb \<le> b \<and> b + n \<le> re) os) \<and>
    dead_end os re dre st e"
proof -
  let ?rest = "objs_from rb os" and ?de = "word_align_up dre"
  let ?loop = "iterate_dead_loop pm tag_closure tag_dead re dre (word_align_up re) ?de"
  have wf: "pm_wf pm" and ok: "pm_objs_ok pm os" using assms(1) by (auto simp: pm_rep_def)
  then have sz: "pm_size pm mod 64 = 0" by (simp add: pm_wf_def pm_size_def)
  have re: "re \<le> pm_size pm" using assms by simp
  note wd = word_align_up_props[of dre] word_align_up_props(3)[OF assms(4) sz]
  note L = iterate_dead_loop_from[OF assms(1,3,4), of _ rb]
  have iter: "pm_iterate_dead pm tag_closure tag_dead [] rb re dre =
      (if rb < re \<and> \<not> is_obj_beg pm rb then
         bind_result (find_obj_beg pm (rb + 1) ?de) (\<lambda>cur.
         bind_result (fill_dead pm tag_dead dre [] rb cur) (\<lambda>s1. ?loop s1 cur))
       else ?loop [] rb)"
    using assms(2-4) re
    by (simp add: pm_iterate_dead_def verify_bit_def pm_size_def is_unmarked_bit_def is_marked_bit_def Let_def)
  consider "rb = re" | "rb < re" "is_obj_beg pm rb" | "rb < re" "\<not> is_obj_beg pm rb" using assms(2) by linarith
  then show ?thesis
  proof cases
    case 1
    have "?loop [] rb = Inr ([], complete)"
      using 1 re by (subst iterate_dead_loop.simps) (simp add: bit_to_addr_bit tag_closure_def)
    moreover have "filter (\<lambda>(b, n). rb \<le> b \<and> b + n \<le> re) os = []"
      using 1 ok by (fastforce simp: filter_empty_conv pm_objs_ok_def)
    ultimately show ?thesis
      using 1 iter assms(3) by (intro exI[of _ "[]"] exI[of _ complete] exI[of _ re]) (simp add: live_part_def dead_end_def)
  next
    case 2
    then obtain n where n: "(rb, n) \<in> set os" using assms re by (auto simp: pm_rep_def)
    then obtain ys zs where split: "os = ys @ (rb, n) # zs" by (meson split_list)
    then have "?rest = (rb, n) # zs" using objs_from_after(2)[of pm ys rb n zs] ok by simp
    then have "first_beg ?rest ?de = rb" "min (first_beg ?rest ?de) dre = rb" using assms(2,3) wd(1) by auto
    with L[of "[]"] show ?thesis using 2 iter by (simp only: append_Nil if_False simp_thms)
  next
    case 3
    have "objs_from (rb + 1) os = ?rest"
      using 3 assms re unfolding objs_from_def
      by (intro filter_cong) (auto simp: pm_rep_def Suc_le_eq order_le_less)
    then have f: "find_obj_beg pm (rb + 1) ?de = Inr (first_beg ?rest ?de)"
      using find_obj_beg_first[OF assms(1), of "rb + 1" ?de] 3 assms(3) wd by simp
    then have c: "rb + 1 \<le> first_beg ?rest ?de" using next_mark_bounds by (auto simp: find_obj_beg_def)
    let ?g = "(pm_addr pm rb, min (first_beg ?rest ?de) dre - rb, False)"
    have "fill_dead pm tag_dead dre [] rb (first_beg ?rest ?de) = Inr [?g]"
      using fill_dead_tag[OF wf, of rb dre "first_beg ?rest ?de" "[]"] c 3 assms(3,4) by simp
    moreover obtain log st e where l: "?loop [?g] (first_beg ?rest ?de) = Inr ([?g] @ log, st)"
        "log_tiles (pm_addr pm (min (first_beg ?rest ?de) dre)) log (pm_addr pm e)"
        "live_part log = map (\<lambda>(b, n). (pm_addr pm b, n)) (filter (\<lambda>(b, n). rb \<le> b \<and> b + n \<le> re) os)"
        "dead_end os re dre st e"
      using L[of "[?g]"] by blast
    ultimately have "pm_iterate_dead pm tag_closure tag_dead [] rb re dre = Inr ([?g] @ log, st)"
      using 3 iter f by simp
    moreover have "rb \<le> min (first_beg ?rest ?de) dre" using c 3 assms(3) by simp
    ultimately show ?thesis
      using l(2-4) by (intro exI[of _ "[?g] @ log"]) (auto simp: live_part_def)
  qed
qed

theorem pm_iterate_dead_tiles_witness:
  "\<exists>log st e. pm_iterate_dead sample_pm tag_closure tag_dead [] 0 100 128 = Inr (log, st) \<and>
    log_tiles 1024 log (hw_add 1024 e) \<and> live_part log = [(1032, 2), (1584, 3)]"
  using pm_iterate_dead_tiles[OF sample_pm_rep, of 0 100 128]
  by (auto simp: sample_pm_simps hw_add_def HeapWordSize_def)

end
