(* ===== verification/CompactData.thy ===== *)
theory CompactData
  imports ParMarkBitMaps Containers
begin

text \<open>
  The summary data of the compacting collector, \<open>ParallelCompactData\<close> of
  \<open>gc_implementation/parallelScavenge/psParallelCompact.hpp\<close> and \<open>.cpp\<close>:
  one record per 64K-word region of the heap with the live data in it and the
  place it moves to, a block table, the queue of emptied regions the big-data
  extension adds, and the record of a split region.  The fields that exist in
  debug builds only (\<open>_data_location\<close>, \<open>_highest_ref\<close>, the counters)
  are left out, tracing too; the assertions are faults.
\<close>

section \<open>Sizes\<close>

definition Log2RegionSize :: nat where
  "Log2RegionSize = 16"

definition RegionSize :: size_t where
  "RegionSize = 2 ^ Log2RegionSize"

definition RegionSizeBytes :: size_t where
  "RegionSizeBytes = RegionSize * 2 ^ LogHeapWordSize"

definition RegionSizeOffsetMask :: size_t where
  "RegionSizeOffsetMask = RegionSize - 1"

definition RegionAddrOffsetMask :: size_t where
  "RegionAddrOffsetMask = RegionSizeBytes - 1"

definition Log2BlockSize :: nat where
  "Log2BlockSize = 7"

definition BlockSize :: size_t where
  "BlockSize = 2 ^ Log2BlockSize"

definition BlockSizeBytes :: size_t where
  "BlockSizeBytes = BlockSize * 2 ^ LogHeapWordSize"

definition BlockSizeOffsetMask :: size_t where
  "BlockSizeOffsetMask = BlockSize - 1"

definition BlockAddrOffsetMask :: size_t where
  "BlockAddrOffsetMask = BlockSizeBytes - 1"

definition BlocksPerRegion :: size_t where
  "BlocksPerRegion = RegionSize div BlockSize"

definition Log2BlocksPerRegion :: nat where
  "Log2BlocksPerRegion = Log2RegionSize - Log2BlockSize"

section \<open>Region records\<close>

type_synonym region_sz_t = "32 word"

record region_data =
  rd_destination :: addr
  rd_source_region :: size_t
  rd_partial_obj_addr :: addr
  rd_partial_obj_size :: region_sz_t
  rd_dc_and_los :: region_sz_t
  rd_blocks_filled :: bool
  rd_container :: container_t
  rd_scanned :: "16 word"

definition rd_zero :: region_data where
  "rd_zero = \<lparr>rd_destination = NULL, rd_source_region = 0, rd_partial_obj_addr = NULL, rd_partial_obj_size = 0,
     rd_dc_and_los = 0, rd_blocks_filled = False, rd_container = None, rd_scanned = 0\<rparr>"

definition dc_shift :: nat where
  "dc_shift = 27"

definition dc_mask :: region_sz_t where
  "dc_mask = push_bit dc_shift (NOT 0)"

definition dc_one :: region_sz_t where
  "dc_one = push_bit dc_shift 1"

definition los_mask :: region_sz_t where
  "los_mask = NOT dc_mask"

definition dc_claimed :: region_sz_t where
  "dc_claimed = push_bit dc_shift 8"

definition dc_completed :: region_sz_t where
  "dc_completed = push_bit dc_shift 0xc"

definition scanned_bit :: "16 word" where
  "scanned_bit = 1"

definition scanned :: "region_data \<Rightarrow> bool" where
  "scanned r \<longleftrightarrow> rd_scanned r AND scanned_bit \<noteq> 0"

definition set_scanned :: "region_data \<Rightarrow> region_data" where
  "set_scanned r = r\<lparr>rd_scanned := scanned_bit\<rparr>"

definition partial_obj_size :: "region_data \<Rightarrow> size_t" where
  "partial_obj_size r = unat (rd_partial_obj_size r)"

definition set_partial_obj_size :: "size_t \<Rightarrow> region_data \<Rightarrow> region_data" where
  "set_partial_obj_size words r = r\<lparr>rd_partial_obj_size := of_nat words\<rparr>"

definition live_obj_size :: "region_data \<Rightarrow> size_t" where
  "live_obj_size r = unat (rd_dc_and_los r AND los_mask)"

definition data_size :: "region_data \<Rightarrow> size_t" where
  "data_size r = partial_obj_size r + live_obj_size r"

definition destination_count_raw :: "region_data \<Rightarrow> region_sz_t" where
  "destination_count_raw r = rd_dc_and_los r AND dc_mask"

definition destination_count :: "region_data \<Rightarrow> nat" where
  "destination_count r = unat (drop_bit dc_shift (destination_count_raw r))"

definition available :: "region_data \<Rightarrow> bool" where
  "available r \<longleftrightarrow> rd_dc_and_los r < dc_one"

definition claimed :: "region_data \<Rightarrow> bool" where
  "claimed r \<longleftrightarrow> rd_dc_and_los r \<ge> dc_claimed"

definition completed :: "region_data \<Rightarrow> bool" where
  "completed r \<longleftrightarrow> rd_dc_and_los r \<ge> dc_completed"

definition set_destination_count :: "nat \<Rightarrow> region_data \<Rightarrow> region_data result" where
  "set_destination_count count r =
     (if count \<le> unat (drop_bit dc_shift dc_completed)
      then Inr (r\<lparr>rd_dc_and_los := push_bit dc_shift (of_nat count) OR of_nat (live_obj_size r)\<rparr>)
      else Inl (AssertFailed ''count too large''))"

definition set_live_obj_size :: "size_t \<Rightarrow> region_data \<Rightarrow> region_data result" where
  "set_live_obj_size words r =
     (if words \<le> unat los_mask
      then Inr (r\<lparr>rd_dc_and_los := destination_count_raw r OR of_nat words\<rparr>)
      else Inl (AssertFailed ''would overflow''))"

text \<open>Adding \<open>dc_mask\<close> subtracts one from the count.\<close>

definition decrement_destination_count :: "region_data \<Rightarrow> region_data result" where
  "decrement_destination_count r =
     (if \<not> rd_dc_and_los r < dc_claimed then Inl (AssertFailed ''already claimed'')
      else if \<not> rd_dc_and_los r \<ge> dc_one then Inl (AssertFailed ''count would go negative'')
      else Inr (r\<lparr>rd_dc_and_los := rd_dc_and_los r + dc_mask\<rparr>))"

definition set_completed :: "region_data \<Rightarrow> region_data result" where
  "set_completed r =
     (if claimed r then Inr (r\<lparr>rd_dc_and_los := dc_completed OR of_nat (live_obj_size r)\<rparr>)
      else Inl (AssertFailed ''must be claimed first''))"

definition claim_unsafe :: "region_data \<Rightarrow> region_data \<times> bool" where
  "claim_unsafe r =
     (if available r then (r\<lparr>rd_dc_and_los := rd_dc_and_los r OR dc_claimed\<rparr>, True) else (r, False))"

definition add_live_obj :: "size_t \<Rightarrow> region_data \<Rightarrow> region_data result" where
  "add_live_obj words r =
     (if words \<le> unat los_mask - live_obj_size r
      then Inr (r\<lparr>rd_dc_and_los := rd_dc_and_los r + of_nat words\<rparr>)
      else Inl (AssertFailed ''overflow''))"

text \<open>\<open>claim\<close> exchanges the word only if it holds the live size with a count of 0.\<close>

definition claim :: "region_data \<Rightarrow> region_data \<times> bool" where
  "claim r =
     (let los = of_nat (live_obj_size r)
      in if rd_dc_and_los r = los then (r\<lparr>rd_dc_and_los := dc_claimed OR los\<rparr>, True) else (r, False))"

section \<open>The queue of emptied regions\<close>

record empty_regions =
  er_array :: "size_t list"
  er_idx :: size_t
  er_next :: size_t

definition er_initialize :: "size_t list \<Rightarrow> empty_regions" where
  "er_initialize space = \<lparr>er_array = space, er_idx = 0, er_next = 0\<rparr>"

definition er_clear :: "size_t \<Rightarrow> empty_regions \<Rightarrow> empty_regions result" where
  "er_clear count er =
     (if count \<le> length (er_array er)
      then Inr \<lparr>er_array = replicate count 0 @ drop count (er_array er), er_idx = 0, er_next = 0\<rparr>
      else Inl OutOfBounds)"

definition er_append :: "size_t \<Rightarrow> empty_regions \<Rightarrow> empty_regions result" where
  "er_append region er =
     (if er_next er < length (er_array er)
      then Inr (er\<lparr>er_array := (er_array er)[er_next er := region], er_next := er_next er + 1\<rparr>)
      else Inl OutOfBounds)"

definition er_return :: "size_t \<Rightarrow> empty_regions \<Rightarrow> empty_regions result" where
  "er_return region er =
     (if 0 < er_idx er \<and> er_idx er \<le> length (er_array er)
      then Inr (er\<lparr>er_array := (er_array er)[er_idx er - 1 := region], er_idx := er_idx er - 1\<rparr>)
      else Inl OutOfBounds)"

definition er_remove :: "empty_regions \<Rightarrow> (empty_regions \<times> size_t) result" where
  "er_remove er =
     (if \<not> er_idx er < er_next er then Inl (AssertFailed ''removing empty region without appending'')
      else if er_idx er < length (er_array er)
      then Inr (er\<lparr>er_idx := er_idx er + 1\<rparr>, er_array er ! er_idx er)
      else Inl OutOfBounds)"

definition has_empty_region :: "empty_regions \<Rightarrow> bool" where
  "has_empty_region er \<longleftrightarrow> er_idx er \<noteq> er_next er"

text \<open>The difference of two region numbers is unsigned.\<close>

definition has_empty_region_n :: "nat \<Rightarrow> empty_regions \<Rightarrow> bool result" where
  "has_empty_region_n n er =
     (if has_empty_region er then
        (if 0 < er_next er \<and> er_next er \<le> length (er_array er) \<and> er_idx er < length (er_array er)
         then Inr ((er_array er ! (er_next er - 1) + size_t_max1 - er_array er ! er_idx er) mod size_t_max1 \<ge> n)
         else Inl OutOfBounds)
      else Inr False)"

definition er_reset :: "empty_regions \<Rightarrow> empty_regions" where
  "er_reset er = er\<lparr>er_idx := er_next er\<rparr>"

section \<open>The tables\<close>

record pcdata =
  pd_region_start :: addr
  pd_region_end :: addr
  pd_reserved_byte_size :: size_t
  pd_regions :: "region_data list"
  pd_blocks :: "16 word list"
  pd_empty :: empty_regions

definition region_count :: "pcdata \<Rightarrow> size_t" where
  "region_count pd = length (pd_regions pd)"

definition block_count :: "pcdata \<Rightarrow> size_t" where
  "block_count pd = length (pd_blocks pd)"

definition rd_get :: "pcdata \<Rightarrow> size_t \<Rightarrow> region_data result" where
  "rd_get pd i = (if i < length (pd_regions pd) then Inr (pd_regions pd ! i) else Inl OutOfBounds)"

definition rd_mod :: "pcdata \<Rightarrow> size_t \<Rightarrow> (region_data \<Rightarrow> region_data) \<Rightarrow> pcdata result" where
  "rd_mod pd i f =
     (if i < length (pd_regions pd) then Inr (pd\<lparr>pd_regions := (pd_regions pd)[i := f (pd_regions pd ! i)]\<rparr>)
      else Inl OutOfBounds)"

definition rd_upd :: "pcdata \<Rightarrow> size_t \<Rightarrow> (region_data \<Rightarrow> region_data result) \<Rightarrow> pcdata result" where
  "rd_upd pd i f =
     bind_result (rd_get pd i) (\<lambda>r. bind_result (f r) (\<lambda>r'. Inr (pd\<lparr>pd_regions := (pd_regions pd)[i := r']\<rparr>)))"

definition region_ok :: "pcdata \<Rightarrow> addr \<Rightarrow> bool" where
  "region_ok pd a \<longleftrightarrow> a \<ge> pd_region_start pd \<and> a \<le> pd_region_end pd"

definition region_offset :: "pcdata \<Rightarrow> addr \<Rightarrow> size_t result" where
  "region_offset pd a =
     (if region_ok pd a then Inr ((a AND RegionAddrOffsetMask) div 2 ^ LogHeapWordSize)
      else Inl (AssertFailed ''bad addr''))"

definition addr_to_region_idx :: "pcdata \<Rightarrow> addr \<Rightarrow> size_t result" where
  "addr_to_region_idx pd a =
     (if region_ok pd a then Inr (pointer_delta a (pd_region_start pd) div 2 ^ Log2RegionSize)
      else Inl (AssertFailed ''bad addr''))"

definition region_to_addr :: "pcdata \<Rightarrow> size_t \<Rightarrow> addr result" where
  "region_to_addr pd region =
     (if region \<le> region_count pd then Inr (hw_add (pd_region_start pd) (region * 2 ^ Log2RegionSize))
      else Inl (AssertFailed ''region out of range''))"

definition region_to_addr_ofs :: "pcdata \<Rightarrow> size_t \<Rightarrow> size_t \<Rightarrow> addr result" where
  "region_to_addr_ofs pd region offset =
     (if offset < RegionSize then bind_result (region_to_addr pd region) (\<lambda>a. Inr (hw_add a offset))
      else Inl (AssertFailed ''offset too big''))"

definition region_align_down :: "pcdata \<Rightarrow> addr \<Rightarrow> addr result" where
  "region_align_down pd a =
     (if a \<ge> pd_region_start pd \<and> a < hw_add (pd_region_end pd) RegionSize
      then Inr (nat (int a AND NOT (int RegionAddrOffsetMask)))
      else Inl (AssertFailed ''bad addr''))"

definition region_align_up :: "pcdata \<Rightarrow> addr \<Rightarrow> addr result" where
  "region_align_up pd a =
     (if region_ok pd a then region_align_down pd (hw_add a RegionSizeOffsetMask)
      else Inl (AssertFailed ''bad addr''))"

definition is_region_aligned :: "pcdata \<Rightarrow> addr \<Rightarrow> bool result" where
  "is_region_aligned pd a = bind_result (region_offset pd a) (\<lambda>n. Inr (n = 0))"

definition block_offset :: "pcdata \<Rightarrow> addr \<Rightarrow> size_t result" where
  "block_offset pd a =
     (if region_ok pd a then Inr ((a AND BlockAddrOffsetMask) div 2 ^ LogHeapWordSize)
      else Inl (AssertFailed ''bad addr''))"

definition addr_to_block_idx :: "pcdata \<Rightarrow> addr \<Rightarrow> size_t result" where
  "addr_to_block_idx pd a =
     (if region_ok pd a then Inr (pointer_delta a (pd_region_start pd) div 2 ^ Log2BlockSize)
      else Inl (AssertFailed ''bad addr''))"

definition block_to_addr :: "pcdata \<Rightarrow> size_t \<Rightarrow> addr result" where
  "block_to_addr pd block =
     (if block < block_count pd then Inr (hw_add (pd_region_start pd) (block * 2 ^ Log2BlockSize))
      else Inl (AssertFailed ''block out of range''))"

definition region_to_block_idx :: "size_t \<Rightarrow> size_t" where
  "region_to_block_idx region = region * 2 ^ Log2BlocksPerRegion"

definition block_align_down :: "pcdata \<Rightarrow> addr \<Rightarrow> addr result" where
  "block_align_down pd a =
     (if a \<ge> pd_region_start pd \<and> a < hw_add (pd_region_end pd) RegionSize
      then Inr (nat (int a AND NOT (int BlockAddrOffsetMask)))
      else Inl (AssertFailed ''bad addr''))"

definition block_align_up :: "pcdata \<Rightarrow> addr \<Rightarrow> addr result" where
  "block_align_up pd a =
     (if region_ok pd a then block_align_down pd (hw_add a BlockSizeOffsetMask)
      else Inl (AssertFailed ''bad addr''))"

definition is_block_aligned :: "pcdata \<Rightarrow> addr \<Rightarrow> bool result" where
  "is_block_aligned pd a = bind_result (block_offset pd a) (\<lambda>n. Inr (n = 0))"

definition blk_offset :: "pcdata \<Rightarrow> size_t \<Rightarrow> size_t result" where
  "blk_offset pd b =
     (if b < block_count pd then Inr (unat (pd_blocks pd ! b)) else Inl (AssertFailed ''bad arg''))"

definition set_blk_offset :: "pcdata \<Rightarrow> size_t \<Rightarrow> size_t \<Rightarrow> pcdata result" where
  "set_blk_offset pd b val =
     (if b < block_count pd then Inr (pd\<lparr>pd_blocks := (pd_blocks pd)[b := of_nat val]\<rparr>)
      else Inl (AssertFailed ''bad arg''))"

section \<open>Initialising and clearing\<close>

definition new_pcdata :: pcdata where
  "new_pcdata = \<lparr>pd_region_start = NULL, pd_region_end = NULL, pd_reserved_byte_size = 0, pd_regions = [],
     pd_blocks = [], pd_empty = er_initialize []\<rparr>"

text \<open>
  \<open>create_vspace\<close>: the size reserved and whether it could be committed.  Fresh
  memory reads as zero.  The sizes of the records are parameters.
\<close>

definition create_vspace :: "pm_memory \<Rightarrow> pcdata \<Rightarrow> size_t \<Rightarrow> size_t \<Rightarrow> pcdata \<times> bool" where
  "create_vspace vm pd count element_size =
     (let raw_bytes = count * element_size;
          page_sz = page_size_for_region vm raw_bytes;
          reserved = nat (align_size_up (int raw_bytes) (int (max page_sz (vm_allocation_granularity vm))))
      in (pd\<lparr>pd_reserved_byte_size := reserved\<rparr>, expand_by vm reserved))"

definition initialize_region_data :: "pm_memory \<Rightarrow> size_t \<Rightarrow> pcdata \<Rightarrow> size_t \<Rightarrow> pcdata \<times> bool" where
  "initialize_region_data vm sizeof_region pd region_size =
     (let count = (region_size + RegionSizeOffsetMask) div 2 ^ Log2RegionSize;
          (pd1, ok) = create_vspace vm pd count sizeof_region
      in if ok then (pd1\<lparr>pd_regions := replicate count rd_zero\<rparr>, True) else (pd1, False))"

definition initialize_block_data :: "pm_memory \<Rightarrow> pcdata \<Rightarrow> (pcdata \<times> bool) result" where
  "initialize_block_data vm pd =
     (if region_count pd \<noteq> 0 then
        (let count = region_count pd * 2 ^ Log2BlocksPerRegion;
             (pd1, ok) = create_vspace vm pd count 2
         in if ok then Inr (pd1\<lparr>pd_blocks := replicate count 0\<rparr>, True) else Inr (pd1, False))
      else Inl (AssertFailed ''region data must be initialized first''))"

definition empty_region_slots :: "size_t \<Rightarrow> pcdata \<Rightarrow> size_t result" where
  "empty_region_slots segment_sz pd =
     (if region_count pd \<noteq> 0 then
        (let regions_spanned = segment_sz div RegionSize
         in if regions_spanned = 0 then Inl DivideByZero else Inr (region_count pd div regions_spanned))
      else Inl (AssertFailed ''region data must be initialized first''))"

definition initialize_empty_region_data :: "pm_memory \<Rightarrow> size_t \<Rightarrow> pcdata \<Rightarrow> (pcdata \<times> bool) result" where
  "initialize_empty_region_data vm segment_sz pd =
     bind_result (empty_region_slots segment_sz pd) (\<lambda>count.
       let (pd1, ok) = create_vspace vm pd count 8
       in if ok then Inr (pd1\<lparr>pd_empty := er_initialize (replicate count 0)\<rparr>, True) else Inr (pd1, False))"

definition clear_empty_region_range :: "size_t \<Rightarrow> pcdata \<Rightarrow> pcdata result" where
  "clear_empty_region_range segment_sz pd =
     bind_result (empty_region_slots segment_sz pd) (\<lambda>count.
     bind_result (er_clear count (pd_empty pd)) (\<lambda>er. Inr (pd\<lparr>pd_empty := er\<rparr>)))"

definition pd_initialize :: "pm_memory \<Rightarrow> size_t \<Rightarrow> size_t \<Rightarrow> bool \<Rightarrow> pcdata \<Rightarrow> mem_region \<Rightarrow> (pcdata \<times> bool) result" where
  "pd_initialize vm sizeof_region segment_sz UseBDA pd covered_region =
     (let region_size = mr_word_size covered_region;
          pd1 = pd\<lparr>pd_region_start := mr_start covered_region,
                   pd_region_end := hw_add (mr_start covered_region) region_size\<rparr>
      in bind_result (region_align_down pd1 (pd_region_start pd1)) (\<lambda>aligned.
           if aligned \<noteq> pd_region_start pd1 then Inl (AssertFailed ''region start not aligned'')
           else if region_size AND RegionSizeOffsetMask \<noteq> 0
           then Inl (AssertFailed ''region size not a multiple of RegionSize'')
           else
             (let (pd2, ok) = initialize_region_data vm sizeof_region pd1 region_size
              in bind_result (if ok then initialize_block_data vm pd2 else Inr (pd2, False)) (\<lambda>(pd3, result).
                   if UseBDA then
                     bind_result (initialize_empty_region_data vm segment_sz pd3) (\<lambda>(pd4, r). Inr (pd4, result \<and> r))
                   else Inr (pd3, result)))))"

definition pd_clear :: "pcdata \<Rightarrow> pcdata" where
  "pd_clear pd =
     pd\<lparr>pd_regions := replicate (region_count pd) rd_zero, pd_blocks := replicate (block_count pd) 0\<rparr>"

text \<open>\<open>memset\<close> of a range of a table.\<close>

definition zero_range :: "'a \<Rightarrow> size_t \<Rightarrow> size_t \<Rightarrow> 'a list \<Rightarrow> 'a list" where
  "zero_range z b cnt xs = take b xs @ replicate cnt z @ drop (b + cnt) xs"

definition pd_clear_range :: "pcdata \<Rightarrow> size_t \<Rightarrow> size_t \<Rightarrow> pcdata result" where
  "pd_clear_range pd beg_region end_region =
     (if beg_region \<le> region_count pd \<and> end_region \<le> region_count pd then
        (if beg_region \<le> end_region then
           (let region_cnt = end_region - beg_region
            in Inr (pd\<lparr>pd_regions := zero_range rd_zero beg_region region_cnt (pd_regions pd),
                       pd_blocks := zero_range 0 (beg_region * BlocksPerRegion) (region_cnt * BlocksPerRegion)
                         (pd_blocks pd)\<rparr>))
         else Inl OutOfBounds)
      else Inl (AssertFailed ''region out of range''))"

definition pd_clear_range_addr :: "pcdata \<Rightarrow> addr \<Rightarrow> addr \<Rightarrow> pcdata result" where
  "pd_clear_range_addr pd b e =
     bind_result (addr_to_region_idx pd b) (\<lambda>i. bind_result (addr_to_region_idx pd e) (pd_clear_range pd i))"

section \<open>Filling the summary\<close>

fun partial_obj_loop :: "region_data list \<Rightarrow> addr \<Rightarrow> addr" where
  "partial_obj_loop [] result = result"
| "partial_obj_loop (r # rs) result =
     (let result' = hw_add result (partial_obj_size r)
      in if partial_obj_size r = RegionSize then partial_obj_loop rs result' else result')"

definition partial_obj_end :: "pcdata \<Rightarrow> size_t \<Rightarrow> addr result" where
  "partial_obj_end pd region_idx =
     (if region_count pd = 0 then Inl (AssertFailed ''bad arg'')
      else bind_result (region_to_addr pd region_idx) (\<lambda>result.
        Inr (partial_obj_loop (drop region_idx (take (region_count pd - 1) (pd_regions pd))) result)))"

definition set_partial_obj :: "size_t \<Rightarrow> addr \<Rightarrow> region_data \<Rightarrow> region_data" where
  "set_partial_obj words a r = (set_partial_obj_size words r)\<lparr>rd_partial_obj_addr := a\<rparr>"

definition add_obj :: "pcdata \<Rightarrow> addr \<Rightarrow> size_t \<Rightarrow> pcdata result" where
  "add_obj pd a len =
     (let obj_ofs = pointer_delta a (pd_region_start pd);
          beg_region = obj_ofs div 2 ^ Log2RegionSize;
          end_region = ((obj_ofs + len + size_t_max1 - 1) mod size_t_max1) div 2 ^ Log2RegionSize
      in if beg_region = end_region then rd_upd pd beg_region (add_live_obj len)
         else
           bind_result (region_offset pd a) (\<lambda>beg_ofs.
           bind_result (rd_upd pd beg_region (add_live_obj (RegionSize - beg_ofs))) (\<lambda>pd1.
           bind_result (fold_result (\<lambda>region pd. rd_mod pd region (set_partial_obj RegionSize a))
             [beg_region + 1..<end_region] pd1) (\<lambda>pd2.
           bind_result (region_offset pd2 (hw_add a len - HeapWordSize)) (\<lambda>end_ofs.
           rd_mod pd2 end_region (set_partial_obj (end_ofs + 1) a))))))"

definition dense_region :: "size_t \<Rightarrow> pcdata \<times> addr \<Rightarrow> (pcdata \<times> addr) result" where
  "dense_region cur_region s =
     (let (pd, a) = s
      in bind_result (rd_upd pd cur_region (\<lambda>r.
           bind_result (set_destination_count 0 (r\<lparr>rd_destination := a\<rparr>)) (\<lambda>r1.
           let r2 = r1\<lparr>rd_source_region := cur_region\<rparr>;
               live_size = (RegionSize + size_t_max1 - partial_obj_size r2) mod size_t_max1
           in set_live_obj_size live_size r2))) (\<lambda>pd1.
         Inr (pd1, hw_add a RegionSize)))"

definition summarize_dense_prefix :: "pcdata \<Rightarrow> addr \<Rightarrow> addr \<Rightarrow> pcdata result" where
  "summarize_dense_prefix pd b e =
     bind_result (is_region_aligned pd b) (\<lambda>ab. bind_result (is_region_aligned pd e) (\<lambda>ae.
       if \<not> ab \<or> \<not> ae then Inl (AssertFailed ''not RegionSize aligned'')
       else
         bind_result (addr_to_region_idx pd b) (\<lambda>cur_region. bind_result (addr_to_region_idx pd e) (\<lambda>end_region.
         bind_result (fold_result dense_region [cur_region..<end_region] (pd, b)) (\<lambda>(pd1, a). Inr pd1)))))"

section \<open>Splitting a source region\<close>

record split_info =
  si_src_region_idx :: size_t
  si_partial_obj_size :: size_t
  si_destination :: addr
  si_destination_count :: nat
  si_dest_region_addr :: addr
  si_first_src_addr :: addr

definition si_is_valid :: "split_info \<Rightarrow> bool" where
  "si_is_valid si \<longleftrightarrow> si_src_region_idx si > 0"

definition is_split :: "split_info \<Rightarrow> size_t \<Rightarrow> bool" where
  "is_split si region_idx \<longleftrightarrow> si_src_region_idx si = region_idx \<and> si_is_valid si"

definition si_record :: "pcdata \<Rightarrow> split_info \<Rightarrow> size_t \<Rightarrow> size_t \<Rightarrow> addr \<Rightarrow> split_info result" where
  "si_record sd si idx po_size dest =
     (if idx = 0 then Inl (AssertFailed ''invalid src_region_idx'')
      else if po_size = 0 then Inl (AssertFailed ''invalid partial_obj_size argument'')
      else if dest = NULL then Inl (AssertFailed ''invalid destination argument'')
      else if si_dest_region_addr si \<noteq> NULL \<or> si_first_src_addr si \<noteq> NULL
      then Inl (AssertFailed ''should have been cleared'')
      else
        (let si1 = si\<lparr>si_src_region_idx := idx, si_partial_obj_size := po_size, si_destination := dest\<rparr>;
             last_word = hw_add dest po_size - HeapWordSize
         in bind_result (region_align_down sd dest) (\<lambda>beg_region_addr.
            bind_result (region_align_down sd last_word) (\<lambda>end_region_addr.
            bind_result (region_to_addr sd idx) (\<lambda>src.
              if beg_region_addr = end_region_addr then
                (let si2 = si1\<lparr>si_destination_count := 1\<rparr>
                 in if end_region_addr = dest
                    then Inr (si2\<lparr>si_dest_region_addr := end_region_addr, si_first_src_addr := src\<rparr>)
                    else Inr si2)
              else
                (let ofs = pointer_delta end_region_addr dest
                 in if ofs < po_size
                    then Inr (si1\<lparr>si_destination_count := 2, si_dest_region_addr := end_region_addr,
                                  si_first_src_addr := hw_add src ofs\<rparr>)
                    else Inl (AssertFailed ''sanity'')))))))"

definition si_clear :: split_info where
  "si_clear = \<lparr>si_src_region_idx = 0, si_partial_obj_size = 0, si_destination = NULL, si_destination_count = 0,
     si_dest_region_addr = NULL, si_first_src_addr = NULL\<rparr>"

text \<open>The result: the tables, the split, \<open>*target_next\<close> and the source address to continue at.\<close>

definition split_clear_sources :: "pcdata \<Rightarrow> size_t \<Rightarrow> addr \<Rightarrow> pcdata result" where
  "split_clear_sources pd split_region target_end =
     bind_result (rd_get pd split_region) (\<lambda>sr.
     bind_result (region_align_up pd (hw_add (rd_destination sr) (partial_obj_size sr))) (\<lambda>a.
     bind_result (addr_to_region_idx pd a) (\<lambda>beg_idx.
     bind_result (addr_to_region_idx pd target_end) (\<lambda>end_idx.
     fold_result (\<lambda>idx pd. rd_mod pd idx (\<lambda>r. r\<lparr>rd_source_region := 0\<rparr>)) [beg_idx..<end_idx] pd))))"

definition split_at :: "pcdata \<Rightarrow> split_info \<Rightarrow> size_t \<Rightarrow> addr \<Rightarrow> size_t \<Rightarrow> (pcdata \<times> split_info \<times> addr \<times> addr) result"
where
  "split_at pd si split_region split_destination po_size =
     bind_result
       (if po_size \<noteq> 0 then
          bind_result (rd_mod pd split_region (set_partial_obj_size 0)) (\<lambda>pd1.
          bind_result (si_record pd1 si split_region po_size split_destination) (\<lambda>si1. Inr (pd1, si1)))
        else Inr (pd, si)) (\<lambda>(pd1, si1).
     bind_result (region_to_addr pd1 split_region) (\<lambda>src.
     Inr (pd1, si1, hw_add split_destination po_size, hw_add src po_size)))"

definition summarize_split_space ::
  "pcdata \<Rightarrow> size_t \<Rightarrow> split_info \<Rightarrow> addr \<Rightarrow> addr \<Rightarrow> (pcdata \<times> split_info \<times> addr \<times> addr) result" where
  "summarize_split_space pd src_region si destination target_end =
     bind_result (rd_get pd src_region) (\<lambda>r. bind_result (is_region_aligned pd target_end) (\<lambda>al.
       if \<not> destination \<le> target_end then Inl (AssertFailed ''sanity'')
       else if \<not> hw_add destination (data_size r) > target_end
       then Inl (AssertFailed ''region should not fit into target space'')
       else if \<not> al then Inl (AssertFailed ''sanity'')
       else if hw_add destination (partial_obj_size r) > target_end then
         bind_result (addr_to_region_idx pd (rd_partial_obj_addr r)) (\<lambda>split_region.
         bind_result (split_clear_sources pd split_region target_end) (\<lambda>pd1.
         bind_result (rd_get pd1 split_region) (\<lambda>sr.
         split_at pd1 si split_region (rd_destination sr) (partial_obj_size sr))))
       else split_at pd si src_region destination (partial_obj_size r)))"

section \<open>Summarising a space\<close>

text \<open>The counts and source of one region whose data fits, \<open>words\<close> of them at \<open>dest_addr\<close>.\<close>

definition split_count :: "pcdata \<Rightarrow> split_info \<Rightarrow> size_t \<Rightarrow> (pcdata \<times> nat) result" where
  "split_count pd si cur_region =
     (if is_split si cur_region then
        (if si_destination_count si = 2 then
           bind_result (addr_to_region_idx pd (si_dest_region_addr si)) (\<lambda>dest_idx.
           bind_result (rd_mod pd dest_idx (\<lambda>r. r\<lparr>rd_source_region := cur_region\<rparr>)) (\<lambda>pd1.
           Inr (pd1, 2)))
         else Inr (pd, si_destination_count si))
      else Inr (pd, 0))"

definition summarize_region :: "pcdata \<Rightarrow> split_info \<Rightarrow> size_t \<Rightarrow> addr \<Rightarrow> size_t \<Rightarrow> pcdata result" where
  "summarize_region pd si cur_region dest_addr words =
     bind_result (split_count pd si cur_region) (\<lambda>(pd1, count0).
     let last_addr = hw_add dest_addr words - HeapWordSize
     in bind_result (addr_to_region_idx pd1 dest_addr) (\<lambda>dest_region_1.
        bind_result (addr_to_region_idx pd1 last_addr) (\<lambda>dest_region_2.
        bind_result (region_offset pd1 dest_addr) (\<lambda>ofs.
        let count1 = count0 + (if cur_region = dest_region_2 then 0 else 1);
            count2 = (if dest_region_1 \<noteq> dest_region_2 then count1 + 1 else count1)
        in bind_result
             (if dest_region_1 \<noteq> dest_region_2
              then rd_mod pd1 dest_region_2 (\<lambda>r. r\<lparr>rd_source_region := cur_region\<rparr>)
              else if ofs = 0 then rd_mod pd1 dest_region_1 (\<lambda>r. r\<lparr>rd_source_region := cur_region\<rparr>)
              else Inr pd1) (\<lambda>pd2.
           rd_upd pd2 cur_region (set_destination_count count2))))))"

text \<open>
  The loop of \<open>summarize\<close>.  The result holds what is stored through
  \<open>source_next\<close> (\<^const>\<open>None\<close>: nothing), the value of \<open>*target_next\<close> and the
  value returned.
\<close>

fun summarize_loop :: "bool \<Rightarrow> addr \<Rightarrow> size_t list \<Rightarrow> pcdata \<Rightarrow> split_info \<Rightarrow> addr \<Rightarrow>
  (pcdata \<times> split_info \<times> addr option \<times> addr \<times> bool) result" where
  "summarize_loop has_next target_end [] pd si dest_addr = Inr (pd, si, None, dest_addr, True)"
| "summarize_loop has_next target_end (cur_region # rest) pd si dest_addr =
     bind_result (rd_mod pd cur_region (\<lambda>r. r\<lparr>rd_destination := dest_addr\<rparr>)) (\<lambda>pd1.
     bind_result (rd_get pd1 cur_region) (\<lambda>r.
     let words = data_size r
     in if words > 0 then
          (if hw_add dest_addr words > target_end then
             (if has_next then
                bind_result (summarize_split_space pd1 cur_region si dest_addr target_end)
                  (\<lambda>(pd2, si2, target_next, source_next). Inr (pd2, si2, Some source_next, target_next, False))
              else Inl (AssertFailed ''source_next is NULL when splitting''))
           else
             bind_result (summarize_region pd1 si cur_region dest_addr words) (\<lambda>pd2.
             summarize_loop has_next target_end rest pd2 si (hw_add dest_addr words)))
        else summarize_loop has_next target_end rest pd1 si dest_addr))"

definition summarize :: "bool \<Rightarrow> pcdata \<Rightarrow> split_info \<Rightarrow> addr \<Rightarrow> addr \<Rightarrow> addr \<Rightarrow> addr \<Rightarrow>
  (pcdata \<times> split_info \<times> addr option \<times> addr \<times> bool) result" where
  "summarize has_next pd si source_beg source_end target_beg target_end =
     bind_result (addr_to_region_idx pd source_beg) (\<lambda>cur_region.
     bind_result (region_align_up pd source_end) (\<lambda>se.
     bind_result (addr_to_region_idx pd se) (\<lambda>end_region.
     summarize_loop has_next target_end [cur_region..<end_region] pd si target_beg)))"

section \<open>Containers of the regions\<close>

definition install_bda_container :: "cheap \<Rightarrow> pcdata \<Rightarrow> container_t \<Rightarrow> pcdata result" where
  "install_bda_container h pd c =
     bind_result (cget h c) (\<lambda>k.
     bind_result (addr_to_region_idx pd (c_start k)) (\<lambda>first_region_idx.
     bind_result (addr_to_region_idx pd (c_end k)) (\<lambda>last_region_idx.
     fold_result (\<lambda>i pd. rd_mod pd i (\<lambda>r. r\<lparr>rd_container := c\<rparr>)) [first_region_idx..<last_region_idx + 1] pd)))"

definition install_container_in_region :: "cheap \<Rightarrow> pcdata \<Rightarrow> container_t \<Rightarrow> pcdata result" where
  "install_container_in_region h pd c =
     (if c = None then Inl (AssertFailed ''Sanity'') else install_bda_container h pd c)"

definition get_container_at_addr :: "pcdata \<Rightarrow> addr \<Rightarrow> container_t result" where
  "get_container_at_addr pd p =
     bind_result (addr_to_region_idx pd p) (\<lambda>i. bind_result (rd_get pd i) (\<lambda>r. Inr (rd_container r)))"

definition is_in_container :: "cheap \<Rightarrow> container_t \<Rightarrow> addr \<Rightarrow> bool result" where
  "is_in_container h c p =
     (if c = None then Inl (AssertFailed ''Sanity'')
      else bind_result (cget h c) (\<lambda>k. Inr (p \<ge> c_start k \<and> p < hw_add (c_top k) 1)))"

definition is_same_container :: "pcdata \<Rightarrow> size_t \<Rightarrow> size_t \<Rightarrow> bool result" where
  "is_same_container pd src_region_idx region_idx =
     bind_result (rd_get pd src_region_idx) (\<lambda>r1. bind_result (rd_get pd region_idx) (\<lambda>r2.
     Inr (rd_container r1 = rd_container r2)))"

end
