(* ===== verification/RegionWords.thy ===== *)
theory RegionWords
  imports CompactData
begin

text \<open>
  The word \<open>_dc_and_los\<close> of a region packs a destination count in its upper five
  bits and the live object size in its lower twenty-seven.  Here is the pair the
  word stands for, the operations on the pair, and the proof that the mask, shift
  and wrap-around arithmetic of the code implements them.
\<close>

section \<open>Reading the word\<close>

lemma los_mask_eq: "los_mask = mask 27"
  unfolding los_mask_def dc_mask_def dc_shift_def by (simp add: mask_eq_exp_minus_1)

lemma unat_los_mask: "unat los_mask = 2 ^ 27 - 1"
  unfolding los_mask_eq by (simp add: mask_eq_exp_minus_1)

lemma live_obj_size_nat: "live_obj_size r = unat (rd_dc_and_los r) mod 2 ^ 27"
proof -
  have "live_obj_size r = unat (take_bit 27 (rd_dc_and_los r))"
    by (simp add: live_obj_size_def los_mask_eq take_bit_eq_mask)
  also have "\<dots> = take_bit 27 (unat (rd_dc_and_los r))"
    by (simp only: unsigned_take_bit_eq)
  finally show ?thesis
    by (simp only: take_bit_eq_mod)
qed

lemma destination_count_nat: "destination_count r = unat (rd_dc_and_los r) div 2 ^ 27"
proof -
  have "drop_bit 27 (w AND dc_mask) = drop_bit 27 w" for w :: "32 word"
    unfolding dc_mask_def dc_shift_def by (rule bit_word_eqI) (auto simp: bit_simps dest: bit_imp_le_length)
  then show ?thesis
    unfolding destination_count_def destination_count_raw_def dc_shift_def
    by (simp only: unat_drop_bit_eq) (simp only: drop_bit_eq_div)
qed

lemma unat_dc_and_los:
  "unat (rd_dc_and_los r) = destination_count r * 2 ^ 27 + live_obj_size r"
  by (simp add: destination_count_nat live_obj_size_nat)

lemma destination_count_less: "destination_count r < 32"
proof -
  have "unat (rd_dc_and_los r) < 2 ^ LENGTH(32)"
    by (rule unsigned_less)
  then show ?thesis
    by (simp add: destination_count_nat less_mult_imp_div_less)
qed

lemma live_obj_size_less: "live_obj_size r < 2 ^ 27"
  by (simp add: live_obj_size_nat)

lemma unat_pack:
  assumes "c < 32" "l < 2 ^ 27"
  shows "unat (push_bit 27 (of_nat c) OR of_nat l :: 32 word) = c * 2 ^ 27 + l"
proof -
  have "bit (of_nat l :: 32 word) n \<Longrightarrow> n < 27" for n
  proof (rule ccontr)
    assume b: "bit (of_nat l :: 32 word) n" and "\<not> n < 27"
    then have "(2 :: nat) ^ 27 \<le> 2 ^ n"
      by (intro power_increasing) auto
    with assms(2) have "l div 2 ^ n = 0"
      by simp
    moreover from b have "bit (unat (of_nat l :: 32 word)) n"
      by (simp add: bit_unsigned_iff)
    then have "bit l n"
      using assms(2) by (simp add: unsigned_of_nat take_bit_nat_eq_self)
    ultimately show False
      by (simp add: bit_iff_odd)
  qed
  then have "push_bit 27 (of_nat c) OR of_nat l = (push_bit 27 (of_nat c) + of_nat l :: 32 word)"
    by (intro disjunctive_add [symmetric]) (force simp: bit_push_bit_iff)
  also have "\<dots> = of_nat (c * 2 ^ 27 + l)"
    by (simp add: push_bit_eq_mult)
  finally have "push_bit 27 (of_nat c) OR of_nat l = (of_nat (c * 2 ^ 27 + l) :: 32 word)" .
  then show ?thesis
    using assms by (simp only: unsigned_of_nat) (simp add: take_bit_nat_eq_self)
qed

lemma unat_pack':
  assumes "c < 32" "l < 2 ^ 27"
  shows "unat (push_bit 27 (of_nat c) OR of_nat l :: 32 word) div 2 ^ 27 = c"
    "unat (push_bit 27 (of_nat c) OR of_nat l :: 32 word) mod 2 ^ 27 = l"
  by (simp_all add: unat_pack [OF assms] assms del: power_numeral)

section \<open>The pair and its operations\<close>

type_synonym region_abs = "nat \<times> nat"

definition region_abs :: "region_data \<Rightarrow> region_abs" where
  "region_abs r = (destination_count r, live_obj_size r)"

definition abs_set_destination_count :: "nat \<Rightarrow> region_abs \<Rightarrow> region_abs result" where
  "abs_set_destination_count count a =
     (if count \<le> 12 then Inr (count, snd a) else Inl (AssertFailed ''count too large''))"

definition abs_set_live_obj_size :: "size_t \<Rightarrow> region_abs \<Rightarrow> region_abs result" where
  "abs_set_live_obj_size words a =
     (if words < 2 ^ 27 then Inr (fst a, words) else Inl (AssertFailed ''would overflow''))"

definition abs_decrement_destination_count :: "region_abs \<Rightarrow> region_abs result" where
  "abs_decrement_destination_count a =
     (if 8 \<le> fst a then Inl (AssertFailed ''already claimed'')
      else if fst a = 0 then Inl (AssertFailed ''count would go negative'')
      else Inr (fst a - 1, snd a))"

definition abs_set_completed :: "region_abs \<Rightarrow> region_abs result" where
  "abs_set_completed a =
     (if 8 \<le> fst a then Inr (12, snd a) else Inl (AssertFailed ''must be claimed first''))"

definition abs_add_live_obj :: "size_t \<Rightarrow> region_abs \<Rightarrow> region_abs result" where
  "abs_add_live_obj words a =
     (if snd a + words < 2 ^ 27 then Inr (fst a, snd a + words) else Inl (AssertFailed ''overflow''))"

definition abs_claim :: "region_abs \<Rightarrow> region_abs \<times> bool" where
  "abs_claim a = (if fst a = 0 then ((8, snd a), True) else (a, False))"

section \<open>The word implements the pair\<close>

lemma dc_one_nat: "unat dc_one = 2 ^ 27"
  unfolding dc_one_def dc_shift_def by simp

lemma dc_claimed_nat: "unat dc_claimed = 8 * 2 ^ 27"
  unfolding dc_claimed_def dc_shift_def by simp

lemma dc_completed_nat: "unat dc_completed = 12 * 2 ^ 27"
  unfolding dc_completed_def dc_shift_def by simp

lemma available_nat: "available r \<longleftrightarrow> destination_count r = 0"
  unfolding available_def word_less_nat_alt dc_one_nat destination_count_nat by (simp add: div_eq_0_iff)

lemma claimed_nat: "claimed r \<longleftrightarrow> 8 \<le> destination_count r"
  unfolding claimed_def word_le_nat_alt dc_claimed_nat destination_count_nat
  by (simp add: less_eq_div_iff_mult_less_eq)

lemma completed_nat: "completed r \<longleftrightarrow> 12 \<le> destination_count r"
  unfolding completed_def word_le_nat_alt dc_completed_nat destination_count_nat
  by (simp add: less_eq_div_iff_mult_less_eq)

lemma set_destination_count_abs:
  "map_sum id region_abs (set_destination_count count r) = abs_set_destination_count count (region_abs r)"
proof -
  have lim: "unat (drop_bit 27 dc_completed) = 12"
    by (simp only: unat_drop_bit_eq dc_completed_nat) (simp add: drop_bit_eq_div)
  show ?thesis
    using unat_pack' [of count "live_obj_size r"] live_obj_size_less [of r]
    by (simp add: set_destination_count_def abs_set_destination_count_def region_abs_def lim dc_shift_def
        destination_count_nat [of "r\<lparr>rd_dc_and_los := w\<rparr>" for w] live_obj_size_nat [of "r\<lparr>rd_dc_and_los := w\<rparr>" for w])
qed

lemma destination_count_raw_pack: "destination_count_raw r = push_bit 27 (of_nat (destination_count r))"
proof -
  have "push_bit 27 (drop_bit 27 (w :: 32 word)) = w AND dc_mask" for w
    unfolding dc_mask_def dc_shift_def by (rule bit_word_eqI) (auto simp: bit_simps)
  moreover have "(of_nat (destination_count r) :: 32 word) = drop_bit 27 (destination_count_raw r)"
    by (simp add: destination_count_def dc_shift_def)
  ultimately show ?thesis
    by (simp add: destination_count_raw_def ac_simps)
qed

lemma set_live_obj_size_abs:
  "map_sum id region_abs (set_live_obj_size words r) = abs_set_live_obj_size words (region_abs r)"
proof -
  have lim: "words \<le> unat los_mask \<longleftrightarrow> words < 2 ^ 27"
    unfolding unat_los_mask by auto
  show ?thesis
    using unat_pack' [of "destination_count r" words] destination_count_less [of r]
    by (simp add: set_live_obj_size_def abs_set_live_obj_size_def region_abs_def lim destination_count_raw_pack
        destination_count_nat [of "r\<lparr>rd_dc_and_los := w\<rparr>" for w] live_obj_size_nat [of "r\<lparr>rd_dc_and_los := w\<rparr>" for w])
qed

lemma region_abs_of_nat:
  assumes "c < 32" "l < 2 ^ 27" "unat w = c * 2 ^ 27 + l"
  shows "region_abs (r\<lparr>rd_dc_and_los := w\<rparr>) = (c, l)"
  using assms(1,2) by (simp add: region_abs_def destination_count_nat live_obj_size_nat assms(3) del: power_numeral)

lemma decrement_destination_count_abs:
  "map_sum id region_abs (decrement_destination_count r) = abs_decrement_destination_count (region_abs r)"
proof -
  let ?w = "rd_dc_and_los r" and ?c = "destination_count r"
  have guards: "\<not> ?w < dc_claimed \<longleftrightarrow> 8 \<le> ?c" "\<not> ?w \<ge> dc_one \<longleftrightarrow> ?c = 0"
    using claimed_nat [of r] available_nat [of r] by (auto simp: claimed_def available_def not_le not_less)
  have "region_abs (r\<lparr>rd_dc_and_los := ?w + dc_mask\<rparr>) = (?c - 1, live_obj_size r)" if "0 < ?c"
  proof (rule region_abs_of_nat)
    have mask: "dc_mask = - (2 ^ 27)"
      unfolding dc_mask_def dc_shift_def by (simp add: push_bit_minus_one_eq_not_mask [symmetric] push_bit_eq_mult)
    have ge: "2 ^ 27 \<le> unat ?w"
      using that by (simp add: unat_dc_and_los)
    then have "?w + dc_mask = of_nat (unat ?w - 2 ^ 27)"
      by (simp add: mask of_nat_diff)
    moreover have "unat ?w < 2 ^ LENGTH(32)"
      by (rule unsigned_less)
    ultimately have "unat (?w + dc_mask) = unat ?w - 2 ^ 27"
      by (simp add: unsigned_of_nat take_bit_nat_eq_self)
    then show "unat (?w + dc_mask) = (?c - 1) * 2 ^ 27 + live_obj_size r"
      using that by (cases ?c) (simp_all add: unat_dc_and_los)
  qed (use destination_count_less [of r] live_obj_size_less [of r] in auto)
  then show ?thesis
    by (simp add: decrement_destination_count_def abs_decrement_destination_count_def guards region_abs_def)
qed

lemma add_live_obj_abs:
  "map_sum id region_abs (add_live_obj words r) = abs_add_live_obj words (region_abs r)"
proof -
  let ?w = "rd_dc_and_los r"
  have guard: "words \<le> unat los_mask - live_obj_size r \<longleftrightarrow> live_obj_size r + words < 2 ^ 27"
    using live_obj_size_less [of r] unfolding unat_los_mask by auto
  have "region_abs (r\<lparr>rd_dc_and_los := ?w + of_nat words\<rparr>) = (destination_count r, live_obj_size r + words)"
    if "live_obj_size r + words < 2 ^ 27"
  proof (rule region_abs_of_nat)
    have "?w + of_nat words = of_nat (unat ?w + words)"
      by simp
    moreover have "unat ?w + words < 2 ^ LENGTH(32)"
      using that destination_count_less [of r] by (simp add: unat_dc_and_los)
    ultimately have "unat (?w + of_nat words) = unat ?w + words"
      by (simp only: unsigned_of_nat) (simp add: take_bit_nat_eq_self)
    then show "unat (?w + of_nat words) = destination_count r * 2 ^ 27 + (live_obj_size r + words)"
      by (simp add: unat_dc_and_los)
  qed (use destination_count_less [of r] that in auto)
  then show ?thesis
    by (simp add: add_live_obj_def abs_add_live_obj_def region_abs_def guard)
qed

lemma region_abs_pack:
  assumes "c < 32"
  shows "region_abs (r\<lparr>rd_dc_and_los := push_bit 27 (of_nat c) OR of_nat (live_obj_size r)\<rparr>) = (c, live_obj_size r)"
  using assms live_obj_size_less unat_pack by (intro region_abs_of_nat) auto

lemma claim_abs:
  "map_prod region_abs id (claim r) = abs_claim (region_abs r)"
proof -
  have "rd_dc_and_los r = of_nat (live_obj_size r) \<longleftrightarrow> unat (rd_dc_and_los r) = live_obj_size r"
  proof
    assume "rd_dc_and_los r = of_nat (live_obj_size r)"
    then have "unat (rd_dc_and_los r) = unat (of_nat (live_obj_size r) :: 32 word)"
      by simp
    then show "unat (rd_dc_and_los r) = live_obj_size r"
      using live_obj_size_less [of r] by (simp only: unsigned_of_nat) (simp add: take_bit_nat_eq_self)
  next
    assume "unat (rd_dc_and_los r) = live_obj_size r"
    then show "rd_dc_and_los r = of_nat (live_obj_size r)"
      by (metis of_nat_unat ucast_id)
  qed
  then have "rd_dc_and_los r = of_nat (live_obj_size r) \<longleftrightarrow> destination_count r = 0"
    by (simp add: unat_dc_and_los)
  then show ?thesis
    using region_abs_pack [of 8 r]
    by (simp add: claim_def abs_claim_def Let_def dc_claimed_def dc_shift_def) (simp add: region_abs_def)
qed

lemma claim_unsafe_abs:
  "map_prod region_abs id (claim_unsafe r) = abs_claim (region_abs r)"
proof (cases "destination_count r = 0")
  case True
  then have "rd_dc_and_los r = of_nat (live_obj_size r)"
    using unat_dc_and_los [of r] by (metis add_0 mult_0 of_nat_unat ucast_id)
  then show ?thesis
    using True region_abs_pack [of 8 r]
    by (simp add: claim_unsafe_def abs_claim_def available_nat dc_claimed_def dc_shift_def ac_simps)
      (simp add: region_abs_def)
next
  case False
  then show ?thesis
    by (simp add: claim_unsafe_def abs_claim_def available_nat region_abs_def)
qed

lemma set_completed_abs:
  "map_sum id region_abs (set_completed r) = abs_set_completed (region_abs r)"
  using region_abs_pack [of 12 r]
  by (simp add: set_completed_def abs_set_completed_def claimed_nat dc_completed_def dc_shift_def)
    (simp add: region_abs_def)

text \<open>
  C38: The destination count and the live object size of a region share one 32-bit
  word.  Every operation on the word acts on the pair as its specification says:
  setting or lowering the count never disturbs the size, adding to the size never
  carries into the count, a claim succeeds exactly when the count is zero and its
  non-atomic variant agrees with it, and each assertion fails exactly when the
  operation on the pair is undefined.
\<close>

theorem region_word_refines_pair:
  "map_sum id region_abs (set_destination_count count r) = abs_set_destination_count count (region_abs r) \<and>
   map_sum id region_abs (set_live_obj_size words r) = abs_set_live_obj_size words (region_abs r) \<and>
   map_sum id region_abs (decrement_destination_count r) = abs_decrement_destination_count (region_abs r) \<and>
   map_sum id region_abs (add_live_obj words r) = abs_add_live_obj words (region_abs r) \<and>
   map_sum id region_abs (set_completed r) = abs_set_completed (region_abs r) \<and>
   map_prod region_abs id (claim r) = abs_claim (region_abs r) \<and>
   map_prod region_abs id (claim_unsafe r) = abs_claim (region_abs r) \<and>
   (available r \<longleftrightarrow> fst (region_abs r) = 0) \<and> (claimed r \<longleftrightarrow> 8 \<le> fst (region_abs r)) \<and>
   (completed r \<longleftrightarrow> 12 \<le> fst (region_abs r)) \<and>
   data_size r = partial_obj_size r + snd (region_abs r)"
  by (simp add: set_destination_count_abs set_live_obj_size_abs decrement_destination_count_abs add_live_obj_abs
      set_completed_abs claim_abs claim_unsafe_abs available_nat claimed_nat completed_nat data_size_def)
    (simp add: region_abs_def)

end
