(* ===== verification/SummaryData.thy ===== *)
theory SummaryData
  imports RegionWords
begin

text \<open>
  What the summary data of \<open>ParallelCompactData\<close> stands for: the words each region
  holds of a set of disjoint objects, and the sliding of that data to a target
  that \<open>summarize\<close> plans.
\<close>

named_theorems pd_addr_simps

section \<open>Addresses of a well-formed table\<close>

definition pd_wf :: "pcdata \<Rightarrow> bool" where
  "pd_wf pd \<longleftrightarrow>
     RegionSizeBytes dvd pd_region_start pd \<and> pd_region_end pd = hw_add (pd_region_start pd) (region_count pd * RegionSize) \<and>
     hw_add (pd_region_start pd) (region_count pd * RegionSize + RegionSize) < size_t_max1 \<and> block_count pd = region_count pd * BlocksPerRegion"

abbreviation pd_addr :: "pcdata \<Rightarrow> nat \<Rightarrow> addr" where
  "pd_addr pd k \<equiv> hw_add (pd_region_start pd) k"

lemmas region_sizes = RegionSize_def Log2RegionSize_def RegionSizeBytes_def LogHeapWordSize_def
  RegionSizeOffsetMask_def RegionAddrOffsetMask_def BlockSize_def Log2BlockSize_def BlockSizeBytes_def
  BlockSizeOffsetMask_def BlockAddrOffsetMask_def BlocksPerRegion_def Log2BlocksPerRegion_def

lemma RegionSize_pos [simp]: "0 < RegionSize" "RegionSize \<noteq> 0"
  by (simp_all add: RegionSize_def)

lemma BlockSize_pos [simp]: "0 < BlockSize" "BlockSize \<noteq> 0"
  by (simp_all add: BlockSize_def)

lemma pd_addr_bound:
  assumes "pd_wf pd" "k \<le> region_count pd * RegionSize + RegionSize"
  shows "pd_addr pd k < size_t_max1"
proof -
  have "pd_addr pd k \<le> pd_addr pd (region_count pd * RegionSize + RegionSize)"
    using assms(2) by simp
  also have "\<dots> < size_t_max1"
    using assms(1) by (simp add: pd_wf_def)
  finally show ?thesis .
qed

lemma pd_addr_region_ok [pd_addr_simps]:
  "pd_wf pd \<Longrightarrow> region_ok pd (pd_addr pd k) \<longleftrightarrow> k \<le> region_count pd * RegionSize"
  by (simp add: region_ok_def pd_wf_def)

lemma addr_mod_region:
  assumes "pd_wf pd" "n \<le> 19"
  shows "pd_addr pd k mod 2 ^ n = (k * 8) mod 2 ^ n"
proof -
  have "(2 :: nat) ^ n dvd 2 ^ 19"
    by (rule le_imp_power_dvd [OF assms(2)])
  also have "(2 :: nat) ^ 19 = RegionSizeBytes"
    by (simp add: region_sizes)
  also have "\<dots> dvd pd_region_start pd"
    using assms(1) by (simp add: pd_wf_def)
  finally obtain q where "pd_region_start pd = 2 ^ n * q" ..
  then show ?thesis
    by (simp add: hw_add_def HeapWordSize_def)
qed

lemma words_mod: "(k * 8) mod 2 ^ (n + 3) div 2 ^ 3 = (k :: nat) mod 2 ^ n"
proof -
  have "(k * 8) mod (2 ^ n * 8) = (k mod 2 ^ n) * 8"
    by (rule mod_mult_mult2)
  then show ?thesis
    by (simp add: power_add)
qed

lemma addr_to_region_idx_ok [pd_addr_simps]:
  "pd_wf pd \<Longrightarrow> k \<le> region_count pd * RegionSize \<Longrightarrow> addr_to_region_idx pd (pd_addr pd k) = Inr (k div RegionSize)"
  using pd_addr_bound [of pd k] by (simp add: addr_to_region_idx_def pd_addr_region_ok RegionSize_def)

lemma region_offset_ok [pd_addr_simps]:
  assumes "pd_wf pd" "k \<le> region_count pd * RegionSize"
  shows "region_offset pd (pd_addr pd k) = Inr (k mod RegionSize)"
proof -
  have m: "RegionAddrOffsetMask = 2 ^ 19 - 1"
    by (simp add: region_sizes)
  have "(pd_addr pd k AND RegionAddrOffsetMask) div 2 ^ 3 = (k * 8) mod 2 ^ (16 + 3) div 2 ^ 3"
    unfolding m and_mask_nat using addr_mod_region [OF assms(1), of 19 k] by simp
  then have "(pd_addr pd k AND RegionAddrOffsetMask) div 2 ^ 3 = k mod 2 ^ 16"
    by (simp only: words_mod)
  then show ?thesis
    using assms by (simp add: region_offset_def pd_addr_region_ok LogHeapWordSize_def region_sizes)
qed

lemma addr_to_block_idx_ok [pd_addr_simps]:
  "pd_wf pd \<Longrightarrow> k \<le> region_count pd * RegionSize \<Longrightarrow> addr_to_block_idx pd (pd_addr pd k) = Inr (k div BlockSize)"
  using pd_addr_bound [of pd k] by (simp add: addr_to_block_idx_def pd_addr_region_ok BlockSize_def)

lemma region_to_addr_ok [pd_addr_simps]:
  "i \<le> region_count pd \<Longrightarrow> region_to_addr pd i = Inr (pd_addr pd (i * RegionSize))"
  by (simp add: region_to_addr_def RegionSize_def)

lemma align_down_words:
  assumes "pd_wf pd" "n \<le> 16"
  shows "nat (int (pd_addr pd k) AND NOT (int (2 ^ (n + 3) - 1))) = pd_addr pd (k - k mod 2 ^ n)"
proof -
  have i: "int (2 ^ (n + 3) - 1) = 2 ^ (n + 3) - 1"
    by (simp add: of_nat_diff)
  have "nat (int (pd_addr pd k) AND NOT (int (2 ^ (n + 3) - 1))) =
      nat (int (pd_addr pd k) - int (pd_addr pd k) mod 2 ^ (n + 3))"
    unfolding i and_not_mask_int ..
  also have "int (pd_addr pd k) mod 2 ^ (n + 3) = int (pd_addr pd k mod 2 ^ (n + 3))"
    by (simp add: zmod_int)
  also have "pd_addr pd k mod 2 ^ (n + 3) = (k mod 2 ^ n) * 8"
    using addr_mod_region [OF assms(1), of "n + 3" k] assms(2) mod_mult_mult2 [of k 8 "2 ^ n"] by (simp add: power_add)
  also have "nat (int (pd_addr pd k) - int (k mod 2 ^ n * 8)) = pd_addr pd k - k mod 2 ^ n * 8"
    by (simp only: nat_minus_as_int)
  also have "\<dots> = pd_addr pd (k - k mod 2 ^ n)"
    using mod_less_eq_dividend [of k "2 ^ n"] by (simp add: hw_add_def HeapWordSize_def diff_mult_distrib)
  finally show ?thesis .
qed

lemma region_align_down_ok [pd_addr_simps]:
  assumes "pd_wf pd" "k < region_count pd * RegionSize + RegionSize"
  shows "region_align_down pd (pd_addr pd k) = Inr (pd_addr pd (k - k mod RegionSize))"
proof -
  have "RegionAddrOffsetMask = 2 ^ (16 + 3) - 1" "RegionSize = 2 ^ 16"
    by (simp_all add: region_sizes)
  moreover have "pd_addr pd k < hw_add (pd_region_end pd) RegionSize"
    using assms by (simp add: pd_wf_def)
  ultimately show ?thesis
    using align_down_words [OF assms(1), of 16 k] by (simp only: region_align_down_def) simp
qed

lemma region_align_up_ok [pd_addr_simps]:
  assumes "pd_wf pd" "k \<le> region_count pd * RegionSize"
  shows "region_align_up pd (pd_addr pd k) = Inr (pd_addr pd ((k + RegionSize - 1) div RegionSize * RegionSize))"
proof -
  have m: "k + RegionSizeOffsetMask = k + RegionSize - 1"
    using RegionSize_pos(1) by (simp add: RegionSizeOffsetMask_def del: RegionSize_pos)
  have "k + RegionSizeOffsetMask < region_count pd * RegionSize + RegionSize"
    using assms(2) RegionSize_pos(1) by (simp add: m del: RegionSize_pos)
  then show ?thesis
    using assms by (simp add: region_align_up_def pd_addr_region_ok region_align_down_ok m minus_mod_eq_div_mult)
qed

lemma block_align_down_ok [pd_addr_simps]:
  assumes "pd_wf pd" "k < region_count pd * RegionSize + RegionSize"
  shows "block_align_down pd (pd_addr pd k) = Inr (pd_addr pd (k - k mod BlockSize))"
proof -
  have "BlockAddrOffsetMask = 2 ^ (7 + 3) - 1" "BlockSize = 2 ^ 7"
    by (simp_all add: region_sizes)
  moreover have "pd_addr pd k < hw_add (pd_region_end pd) RegionSize"
    using assms by (simp add: pd_wf_def)
  ultimately show ?thesis
    using align_down_words [OF assms(1), of 7 k] by (simp only: block_align_down_def) simp
qed

section \<open>Updating ranges of regions\<close>

definition upd_range :: "nat \<Rightarrow> nat \<Rightarrow> ('a \<Rightarrow> 'a) \<Rightarrow> 'a list \<Rightarrow> 'a list" where
  "upd_range a c f xs = map (\<lambda>j. if a \<le> j \<and> j < c then f (xs ! j) else xs ! j) [0..<length xs]"

lemma length_upd_range [simp]: "length (upd_range a c f xs) = length xs"
  by (simp add: upd_range_def)

lemma nth_upd_range:
  "j < length xs \<Longrightarrow> upd_range a c f xs ! j = (if a \<le> j \<and> j < c then f (xs ! j) else xs ! j)"
  by (simp add: upd_range_def)

lemma upd_range_empty: "c \<le> a \<Longrightarrow> upd_range a c f xs = xs"
  by (rule nth_equalityI) (auto simp: nth_upd_range)

lemma upd_range_Suc:
  "a \<le> c \<Longrightarrow> c < length xs \<Longrightarrow> (upd_range a c f xs)[c := f (xs ! c)] = upd_range a (Suc c) f xs"
  by (rule nth_equalityI) (auto simp: nth_upd_range nth_list_update)

lemma fold_rd_mod:
  assumes "c \<le> region_count pd"
  shows "fold_result (\<lambda>i pd. rd_mod pd i f) [a..<c] pd = Inr (pd\<lparr>pd_regions := upd_range a c f (pd_regions pd)\<rparr>)"
  using assms
proof (induction c)
  case 0
  then show ?case by (simp add: upd_range_empty)
next
  case (Suc c)
  show ?case
  proof (cases "a \<le> c")
    case True
    then show ?thesis
      using Suc by (simp add: fold_result_append rd_mod_def region_count_def nth_upd_range upd_range_Suc)
  next
    case False
    then show ?thesis by (simp add: upd_range_empty)
  qed
qed

lemma rd_mod_ok:
  "i < region_count pd \<Longrightarrow> rd_mod pd i f = Inr (pd\<lparr>pd_regions := (pd_regions pd)[i := f (pd_regions pd ! i)]\<rparr>)"
  by (simp add: rd_mod_def region_count_def)

lemma rd_get_ok: "i < region_count pd \<Longrightarrow> rd_get pd i = Inr (pd_regions pd ! i)"
  by (simp add: rd_get_def region_count_def)

lemma rd_upd_ok:
  "i < region_count pd \<Longrightarrow> f (pd_regions pd ! i) = Inr r \<Longrightarrow>
     rd_upd pd i f = Inr (pd\<lparr>pd_regions := (pd_regions pd)[i := r]\<rparr>)"
  by (simp add: rd_upd_def rd_get_ok)

lemma region_count_upd [simp]: "region_count (pd\<lparr>pd_regions := rs\<rparr>) = length rs"
  by (simp add: region_count_def)

lemma pd_wf_upd: "pd_wf pd \<Longrightarrow> length rs = region_count pd \<Longrightarrow> pd_wf (pd\<lparr>pd_regions := rs\<rparr>)"
  by (simp add: pd_wf_def block_count_def region_count_def)

lemma length_regions [simp]: "length (pd_regions pd) = region_count pd"
  by (simp add: region_count_def)

section \<open>The words of the objects in a region\<close>

definition live_words :: "(nat \<times> nat) list \<Rightarrow> nat set" where
  "live_words os = {w. \<exists>k n. (k, n) \<in> set os \<and> k \<le> w \<and> w < k + n}"

definition own_words :: "(nat \<times> nat) list \<Rightarrow> nat \<Rightarrow> nat set" where
  "own_words os j = {w. \<exists>k n. (k, n) \<in> set os \<and> k \<le> w \<and> w < k + n \<and> k div RegionSize = j \<and> w div RegionSize = j}"

definition spill_words :: "(nat \<times> nat) list \<Rightarrow> nat \<Rightarrow> nat set" where
  "spill_words os j = {w. \<exists>k n. (k, n) \<in> set os \<and> k \<le> w \<and> w < k + n \<and> k div RegionSize < j \<and> w div RegionSize = j}"

definition region_words :: "nat \<Rightarrow> nat set" where
  "region_words j = {j * RegionSize..<Suc j * RegionSize}"

lemma in_region_words: "w \<in> region_words j \<longleftrightarrow> w div RegionSize = j"
  unfolding region_words_def using div_nat_eqI [of RegionSize j w] RegionSize_pos(1)
  by (auto simp: algebra_simps div_times_less_eq_dividend dividend_less_times_div)

lemma card_region_words: "card (region_words j) = RegionSize"
  by (simp add: region_words_def)

lemma live_words_region: "live_words os \<inter> region_words j = own_words os j \<union> spill_words os j"
proof -
  have "k div RegionSize \<le> j" if "k \<le> w" "w div RegionSize = j" for k w
    using that div_le_mono by blast
  then show ?thesis
    unfolding live_words_def own_words_def spill_words_def by (auto simp: in_region_words) (metis le_neq_implies_less)
qed

lemma finite_own [simp]: "finite (own_words os j)" and finite_spill [simp]: "finite (spill_words os j)"
proof -
  have "own_words os j \<union> spill_words os j \<subseteq> region_words j"
    using live_words_region [of os j] by blast
  then have "finite (own_words os j \<union> spill_words os j)"
    by (rule finite_subset) (simp add: region_words_def)
  then show "finite (own_words os j)" "finite (spill_words os j)"
    by simp_all
qed

section \<open>Adding an object\<close>

lemma div_region_eq: "w div RegionSize = j \<longleftrightarrow> j * RegionSize \<le> w \<and> w < Suc j * RegionSize"
  using in_region_words [of w j] by (auto simp: region_words_def)

lemma le_div_region: "j \<le> w div RegionSize \<longleftrightarrow> j * RegionSize \<le> w"
  by (simp add: less_eq_div_iff_mult_less_eq)

lemma div_region_less: "w div RegionSize < j \<longleftrightarrow> w < j * RegionSize"
  by (simp add: div_less_iff_less_mult)

lemma own_single:
  "own_words [(k, n)] j = (if j = k div RegionSize then {k..<min (k + n) (Suc j * RegionSize)} else {})"
proof -
  have "k \<le> w \<Longrightarrow> w div RegionSize = k div RegionSize \<longleftrightarrow> w < Suc (k div RegionSize) * RegionSize" for w
    using div_le_mono [of k w RegionSize] div_region_less [of w "Suc (k div RegionSize)"] by auto
  then show ?thesis
    by (auto simp: own_words_def)
qed

lemma interval_part:
  fixes k :: nat
  shows "0 < n \<Longrightarrow> {w. k \<le> w \<and> w < k + n \<and> k < x \<and> x \<le> w \<and> w < y} =
    (if k < x \<and> x \<le> k + n - 1 then {x..<min (k + n) y} else {})"
  by auto

lemma spill_single:
  assumes "0 < n"
  shows "spill_words [(k, n)] j =
    (if k div RegionSize < j \<and> j \<le> (k + n - 1) div RegionSize then {j * RegionSize..<min (k + n) (Suc j * RegionSize)} else {})"
proof -
  have "spill_words [(k, n)] j =
      {w. k \<le> w \<and> w < k + n \<and> k < j * RegionSize \<and> j * RegionSize \<le> w \<and> w < Suc j * RegionSize}"
    unfolding spill_words_def by (simp add: div_region_less) (auto simp: div_region_eq)
  moreover have "k div RegionSize < j \<and> j \<le> (k + n - 1) div RegionSize \<longleftrightarrow> k < j * RegionSize \<and> j * RegionSize \<le> k + n - 1"
    by (simp only: div_region_less le_div_region)
  ultimately show ?thesis
    by (simp only: interval_part [OF assms])
qed

lemma card_own_single:
  assumes "0 < n"
  shows "card (own_words [(k, n)] (k div RegionSize)) =
    (if k div RegionSize = (k + n - 1) div RegionSize then n else RegionSize - k mod RegionSize)"
proof -
  let ?b = "k div RegionSize"
  have k: "Suc ?b * RegionSize - k = RegionSize - k mod RegionSize"
    using div_mult_mod_eq [of k RegionSize] unfolding mult_Suc by linarith
  show ?thesis
  proof (cases "?b = (k + n - 1) div RegionSize")
    case True
    then have "k + n - 1 < Suc ?b * RegionSize"
      by (metis div_region_less lessI)
    then show ?thesis
      using True assms by (simp add: own_single del: mult_Suc)
  next
    case False
    moreover have "?b \<le> (k + n - 1) div RegionSize"
      using assms by (intro div_le_mono) simp
    ultimately have "Suc ?b \<le> (k + n - 1) div RegionSize"
      by simp
    then have "Suc ?b * RegionSize \<le> k + n"
      unfolding le_div_region by linarith
    then show ?thesis
      using False k by (simp add: own_single min_absorb2 del: mult_Suc)
  qed
qed

lemma card_spill_single:
  assumes "0 < n" "k div RegionSize < j" "j \<le> (k + n - 1) div RegionSize"
  shows "card (spill_words [(k, n)] j) =
    (if j = (k + n - 1) div RegionSize then (k + n - 1) mod RegionSize + 1 else RegionSize)"
proof (cases "j = (k + n - 1) div RegionSize")
  case True
  then have "k + n - 1 < Suc j * RegionSize"
    by (metis div_region_less lessI)
  then have "min (k + n) (Suc j * RegionSize) = k + n"
    by linarith
  then have "card (spill_words [(k, n)] j) = k + n - j * RegionSize"
    using assms by (simp add: spill_single)
  moreover have "(k + n - 1) mod RegionSize = k + n - 1 - j * RegionSize"
    unfolding True by (rule minus_div_mult_eq_mod [symmetric])
  moreover have "j * RegionSize \<le> k + n - 1"
    unfolding True by simp
  ultimately have "card (spill_words [(k, n)] j) = (k + n - 1) mod RegionSize + 1"
    using assms(1) by linarith
  then show ?thesis
    unfolding if_P [OF True] .
next
  case False
  then have "Suc j \<le> (k + n - 1) div RegionSize"
    using assms by simp
  then have "Suc j * RegionSize \<le> k + n"
    unfolding le_div_region by linarith
  then show ?thesis
    using assms False by (simp add: spill_single min_absorb2 del: mult_Suc) simp
qed

definition region_frame :: "region_data \<Rightarrow> region_data \<Rightarrow> bool" where
  "region_frame r r' \<longleftrightarrow>
     destination_count r' = destination_count r \<and> rd_destination r' = rd_destination r \<and>
     rd_source_region r' = rd_source_region r \<and> rd_container r' = rd_container r \<and>
     rd_blocks_filled r' = rd_blocks_filled r \<and> rd_scanned r' = rd_scanned r"

definition region_added :: "nat \<times> nat \<Rightarrow> addr \<Rightarrow> nat \<Rightarrow> region_data \<Rightarrow> region_data \<Rightarrow> bool" where
  "region_added ob a j r r' \<longleftrightarrow>
     region_frame r r' \<and> live_obj_size r' = live_obj_size r + card (own_words [ob] j) \<and>
     (if spill_words [ob] j = {}
      then partial_obj_size r' = partial_obj_size r \<and> rd_partial_obj_addr r' = rd_partial_obj_addr r
      else partial_obj_size r' = card (spill_words [ob] j) \<and> rd_partial_obj_addr r' = a)"

lemma add_live_obj_ok:
  assumes "live_obj_size r + w < 2 ^ 27"
  shows "\<exists>r'. add_live_obj w r = Inr r' \<and> live_obj_size r' = live_obj_size r + w \<and> region_frame r r' \<and>
    partial_obj_size r' = partial_obj_size r \<and> rd_partial_obj_addr r' = rd_partial_obj_addr r"
proof -
  let ?r' = "r\<lparr>rd_dc_and_los := rd_dc_and_los r + of_nat w\<rparr>"
  have "map_sum id region_abs (add_live_obj w r) = Inr (destination_count r, live_obj_size r + w)"
    using assms by (simp add: add_live_obj_abs abs_add_live_obj_def region_abs_def)
  then have "add_live_obj w r = Inr ?r'" "region_abs ?r' = (destination_count r, live_obj_size r + w)"
    by (auto simp: add_live_obj_def split: if_splits)
  then show ?thesis
    by (simp add: region_abs_def region_frame_def partial_obj_size_def)
qed

lemma set_partial_obj_ok:
  assumes "w < 2 ^ 32"
  shows "partial_obj_size (set_partial_obj w a r) = w" "rd_partial_obj_addr (set_partial_obj w a r) = a"
    "live_obj_size (set_partial_obj w a r) = live_obj_size r" "region_frame r (set_partial_obj w a r)"
proof -
  have "unat (of_nat w :: 32 word) = w"
    using assms by (simp only: unsigned_of_nat) (simp add: take_bit_nat_eq_self)
  then show "partial_obj_size (set_partial_obj w a r) = w"
    by (simp add: set_partial_obj_def set_partial_obj_size_def partial_obj_size_def)
qed (simp_all add: set_partial_obj_def set_partial_obj_size_def live_obj_size_def region_frame_def
    destination_count_def destination_count_raw_def)

lemma region_added_spill:
  assumes "spill_words [ob] j \<noteq> {}" "own_words [ob] j = {}" "card (spill_words [ob] j) = w" "w < 2 ^ 32"
  shows "region_added ob a j r (set_partial_obj w a r)"
  using assms by (simp add: region_added_def set_partial_obj_ok)

lemma region_added_none:
  "own_words [ob] j = {} \<Longrightarrow> spill_words [ob] j = {} \<Longrightarrow> region_added ob a j r r"
  by (simp add: region_added_def region_frame_def)

lemma region_added_own:
  assumes "live_obj_size r + w < 2 ^ 27" "card (own_words [ob] j) = w" "spill_words [ob] j = {}"
  shows "\<exists>r'. add_live_obj w r = Inr r' \<and> region_added ob a j r r'"
  using add_live_obj_ok [OF assms(1)] assms by (auto simp: region_added_def)

lemma obj_ends:
  assumes "pd_wf pd" "0 < n" "k + n \<le> region_count pd * RegionSize"
  shows "pointer_delta (pd_addr pd k) (pd_region_start pd) = k"
    "(k + n + size_t_max1 - 1) mod size_t_max1 = k + n - 1"
    "hw_add (pd_addr pd k) n - HeapWordSize = pd_addr pd (k + n - 1)"
proof -
  have b: "pd_addr pd (k + n) < size_t_max1"
    using assms by (intro pd_addr_bound) auto
  show "pointer_delta (pd_addr pd k) (pd_region_start pd) = k"
    using assms by (intro pointer_delta_hw_add pd_addr_bound) auto
  have "k + n < size_t_max1"
    using b by (simp add: hw_add_def HeapWordSize_def)
  moreover have "k + n + size_t_max1 - 1 = k + n - 1 + size_t_max1"
    using assms(2) by simp
  ultimately show "(k + n + size_t_max1 - 1) mod size_t_max1 = k + n - 1"
    by (simp only: mod_add_self2) (rule mod_less, linarith)
  show "hw_add (pd_addr pd k) n - HeapWordSize = pd_addr pd (k + n - 1)"
    using assms(2) by (cases n) (simp_all add: hw_add_def algebra_simps)
qed

lemma add_obj_unfold:
  assumes "pd_wf pd" "0 < n" "k + n \<le> region_count pd * RegionSize"
  shows "add_obj pd (pd_addr pd k) n =
    (if k div RegionSize = (k + n - 1) div RegionSize then rd_upd pd (k div RegionSize) (add_live_obj n)
     else
       bind_result (region_offset pd (pd_addr pd k)) (\<lambda>beg_ofs.
       bind_result (rd_upd pd (k div RegionSize) (add_live_obj (RegionSize - beg_ofs))) (\<lambda>pd1.
       bind_result (fold_result (\<lambda>region pd1. rd_mod pd1 region (set_partial_obj RegionSize (pd_addr pd k)))
         [k div RegionSize + 1..<(k + n - 1) div RegionSize] pd1) (\<lambda>pd2.
       bind_result (region_offset pd2 (pd_addr pd (k + n - 1))) (\<lambda>end_ofs.
       rd_mod pd2 ((k + n - 1) div RegionSize) (set_partial_obj (end_ofs + 1) (pd_addr pd k)))))))"
  unfolding add_obj_def Let_def obj_ends [OF assms] RegionSize_def [symmetric] ..

lemma add_obj_ok:
  assumes wf: "pd_wf pd" and n: "0 < n" and top: "k + n \<le> region_count pd * RegionSize"
    and room: "live_obj_size (pd_regions pd ! (k div RegionSize)) + card (own_words [(k, n)] (k div RegionSize)) < 2 ^ 27"
  shows "\<exists>rs. add_obj pd (pd_addr pd k) n = Inr (pd\<lparr>pd_regions := rs\<rparr>) \<and> length rs = region_count pd \<and>
    (\<forall>j < region_count pd. region_added (k, n) (pd_addr pd k) j (pd_regions pd ! j) (rs ! j))"
proof -
  let ?b = "k div RegionSize" and ?e = "(k + n - 1) div RegionSize" and ?a = "pd_addr pd k" and ?rs = "pd_regions pd"
  let ?w = "card (own_words [(k, n)] ?b)"
  have e: "?e < region_count pd"
    unfolding div_region_less using n top by linarith
  have be: "?b \<le> ?e"
    using n by (intro div_le_mono) simp
  have own: "own_words [(k, n)] j = {}" if "j \<noteq> ?b" for j
    using that by (simp add: own_single)
  have spill: "spill_words [(k, n)] j = {}" if "\<not> (?b < j \<and> j \<le> ?e)" for j
    unfolding spill_single [OF n] by (rule if_not_P [OF that])
  obtain r0 where r0: "add_live_obj ?w (?rs ! ?b) = Inr r0" "region_added (k, n) ?a ?b (?rs ! ?b) r0"
    using region_added_own [OF room refl, of ?a] spill [of ?b] by auto
  define pd1 where "pd1 = pd\<lparr>pd_regions := ?rs[?b := r0]\<rparr>"
  have upd: "rd_upd pd ?b (add_live_obj ?w) = Inr pd1"
    unfolding pd1_def using e be r0(1) by (intro rd_upd_ok) auto
  show ?thesis
  proof (cases "?b = ?e")
    case True
    then have "?w = n"
      unfolding card_own_single [OF n] by (rule if_P)
    then have "add_obj pd ?a n = Inr pd1"
      using upd unfolding add_obj_unfold [OF wf n top] if_P [OF True] by simp
    moreover have "region_added (k, n) ?a j (?rs ! j) (pd_regions pd1 ! j)" if "j < region_count pd" for j
      using that r0(2) own spill True by (cases "j = ?b") (auto simp: pd1_def intro!: region_added_none)
    ultimately show ?thesis
      by (intro exI [of _ "pd_regions pd1"]) (simp add: pd1_def)
  next
    case False
    then have w: "?w = RegionSize - k mod RegionSize" and lt: "?b < ?e"
      unfolding card_own_single [OF n] using be by simp_all
    define v where "v = (k + n - 1) mod RegionSize + 1"
    define pd2 where "pd2 = pd1\<lparr>pd_regions := upd_range (?b + 1) ?e (set_partial_obj RegionSize ?a) (pd_regions pd1)\<rparr>"
    define rs where "rs = (pd_regions pd2)[?e := set_partial_obj v ?a (pd_regions pd2 ! ?e)]"
    have wf1: "pd_wf pd1" "pd_wf pd2" "region_count pd1 = region_count pd" "region_count pd2 = region_count pd"
      using wf by (simp_all add: pd1_def pd2_def pd_wf_upd)
    have st: "pd_region_start pd1 = pd_region_start pd" "pd_region_start pd2 = pd_region_start pd"
      by (simp_all add: pd1_def pd2_def)
    have ofs: "region_offset pd ?a = Inr (k mod RegionSize)"
        "region_offset pd2 (pd_addr pd (k + n - 1)) = Inr ((k + n - 1) mod RegionSize)"
      using region_offset_ok [OF wf, of k] region_offset_ok [OF wf1(2), of "k + n - 1"] n top
      by (simp_all add: wf1 st)
    have "add_obj pd ?a n = rd_mod pd2 ?e (set_partial_obj v ?a)"
      using upd w fold_rd_mod [of ?e pd1 "set_partial_obj RegionSize ?a" "?b + 1"] e wf1(3) ofs
      unfolding add_obj_unfold [OF wf n top] if_not_P [OF False] by (simp add: pd2_def v_def)
    then have "add_obj pd ?a n = Inr (pd\<lparr>pd_regions := rs\<rparr>)"
      using e by (simp add: rd_mod_ok wf1 rs_def) (simp add: pd1_def pd2_def)
    moreover have "region_added (k, n) ?a j (?rs ! j) (rs ! j)" if j: "j < region_count pd" for j
    proof -
      have sz: "RegionSize < 2 ^ 32" "v < 2 ^ 32"
        using mod_less_divisor [of RegionSize "k + n - 1"] by (simp_all add: v_def RegionSize_def Log2RegionSize_def)
      have "spill_words [(k, n)] j \<noteq> {}" "card (spill_words [(k, n)] j) = (if j = ?e then v else RegionSize)"
          "own_words [(k, n)] j = {}" if "?b < j" "j \<le> ?e"
        using card_spill_single [OF n that] own [of j] that by (auto simp: v_def split: if_splits)
      then show ?thesis
        using j e sz own spill r0(2) lt
        by (cases "?b < j \<and> j \<le> ?e")
           (auto simp: rs_def pd2_def pd1_def nth_upd_range nth_list_update intro!: region_added_spill region_added_none)
    qed
    ultimately show ?thesis
      by (intro exI [of _ rs]) (simp add: rs_def wf1)
  qed
qed

section \<open>Adding all objects\<close>

definition apart :: "nat \<times> nat \<Rightarrow> nat \<times> nat \<Rightarrow> bool" where
  "apart o1 o2 \<longleftrightarrow> fst o1 + snd o1 \<le> fst o2 \<or> fst o2 + snd o2 \<le> fst o1"

text \<open>The objects a list of heap objects adds: no two overlap, none is empty or outside the heap.\<close>

definition objs_in :: "pcdata \<Rightarrow> (nat \<times> nat) list \<Rightarrow> bool" where
  "objs_in pd os \<longleftrightarrow>
     sorted_wrt apart os \<and> (\<forall>(k, n) \<in> set os. 0 < n \<and> k + n \<le> region_count pd * RegionSize)"

definition region_rep :: "(nat \<times> nat) list \<Rightarrow> nat \<Rightarrow> region_data \<Rightarrow> bool" where
  "region_rep os j r \<longleftrightarrow>
     live_obj_size r = card (own_words os j) \<and> partial_obj_size r = card (spill_words os j)"

lemma words_Cons:
  "own_words (ob # os) j = own_words [ob] j \<union> own_words os j"
  "spill_words (ob # os) j = spill_words [ob] j \<union> spill_words os j"
  "live_words (ob # os) = live_words [ob] \<union> live_words os"
  by (auto simp: own_words_def spill_words_def live_words_def)

lemma words_disjoint:
  assumes "sorted_wrt apart (ob # os)"
  shows "live_words [ob] \<inter> live_words os = {}"
  using assms by (force simp: live_words_def apart_def)

lemma own_spill_disjoint: "sorted_wrt apart os \<Longrightarrow> own_words os j \<inter> spill_words os j = {}"
proof (induction os)
  case (Cons ob os)
  have sub: "own_words xs j \<union> spill_words xs j \<subseteq> live_words xs" for xs
    using live_words_region [of xs j] by blast
  have "own_words [ob] j \<inter> spill_words [ob] j = {}"
    by (cases ob) (auto simp: own_words_def spill_words_def)
  then show ?case
    using Cons words_disjoint [of ob os] sub [of "[ob]"] sub [of os] by (auto simp: words_Cons [of ob os])
qed (simp add: own_words_def)

lemma region_rep_data_size:
  assumes "sorted_wrt apart os" "region_rep os j r"
  shows "data_size r = card (live_words os \<inter> region_words j)" "data_size r \<le> RegionSize"
proof -
  show d: "data_size r = card (live_words os \<inter> region_words j)"
    using assms own_spill_disjoint [of os j]
    by (simp add: live_words_region data_size_def region_rep_def card_Un_disjoint)
  have "card (live_words os \<inter> region_words j) \<le> card (region_words j)"
    by (intro card_mono) (auto simp: region_words_def)
  then show "data_size r \<le> RegionSize"
    by (simp add: d card_region_words)
qed

text \<open>Two objects that both enter a region from the left would overlap at its first word.\<close>

lemma spill_first: "w \<in> spill_words os j \<Longrightarrow> j * RegionSize \<in> spill_words os j"
proof -
  assume "w \<in> spill_words os j"
  then obtain k n where o: "(k, n) \<in> set os" "w < k + n" "k div RegionSize < j" "w div RegionSize = j"
    by (auto simp: spill_words_def)
  then have "k < j * RegionSize" "j * RegionSize \<le> w"
    by (simp_all add: div_region_less div_region_eq)
  then have "k \<le> j * RegionSize" "j * RegionSize < k + n" "j * RegionSize div RegionSize = j"
    using o(2) by simp_all
  then show ?thesis
    using o(1,3) unfolding spill_words_def by blast
qed

lemma region_rep_added:
  assumes "sorted_wrt apart (ob # os)" "region_rep os j r" "region_added ob a j r r'"
  shows "region_rep (ob # os) j r'"
proof -
  have dis: "own_words [ob] j \<inter> own_words os j = {}" "spill_words [ob] j \<inter> spill_words os j = {}"
    using words_disjoint [OF assms(1)] live_words_region [of "[ob]" j] live_words_region [of os j] by blast+
  have "spill_words [ob] j = {} \<or> spill_words os j = {}"
    using spill_first [of _ "[ob]" j] spill_first [of _ os j] dis(2) by blast
  then show ?thesis
    using assms(2,3) dis by (auto simp: region_rep_def region_added_def words_Cons [of ob os] card_Un_disjoint split: if_splits)
qed

lemma words_set:
  assumes "set os = set os'"
  shows "own_words os = own_words os'" "spill_words os = spill_words os'" "live_words os = live_words os'"
  using assms by (auto simp: own_words_def spill_words_def live_words_def fun_eq_iff)

lemma region_rep_set: "set os = set os' \<Longrightarrow> region_rep os = region_rep os'"
  by (simp add: region_rep_def fun_eq_iff words_set [of os os'])

lemma apart_sym: "apart x y \<longleftrightarrow> apart y x"
  by (auto simp: apart_def)

lemma sorted_apart_snoc: "sorted_wrt apart (os @ [ob]) \<longleftrightarrow> sorted_wrt apart (ob # os)"
  by (auto simp: sorted_wrt_append apart_sym)

lemma add_objs:
  assumes "pd_wf pd" "objs_in pd os" "\<forall>j < region_count pd. region_rep [] j (pd_regions pd ! j)"
  shows "\<exists>rs. fold_result (\<lambda>(k, n) pd'. add_obj pd' (pd_addr pd k) n) os pd = Inr (pd\<lparr>pd_regions := rs\<rparr>) \<and>
    length rs = region_count pd \<and>
    (\<forall>j < region_count pd. region_rep os j (rs ! j) \<and> region_frame (pd_regions pd ! j) (rs ! j))"
  using assms(2)
proof (induction os rule: rev_induct)
  case Nil
  then show ?case
    using assms(3) by (intro exI [of _ "pd_regions pd"]) (simp add: region_frame_def)
next
  case (snoc ob os)
  obtain k n where ob: "ob = (k, n)" by (cases ob)
  have so: "sorted_wrt apart ((k, n) # os)" and kn: "0 < n" "k + n \<le> region_count pd * RegionSize" and "objs_in pd os"
    using snoc.prems sorted_apart_snoc [of os ob] by (auto simp: objs_in_def ob sorted_wrt_append)
  with snoc.IH obtain rs where rs: "length rs = region_count pd"
      "fold_result (\<lambda>(k, n) pd'. add_obj pd' (pd_addr pd k) n) os pd = Inr (pd\<lparr>pd_regions := rs\<rparr>)"
      "\<And>j. j < region_count pd \<Longrightarrow> region_rep os j (rs ! j) \<and> region_frame (pd_regions pd ! j) (rs ! j)"
    by blast
  let ?pd = "pd\<lparr>pd_regions := rs\<rparr>" and ?b = "k div RegionSize"
  have b: "?b < region_count pd"
    unfolding div_region_less using kn by linarith
  have "live_obj_size (rs ! ?b) + card (own_words [(k, n)] ?b) = card (own_words ((k, n) # os) ?b)"
  proof -
    have "own_words [(k, n)] ?b \<inter> own_words os ?b = {}"
      using words_disjoint [OF so] live_words_region [of "[(k, n)]" ?b] live_words_region [of os ?b] by blast
    then show ?thesis
      using rs(3) [OF b] by (simp add: words_Cons(1) [of "(k, n)" os] card_Un_disjoint region_rep_def)
  qed
  also have "\<dots> \<le> card (region_words ?b)"
    using live_words_region [of "(k, n) # os" ?b] by (intro card_mono) (auto simp: region_words_def)
  finally have room: "live_obj_size (pd_regions ?pd ! ?b) + card (own_words [(k, n)] ?b) < 2 ^ 27"
    by (simp add: card_region_words) (simp add: RegionSize_def Log2RegionSize_def)
  obtain rs' where rs': "length rs' = region_count pd" "add_obj ?pd (pd_addr pd k) n = Inr (pd\<lparr>pd_regions := rs'\<rparr>)"
      "\<And>j. j < region_count pd \<Longrightarrow> region_added (k, n) (pd_addr pd k) j (rs ! j) (rs' ! j)"
    using add_obj_ok [of ?pd n k] room assms(1) kn rs(1) by (auto simp: pd_wf_upd)
  have "region_rep (os @ [ob]) j (rs' ! j) \<and> region_frame (pd_regions pd ! j) (rs' ! j)" if j: "j < region_count pd" for j
    using region_rep_added [OF so, of j "rs ! j"] rs(3) [OF j] rs'(3) [OF j] region_rep_set [of "os @ [ob]" "(k, n) # os"]
    by (auto simp: ob region_added_def region_frame_def)
  then show ?case
    using rs(2) rs'(1,2) by (intro exI [of _ rs']) (simp add: fold_result_append ob)
qed

end
