(* ===== verification/SummaryPlan.thy ===== *)
theory SummaryPlan
  imports SummaryData
begin

text \<open>
  The plan \<open>summarize\<close> makes: where each source region goes, which source
  region feeds the first word of each destination region, and how many other
  regions a source region is copied to.
\<close>

section \<open>The plan\<close>

definition dest_count :: "nat \<Rightarrow> nat \<Rightarrow> nat \<Rightarrow> nat" where
  "dest_count q d w =
     (if q = (d + w - 1) div RegionSize then 0 else 1) + (if d div RegionSize \<noteq> (d + w - 1) div RegionSize then 1 else 0)"

text \<open>The data of region \<open>j\<close> goes to the words from \<open>P j\<close> up to \<open>P (Suc j)\<close>; \<open>feeds P j q\<close>: the first word of \<open>q\<close> is among them.\<close>

definition feeds :: "(nat \<Rightarrow> nat) \<Rightarrow> nat \<Rightarrow> nat \<Rightarrow> bool" where
  "feeds P j q \<longleftrightarrow> P j \<le> q * RegionSize \<and> q * RegionSize < P (Suc j)"

definition same_live_data :: "region_data \<Rightarrow> region_data \<Rightarrow> bool" where
  "same_live_data r r' \<longleftrightarrow>
     live_obj_size r' = live_obj_size r \<and> partial_obj_size r' = partial_obj_size r \<and>
     rd_partial_obj_addr r' = rd_partial_obj_addr r \<and> rd_container r' = rd_container r \<and>
     rd_blocks_filled r' = rd_blocks_filled r \<and> rd_scanned r' = rd_scanned r"

definition planned :: "addr \<Rightarrow> (nat \<Rightarrow> nat) \<Rightarrow> nat \<Rightarrow> nat \<Rightarrow> region_data list \<Rightarrow> region_data list \<Rightarrow> bool" where
  "planned s P i e rs rs' \<longleftrightarrow>
     length rs' = length rs \<and>
     (\<forall>q < length rs.
        same_live_data (rs ! q) (rs' ! q) \<and>
        rd_destination (rs' ! q) = (if i \<le> q \<and> q < e then hw_add s (P q) else rd_destination (rs ! q)) \<and>
        destination_count (rs' ! q) =
          (if i \<le> q \<and> q < e \<and> 0 < data_size (rs ! q) then dest_count q (P q) (data_size (rs ! q))
           else destination_count (rs ! q)) \<and>
        (\<forall>j. i \<le> j \<and> j < e \<and> feeds P j q \<longrightarrow> rd_source_region (rs' ! q) = j) \<and>
        ((\<forall>j. i \<le> j \<and> j < e \<longrightarrow> \<not> feeds P j q) \<longrightarrow> rd_source_region (rs' ! q) = rd_source_region (rs ! q)))"

lemma same_live_data_size: "same_live_data r r' \<Longrightarrow> data_size r' = data_size r"
  by (simp add: same_live_data_def data_size_def)

lemma same_live_data_trans: "same_live_data r r' \<Longrightarrow> same_live_data r' r'' \<Longrightarrow> same_live_data r r''"
  by (simp add: same_live_data_def)

lemma feeds_unique:
  assumes "mono P" "feeds P j q" "feeds P j' q"
  shows "j = j'"
proof (rule ccontr)
  assume "j \<noteq> j'"
  then have "P (Suc j) \<le> P j' \<or> P (Suc j') \<le> P j"
    using assms(1) by (cases "j < j'") (auto simp: mono_def)
  then show False
    using assms(2,3) by (auto simp: feeds_def)
qed

lemma planned_trans:
  assumes "mono P" "planned s P i m rs rs1" "planned s P m e rs1 rs2" "i \<le> m" "m \<le> e"
  shows "planned s P i e rs rs2"
proof -
  have len: "length rs1 = length rs" "length rs2 = length rs"
    using assms(2,3) by (auto simp: planned_def)
  have "same_live_data (rs ! q) (rs2 ! q) \<and>
        rd_destination (rs2 ! q) = (if i \<le> q \<and> q < e then hw_add s (P q) else rd_destination (rs ! q)) \<and>
        destination_count (rs2 ! q) =
          (if i \<le> q \<and> q < e \<and> 0 < data_size (rs ! q) then dest_count q (P q) (data_size (rs ! q))
           else destination_count (rs ! q))" if "q < length rs" for q
    using assms that len same_live_data_size [of "rs ! q" "rs1 ! q"] same_live_data_trans [of "rs ! q" "rs1 ! q" "rs2 ! q"]
    by (simp add: planned_def)
  moreover have "rd_source_region (rs2 ! q) = j" if q: "q < length rs" and j: "i \<le> j" "j < e" "feeds P j q" for q j
  proof (cases "m \<le> j")
    case True
    then show ?thesis
      using assms(3) q j len by (simp add: planned_def)
  next
    case False
    then have "\<not> feeds P j' q" if "m \<le> j'" for j'
      using feeds_unique [OF assms(1) j(3), of j'] that by auto
    then have "rd_source_region (rs2 ! q) = rd_source_region (rs1 ! q)"
      using assms(3) q len by (simp add: planned_def)
    then show ?thesis
      using assms(2) q j False by (simp add: planned_def)
  qed
  moreover have "rd_source_region (rs2 ! q) = rd_source_region (rs ! q)"
    if "q < length rs" "\<forall>j. i \<le> j \<and> j < e \<longrightarrow> \<not> feeds P j q" for q
    using assms that len by (simp add: planned_def)
  ultimately show ?thesis
    unfolding planned_def using len by blast
qed

section \<open>One region\<close>

lemma set_destination_count_ok:
  assumes "c \<le> 12"
  shows "\<exists>r'. set_destination_count c r = Inr r' \<and> destination_count r' = c \<and> same_live_data r r' \<and>
    rd_destination r' = rd_destination r \<and> rd_source_region r' = rd_source_region r"
proof -
  let ?r' = "r\<lparr>rd_dc_and_los := push_bit dc_shift (of_nat c) OR of_nat (live_obj_size r)\<rparr>"
  have "map_sum id region_abs (set_destination_count c r) = Inr (c, live_obj_size r)"
    using assms by (simp add: set_destination_count_abs abs_set_destination_count_def region_abs_def)
  then have "set_destination_count c r = Inr ?r'" "region_abs ?r' = (c, live_obj_size r)"
    by (auto simp: set_destination_count_def split: if_splits)
  then show ?thesis
    by (simp add: region_abs_def same_live_data_def partial_obj_size_def)
qed

lemma region_ceiling:
  "d \<le> q * RegionSize \<longleftrightarrow> (if d mod RegionSize = 0 then d div RegionSize \<le> q else d div RegionSize < q)"
proof (cases "d mod RegionSize = 0")
  case True
  then have "d = d div RegionSize * RegionSize"
    using div_mult_mod_eq [of d RegionSize] by linarith
  then obtain x where "d = x * RegionSize" ..
  then show ?thesis
    by simp
next
  case False
  then have "d \<noteq> q * RegionSize"
    by auto
  then show ?thesis
    using False by (simp add: div_region_less le_less)
qed

lemma region_next:
  assumes "0 < w" "w \<le> RegionSize"
  shows "(d + w - 1) div RegionSize \<le> Suc (d div RegionSize)"
    "d mod RegionSize = 0 \<Longrightarrow> (d + w - 1) div RegionSize = d div RegionSize"
proof -
  have d: "d = d div RegionSize * RegionSize + d mod RegionSize" "d mod RegionSize < RegionSize"
    by simp_all
  have "d + w - 1 < Suc (Suc (d div RegionSize)) * RegionSize"
    using d assms unfolding mult_Suc by linarith
  then show "(d + w - 1) div RegionSize \<le> Suc (d div RegionSize)"
    unfolding div_region_less [symmetric] by simp
  assume "d mod RegionSize = 0"
  then have "d div RegionSize * RegionSize \<le> d + w - 1" "d + w - 1 < Suc (d div RegionSize) * RegionSize"
    using d(1) assms unfolding mult_Suc by linarith+
  then show "(d + w - 1) div RegionSize = d div RegionSize"
    by (simp only: div_region_eq)
qed

lemma dest_count_le: "dest_count q d w \<le> 2"
  by (simp add: dest_count_def)

lemma feeds_regions:
  assumes "0 < w" "w \<le> RegionSize" "P j = d" "P (Suc j) = d + w"
  shows "feeds P j q \<longleftrightarrow>
    (if d div RegionSize \<noteq> (d + w - 1) div RegionSize then q = (d + w - 1) div RegionSize
     else d mod RegionSize = 0 \<and> q = d div RegionSize)"
proof -
  let ?x = "d div RegionSize" and ?y = "(d + w - 1) div RegionSize"
  have "q * RegionSize < d + w \<longleftrightarrow> q * RegionSize \<le> d + w - 1"
    using assms(1) by linarith
  then have f: "feeds P j q \<longleftrightarrow> d \<le> q * RegionSize \<and> q \<le> ?y"
    unfolding feeds_def assms(3,4) le_div_region by simp
  have "?x \<le> ?y"
    using assms(1) by (intro div_le_mono) simp
  then show ?thesis
    using f region_ceiling [of d q] region_next [OF assms(1,2), of d] by (auto split: if_splits)
qed

lemma summarize_region_ok:
  assumes wf: "pd_wf pd" and i: "i < region_count pd" and w: "0 < w" "w \<le> RegionSize"
    and top: "d + w \<le> region_count pd * RegionSize" and P: "P i = d" "P (Suc i) = d + w"
    and si: "\<not> is_split si i" and r: "pd_regions pd ! i = (rs ! i)\<lparr>rd_destination := pd_addr pd d\<rparr>"
    and rs: "pd_regions pd = rs[i := pd_regions pd ! i]" "data_size (rs ! i) = w"
  shows "\<exists>rs'. summarize_region pd si i (pd_addr pd d) w = Inr (pd\<lparr>pd_regions := rs'\<rparr>) \<and>
    planned (pd_region_start pd) P i (Suc i) rs rs'"
proof -
  let ?d1 = "d div RegionSize" and ?d2 = "(d + w - 1) div RegionSize"
  define t where "t = (if ?d1 \<noteq> ?d2 then ?d2 else ?d1)"
  define f where "f \<longleftrightarrow> ?d1 \<noteq> ?d2 \<or> d mod RegionSize = 0"
  define src where "src r = r\<lparr>rd_source_region := i\<rparr>" for r :: region_data
  define rs1 where "rs1 = (if f then (pd_regions pd)[t := src (pd_regions pd ! t)] else pd_regions pd)"
  have len: "length rs = region_count pd" "length rs1 = region_count pd"
    using rs(1) by (metis length_list_update length_regions) (simp add: rs1_def)
  have d2: "?d2 < region_count pd" and d1: "?d1 \<le> ?d2"
    using w(1) top unfolding div_region_less by (linarith, intro div_le_mono, linarith)
  have fd: "feeds P i q \<longleftrightarrow> f \<and> q = t" for q
    using feeds_regions [OF w P] by (auto simp: f_def t_def)
  obtain r' where r': "set_destination_count (dest_count i d w) (rs1 ! i) = Inr r'"
      "destination_count r' = dest_count i d w" "same_live_data (rs1 ! i) r'"
      "rd_destination r' = rd_destination (rs1 ! i)" "rd_source_region r' = rd_source_region (rs1 ! i)"
    using set_destination_count_ok [of "dest_count i d w" "rs1 ! i"] dest_count_le [of i d w] by force
  have last: "hw_add (pd_addr pd d) w - HeapWordSize = pd_addr pd (d + w - 1)"
    by (rule obj_ends(3) [OF wf w(1) top])
  have adr: "addr_to_region_idx pd (pd_addr pd d) = Inr ?d1" "region_offset pd (pd_addr pd d) = Inr (d mod RegionSize)"
      "addr_to_region_idx pd (pd_addr pd (d + w - 1)) = Inr ?d2"
    using wf top w(1) by (simp_all add: pd_addr_simps)
  have "summarize_region pd si i (pd_addr pd d) w = rd_upd (pd\<lparr>pd_regions := rs1\<rparr>) i (set_destination_count (dest_count i d w))"
    unfolding summarize_region_def split_count_def Let_def last if_not_P [OF si] sum.case prod.case adr
    using d2 d1 by (simp add: rd_mod_ok rs1_def t_def f_def src_def dest_count_def)
  then have "summarize_region pd si i (pd_addr pd d) w = Inr (pd\<lparr>pd_regions := rs1[i := r']\<rparr>)"
    using rd_upd_ok [of i "pd\<lparr>pd_regions := rs1\<rparr>"] r'(1) i len(2) by simp
  moreover have "planned (pd_region_start pd) P i (Suc i) rs (rs1[i := r'])"
    unfolding planned_def
  proof (intro conjI allI impI)
    fix q assume q: "q < length rs"
    have nth: "pd_regions pd ! q = (if q = i then (rs ! i)\<lparr>rd_destination := pd_addr pd d\<rparr> else rs ! q)"
      using rs(1) r q i len by (metis nth_list_update_eq nth_list_update_neq)
    have nth1: "rs1 ! q = (if f \<and> q = t then src (pd_regions pd ! q) else pd_regions pd ! q)"
      using q len by (auto simp: rs1_def nth_list_update)
    have sd: "same_live_data (rs ! q) (rs1 ! q)"
      unfolding nth1 nth by (simp add: src_def same_live_data_def live_obj_size_def partial_obj_size_def)
    note defs = nth_list_update len q [unfolded len] i
    show "same_live_data (rs ! q) (rs1[i := r'] ! q)"
      using sd same_live_data_trans [OF sd, of r'] r'(3) by (auto simp: defs)
    show "rd_destination (rs1[i := r'] ! q) =
        (if i \<le> q \<and> q < Suc i then hw_add (pd_region_start pd) (P q) else rd_destination (rs ! q))"
      using r'(4) nth nth1 P(1) by (auto simp: defs src_def)
    show "destination_count (rs1[i := r'] ! q) =
        (if i \<le> q \<and> q < Suc i \<and> 0 < data_size (rs ! q) then dest_count q (P q) (data_size (rs ! q))
         else destination_count (rs ! q))"
      using r'(2) nth nth1 P(1) rs(2) w(1)
      by (auto simp: defs src_def destination_count_def destination_count_raw_def)
    show "rd_source_region (rs1[i := r'] ! q) = j" if "i \<le> j \<and> j < Suc i \<and> feeds P j q" for j
      using that fd [of q] r'(5) nth1 by (auto simp: defs src_def le_less_Suc_eq)
    show "rd_source_region (rs1[i := r'] ! q) = rd_source_region (rs ! q)"
      if "\<forall>j. i \<le> j \<and> j < Suc i \<longrightarrow> \<not> feeds P j q"
      using that fd [of q] r'(5) nth nth1 by (auto simp: defs src_def)
  qed (simp add: len)
  ultimately show ?thesis by blast
qed

section \<open>All regions\<close>

lemma planned_refl: "planned s P e e rs rs"
  by (auto simp: planned_def same_live_data_def)

lemma planned_empty:
  assumes "i < length rs" "data_size (rs ! i) = 0" "P (Suc i) = P i"
  shows "planned s P i (Suc i) rs (rs[i := (rs ! i)\<lparr>rd_destination := hw_add s (P i)\<rparr>])"
  using assms
  by (auto simp: planned_def same_live_data_def nth_list_update live_obj_size_def partial_obj_size_def
      destination_count_def destination_count_raw_def feeds_def le_less_Suc_eq)

lemma planned_data: "planned s P i e rs rs' \<Longrightarrow> j < length rs \<Longrightarrow> data_size (rs' ! j) = data_size (rs ! j)"
  by (auto simp: planned_def intro: same_live_data_size)

lemma summarize_step:
  assumes wf: "pd_wf pd" and i: "i < region_count pd" and P: "mono P" "P (Suc i) \<le> te" "te \<le> region_count pd * RegionSize"
    and si: "\<not> is_split si i"
    and w: "data_size (pd_regions pd ! i) = P (Suc i) - P i" "data_size (pd_regions pd ! i) \<le> RegionSize"
  shows "\<exists>rs. planned (pd_region_start pd) P i (Suc i) (pd_regions pd) rs \<and>
    summarize_loop hn (pd_addr pd te) (i # rest) pd si (pd_addr pd (P i)) =
    summarize_loop hn (pd_addr pd te) rest (pd\<lparr>pd_regions := rs\<rparr>) si (pd_addr pd (P (Suc i)))"
proof -
  let ?rs = "(pd_regions pd)[i := (pd_regions pd ! i)\<lparr>rd_destination := pd_addr pd (P i)\<rparr>]"
  let ?pd = "pd\<lparr>pd_regions := ?rs\<rparr>"
  have mod1: "rd_mod pd i (\<lambda>r. r\<lparr>rd_destination := pd_addr pd (P i)\<rparr>) = Inr ?pd"
    by (rule rd_mod_ok [OF i])
  have get: "rd_get ?pd i = Inr (?rs ! i)"
    using rd_get_ok [of i ?pd] i by simp
  have ds: "data_size (?rs ! i) = data_size (pd_regions pd ! i)"
    using i by (simp add: data_size_def live_obj_size_def partial_obj_size_def)
  have le: "P i \<le> P (Suc i)"
    using P(1) by (simp add: mono_def)
  show ?thesis
  proof (cases "data_size (pd_regions pd ! i) = 0")
    case True
    then have "P (Suc i) = P i"
      using w(1) le by simp
    then show ?thesis
      using planned_empty [of i "pd_regions pd" P] i True mod1 get ds by (intro exI [of _ ?rs]) simp
  next
    case False
    then have e: "P (Suc i) = P i + data_size (pd_regions pd ! i)"
      using w(1) by simp
    obtain rs' where "summarize_region ?pd si i (pd_addr pd (P i)) (data_size (pd_regions pd ! i)) =
          Inr (pd\<lparr>pd_regions := rs'\<rparr>)" "planned (pd_region_start pd) P i (Suc i) (pd_regions pd) rs'"
      using summarize_region_ok [of ?pd i "data_size (pd_regions pd ! i)" "P i" P si "pd_regions pd"]
        pd_wf_upd [OF wf] i False w(2) P(2,3) e si by auto
    moreover have "\<not> hw_add (pd_addr pd (P i)) (data_size (pd_regions pd ! i)) > pd_addr pd te"
      using P(2) e by simp
    ultimately show ?thesis
      using mod1 get ds False e by (intro exI [of _ rs']) (simp add: Let_def)
  qed
qed

lemma summarize_loop_ok:
  assumes "pd_wf pd" "i \<le> e" "e \<le> region_count pd" "mono P" "P e \<le> te" "te \<le> region_count pd * RegionSize"
    "\<And>j. i \<le> j \<Longrightarrow> j < e \<Longrightarrow> \<not> is_split si j \<and> data_size (pd_regions pd ! j) = P (Suc j) - P j \<and>
       data_size (pd_regions pd ! j) \<le> RegionSize"
  shows "\<exists>rs. planned (pd_region_start pd) P i e (pd_regions pd) rs \<and>
    summarize_loop hn (pd_addr pd te) [i..<e] pd si (pd_addr pd (P i)) =
    Inr (pd\<lparr>pd_regions := rs\<rparr>, si, None, pd_addr pd (P e), True)"
  using assms(2,1,3,6,7)
proof (induction arbitrary: pd rule: inc_induct)
  case base
  then show ?case
    by (intro exI [of _ "pd_regions pd"]) (simp add: planned_refl)
next
  case (step n)
  have "P (Suc n) \<le> P e"
    using assms(4) step.hyps(2) by (simp add: mono_def)
  then have te: "P (Suc n) \<le> te"
    using assms(5) by simp
  obtain rs where rs: "planned (pd_region_start pd) P n (Suc n) (pd_regions pd) rs"
      "summarize_loop hn (pd_addr pd te) (n # [Suc n..<e]) pd si (pd_addr pd (P n)) =
       summarize_loop hn (pd_addr pd te) [Suc n..<e] (pd\<lparr>pd_regions := rs\<rparr>) si (pd_addr pd (P (Suc n)))"
    using summarize_step [OF step.prems(1) _ assms(4) te step.prems(3), where si = si and hn = hn and rest = "[Suc n..<e]"]
      step.prems(2,4) step.hyps(2) by (metis (no_types) less_le_trans order_refl)
  have len: "length rs = region_count pd"
    using rs(1) by (simp add: planned_def)
  let ?pd = "pd\<lparr>pd_regions := rs\<rparr>"
  have "\<exists>rs'. planned (pd_region_start ?pd) P (Suc n) e (pd_regions ?pd) rs' \<and>
      summarize_loop hn (pd_addr ?pd te) [Suc n..<e] ?pd si (pd_addr ?pd (P (Suc n))) =
      Inr (?pd\<lparr>pd_regions := rs'\<rparr>, si, None, pd_addr ?pd (P e), True)"
  proof (rule step.IH)
    show "\<not> is_split si j \<and> data_size (pd_regions ?pd ! j) = P (Suc j) - P j \<and> data_size (pd_regions ?pd ! j) \<le> RegionSize"
      if "Suc n \<le> j" "j < e" for j
      using step.prems(2) step.prems(4) [of j] that planned_data [OF rs(1), of j] by simp
  qed (use step.prems len in \<open>auto simp: pd_wf_upd\<close>)
  then obtain rs' where "planned (pd_region_start pd) P (Suc n) e rs rs'"
      "summarize_loop hn (pd_addr pd te) [Suc n..<e] ?pd si (pd_addr pd (P (Suc n))) =
       Inr (pd\<lparr>pd_regions := rs'\<rparr>, si, None, pd_addr pd (P e), True)"
    by auto
  then show ?case
    using rs planned_trans [OF assms(4) rs(1), of e rs'] step.hyps(2) upt_conv_Cons [of n e]
    by (intro exI [of _ rs']) (simp del: summarize_loop.simps)
qed

section \<open>The plan of a set of objects\<close>

text \<open>The live words between two region boundaries.\<close>

definition live_between :: "(nat \<times> nat) list \<Rightarrow> nat \<Rightarrow> nat \<Rightarrow> nat" where
  "live_between os a c = card (live_words os \<inter> {a..<c})"

lemma live_between_mono: "c \<le> c' \<Longrightarrow> live_between os a c \<le> live_between os a c'"
  by (auto simp: live_between_def intro!: card_mono)

lemma live_between_split: "a \<le> m \<Longrightarrow> m \<le> c \<Longrightarrow> live_between os a c = live_between os a m + live_between os m c"
  unfolding live_between_def
  by (subst card_Un_disjoint [symmetric]) (auto intro!: arg_cong [of _ _ card])

lemma live_between_le: "live_between os a c \<le> c - a"
  using card_mono [of "{a..<c}" "live_words os \<inter> {a..<c}"] by (simp add: live_between_def)

lemma live_between_region: "live_between os (j * RegionSize) (Suc j * RegionSize) = card (live_words os \<inter> region_words j)"
  by (simp add: live_between_def region_words_def)

definition plan_of :: "(nat \<times> nat) list \<Rightarrow> nat \<Rightarrow> nat \<Rightarrow> nat \<Rightarrow> nat" where
  "plan_of os b t j = t + live_between os (b * RegionSize) (j * RegionSize)"

lemma plan_of_mono: "mono (plan_of os b t)"
  by (intro monoI) (simp add: plan_of_def live_between_mono)

lemma plan_of_Suc:
  "b \<le> j \<Longrightarrow> plan_of os b t (Suc j) = plan_of os b t j + card (live_words os \<inter> region_words j)"
  using live_between_split [of "b * RegionSize" "j * RegionSize" "Suc j * RegionSize" os]
    live_between_region [of os j] by (simp add: plan_of_def)

lemma dest_count_card:
  assumes "0 < w" "w \<le> RegionSize" "d \<le> q * RegionSize"
  shows "dest_count q d w = card ({d div RegionSize..(d + w - 1) div RegionSize} - {q})"
proof -
  let ?x = "d div RegionSize" and ?y = "(d + w - 1) div RegionSize"
  have "d + w - 1 < Suc q * RegionSize"
    using assms unfolding mult_Suc by linarith
  then have y: "?y \<le> q"
    unfolding div_region_less [symmetric] by simp
  have "?x \<le> ?y"
    using assms(1) by (intro div_le_mono) simp
  then consider "?y = ?x" | "?y = Suc ?x"
    using region_next(1) [OF assms(1,2), of d] by linarith
  then show ?thesis
  proof cases
    case 1
    then show ?thesis
      by (cases "q = ?x") (simp_all only: dest_count_def, simp_all)
  next
    case 2
    then have "{?x..?y} = {?x, ?y}" "?x \<noteq> ?y"
      by auto
    then show ?thesis
      using 2 y by (cases "q = ?y") (simp_all only: dest_count_def, auto)
  qed
qed

lemma region_rep_planned:
  "planned s P i e rs rs' \<Longrightarrow> j < length rs \<Longrightarrow> region_rep os j (rs ! j) \<Longrightarrow> region_rep os j (rs' ! j)"
  by (simp add: planned_def same_live_data_def region_rep_def)

section \<open>The properties\<close>

definition add_all :: "pcdata \<Rightarrow> (nat \<times> nat) list \<Rightarrow> pcdata result" where
  "add_all pd os = fold_result (\<lambda>(k, n) pd'. add_obj pd' (pd_addr pd k) n) os (pd_clear pd)"

lemma region_rep_zero: "region_rep [] j rd_zero"
  by (simp add: region_rep_def live_obj_size_nat partial_obj_size_def rd_zero_def own_words_def spill_words_def)

lemma pd_clear_wf: "pd_wf pd \<Longrightarrow> pd_wf (pd_clear pd)" "region_count (pd_clear pd) = region_count pd"
  "pd_region_start (pd_clear pd) = pd_region_start pd"
  by (simp_all add: pd_wf_def pd_clear_def region_count_def block_count_def del: length_regions)

lemma add_all_ok:
  assumes "pd_wf pd" "objs_in pd os"
  shows "\<exists>rs. add_all pd os = Inr ((pd_clear pd)\<lparr>pd_regions := rs\<rparr>) \<and> length rs = region_count pd \<and>
    (\<forall>j < region_count pd. region_rep os j (rs ! j) \<and> destination_count (rs ! j) = 0 \<and> \<not> rd_blocks_filled (rs ! j))"
proof -
  have "pd_regions (pd_clear pd) ! j = rd_zero" if "j < region_count pd" for j
    using that by (simp add: pd_clear_def)
  moreover have "destination_count rd_zero = 0" "\<not> rd_blocks_filled rd_zero"
    by (simp_all add: destination_count_nat rd_zero_def)
  ultimately show ?thesis
    using add_objs [OF pd_clear_wf(1) [OF assms(1)], of os] assms(2)
    by (simp add: add_all_def objs_in_def pd_clear_wf region_rep_zero region_frame_def) metis
qed

definition sample_pd :: pcdata where
  "sample_pd = new_pcdata\<lparr>pd_region_start := 2 ^ 19, pd_region_end := 2 ^ 19 + 2 ^ 20,
     pd_regions := [rd_zero, rd_zero], pd_blocks := replicate 1024 0\<rparr>"

definition sample_objs :: "(nat \<times> nat) list" where
  "sample_objs = [(10, 5), (65530, 20)]"

lemma sample_pd_ok: "pd_wf sample_pd" "objs_in sample_pd sample_objs" "region_count sample_pd = 2"
  by (simp_all add: sample_pd_def sample_objs_def pd_wf_def objs_in_def apart_def region_count_def block_count_def
      region_sizes hw_add_def HeapWordSize_def size_t_max1_def del: length_regions)

text \<open>
  C39: Starting from cleared tables, adding the live objects of the heap in any
  order never fails and leaves in every region exactly the number of live words it
  holds: \<open>data_size\<close> counts all of them, \<open>partial_obj_size\<close> those of
  the object that enters the region from the left, however many regions an object
  spans.
\<close>

theorem add_obj_counts_live_words:
  assumes "pd_wf pd" "objs_in pd os"
  shows "\<exists>pd'. add_all pd os = Inr pd' \<and> region_count pd' = region_count pd \<and>
    (\<forall>j < region_count pd.
       data_size (pd_regions pd' ! j) = card (live_words os \<inter> region_words j) \<and>
       partial_obj_size (pd_regions pd' ! j) = card (spill_words os j) \<and> available (pd_regions pd' ! j))"
proof -
  have "sorted_wrt apart os"
    using assms(2) by (simp add: objs_in_def)
  then show ?thesis
    using add_all_ok [OF assms] region_rep_data_size(1) [of os]
    by (fastforce simp: available_nat region_rep_def)
qed

theorem add_obj_counts_live_words_witness:
  "\<exists>pd'. add_all sample_pd sample_objs = Inr pd' \<and>
    data_size (pd_regions pd' ! 1) = card (live_words sample_objs \<inter> region_words 1)"
  using add_obj_counts_live_words [OF sample_pd_ok(1,2)] by (auto simp: sample_pd_ok(3))

lemma summarize_planned:
  assumes wf: "pd_wf pd" and src: "b * RegionSize \<le> se" "se \<le> region_count pd * RegionSize"
    and e: "e = (se + RegionSize - 1) div RegionSize"
    and fits: "plan_of os b t e \<le> te" "te \<le> region_count pd * RegionSize" and si: "\<not> si_is_valid si"
    and ds: "\<And>j. b \<le> j \<Longrightarrow> j < e \<Longrightarrow> data_size (pd_regions pd ! j) = plan_of os b t (Suc j) - plan_of os b t j \<and>
      data_size (pd_regions pd ! j) \<le> RegionSize"
  shows "b \<le> e" "e \<le> region_count pd" "\<exists>rs. planned (pd_region_start pd) (plan_of os b t) b e (pd_regions pd) rs \<and>
    summarize hn pd si (pd_addr pd (b * RegionSize)) (pd_addr pd se) (pd_addr pd t) (pd_addr pd te) =
    Inr (pd\<lparr>pd_regions := rs\<rparr>, si, None, pd_addr pd (plan_of os b t e), True)"
proof -
  let ?P = "plan_of os b t" and ?R = RegionSize
  have "se + ?R - 1 < Suc (region_count pd) * ?R"
    using src(2) RegionSize_pos(1) unfolding mult_Suc by linarith
  then show e_le: "e \<le> region_count pd"
    unfolding e div_region_less [symmetric] by simp
  show be: "b \<le> e"
    unfolding e le_div_region using src(1) RegionSize_pos(1) by linarith
  have "\<not> is_split si j" for j
    using si by (simp add: is_split_def)
  then obtain rs where pl: "planned (pd_region_start pd) ?P b e (pd_regions pd) rs" and
    loop: "summarize_loop hn (pd_addr pd te) [b..<e] pd si (pd_addr pd (?P b)) =
      Inr (pd\<lparr>pd_regions := rs\<rparr>, si, None, pd_addr pd (?P e), True)"
    using summarize_loop_ok [OF wf be e_le plan_of_mono fits, of si hn] ds by blast
  have "b * ?R \<le> region_count pd * ?R" "e * ?R \<le> region_count pd * ?R"
    using be e_le by simp_all
  then have "addr_to_region_idx pd (pd_addr pd (b * ?R)) = Inr b" "addr_to_region_idx pd (pd_addr pd (e * ?R)) = Inr e"
    using addr_to_region_idx_ok [OF wf] by simp_all
  moreover have "region_align_up pd (pd_addr pd se) = Inr (pd_addr pd (e * ?R))"
    unfolding e by (rule region_align_up_ok [OF wf src(2)])
  moreover have "?P b = t"
    by (simp add: plan_of_def live_between_def)
  ultimately show "\<exists>rs. planned (pd_region_start pd) ?P b e (pd_regions pd) rs \<and>
      summarize hn pd si (pd_addr pd (b * ?R)) (pd_addr pd se) (pd_addr pd t) (pd_addr pd te) =
      Inr (pd\<lparr>pd_regions := rs\<rparr>, si, None, pd_addr pd (?P e), True)"
    using loop pl by (intro exI [of _ rs]) (simp add: summarize_def)
qed

lemma planned_dest_count:
  assumes pl: "planned s (plan_of os b t) b e rs rs'" and j: "b \<le> j" "j < e" "e \<le> length rs" and t: "t \<le> b * RegionSize"
    and w: "0 < data_size (rs ! j)" "data_size (rs ! j) \<le> RegionSize"
    and ds: "data_size (rs ! j) = plan_of os b t (Suc j) - plan_of os b t j"
  shows "destination_count (rs' ! j) =
    card ({plan_of os b t j div RegionSize..(plan_of os b t (Suc j) - 1) div RegionSize} - {j})"
proof -
  let ?P = "plan_of os b t" and ?R = RegionSize
  have "b * ?R \<le> j * ?R"
    using j(1) by simp
  then have "?P j \<le> j * ?R"
    unfolding plan_of_def using t live_between_le [of os "b * ?R" "j * ?R"] by linarith
  then have "dest_count j (?P j) (data_size (rs ! j)) =
      card ({?P j div ?R..(?P j + data_size (rs ! j) - 1) div ?R} - {j})"
    by (rule dest_count_card [OF w])
  moreover have "?P j + data_size (rs ! j) = ?P (Suc j)"
    using ds w(1) by simp
  ultimately show ?thesis
    using pl j w(1) by (simp add: planned_def)
qed

text \<open>
  C14: \<open>summarize\<close> plans the sliding of a space.  When the live words of the
  source fit the target, it returns true with \<open>*target_next\<close> just behind them,
  and gives every source region the address after the live words of all regions
  before it.  The first word of a destination region is recorded as coming from
  the one region that supplies it, a region's counts stay what they were, and if
  the data moves to the left the destination count is the number of other regions
  its data is copied to.
\<close>

theorem summarize_slides:
  assumes wf: "pd_wf pd" and os: "sorted_wrt apart os" "\<forall>j < region_count pd. region_rep os j (pd_regions pd ! j)"
    and src: "b * RegionSize \<le> se" "se \<le> region_count pd * RegionSize"
    and e: "e = (se + RegionSize - 1) div RegionSize"
    and fits: "plan_of os b t e \<le> te" "te \<le> region_count pd * RegionSize" and si: "\<not> si_is_valid si"
  shows "\<exists>pd'. summarize hn pd si (pd_addr pd (b * RegionSize)) (pd_addr pd se) (pd_addr pd t) (pd_addr pd te) =
      Inr (pd', si, None, pd_addr pd (plan_of os b t e), True) \<and>
    (\<forall>j < region_count pd. region_rep os j (pd_regions pd' ! j)) \<and>
    (\<forall>j. b \<le> j \<and> j < e \<longrightarrow>
       rd_destination (pd_regions pd' ! j) = pd_addr pd (plan_of os b t j) \<and>
       (0 < data_size (pd_regions pd ! j) \<and> t \<le> b * RegionSize \<longrightarrow>
          destination_count (pd_regions pd' ! j) =
          card ({plan_of os b t j div RegionSize..(plan_of os b t (Suc j) - 1) div RegionSize} - {j}))) \<and>
    (\<forall>j q. b \<le> j \<and> j < e \<and> q < region_count pd \<and> feeds (plan_of os b t) j q \<longrightarrow>
       rd_source_region (pd_regions pd' ! q) = j)"
proof -
  let ?P = "plan_of os b t" and ?R = RegionSize
  have e_le: "j < region_count pd" if "j < e" for j
  proof -
    have "se + ?R - 1 < Suc (region_count pd) * ?R"
      using src(2) RegionSize_pos(1) unfolding mult_Suc by linarith
    then have "e \<le> region_count pd"
      unfolding e div_region_less [symmetric] by simp
    with that show ?thesis by simp
  qed
  have ds: "data_size (pd_regions pd ! j) = ?P (Suc j) - ?P j \<and> data_size (pd_regions pd ! j) \<le> ?R"
    if "b \<le> j" "j < e" for j
    using region_rep_data_size [OF os(1), of j "pd_regions pd ! j"] os(2) that e_le [of j] plan_of_Suc [of b j os t]
    by auto
  note sp = summarize_planned [OF wf src e fits si ds]
  obtain rs where pl: "planned (pd_region_start pd) ?P b e (pd_regions pd) rs" and
    sm: "summarize hn pd si (pd_addr pd (b * ?R)) (pd_addr pd se) (pd_addr pd t) (pd_addr pd te) =
      Inr (pd\<lparr>pd_regions := rs\<rparr>, si, None, pd_addr pd (?P e), True)"
    using sp(3) by blast
  have "destination_count (rs ! j) = card ({?P j div ?R..(?P (Suc j) - 1) div ?R} - {j})"
    if "b \<le> j" "j < e" "0 < data_size (pd_regions pd ! j)" "t \<le> b * ?R" for j
    using planned_dest_count [OF pl] that ds [of j] sp(2) by simp
  moreover have "rd_destination (rs ! j) = pd_addr pd (?P j)" if "b \<le> j" "j < e" for j
    using pl that e_le [of j] by (simp add: planned_def)
  moreover have "rd_source_region (rs ! q) = j" if "b \<le> j" "j < e" "q < region_count pd" "feeds ?P j q" for j q
    using pl that by (simp add: planned_def)
  ultimately show ?thesis
    using sm os(2) region_rep_planned [OF pl, of _ os] by (intro exI [of _ "pd\<lparr>pd_regions := rs\<rparr>"]) simp
qed

lemma sample_live: "live_words sample_objs = {10..<15} \<union> {65530..<65550}"
proof -
  have "live_words sample_objs = live_words [(10, 5)] \<union> live_words [(65530, 20)]"
    unfolding sample_objs_def by (rule words_Cons(3))
  then show ?thesis
    by (auto simp: live_words_def)
qed

lemma sample_plan: "plan_of sample_objs 0 0 2 = 25"
proof -
  have "live_words sample_objs \<inter> {0..<131072} = {10..<15} \<union> {65530..<65550}"
    by (auto simp: sample_live)
  then have "card (live_words sample_objs \<inter> {0..<131072}) = 25"
    by (simp add: card_Un_disjoint)
  then show ?thesis
    by (simp add: plan_of_def live_between_def RegionSize_def Log2RegionSize_def)
qed

theorem summarize_slides_witness:
  "\<exists>pd pd'. add_all sample_pd sample_objs = Inr pd \<and>
    summarize False pd si_clear (2 ^ 19) (2 ^ 19 + 8 * 65550) (2 ^ 19) (2 ^ 19 + 8 * 100) =
      Inr (pd', si_clear, None, 2 ^ 19 + 8 * 25, True)"
proof -
  have so: "sorted_wrt apart sample_objs"
    using sample_pd_ok(2) by (simp add: objs_in_def)
  obtain rs where rs: "add_all sample_pd sample_objs = Inr ((pd_clear sample_pd)\<lparr>pd_regions := rs\<rparr>)" "length rs = 2"
      "\<forall>j < 2. region_rep sample_objs j (rs ! j)"
    using add_all_ok [OF sample_pd_ok(1,2)] by (auto simp: sample_pd_ok(3))
  let ?pd = "(pd_clear sample_pd)\<lparr>pd_regions := rs\<rparr>"
  have wf: "pd_wf ?pd" "region_count ?pd = 2" "pd_region_start ?pd = 2 ^ 19"
    using pd_clear_wf [of sample_pd] sample_pd_ok rs(2) by (simp_all add: pd_wf_upd) (simp add: sample_pd_def)
  have R: "RegionSize = 65536"
    by (simp add: RegionSize_def Log2RegionSize_def)
  have rep: "\<forall>j < region_count ?pd. region_rep sample_objs j (pd_regions ?pd ! j)"
    using rs(3) wf(2) by simp
  have "0 * RegionSize \<le> 65550" "65550 \<le> region_count ?pd * RegionSize" "2 = (65550 + RegionSize - 1) div RegionSize"
      "plan_of sample_objs 0 0 2 \<le> 100" "100 \<le> region_count ?pd * RegionSize" "\<not> si_is_valid si_clear"
    unfolding wf(2) sample_plan R by (simp_all add: si_is_valid_def si_clear_def)
  from summarize_slides [OF wf(1) so rep this, of False] have
    "\<exists>pd'. summarize False ?pd si_clear (pd_addr ?pd (0 * RegionSize)) (pd_addr ?pd 65550) (pd_addr ?pd 0) (pd_addr ?pd 100) =
      Inr (pd', si_clear, None, pd_addr ?pd 25, True)"
    unfolding sample_plan by (rule ex_forward) (elim conjE)
  moreover have "pd_addr ?pd (0 * RegionSize) = 2 ^ 19" "pd_addr ?pd 65550 = 2 ^ 19 + 8 * 65550" "pd_addr ?pd 0 = 2 ^ 19"
      "pd_addr ?pd 100 = 2 ^ 19 + 8 * 100" "pd_addr ?pd 25 = 2 ^ 19 + 8 * 25"
    unfolding wf(3) by (simp_all add: hw_add_def HeapWordSize_def)
  ultimately show ?thesis
    using rs(1) by simp
qed

end
