(* ===== verification/Compaction.thy ===== *)
theory Compaction
  imports ParMarkObjects SummaryPlan
begin

text \<open>
  The address of a live object after compaction, \<open>calc_new_pointer\<close> with the
  block table behind it, and the search for the first word that goes to a
  destination region, from \<open>psParallelCompact.cpp\<close>.
\<close>

section \<open>The block table\<close>

definition Log2BitsPerBlock :: nat where
  "Log2BitsPerBlock = Log2BlockSize - LogMinObjAlignment"

text \<open>The loop of \<open>fill_blocks\<close>.\<close>

function fill_blocks_loop :: "pm_bitmap \<Rightarrow> idx_t \<Rightarrow> pcdata \<Rightarrow> size_t \<Rightarrow> idx_t \<Rightarrow> idx_t \<Rightarrow> pcdata result" where
  "fill_blocks_loop pm range_end pd cur_block live_bits beg_bit =
     (if beg_bit < range_end then
        (let new_block = beg_bit div 2 ^ Log2BitsPerBlock
         in case (if new_block \<noteq> cur_block then set_blk_offset pd new_block (bits_to_words live_bits) else Inr pd) of
              Inl f \<Rightarrow> Inl f
            | Inr pd1 \<Rightarrow>
                (case find_obj_end pm beg_bit range_end of
                   Inl f \<Rightarrow> Inl f
                 | Inr end_bit \<Rightarrow>
                     if end_bit < range_end - 1 then
                       (case find_obj_beg pm (end_bit + 1) range_end of
                          Inl f \<Rightarrow> Inl f
                        | Inr b \<Rightarrow> fill_blocks_loop pm range_end pd1 new_block (live_bits + (end_bit - beg_bit + 1)) b)
                     else Inr pd1))
      else Inr pd)"
  by pat_completeness auto
termination
  by (relation "measure (\<lambda>(pm, range_end, pd, cur_block, live_bits, beg_bit). range_end - beg_bit)")
     (auto simp: find_obj_end_def find_obj_beg_def dest!: next_mark_bounds)

declare fill_blocks_loop.simps [simp del]

definition fill_blocks :: "pm_bitmap \<Rightarrow> pcdata \<Rightarrow> size_t \<Rightarrow> pcdata result" where
  "fill_blocks pm pd region_idx =
     bind_result (rd_get pd region_idx) (\<lambda>r.
       if partial_obj_size r \<ge> RegionSize then Inr pd
       else if 2 ^ Log2BitsPerBlock \<noteq> words_to_bits BlockSize then Inl (AssertFailed ''sanity'')
       else
         (let beg_bit = words_to_bits (region_idx * 2 ^ Log2RegionSize);
              range_end = beg_bit + words_to_bits RegionSize;
              live_bits = words_to_bits (partial_obj_size r)
          in bind_result (find_obj_beg pm (beg_bit + live_bits) range_end)
               (fill_blocks_loop pm range_end pd (block_count pd) live_bits)))"

section \<open>New addresses\<close>

text \<open>The spaces of the collector: \<open>is_in\<close> of the heap and the number of the space of an address.\<close>

record gc_spaces =
  gc_is_in :: "addr \<Rightarrow> bool"
  gc_space_id :: "addr \<Rightarrow> nat"

definition check_new_location :: "gc_spaces \<Rightarrow> addr \<Rightarrow> addr \<Rightarrow> bool" where
  "check_new_location gc old_addr new_addr \<longleftrightarrow>
     (old_addr \<ge> new_addr \<or> gc_space_id gc old_addr \<noteq> gc_space_id gc new_addr) \<and>
     old_addr mod HeapWordSize = 0 \<and> new_addr mod HeapWordSize = 0"

definition calc_new_pointer :: "gc_spaces \<Rightarrow> pm_bitmap \<Rightarrow> pcdata \<Rightarrow> addr \<Rightarrow> (pcdata \<times> addr) result" where
  "calc_new_pointer gc pm pd a =
     (if a = NULL then Inl (AssertFailed ''Should detect NULL oop earlier'')
      else if \<not> gc_is_in gc a then Inl (AssertFailed ''not in heap'')
      else
        bind_result (is_marked pm a) (\<lambda>marked.
          if \<not> marked then Inl (AssertFailed ''not marked'')
          else
            bind_result (addr_to_region_idx pd a) (\<lambda>region_idx.
            bind_result (rd_get pd region_idx) (\<lambda>r.
              if data_size r = RegionSize then
                bind_result (region_offset pd a) (\<lambda>ofs. Inr (pd, hw_add (rd_destination r) ofs))
              else
                bind_result
                  (if \<not> rd_blocks_filled r then
                     bind_result (fill_blocks pm pd region_idx)
                       (\<lambda>pd1. rd_mod pd1 region_idx (\<lambda>r. r\<lparr>rd_blocks_filled := True\<rparr>))
                   else Inr pd) (\<lambda>pd1.
                bind_result (block_align_down pd1 a) (\<lambda>search_start.
                bind_result (addr_to_block_idx pd1 a) (\<lambda>b.
                bind_result (blk_offset pd1 b) (\<lambda>block_ofs.
                bind_result (live_words_in_range pm search_start a) (\<lambda>live.
                let result = hw_add (rd_destination r) (block_ofs + live)
                in if check_new_location gc a result then Inr (pd1, result)
                   else Inl (AssertFailed ''must move left or to a different space''))))))))))"

section \<open>The first source word of a destination region\<close>

text \<open>\<open>skip_live_words\<close>: every round passes an object, and the range ends.\<close>

function skip_loop :: "pm_bitmap \<Rightarrow> idx_t \<Rightarrow> idx_t \<Rightarrow> idx_t \<Rightarrow> (idx_t + idx_t) result" where
  "skip_loop pm search_end bits_to_skip cur_beg =
     (case find_obj_beg pm cur_beg search_end of
        Inl f \<Rightarrow> Inl f
      | Inr b \<Rightarrow>
          (case find_obj_end pm b search_end of
             Inl f \<Rightarrow> Inl f
           | Inr e \<Rightarrow>
               (let obj_bits = e - b + 1
                in if obj_bits > bits_to_skip then Inr (Inl (b + bits_to_skip))
                   else if bits_to_skip - obj_bits > 0 then skip_loop pm search_end (bits_to_skip - obj_bits) (e + 1)
                   else Inr (Inr (e + 1)))))"
  by pat_completeness auto
termination
  by (relation "measure (\<lambda>(pm, search_end, bits_to_skip, cur_beg). bits_to_skip)") auto

declare skip_loop.simps [simp del]

definition skip_live_words :: "pm_bitmap \<Rightarrow> addr \<Rightarrow> addr \<Rightarrow> size_t \<Rightarrow> addr result" where
  "skip_live_words pm b e count =
     (if count > 0 then
        bind_result (addr_to_bit pm b) (\<lambda>cur_beg.
        bind_result (addr_to_bit pm e) (\<lambda>end_bit.
        let search_end = word_align_up end_bit
        in bind_result (skip_loop pm search_end (words_to_bits count) cur_beg) (\<lambda>r.
             case r of
               Inl i \<Rightarrow> bit_to_addr pm i
             | Inr cur \<Rightarrow>
                 bind_result (find_obj_beg pm cur search_end) (\<lambda>cur_beg.
                   if cur_beg < end_bit then bit_to_addr pm cur_beg
                   else Inl (AssertFailed ''not enough live words to skip'')))))
      else Inl (AssertFailed ''sanity''))"

definition first_live :: "pm_bitmap \<Rightarrow> addr \<Rightarrow> addr \<Rightarrow> addr result" where
  "first_live pm a src_region_end =
     bind_result (find_obj_beg_addr pm a src_region_end) (\<lambda>a'.
       if a' < src_region_end then Inr a' else Inl (AssertFailed ''no objects start in src region''))"

definition first_src_addr :: "pm_bitmap \<Rightarrow> pcdata \<Rightarrow> split_info \<Rightarrow> addr \<Rightarrow> size_t \<Rightarrow> addr result" where
  "first_src_addr pm sd si dest_addr src_region_idx =
     bind_result (is_region_aligned sd dest_addr) (\<lambda>al.
       if \<not> al then Inl (AssertFailed ''not aligned'')
       else if si_dest_region_addr si = dest_addr then Inr (si_first_src_addr si)
       else
         bind_result (rd_get sd src_region_idx) (\<lambda>r.
         let po_size = partial_obj_size r;
             dest = rd_destination r
         in if \<not> dest_addr \<ge> dest then Inl (AssertFailed ''wrong src region'')
            else if \<not> data_size r > 0 then Inl (AssertFailed ''src region cannot be empty'')
            else
              bind_result (region_to_addr sd src_region_idx) (\<lambda>src_region_beg.
              let src_region_end = hw_add src_region_beg RegionSize;
                  words_to_skip = pointer_delta dest_addr dest
              in if dest_addr = dest then
                   (if po_size = 0 then first_live pm src_region_beg src_region_end else Inr src_region_beg)
                 else if \<not> data_size r > words_to_skip then Inl (AssertFailed ''wrong src region'')
                 else if po_size \<ge> words_to_skip then
                   (if po_size = words_to_skip
                    then first_live pm (hw_add src_region_beg words_to_skip) src_region_end
                    else Inr (hw_add src_region_beg words_to_skip))
                 else
                   bind_result (skip_live_words pm (hw_add src_region_beg po_size) src_region_end
                     (words_to_skip - po_size)) (\<lambda>a.
                   if a < src_region_end then Inr a else Inl (AssertFailed ''wrong src region'')))))"

section \<open>Bit map and summary of the same objects\<close>

definition compact_rep :: "pm_bitmap \<Rightarrow> pcdata \<Rightarrow> mobj list \<Rightarrow> bool" where
  "compact_rep pm pd os \<longleftrightarrow>
     pm_rep pm os \<and> pd_wf pd \<and> pm_region_start pm = pd_region_start pd \<and> pm_size pm = region_count pd * RegionSize \<and>
     (\<forall>j < region_count pd. region_rep os j (pd_regions pd ! j))"

lemma objs_sorted_apart: "sorted_wrt obj_before os \<Longrightarrow> sorted_wrt apart os"
  by (rule sorted_wrt_mono_rel) (auto simp: obj_before_def apart_def)

lemma compact_rep_sorted: "compact_rep pm pd os \<Longrightarrow> sorted_wrt obj_before os" "compact_rep pm pd os \<Longrightarrow> sorted_wrt apart os"
  by (auto simp: compact_rep_def pm_rep_def pm_objs_ok_def objs_sorted_apart)

text \<open>The live words from one object start to another are those of the objects that begin there.\<close>

lemma live_between_objs:
  assumes "sorted_wrt obj_before os" "\<forall>(b, n) \<in> set os. 0 < n" "\<forall>(b, n) \<in> set os. b < l \<longrightarrow> b + n \<le> l"
    "\<forall>(b, n) \<in> set os. b < c \<longrightarrow> b + n \<le> c"
  shows "live_between os l c = sum_list (map snd (filter (\<lambda>(b, n). l \<le> b \<and> b < c) os))"
  using assms
proof (induction os)
  case Nil
  then show ?case by (simp add: live_between_def live_words_def)
next
  case (Cons ob os)
  obtain b n where ob: "ob = (b, n)" by (cases ob)
  have "live_words [ob] \<inter> live_words os = {}"
    using words_disjoint objs_sorted_apart [OF Cons.prems(1)] by blast
  then have "live_between (ob # os) l c = live_between [ob] l c + live_between os l c"
    by (auto simp: live_between_def words_Cons(3) [of ob os] Int_Un_distrib2 intro!: card_Un_disjoint)
  moreover have "live_words [ob] \<inter> {l..<c} = (if l \<le> b \<and> b < c then {b..<b + n} else {})"
    using Cons.prems(2-4) by (auto simp: ob live_words_def)
  then have "live_between [ob] l c = (if l \<le> b \<and> b < c then n else 0)"
    by (simp add: live_between_def)
  ultimately show ?case
    using Cons by (simp add: ob)
qed

lemma objs_no_cross:
  assumes "compact_rep pm pd os" "(k, m) \<in> set os" "(b, n) \<in> set os" "b < k"
  shows "b + n \<le> k"
proof (rule ccontr)
  assume "\<not> b + n \<le> k"
  then have "k = b"
    using objs_unique [of pm os b n k m] assms by (auto simp: compact_rep_def pm_rep_def)
  with assms(4) show False by simp
qed

lemma objs_around:
  assumes "sorted_wrt obj_before (pre @ (b, n) # rest)" "\<forall>(b, n) \<in> set (pre @ (b, n) # rest). 0 < n"
  shows "(k, m) \<in> set pre \<Longrightarrow> k + m \<le> b \<and> k < b" "(k, m) \<in> set rest \<Longrightarrow> b + n \<le> k \<and> b < k"
proof -
  show "k + m \<le> b \<and> k < b" if "(k, m) \<in> set pre"
  proof -
    have "obj_before (k, m) (b, n)"
      using assms(1) that by (simp add: sorted_wrt_append)
    moreover have "0 < m"
      using assms(2) that by auto
    ultimately show ?thesis
      by (simp add: obj_before_def)
  qed
  show "b + n \<le> k \<and> b < k" if "(k, m) \<in> set rest"
  proof -
    have "obj_before (b, n) (k, m)"
      using assms(1) that by (simp add: sorted_wrt_append)
    moreover have "0 < n"
      using assms(2) by auto
    ultimately show ?thesis
      by (simp add: obj_before_def)
  qed
qed

section \<open>Filling the block table\<close>

definition block_first :: "mobj list \<Rightarrow> nat \<Rightarrow> bool" where
  "block_first os k \<longleftrightarrow> (\<forall>(b, n) \<in> set os. b div BlockSize = k div BlockSize \<longrightarrow> k \<le> b)"

lemma block_firstD: "block_first os k \<Longrightarrow> (b, n) \<in> set os \<Longrightarrow> b div BlockSize = k div BlockSize \<Longrightarrow> k \<le> b"
  by (auto simp: block_first_def)

text \<open>An entry holds the live words of the region to the left of the first object of the block.\<close>

definition entries_ok :: "mobj list \<Rightarrow> mobj list \<Rightarrow> nat \<Rightarrow> 16 word list \<Rightarrow> bool" where
  "entries_ok os obs j bs \<longleftrightarrow>
     (\<forall>(k, n) \<in> set obs. k div RegionSize = j \<and> block_first os k \<longrightarrow>
        unat (bs ! (k div BlockSize)) = live_between os (j * RegionSize) k)"

lemma region_of_block: "k div BlockSize div BlocksPerRegion = k div RegionSize"
  by (simp add: div_mult2_eq [symmetric] region_sizes)

lemma live_between_object:
  assumes rep: "compact_rep pm pd os" and o: "os = pre @ (b, n) # rest" and c: "b + n \<le> c" "\<forall>ob \<in> set rest. c \<le> fst ob"
    and a: "a \<le> b"
  shows "live_between os a c = live_between os a b + n"
proof -
  have ok: "sorted_wrt obj_before os" "\<forall>(b, n) \<in> set os. 0 < n"
    using rep by (auto simp: compact_rep_def pm_rep_def pm_objs_ok_def)
  have "live_words os \<inter> {b..<c} = {b..<b + n}"
  proof (intro equalityI subsetI)
    fix w assume "w \<in> live_words os \<inter> {b..<c}"
    then obtain k m where km: "(k, m) \<in> set os" "k \<le> w" "w < k + m" "b \<le> w" "w < c"
      by (auto simp: live_words_def)
    then have "(k, m) \<notin> set rest"
      using c(2) by auto
    moreover have "(k, m) \<notin> set pre"
      using ok(1) km(3,4) by (auto simp: o sorted_wrt_append obj_before_def)
    ultimately show "w \<in> {b..<b + n}"
      using km by (simp add: o)
  qed (use c in \<open>auto simp: live_words_def o\<close>)
  then have "live_between os b c = n"
    by (simp add: live_between_def)
  then show ?thesis
    using live_between_split [OF a, of c os] c(1) by simp
qed

lemma set_block_entry:
  assumes wf: "pd_wf pd" and j: "j < region_count pd" "k div RegionSize = j" and bs: "length bs = block_count pd"
    and v: "v = live_between os (j * RegionSize) k"
  shows "set_blk_offset (pd\<lparr>pd_blocks := bs\<rparr>) (k div BlockSize) v = Inr (pd\<lparr>pd_blocks := bs[k div BlockSize := of_nat v]\<rparr>)"
    "unat (of_nat v :: 16 word) = live_between os (j * RegionSize) k" "k div BlockSize < length bs"
proof -
  have "k div BlockSize div BlocksPerRegion < region_count pd"
    using j by (simp only: region_of_block)
  then show lt: "k div BlockSize < length bs"
    using wf bs by (simp add: pd_wf_def div_less_iff_less_mult region_sizes)
  show "set_blk_offset (pd\<lparr>pd_blocks := bs\<rparr>) (k div BlockSize) v = Inr (pd\<lparr>pd_blocks := bs[k div BlockSize := of_nat v]\<rparr>)"
    using lt by (simp add: set_blk_offset_def block_count_def)
  have "v \<le> k - j * RegionSize" "k < Suc j * RegionSize"
    using live_between_le [of os "j * RegionSize" k] j(2) by (simp_all add: v div_region_eq)
  then have "v < 2 ^ 16"
    by (simp add: RegionSize_def Log2RegionSize_def)
  then show "unat (of_nat v :: 16 word) = live_between os (j * RegionSize) k"
    unfolding v by (simp only: unsigned_of_nat) (simp add: take_bit_nat_eq_self)
qed

text \<open>The state of the loop in front of the objects \<open>rest\<close>.\<close>

definition fill_inv :: "mobj list \<Rightarrow> nat \<Rightarrow> mobj list \<Rightarrow> mobj list \<Rightarrow> 16 word list \<Rightarrow> nat \<Rightarrow> nat \<Rightarrow> bool" where
  "fill_inv os j pre rest bs cb lb \<longleftrightarrow>
     os = pre @ rest \<and> entries_ok os pre j bs \<and>
     (\<forall>b n rest'. rest = (b, n) # rest' \<and> b < Suc j * RegionSize \<longrightarrow>
        b div RegionSize = j \<and> lb = live_between os (j * RegionSize) b \<and> (cb = b div BlockSize \<longleftrightarrow> \<not> block_first os b))"

lemma entries_ok_step:
  assumes inv: "fill_inv os j pre ((b, n) # rest) bs cb lb" and b: "b < Suc j * RegionSize"
    and bs': "bs' = (if b div BlockSize \<noteq> cb then bs[b div BlockSize := w] else bs)" "b div BlockSize < length bs"
      "unat w = live_between os (j * RegionSize) b" and srt: "sorted_wrt obj_before os" "\<forall>(b, n) \<in> set os. 0 < n"
  shows "entries_ok os (pre @ [(b, n)]) j bs'"
proof -
  have o: "os = pre @ (b, n) # rest" and e: "entries_ok os pre j bs" and bf: "cb = b div BlockSize \<longleftrightarrow> \<not> block_first os b"
    using inv b by (auto simp: fill_inv_def)
  have "k < b" if "(k, m) \<in> set pre" for k m
    using objs_around(1) [OF srt [unfolded o] that] by simp
  then have "b div BlockSize \<noteq> k div BlockSize" if "(k, m) \<in> set pre" "block_first os b" for k m
    using block_firstD [OF that(2), of k m] that(1) by (fastforce simp: o)
  then show ?thesis
    using e bs' bf by (auto simp: entries_ok_def nth_list_update)
qed

lemma block_first_next:
  assumes "os = pre @ (b, n) # (b', n') # rest'" "sorted_wrt obj_before os" "\<forall>(b, n) \<in> set os. 0 < n"
  shows "b div BlockSize = b' div BlockSize \<longleftrightarrow> \<not> block_first os b'"
proof
  note around = objs_around [OF assms(2,3) [unfolded assms(1)]]
  have lt: "b < b'"
    using around(2) [of b' n'] by simp
  show "b div BlockSize = b' div BlockSize \<Longrightarrow> \<not> block_first os b'"
    using lt assms(1) by (auto simp: block_first_def)
  assume "\<not> block_first os b'"
  then obtain k m where k: "(k, m) \<in> set os" "k div BlockSize = b' div BlockSize" "k < b'"
    unfolding block_first_def by fastforce
  have "k \<le> b"
    using k(1,3) around(1) [of k m] objs_around(2) [of "pre @ [(b, n)]" b' n' rest' k m] assms by auto
  then have "k div BlockSize \<le> b div BlockSize" "b div BlockSize \<le> b' div BlockSize"
    using lt by (simp_all add: div_le_mono)
  then show "b div BlockSize = b' div BlockSize"
    using k(2) by simp
qed

lemma fill_inv_step:
  assumes rep: "compact_rep pm pd os" and inv: "fill_inv os j pre ((b, n) # rest) bs cb lb" and b: "b < Suc j * RegionSize"
    and e: "entries_ok os (pre @ [(b, n)]) j bs'"
  shows "fill_inv os j (pre @ [(b, n)]) rest bs' (b div BlockSize) (lb + n)"
proof -
  have o: "os = pre @ (b, n) # rest" and bj: "b div RegionSize = j" "lb = live_between os (j * RegionSize) b"
    using inv b by (auto simp: fill_inv_def)
  have srt: "sorted_wrt obj_before os" "\<forall>(b, n) \<in> set os. 0 < n"
    using rep by (auto simp: compact_rep_def pm_rep_def pm_objs_ok_def)
  have "b' div RegionSize = j \<and> lb + n = live_between os (j * RegionSize) b' \<and>
      (b div BlockSize = b' div BlockSize \<longleftrightarrow> \<not> block_first os b')"
    if r: "rest = (b', n') # rest'" and lt: "b' < Suc j * RegionSize" for b' n' rest'
  proof -
    have bb: "b + n \<le> b'" "\<forall>ob \<in> set rest. b' \<le> fst ob" "j * RegionSize \<le> b"
      using srt bj(1) by (auto simp: o r sorted_wrt_append obj_before_def div_region_eq)
    then have "b' div RegionSize = j"
      using lt unfolding div_region_eq by linarith
    then show ?thesis
      using live_between_object [OF rep o bb] bj(2) block_first_next [of os pre b n b' n' rest'] srt by (simp add: o r)
  qed
  then show ?thesis
    using e by (simp add: fill_inv_def o)
qed

lemma entries_ok_end:
  assumes "entries_ok os pre j bs" "\<forall>ob \<in> set rest. Suc j * RegionSize \<le> fst ob"
  shows "entries_ok os (pre @ rest) j bs"
proof -
  have "k div RegionSize \<noteq> j" if "(k, m) \<in> set rest" for k m
  proof -
    have "Suc j * RegionSize \<le> k"
      using assms(2) that by fastforce
    then show ?thesis
      by (simp add: div_region_eq del: mult_Suc)
  qed
  then show ?thesis
    using assms(1) unfolding entries_ok_def set_append by blast
qed

definition fill_result :: "pcdata \<Rightarrow> mobj list \<Rightarrow> nat \<Rightarrow> 16 word list \<Rightarrow> pcdata result \<Rightarrow> bool" where
  "fill_result pd os j bs r \<longleftrightarrow>
     (\<exists>bs'. r = Inr (pd\<lparr>pd_blocks := bs'\<rparr>) \<and> length bs' = length bs \<and> entries_ok os os j bs' \<and>
        (\<forall>i. i div BlocksPerRegion \<noteq> j \<longrightarrow> bs' ! i = bs ! i))"

lemma fill_result_done:
  assumes "fill_inv os j pre rest bs cb lb" "\<forall>ob \<in> set rest. Suc j * RegionSize \<le> fst ob"
  shows "fill_result pd os j bs (Inr (pd\<lparr>pd_blocks := bs\<rparr>))"
  using entries_ok_end [of os pre j bs rest] assms by (auto simp: fill_result_def fill_inv_def)

lemma fill_result_trans:
  assumes "fill_result pd os j bs1 r" "length bs1 = length bs" "\<forall>i. i div BlocksPerRegion \<noteq> j \<longrightarrow> bs1 ! i = bs ! i"
  shows "fill_result pd os j bs r"
  using assms unfolding fill_result_def by metis

lemma region_end_64: "Suc j * RegionSize mod 64 = 0"
  by (simp add: RegionSize_def Log2RegionSize_def)

lemma fill_blocks_round:
  assumes rep: "compact_rep pm pd os" and j: "j < region_count pd" and bs: "length bs = block_count pd"
    and inv: "fill_inv os j pre ((b, n) # rest) bs cb lb" and b: "b < Suc j * RegionSize"
  shows "\<exists>bs1. length bs1 = length bs \<and> (\<forall>i. i div BlocksPerRegion \<noteq> j \<longrightarrow> bs1 ! i = bs ! i) \<and>
    fill_inv os j (pre @ [(b, n)]) rest bs1 (b div BlockSize) (lb + n) \<and>
    fill_blocks_loop pm (Suc j * RegionSize) (pd\<lparr>pd_blocks := bs\<rparr>) cb lb b =
      (if b + n < Suc j * RegionSize
       then fill_blocks_loop pm (Suc j * RegionSize) (pd\<lparr>pd_blocks := bs1\<rparr>) (b div BlockSize) (lb + n)
         (first_beg rest (Suc j * RegionSize))
       else Inr (pd\<lparr>pd_blocks := bs1\<rparr>))"
proof -
  let ?E = "Suc j * RegionSize" and ?B = "b div BlockSize"
  have o: "os = pre @ (b, n) # rest" and bj: "b div RegionSize = j" "lb = live_between os (j * RegionSize) b"
    using inv b by (simp_all add: fill_inv_def)
  have srt: "sorted_wrt obj_before os" "\<forall>(b, n) \<in> set os. 0 < n" and wf: "pd_wf pd" and pr: "pm_rep pm os"
    using rep by (auto simp: compact_rep_def pm_rep_def pm_objs_ok_def)
  have E: "?E \<le> pm_size pm"
    using rep mult_le_mono1 [of "Suc j" "region_count pd" RegionSize] j by (simp add: compact_rep_def)
  have n: "0 < n"
    using srt(2) by (simp add: o)
  define bs1 where "bs1 = (if ?B \<noteq> cb then bs[?B := of_nat lb] else bs)"
  note entry = set_block_entry [OF wf j bj(1) bs bj(2)]
  have "entries_ok os (pre @ [(b, n)]) j bs1"
    by (rule entries_ok_step [OF inv b bs1_def entry(3,2) srt])
  then have step: "fill_inv os j (pre @ [(b, n)]) rest bs1 ?B (lb + n)"
    by (rule fill_inv_step [OF rep inv b])
  have set1: "(if ?B \<noteq> cb then set_blk_offset (pd\<lparr>pd_blocks := bs\<rparr>) ?B (bits_to_words lb) else Inr (pd\<lparr>pd_blocks := bs\<rparr>)) =
      Inr (pd\<lparr>pd_blocks := bs1\<rparr>)"
    using entry(1) by (simp add: bs1_def bits_to_words_def LogMinObjAlignment_def)
  have e1: "find_obj_end pm b ?E = Inr (min (b + n - 1) ?E)"
    using find_obj_end_first [OF pr, of b n ?E] E b region_end_64 [of j] by (simp add: o del: mult_Suc)
  have blk: "b div 2 ^ Log2BitsPerBlock = ?B"
    by (simp add: Log2BitsPerBlock_def BlockSize_def LogMinObjAlignment_def)
  have "fill_blocks_loop pm ?E (pd\<lparr>pd_blocks := bs\<rparr>) cb lb b =
      (if b + n < ?E then fill_blocks_loop pm ?E (pd\<lparr>pd_blocks := bs1\<rparr>) ?B (lb + n) (first_beg rest ?E)
       else Inr (pd\<lparr>pd_blocks := bs1\<rparr>))"
  proof (cases "b + n < ?E")
    case True
    then have "min (b + n - 1) ?E = b + n - 1" "b + n - 1 < ?E - 1" "b + n - 1 + 1 = b + n" "b + n - 1 - b + 1 = n"
      using n by linarith+
    moreover have "find_obj_beg pm (b + n) ?E = Inr (first_beg rest ?E)"
      using find_obj_beg_first [OF pr, of "b + n" ?E] True E region_end_64 [of j] objs_from_after(1) [of pm pre b n rest] pr
      by (simp add: o pm_rep_def del: mult_Suc)
    ultimately show ?thesis
      using True b e1 by (subst fill_blocks_loop.simps) (simp only: Let_def blk set1 sum.case if_True)
  next
    case False
    then have "\<not> min (b + n - 1) ?E < ?E - 1"
      using b by linarith
    then show ?thesis
      using False b e1 by (subst fill_blocks_loop.simps) (simp only: Let_def blk set1 sum.case if_True if_False)
  qed
  moreover have "bs1 ! i = bs ! i" if "i div BlocksPerRegion \<noteq> j" for i
  proof -
    have "?B \<noteq> i"
      using that region_of_block [of b] bj(1) by auto
    then show ?thesis
      by (simp add: bs1_def)
  qed
  ultimately show ?thesis
    using step by (intro exI [of _ bs1]) (simp add: bs1_def)
qed

lemma fill_blocks_loop_ok:
  assumes rep: "compact_rep pm pd os" and j: "j < region_count pd" and bs: "length bs = block_count pd"
    and inv: "fill_inv os j pre rest bs cb lb"
  shows "fill_result pd os j bs
    (fill_blocks_loop pm (Suc j * RegionSize) (pd\<lparr>pd_blocks := bs\<rparr>) cb lb (first_beg rest (Suc j * RegionSize)))"
  using bs inv
proof (induction rest arbitrary: pre bs cb lb)
  case Nil
  then show ?case
    using fill_result_done [of os j pre "[]" bs cb lb pd] by (subst fill_blocks_loop.simps) (simp add: first_beg_def)
next
  case (Cons ob rest)
  obtain b n where ob: "ob = (b, n)" by (cases ob)
  let ?E = "Suc j * RegionSize"
  have inv: "fill_inv os j pre ((b, n) # rest) bs cb lb"
    using Cons.prems(2) unfolding ob .
  then have o: "os = pre @ (b, n) # rest"
    by (simp add: fill_inv_def)
  have srt: "sorted_wrt obj_before os" "\<forall>(b, n) \<in> set os. 0 < n"
    using rep by (auto simp: compact_rep_def pm_rep_def pm_objs_ok_def)
  note around = objs_around [OF srt [unfolded o]]
  show ?case
  proof (cases "b < ?E")
    case False
    have "?E \<le> fst x" if "x \<in> set rest" for x
      using around(2) [of "fst x" "snd x"] that False by simp
    then have "fill_result pd os j bs (Inr (pd\<lparr>pd_blocks := bs\<rparr>))"
      using fill_result_done [OF inv, of pd] False by simp
    moreover have "first_beg (ob # rest) ?E = ?E"
      using False by (simp add: first_beg_def ob del: mult_Suc)
    ultimately show ?thesis
      by (subst fill_blocks_loop.simps) (simp del: mult_Suc)
  next
    case True
    obtain bs1 where bs1: "length bs1 = length bs" "\<forall>i. i div BlocksPerRegion \<noteq> j \<longrightarrow> bs1 ! i = bs ! i"
        "fill_inv os j (pre @ [(b, n)]) rest bs1 (b div BlockSize) (lb + n)"
        "fill_blocks_loop pm ?E (pd\<lparr>pd_blocks := bs\<rparr>) cb lb b =
          (if b + n < ?E then fill_blocks_loop pm ?E (pd\<lparr>pd_blocks := bs1\<rparr>) (b div BlockSize) (lb + n) (first_beg rest ?E)
           else Inr (pd\<lparr>pd_blocks := bs1\<rparr>))"
      using fill_blocks_round [OF rep j Cons.prems(1) inv True] by blast
    have "fill_result pd os j bs1 (fill_blocks_loop pm ?E (pd\<lparr>pd_blocks := bs\<rparr>) cb lb b)"
    proof (cases "b + n < ?E")
      case True
      then show ?thesis
        unfolding bs1(4) if_P [OF True] using Cons.IH [OF _ bs1(3)] Cons.prems(1) bs1(1) by simp
    next
      case False
      have "\<forall>x \<in> set rest. ?E \<le> fst x"
        using around(2) False by fastforce
      then show ?thesis
        unfolding bs1(4) if_not_P [OF False] by (rule fill_result_done [OF bs1(3)])
    qed
    moreover have "first_beg (ob # rest) ?E = b"
      using True by (simp add: first_beg_def ob del: mult_Suc)
    ultimately show ?thesis
      using fill_result_trans [OF _ bs1(1,2)] by simp
  qed
qed

text \<open>The part of a region an object from the left occupies is a prefix, and no object begins in it.\<close>

lemma apart_unique: "sorted_wrt apart os \<Longrightarrow> x \<in> set os \<Longrightarrow> y \<in> set os \<Longrightarrow> \<not> apart x y \<Longrightarrow> x = y"
  by (induction os) (auto simp: apart_sym)

lemma spill_prefix:
  assumes "sorted_wrt apart os"
  shows "spill_words os j = {j * RegionSize..<j * RegionSize + card (spill_words os j)}"
proof (cases "spill_words os j = {}")
  case False
  then have "j * RegionSize \<in> spill_words os j"
    using spill_first [of _ os j] by blast
  then obtain k n where o: "(k, n) \<in> set os" "k \<le> j * RegionSize" "j * RegionSize < k + n" "k div RegionSize < j"
    unfolding spill_words_def by blast
  then have n: "0 < n" by simp
  have "spill_words os j = spill_words [(k, n)] j"
  proof (intro equalityI subsetI)
    fix w assume w: "w \<in> spill_words os j"
    then obtain k' n' where o': "(k', n') \<in> set os" "k' \<le> w" "w < k' + n'" "k' div RegionSize < j" "w div RegionSize = j"
      by (auto simp: spill_words_def)
    have "j * RegionSize \<le> w" "k' < j * RegionSize"
      using o'(4,5) by (auto simp: div_region_less)
    then have "\<not> apart (k, n) (k', n')"
      using o(2,3) o'(3) by (auto simp: apart_def)
    then have "(k', n') = (k, n)"
      using apart_unique [OF assms o(1) o'(1)] by auto
    then show "w \<in> spill_words [(k, n)] j"
      using o' by (auto simp: spill_words_def)
  qed (use o(1) in \<open>auto simp: spill_words_def\<close>)
  moreover have "k div RegionSize < j \<and> j \<le> (k + n - 1) div RegionSize"
    using o(3,4) unfolding le_div_region by linarith
  then have "spill_words [(k, n)] j = {j * RegionSize..<min (k + n) (Suc j * RegionSize)}"
    unfolding spill_single [OF n] by (rule if_P)
  ultimately show ?thesis
    using o(3) by simp
qed simp

lemma in_spill:
  assumes "compact_rep pm pd os"
  shows "w \<in> spill_words os j \<longleftrightarrow> j * RegionSize \<le> w \<and> w < j * RegionSize + card (spill_words os j)"
  using spill_prefix [OF compact_rep_sorted(2) [OF assms], of j] by (metis atLeastLessThan_iff)

lemma no_start_in_spill:
  assumes rep: "compact_rep pm pd os" and o: "(k, n) \<in> set os" and k: "j * RegionSize \<le> k"
  shows "\<not> k < j * RegionSize + card (spill_words os j)"
proof
  assume "k < j * RegionSize + card (spill_words os j)"
  then have "k \<in> spill_words os j"
    using in_spill [OF rep, of k j] k by simp
  then obtain b m where b: "(b, m) \<in> set os" "b \<le> k" "k < b + m" "b div RegionSize < j"
    by (auto simp: spill_words_def)
  then have "k = b"
    using objs_unique [of pm os b m k n] rep o by (auto simp: compact_rep_def pm_rep_def)
  with b(4) k show False
    by (simp add: div_region_less)
qed

lemma live_before_first:
  assumes rep: "compact_rep pm pd os" and f: "\<forall>(k, n) \<in> set os. j * RegionSize \<le> k \<longrightarrow> b \<le> k"
    and b: "j * RegionSize + card (spill_words os j) \<le> b" "b < Suc j * RegionSize"
  shows "live_between os (j * RegionSize) b = card (spill_words os j)"
proof -
  have "live_words os \<inter> {j * RegionSize..<b} = spill_words os j"
  proof (intro equalityI subsetI)
    fix w assume "w \<in> live_words os \<inter> {j * RegionSize..<b}"
    then obtain k n where o: "(k, n) \<in> set os" "k \<le> w" "w < k + n" "j * RegionSize \<le> w" "w < b"
      by (auto simp: live_words_def)
    then have "\<not> j * RegionSize \<le> k"
      using f by fastforce
    then have "k div RegionSize < j" "w div RegionSize = j"
      using o b(2) unfolding div_region_less div_region_eq by linarith+
    then show "w \<in> spill_words os j"
      using o by (auto simp: spill_words_def)
  next
    fix w assume w: "w \<in> spill_words os j"
    then have "w \<in> live_words os"
      by (auto simp: spill_words_def live_words_def)
    then show "w \<in> live_words os \<inter> {j * RegionSize..<b}"
      using w in_spill [OF rep, of w j] b(1) by simp
  qed
  then show ?thesis
    by (simp add: live_between_def)
qed

lemma same_block_region: "k div BlockSize = b div BlockSize \<Longrightarrow> k div RegionSize = b div RegionSize"
  by (metis region_of_block)

lemma fill_inv_init:
  assumes rep: "compact_rep pm pd os" and j: "j < region_count pd" and l: "l = j * RegionSize + card (spill_words os j)"
    and o: "os = pre @ objs_from l os" "\<forall>ob \<in> set pre. fst ob < l"
  shows "fill_inv os j pre (objs_from l os) (pd_blocks pd) (block_count pd) (card (spill_words os j))"
proof -
  have start: "l \<le> k" if "(k, m) \<in> set os" "j * RegionSize \<le> k" for k m
    using no_start_in_spill [OF rep that] l by simp
  have e: "entries_ok os pre j (pd_blocks pd)"
    unfolding entries_ok_def
  proof (clarify)
    fix k m assume k: "(k, m) \<in> set pre" and kj: "j = k div RegionSize"
    have "(k, m) \<in> set os"
      using k o(1) by (metis Un_iff set_append)
    then have "l \<le> k"
      using start kj by simp
    with o(2) k show "unat (pd_blocks pd ! (k div BlockSize)) = live_between os (k div RegionSize * RegionSize) k"
      by fastforce
  qed
  have "b div RegionSize = j \<and> card (spill_words os j) = live_between os (j * RegionSize) b \<and>
      (block_count pd = b div BlockSize \<longleftrightarrow> \<not> block_first os b)"
    if r: "objs_from l os = (b, n) # rest'" and b: "b < Suc j * RegionSize" for b n rest'
  proof -
    have srt: "sorted_wrt obj_before ((b, n) # rest')"
      using compact_rep_sorted(1) [OF rep] sorted_wrt_filter [of obj_before os "\<lambda>ob. l \<le> fst ob"] r
      by (simp add: objs_from_def)
    have "(b, n) \<in> set (objs_from l os)"
      by (simp add: r)
    then have bl: "l \<le> b"
      by (simp add: objs_from_def)
    then have bj: "b div RegionSize = j"
      using b l unfolding div_region_eq by linarith
    have least: "b \<le> k" if "(k, m) \<in> set os" "j * RegionSize \<le> k" for k m
    proof -
      have "(k, m) \<in> set ((b, n) # rest')"
        using start [OF that] that(1) unfolding r [symmetric] by (simp add: objs_from_def)
      then show ?thesis
        using obj_before_trans [OF srt, of k m] by auto
    qed
    have "block_first os b"
      unfolding block_first_def
    proof (clarify)
      fix k m assume k: "(k, m) \<in> set os" "k div BlockSize = b div BlockSize"
      have "k div RegionSize = j"
        using same_block_region [OF k(2)] bj by simp
      then show "b \<le> k"
        using least [OF k(1)] unfolding div_region_eq by simp
    qed
    moreover have "b div BlockSize < block_count pd"
      using set_block_entry(3) [OF _ j bj, of "pd_blocks pd"] rep by (simp add: compact_rep_def block_count_def)
    moreover have "live_between os (j * RegionSize) b = card (spill_words os j)"
    proof (rule live_before_first [OF rep _ _ b])
      show "\<forall>(k, n) \<in> set os. j * RegionSize \<le> k \<longrightarrow> b \<le> k"
        using least by blast
    qed (use bl l in simp)
    ultimately show ?thesis
      using bj by simp
  qed
  then show ?thesis
    using e o(1) by (simp add: fill_inv_def del: mult_Suc)
qed

lemma fill_blocks_ok:
  assumes rep: "compact_rep pm pd os" and j: "j < region_count pd"
  shows "fill_result pd os j (pd_blocks pd) (fill_blocks pm pd j)"
proof -
  let ?c = "card (spill_words os j)" and ?E = "Suc j * RegionSize"
  have pos: "partial_obj_size (pd_regions pd ! j) = ?c"
    using rep j by (simp add: compact_rep_def region_rep_def)
  show ?thesis
  proof (cases "RegionSize \<le> ?c")
    case True
    have "k div RegionSize \<noteq> j" if "(k, n) \<in> set os" for k n
    proof
      assume "k div RegionSize = j"
      then have "j * RegionSize \<le> k" "k < ?E"
        by (simp_all only: div_region_eq)
      then show False
        using no_start_in_spill [OF rep that, of j] True by simp
    qed
    then have "entries_ok os os j (pd_blocks pd)"
      by (auto simp: entries_ok_def)
    moreover have "fill_blocks pm pd j = Inr pd"
      using True pos j by (simp add: fill_blocks_def rd_get_ok)
    ultimately show ?thesis
      by (auto simp: fill_result_def intro!: exI [of _ "pd_blocks pd"])
  next
    case False
    define l where "l = j * RegionSize + ?c"
    have pr: "pm_rep pm os" and E: "?E \<le> pm_size pm"
      using rep mult_le_mono1 [of "Suc j" "region_count pd" RegionSize] j by (simp_all add: compact_rep_def)
    obtain pre where pre: "os = pre @ objs_from l os" "\<forall>ob \<in> set pre. fst ob < l"
      using objs_from_suffix [OF compact_rep_sorted(1) [OF rep], of l] by blast
    have "find_obj_beg pm l ?E = Inr (first_beg (objs_from l os) ?E)"
      using find_obj_beg_first [OF pr _ E region_end_64, of l] False by (simp add: l_def)
    moreover have "fill_blocks pm pd j = bind_result (find_obj_beg pm l ?E) (fill_blocks_loop pm ?E pd (block_count pd) ?c)"
    proof -
      have c: "words_to_bits x = x" "2 ^ Log2BitsPerBlock = BlockSize" "x * 2 ^ Log2RegionSize = x * RegionSize" for x
        by (simp_all add: words_to_bits_def LogMinObjAlignment_def Log2BitsPerBlock_def BlockSize_def RegionSize_def)
      have E': "?E = j * RegionSize + RegionSize"
        by simp
      show ?thesis
        using False unfolding fill_blocks_def rd_get_ok [OF j] sum.case pos c Let_def l_def E' by simp
    qed
    ultimately have "fill_blocks pm pd j =
        fill_blocks_loop pm ?E (pd\<lparr>pd_blocks := pd_blocks pd\<rparr>) (block_count pd) ?c (first_beg (objs_from l os) ?E)"
      by simp
    then show ?thesis
      using fill_blocks_loop_ok [OF rep j _ fill_inv_init [OF rep j l_def pre]] by (simp add: block_count_def)
  qed
qed

section \<open>The address after compaction\<close>

text \<open>The filled block tables are right, and a region the summary covers goes where the plan says.\<close>

definition blocks_ok :: "pcdata \<Rightarrow> mobj list \<Rightarrow> bool" where
  "blocks_ok pd os \<longleftrightarrow>
     (\<forall>j < region_count pd. rd_blocks_filled (pd_regions pd ! j) \<longrightarrow> entries_ok os os j (pd_blocks pd))"

text \<open>The first object of a block and the live words counted from there.\<close>

lemma block_filter:
  assumes fB: "f div BlockSize = k div BlockSize"
    and least: "\<And>b n. (b, n) \<in> set os \<Longrightarrow> b div BlockSize = k div BlockSize \<Longrightarrow> f \<le> b"
  shows "filter (\<lambda>(b, n). k - k mod BlockSize \<le> b \<and> b < k) os = filter (\<lambda>(b, n). f \<le> b \<and> b < k) os"
proof (rule filter_cong [OF refl], clarify)
  fix b n' assume b: "(b, n') \<in> set os"
  have st: "k - k mod BlockSize = k div BlockSize * BlockSize"
    by (simp add: minus_mod_eq_div_mult)
  show "(k - k mod BlockSize \<le> b \<and> b < k) = (f \<le> b \<and> b < k)"
  proof (intro iffI conjI)
    assume a: "k - k mod BlockSize \<le> b \<and> b < k"
    then have "k div BlockSize \<le> b div BlockSize"
      unfolding st using div_le_mono [of "k div BlockSize * BlockSize" b BlockSize] by simp
    moreover have "b div BlockSize \<le> k div BlockSize"
      using a by (intro div_le_mono) simp
    ultimately show "f \<le> b"
      using b by (intro least) auto
  next
    assume "f \<le> b \<and> b < k"
    then show "k - k mod BlockSize \<le> b"
      unfolding st fB [symmetric] using div_times_less_eq_dividend [of f BlockSize] by linarith
  qed auto
qed

lemma block_entry_sum:
  assumes rep: "compact_rep pm pd os" and o: "(k, n) \<in> set os" and e: "entries_ok os os (k div RegionSize) bs"
  shows "\<exists>v. live_words_in_range pm (pm_addr pm (k - k mod BlockSize)) (pm_addr pm k) = Inr v \<and>
    unat (bs ! (k div BlockSize)) + v = live_between os (k div RegionSize * RegionSize) k"
proof -
  let ?j = "k div RegionSize"
  define Q where "Q b \<longleftrightarrow> (\<exists>n. (b, n) \<in> set os) \<and> b div BlockSize = k div BlockSize" for b
  define f where "f = (LEAST b. Q b)"
  have "Q k"
    using o by (auto simp: Q_def)
  then have f: "Q f" and fk: "f \<le> k" and least: "\<And>b. Q b \<Longrightarrow> f \<le> b"
    unfolding f_def by (rule LeastI, rule Least_le) (rule Least_le)
  then obtain m where fm: "(f, m) \<in> set os" and fB: "f div BlockSize = k div BlockSize"
    by (auto simp: Q_def)
  have "block_first os f"
    unfolding block_first_def using least fB by (auto simp: Q_def)
  then have "unat (bs ! (k div BlockSize)) = live_between os (?j * RegionSize) f"
    using e fm same_block_region [OF fB] fB by (auto simp: entries_ok_def)
  moreover have "live_words_in_range pm (pm_addr pm (k - k mod BlockSize)) (pm_addr pm k) =
      Inr (sum_list (map snd (filter (\<lambda>(b, n). k - k mod BlockSize \<le> b \<and> b < k) os)))"
    using live_words_objs [of pm os k n "k - k mod BlockSize"] rep o by (simp add: compact_rep_def)
  moreover have "filter (\<lambda>(b, n). k - k mod BlockSize \<le> b \<and> b < k) os = filter (\<lambda>(b, n). f \<le> b \<and> b < k) os"
    using least by (intro block_filter [OF fB]) (auto simp: Q_def)
  moreover have "live_between os f k = sum_list (map snd (filter (\<lambda>(b, n). f \<le> b \<and> b < k) os))"
    using objs_no_cross [OF rep o] objs_no_cross [OF rep fm] rep
    by (intro live_between_objs) (auto simp: compact_rep_def pm_rep_def pm_objs_ok_def)
  moreover have "?j * RegionSize \<le> f"
    using same_block_region [OF fB] by (metis div_times_less_eq_dividend)
  ultimately show ?thesis
    using live_between_split [of "?j * RegionSize" f k os] fk by simp
qed

text \<open>What looking up an address may change: block tables and their flags, nothing else.\<close>

definition same_plan :: "pcdata \<Rightarrow> pcdata \<Rightarrow> bool" where
  "same_plan pd pd' \<longleftrightarrow>
     pd_region_start pd' = pd_region_start pd \<and> pd_region_end pd' = pd_region_end pd \<and>
     region_count pd' = region_count pd \<and> block_count pd' = block_count pd \<and>
     (\<forall>j < region_count pd. \<exists>f. pd_regions pd' ! j = (pd_regions pd ! j)\<lparr>rd_blocks_filled := f\<rparr>)"

lemma region_rep_flag [simp]: "region_rep os j (r\<lparr>rd_blocks_filled := f\<rparr>) \<longleftrightarrow> region_rep os j r"
  by (simp add: region_rep_def live_obj_size_def partial_obj_size_def)

lemma compact_rep_same_plan: "compact_rep pm pd os \<Longrightarrow> same_plan pd pd' \<Longrightarrow> compact_rep pm pd' os"
  by (auto simp: compact_rep_def same_plan_def pd_wf_def)

lemma same_plan_refl: "same_plan pd pd"
proof -
  have "\<exists>f. r = r\<lparr>rd_blocks_filled := f\<rparr>" for r :: region_data
    by (rule exI [of _ "rd_blocks_filled r"]) simp
  then show ?thesis
    by (simp add: same_plan_def)
qed

definition ensure_blocks :: "pm_bitmap \<Rightarrow> pcdata \<Rightarrow> nat \<Rightarrow> pcdata result" where
  "ensure_blocks pm pd j =
     (if \<not> rd_blocks_filled (pd_regions pd ! j) then
        bind_result (fill_blocks pm pd j) (\<lambda>pd1. rd_mod pd1 j (\<lambda>r. r\<lparr>rd_blocks_filled := True\<rparr>))
      else Inr pd)"

lemma ensure_blocks_ok:
  assumes rep: "compact_rep pm pd os" and bo: "blocks_ok pd os" and j: "j < region_count pd"
  shows "\<exists>pd1. ensure_blocks pm pd j = Inr pd1 \<and> same_plan pd pd1 \<and> blocks_ok pd1 os \<and> entries_ok os os j (pd_blocks pd1)"
proof (cases "rd_blocks_filled (pd_regions pd ! j)")
  case True
  then show ?thesis
    using bo j same_plan_refl by (auto simp: ensure_blocks_def blocks_ok_def)
next
  case False
  obtain bs where bs: "fill_blocks pm pd j = Inr (pd\<lparr>pd_blocks := bs\<rparr>)" "length bs = block_count pd" "entries_ok os os j bs"
      "\<And>i. i div BlocksPerRegion \<noteq> j \<Longrightarrow> bs ! i = pd_blocks pd ! i"
    using fill_blocks_ok [OF rep j] by (auto simp: fill_result_def block_count_def)
  let ?f = "\<lambda>r. r\<lparr>rd_blocks_filled := True\<rparr>"
  let ?pd = "pd\<lparr>pd_blocks := bs, pd_regions := (pd_regions pd)[j := ?f (pd_regions pd ! j)]\<rparr>"
  have "ensure_blocks pm pd j = Inr ?pd"
    using False bs(1) j by (simp add: ensure_blocks_def rd_mod_def)
  moreover have "same_plan pd ?pd"
    using bs(2) j same_plan_refl [of pd] by (auto simp: same_plan_def nth_list_update block_count_def)
  moreover have "entries_ok os os i bs" if "i < region_count pd" "rd_blocks_filled (pd_regions ?pd ! i)" for i
  proof (cases "i = j")
    case False
    then have "entries_ok os os i (pd_blocks pd)"
      using bo that by (simp add: blocks_ok_def)
    moreover have "bs ! (k div BlockSize) = pd_blocks pd ! (k div BlockSize)" if "k div RegionSize = i" for k
      using bs(4) [of "k div BlockSize"] that False by (simp add: region_of_block)
    ultimately show ?thesis
      unfolding entries_ok_def by fastforce
  qed (use bs(3) in simp)
  ultimately show ?thesis
    using bs(3) by (auto simp: blocks_ok_def)
qed

lemma full_region_offset:
  assumes rep: "compact_rep pm pd os" and j: "k div RegionSize < region_count pd"
    and full: "data_size (pd_regions pd ! (k div RegionSize)) = RegionSize"
  shows "live_between os (k div RegionSize * RegionSize) k = k mod RegionSize"
proof -
  let ?j = "k div RegionSize"
  have "card (live_words os \<inter> region_words ?j) = card (region_words ?j)"
    using region_rep_data_size(1) [OF compact_rep_sorted(2) [OF rep], of ?j] rep j full
    by (simp add: compact_rep_def card_region_words)
  then have "live_words os \<inter> region_words ?j = region_words ?j"
    by (intro card_subset_eq) (auto simp: region_words_def)
  moreover have "{?j * RegionSize..<k} \<subseteq> region_words ?j"
  proof
    fix w assume w: "w \<in> {?j * RegionSize..<k}"
    have "k < Suc ?j * RegionSize"
      using div_region_eq [of k ?j] by simp
    then show "w \<in> region_words ?j"
      using w by (simp add: region_words_def)
  qed
  ultimately have "live_words os \<inter> {?j * RegionSize..<k} = {?j * RegionSize..<k}"
    by blast
  then show ?thesis
    by (simp add: live_between_def minus_div_mult_eq_mod)
qed

lemma new_offset:
  assumes "b \<le> k div RegionSize"
  shows "plan_of os b t (k div RegionSize) + live_between os (k div RegionSize * RegionSize) k =
    t + live_between os (b * RegionSize) k"
proof -
  have "b * RegionSize \<le> k div RegionSize * RegionSize"
    using assms by simp
  then show ?thesis
    using live_between_split [of "b * RegionSize" "k div RegionSize * RegionSize" k os] by (simp add: plan_of_def)
qed

lemma check_new_location_left:
  assumes wf: "pd_wf pd" and b: "b * RegionSize \<le> k"
    and mv: "t \<le> b * RegionSize \<or> gc_space_id gc (pd_addr pd k) \<noteq> gc_space_id gc (pd_addr pd (t + live_between os (b * RegionSize) k))"
  shows "check_new_location gc (pd_addr pd k) (pd_addr pd (t + live_between os (b * RegionSize) k))"
proof -
  have "(2 :: nat) ^ 3 dvd RegionSizeBytes"
    by (simp add: region_sizes)
  then have "8 dvd pd_region_start pd"
    using wf dvd_trans [of 8 RegionSizeBytes] by (simp add: pd_wf_def)
  then have "pd_addr pd x mod HeapWordSize = 0" for x
    by (simp add: hw_add_def HeapWordSize_def)
  moreover have "t \<le> b * RegionSize \<Longrightarrow> t + live_between os (b * RegionSize) k \<le> k"
    using live_between_le [of os "b * RegionSize" k] b by linarith
  ultimately show ?thesis
    using mv by (auto simp: check_new_location_def)
qed

lemma calc_new_pointer_ok:
  assumes rep: "compact_rep pm pd os" and bo: "blocks_ok pd os" and o: "(k, n) \<in> set os"
    and dest: "rd_destination (pd_regions pd ! (k div RegionSize)) = pd_addr pd (plan_of os b t (k div RegionSize))"
    and b: "b \<le> k div RegionSize" and gc: "pd_addr pd k \<noteq> NULL" "gc_is_in gc (pd_addr pd k)"
    and mv: "t \<le> b * RegionSize \<or> gc_space_id gc (pd_addr pd k) \<noteq> gc_space_id gc (pd_addr pd (t + live_between os (b * RegionSize) k))"
  shows "\<exists>pd'. calc_new_pointer gc pm pd (pd_addr pd k) = Inr (pd', pd_addr pd (t + live_between os (b * RegionSize) k)) \<and>
    same_plan pd pd' \<and> blocks_ok pd' os"
proof -
  let ?j = "k div RegionSize" and ?a = "pd_addr pd k" and ?r = "pd_regions pd ! (k div RegionSize)"
  have wf: "pd_wf pd" and pr: "pm_rep pm os" and st: "pm_region_start pm = pd_region_start pd"
    and sz: "pm_size pm = region_count pd * RegionSize"
    using rep by (simp_all add: compact_rep_def)
  have "0 < n \<and> k + n \<le> pm_size pm"
    using pr o by (auto simp: pm_rep_def pm_objs_ok_def)
  then have k: "k < region_count pd * RegionSize"
    using sz by simp
  then have j: "?j < region_count pd"
    by (simp add: div_region_less)
  have mark: "is_marked pm ?a = Inr True"
    using pr o addr_to_bit_addr [of pm k] k by (auto simp: is_marked_def is_marked_bit_def pm_rep_def sz st)
  note adr = addr_to_region_idx_ok [OF wf less_imp_le [OF k]] rd_get_ok [OF j] region_offset_ok [OF wf less_imp_le [OF k]]
  have unf: "calc_new_pointer gc pm pd ?a =
      (if data_size ?r = RegionSize then Inr (pd, hw_add (rd_destination ?r) (k mod RegionSize))
       else bind_result (ensure_blocks pm pd ?j) (\<lambda>pd1.
                bind_result (block_align_down pd1 ?a) (\<lambda>search_start.
                bind_result (addr_to_block_idx pd1 ?a) (\<lambda>b.
                bind_result (blk_offset pd1 b) (\<lambda>block_ofs.
                bind_result (live_words_in_range pm search_start ?a) (\<lambda>live.
                let result = hw_add (rd_destination ?r) (block_ofs + live)
                in if check_new_location gc ?a result then Inr (pd1, result)
                   else Inl (AssertFailed ''must move left or to a different space'')))))))"
    using gc unfolding calc_new_pointer_def mark adr sum.case ensure_blocks_def by simp
  have "\<exists>pd'. calc_new_pointer gc pm pd ?a = Inr (pd', hw_add (rd_destination ?r) (live_between os (?j * RegionSize) k)) \<and>
      same_plan pd pd' \<and> blocks_ok pd' os"
  proof (cases "data_size ?r = RegionSize")
    case True
    then show ?thesis
      using bo same_plan_refl full_region_offset [OF rep j True] unfolding unf by simp
  next
    case False
    obtain pd1 where pd1: "ensure_blocks pm pd ?j = Inr pd1" "same_plan pd pd1" "blocks_ok pd1 os"
        "entries_ok os os ?j (pd_blocks pd1)"
      using ensure_blocks_ok [OF rep bo j] by blast
    have wf1: "pd_wf pd1" and c1: "region_count pd1 = region_count pd" "pd_region_start pd1 = pd_region_start pd"
      using compact_rep_same_plan [OF rep pd1(2)] pd1(2) by (simp_all add: compact_rep_def same_plan_def)
    have "block_align_down pd1 ?a = Inr (pd_addr pd (k - k mod BlockSize))" "addr_to_block_idx pd1 ?a = Inr (k div BlockSize)"
      using block_align_down_ok [OF wf1, of k] addr_to_block_idx_ok [OF wf1, of k] k by (simp_all add: c1)
    moreover have "blk_offset pd1 (k div BlockSize) = Inr (unat (pd_blocks pd1 ! (k div BlockSize)))"
      using set_block_entry(3) [OF wf1, of ?j k "pd_blocks pd1"] j c1(1) by (simp add: blk_offset_def block_count_def)
    moreover obtain v where "live_words_in_range pm (pd_addr pd (k - k mod BlockSize)) ?a = Inr v"
        "unat (pd_blocks pd1 ! (k div BlockSize)) + v = live_between os (?j * RegionSize) k"
      using block_entry_sum [OF rep o pd1(4)] unfolding st by blast
    moreover have "check_new_location gc ?a (hw_add (rd_destination ?r) (live_between os (?j * RegionSize) k))"
      using check_new_location_left [OF wf _ mv] b new_offset [OF b, of os t] by (simp add: dest le_div_region)
    ultimately show ?thesis
      using pd1 unfolding unf by (simp add: False)
  qed
  then show ?thesis
    using new_offset [OF b, of os t] by (simp add: dest)
qed

end
