(* ===== verification/MarkCompact.thy ===== *)
theory MarkCompact
  imports Compaction
begin

text \<open>
  The phases of the compacting collector put together: marking an object sets its
  bits and adds it to the summary, \<open>summarize\<close> plans the move, and
  \<open>calc_new_pointer\<close> answers for every live object.  From
  \<open>psParallelCompact.hpp\<close> and \<open>.cpp\<close>.
\<close>

section \<open>Marking\<close>

definition psc_mark_obj :: "pm_bitmap \<Rightarrow> pcdata \<Rightarrow> addr \<Rightarrow> size_t \<Rightarrow> (pm_bitmap \<times> pcdata \<times> bool) result" where
  "psc_mark_obj pm pd obj n =
     bind_result (mark_obj pm obj n) (\<lambda>(pm1, new).
       if new then bind_result (add_obj pd obj n) (\<lambda>pd1. Inr (pm1, pd1, True))
       else Inr (pm1, pd, False))"

text \<open>
  \<open>decrement_destination_counts\<close>: the tables and the regions pushed for filling.
  The parameters are the space of the source: its membership test, its end and its
  new top.
\<close>

record src_space =
  sp_contains :: "addr \<Rightarrow> bool"
  sp_end :: addr
  sp_new_top :: addr

definition decrement_one :: "size_t \<Rightarrow> size_t \<Rightarrow> pcdata \<times> size_t list \<Rightarrow> (pcdata \<times> size_t list) result" where
  "decrement_one enqueue_end cur s =
     (let (pd, pushed) = s
      in bind_result (rd_get pd cur) (\<lambda>r.
           if \<not> data_size r > 0 then Inl (AssertFailed ''region must have live data'')
           else
             bind_result (if \<not> claimed r then decrement_destination_count r else Inr r) (\<lambda>r1.
             let (r2, got) = (if cur < enqueue_end \<and> available r1 then claim r1 else (r1, False));
                 pd1 = pd\<lparr>pd_regions := (pd_regions pd)[cur := r2]\<rparr>
             in Inr (pd1, if got then pushed @ [cur] else pushed))))"

definition decrement_destination_counts ::
  "src_space \<Rightarrow> pcdata \<Rightarrow> size_t \<Rightarrow> addr \<Rightarrow> (pcdata \<times> size_t list) result" where
  "decrement_destination_counts sp sd beg_region end_addr =
     bind_result (region_to_addr sd beg_region) (\<lambda>beg_addr.
       if \<not> (sp_contains sp beg_addr \<or> beg_addr = sp_end sp)
       then Inl (AssertFailed ''src_space_id does not match beg_addr'')
       else if \<not> (sp_contains sp end_addr \<or> end_addr = sp_end sp)
       then Inl (AssertFailed ''src_space_id does not match end_addr'')
       else
         bind_result (region_align_up sd end_addr) (\<lambda>ea. bind_result (addr_to_region_idx sd ea) (\<lambda>end_region.
         bind_result (region_align_up sd (sp_new_top sp)) (\<lambda>na. bind_result (addr_to_region_idx sd na) (\<lambda>enqueue_end.
         fold_result (decrement_one enqueue_end) [beg_region..<end_region] (sd, []))))))"

section \<open>Marking all objects\<close>

definition mark_all :: "pm_bitmap \<Rightarrow> pcdata \<Rightarrow> (nat \<times> nat) list \<Rightarrow> (pm_bitmap \<times> pcdata) result" where
  "mark_all pm pd xs =
     fold_result (\<lambda>(k, n) (pm1, pd1).
       bind_result (psc_mark_obj pm1 pd1 (pd_addr pd k) n) (\<lambda>(pm2, pd2, new). Inr (pm2, pd2))) xs (pm, pd_clear pd)"

lemma insert_apart:
  assumes rep: "pm_rep pm os" and x: "0 < n" "b + n \<le> pm_size pm" "\<forall>ob \<in> set os. apart (b, n) ob"
  shows "\<exists>pre post. os = pre @ post \<and> pm_objs_ok pm (pre @ (b, n) # post)"
proof -
  have ok: "sorted_wrt obj_before os" "\<forall>(b, n) \<in> set os. 0 < n \<and> b + n \<le> pm_size pm"
    using rep by (auto simp: pm_rep_def pm_objs_ok_def)
  obtain pre where pre: "os = pre @ objs_from b os" "\<forall>ob \<in> set pre. fst ob < b"
    using objs_from_suffix [OF ok(1), of b] by blast
  have "obj_before ob (b, n)" if "ob \<in> set pre" for ob
  proof -
    have "ob \<in> set os"
      using that pre(1) by (metis Un_iff set_append)
    then have "apart (b, n) ob" "0 < snd ob"
      using x(3) ok(2) by auto
    then show ?thesis
      using pre(2) that by (auto simp: apart_def obj_before_def)
  qed
  moreover have "obj_before (b, n) ob" if "ob \<in> set (objs_from b os)" for ob
    using that x ok(2) by (fastforce simp: objs_from_def apart_def obj_before_def)
  ultimately have "sorted_wrt obj_before (pre @ (b, n) # objs_from b os)"
    using ok(1) sorted_wrt_append [of obj_before pre "objs_from b os"] pre(1) by (simp add: sorted_wrt_append)
  moreover have "set (pre @ objs_from b os) = set os"
    using pre(1) by simp
  then have "set (pre @ (b, n) # objs_from b os) = insert (b, n) (set os)"
    by auto
  ultimately have "pm_objs_ok pm (pre @ (b, n) # objs_from b os)"
    using ok(2) x(1,2) unfolding pm_objs_ok_def by auto
  with pre(1) show ?thesis
    by blast
qed

lemma mark_all_ok:
  assumes wf: "pd_wf pd" and xs: "objs_in pd xs" and pm: "pm_rep pm []" "pm_region_start pm = pd_region_start pd"
      "pm_size pm = region_count pd * RegionSize"
  shows "\<exists>pm' pd' os. mark_all pm pd xs = Inr (pm', pd') \<and> add_all pd xs = Inr pd' \<and> pm_rep pm' os \<and> set os = set xs \<and>
    pm_region_start pm' = pm_region_start pm \<and> pm_size pm' = pm_size pm"
  using xs
proof (induction xs rule: rev_induct)
  case Nil
  then show ?case
    using pm by (simp add: mark_all_def add_all_def)
next
  case (snoc x xs)
  obtain k n where x: "x = (k, n)" by (cases x)
  have xs: "objs_in pd xs" and kn: "0 < n" "k + n \<le> region_count pd * RegionSize" and ap: "\<forall>ob \<in> set xs. apart (k, n) ob"
    using snoc.prems by (auto simp: objs_in_def x sorted_wrt_append apart_sym)
  obtain pm1 pd1 os where m: "mark_all pm pd xs = Inr (pm1, pd1)" "add_all pd xs = Inr pd1" "pm_rep pm1 os" "set os = set xs"
      "pm_region_start pm1 = pm_region_start pm" "pm_size pm1 = pm_size pm"
    using snoc.IH [OF xs] by blast
  obtain pre post where pp: "os = pre @ post" "pm_objs_ok pm1 (pre @ (k, n) # post)"
    using insert_apart [OF m(3), of n k] kn ap m(4,6) pm(3) by auto
  obtain pm2 where pm2: "mark_obj pm1 (pm_addr pm1 k) n = Inr (pm2, True)" "pm_rep pm2 (pre @ (k, n) # post)"
      "pm_region_start pm2 = pm_region_start pm1" "pm_size pm2 = pm_size pm1"
    using mark_obj_new [of pm1 pre post k n] m(3) pp by auto
  obtain pd2 where "add_all pd (xs @ [x]) = Inr pd2"
    using add_all_ok [OF wf snoc.prems] by blast
  moreover from this have "add_obj pd1 (pd_addr pd k) n = Inr pd2"
    using m(2) by (simp add: add_all_def fold_result_append x split: sum.splits)
  moreover have "set (pre @ (k, n) # post) = set (xs @ [x])"
    using m(4) pp(1) x by auto
  ultimately show ?case
    using m pm2 pm(2) by (intro exI [of _ pm2] exI [of _ pd2] exI [of _ "pre @ (k, n) # post"])
      (simp add: mark_all_def fold_result_append x psc_mark_obj_def)
qed

section \<open>New addresses of all objects\<close>

text \<open>The pointers updated one after the other; each lookup may fill a block table.\<close>

fun calc_all :: "gc_spaces \<Rightarrow> pm_bitmap \<Rightarrow> pcdata \<Rightarrow> addr list \<Rightarrow> addr list result" where
  "calc_all gc pm pd [] = Inr []"
| "calc_all gc pm pd (a # as) =
     bind_result (calc_new_pointer gc pm pd a) (\<lambda>(pd1, r).
     bind_result (calc_all gc pm pd1 as) (\<lambda>rs. Inr (r # rs)))"

definition new_word :: "(nat \<times> nat) list \<Rightarrow> nat \<Rightarrow> nat \<Rightarrow> nat \<Rightarrow> nat" where
  "new_word os b t k = t + live_between os (b * RegionSize) k"

lemma calc_all_ok:
  assumes "compact_rep pm pd os" "blocks_ok pd os" "t \<le> b * RegionSize" "pd_region_start pd \<noteq> NULL"
    "\<forall>j. b \<le> j \<and> j < e \<longrightarrow> rd_destination (pd_regions pd ! j) = pd_addr pd (plan_of os b t j)" "e \<le> region_count pd"
    "\<forall>(k, n) \<in> set xs. (k, n) \<in> set os \<and> b * RegionSize \<le> k \<and> k < e * RegionSize \<and> gc_is_in gc (pd_addr pd k)"
  shows "calc_all gc pm pd (map (\<lambda>(k, n). pd_addr pd k) xs) = Inr (map (\<lambda>(k, n). pd_addr pd (new_word os b t k)) xs)"
  using assms
proof (induction xs arbitrary: pd)
  case (Cons x xs)
  obtain k n where x: "x = (k, n)" by (cases x)
  have kn: "(k, n) \<in> set os" "b \<le> k div RegionSize" "gc_is_in gc (pd_addr pd k)" "k div RegionSize < e"
    using Cons.prems(7) by (auto simp: x le_div_region div_region_less)
  then have d: "rd_destination (pd_regions pd ! (k div RegionSize)) = pd_addr pd (plan_of os b t (k div RegionSize))"
    using Cons.prems(5) by simp
  have nn: "pd_addr pd k \<noteq> NULL"
    using Cons.prems(4) by (simp add: hw_add_def)
  obtain pd1 where c: "calc_new_pointer gc pm pd (pd_addr pd k) = Inr (pd1, pd_addr pd (new_word os b t k))"
      "same_plan pd pd1" "blocks_ok pd1 os"
    using calc_new_pointer_ok [OF Cons.prems(1,2) kn(1) d kn(2) nn kn(3)] Cons.prems(3) by (auto simp: new_word_def)
  have st: "pd_region_start pd1 = pd_region_start pd" "region_count pd1 = region_count pd"
      "\<And>j. j < region_count pd \<Longrightarrow> rd_destination (pd_regions pd1 ! j) = rd_destination (pd_regions pd ! j)"
    using c(2) by (force simp: same_plan_def)+
  have "calc_all gc pm pd1 (map (\<lambda>(k, n). pd_addr pd1 k) xs) = Inr (map (\<lambda>(k, n). pd_addr pd1 (new_word os b t k)) xs)"
  proof (rule Cons.IH)
    show "compact_rep pm pd1 os"
      by (rule compact_rep_same_plan [OF Cons.prems(1) c(2)])
  qed (use Cons.prems c(3) st in auto)
  then show ?case
    using c(1) by (simp add: x st)
qed simp

lemma region_up: "x \<le> (x + RegionSize - 1) div RegionSize * RegionSize"
proof -
  have "x + RegionSize - 1 < Suc ((x + RegionSize - 1) div RegionSize) * RegionSize"
    by (metis div_region_less lessI)
  then show ?thesis
    unfolding mult_Suc by linarith
qed

text \<open>Objects keep their order and do not overlap.\<close>

lemma new_word_step:
  assumes "(k, n) \<in> set os" "b * RegionSize \<le> k" "k + n \<le> c"
  shows "new_word os b t k + n \<le> new_word os b t c"
proof -
  have "{k..<k + n} \<subseteq> live_words os \<inter> {k..<c}"
  proof
    fix w assume "w \<in> {k..<k + n}"
    then show "w \<in> live_words os \<inter> {k..<c}"
      unfolding live_words_def using assms(1,3) by auto
  qed
  then have "n \<le> live_between os k c"
    using card_mono [of "live_words os \<inter> {k..<c}" "{k..<k + n}"] by (simp add: live_between_def)
  then show ?thesis
    using live_between_split [of "b * RegionSize" k c os] assms(2,3) by (simp add: new_word_def)
qed

lemma mark_then_summarize:
  assumes heap: "pd_wf pd" "pm_rep pm []" "pm_region_start pm = pd_region_start pd"
      "pm_size pm = region_count pd * RegionSize" and xs: "objs_in pd xs"
    and space: "b * RegionSize \<le> se" "se \<le> region_count pd * RegionSize" "e = (se + RegionSize - 1) div RegionSize"
    and target: "plan_of xs b t e \<le> te" "te \<le> region_count pd * RegionSize"
  shows "\<exists>pm' pd1 pd2 os. mark_all pm pd xs = Inr (pm', pd1) \<and>
    summarize hn pd1 si_clear (pd_addr pd (b * RegionSize)) (pd_addr pd se) (pd_addr pd t) (pd_addr pd te) =
      Inr (pd2, si_clear, None, pd_addr pd (plan_of xs b t e), True) \<and>
    set os = set xs \<and> compact_rep pm' pd2 os \<and> blocks_ok pd2 os \<and> e \<le> region_count pd2 \<and>
    pd_region_start pd2 = pd_region_start pd \<and>
    (\<forall>j. b \<le> j \<and> j < e \<longrightarrow> rd_destination (pd_regions pd2 ! j) = pd_addr pd (plan_of xs b t j))"
proof -
  obtain pm' pd1 os where m: "mark_all pm pd xs = Inr (pm', pd1)" "add_all pd xs = Inr pd1" "pm_rep pm' os" "set os = set xs"
      "pm_region_start pm' = pd_region_start pd" "pm_size pm' = region_count pd * RegionSize"
    using mark_all_ok [OF heap(1) xs heap(2-4)] heap(3,4) by auto
  obtain rs where rs: "pd1 = (pd_clear pd)\<lparr>pd_regions := rs\<rparr>" "length rs = region_count pd"
      "\<And>j. j < region_count pd \<Longrightarrow> region_rep xs j (rs ! j) \<and> \<not> rd_blocks_filled (rs ! j)"
    using add_all_ok [OF heap(1) xs] m(2) by auto
  have pd1: "pd_wf pd1" "region_count pd1 = region_count pd" "pd_region_start pd1 = pd_region_start pd" "pd_regions pd1 = rs"
    using pd_clear_wf heap(1) rs(1,2) by (simp_all add: pd_wf_upd)
  have e: "e \<le> region_count pd"
  proof -
    have "se + RegionSize - 1 < Suc (region_count pd) * RegionSize"
      using space(2) RegionSize_pos(1) unfolding mult_Suc by linarith
    then show ?thesis
      unfolding space(3) div_region_less [symmetric] by simp
  qed
  have ds: "data_size (pd_regions pd1 ! j) = plan_of xs b t (Suc j) - plan_of xs b t j \<and> data_size (pd_regions pd1 ! j) \<le> RegionSize"
    if "b \<le> j" "j < e" for j
    using region_rep_data_size [of xs j "rs ! j"] rs(3) [of j] that e plan_of_Suc [of b j xs t] xs pd1(4)
    by (simp add: objs_in_def)
  have "\<not> si_is_valid si_clear"
    by (simp add: si_is_valid_def si_clear_def)
  then obtain rs2 where sm: "planned (pd_region_start pd) (plan_of xs b t) b e rs rs2"
      "summarize hn pd1 si_clear (pd_addr pd (b * RegionSize)) (pd_addr pd se) (pd_addr pd t) (pd_addr pd te) =
       Inr (pd1\<lparr>pd_regions := rs2\<rparr>, si_clear, None, pd_addr pd (plan_of xs b t e), True)"
    using summarize_planned(3) [OF pd1(1) space(1) _ space(3) target(1) _ _ ds, of si_clear hn] space(2) target(2)
    by (auto simp: pd1)
  let ?pd2 = "pd1\<lparr>pd_regions := rs2\<rparr>"
  have len: "length rs2 = region_count pd"
    using sm(1) rs(2) by (simp add: planned_def)
  have "region_rep os j (rs2 ! j)" if "j < region_count pd" for j
    using region_rep_planned [OF sm(1), of j xs] rs(2) rs(3) [OF that] that region_rep_set [OF m(4)] by simp
  then have "compact_rep pm' ?pd2 os"
    using m pd1 len by (simp add: compact_rep_def pd_wf_upd)
  moreover have "blocks_ok ?pd2 os"
    using sm(1) rs(2,3) len by (simp add: blocks_ok_def planned_def same_live_data_def)
  moreover have "rd_destination (rs2 ! j) = pd_addr pd (plan_of xs b t j)" if "b \<le> j" "j < e" for j
    using sm(1) that e rs(2) by (simp add: planned_def)
  ultimately show ?thesis
    using m(1,4) sm(2) e len pd1(3) by (intro exI [of _ pm'] exI [of _ pd1] exI [of _ ?pd2] exI [of _ os]) simp
qed

text \<open>
  C3: The phases of a compaction agree.  Marking any objects of the heap that do not
  overlap, in any order, and then summarising the space that holds them, no step
  fails; and the new address computed afterwards for each marked object, in any
  order and any number of times, is the target's start plus the live words in
  front of the object.  The objects therefore keep their order, do not overlap,
  and end where \<open>*target_next\<close> says.
\<close>

theorem compaction_slides_objects:
  assumes heap: "pd_wf pd" "pd_region_start pd \<noteq> NULL" "pm_rep pm []" "pm_region_start pm = pd_region_start pd"
      "pm_size pm = region_count pd * RegionSize"
    and xs: "objs_in pd xs" "\<forall>(k, n) \<in> set xs. b * RegionSize \<le> k \<and> k + n \<le> se \<and> gc_is_in gc (pd_addr pd k)"
    and space: "b * RegionSize \<le> se" "se \<le> region_count pd * RegionSize" "e = (se + RegionSize - 1) div RegionSize"
    and target: "t \<le> b * RegionSize" "new_word xs b t (e * RegionSize) \<le> te" "te \<le> region_count pd * RegionSize"
  shows "\<exists>pm' pd1 pd2. mark_all pm pd xs = Inr (pm', pd1) \<and>
    summarize False pd1 si_clear (pd_addr pd (b * RegionSize)) (pd_addr pd se) (pd_addr pd t) (pd_addr pd te) =
      Inr (pd2, si_clear, None, pd_addr pd (new_word xs b t (e * RegionSize)), True) \<and>
    (\<forall>ys. set ys \<subseteq> set xs \<longrightarrow>
       calc_all gc pm' pd2 (map (\<lambda>(k, n). pd_addr pd k) ys) = Inr (map (\<lambda>(k, n). pd_addr pd (new_word xs b t k)) ys)) \<and>
    (\<forall>(k, n) \<in> set xs. \<forall>(k', n') \<in> set xs. k < k' \<longrightarrow> new_word xs b t k + n \<le> new_word xs b t k') \<and>
    (\<forall>(k, n) \<in> set xs. new_word xs b t k + n \<le> new_word xs b t (e * RegionSize))"
proof -
  have plan: "plan_of xs b t j = new_word xs b t (j * RegionSize)" for j
    by (simp add: plan_of_def new_word_def)
  obtain pm' pd1 pd2 os where ms: "mark_all pm pd xs = Inr (pm', pd1)"
      "summarize False pd1 si_clear (pd_addr pd (b * RegionSize)) (pd_addr pd se) (pd_addr pd t) (pd_addr pd te) =
        Inr (pd2, si_clear, None, pd_addr pd (plan_of xs b t e), True)" "set os = set xs"
    and c: "compact_rep pm' pd2 os" "blocks_ok pd2 os" "e \<le> region_count pd2" "pd_region_start pd2 = pd_region_start pd"
      "\<forall>j. b \<le> j \<and> j < e \<longrightarrow> rd_destination (pd_regions pd2 ! j) = pd_addr pd (plan_of xs b t j)"
    using mark_then_summarize [OF heap(1,3-5) xs(1) space, of t te False] target(2,3) unfolding plan by blast
  have se: "se \<le> e * RegionSize"
    unfolding space(3) using region_up [of se] by simp
  have pl: "plan_of os = plan_of xs" and nw: "new_word os = new_word xs"
    using words_set(3) [OF ms(3)] by (simp_all add: fun_eq_iff plan_of_def new_word_def live_between_def)
  have "calc_all gc pm' pd2 (map (\<lambda>(k, n). pd_addr pd k) ys) = Inr (map (\<lambda>(k, n). pd_addr pd (new_word xs b t k)) ys)"
    if ys: "set ys \<subseteq> set xs" for ys
  proof -
    have "(k, n) \<in> set os \<and> b * RegionSize \<le> k \<and> k < e * RegionSize \<and> gc_is_in gc (pd_addr pd2 k)" if "(k, n) \<in> set ys" for k n
    proof -
      have "(k, n) \<in> set xs"
        using that ys by blast
      then have "b * RegionSize \<le> k \<and> k + n \<le> se \<and> gc_is_in gc (pd_addr pd k)" "0 < n"
        using xs by (auto simp: objs_in_def)
      then show ?thesis
        using \<open>(k, n) \<in> set xs\<close> ms(3) se c(4) by simp
    qed
    then show ?thesis
      using calc_all_ok [OF c(1,2) target(1), of e ys gc] c(3-5) heap(2) by (auto simp: pl nw)
  qed
  moreover have "new_word xs b t k + n \<le> new_word xs b t k'" if "(k, n) \<in> set xs" "(k', n') \<in> set xs" "k < k'" for k n k' n'
    using objs_no_cross [OF c(1), of k' n' k n] that ms(3) xs(2) by (intro new_word_step) auto
  moreover have "new_word xs b t k + n \<le> new_word xs b t (e * RegionSize)" if "(k, n) \<in> set xs" for k n
    using that xs(2) se by (intro new_word_step) auto
  ultimately show ?thesis
    using ms(1,2) unfolding plan by (intro exI [of _ pm'] exI [of _ pd1] exI [of _ pd2]) auto
qed

lemma sample_fresh_pm:
  "\<exists>pm. pm_rep pm [] \<and> pm_region_start pm = 2 ^ 19 \<and> pm_size pm = 131072"
  using pm_initialize_rep [of "\<lparr>mr_start = 2 ^ 19, mr_word_size = 131072\<rparr>"
      "\<lparr>page_size_for_region = (\<lambda>_. 4096), vm_allocation_granularity = 4096, expand_by = (\<lambda>_. True), fresh_word = (\<lambda>_. 0)\<rparr>" new_pm]
  by (auto simp: mr_end_def hw_add_def HeapWordSize_def size_t_max1_def)

lemma sample_new_words: "new_word sample_objs 0 0 10 = 0" "new_word sample_objs 0 0 65530 = 5" "new_word sample_objs 0 0 131072 = 25"
proof -
  have "live_words sample_objs \<inter> {0..<10} = {}" "live_words sample_objs \<inter> {0..<65530} = {10..<15}"
    by (auto simp: sample_live)
  then show "new_word sample_objs 0 0 10 = 0" "new_word sample_objs 0 0 65530 = 5"
    by (simp_all add: new_word_def live_between_def)
  show "new_word sample_objs 0 0 131072 = 25"
    using sample_plan by (simp add: plan_of_def new_word_def RegionSize_def Log2RegionSize_def)
qed

theorem compaction_slides_objects_witness:
  "\<exists>pm pm' pd1 pd2. pm_rep pm [] \<and> mark_all pm sample_pd sample_objs = Inr (pm', pd1) \<and>
    summarize False pd1 si_clear (2 ^ 19) (2 ^ 19 + 8 * 65550) (2 ^ 19) (2 ^ 19 + 8 * 100) =
      Inr (pd2, si_clear, None, 2 ^ 19 + 8 * 25, True) \<and>
    calc_all \<lparr>gc_is_in = (\<lambda>_. True), gc_space_id = (\<lambda>_. 0)\<rparr> pm' pd2 [2 ^ 19 + 8 * 10, 2 ^ 19 + 8 * 65530, 2 ^ 19 + 8 * 10] =
      Inr [2 ^ 19, 2 ^ 19 + 8 * 5, 2 ^ 19]"
proof -
  obtain pm where pm: "pm_rep pm []" "pm_region_start pm = 2 ^ 19" "pm_size pm = 131072"
    using sample_fresh_pm by blast
  have st: "pd_region_start sample_pd = 2 ^ 19"
    by (simp add: sample_pd_def)
  have R: "RegionSize = 65536"
    by (simp add: RegionSize_def Log2RegionSize_def)
  let ?gc = "\<lparr>gc_is_in = (\<lambda>_. True), gc_space_id = (\<lambda>_. 0)\<rparr>"
  have h: "pd_region_start sample_pd \<noteq> NULL" "pm_region_start pm = pd_region_start sample_pd"
      "pm_size pm = region_count sample_pd * RegionSize"
    unfolding st pm(2,3) sample_pd_ok(3) R by simp_all
  have xs: "\<forall>(k, n) \<in> set sample_objs. 0 * RegionSize \<le> k \<and> k + n \<le> 65550 \<and> gc_is_in ?gc (pd_addr sample_pd k)"
    by (simp add: sample_objs_def)
  have sp: "0 * RegionSize \<le> 65550" "65550 \<le> region_count sample_pd * RegionSize" "2 = (65550 + RegionSize - 1) div RegionSize"
      "0 \<le> 0 * RegionSize" "new_word sample_objs 0 0 (2 * RegionSize) \<le> 100" "100 \<le> region_count sample_pd * RegionSize"
    unfolding sample_pd_ok(3) R using sample_new_words(3) by simp_all
  note cs = compaction_slides_objects [OF sample_pd_ok(1) h(1) pm(1) h(2,3) sample_pd_ok(2) xs sp]
  have ad: "pd_addr sample_pd x = 2 ^ 19 + 8 * x" for x
    unfolding st by (simp add: hw_add_def HeapWordSize_def)
  have ys: "set [(10, 5), (65530, 20), (10, 5)] \<subseteq> set sample_objs"
    by (simp add: sample_objs_def)
  obtain pm' pd1 pd2 where r: "mark_all pm sample_pd sample_objs = Inr (pm', pd1)"
      "summarize False pd1 si_clear (pd_addr sample_pd (0 * RegionSize)) (pd_addr sample_pd 65550) (pd_addr sample_pd 0)
        (pd_addr sample_pd 100) = Inr (pd2, si_clear, None, pd_addr sample_pd (new_word sample_objs 0 0 (2 * RegionSize)), True)"
      "\<forall>ys. set ys \<subseteq> set sample_objs \<longrightarrow> calc_all ?gc pm' pd2 (map (\<lambda>(k, n). pd_addr sample_pd k) ys) =
        Inr (map (\<lambda>(k, n). pd_addr sample_pd (new_word sample_objs 0 0 k)) ys)"
    using cs by (elim exE conjE)
  have eqs: "pd_addr sample_pd (0 * RegionSize) = 2 ^ 19" "pd_addr sample_pd 0 = 2 ^ 19"
      "pd_addr sample_pd (new_word sample_objs 0 0 (2 * RegionSize)) = 2 ^ 19 + 8 * 25"
    unfolding ad R using sample_new_words(3) by simp_all
  have "summarize False pd1 si_clear (2 ^ 19) (2 ^ 19 + 8 * 65550) (2 ^ 19) (2 ^ 19 + 8 * 100) =
      Inr (pd2, si_clear, None, 2 ^ 19 + 8 * 25, True)"
    using r(2) unfolding eqs unfolding ad .
  moreover have "calc_all ?gc pm' pd2 [2 ^ 19 + 8 * 10, 2 ^ 19 + 8 * 65530, 2 ^ 19 + 8 * 10] = Inr [2 ^ 19, 2 ^ 19 + 8 * 5, 2 ^ 19]"
    using r(3) [rule_format, OF ys] by (simp add: ad sample_new_words)
  ultimately show ?thesis
    using pm(1) r(1) by blast
qed

end
