(* ===== verification/CgrpSpaces.thy ===== *)
theory CgrpSpaces
  imports Complex_Main BdaRegion GenQueue MutableSpaces ParMarkBitMaps ObjectStarts CompactData
begin

text \<open>
  \<open>MutableBDASpace::CGRPSpace\<close> of \<open>bda/mutableBDASpace.hpp\<close>,
  \<open>.inline.hpp\<close> and \<open>.cpp\<close>: the space of one class of interest, cut into
  containers.  A group is reached through its manager, because its operations
  write the manager's segment bitmap, the start array, the summary data and the
  cells of the container store; the model keeps all of them in \<open>bda_space\<close> and
  names a group by its index.  Cells come from \<open>AllocateHeap\<close>, which ends the
  VM rather than return NULL: \<open>bs_next_cell\<close> is the next one and
  \<open>bs_uninit\<close> is what it happens to contain.  \<open>bs_min_fill_size\<close> is
  \<open>CollectedHeap::min_fill_size()\<close>.
\<close>

section \<open>State\<close>

record cgrp =
  cs_space :: mspace
  cs_type :: addr
  cs_containers :: genqueue
  cs_pool :: genqueue
  cs_large_pool :: genqueue
  cs_last_segment :: container_t
  cs_segments_since_last_gc :: int

record bda_space =
  bs_self :: mspace
  bs_spaces :: "cgrp list"
  bs_segment_bitmap :: pm_bitmap
  bs_page_size :: size_t
  bs_start_array :: osarray
  bs_filler_header_size :: size_t
  bs_min_fill_size :: size_t
  bs_segment_sz :: size_t
  bs_dnf :: int
  bs_delegation_level :: int
  bs_default_collection_size :: int
  bs_node_fields :: int
  bs_cells :: cheap
  bs_next_cell :: cid
  bs_uninit :: container
  bs_summary :: pcdata
  bs_regions :: region_table

definition Log2MinRegionSize :: nat where
  "Log2MinRegionSize = 16"

definition MinRegionSize :: size_t where
  "MinRegionSize = 2 ^ Log2MinRegionSize"

definition MinRegionSizeBytes :: size_t where
  "MinRegionSizeBytes = MinRegionSize * 2 ^ LogHeapWordSize"

definition CONTAINER_IN_POOL_MASK :: nat where
  "CONTAINER_IN_POOL_MASK = 1"

definition new_cgrp :: "size_t \<Rightarrow> size_t \<Rightarrow> addr \<Rightarrow> cgrp result" where
  "new_cgrp page_sz alignment region =
     bind_result (new_mspace page_sz alignment) (\<lambda>ms.
     Inr \<lparr>cs_space = ms, cs_type = region, cs_containers = gq_create, cs_pool = gq_create,
          cs_large_pool = gq_create, cs_last_segment = None, cs_segments_since_last_gc = 0\<rparr>)"

text \<open>\<open>_spaces->at(i)\<close>, and writing through the pointer it returns.\<close>

definition cs_at :: "bda_space \<Rightarrow> int \<Rightarrow> cgrp result" where
  "cs_at s i =
     (if 0 \<le> i \<and> i < int (length (bs_spaces s)) then Inr (bs_spaces s ! nat i)
      else Inl (AssertFailed ''illegal index''))"

definition cs_put :: "bda_space \<Rightarrow> int \<Rightarrow> cgrp \<Rightarrow> bda_space" where
  "cs_put s i g = s\<lparr>bs_spaces := (bs_spaces s)[nat i := g]\<rparr>"

definition cs_equals :: "addr \<Rightarrow> cgrp \<Rightarrow> bool" where
  "cs_equals container_type g \<longleftrightarrow> container_type = cs_type g"

definition container_count :: "cgrp \<Rightarrow> int" where
  "container_count g = n_elements (cs_containers g)"

definition is_other_grp :: "bda_space \<Rightarrow> cgrp \<Rightarrow> bool" where
  "is_other_grp s g \<longleftrightarrow> cs_type g = region_start_ptr (bs_regions s)"

text \<open>\<open>p - n\<close> for a \<open>HeapWord* p\<close>.\<close>

definition hw_sub :: "addr \<Rightarrow> nat \<Rightarrow> addr" where
  "hw_sub p n = p - n * HeapWordSize"

section \<open>Sizes of segments\<close>

text \<open>
  \<open>calculate_reserved_sz\<close>.  The product with the fraction is one of doubles,
  exact below \<open>2 ^ 53\<close>, and is cut off when it becomes a \<open>size_t\<close>.
\<close>

definition calculate_reserved_sz :: "rat \<Rightarrow> bda_space \<Rightarrow> size_t" where
  "calculate_reserved_sz BDAContainerFraction s =
     (let f = 8;
          h = 2 * 8;
          term1 = bs_dnf s * f;
          term2 = bs_dnf s * bs_delegation_level s * (f + h);
          term3 = (f + h) + bs_node_fields s * ((f + h) + term1 + term2);
          reserved_sz_bytes = nat \<lfloor>of_int (term3 * bs_default_collection_size s mod int size_t_max1) * BDAContainerFraction\<rfloor>
      in nat (align_size_up (int (reserved_sz_bytes div 2 ^ LogHeapWordSize)) (int MinRegionSize)))"

definition calculate_large_reserved_sz :: "bda_space \<Rightarrow> size_t \<Rightarrow> size_t" where
  "calculate_large_reserved_sz s sz = nat (align_size_up (int sz) (int (bs_segment_sz s)))"

section \<open>Marking segments\<close>

definition mark_container :: "bda_space \<Rightarrow> container_t \<Rightarrow> (bda_space \<times> bool) result" where
  "mark_container s c =
     bind_result (cget (bs_cells s) c) (\<lambda>k.
     bind_result (mark_obj (bs_segment_bitmap s) (c_start k) (pointer_delta (c_hard_end k) (c_start k)))
       (\<lambda>(pm, marked). Inr (s\<lparr>bs_segment_bitmap := pm\<rparr>, marked)))"

definition unmark_container :: "bda_space \<Rightarrow> container_t \<Rightarrow> bda_space result" where
  "unmark_container s c =
     bind_result (cget (bs_cells s) c) (\<lambda>k.
     bind_result (addr_to_bit (bs_segment_bitmap s) (c_start k)) (\<lambda>beg_bit.
     bind_result (addr_to_bit (bs_segment_bitmap s) (hw_sub (c_hard_end k) 1)) (\<lambda>end_bit.
     bind_result (pm_clear_range (bs_segment_bitmap s) beg_bit end_bit) (\<lambda>pm.
     Inr (s\<lparr>bs_segment_bitmap := pm\<rparr>)))))"

definition bs_allocate_block :: "bda_space \<Rightarrow> addr \<Rightarrow> bda_space result" where
  "bs_allocate_block s obj =
     bind_result (allocate_block (bs_start_array s) obj) (\<lambda>osa. Inr (s\<lparr>bs_start_array := osa\<rparr>))"

section \<open>Setting up containers\<close>

definition allocate_container :: "bda_space \<Rightarrow> bda_space \<times> container_t" where
  "allocate_container s =
     (s\<lparr>bs_cells := (bs_cells s)(bs_next_cell s \<mapsto> bs_uninit s), bs_next_cell := bs_next_cell s + 1\<rparr>,
      Some (bs_next_cell s))"

definition setup_container ::
  "bda_space \<Rightarrow> int \<Rightarrow> container_t \<Rightarrow> mem_region \<Rightarrow> size_t \<Rightarrow> bda_space result" where
  "setup_container s i c mr obj_sz =
     bind_result (cs_at s i) (\<lambda>g.
     bind_result (cmod (bs_cells s) c (\<lambda>k. k\<lparr>
         c_start := mr_start mr, c_top := hw_add (mr_start mr) obj_sz,
         c_hard_end := mr_end mr,
         c_end := hw_sub (mr_end mr) (bs_filler_header_size s),
         c_next_segment := None, c_next := None, c_prev_segment := None,
         c_previous := None, c_saved_top := NULL\<rparr>)) (\<lambda>h1.
     bind_result (value_at (bs_regions s) (cs_type g)) (\<lambda>v.
     bind_result (cmod h1 c (\<lambda>k. k\<lparr>c_space_id := exact_log2 (unat v), c_scanned_flag := -1\<rparr>)) (\<lambda>h2.
     let s1 = s\<lparr>bs_cells := h2\<rparr> in
     bind_result (if is_other_grp s1 g
                  then bind_result (mark_container s1 c) (\<lambda>(s2, _). Inr s2)
                  else Inr s1) (\<lambda>s2.
     bind_result (install_container_in_region (bs_cells s2) (bs_summary s2) c) (\<lambda>pd.
     let s3 = s2\<lparr>bs_summary := pd\<rparr> in
     bind_result (cget (bs_cells s3) c) (\<lambda>k. bs_allocate_block s3 (c_start k))))))))"

definition allocate_and_setup_container ::
  "bda_space \<Rightarrow> int \<Rightarrow> addr \<Rightarrow> size_t \<Rightarrow> size_t \<Rightarrow> (bda_space \<times> container_t) result" where
  "allocate_and_setup_container s i start reserved_sz obj_sz =
     (let (s1, container) = allocate_container s
      in bind_result (setup_container s1 i container \<lparr>mr_start = start, mr_word_size = reserved_sz\<rparr> obj_sz)
           (\<lambda>s2. Inr (s2, container)))"

definition zero_container :: container where
  "zero_container = \<lparr>c_top = 0, c_start = 0, c_end = 0, c_hard_end = 0, c_saved_top = 0, c_space_id = 0,
     c_scanned_flag = 0, c_next_segment = None, c_prev_segment = None, c_next = None, c_previous = None\<rparr>"

text \<open>\<open>free_container\<close>: NULL is dereferenced by its assertion.\<close>

definition free_container :: "bda_space \<Rightarrow> int \<Rightarrow> container_t \<Rightarrow> bda_space result" where
  "free_container s i c =
     bind_result (cs_at s i) (\<lambda>g.
     bind_result (cget (bs_cells s) c) (\<lambda>k.
     if c_prev_segment k = None \<and> c_next_segment k = None then
       bind_result (cmod (bs_cells s) c (\<lambda>_. zero_container)) (\<lambda>h1.
       bind_result (gq_enqueue h1 (cs_pool g) c) (\<lambda>(h2, q).
       Inr (cs_put (s\<lparr>bs_cells := h2\<rparr>) i (g\<lparr>cs_pool := q\<rparr>))))
     else Inl (AssertFailed ''segment associated with parent container'')))"

section \<open>Pushing containers\<close>

definition region_container :: "bda_space \<Rightarrow> addr \<Rightarrow> container_t result" where
  "region_container s p = get_container_at_addr (bs_summary s) p"

text \<open>
  The block of \<open>push_container\<close> for a region that already names a
  container.  \<open>segment_starts\<close> are the values of the loop variable \<open>p\<close>, for segments
  of at least one word.
\<close>

definition segment_starts :: "size_t \<Rightarrow> addr \<Rightarrow> size_t \<Rightarrow> addr list" where
  "segment_starts seg ptr reserved_sz =
     map (\<lambda>k. hw_add ptr (k * seg)) [1..<(reserved_sz + seg - 1) div seg]"

definition free_between :: "int \<Rightarrow> container_t \<Rightarrow> container_t \<Rightarrow> container_t \<Rightarrow> addr \<Rightarrow> bda_space \<Rightarrow> bda_space result" where
  "free_between i c first_seg last_seg p s =
     bind_result (region_container s p) (\<lambda>temp.
     if temp \<noteq> c \<and> temp \<noteq> first_seg \<and> temp \<noteq> last_seg then free_container s i temp else Inr s)"

definition choose_container ::
  "bda_space \<Rightarrow> addr \<Rightarrow> size_t \<Rightarrow> container_t \<Rightarrow> (bda_space \<times> container_t) result" where
  "choose_container s ptr reserved_sz container =
     bind_result (cget (bs_cells s) container) (\<lambda>k.
     if c_start k \<noteq> ptr then
       bind_result (region_container s (hw_sub (hw_add ptr reserved_sz) 1)) (\<lambda>temp.
       if temp \<noteq> container then Inr (s, temp) else Inr (allocate_container s))
     else Inr (s, container))"

definition reuse_container ::
  "bda_space \<Rightarrow> int \<Rightarrow> addr \<Rightarrow> size_t \<Rightarrow> size_t \<Rightarrow> container_t \<Rightarrow> container_t \<Rightarrow> (bda_space \<times> container_t) result" where
  "reuse_container s i ptr reserved_sz sz container last_seg =
     bind_result (cs_at s i) (\<lambda>g.
     let s1 = cs_put s i (g\<lparr>cs_pool := gq_phantom_remove (cs_pool g)\<rparr>);
         first_seg = container in
     bind_result (choose_container s1 ptr reserved_sz container) (\<lambda>(s2, c).
     bind_result (fold_result (free_between i c first_seg last_seg)
                   (segment_starts (bs_segment_sz s) ptr reserved_sz) s2) (\<lambda>s3.
     bind_result (setup_container s3 i c \<lparr>mr_start = ptr, mr_word_size = reserved_sz\<rparr> sz) (\<lambda>s4.
     Inr (s4, c)))))"

text \<open>The last block of \<open>push_container\<close>: the assertions and the queue.\<close>

definition enqueue_container :: "int \<Rightarrow> bda_space \<times> container_t \<Rightarrow> (bda_space \<times> container_t) result" where
  "enqueue_container i = (\<lambda>(s, c).
     if c = None then Inr (s, c)
     else bind_result (cget (bs_cells s) c) (\<lambda>k.
       if c_next_segment k = None \<and> c_prev_segment k = None \<and> c_next k = None \<and> c_previous k = None then
         bind_result (cs_at s i) (\<lambda>g.
         bind_result (gq_enqueue (bs_cells s) (cs_containers g) c) (\<lambda>(h, q).
         Inr (cs_put (s\<lparr>bs_cells := h\<rparr>) i
                (g\<lparr>cs_containers := q, cs_segments_since_last_gc := cs_segments_since_last_gc g + 1\<rparr>), c)))
       else Inl (AssertFailed ''should have been reset'')))"

definition push_container :: "bda_space \<Rightarrow> int \<Rightarrow> size_t \<Rightarrow> (bda_space \<times> container_t) result" where
  "push_container s i sz =
     bind_result (cs_at s i) (\<lambda>g.
     let reserved_sz = (if sz > bs_segment_sz s then calculate_large_reserved_sz s sz else bs_segment_sz s) in
     if \<not> is_other_grp s g then
       (case ms_cas_allocate (cs_space g) reserved_sz of
          (ms, None) \<Rightarrow> Inr (s, None)
        | (ms, Some ptr) \<Rightarrow>
            let s1 = cs_put s i (g\<lparr>cs_space := ms\<rparr>) in
            bind_result (region_container s1 ptr) (\<lambda>container.
            bind_result (region_container s1 (hw_add ptr reserved_sz)) (\<lambda>last_seg.
            bind_result
              (if container \<noteq> None then reuse_container s1 i ptr reserved_sz sz container last_seg
               else allocate_and_setup_container s1 i ptr reserved_sz sz)
              (enqueue_container i))))
     else
       (case ms_cas_allocate_aligned (bs_min_fill_size s) (cs_space g) reserved_sz of
          (ms, None, _) \<Rightarrow> Inr (s, None)
        | (ms, Some ptr, _) \<Rightarrow>
            bind_result (gq_dequeue (bs_cells s) (cs_pool g)) (\<lambda>(h, pool, container).
            let s1 = cs_put (s\<lparr>bs_cells := h\<rparr>) i (g\<lparr>cs_space := ms, cs_pool := pool\<rparr>) in
            bind_result
              (if container \<noteq> None
               then bind_result (setup_container s1 i container \<lparr>mr_start = ptr, mr_word_size = reserved_sz\<rparr> sz)
                      (\<lambda>s2. Inr (s2, container))
               else allocate_and_setup_container s1 i ptr reserved_sz sz)
              (enqueue_container i))))"

section \<open>Extending containers\<close>

text \<open>
  The loop of \<open>allocate_new_segment\<close> that looks for the end of the chain of
  segments.  With no other thread the exchange succeeds on the first cell
  without a successor; on a cyclic chain the loop does not end, which is None.
\<close>

partial_function (option) last_segment :: "cheap \<Rightarrow> container_t \<Rightarrow> container_t result option" where
  "last_segment h c =
     (case cget h c of
        Inl e \<Rightarrow> Some (Inl e)
      | Inr k \<Rightarrow> (if c_next_segment k = None then Some (Inr c) else last_segment h (c_next_segment k)))"

definition link_segment ::
  "bda_space \<Rightarrow> container_t \<Rightarrow> container_t \<Rightarrow> (bda_space \<times> addr option \<times> container_t) result" where
  "link_segment s container lst =
     bind_result (cmod (bs_cells s) lst (\<lambda>k. k\<lparr>c_next_segment := container\<rparr>)) (\<lambda>h1.
     bind_result (cmod h1 container (\<lambda>k. k\<lparr>c_prev_segment := lst\<rparr>)) (\<lambda>h2.
     bind_result (cget h2 container) (\<lambda>k.
     Inr (s\<lparr>bs_cells := h2\<rparr>, Some (c_start k), container))))"

definition allocate_new_segment ::
  "bda_space \<Rightarrow> int \<Rightarrow> size_t \<Rightarrow> container_t \<Rightarrow> (bda_space \<times> addr option \<times> container_t) result option" where
  "allocate_new_segment s i sz c =
     (case push_container s i sz of
        Inl e \<Rightarrow> Some (Inl e)
      | Inr (s1, container) \<Rightarrow>
          (if container \<noteq> None then
             map_option (\<lambda>r. bind_result r (link_segment s1 container)) (last_segment (bs_cells s1) c)
           else Some (Inr (s1, None, c))))"

section \<open>Large containers\<close>

text \<open>\<open>(char)v\<close> for a 32-bit value.\<close>

definition to_char :: "nat \<Rightarrow> int" where
  "to_char v = (let b = v mod 256 in if b < 128 then int b else int b - 256)"

definition install_container_in_space ::
  "bda_space \<Rightarrow> int \<Rightarrow> size_t \<Rightarrow> size_t \<Rightarrow> (bda_space \<times> container_t) result" where
  "install_container_in_space s i reserved_sz sz =
     bind_result (cs_at s i) (\<lambda>g.
     case ms_cas_allocate (cs_space g) reserved_sz of
       (ms, None) \<Rightarrow> Inr (s, None)
     | (ms, Some ptr) \<Rightarrow>
         let (s1, container) = allocate_container (cs_put s i (g\<lparr>cs_space := ms\<rparr>)) in
         bind_result (value_at (bs_regions s1) (cs_type g)) (\<lambda>v.
         bind_result (cmod (bs_cells s1) container (\<lambda>k. k\<lparr>
             c_start := ptr, c_top := hw_add ptr sz,
             c_end := hw_sub (hw_add ptr reserved_sz) (bs_filler_header_size s1),
             c_next_segment := None, c_next := None, c_prev_segment := None,
             c_previous := None, c_saved_top := NULL,
             c_space_id := to_char (unat v), c_hard_end := hw_add ptr reserved_sz\<rparr>)) (\<lambda>h.
         Inr (s1\<lparr>bs_cells := h\<rparr>, container))))"

definition allocate_large_container :: "bda_space \<Rightarrow> int \<Rightarrow> size_t \<Rightarrow> (bda_space \<times> container_t) result" where
  "allocate_large_container s i sz =
     bind_result (install_container_in_space s i (calculate_large_reserved_sz s sz) sz) (\<lambda>(s1, container).
     if container = None then Inr (s1, container)
     else bind_result (mark_container s1 container) (\<lambda>(s2, _).
       bind_result (cget (bs_cells s2) container) (\<lambda>k.
       bind_result (bs_allocate_block s2 (c_start k)) (\<lambda>s3.
       bind_result (install_container_in_region (bs_cells s3) (bs_summary s3) container) (\<lambda>pd.
       Inr (s3\<lparr>bs_summary := pd\<rparr>, container))))))"

section \<open>The pool\<close>

definition mask_container :: "cheap \<Rightarrow> container_t \<Rightarrow> cheap result" where
  "mask_container h c =
     bind_result (cget h c) (\<lambda>k.
     if c_end k AND CONTAINER_IN_POOL_MASK = 0
     then cmod h c (\<lambda>k. k\<lparr>c_end := c_end k OR CONTAINER_IN_POOL_MASK\<rparr>)
     else Inl (AssertFailed ''Information loss!''))"

definition unmask_container :: "cheap \<Rightarrow> container_t \<Rightarrow> cheap result" where
  "unmask_container h c =
     bind_result (cget h c) (\<lambda>k.
     if c_end k AND CONTAINER_IN_POOL_MASK \<noteq> 0
     then cmod h c (\<lambda>k. k\<lparr>c_end := nat (int (c_end k) AND NOT (int CONTAINER_IN_POOL_MASK))\<rparr>)
     else Inl (AssertFailed ''Malformed masking!''))"

definition not_in_pool :: "cheap \<Rightarrow> container_t \<Rightarrow> bool result" where
  "not_in_pool h c = bind_result (cget h c) (\<lambda>k. Inr (c_end k AND CONTAINER_IN_POOL_MASK = 0))"

definition cs_add_to_pool :: "bda_space \<Rightarrow> int \<Rightarrow> container_t \<Rightarrow> bda_space result" where
  "cs_add_to_pool s i c =
     bind_result (cs_at s i) (\<lambda>g.
     bind_result (not_in_pool (bs_cells s) c) (\<lambda>out.
     if out then
       bind_result (gq_remove_element (bs_cells s) (cs_containers g) c) (\<lambda>(h1, cq).
       bind_result (cget h1 c) (\<lambda>k.
       if c_top k = c_start k then
         bind_result (cmod h1 c (\<lambda>_. zero_container)) (\<lambda>h2.
         bind_result (mask_container h2 c) (\<lambda>h3.
         bind_result (value_at (bs_regions s) (cs_type g)) (\<lambda>v.
         bind_result (cmod h3 c (\<lambda>k. k\<lparr>c_space_id := exact_log2 (unat v)\<rparr>)) (\<lambda>h4.
         bind_result (gq_enqueue h4 (cs_pool g) c) (\<lambda>(h5, pq).
         Inr (cs_put (s\<lparr>bs_cells := h5\<rparr>) i (g\<lparr>cs_containers := cq, cs_pool := pq\<rparr>)))))))
       else Inl (AssertFailed ''container is not empty'')))
     else Inr s))"

definition remove_from_pool :: "bda_space \<Rightarrow> int \<Rightarrow> container_t \<Rightarrow> bda_space result" where
  "remove_from_pool s i c =
     bind_result (cs_at s i) (\<lambda>g.
     bind_result (gq_remove_element_mt (bs_cells s) (cs_pool g) c) (\<lambda>(h, q).
     Inr (cs_put (s\<lparr>bs_cells := h\<rparr>) i (g\<lparr>cs_pool := q\<rparr>))))"

text \<open>One turn of the loop of \<open>clear_delete_containers\<close>, and the loop.\<close>

definition clear_one :: "cheap \<Rightarrow> genqueue \<Rightarrow> container_t \<Rightarrow> (cheap \<times> genqueue \<times> container_t) result" where
  "clear_one h pool c =
     bind_result (cget h c) (\<lambda>k.
     bind_result (if c_prev_segment k \<noteq> None
                  then cmod h (c_prev_segment k) (\<lambda>p. p\<lparr>c_next_segment := c_next_segment k\<rparr>)
                  else Inr h) (\<lambda>h1.
     bind_result (cget h1 c) (\<lambda>k1.
     bind_result (if c_next_segment k1 \<noteq> None
                  then cmod h1 (c_next_segment k1) (\<lambda>n. n\<lparr>c_prev_segment := c_prev_segment k1\<rparr>)
                  else Inr h1) (\<lambda>h2.
     bind_result (cget h2 c) (\<lambda>k2.
     let n = c_next k2 in
     bind_result (cmod h2 c (\<lambda>_. zero_container)) (\<lambda>h3.
     bind_result (gq_enqueue_no_mt h3 pool c) (\<lambda>(h4, pool1). Inr (h4, pool1, n))))))))"

fun clear_loop :: "nat \<Rightarrow> cheap \<times> genqueue \<times> container_t \<Rightarrow> (cheap \<times> genqueue) result" where
  "clear_loop 0 (h, pool, c) = Inr (h, pool)"
| "clear_loop (Suc n) (h, pool, c) = bind_result (clear_one h pool c) (clear_loop n)"

definition clear_delete_containers :: "bda_space \<Rightarrow> int \<Rightarrow> bda_space result" where
  "clear_delete_containers s i =
     bind_result (cs_at s i) (\<lambda>g.
     bind_result
       (if container_count g > 0 then
          bind_result (clear_loop (nat (n_elements (cs_containers g)))
                        (bs_cells s, cs_pool g, gq_peek (cs_containers g))) (\<lambda>(h, pool).
          Inr (s\<lparr>bs_cells := h\<rparr>, g\<lparr>cs_pool := pool, cs_containers := gq_destroy (cs_containers g)\<rparr>))
        else Inr (s, g)) (\<lambda>(s1, g1).
     if n_elements (cs_containers g1) = 0 then Inr (cs_put s1 i g1)
     else Inl (AssertFailed ''list should not have containers.'')))"

section \<open>Walking over the containers of a group\<close>

text \<open>
  The \<open>for\<close> loops over \<open>_containers->iterator()\<close> visit the cells
  \<open>queue_cells\<close> from the iterator's first one; None is a cyclic queue.
\<close>

partial_function (option) queue_cells :: "cheap \<Rightarrow> container_t \<Rightarrow> cid list result option" where
  "queue_cells h p =
     (case p of
        None \<Rightarrow> Some (Inr [])
      | Some a \<Rightarrow>
          (case h a of
             None \<Rightarrow> Some (Inl NullDeref)
           | Some k \<Rightarrow> Option.bind (queue_cells h (c_next k)) (\<lambda>r. Some (map_sum id (\<lambda>as. a # as) r))))"

definition grp_cells :: "bda_space \<Rightarrow> cgrp \<Rightarrow> cid list result option" where
  "grp_cells s g =
     (case gq_iterator (cs_containers g) of
        Inl e \<Rightarrow> Some (Inl e)
      | Inr p \<Rightarrow> queue_cells (bs_cells s) p)"

fun nth_from :: "(container \<Rightarrow> container_t) \<Rightarrow> cheap \<Rightarrow> container_t \<Rightarrow> nat \<Rightarrow> container_t result" where
  "nth_from f h ret 0 = Inr ret"
| "nth_from f h ret (Suc n) =
     (if ret \<noteq> None then bind_result (cget h ret) (\<lambda>k. nth_from f h (f k) n) else Inr ret)"

definition get_next_n_segment :: "cheap \<Rightarrow> container_t \<Rightarrow> int \<Rightarrow> container_t result" where
  "get_next_n_segment h c n =
     (if c \<noteq> None then nth_from c_next h c (nat n)
      else Inl (AssertFailed ''container/segment cannot be null''))"

definition get_previous_n_segment :: "cheap \<Rightarrow> container_t \<Rightarrow> int \<Rightarrow> container_t result" where
  "get_previous_n_segment h c n =
     (if c \<noteq> None then nth_from c_previous h c (nat n)
      else Inl (AssertFailed ''container/segment cannot be null''))"

text \<open>The fields of the cells a loop visits; the cells exist, the walk has read them.\<close>

definition cells_of :: "cheap \<Rightarrow> cid list \<Rightarrow> container list" where
  "cells_of h as = map (\<lambda>a. the (h a)) as"

definition get_container_with_addr :: "bda_space \<Rightarrow> cgrp \<Rightarrow> addr \<Rightarrow> container_t result option" where
  "get_container_with_addr s g p =
     map_option (\<lambda>r. bind_result r (\<lambda>as.
       Inr (List.find (\<lambda>a. p = c_start (the (bs_cells s a))) as))) (grp_cells s g)"

definition save_top :: "container \<Rightarrow> container" where
  "save_top k = k\<lparr>c_saved_top := c_top k, c_scanned_flag := -1\<rparr>"

definition save_top_ptrs :: "int \<Rightarrow> bda_space \<Rightarrow> bda_space result option" where
  "save_top_ptrs i s =
     (case cs_at s i of
        Inl e \<Rightarrow> Some (Inl e)
      | Inr g \<Rightarrow>
          (if container_count g > 0 then
             map_option (\<lambda>r. bind_result r (\<lambda>as.
               bind_result (fold_result (\<lambda>a h. cmod h (Some a) save_top) as (bs_cells s)) (\<lambda>h.
               Inr (cs_put (s\<lparr>bs_cells := h\<rparr>) i (g\<lparr>cs_last_segment := gq_bot (cs_containers g)\<rparr>)))))
               (grp_cells s g)
           else Some (Inr (cs_put s i (g\<lparr>cs_last_segment := None\<rparr>)))))"

section \<open>Sizes of a group\<close>

definition cs_used_in_words :: "bda_space \<Rightarrow> cgrp \<Rightarrow> size_t result option" where
  "cs_used_in_words s g =
     (if \<not> is_other_grp s g \<and> container_count g > 0 then
        map_option (\<lambda>r. bind_result r (\<lambda>as.
          Inr (sum_list (map (\<lambda>k. pointer_delta (c_top k) (c_start k)) (cells_of (bs_cells s) as)))))
          (grp_cells s g)
      else Some (Inr (ms_used_in_words (cs_space g))))"

definition cs_free_in_words :: "bda_space \<Rightarrow> cgrp \<Rightarrow> size_t result option" where
  "cs_free_in_words s g =
     (if \<not> is_other_grp s g \<and> container_count g > 0 then
        map_option (\<lambda>r. bind_result r (\<lambda>as.
          Inr (sum_list (map (\<lambda>k. pointer_delta (c_end k) (c_top k)) (cells_of (bs_cells s) as)))))
          (grp_cells s g)
      else Some (Inr (ms_free_in_words (cs_space g))))"

definition fast_free_in_words :: "cgrp \<Rightarrow> size_t" where
  "fast_free_in_words g = ms_free_in_words (cs_space g)"

definition cs_free_in_bytes :: "bda_space \<Rightarrow> cgrp \<Rightarrow> size_t result option" where
  "cs_free_in_bytes s g = map_option (map_sum id (\<lambda>n. n * HeapWordSize)) (cs_free_in_words s g)"

definition fast_free_in_bytes :: "cgrp \<Rightarrow> size_t" where
  "fast_free_in_bytes g = fast_free_in_words g * HeapWordSize"

definition cs_used_in_bytes :: "bda_space \<Rightarrow> cgrp \<Rightarrow> size_t result option" where
  "cs_used_in_bytes s g = map_option (map_sum id (\<lambda>n. n * HeapWordSize)) (cs_used_in_words s g)"

definition reset_stats :: "cgrp \<Rightarrow> cgrp" where
  "reset_stats g = g\<lparr>cs_segments_since_last_gc := 0\<rparr>"

section \<open>Iteration and verification\<close>

text \<open>
  The objects of the containers, in the order the iterators apply their closure
  to them.  \<open>osize\<close> gives the size of the object at an address.
\<close>

fun walk_cells :: "(addr \<Rightarrow> size_t) \<Rightarrow> container list \<Rightarrow> addr list option" where
  "walk_cells osize [] = Some []"
| "walk_cells osize (k # ks) =
     (case walk_objects osize (c_start k) (c_top k) of
        None \<Rightarrow> None
      | Some (ps, _) \<Rightarrow> map_option (\<lambda>qs. ps @ qs) (walk_cells osize ks))"

definition object_iterate_containers :: "(addr \<Rightarrow> size_t) \<Rightarrow> bda_space \<Rightarrow> cgrp \<Rightarrow> addr list result option" where
  "object_iterate_containers osize s g =
     (if container_count g > 0 then
        (if gq_peek (cs_containers g) \<noteq> None then
           (case grp_cells s g of
              None \<Rightarrow> None
            | Some (Inl e) \<Rightarrow> Some (Inl e)
            | Some (Inr as) \<Rightarrow> map_option Inr (walk_cells osize (cells_of (bs_cells s) as)))
         else Some (Inl (AssertFailed ''GenQueue malformed. Should not be empty'')))
      else Some (Inr []))"

definition oop_iterate_containers :: "(addr \<Rightarrow> size_t) \<Rightarrow> bda_space \<Rightarrow> cgrp \<Rightarrow> addr list result option" where
  "oop_iterate_containers osize s g =
     (if container_count g > 0 then
        (if gq_peek (cs_containers g) \<noteq> None then
           (case grp_cells s g of
              None \<Rightarrow> None
            | Some (Inl e) \<Rightarrow> Some (Inl e)
            | Some (Inr as) \<Rightarrow> map_option Inr (walk_cells osize (cells_of (bs_cells s) as)))
         else Some (Inl (AssertFailed ''GenQueue malformed. Should not be empty'')))
      else Some (Inr []))"

definition oop_iterate_no_header_containers ::
  "(addr \<Rightarrow> size_t) \<Rightarrow> bda_space \<Rightarrow> cgrp \<Rightarrow> addr list result option" where
  "oop_iterate_no_header_containers osize s g =
     (if container_count g > 0 then
        (if gq_peek (cs_containers g) \<noteq> None then
           (case grp_cells s g of
              None \<Rightarrow> None
            | Some (Inl e) \<Rightarrow> Some (Inl e)
            | Some (Inr as) \<Rightarrow> map_option Inr (walk_cells osize (cells_of (bs_cells s) as)))
         else Some (Inl (AssertFailed ''GenQueue malformed. Should not be empty'')))
      else Some (Inr []))"

fun verify_cells :: "(addr \<Rightarrow> size_t) \<Rightarrow> container list \<Rightarrow> unit result option" where
  "verify_cells osize [] = Some (Inr ())"
| "verify_cells osize (k # ks) =
     (case walk_objects osize (c_start k) (c_top k) of
        None \<Rightarrow> None
      | Some (_, q) \<Rightarrow>
          (if q = c_top k then verify_cells osize ks
           else Some (Inl (VMExit ''end of last object must match end of allocated space''))))"

definition cs_verify :: "(addr \<Rightarrow> size_t) \<Rightarrow> bda_space \<Rightarrow> cgrp \<Rightarrow> unit result option" where
  "cs_verify osize s g =
     (if is_other_grp s g then ms_verify osize (cs_space g)
      else if ms_not_empty (cs_space g) then
        (case grp_cells s g of
           None \<Rightarrow> None
         | Some (Inl e) \<Rightarrow> Some (Inl e)
         | Some (Inr as) \<Rightarrow> verify_cells osize (cells_of (bs_cells s) as))
      else Some (Inr ()))"

end
