(* ===== verification/BdaSpaces.thy ===== *)
theory BdaSpaces
  imports CgrpSpaces KlassRegions
begin

text \<open>
  \<open>MutableBDASpace\<close> of \<open>bda/mutableBDASpace.cpp\<close>: the old object
  space as an array of groups, index 0 for all other objects.  Setting up pages is
  an argument of \<open>ms_initialize\<close>, and the calls to the operating system it
  returns are dropped here.  Quotients by \<open>BDARatio\<close>, a double, are those of
  rationals, which agree below \<open>2 ^ 53\<close>.
\<close>

section \<open>Construction\<close>

record bda_flags =
  BDAElementNumberFields :: int
  BDACollectionSize :: int
  BDADelegationLevel :: int
  ContainerNodeFields :: int
  BDAContainerFraction :: rat
  BDARatio :: rat
  BDAOldPLABSize :: size_t

definition new_groups :: "size_t \<Rightarrow> size_t \<Rightarrow> region_table \<Rightarrow> nat \<Rightarrow> cgrp list result" where
  "new_groups page_sz alignment rt n_regions =
     fold_result
       (\<lambda>i gs. bind_result (new_cgrp page_sz alignment (region_ptr rt (if i = 0 then 1 else 2 * i)))
          (\<lambda>g. Inr (gs @ [g])))
       [0..<n_regions] []"

definition new_bda_space ::
  "bda_flags \<Rightarrow> size_t \<Rightarrow> size_t \<Rightarrow> osarray \<Rightarrow> region_table \<Rightarrow> pcdata \<Rightarrow> nat \<Rightarrow>
   size_t \<Rightarrow> container \<Rightarrow> bda_space result" where
  "new_bda_space fl page_sz alignment osa rt pd n_bda min_fill uninit =
     bind_result (new_mspace page_sz alignment) (\<lambda>self.
     let s = \<lparr>bs_self = self, bs_spaces = [], bs_segment_bitmap = new_pm, bs_page_size = page_sz,
              bs_start_array = osa, bs_filler_header_size = 0, bs_min_fill_size = min_fill, bs_segment_sz = 0,
              bs_dnf = BDAElementNumberFields fl, bs_delegation_level = BDADelegationLevel fl,
              bs_default_collection_size = BDACollectionSize fl, bs_node_fields = ContainerNodeFields fl,
              bs_cells = (\<lambda>_. None), bs_next_cell = 0, bs_uninit = uninit, bs_summary = pd, bs_regions = rt\<rparr>;
         s1 = s\<lparr>bs_segment_sz := calculate_reserved_sz (BDAContainerFraction fl) s\<rparr> in
     bind_result (new_groups page_sz alignment rt (n_bda + 1)) (\<lambda>gs. Inr (s1\<lparr>bs_spaces := gs\<rparr>)))"

text \<open>
  \<open>post_initialize\<close>: \<open>header_sz\<close> is
  \<open>align_object_size(typeArrayOopDesc::header_size(T_INT))\<close>.
\<close>

definition post_initialize :: "pm_memory \<Rightarrow> size_t \<Rightarrow> mem_region \<Rightarrow> bda_space \<Rightarrow> bda_space result" where
  "post_initialize vm header_sz reserved s =
     bind_result (pm_initialize vm (bs_segment_bitmap s) reserved) (\<lambda>(pm, ok).
     if ok then Inr (s\<lparr>bs_segment_bitmap := pm, bs_filler_header_size := header_sz\<rparr>)
     else Inl (VMExit ''Unable to allocate bitmaps for segment processing''))"

section \<open>Initialising the groups\<close>

text \<open>\<open>spaces()->at(i)->space()->initialize(mr, clear, mangle)\<close>.\<close>

type_synonym scaling = "size_t \<Rightarrow> size_t \<Rightarrow> size_t \<Rightarrow> size_t"

definition init_space ::
  "setup_flags \<Rightarrow> scaling \<Rightarrow> bda_space \<Rightarrow> int \<Rightarrow> mem_region \<Rightarrow> bool \<Rightarrow> bda_space result" where
  "init_space fl scale s i mr clear_space =
     bind_result (cs_at s i) (\<lambda>g.
     bind_result (ms_initialize fl scale (cs_space g) mr clear_space True) (\<lambda>(ms, _).
     Inr (cs_put s i (g\<lparr>cs_space := ms\<rparr>))))"

text \<open>
  The retry loop of \<open>initialize_regions\<close>.  Its guard can only hold for an
  alignment that is no power of two; \<open>quot k\<close> is
  \<open>(intptr_t)(space_size / BDARatio - k)\<close>.
\<close>

partial_function (option) shrink_region_sz :: "(nat \<Rightarrow> int) \<Rightarrow> int \<Rightarrow> size_t \<Rightarrow> nat \<Rightarrow> size_t \<Rightarrow> size_t option" where
  "shrink_region_sz quot bda_nregions alignment k bda_region_sz =
     (if bda_region_sz > 0 \<and> bda_region_sz < alignment then
        (let bda_space = align_size_down (quot k) (int alignment) mod int size_t_max1
         in shrink_region_sz quot bda_nregions alignment (k + 1)
              (nat (align_size_down (bda_space div bda_nregions) (int alignment))))
      else Some bda_region_sz)"

definition ratio_quotient :: "rat \<Rightarrow> size_t \<Rightarrow> nat \<Rightarrow> int" where
  "ratio_quotient ratio space_size k =
     (let q = rat_of_nat space_size / ratio - rat_of_nat k in if 0 \<le> q then \<lfloor>q\<rfloor> else \<lceil>q\<rceil>)"

definition bda_region_size :: "rat \<Rightarrow> size_t \<Rightarrow> int \<Rightarrow> size_t \<Rightarrow> size_t option" where
  "bda_region_size ratio space_size bda_nregions alignment =
     (let bda_space = align_size_down (ratio_quotient ratio space_size 0) (int alignment) mod int size_t_max1;
          bda_region_sz = (if bda_nregions > 0
                           then nat (align_size_down (bda_space div bda_nregions) (int alignment)) else 0)
      in shrink_region_sz (ratio_quotient ratio space_size) bda_nregions alignment 1 bda_region_sz)"

definition init_bda_region ::
  "setup_flags \<Rightarrow> scaling \<Rightarrow> size_t \<Rightarrow> nat \<Rightarrow> bda_space \<times> addr \<Rightarrow> (bda_space \<times> addr) result" where
  "init_bda_region fl scale bda_region_sz i = (\<lambda>(s, aux_start).
     (let aux_end = hw_add aux_start bda_region_sz
      in if pointer_delta aux_end aux_start mod bs_page_size s = 0 then
           bind_result (init_space fl scale s (int i) (mem_region_of aux_start aux_end) True)
             (\<lambda>s1. Inr (s1, aux_end))
         else Inl (AssertFailed ''region size not page aligned'')))"

definition initialize_regions ::
  "setup_flags \<Rightarrow> scaling \<Rightarrow> rat \<Rightarrow> bda_space \<Rightarrow> size_t \<Rightarrow> addr \<Rightarrow> addr \<Rightarrow> bda_space result option" where
  "initialize_regions fl scale ratio s space_size start end_addr =
     (if space_size mod MinRegionSize \<noteq> 0 then Some (Inl (AssertFailed ''space_size not region aligned''))
      else if ratio < 1 then Some (Inl (VMExit ''The BDARatio cannot go below 1!''))
      else map_option
        (\<lambda>bda_region_sz.
           bind_result (fold_result (init_bda_region fl scale bda_region_sz) [1..<length (bs_spaces s)] (s, start))
             (\<lambda>(s1, aux_start). init_space fl scale s1 0 (mem_region_of aux_start end_addr) True))
        (bda_region_size ratio space_size (int (length (bs_spaces s)) - 1) (bs_segment_sz s)))"

definition bs_clear :: "bda_space \<Rightarrow> bda_space" where
  "bs_clear s =
     s\<lparr>bs_self := ms_clear (bs_self s),
       bs_spaces := map (\<lambda>g. g\<lparr>cs_space := ms_clear (cs_space g)\<rparr>) (bs_spaces s)\<rparr>"

definition set_limits :: "bda_space \<Rightarrow> addr \<Rightarrow> addr \<Rightarrow> bda_space" where
  "set_limits s b e = s\<lparr>bs_self := (bs_self s)\<lparr>ms_bottom := b, ms_end := e\<rparr>\<rparr>"

definition update_layout :: "setup_flags \<Rightarrow> scaling \<Rightarrow> bda_space \<Rightarrow> mem_region \<Rightarrow> bda_space result" where
  "update_layout fl scale s new_mr =
     bind_result
       (if mr_end new_mr > ms_end (bs_self s) then
          bind_result (cs_at s 0) (\<lambda>g.
          init_space fl scale s 0 (mem_region_of (ms_bottom (cs_space g)) (mr_end new_mr)) False)
        else Inr s)
       (\<lambda>s1. Inr (set_limits s1 (mr_start new_mr) (mr_end new_mr)))"

definition bs_initialize ::
  "setup_flags \<Rightarrow> scaling \<Rightarrow> rat \<Rightarrow> bda_space \<Rightarrow> mem_region \<Rightarrow> bool \<Rightarrow> bda_space result option" where
  "bs_initialize fl scale ratio s mr clear_space =
     (if \<not> clear_space then Some (update_layout fl scale s mr)
      else
        (let s1 = set_limits s (mr_start mr) (mr_end mr);
             space_size = pointer_delta (mr_end mr) (mr_start mr)
         in map_option (\<lambda>r. bind_result r (\<lambda>s2. Inr (bs_clear s2)))
              (initialize_regions fl scale ratio s1 space_size (mr_start mr) (mr_end mr))))"

section \<open>Allocation\<close>

text \<open>
  \<open>cas_allocate\<close> serves the space of other objects and pushes the top of
  the whole space forward to that space's top.
\<close>

definition bs_cas_allocate :: "bda_space \<Rightarrow> size_t \<Rightarrow> (bda_space \<times> addr option) result" where
  "bs_cas_allocate s sz =
     bind_result (cs_at s 0) (\<lambda>cs.
     case ms_cas_allocate (cs_space cs) sz of
       (ms, None) \<Rightarrow> Inr (s, None)
     | (ms, Some obj) \<Rightarrow>
         let s1 = cs_put s 0 (cs\<lparr>cs_space := ms\<rparr>);
             self = bs_self s1;
             s2 = (if ms_top self < ms_top ms then s1\<lparr>bs_self := self\<lparr>ms_top := ms_top ms\<rparr>\<rparr> else s1)
         in if obj \<le> ms_top ms \<and> hw_add obj sz \<le> ms_top (bs_self s2) then Inr (s2, Some obj)
            else Inl (AssertFailed ''Incorrect push of the space's top''))"

definition bs_allocate :: "bda_space \<Rightarrow> size_t \<Rightarrow> (bda_space \<times> addr option) result" where
  "bs_allocate s sz = bs_cas_allocate s sz"

definition bs_allocate_container :: "bda_space \<Rightarrow> size_t \<Rightarrow> addr \<Rightarrow> (bda_space \<times> container_t) result" where
  "bs_allocate_container s sz r =
     (let i = ga_find (cs_equals r) (bs_spaces s) in
      if i > 0 then
        bind_result (push_container s i sz) (\<lambda>(s1, new_ctr).
        if new_ctr = None then push_container s1 0 sz else Inr (s1, new_ctr))
      else Inl (AssertFailed ''Containers can only be allocated in bda spaces already initialized''))"

text \<open>
  The walk along the segments of a container that both \<open>allocate_element\<close>
  and \<open>allocate_plab\<close> begin with: the first segment with room, as Inl of the
  block's address and the segment, or the last segment.  The exchange of
  \<open>_top\<close> succeeds, there being no other thread; the sum of the top and the size is
  taken not to wrap, \<open>sz\<close> being the size of an object or of a buffer.
\<close>

definition seg_alloc :: "container \<Rightarrow> size_t \<Rightarrow> container \<times> addr option" where
  "seg_alloc k sz =
     (let old_top = c_top k
      in if hw_add old_top sz < c_end k then (k\<lparr>c_top := hw_add old_top sz\<rparr>, Some old_top) else (k, None))"

partial_function (option) alloc_in_segments ::
  "cheap \<Rightarrow> size_t \<Rightarrow> container_t \<Rightarrow> (cheap \<times> addr option \<times> container_t) result option" where
  "alloc_in_segments h sz segment =
     (case cget h segment of
        Inl e \<Rightarrow> Some (Inl e)
      | Inr k \<Rightarrow>
          (case seg_alloc k sz of
             (k1, Some old_top) \<Rightarrow> Some (Inr (h(the segment \<mapsto> k1), Some old_top, segment))
           | (k1, None) \<Rightarrow>
               (if c_next_segment k = None then Some (Inr (h, None, segment))
                else alloc_in_segments h sz (c_next_segment k))))"

definition extend_container ::
  "bda_space \<Rightarrow> size_t \<Rightarrow> container_t \<Rightarrow> (bda_space \<times> addr option \<times> container_t) result option" where
  "extend_container s sz container =
     (case cget (bs_cells s) container of
        Inl e \<Rightarrow> Some (Inl e)
      | Inr k \<Rightarrow>
          (case cs_at s (c_space_id k) of
             Inl e \<Rightarrow> Some (Inl e)
           | Inr grp \<Rightarrow>
               (case allocate_new_segment s (c_space_id k) sz container of
                  None \<Rightarrow> None
                | Some (Inl e) \<Rightarrow> Some (Inl e)
                | Some (Inr (s1, Some p, c1)) \<Rightarrow> Some (Inr (s1, Some p, c1))
                | Some (Inr (s1, None, c1)) \<Rightarrow> allocate_new_segment s1 0 sz c1)))"

definition allocate_element ::
  "bda_space \<Rightarrow> size_t \<Rightarrow> container_t \<Rightarrow> (bda_space \<times> addr option \<times> container_t) result option" where
  "allocate_element s sz container =
     (case alloc_in_segments (bs_cells s) sz container of
        None \<Rightarrow> None
      | Some (Inl e) \<Rightarrow> Some (Inl e)
      | Some (Inr (h, Some old_top, c1)) \<Rightarrow>
          Some (bind_result (bs_allocate_block (s\<lparr>bs_cells := h\<rparr>) old_top) (\<lambda>s1. Inr (s1, Some old_top, c1)))
      | Some (Inr (h, None, c1)) \<Rightarrow> extend_container (s\<lparr>bs_cells := h\<rparr>) sz c1)"

definition allocate_plab ::
  "bda_flags \<Rightarrow> bda_space \<Rightarrow> container_t \<Rightarrow> (bda_space \<times> addr option \<times> container_t) result option" where
  "allocate_plab fl s container =
     (case alloc_in_segments (bs_cells s) (BDAOldPLABSize fl) container of
        None \<Rightarrow> None
      | Some (Inl e) \<Rightarrow> Some (Inl e)
      | Some (Inr (h, Some old_top, c1)) \<Rightarrow>
          Some (bind_result (bs_allocate_block (s\<lparr>bs_cells := h\<rparr>) old_top) (\<lambda>s1. Inr (s1, Some old_top, c1)))
      | Some (Inr (h, None, c1)) \<Rightarrow> extend_container (s\<lparr>bs_cells := h\<rparr>) (BDAOldPLABSize fl) c1)"

section \<open>Queries\<close>

definition bs_contains :: "bda_space \<Rightarrow> addr \<Rightarrow> bool" where
  "bs_contains s p \<longleftrightarrow> list_ex (\<lambda>g. ms_contains (cs_space g) p) (bs_spaces s)"

definition grp_index_contains_obj :: "bda_space \<Rightarrow> addr \<Rightarrow> int" where
  "grp_index_contains_obj s p = ga_find (\<lambda>g. ms_contains (cs_space g) p) (bs_spaces s)"

definition top_region_for_stripe :: "bda_space \<Rightarrow> addr \<Rightarrow> addr result" where
  "top_region_for_stripe s stripe_start =
     (let index = grp_index_contains_obj s stripe_start in
      if index > -1 then bind_result (cs_at s index) (\<lambda>g. Inr (ms_top (cs_space g)))
      else Inl (AssertFailed ''There's no region containing the stripe''))"

text \<open>
  \<open>region_for\<close>, \<open>top_specific\<close> and \<open>used_region\<close> search for the
  address \<open>slot\<close> of their own parameter instead of the region it holds.
\<close>

definition region_for :: "bda_space \<Rightarrow> addr \<Rightarrow> mspace result" where
  "region_for s slot =
     bind_result (cs_at s (ga_find (cs_equals slot) (bs_spaces s))) (\<lambda>g. Inr (cs_space g))"

definition top_specific :: "bda_space \<Rightarrow> addr \<Rightarrow> addr result" where
  "top_specific s slot =
     bind_result (cs_at s (ga_find (cs_equals slot) (bs_spaces s))) (\<lambda>g. Inr (ms_top (cs_space g)))"

definition bs_used_region :: "bda_space \<Rightarrow> addr \<Rightarrow> mem_region result" where
  "bs_used_region s slot =
     bind_result (cs_at s (ga_find (cs_equals slot) (bs_spaces s))) (\<lambda>g. Inr (ms_used_region (cs_space g)))"

definition num_bda_regions :: "bda_space \<Rightarrow> int" where
  "num_bda_regions s = int (length (bs_spaces s)) - 1"

definition bs_container_count :: "bda_space \<Rightarrow> int" where
  "bs_container_count s = sum_list (map container_count (drop 1 (bs_spaces s)))"

definition is_bdaspace_empty :: "bda_space \<Rightarrow> bool" where
  "is_bdaspace_empty s \<longleftrightarrow> list_all (\<lambda>g. ms_is_empty (cs_space g)) (drop 1 (bs_spaces s))"

definition container_for_addr :: "bda_space \<Rightarrow> addr \<Rightarrow> container_t result option" where
  "container_for_addr s p =
     (case cs_at s (grp_index_contains_obj s p) of
        Inl e \<Rightarrow> Some (Inl e)
      | Inr g \<Rightarrow> get_container_with_addr s g p)"

section \<open>Sizes\<close>

fun sum_grps :: "(cgrp \<Rightarrow> size_t result option) \<Rightarrow> cgrp list \<Rightarrow> size_t result option" where
  "sum_grps f [] = Some (Inr 0)"
| "sum_grps f (g # gs) =
     Option.bind (f g) (\<lambda>r. case r of
         Inl e \<Rightarrow> Some (Inl e)
       | Inr n \<Rightarrow> map_option (map_sum id (\<lambda>m. n + m)) (sum_grps f gs))"

definition bs_used_in_words :: "bda_space \<Rightarrow> size_t result option" where
  "bs_used_in_words s = sum_grps (cs_used_in_words s) (bs_spaces s)"

definition bs_free_in_words :: "bda_space \<Rightarrow> size_t result option" where
  "bs_free_in_words s = sum_grps (cs_free_in_words s) (bs_spaces s)"

definition bs_free_in_bytes :: "bda_space \<Rightarrow> size_t" where
  "bs_free_in_bytes s = sum_list (map fast_free_in_bytes (bs_spaces s))"

definition grp_free_in_words :: "bda_space \<Rightarrow> int \<Rightarrow> size_t result option" where
  "grp_free_in_words s grp =
     (case cs_at s grp of Inl e \<Rightarrow> Some (Inl e) | Inr g \<Rightarrow> cs_free_in_words s g)"

definition grp_free_in_bytes :: "bda_space \<Rightarrow> int \<Rightarrow> size_t result option" where
  "grp_free_in_bytes s grp =
     (case cs_at s grp of Inl e \<Rightarrow> Some (Inl e) | Inr g \<Rightarrow> cs_free_in_bytes s g)"

text \<open>
  The size queries of a thread also search for the address of a local variable,
  \<open>slot\<close>, and fall back on the group of other objects.
\<close>

definition thread_grp :: "bda_space \<Rightarrow> addr \<Rightarrow> cgrp result" where
  "thread_grp s slot =
     (let i = ga_find (cs_equals slot) (bs_spaces s) in cs_at s (if i = -1 then 0 else i))"

definition capacity_in_words_thr :: "bda_space \<Rightarrow> addr \<Rightarrow> size_t result" where
  "capacity_in_words_thr s slot =
     bind_result (thread_grp s slot) (\<lambda>g. Inr (ms_capacity_in_words (cs_space g)))"

definition tlab_capacity :: "bda_space \<Rightarrow> addr \<Rightarrow> size_t result" where
  "tlab_capacity s slot =
     bind_result (thread_grp s slot) (\<lambda>g. Inr (ms_capacity_in_bytes (cs_space g)))"

definition tlab_used :: "bda_space \<Rightarrow> addr \<Rightarrow> size_t result" where
  "tlab_used s slot =
     bind_result (thread_grp s slot) (\<lambda>g. Inr (ms_used_in_bytes (cs_space g)))"

definition unsafe_max_tlab_alloc :: "bda_space \<Rightarrow> addr \<Rightarrow> size_t result" where
  "unsafe_max_tlab_alloc s slot =
     bind_result (thread_grp s slot) (\<lambda>g. Inr (ms_free_in_bytes (cs_space g)))"

section \<open>Collector support\<close>

definition bs_add_to_pool :: "bda_space \<Rightarrow> container_t \<Rightarrow> nat \<Rightarrow> bda_space result" where
  "bs_add_to_pool s c grp_id =
     bind_result (cs_at s (int grp_id)) (\<lambda>grp. cs_add_to_pool s (int grp_id) c)"

fun save_tops_loop :: "nat list \<Rightarrow> bda_space \<Rightarrow> bda_space result option" where
  "save_tops_loop [] s = Some (Inr s)"
| "save_tops_loop (i # is) s =
     Option.bind (save_top_ptrs (int i) s) (\<lambda>r. case r of
         Inl e \<Rightarrow> Some (Inl e)
       | Inr s1 \<Rightarrow> save_tops_loop is s1)"

definition save_tops_for_scavenge :: "bda_space \<Rightarrow> bda_space result option" where
  "save_tops_for_scavenge s = save_tops_loop [0..<length (bs_spaces s)] s"

definition clear_delete_containers_in_space :: "bda_space \<Rightarrow> nat \<Rightarrow> bda_space result" where
  "clear_delete_containers_in_space s grp_id =
     (if grp_id = 0 then
        bind_result (clear_delete_containers s (int grp_id)) (\<lambda>s1.
        bind_result (cs_at s1 (int grp_id)) (\<lambda>grp.
        bind_result (addr_to_bit (bs_segment_bitmap s1) (ms_bottom (cs_space grp))) (\<lambda>b.
        bind_result (addr_to_bit (bs_segment_bitmap s1) (ms_top (cs_space grp))) (\<lambda>e.
        bind_result (pm_clear_range (bs_segment_bitmap s1) b e) (\<lambda>pm.
        Inr (s1\<lparr>bs_segment_bitmap := pm\<rparr>))))))
      else Inl (AssertFailed ''should not be called to clear the segments of bda spaces.''))"

definition reset_grp_stats :: "bda_space \<Rightarrow> bda_space" where
  "reset_grp_stats s = s\<lparr>bs_spaces := map reset_stats (bs_spaces s)\<rparr>"

definition bs_set_top :: "bda_space \<Rightarrow> addr \<Rightarrow> bda_space" where
  "bs_set_top s v =
     s\<lparr>bs_spaces := map (\<lambda>g. if ms_contains (cs_space g) v
                             then g\<lparr>cs_space := (cs_space g)\<lparr>ms_top := v\<rparr>\<rparr> else g) (bs_spaces s),
       bs_self := (bs_self s)\<lparr>ms_top := v\<rparr>\<rparr>"

fun verify_grps :: "(cgrp \<Rightarrow> unit result option) \<Rightarrow> cgrp list \<Rightarrow> unit result option" where
  "verify_grps f [] = Some (Inr ())"
| "verify_grps f (g # gs) =
     Option.bind (f g) (\<lambda>r. case r of Inl e \<Rightarrow> Some (Inl e) | Inr _ \<Rightarrow> verify_grps f gs)"

definition bs_verify :: "(addr \<Rightarrow> size_t) \<Rightarrow> bda_space \<Rightarrow> unit result option" where
  "bs_verify osize s = verify_grps (cs_verify osize s) (bs_spaces s)"

section \<open>Resizing groups\<close>

definition increase_space_noclear :: "setup_flags \<Rightarrow> scaling \<Rightarrow> mspace \<Rightarrow> size_t \<Rightarrow> mspace result" where
  "increase_space_noclear fl scale spc sz =
     bind_result (ms_initialize fl scale spc (mem_region_of (ms_bottom spc) (hw_add (ms_end spc) sz)) False True)
       (\<lambda>(ms, _). Inr ms)"

definition increase_space_set_top :: "setup_flags \<Rightarrow> scaling \<Rightarrow> mspace \<Rightarrow> size_t \<Rightarrow> addr \<Rightarrow> mspace result" where
  "increase_space_set_top fl scale spc sz new_top =
     bind_result (ms_initialize fl scale spc (mem_region_of (ms_bottom spc) (hw_add (ms_end spc) sz)) False True)
       (\<lambda>(ms, _). Inr (ms\<lparr>ms_top := new_top\<rparr>))"

definition shrink_space_clear :: "setup_flags \<Rightarrow> scaling \<Rightarrow> mspace \<Rightarrow> size_t \<Rightarrow> mspace result" where
  "shrink_space_clear fl scale spc new_size =
     bind_result (ms_initialize fl scale spc (mem_region_of (hw_add (ms_bottom spc) new_size) (ms_end spc)) True True)
       (\<lambda>(ms, _). Inr ms)"

definition shrink_space_noclear :: "setup_flags \<Rightarrow> scaling \<Rightarrow> mspace \<Rightarrow> size_t \<Rightarrow> mspace result" where
  "shrink_space_noclear fl scale spc new_size =
     bind_result (ms_initialize fl scale spc (mem_region_of (hw_add (ms_bottom spc) new_size) (ms_end spc)) False True)
       (\<lambda>(ms, _). Inr ms)"

definition shrink_space_end_noclear :: "setup_flags \<Rightarrow> scaling \<Rightarrow> mspace \<Rightarrow> size_t \<Rightarrow> mspace result" where
  "shrink_space_end_noclear fl scale spc shrink_size =
     bind_result (ms_initialize fl scale spc (mem_region_of (ms_bottom spc) (hw_sub (ms_end spc) shrink_size)) False True)
       (\<lambda>(ms, _). Inr ms)"

definition move_space_resize ::
  "setup_flags \<Rightarrow> scaling \<Rightarrow> bda_space \<Rightarrow> mspace \<Rightarrow> addr \<Rightarrow> size_t \<Rightarrow> mspace result" where
  "move_space_resize fl scale s spc to_ptr new_size =
     (if hw_add to_ptr new_size mod bs_page_size s = 0 then
        bind_result (ms_initialize fl scale spc \<lparr>mr_start = to_ptr, mr_word_size = new_size\<rparr> False True)
          (\<lambda>(ms, _). Inr ms)
      else Inl (AssertFailed ''bottom not page aligned''))"

text \<open>The pair is the grown space and the one it grows into.\<close>

definition grow_through_neighbour ::
  "setup_flags \<Rightarrow> scaling \<Rightarrow> mspace \<Rightarrow> mspace \<Rightarrow> size_t \<Rightarrow> (mspace \<times> mspace) result" where
  "grow_through_neighbour fl scale growee eaten expand_size =
     bind_result (ms_initialize fl scale growee
         (mem_region_of (ms_bottom growee)
            (nat (round_to (int (hw_add (ms_top eaten) expand_size)) (int MinRegionSizeBytes)))) False True)
       (\<lambda>(g1, _).
     let g2 = g1\<lparr>ms_top := ms_top eaten\<rparr> in
     bind_result (ms_initialize fl scale eaten (mem_region_of (ms_end g2) (ms_end eaten)) True True)
       (\<lambda>(e1, _). Inr (g2, e1)))"

definition merge_regions :: "setup_flags \<Rightarrow> scaling \<Rightarrow> bda_space \<Rightarrow> int \<Rightarrow> int \<Rightarrow> bda_space result" where
  "merge_regions fl scale s growee eaten =
     bind_result (cs_at s growee) (\<lambda>g.
     bind_result (cs_at s eaten) (\<lambda>e.
     bind_result (ms_initialize fl scale (cs_space g)
         (mem_region_of (ms_bottom (cs_space g)) (ms_end (cs_space e))) False True) (\<lambda>(ms, _).
     Inr (cs_put s growee (g\<lparr>cs_space := ms\<lparr>ms_top := ms_top (cs_space e)\<rparr>\<rparr>)))))"

definition shrink_and_adapt :: "setup_flags \<Rightarrow> scaling \<Rightarrow> bda_space \<Rightarrow> int \<Rightarrow> bda_space result" where
  "shrink_and_adapt fl scale s grp =
     bind_result (cs_at s grp) (\<lambda>g.
     init_space fl scale s grp \<lparr>mr_start = ms_end (cs_space g), mr_word_size = 0\<rparr> True)"

definition select_limits :: "mem_region \<Rightarrow> addr \<times> addr" where
  "select_limits mr =
     (nat (round_to (int (mr_start mr)) (int MinRegionSizeBytes)),
      nat (round_down (int (mr_end mr)) (int MinRegionSizeBytes)))"

end
