(* ===== verification/BdaAlloc.thy ===== *)
theory BdaAlloc
  imports BdaSpaces
begin

text \<open>
  Allocation in the big-data space between two old collections, when the regions
  above the top of each group still belong to no container.  The invariant
  \<open>seg_inv\<close> says that the segments lie in their groups and do not overlap and
  that chains of segments have an end; every allocation keeps it, and the memory
  it hands out was not handed out before.
\<close>

section \<open>What the operations change\<close>

lemma bind_resultE:
  assumes "bind_result r f = Inr y"
  obtains x where "r = Inr x" "f x = Inr y"
  using assms by (cases r) auto

lemma bs_allocate_block_frame:
  "bs_allocate_block s p = Inr s' \<Longrightarrow> \<exists>osa. s' = s\<lparr>bs_start_array := osa\<rparr>"
  by (auto simp: bs_allocate_block_def split: sum.splits)

lemma mark_container_frame:
  "mark_container s c = Inr (s', b) \<Longrightarrow> \<exists>pm. s' = s\<lparr>bs_segment_bitmap := pm\<rparr>"
  by (auto simp: mark_container_def split: sum.splits prod.splits)

text \<open>A segment as \<open>setup_container\<close> leaves it.\<close>

definition new_segment :: "addr \<Rightarrow> size_t \<Rightarrow> size_t \<Rightarrow> size_t \<Rightarrow> int \<Rightarrow> container" where
  "new_segment ptr reserved_sz sz filler sp =
     \<lparr>c_top = hw_add ptr sz, c_start = ptr, c_end = hw_sub (hw_add ptr reserved_sz) filler,
      c_hard_end = hw_add ptr reserved_sz, c_saved_top = NULL, c_space_id = sp, c_scanned_flag = -1,
      c_next_segment = None, c_prev_segment = None, c_next = None, c_previous = None\<rparr>"

lemma new_segment_simps [simp]:
  "c_start (new_segment ptr r sz f sp) = ptr" "c_top (new_segment ptr r sz f sp) = hw_add ptr sz"
  "c_end (new_segment ptr r sz f sp) = hw_sub (hw_add ptr r) f"
  "c_hard_end (new_segment ptr r sz f sp) = hw_add ptr r" "c_space_id (new_segment ptr r sz f sp) = sp"
  "c_next_segment (new_segment ptr r sz f sp) = None" "c_prev_segment (new_segment ptr r sz f sp) = None"
  "c_next (new_segment ptr r sz f sp) = None" "c_previous (new_segment ptr r sz f sp) = None"
  by (simp_all add: new_segment_def)

definition grp_value :: "bda_space \<Rightarrow> cgrp \<Rightarrow> int \<Rightarrow> bool" where
  "grp_value s g sp \<longleftrightarrow> (\<exists>v. value_at (bs_regions s) (cs_type g) = Inr v \<and> exact_log2 (unat v) = sp)"

lemma setup_container_effect:
  assumes "setup_container s i (Some a) \<lparr>mr_start = ptr, mr_word_size = r\<rparr> sz = Inr s'"
    "cs_at s i = Inr g" "grp_value s g sp"
  shows "\<exists>pd pm osa. s' = s\<lparr>bs_cells := (bs_cells s)(a \<mapsto> new_segment ptr r sz (bs_filler_header_size s) sp),
      bs_segment_bitmap := pm, bs_summary := pd, bs_start_array := osa\<rparr> \<and>
    install_bda_container ((bs_cells s)(a \<mapsto> new_segment ptr r sz (bs_filler_header_size s) sp))
      (bs_summary s) (Some a) = Inr pd"
proof -
  obtain v where v: "value_at (bs_regions s) (cs_type g) = Inr v" "exact_log2 (unat v) = sp"
    using assms(3) by (auto simp: grp_value_def)
  obtain k0 where k0: "bs_cells s a = Some k0"
    using assms(1,2) by (cases "bs_cells s a") (simp_all add: setup_container_def)
  define k where "k = new_segment ptr r sz (bs_filler_header_size s) sp"
  define s1 where "s1 = s\<lparr>bs_cells := (bs_cells s)(a \<mapsto> k)\<rparr>"
  have "k0\<lparr>c_start := ptr, c_top := hw_add ptr sz, c_hard_end := hw_add ptr r,
      c_end := hw_sub (hw_add ptr r) (bs_filler_header_size s), c_next_segment := None, c_next := None,
      c_prev_segment := None, c_previous := None, c_saved_top := NULL, c_space_id := sp, c_scanned_flag := -1\<rparr> = k"
    by (simp add: k_def new_segment_def)
  then have "bind_result (if is_other_grp s1 g then bind_result (mark_container s1 (Some a)) (\<lambda>(s2, _). Inr s2)
        else Inr s1) (\<lambda>s2. bind_result (install_container_in_region (bs_cells s2) (bs_summary s2) (Some a)) (\<lambda>pd.
      bind_result (cget (bs_cells (s2\<lparr>bs_summary := pd\<rparr>)) (Some a)) (\<lambda>k. bs_allocate_block (s2\<lparr>bs_summary := pd\<rparr>) (c_start k)))) = Inr s'"
    using assms(1,2) v k0 unfolding setup_container_def Let_def s1_def
    by (simp add: mr_end_def split del: if_split)
  then obtain s2 pd where 2: "(if is_other_grp s1 g
        then bind_result (mark_container s1 (Some a)) (\<lambda>(s2, _). Inr s2) else Inr s1) = Inr s2"
    "install_container_in_region (bs_cells s2) (bs_summary s2) (Some a) = Inr pd"
    "bind_result (cget (bs_cells (s2\<lparr>bs_summary := pd\<rparr>)) (Some a)) (\<lambda>k. bs_allocate_block (s2\<lparr>bs_summary := pd\<rparr>) (c_start k)) = Inr s'"
    by (rule bind_resultE) (erule bind_resultE, blast)
  have "\<exists>pm. s2 = s1\<lparr>bs_segment_bitmap := pm\<rparr>"
  proof (cases "is_other_grp s1 g")
    case True
    then show ?thesis using 2(1) mark_container_frame by (auto split: sum.splits prod.splits)
  next
    case False
    then have "s2 = s1\<lparr>bs_segment_bitmap := bs_segment_bitmap s1\<rparr>" using 2(1) by simp
    then show ?thesis by blast
  qed
  then obtain pm where pm: "s2 = s1\<lparr>bs_segment_bitmap := pm\<rparr>" by blast
  have "bs_allocate_block (s2\<lparr>bs_summary := pd\<rparr>) ptr = Inr s'"
    using 2(3) by (simp add: pm s1_def k_def)
  from bs_allocate_block_frame[OF this] obtain osa where "s' = s2\<lparr>bs_summary := pd, bs_start_array := osa\<rparr>"
    by auto
  then show ?thesis
    using 2(2) by (auto simp: pm s1_def k_def install_container_in_region_def)
qed

lemma gq_enqueue_same_data:
  assumes "gq_enqueue h q (Some a) = Inr (h', q')"
  shows "same_data h h'"
proof -
  obtain c where c: "h a = Some c"
    using assms by (cases "h a") (simp_all add: gq_enqueue_def Let_def)
  define h1 where "h1 = h(a \<mapsto> c\<lparr>c_previous := insert_end q\<rparr>)"
  have 1: "same_data h h1" using c by (simp add: h1_def same_data_upd)
  obtain h2 where h2: "link_next h1 (insert_end q) (Some a) = Inr h2" "h' = h2"
    using assms c by (auto simp: gq_enqueue_def Let_def h1_def split: sum.splits if_splits)
  have "same_data h h2"
  proof (cases "insert_end q")
    case None
    then show ?thesis using h2(1) 1 by (simp add: link_next_def)
  next
    case (Some y)
    then obtain d where "h1 y = Some d" using h2(1) by (cases "h1 y") (simp_all add: link_next_def)
    then show ?thesis using h2(1) Some 1 by (auto simp: link_next_def intro!: same_data_upd)
  qed
  then show ?thesis using h2(2) by simp
qed

text \<open>Regions and the container each belongs to.\<close>

definition region_of :: "pcdata \<Rightarrow> addr \<Rightarrow> nat" where
  "region_of pd p = (p - pd_region_start pd) div RegionSizeBytes"

lemma addr_to_region_idx_eq:
  assumes "addr_to_region_idx pd p = Inr i" "p < size_t_max1"
  shows "i = region_of pd p"
  using assms
  by (auto simp: addr_to_region_idx_def region_ok_def pointer_delta_le region_of_def RegionSize_def
      RegionSizeBytes_def LogHeapWordSize_def Log2RegionSize_def HeapWordSize_def div_mult2_eq [symmetric] split: if_splits)

lemma fold_set_container:
  assumes "fold_result (\<lambda>i pd. rd_mod pd i (\<lambda>r. r\<lparr>rd_container := c\<rparr>)) is pd = Inr pd'"
  shows "pd_region_start pd' = pd_region_start pd \<and> pd_region_end pd' = pd_region_end pd \<and>
    length (pd_regions pd') = length (pd_regions pd) \<and>
    (\<forall>j < length (pd_regions pd). j \<notin> set is \<longrightarrow> pd_regions pd' ! j = pd_regions pd ! j)"
  using assms
proof (induction "is" arbitrary: pd)
  case (Cons i "is")
  then obtain pd1 where "rd_mod pd i (\<lambda>r. r\<lparr>rd_container := c\<rparr>) = Inr pd1"
    "fold_result (\<lambda>i pd. rd_mod pd i (\<lambda>r. r\<lparr>rd_container := c\<rparr>)) is pd1 = Inr pd'"
    by (auto elim: bind_resultE)
  then show ?case using Cons.IH[of pd1] by (auto simp: rd_mod_def split: if_splits)
qed simp

lemma install_elsewhere:
  assumes "install_bda_container h pd (Some a) = Inr pd'" "h a = Some k"
    "c_start k \<le> c_end k" "c_end k < size_t_max1" "p < size_t_max1"
    "region_of pd p < region_of pd (c_start k) \<or> region_of pd (c_end k) < region_of pd p"
    "get_container_at_addr pd' p = Inr c"
  shows "get_container_at_addr pd p = Inr c"
proof -
  obtain i j where ij: "addr_to_region_idx pd (c_start k) = Inr i" "addr_to_region_idx pd (c_end k) = Inr j"
    "fold_result (\<lambda>i pd. rd_mod pd i (\<lambda>r. r\<lparr>rd_container := Some a\<rparr>)) [i..<j + 1] pd = Inr pd'"
    using assms(1,2) unfolding install_bda_container_def by (auto elim!: bind_resultE)
  note f = fold_set_container[OF ij(3)]
  have "i = region_of pd (c_start k)" "j = region_of pd (c_end k)"
    using addr_to_region_idx_eq[OF ij(1)] addr_to_region_idx_eq[OF ij(2)] assms(3,4) by auto
  obtain m r where m: "addr_to_region_idx pd' p = Inr m" "rd_get pd' m = Inr r" "c = rd_container r"
    using assms(7) unfolding get_container_at_addr_def by (auto elim!: bind_resultE)
  have m': "addr_to_region_idx pd p = Inr m" using m(1) f by (auto simp: addr_to_region_idx_def region_ok_def split: if_splits)
  then have "m = region_of pd p" using addr_to_region_idx_eq assms(5) by blast
  then have "m \<notin> set [i..<j + 1]"
    using assms(6) \<open>i = _\<close> \<open>j = _\<close> by auto
  then have "rd_get pd m = Inr r" using m(2) f by (auto simp: rd_get_def split: if_splits)
  then show ?thesis using m' m(3) by (simp add: get_container_at_addr_def)
qed

lemma install_region_start:
  assumes "install_bda_container h pd c = Inr pd'"
  shows "pd_region_start pd' = pd_region_start pd"
  using assms fold_set_container unfolding install_bda_container_def by (auto elim!: bind_resultE)

section \<open>The invariant\<close>

abbreviation grp_space :: "bda_space \<Rightarrow> nat \<Rightarrow> mspace" where
  "grp_space s i \<equiv> cs_space (bs_spaces s ! i)"

text \<open>
  The groups: their spaces are sound and do not overlap, and the identifier
  \<open>setup_container\<close> computes for a group is its index.  Segments are whole
  multiples of the compactor's regions.
\<close>

definition grp_ok :: "bda_space \<Rightarrow> nat \<Rightarrow> bool" where
  "grp_ok s i \<longleftrightarrow>
     (is_other_grp s (bs_spaces s ! i) \<longleftrightarrow> i = 0) \<and> grp_value s (bs_spaces s ! i) (int i) \<and>
     (if i = 0 then ms_card_inv (grp_space s i) \<and> remove_end (cs_pool (bs_spaces s ! i)) = None
      else ms_inv (grp_space s i))"

definition grps_ok :: "bda_space \<Rightarrow> bool" where
  "grps_ok s \<longleftrightarrow>
     RegionSize dvd bs_segment_sz s \<and>
     0 < bs_filler_header_size s \<and> bs_filler_header_size s \<le> bs_segment_sz s \<and> bs_spaces s \<noteq> [] \<and>
     (\<forall>i < length (bs_spaces s). grp_ok s i) \<and>
     (\<forall>i < length (bs_spaces s). \<forall>j < length (bs_spaces s). i \<noteq> j \<longrightarrow>
        ms_end (grp_space s i) \<le> ms_bottom (grp_space s j) \<or> ms_end (grp_space s j) \<le> ms_bottom (grp_space s i))"

text \<open>
  The segments: each lies below the top of its group, with its own top in
  bounds, and a successor in its chain is younger.
\<close>

definition seg_ok :: "bda_space \<Rightarrow> cid \<Rightarrow> container \<Rightarrow> bool" where
  "seg_ok s a k \<longleftrightarrow>
     a < bs_next_cell s \<and>
     (\<exists>i < length (bs_spaces s). c_space_id k = int i \<and> ms_bottom (grp_space s i) \<le> c_start k \<and>
        c_hard_end k \<le> ms_top (grp_space s i)) \<and>
     c_start k \<le> c_top k \<and> c_top k \<le> c_hard_end k \<and> c_end k \<le> c_hard_end k \<and>
     (\<forall>b. c_next_segment k = Some b \<longrightarrow> a < b \<and> bs_cells s b \<noteq> None)"

definition apart_segs :: "container \<Rightarrow> container \<Rightarrow> bool" where
  "apart_segs k l \<longleftrightarrow> c_hard_end k \<le> c_start l \<or> c_hard_end l \<le> c_start k"

definition segs_ok :: "bda_space \<Rightarrow> bool" where
  "segs_ok s \<longleftrightarrow>
     (\<forall>a k. bs_cells s a = Some k \<longrightarrow> seg_ok s a k) \<and>
     (\<forall>a b k l. a < b \<longrightarrow> bs_cells s a = Some k \<longrightarrow> bs_cells s b = Some l \<longrightarrow> apart_segs k l)"

text \<open>
  The regions: the big-data groups begin and end on region boundaries, and no
  region above their tops has a container.
\<close>

definition on_region :: "bda_space \<Rightarrow> addr \<Rightarrow> bool" where
  "on_region s p \<longleftrightarrow> pd_region_start (bs_summary s) \<le> p \<and>
     RegionSizeBytes dvd p - pd_region_start (bs_summary s)"

definition regions_ok :: "bda_space \<Rightarrow> bool" where
  "regions_ok s \<longleftrightarrow>
     (\<forall>i < length (bs_spaces s). pd_region_start (bs_summary s) \<le> ms_bottom (grp_space s i)) \<and>
     (\<forall>i < length (bs_spaces s). 0 < i \<longrightarrow>
        on_region s (ms_bottom (grp_space s i)) \<and> on_region s (ms_top (grp_space s i)) \<and>
        on_region s (ms_end (grp_space s i)) \<and>
        (\<forall>p c. ms_top (grp_space s i) \<le> p \<longrightarrow> p < ms_end (grp_space s i) \<longrightarrow>
           region_container s p = Inr c \<longrightarrow> c = None))"

definition seg_inv :: "bda_space \<Rightarrow> bool" where
  "seg_inv s \<longleftrightarrow> grps_ok s \<and> segs_ok s \<and> regions_ok s"

text \<open>The memory handed out in containers.\<close>

definition used_in :: "cheap \<Rightarrow> addr set" where
  "used_in h = {p. \<exists>a k. h a = Some k \<and> c_start k \<le> p \<and> p < c_top k}"

section \<open>Pushing a container\<close>

definition reserved_size :: "bda_space \<Rightarrow> size_t \<Rightarrow> size_t" where
  "reserved_size s sz = (if sz > bs_segment_sz s then calculate_large_reserved_sz s sz else bs_segment_sz s)"

text \<open>
  Segment sizes are multiples of the region size but need not be powers of two.
  The alignment masks then do not round to a multiple of the segment size; what is
  left, and is enough, is that they round up and to whole regions.
\<close>

lemma align_mask_dvd:
  assumes "2 ^ n dvd (a :: int)"
  shows "2 ^ n dvd align_size_up x a" "2 ^ n dvd align_size_down x a"
proof -
  have "NOT (a - 1) = - a" by (simp add: not_int_def)
  moreover have "take_bit n (- a) = 0" using assms by (simp add: take_bit_eq_mod mod_eq_0_iff_dvd)
  ultimately have "take_bit n (y AND NOT (a - 1)) = 0" for y :: int by simp
  then have "2 ^ n dvd y AND NOT (a - 1)" for y :: int by (simp only: take_bit_eq_0_iff)
  then show "2 ^ n dvd align_size_up x a" "2 ^ n dvd align_size_down x a"
    unfolding align_size_up_def align_size_down_def by blast+
qed

lemma and_not_int: "(y :: int) AND NOT m = y - (y AND m)"
proof -
  have "(y AND NOT m) + (y AND m) = (y AND NOT m) OR (y AND m)"
    by (rule disjunctive_add) (auto simp: bit_simps)
  also have "\<dots> = y" by (rule bit_eqI) (auto simp: bit_simps)
  finally show ?thesis by simp
qed

lemma align_mask_bounds:
  assumes "0 < a"
  shows "x \<le> align_size_up x a" "0 \<le> x \<Longrightarrow> 0 \<le> align_size_down x a" "align_size_down x a \<le> x"
proof -
  have m: "y AND (a - 1) \<le> a - 1" "0 \<le> y AND (a - 1)" for y :: int
    using assms by (simp_all add: AND_upper2)
  show "x \<le> align_size_up x a" using m(1)[of "x + (a - 1)"] by (simp add: align_size_up_def and_not_int)
  show "align_size_down x a \<le> x" using m(2)[of x] by (simp add: align_size_down_def and_not_int)
  show "0 \<le> x \<Longrightarrow> 0 \<le> align_size_down x a" by (simp add: align_size_down_def)
qed

lemma reserved_size_ok:
  assumes "grps_ok s"
  shows "sz \<le> reserved_size s sz \<and> RegionSize dvd reserved_size s sz \<and> bs_segment_sz s \<le> reserved_size s sz \<and>
    0 < bs_segment_sz s"
proof -
  have seg: "RegionSize dvd bs_segment_sz s" "0 < bs_segment_sz s" using assms by (auto simp: grps_ok_def)
  then have d: "(2 ^ Log2RegionSize :: int) dvd int (bs_segment_sz s)" by (simp add: RegionSize_def dvd_int_pow2)
  have "int sz \<le> align_size_up (int sz) (int (bs_segment_sz s))" using seg(2) by (simp add: align_mask_bounds)
  moreover have "(2 ^ Log2RegionSize :: int) dvd align_size_up (int sz) (int (bs_segment_sz s))"
    using d by (rule align_mask_dvd)
  ultimately have "sz \<le> calculate_large_reserved_sz s sz" "RegionSize dvd calculate_large_reserved_sz s sz"
    unfolding calculate_large_reserved_sz_def RegionSize_def
    by (simp_all add: nat_le_iff le_nat_iff flip: dvd_int_pow2)
  then show ?thesis using seg by (auto simp: reserved_size_def)
qed

text \<open>
  The state after a successful push: the new cell \<open>a\<close> describes the segment at
  \<open>ptr\<close>, and the top of the group has moved to \<open>t\<close>.
\<close>

abbreviation pushed_cells :: "bda_space \<Rightarrow> nat \<Rightarrow> size_t \<Rightarrow> addr \<Rightarrow> cheap" where
  "pushed_cells s i sz ptr \<equiv> (bs_cells s)(bs_next_cell s \<mapsto>
     new_segment ptr (reserved_size s sz) sz (bs_filler_header_size s) (int i))"

definition pushed :: "bda_space \<Rightarrow> nat \<Rightarrow> size_t \<Rightarrow> addr \<Rightarrow> addr \<Rightarrow> bda_space \<Rightarrow> bool" where
  "pushed s i sz ptr t s' \<longleftrightarrow>
     bs_next_cell s' = bs_next_cell s + 1 \<and> bs_segment_sz s' = bs_segment_sz s \<and>
     bs_filler_header_size s' = bs_filler_header_size s \<and> bs_regions s' = bs_regions s \<and>
     same_data (pushed_cells s i sz ptr) (bs_cells s') \<and>
     (\<exists>cq n. gq_enqueue (pushed_cells s i sz ptr) (cs_containers (bs_spaces s ! i)) (Some (bs_next_cell s)) =
          Inr (bs_cells s', cq) \<and>
        bs_spaces s' = (bs_spaces s)[i := (bs_spaces s ! i)\<lparr>cs_space := (grp_space s i)\<lparr>ms_top := t\<rparr>,
          cs_containers := cq, cs_segments_since_last_gc := n\<rparr>]) \<and>
     install_bda_container (pushed_cells s i sz ptr) (bs_summary s) (Some (bs_next_cell s)) = Inr (bs_summary s')"

lemma cs_at_nat [simp]: "i < length (bs_spaces s) \<Longrightarrow> cs_at s (int i) = Inr (bs_spaces s ! i)"
  by (simp add: cs_at_def)

lemma region_container_cs_put [simp]: "region_container (cs_put s i g) p = region_container s p"
  by (simp add: region_container_def cs_put_def)

lemma setup_and_enqueue:
  assumes "i < length (bs_spaces s)" "grp_value s (bs_spaces s ! i) (int i)"
    "s1 = cs_put s (int i) ((bs_spaces s ! i)\<lparr>cs_space := (grp_space s i)\<lparr>ms_top := t\<rparr>\<rparr>)"
    "bind_result (allocate_and_setup_container s1 (int i) ptr (reserved_size s sz) sz) (enqueue_container (int i)) =
      Inr (s', c)"
  shows "c = Some (bs_next_cell s) \<and> pushed s i sz ptr t s'"
proof -
  define g where "g = (bs_spaces s ! i)\<lparr>cs_space := (grp_space s i)\<lparr>ms_top := t\<rparr>\<rparr>"
  define s2 where "s2 = fst (allocate_container s1)"
  let ?a = "bs_next_cell s"
  have s2: "s2 = s\<lparr>bs_spaces := (bs_spaces s)[i := g], bs_cells := (bs_cells s)(?a \<mapsto> bs_uninit s),
      bs_next_cell := ?a + 1\<rparr>" and alloc: "allocate_container s1 = (s2, Some ?a)"
    by (simp_all add: s2_def allocate_container_def assms(3) cs_put_def g_def)
  obtain s3 where s3: "setup_container s2 (int i) (Some ?a) \<lparr>mr_start = ptr, mr_word_size = reserved_size s sz\<rparr> sz = Inr s3"
    and enq: "enqueue_container (int i) (s3, Some ?a) = Inr (s', c)"
    using assms(4) alloc unfolding allocate_and_setup_container_def Let_def
    by (auto elim!: bind_resultE)
  have at: "cs_at s2 (int i) = Inr g" using assms(1) by (simp add: s2 cs_at_def)
  have val: "grp_value s2 g (int i)" using assms(2) by (simp add: grp_value_def s2 g_def)
  obtain pd pm osa where
    e: "s3 = s2\<lparr>bs_cells := pushed_cells s i sz ptr, bs_segment_bitmap := pm, bs_summary := pd, bs_start_array := osa\<rparr>"
      "install_bda_container (pushed_cells s i sz ptr) (bs_summary s) (Some ?a) = Inr pd"
    using setup_container_effect[OF s3 at val] by (auto simp: s2)
  have at3: "cs_at s3 (int i) = Inr g" using at assms(1) by (simp add: e(1) cs_at_def s2)
  obtain h q where q: "gq_enqueue (pushed_cells s i sz ptr) (cs_containers g) (Some ?a) = Inr (h, q)"
    "s' = cs_put (s3\<lparr>bs_cells := h\<rparr>) (int i)
      (g\<lparr>cs_containers := q, cs_segments_since_last_gc := cs_segments_since_last_gc g + 1\<rparr>)" "c = Some ?a"
    using enq at3 unfolding enqueue_container_def by (auto simp: e(1) elim!: bind_resultE)
  have "same_data (pushed_cells s i sz ptr) h" by (rule gq_enqueue_same_data[OF q(1)])
  then show ?thesis using e(2) q(1) by (auto simp: pushed_def q(2,3) e(1) s2 cs_put_def g_def)
qed

definition push_bounds :: "bda_space \<Rightarrow> nat \<Rightarrow> size_t \<Rightarrow> addr \<Rightarrow> addr \<Rightarrow> bool" where
  "push_bounds s i sz ptr t \<longleftrightarrow>
     ms_top (grp_space s i) \<le> ptr \<and> hw_add ptr (reserved_size s sz) \<le> t \<and> t \<le> ms_end (grp_space s i) \<and>
     (if i = 0 then ms_card_inv ((grp_space s i)\<lparr>ms_top := t\<rparr>)
      else ms_inv ((grp_space s i)\<lparr>ms_top := t\<rparr>) \<and> ptr = ms_top (grp_space s i) \<and>
        t = hw_add ptr (reserved_size s sz))"

lemmas push_unfold = push_container_def reserved_size_def[symmetric] Let_def

lemma push_bda_grp:
  assumes inv: "seg_inv s" and i: "i < length (bs_spaces s)" "i \<noteq> 0"
    and push: "push_container s (int i) sz = Inr (s', c)"
  shows "c = None \<and> s' = s \<or>
    c = Some (bs_next_cell s) \<and> (\<exists>ptr t. pushed s i sz ptr t s' \<and> push_bounds s i sz ptr t)"
proof -
  define r where "r = reserved_size s sz"
  let ?g = "bs_spaces s ! i" and ?sp = "grp_space s i"
  have grps: "grps_ok s" and ok: "grp_ok s i" using inv i by (auto simp: seg_inv_def grps_ok_def)
  have r: "0 < r" using reserved_size_ok[OF grps, of sz] by (simp add: r_def)
  have no: "\<not> is_other_grp s ?g" and ms: "ms_inv ?sp" and val: "grp_value s ?g (int i)"
    using ok i(2) by (auto simp: grp_ok_def)
  have ca: "ms_cas_allocate ?sp r = (if hw_add (ms_top ?sp) r \<le> ms_end ?sp
      then (?sp\<lparr>ms_top := hw_add (ms_top ?sp) r\<rparr>, Some (ms_top ?sp)) else (?sp, None))"
    using ms by (simp add: ms_cas_allocate_eq ms_allocate_cases)
  show ?thesis
  proof (cases "hw_add (ms_top ?sp) r \<le> ms_end ?sp")
    case True
    let ?s1 = "cs_put s (int i) (?g\<lparr>cs_space := ?sp\<lparr>ms_top := hw_add (ms_top ?sp) r\<rparr>\<rparr>)"
    have "ms_top ?sp < ms_end ?sp" using True r by (simp add: hw_add_def HeapWordSize_def)
    then have none: "region_container s (ms_top ?sp) = Inr c \<Longrightarrow> c = None" for c
      using inv i by (auto simp: seg_inv_def regions_ok_def)
    obtain c1 last_seg where "region_container s (ms_top ?sp) = Inr c1"
      "bind_result (if c1 \<noteq> None then reuse_container ?s1 (int i) (ms_top ?sp) r sz c1 last_seg
        else allocate_and_setup_container ?s1 (int i) (ms_top ?sp) r sz) (enqueue_container (int i)) = Inr (s', c)"
      using push i(1) no ca True unfolding push_unfold r_def[symmetric]
      by (simp split del: if_split del: not_None_eq) (erule bind_resultE, erule bind_resultE, blast)
    with none[of c1]
    have "bind_result (allocate_and_setup_container ?s1 (int i) (ms_top ?sp) r sz) (enqueue_container (int i)) = Inr (s', c)"
      by simp
    from setup_and_enqueue[OF i(1) val refl this[unfolded r_def]]
    have p: "c = Some (bs_next_cell s)" "pushed s i sz (ms_top ?sp) (hw_add (ms_top ?sp) r) s'"
      by (simp_all add: r_def)
    have "ms_inv (?sp\<lparr>ms_top := hw_add (ms_top ?sp) r\<rparr>)"
      using True ms_allocate_cases[OF ms, of r] by (intro conjunct1[OF ms.alloc_some[OF ms, of r]]) simp_all
    then have "push_bounds s i sz (ms_top ?sp) (hw_add (ms_top ?sp) r)"
      using True i(2) by (simp add: push_bounds_def r_def)
    then show ?thesis using p by blast
  next
    case False
    then show ?thesis using push i no ca unfolding push_unfold r_def[symmetric] by auto
  qed
qed

lemma push_other_grp:
  assumes inv: "seg_inv s" and push: "push_container s (int 0) sz = Inr (s', c)"
  shows "c = None \<and> s' = s \<or>
    c = Some (bs_next_cell s) \<and> (\<exists>ptr t. pushed s 0 sz ptr t s' \<and> push_bounds s 0 sz ptr t)"
proof -
  define r where "r = reserved_size s sz"
  let ?g = "bs_spaces s ! 0" and ?sp = "grp_space s 0"
  have grps: "grps_ok s" using inv by (simp add: seg_inv_def)
  then have i: "0 < length (bs_spaces s)" and ok: "grp_ok s 0" by (auto simp: grps_ok_def)
  have "64 dvd r"
    using reserved_size_ok[OF grps, of sz] by (auto simp: r_def RegionSize_def Log2RegionSize_def elim: dvd_trans[rotated])
  then have wc: "whole_cards r" by (simp add: whole_cards_def mod_eq_0_iff_dvd)
  have other: "is_other_grp s ?g" and ms: "ms_card_inv ?sp" and val: "grp_value s ?g (int 0)"
    and pool: "remove_end (cs_pool ?g) = None"
    using ok by (auto simp: grp_ok_def)
  obtain ms' res fill where ca: "ms_cas_allocate_aligned (bs_min_fill_size s) ?sp r = (ms', res, fill)"
    by (metis prod_cases3)
  then have al: "ms_alloc_aligned (bs_min_fill_size s) ?sp r = (ms', res)" by (simp add: ms_alloc_aligned_def)
  have dq: "gq_dequeue (bs_cells s) (cs_pool ?g) = Inr (bs_cells s, cs_pool ?g, None)"
    using pool by (simp add: gq_dequeue_def)
  have at: "cs_at s 0 = Inr ?g" using i by (simp add: cs_at_def)
  show ?thesis
  proof (cases res)
    case None
    then show ?thesis using push other ca at unfolding push_unfold r_def[symmetric] by simp
  next
    case (Some ptr)
    have ms': "ms' = ?sp\<lparr>ms_top := ms_top ms'\<rparr>"
      using al Some ms ms_alloc_aligned_cases[of ?sp] by (auto simp: ms_card_inv_def split: if_splits)
    let ?s1 = "cs_put s (int 0) (?g\<lparr>cs_space := ?sp\<lparr>ms_top := ms_top ms'\<rparr>\<rparr>)"
    have "bind_result (allocate_and_setup_container ?s1 (int 0) ptr r sz) (enqueue_container (int 0)) = Inr (s', c)"
      using push other ca Some dq ms' at unfolding push_unfold r_def[symmetric] by simp
    from setup_and_enqueue[OF i val refl this[unfolded r_def]]
    have p: "c = Some (bs_next_cell s)" "pushed s 0 sz ptr (ms_top ms') s'" by simp_all
    have "push_bounds s 0 sz ptr (ms_top ms')"
      using msa.alloc_some[OF ms wc al[unfolded Some]] ms' by (simp add: push_bounds_def r_def)
    then show ?thesis using p by blast
  qed
qed

lemma push_container_pushed:
  assumes "seg_inv s" "i < length (bs_spaces s)" "push_container s (int i) sz = Inr (s', c)"
  shows "c = None \<and> s' = s \<or>
    c = Some (bs_next_cell s) \<and> (\<exists>ptr t. pushed s i sz ptr t s' \<and> push_bounds s i sz ptr t)"
  using push_bda_grp[OF assms(1,2) _ assms(3)] push_other_grp[OF assms(1)] assms(3) by (cases "i = 0") auto

section \<open>A push keeps the invariant\<close>

lemma strip_links_eqD:
  assumes "strip_links k' = strip_links k"
  shows "c_top k' = c_top k" "c_start k' = c_start k" "c_end k' = c_end k" "c_hard_end k' = c_hard_end k"
    "c_space_id k' = c_space_id k" "c_next_segment k' = c_next_segment k" "c_prev_segment k' = c_prev_segment k"
  by (insert assms, (cases k, cases k', simp add: strip_links_def)+)

lemma same_data_cell:
  assumes "same_data h h'" "h' x = Some k'"
  obtains k where "h x = Some k" "strip_links k' = strip_links k"
  using assms unfolding same_data_def by (cases "h x") (metis option.simps option.map_disc_iff option.sel)+

lemma same_data_dom: "same_data h h' \<Longrightarrow> h' x = None \<longleftrightarrow> h x = None"
  unfolding same_data_def by (metis option.map_disc_iff)

lemma pushed_grp:
  assumes "pushed s i sz ptr t s'" "i < length (bs_spaces s)" "j < length (bs_spaces s)"
  shows "grp_space s' j = (if j = i then (grp_space s i)\<lparr>ms_top := t\<rparr> else grp_space s j)"
    "cs_type (bs_spaces s' ! j) = cs_type (bs_spaces s ! j)" "cs_pool (bs_spaces s' ! j) = cs_pool (bs_spaces s ! j)"
  using assms by (auto simp: pushed_def nth_list_update)

lemma pushed_length: "pushed s i sz ptr t s' \<Longrightarrow> length (bs_spaces s') = length (bs_spaces s)"
  by (auto simp: pushed_def)

lemma pushed_bounds:
  assumes "pushed s i sz ptr t s'" "push_bounds s i sz ptr t" "i < length (bs_spaces s)" "j < length (bs_spaces s)"
  shows "ms_bottom (grp_space s' j) = ms_bottom (grp_space s j)" "ms_end (grp_space s' j) = ms_end (grp_space s j)"
    "ms_top (grp_space s j) \<le> ms_top (grp_space s' j)"
  using pushed_grp(1)[OF assms(1,3,4)] assms(2) hw_add_ge[of ptr "reserved_size s sz"]
  by (auto simp: push_bounds_def simp del: hw_add_ge)

lemma pushed_grps_ok:
  assumes "grps_ok s" "i < length (bs_spaces s)" "pushed s i sz ptr t s'" "push_bounds s i sz ptr t"
  shows "grps_ok s'"
proof -
  note l = pushed_length[OF assms(3)]
  have p: "bs_regions s' = bs_regions s" "bs_segment_sz s' = bs_segment_sz s"
    "bs_filler_header_size s' = bs_filler_header_size s"
    using assms(3) by (auto simp: pushed_def)
  have "grp_ok s' j" if "j < length (bs_spaces s)" for j
    using assms(1) that pushed_grp[OF assms(3,2) that] assms(4)
    by (cases "j = i") (auto simp: grps_ok_def grp_ok_def is_other_grp_def grp_value_def p push_bounds_def)
  then show ?thesis
    using assms(1) l pushed_bounds(1,2)[OF assms(3,4,2)] unfolding grps_ok_def by (auto simp: p)
qed

lemma seg_bounds:
  assumes "seg_ok s a k" "grps_ok s"
  obtains i where "i < length (bs_spaces s)" "c_space_id k = int i" "ms_bottom (grp_space s i) \<le> c_start k"
    "c_hard_end k \<le> ms_top (grp_space s i)" "ms_top (grp_space s i) \<le> ms_end (grp_space s i)"
  using assms by (auto simp: seg_ok_def grps_ok_def grp_ok_def ms_card_inv_def ms_inv_def split: if_splits)

text \<open>The new segment begins above all the old ones of its group.\<close>

lemma new_segment_apart:
  assumes "grps_ok s" "i < length (bs_spaces s)" "push_bounds s i sz ptr t" "seg_ok s a k"
  shows "apart_segs k (new_segment ptr (reserved_size s sz) sz f sp)"
proof -
  obtain j where j: "j < length (bs_spaces s)" "ms_bottom (grp_space s j) \<le> c_start k"
    "c_hard_end k \<le> ms_top (grp_space s j)" "ms_top (grp_space s j) \<le> ms_end (grp_space s j)"
    using assms(4,1) by (rule seg_bounds)
  have b: "ms_top (grp_space s i) \<le> ptr" "hw_add ptr (reserved_size s sz) \<le> ms_end (grp_space s i)"
    using assms(3) by (auto simp: push_bounds_def)
  have bt: "ms_bottom (grp_space s i) \<le> ms_top (grp_space s i)"
    using assms(1,2) by (auto simp: grps_ok_def grp_ok_def ms_card_inv_def ms_inv_def split: if_splits)
  show ?thesis
  proof (cases "j = i")
    case False
    then have "ms_end (grp_space s i) \<le> ms_bottom (grp_space s j) \<or> ms_end (grp_space s j) \<le> ms_bottom (grp_space s i)"
      using assms(1,2) j(1) by (auto simp: grps_ok_def)
    then show ?thesis using j b bt by (auto simp: apart_segs_def)
  qed (use j b in \<open>auto simp: apart_segs_def\<close>)
qed

text \<open>Old cells and the new one after a push.\<close>

lemma pushed_cell:
  assumes "pushed s i sz ptr t s'" "bs_cells s' a = Some k'"
  obtains (old) k where "a \<noteq> bs_next_cell s" "bs_cells s a = Some k" "strip_links k' = strip_links k"
  | (new) "a = bs_next_cell s"
      "strip_links k' = strip_links (new_segment ptr (reserved_size s sz) sz (bs_filler_header_size s) (int i))"
proof -
  have "same_data (pushed_cells s i sz ptr) (bs_cells s')" using assms(1) by (simp add: pushed_def)
  from same_data_cell[OF this assms(2)] obtain k where
    "pushed_cells s i sz ptr a = Some k" "strip_links k' = strip_links k" .
  then show ?thesis using old new by (cases "a = bs_next_cell s") auto
qed

lemma pushed_keeps_cells:
  "pushed s i sz ptr t s' \<Longrightarrow> bs_cells s a \<noteq> None \<Longrightarrow> bs_cells s' a \<noteq> None"
  using same_data_dom[of "pushed_cells s i sz ptr" "bs_cells s'" a] by (auto simp: pushed_def)

lemma seg_ok_mono:
  assumes "seg_ok s a k" "strip_links k' = strip_links k" "bs_next_cell s \<le> bs_next_cell s'"
    "length (bs_spaces s') = length (bs_spaces s)"
    "\<And>j. j < length (bs_spaces s) \<Longrightarrow> ms_bottom (grp_space s' j) = ms_bottom (grp_space s j)"
    "\<And>j. j < length (bs_spaces s) \<Longrightarrow> ms_top (grp_space s j) \<le> ms_top (grp_space s' j)"
    "\<And>b. bs_cells s b \<noteq> None \<Longrightarrow> bs_cells s' b \<noteq> None"
  shows "seg_ok s' a k'"
proof -
  note e = strip_links_eqD[OF assms(2)]
  obtain i where i: "i < length (bs_spaces s)" "c_space_id k = int i" "ms_bottom (grp_space s i) \<le> c_start k"
    "c_hard_end k \<le> ms_top (grp_space s i)"
    using assms(1) by (auto simp: seg_ok_def)
  have "c_hard_end k \<le> ms_top (grp_space s' i)" using i(4) assms(6)[OF i(1)] by simp
  then have "\<exists>i < length (bs_spaces s'). c_space_id k' = int i \<and> ms_bottom (grp_space s' i) \<le> c_start k' \<and>
      c_hard_end k' \<le> ms_top (grp_space s' i)"
    using i assms(4) assms(5)[OF i(1)] e by (intro exI[of _ i]) simp
  then show ?thesis using assms(1,3,7) e by (simp add: seg_ok_def)
qed

lemma pushed_segs_ok:
  assumes "segs_ok s" "grps_ok s" "i < length (bs_spaces s)" "pushed s i sz ptr t s'" "push_bounds s i sz ptr t"
  shows "segs_ok s'"
proof -
  let ?r = "reserved_size s sz"
  let ?n = "new_segment ptr ?r sz (bs_filler_header_size s) (int i)"
  note l = pushed_length[OF assms(4)] and b = pushed_bounds[OF assms(4,5,3)] and g = pushed_grp(1)[OF assms(4,3,3)]
  have nc: "bs_next_cell s' = bs_next_cell s + 1" using assms(4) by (simp add: pushed_def)
  have rs: "sz \<le> ?r" using reserved_size_ok[OF assms(2)] by blast
  have bt: "ms_bottom (grp_space s i) \<le> ms_top (grp_space s i)"
    using assms(2,3) by (auto simp: grps_ok_def grp_ok_def ms_card_inv_def ms_inv_def split: if_splits)
  have "seg_ok s' a k'" if c: "bs_cells s' a = Some k'" for a k'
  proof (use assms(4) c in \<open>cases rule: pushed_cell\<close>)
    case (old k)
    then have "seg_ok s a k" using assms(1) by (simp add: segs_ok_def)
    from seg_ok_mono[OF this old(3)] show ?thesis
      using l b pushed_keeps_cells[OF assms(4)] nc by simp
  next
    case new
    have "ms_bottom (grp_space s' i) \<le> ptr" "hw_add ptr ?r \<le> ms_top (grp_space s' i)"
      using assms(5) bt g by (auto simp: push_bounds_def b(1)[OF assms(3)])
    moreover have "hw_sub (hw_add ptr ?r) (bs_filler_header_size s) \<le> hw_add ptr ?r" by (simp add: hw_sub_def)
    ultimately show ?thesis
      using strip_links_eqD[OF new(2)] l assms(3) rs new(1) by (auto simp: seg_ok_def nc)
  qed
  moreover have "apart_segs k' l'"
    if "a < b" and c: "bs_cells s' a = Some k'" "bs_cells s' b = Some l'" for a b k' l'
  proof -
    have lt: "x < bs_next_cell s" if "bs_cells s x = Some k" for x k
      using assms(1) that by (auto simp: segs_ok_def seg_ok_def)
    obtain k where k: "bs_cells s a = Some k" "strip_links k' = strip_links k"
      using \<open>a < b\<close> pushed_cell[OF assms(4) c(1)] pushed_cell[OF assms(4) c(2)] lt by (metis not_less_iff_gr_or_eq)
    have sk: "seg_ok s a k" using assms(1) k(1) by (simp add: segs_ok_def)
    show ?thesis
    proof (use assms(4) c(2) in \<open>cases rule: pushed_cell\<close>)
      case (old m)
      then have "apart_segs k m" using assms(1) k(1) \<open>a < b\<close> by (auto simp: segs_ok_def)
      then show ?thesis using strip_links_eqD[OF k(2)] strip_links_eqD[OF old(3)] by (simp add: apart_segs_def)
    next
      case new
      then show ?thesis
        using new_segment_apart[OF assms(2,3,5) sk] strip_links_eqD[OF k(2)] strip_links_eqD[OF new(2)]
        by (simp add: apart_segs_def)
    qed
  qed
  ultimately show ?thesis by (simp add: segs_ok_def)
qed

lemma used_in_mono:
  assumes "same_data h h'"
  shows "used_in h' \<subseteq> used_in h"
proof
  fix p assume "p \<in> used_in h'"
  then obtain a k' where a: "h' a = Some k'" "c_start k' \<le> p" "p < c_top k'" by (auto simp: used_in_def)
  obtain k where k: "h a = Some k" "strip_links k' = strip_links k" using same_data_cell[OF assms a(1)] .
  then show "p \<in> used_in h" using a(2,3) strip_links_eqD[OF k(2)] by (auto simp: used_in_def)
qed

lemma used_in_same: "same_data h h' \<Longrightarrow> used_in h' = used_in h"
  using used_in_mono[of h h'] used_in_mono[of h' h] by (simp add: same_data_def subset_antisym)

lemma used_in_new: "h a = None \<Longrightarrow> used_in (h(a \<mapsto> k)) = used_in h \<union> {c_start k..<c_top k}"
  unfolding used_in_def by (auto split: if_splits) (metis option.distinct(1))+

lemma used_memory_pushed:
  assumes "pushed s i sz ptr t s'" "bs_cells s (bs_next_cell s) = None"
  shows "used_in (bs_cells s') = used_in (bs_cells s) \<union> {ptr..<hw_add ptr sz}"
proof -
  have "used_in (bs_cells s') = used_in (pushed_cells s i sz ptr)"
    using assms(1) by (intro used_in_same) (simp add: pushed_def)
  then show ?thesis using used_in_new[of "bs_cells s" "bs_next_cell s", OF assms(2)] by simp
qed

lemma region_of_less:
  assumes "on_region s b" "pd_region_start (bs_summary s) \<le> q" "q < b" "b \<le> p"
  shows "region_of (bs_summary s) q < region_of (bs_summary s) p"
proof -
  let ?rs = "pd_region_start (bs_summary s)"
  obtain n where n: "b - ?rs = RegionSizeBytes * n" using assms(1) by (auto simp: on_region_def elim: dvdE)
  have pos: "0 < RegionSizeBytes" by (simp add: RegionSizeBytes_def RegionSize_def)
  have "q - ?rs < RegionSizeBytes * n" using assms n[symmetric] by simp
  then have "region_of (bs_summary s) q < n"
    unfolding region_of_def using pos by (simp add: div_less_iff_less_mult mult.commute)
  moreover have "RegionSizeBytes * n \<le> p - ?rs" using assms(4) n[symmetric] by simp
  then have "n \<le> region_of (bs_summary s) p"
    unfolding region_of_def using pos by (simp add: less_eq_div_iff_mult_less_eq mult.commute)
  ultimately show ?thesis by simp
qed

lemma on_region_add:
  assumes "on_region s p" "RegionSize dvd n"
  shows "on_region s (hw_add p n)"
proof -
  have "RegionSizeBytes dvd n * HeapWordSize"
    using assms(2) by (simp add: RegionSizeBytes_def LogHeapWordSize_def HeapWordSize_def)
  then have "RegionSizeBytes dvd (p - pd_region_start (bs_summary s)) + n * HeapWordSize"
    using assms(1) by (intro dvd_add) (simp_all add: on_region_def)
  then show ?thesis using assms(1) by (simp add: on_region_def hw_add_def)
qed

text \<open>No region of a new segment reaches above the top of a group.\<close>

lemma pushed_region_apart:
  assumes r: "regions_ok s" and g: "grps_ok s" and i: "i < length (bs_spaces s)"
    and j: "0 < j" "j < length (bs_spaces s)"
    and e: "ptr \<le> e" "e < u" "u \<le> ms_end (grp_space s i)" "ms_bottom (grp_space s i) \<le> ptr"
    and t: "ms_top (grp_space s j) \<le> t" "on_region s t"
    and q: "t \<le> q" "q < ms_end (grp_space s j)"
    and same: "j = i \<Longrightarrow> t = u"
  shows "region_of (bs_summary s) q < region_of (bs_summary s) ptr \<or>
    region_of (bs_summary s) e < region_of (bs_summary s) q"
proof -
  have start: "pd_region_start (bs_summary s) \<le> ptr" using r i e(4) by (auto simp: regions_ok_def)
  have on: "on_region s (ms_bottom (grp_space s j))" "on_region s (ms_end (grp_space s j))"
    using r j by (auto simp: regions_ok_def)
  have bt: "ms_bottom (grp_space s j) \<le> ms_top (grp_space s j)"
    using g j by (auto simp: grps_ok_def grp_ok_def ms_inv_def split: if_splits)
  consider "j = i" | "ms_end (grp_space s i) \<le> ms_bottom (grp_space s j)" | "ms_end (grp_space s j) \<le> ms_bottom (grp_space s i)"
    using g i j by (auto simp: grps_ok_def)
  then show ?thesis
  proof cases
    case 1
    then show ?thesis using region_of_less[OF t(2), of e q] start e q same by simp
  next
    case 2
    then show ?thesis using region_of_less[OF on(1), of e q] start e q t bt by simp
  next
    case 3
    have "pd_region_start (bs_summary s) \<le> q" using on(1) bt t q by (simp add: on_region_def)
    then show ?thesis using region_of_less[OF on(2), of q ptr] 3 e q by simp
  qed
qed

lemma pushed_regions_ok:
  assumes r: "regions_ok s" and g: "grps_ok s" and i: "i < length (bs_spaces s)"
    and p: "pushed s i sz ptr t s'" and b: "push_bounds s i sz ptr t"
  shows "regions_ok s'"
proof -
  let ?r = "reserved_size s sz" and ?n = "bs_next_cell s"
  let ?k = "new_segment ptr ?r sz (bs_filler_header_size s) (int i)"
  note l = pushed_length[OF p] and pb = pushed_bounds[OF p b i]
  have ins: "install_bda_container (pushed_cells s i sz ptr) (bs_summary s) (Some ?n) = Inr (bs_summary s')"
    using p by (simp add: pushed_def)
  have on: "on_region s' x \<longleftrightarrow> on_region s x" for x
    by (simp add: on_region_def install_region_start[OF ins])
  have rs: "0 < ?r" "bs_filler_header_size s \<le> ?r" "0 < bs_filler_header_size s" "RegionSize dvd ?r"
    using reserved_size_ok[OF g, of sz] g by (auto simp: grps_ok_def)
  have fits: "ptr \<le> c_end ?k" "c_end ?k < hw_add ptr ?r" "hw_add ptr ?r \<le> ms_end (grp_space s i)"
    "ms_bottom (grp_space s i) \<le> ptr" "ms_end (grp_space s i) < size_t_max1"
    using b g i rs unfolding push_bounds_def grps_ok_def grp_ok_def
    by (auto simp: hw_sub_def hw_add_def HeapWordSize_def ms_card_inv_def ms_inv_def split: if_splits)
  have start: "pd_region_start (bs_summary s) \<le> ms_bottom (grp_space s j)" if "j < length (bs_spaces s)" for j
    using r that by (simp add: regions_ok_def)
  have top: "on_region s (ms_top (grp_space s' j))" if j: "0 < j" "j < length (bs_spaces s)" for j
  proof (cases "j = i")
    case True
    then have t: "ms_top (grp_space s' j) = hw_add ptr ?r" "ptr = ms_top (grp_space s i)"
      using b pushed_grp(1)[OF p i j(2)] j(1) by (auto simp: push_bounds_def)
    have "on_region s ptr" using r j True t(2) by (simp add: regions_ok_def)
    then show ?thesis unfolding t(1) using rs(4) by (rule on_region_add)
  next
    case False
    then show ?thesis using r j pushed_grp(1)[OF p i j(2)] by (simp add: regions_ok_def)
  qed
  have none: "c = None" if j: "0 < j" "j < length (bs_spaces s)" and q: "ms_top (grp_space s' j) \<le> q"
    "q < ms_end (grp_space s j)" "region_container s' q = Inr c" for j q c
  proof -
    have m: "ms_bottom (grp_space s j) \<le> ms_top (grp_space s j)" "ms_end (grp_space s j) < size_t_max1"
      using g j by (auto simp: grps_ok_def grp_ok_def ms_inv_def split: if_splits)
    have apart: "region_of (bs_summary s) q < region_of (bs_summary s) ptr \<or>
        region_of (bs_summary s) (c_end ?k) < region_of (bs_summary s) q"
      by (rule pushed_region_apart[OF r g i j fits(1-4) pb(3)[OF j(2)] top[OF j] q(1,2)])
         (use b pushed_grp(1)[OF p i j(2)] j(1) in \<open>auto simp: push_bounds_def\<close>)
    have "region_container s q = Inr c"
      unfolding region_container_def
      using apart q fits m by (intro install_elsewhere[OF ins, where k = ?k]) (auto simp: region_container_def)
    moreover have "ms_top (grp_space s j) \<le> q" using q(1) pb(3)[OF j(2)] by simp
    ultimately show ?thesis using r j q(2) unfolding regions_ok_def by blast
  qed
  show ?thesis
    using r l pb on top none start by (simp add: regions_ok_def install_region_start[OF ins])
qed

lemma pushed_seg_inv:
  assumes "seg_inv s" "i < length (bs_spaces s)" "pushed s i sz ptr t s'" "push_bounds s i sz ptr t"
  shows "seg_inv s'"
  using assms pushed_grps_ok pushed_segs_ok pushed_regions_ok unfolding seg_inv_def by metis

end
