(* ===== verification/BdaRuns.thy ===== *)
theory BdaRuns
  imports BdaAlloc
begin

text \<open>
  Runs of allocation requests on the big-data space: every request ends, and the
  blocks handed out in a run, in containers or as ordinary objects, never overlap.
\<close>

section \<open>Changing cells\<close>

text \<open>A store that differs from the space's in tops and links between segments only.\<close>

definition retopped :: "cheap \<Rightarrow> cheap \<Rightarrow> bool" where
  "retopped h h' \<longleftrightarrow>
     (\<forall>a. h' a = None \<longleftrightarrow> h a = None) \<and>
     (\<forall>a k k'. h a = Some k \<longrightarrow> h' a = Some k' \<longrightarrow>
        c_start k' = c_start k \<and> c_hard_end k' = c_hard_end k \<and> c_end k' = c_end k \<and> c_space_id k' = c_space_id k \<and>
        c_start k' \<le> c_top k' \<and> c_top k' \<le> c_hard_end k' \<and>
        (\<forall>b. c_next_segment k' = Some b \<longrightarrow> a < b \<and> h b \<noteq> None))"

lemma retopped_seg_inv:
  assumes inv: "seg_inv s" and r: "retopped (bs_cells s) h"
  shows "seg_inv (s\<lparr>bs_cells := h\<rparr>)"
proof -
  let ?s = "s\<lparr>bs_cells := h\<rparr>"
  have cell: "\<exists>k. bs_cells s a = Some k" if "h a = Some k'" for a k'
    using r that unfolding retopped_def by (metis not_None_eq option.distinct(1))
  have "seg_ok ?s a k'" if k': "h a = Some k'" for a k'
  proof -
    obtain k where k: "bs_cells s a = Some k" using cell[OF k'] by blast
    then have "seg_ok s a k" using inv by (simp add: seg_inv_def segs_ok_def)
    moreover have "c_start k' = c_start k" "c_hard_end k' = c_hard_end k" "c_end k' = c_end k"
      "c_space_id k' = c_space_id k" "c_start k' \<le> c_top k'" "c_top k' \<le> c_hard_end k'"
      "\<And>b. c_next_segment k' = Some b \<Longrightarrow> a < b \<and> h b \<noteq> None"
      using r k k' unfolding retopped_def by blast+
    ultimately show ?thesis by (simp add: seg_ok_def)
  qed
  moreover have "apart_segs k' l'" if ab: "a < b" "h a = Some k'" "h b = Some l'" for a b k' l'
  proof -
    obtain k l where kl: "bs_cells s a = Some k" "bs_cells s b = Some l" using cell ab(2,3) by blast
    then have "apart_segs k l" using inv ab(1) unfolding seg_inv_def segs_ok_def by blast
    moreover have "c_start k' = c_start k" "c_hard_end k' = c_hard_end k" "c_start l' = c_start l" "c_hard_end l' = c_hard_end l"
      using r kl ab(2,3) unfolding retopped_def by blast+
    ultimately show ?thesis by (simp add: apart_segs_def)
  qed
  ultimately have "segs_ok ?s" by (simp add: segs_ok_def)
  moreover have "grps_ok ?s" using inv by (simp add: seg_inv_def grps_ok_def grp_ok_def is_other_grp_def grp_value_def)
  moreover have "regions_ok ?s"
    using inv by (simp add: seg_inv_def regions_ok_def on_region_def region_container_def)
  ultimately show ?thesis by (simp add: seg_inv_def)
qed

text \<open>Parts of the state the invariant does not read.\<close>

lemma seg_inv_start_array [simp]: "seg_inv (s\<lparr>bs_start_array := osa\<rparr>) \<longleftrightarrow> seg_inv s"
  by (simp add: seg_inv_def grps_ok_def grp_ok_def is_other_grp_def grp_value_def segs_ok_def seg_ok_def
      regions_ok_def on_region_def region_container_def)

section \<open>Chains of segments\<close>

lemma seg_inv_cell: "seg_inv s \<Longrightarrow> bs_cells s a = Some k \<Longrightarrow> seg_ok s a k"
  by (simp add: seg_inv_def segs_ok_def)

lemma seg_inv_next:
  assumes "seg_inv s" "bs_cells s a = Some k" "c_next_segment k = Some b"
  shows "\<exists>l. bs_cells s b = Some l" "a < b" "b < bs_next_cell s"
proof -
  have "seg_ok s a k" using assms(1,2) by (rule seg_inv_cell)
  then have ab: "a < b" "bs_cells s b \<noteq> None" using assms(3) by (auto simp: seg_ok_def)
  then obtain l where l: "bs_cells s b = Some l" by blast
  then have "seg_ok s b l" using assms(1) seg_inv_cell by blast
  then show "\<exists>l. bs_cells s b = Some l" "a < b" "b < bs_next_cell s" using ab l by (auto simp: seg_ok_def)
qed

lemma seg_inv_cell_less: "seg_inv s \<Longrightarrow> bs_cells s a = Some k \<Longrightarrow> a < bs_next_cell s"
  using seg_inv_cell[of s a k] by (simp add: seg_ok_def)

text \<open>The walk to the last segment ends, in a cell the walk can reach.\<close>

lemma last_segment_ends:
  assumes "seg_inv s" "bs_cells s a = Some k" "P a"
    "\<And>x k y. P x \<Longrightarrow> bs_cells s x = Some k \<Longrightarrow> c_next_segment k = Some y \<Longrightarrow> P y"
  shows "\<exists>b l. last_segment (bs_cells s) (Some a) = Some (Inr (Some b)) \<and> bs_cells s b = Some l \<and>
    c_next_segment l = None \<and> P b"
  using assms(2,3)
proof (induction "bs_next_cell s - a" arbitrary: a k rule: less_induct)
  case less
  show ?case
  proof (cases "c_next_segment k")
    case None
    then show ?thesis using less.prems by (subst last_segment.simps) simp
  next
    case (Some b)
    note n = seg_inv_next[OF assms(1) less.prems(1) Some]
    obtain l where l: "bs_cells s b = Some l" using n(1) by blast
    have "bs_next_cell s - b < bs_next_cell s - a" using n(2,3) by simp
    from less.hyps[OF this l assms(4)[OF less.prems(2,1) Some]] show ?thesis
      using less.prems(1) Some by (subst last_segment.simps) simp
  qed
qed

lemma alloc_in_segments_ends:
  assumes "seg_inv s" "bs_cells s a = Some k"
  shows "\<exists>b l. bs_cells s b = Some l \<and>
    (alloc_in_segments (bs_cells s) sz (Some a) = Some (Inr (bs_cells s, None, Some b)) \<and> c_next_segment l = None \<or>
     alloc_in_segments (bs_cells s) sz (Some a) =
       Some (Inr ((bs_cells s)(b \<mapsto> l\<lparr>c_top := hw_add (c_top l) sz\<rparr>), Some (c_top l), Some b)) \<and>
       hw_add (c_top l) sz < c_end l)"
  using assms(2)
proof (induction "bs_next_cell s - a" arbitrary: a k rule: less_induct)
  case less
  have step: "alloc_in_segments (bs_cells s) sz (Some a) =
    (if hw_add (c_top k) sz < c_end k
     then Some (Inr ((bs_cells s)(a \<mapsto> k\<lparr>c_top := hw_add (c_top k) sz\<rparr>), Some (c_top k), Some a))
     else if c_next_segment k = None then Some (Inr (bs_cells s, None, Some a))
     else alloc_in_segments (bs_cells s) sz (c_next_segment k))"
    using less.prems by (subst alloc_in_segments.simps) (simp add: seg_alloc_def Let_def)
  show ?case
  proof (cases "hw_add (c_top k) sz < c_end k \<or> c_next_segment k = None")
    case True
    then show ?thesis using less.prems step by (intro exI[of _ a] exI[of _ k]) auto
  next
    case False
    then obtain b where b: "c_next_segment k = Some b" by auto
    note n = seg_inv_next[OF assms(1) less.prems b]
    obtain l where l: "bs_cells s b = Some l" using n(1) by blast
    have e: "alloc_in_segments (bs_cells s) sz (Some a) = alloc_in_segments (bs_cells s) sz (Some b)"
      using False b step by simp
    have "bs_next_cell s - b < bs_next_cell s - a" using n(2,3) by simp
    from less.hyps[OF this l] show ?thesis unfolding e .
  qed
qed

section \<open>Handing out memory\<close>

definition block :: "addr \<Rightarrow> size_t \<Rightarrow> addr set" where
  "block p n = {p..<hw_add p n}"

text \<open>
  \<open>objs\<close> is memory given to ordinary objects: it lies in the group of other
  objects and in no segment.  \<open>handed\<close> is a step that gives out a block inside one group.
\<close>

definition objs_ok :: "bda_space \<Rightarrow> addr set \<Rightarrow> bool" where
  "objs_ok s objs \<longleftrightarrow>
     (\<forall>p \<in> objs. ms_bottom (grp_space s 0) \<le> p \<and> p < ms_top (grp_space s 0) \<and>
        (\<forall>a k. bs_cells s a = Some k \<longrightarrow> \<not> (c_start k \<le> p \<and> p < c_hard_end k)))"

definition in_group :: "bda_space \<Rightarrow> addr \<Rightarrow> size_t \<Rightarrow> bool" where
  "in_group s p n \<longleftrightarrow>
     (\<exists>i < length (bs_spaces s). ms_bottom (grp_space s i) \<le> p \<and> hw_add p n \<le> ms_end (grp_space s i))"

definition handed :: "bda_space \<Rightarrow> addr set \<Rightarrow> addr \<Rightarrow> size_t \<Rightarrow> bda_space \<Rightarrow> bool" where
  "handed s objs p n s' \<longleftrightarrow>
     seg_inv s' \<and> objs_ok s' objs \<and> used_in (bs_cells s') = used_in (bs_cells s) \<union> block p n \<and>
     block p n \<inter> (used_in (bs_cells s) \<union> objs) = {} \<and> in_group s p n"

lemma used_in_segment:
  assumes "seg_inv s" "p \<in> used_in (bs_cells s)"
  obtains a k where "bs_cells s a = Some k" "c_start k \<le> p" "p < c_top k" "c_top k \<le> c_hard_end k"
proof -
  obtain a k where a: "bs_cells s a = Some k" "c_start k \<le> p" "p < c_top k"
    using assms(2) by (auto simp: used_in_def)
  moreover have "c_top k \<le> c_hard_end k" using seg_inv_cell[OF assms(1) a(1)] by (simp add: seg_ok_def)
  ultimately show ?thesis using that by blast
qed

lemma push_misses_objs:
  assumes "seg_inv s" "objs_ok s objs" "i < length (bs_spaces s)" "push_bounds s i sz ptr t" "p \<in> objs"
  shows "\<not> (ptr \<le> p \<and> p < hw_add ptr (reserved_size s sz))"
proof -
  have grps: "grps_ok s" using assms(1) by (simp add: seg_inv_def)
  then have ms: "ms_bottom (grp_space s j) \<le> ms_top (grp_space s j)" "ms_top (grp_space s j) \<le> ms_end (grp_space s j)"
    if "j < length (bs_spaces s)" for j
    using that by (auto simp: grps_ok_def grp_ok_def ms_card_inv_def ms_inv_def split: if_splits)
  have b: "ms_top (grp_space s i) \<le> ptr" "hw_add ptr (reserved_size s sz) \<le> ms_end (grp_space s i)"
    using assms(4) by (auto simp: push_bounds_def)
  have o: "ms_bottom (grp_space s 0) \<le> p" "p < ms_top (grp_space s 0)" using assms(2,5) by (auto simp: objs_ok_def)
  show ?thesis
  proof (cases "i = 0")
    case False
    have l: "0 < length (bs_spaces s)" using assms(3) by linarith
    have "ms_end (grp_space s i) \<le> ms_bottom (grp_space s 0) \<or> ms_end (grp_space s 0) \<le> ms_bottom (grp_space s i)"
      using grps assms(3) l False unfolding grps_ok_def by blast
    then show ?thesis using b o ms[OF assms(3)] ms[OF l] by auto
  qed (use b o in auto)
qed

lemma push_handed:
  assumes inv: "seg_inv s" and o: "objs_ok s objs" and i: "i < length (bs_spaces s)"
    and p: "pushed s i sz ptr t s'" and b: "push_bounds s i sz ptr t"
  shows "handed s objs ptr sz s'"
proof -
  let ?r = "reserved_size s sz"
  have grps: "grps_ok s" using inv by (simp add: seg_inv_def)
  have r: "sz \<le> ?r" using reserved_size_ok[OF grps] by blast
  have "bs_cells s (bs_next_cell s) = None" using seg_inv_cell_less[OF inv] by fastforce
  note used = used_memory_pushed[OF p this, folded block_def]
  have "q \<notin> used_in (bs_cells s) \<union> objs" if q: "q \<in> block ptr sz" for q
  proof
    have in_seg: "ptr \<le> q" "q < hw_add ptr ?r"
      using q r hw_add_mono[of ptr sz ?r] by (auto simp: block_def simp del: hw_add_mono)
    assume "q \<in> used_in (bs_cells s) \<union> objs"
    then consider "q \<in> used_in (bs_cells s)" | "q \<in> objs" by blast
    then show False
    proof cases
      case 1
      obtain a k where a: "bs_cells s a = Some k" "c_start k \<le> q" "q < c_top k" "c_top k \<le> c_hard_end k"
        using used_in_segment[OF inv 1] .
      then show False
        using new_segment_apart[OF grps i b seg_inv_cell[OF inv a(1)], of 0 0] in_seg by (auto simp: apart_segs_def)
    next
      case 2
      then show False using push_misses_objs[OF inv o i b] in_seg by blast
    qed
  qed
  moreover have "objs_ok s' objs"
    unfolding objs_ok_def
  proof (intro ballI conjI allI impI)
    fix q assume q: "q \<in> objs"
    have l: "0 < length (bs_spaces s)" using i by linarith
    show "ms_bottom (grp_space s' 0) \<le> q" "q < ms_top (grp_space s' 0)"
      using o q pushed_bounds[OF p b i l] by (auto simp: objs_ok_def)
    fix a k' assume a: "bs_cells s' a = Some k'"
    show "\<not> (c_start k' \<le> q \<and> q < c_hard_end k')"
    proof (use p a in \<open>cases rule: pushed_cell\<close>)
      case (old k)
      then show ?thesis using o q strip_links_eqD[OF old(3)] by (auto simp: objs_ok_def)
    next
      case new
      then show ?thesis using push_misses_objs[OF inv o i b q] strip_links_eqD[OF new(2)] by simp
    qed
  qed
  moreover have "in_group s ptr sz"
  proof -
    have "ms_bottom (grp_space s i) \<le> ms_top (grp_space s i)"
      using grps i by (auto simp: grps_ok_def grp_ok_def ms_card_inv_def ms_inv_def split: if_splits)
    moreover have "hw_add ptr sz \<le> hw_add ptr ?r" using r by simp
    ultimately show ?thesis using b i unfolding in_group_def push_bounds_def by (meson order_trans)
  qed
  ultimately show ?thesis using used pushed_seg_inv[OF inv i p b] by (auto simp: handed_def)
qed

lemma top_retopped:
  assumes "seg_inv s" "bs_cells s b = Some l" "hw_add (c_top l) sz < c_end l"
  shows "retopped (bs_cells s) ((bs_cells s)(b \<mapsto> l\<lparr>c_top := hw_add (c_top l) sz\<rparr>))"
  unfolding retopped_def
proof (intro conjI allI impI)
  fix a k k' assume k: "bs_cells s a = Some k" "((bs_cells s)(b \<mapsto> l\<lparr>c_top := hw_add (c_top l) sz\<rparr>)) a = Some k'"
  have ok: "seg_ok s a k" using assms(1) k(1) by (rule seg_inv_cell)
  have "c_top k \<le> hw_add (c_top k) sz" by simp
  then have "c_start k \<le> hw_add (c_top k) sz" using ok by (simp add: seg_ok_def del: hw_add_ge)
  then show "c_start k' = c_start k" "c_hard_end k' = c_hard_end k" "c_end k' = c_end k" "c_space_id k' = c_space_id k"
    "c_start k' \<le> c_top k'" "c_top k' \<le> c_hard_end k'"
    using k ok assms(2,3) by (auto simp: seg_ok_def split: if_splits)
  fix c assume "c_next_segment k' = Some c"
  then show "a < c" "bs_cells s c \<noteq> None" using k ok assms(2) by (auto simp: seg_ok_def split: if_splits)
qed (use assms(2) in auto)

lemma retopped_objs_ok:
  assumes "retopped (bs_cells s) h" "objs_ok s objs"
  shows "objs_ok (s\<lparr>bs_cells := h\<rparr>) objs"
  unfolding objs_ok_def
proof (intro ballI conjI allI impI)
  fix p assume p: "p \<in> objs"
  show "ms_bottom (grp_space (s\<lparr>bs_cells := h\<rparr>) 0) \<le> p" "p < ms_top (grp_space (s\<lparr>bs_cells := h\<rparr>) 0)"
    using assms(2) p by (simp_all add: objs_ok_def)
  fix a k' assume "bs_cells (s\<lparr>bs_cells := h\<rparr>) a = Some k'"
  then have k': "h a = Some k'" by simp
  then obtain k where k: "bs_cells s a = Some k" using assms(1) unfolding retopped_def by (metis not_None_eq)
  then have "c_start k' = c_start k" "c_hard_end k' = c_hard_end k" using assms(1) k' unfolding retopped_def by blast+
  then show "\<not> (c_start k' \<le> p \<and> p < c_hard_end k')" using assms(2) p k by (simp add: objs_ok_def)
qed

lemma used_in_upd: "used_in (h(b \<mapsto> l')) = used_in (h(b := None)) \<union> {c_start l'..<c_top l'}"
  using used_in_new[of "h(b := None)" b l'] by simp

lemma top_handed:
  assumes inv: "seg_inv s" and o: "objs_ok s objs" and l: "bs_cells s b = Some l" and sz: "hw_add (c_top l) sz < c_end l"
  shows "handed s objs (c_top l) sz (s\<lparr>bs_cells := (bs_cells s)(b \<mapsto> l\<lparr>c_top := hw_add (c_top l) sz\<rparr>)\<rparr>)"
proof -
  let ?h = "(bs_cells s)(b \<mapsto> l\<lparr>c_top := hw_add (c_top l) sz\<rparr>)"
  note r = top_retopped[OF inv l sz]
  have ok: "c_start l \<le> c_top l" "c_end l \<le> c_hard_end l" using seg_inv_cell[OF inv l] by (auto simp: seg_ok_def)
  have used: "used_in ?h = used_in (bs_cells s) \<union> block (c_top l) sz"
  proof -
    have "{c_start l..<hw_add (c_top l) sz} = {c_start l..<c_top l} \<union> block (c_top l) sz"
      using ok(1) by (simp add: block_def ivl_disj_un_two(3))
    then show ?thesis
      using used_in_upd[of "bs_cells s" b l] used_in_upd[of "bs_cells s" b "l\<lparr>c_top := hw_add (c_top l) sz\<rparr>"] l
      by (auto simp: fun_upd_idem)
  qed
  have "q \<notin> used_in (bs_cells s) \<union> objs" if q: "q \<in> block (c_top l) sz" for q
  proof
    have q': "c_start l \<le> q" "q < c_hard_end l" "c_top l \<le> q" using q ok sz by (auto simp: block_def)
    assume "q \<in> used_in (bs_cells s) \<union> objs"
    then have "q \<in> used_in (bs_cells s)" using o l q' by (auto simp: objs_ok_def)
    then obtain a k where a: "bs_cells s a = Some k" "c_start k \<le> q" "q < c_top k" "c_top k \<le> c_hard_end k"
      using used_in_segment[OF inv] by blast
    have "a \<noteq> b" using a l q'(3) by auto
    then have "apart_segs k l \<or> apart_segs l k"
      using inv a(1) l unfolding seg_inv_def segs_ok_def by (meson linorder_neqE_nat)
    then show False using a q' by (auto simp: apart_segs_def)
  qed
  moreover have "in_group s (c_top l) sz"
  proof -
    have "grps_ok s" using inv by (simp add: seg_inv_def)
    with seg_inv_cell[OF inv l] obtain i where "i < length (bs_spaces s)" "ms_bottom (grp_space s i) \<le> c_start l"
      "c_hard_end l \<le> ms_top (grp_space s i)" "ms_top (grp_space s i) \<le> ms_end (grp_space s i)"
      by (rule seg_bounds)
    then show ?thesis using ok sz unfolding in_group_def by (intro exI[of _ i]) linarith
  qed
  ultimately show ?thesis
    using retopped_seg_inv[OF inv r] retopped_objs_ok[OF r o] used by (auto simp: handed_def)
qed

section \<open>New segments\<close>

lemma used_in_upd_same:
  assumes "h b = Some l" "c_start l' = c_start l" "c_top l' = c_top l"
  shows "used_in (h(b \<mapsto> l')) = used_in h"
  using used_in_upd[of h b l'] used_in_upd[of h b l] assms by (simp add: fun_upd_idem)

lemma link_handed:
  assumes h: "handed s objs p sz s1" and c: "bs_cells s1 b = Some l" "bs_cells s1 n = Some k" "b < n"
  shows "\<exists>s2. link_segment s1 (Some n) (Some b) = Inr (s2, Some (c_start k), Some n) \<and> handed s objs p sz s2 \<and>
    bs_cells s2 n \<noteq> None"
proof -
  define h1 where "h1 = (bs_cells s1)(b \<mapsto> l\<lparr>c_next_segment := Some n\<rparr>)"
  define h2 where "h2 = h1(n \<mapsto> k\<lparr>c_prev_segment := Some b\<rparr>)"
  have h1n: "h1 n = Some k" using c by (simp add: h1_def)
  have link: "link_segment s1 (Some n) (Some b) = Inr (s1\<lparr>bs_cells := h2\<rparr>, Some (c_start k), Some n)"
    using c h1n by (simp add: link_segment_def h1_def[symmetric] h2_def)
  have inv: "seg_inv s1" and o: "objs_ok s1 objs" using h by (simp_all add: handed_def)
  have r: "retopped (bs_cells s1) h2"
    unfolding retopped_def
  proof (intro conjI allI impI)
    fix a x x' assume x: "bs_cells s1 a = Some x" "h2 a = Some x'"
    have ok: "seg_ok s1 a x" using inv x(1) by (rule seg_inv_cell)
    then show "c_start x' = c_start x" "c_hard_end x' = c_hard_end x" "c_end x' = c_end x" "c_space_id x' = c_space_id x"
      "c_start x' \<le> c_top x'" "c_top x' \<le> c_hard_end x'"
      using x c by (auto simp: h2_def h1_def seg_ok_def split: if_splits)
    fix y assume "c_next_segment x' = Some y"
    then show "a < y" "bs_cells s1 y \<noteq> None" using x c ok by (auto simp: h2_def h1_def seg_ok_def split: if_splits)
  qed (use c in \<open>auto simp: h2_def h1_def\<close>)
  have "used_in h1 = used_in (bs_cells s1)" unfolding h1_def using used_in_upd_same[of "bs_cells s1" b l] c(1) by simp
  then have "used_in h2 = used_in (bs_cells s1)" unfolding h2_def using used_in_upd_same[of h1 n k] h1n by simp
  then have "handed s objs p sz (s1\<lparr>bs_cells := h2\<rparr>)"
    using h retopped_seg_inv[OF inv r] retopped_objs_ok[OF r o] by (simp add: handed_def)
  then show ?thesis using link by (simp add: h2_def)
qed

text \<open>
  What an allocation that may fail comes to: it ends; it gives out no memory and
  leaves the space alone, or it gives out a block.
\<close>

definition gives ::
  "bda_space \<Rightarrow> addr set \<Rightarrow> size_t \<Rightarrow> (bda_space \<times> addr option \<times> container_t) result option \<Rightarrow> bool" where
  "gives s objs sz r \<longleftrightarrow>
     (\<exists>e. r = Some (Inl e)) \<or>
     (\<exists>c. r = Some (Inr (s, None, Some c)) \<and> bs_cells s c \<noteq> None) \<or>
     (\<exists>s' p c. r = Some (Inr (s', Some p, Some c)) \<and> bs_cells s' c \<noteq> None \<and> handed s objs p sz s')"

lemma pushed_new_cell:
  assumes "pushed s i sz ptr t s'"
  obtains k where "bs_cells s' (bs_next_cell s) = Some k" "c_start k = ptr" "c_top k = hw_add ptr sz"
proof -
  have sd: "same_data (pushed_cells s i sz ptr) (bs_cells s')" using assms by (simp add: pushed_def)
  then have "bs_cells s' (bs_next_cell s) \<noteq> None" using same_data_dom[OF sd, of "bs_next_cell s"] by simp
  then obtain k where k: "bs_cells s' (bs_next_cell s) = Some k" by blast
  obtain x where x: "pushed_cells s i sz ptr (bs_next_cell s) = Some x" "strip_links k = strip_links x"
    using same_data_cell[OF sd k] .
  then show ?thesis using that[OF k] strip_links_eqD(1,2)[OF x(2)] by auto
qed

lemma allocate_new_segment_gives:
  assumes inv: "seg_inv s" and o: "objs_ok s objs" and i: "i < length (bs_spaces s)" and a: "bs_cells s a \<noteq> None"
  shows "gives s objs sz (allocate_new_segment s (int i) sz (Some a))"
proof (cases "push_container s (int i) sz")
  case (Inl e)
  then show ?thesis by (simp add: allocate_new_segment_def gives_def)
next
  case (Inr r)
  obtain s1 c where r: "push_container s (int i) sz = Inr (s1, c)" using Inr by (cases r) auto
  consider "c = None" "s1 = s" | ptr t where "c = Some (bs_next_cell s)" "pushed s i sz ptr t s1" "push_bounds s i sz ptr t"
    using push_container_pushed[OF inv i r] by blast
  then show ?thesis
  proof cases
    case 1
    then show ?thesis using r a by (simp add: allocate_new_segment_def gives_def)
  next
    case (2 ptr t)
    let ?n = "bs_next_cell s"
    note h = push_handed[OF inv o i 2(2,3)]
    have inv1: "seg_inv s1" using h by (simp add: handed_def)
    have an: "a < ?n" using a seg_inv_cell_less[OF inv] by auto
    obtain k1 where k1: "bs_cells s1 a = Some k1" using pushed_keeps_cells[OF 2(2) a] by auto
    have closed: "y < ?n" if x: "x < ?n" "bs_cells s1 x = Some kx" "c_next_segment kx = Some y" for x kx y
    proof (use 2(2) x(2) in \<open>cases rule: pushed_cell\<close>)
      case (old k)
      then show ?thesis using seg_inv_next(3)[OF inv old(2)] x(3) strip_links_eqD(6)[OF old(3)] by simp
    qed (use x in simp)
    obtain b l where b: "last_segment (bs_cells s1) (Some a) = Some (Inr (Some b))" "bs_cells s1 b = Some l" "b < ?n"
      using last_segment_ends[of s1 a k1 "\<lambda>x. x < ?n", OF inv1 k1 an] closed by blast
    obtain k where k: "bs_cells s1 ?n = Some k" "c_start k = ptr" using pushed_new_cell[OF 2(2)] .
    show ?thesis
      using link_handed[OF h b(2) k(1) b(3)] r b(1) 2(1) k(2)
      by (auto simp: allocate_new_segment_def gives_def)
  qed
qed

section \<open>Elements\<close>

lemma handed_start_array [simp]: "handed s objs p n (s'\<lparr>bs_start_array := osa\<rparr>) \<longleftrightarrow> handed s objs p n s'"
  by (simp add: handed_def objs_ok_def)

lemma extend_container_gives:
  assumes inv: "seg_inv s" and o: "objs_ok s objs" and a: "bs_cells s a \<noteq> None"
  shows "gives s objs sz (extend_container s sz (Some a))"
proof -
  obtain k where k: "bs_cells s a = Some k" using a by blast
  obtain i where i: "i < length (bs_spaces s)" "c_space_id k = int i"
    using seg_inv_cell[OF inv k] by (auto simp: seg_ok_def)
  have l: "0 < length (bs_spaces s)" using i(1) by linarith
  have e: "extend_container s sz (Some a) =
    (case allocate_new_segment s (int i) sz (Some a) of
       None \<Rightarrow> None
     | Some (Inl e) \<Rightarrow> Some (Inl e)
     | Some (Inr (s1, Some p, c1)) \<Rightarrow> Some (Inr (s1, Some p, c1))
     | Some (Inr (s1, None, c1)) \<Rightarrow> allocate_new_segment s1 0 sz c1)"
    using k i by (simp add: extend_container_def)
  have g: "gives s objs sz (allocate_new_segment s (int i) sz (Some a))"
    using inv o i(1) a by (rule allocate_new_segment_gives)
  have g0: "gives s objs sz (allocate_new_segment s 0 sz (Some c))" if "bs_cells s c \<noteq> None" for c
    using allocate_new_segment_gives[OF inv o l that] by simp
  consider e where "allocate_new_segment s (int i) sz (Some a) = Some (Inl e)"
    | c where "allocate_new_segment s (int i) sz (Some a) = Some (Inr (s, None, Some c))" "bs_cells s c \<noteq> None"
    | s' p c where "allocate_new_segment s (int i) sz (Some a) = Some (Inr (s', Some p, Some c))"
    using g unfolding gives_def by blast
  then show ?thesis using g g0 by cases (simp_all add: e)
qed

lemma alloc_or_extend_gives:
  assumes inv: "seg_inv s" and o: "objs_ok s objs"
  shows "gives s objs sz
    (case alloc_in_segments (bs_cells s) sz (Some a) of
       None \<Rightarrow> None
     | Some (Inl e) \<Rightarrow> Some (Inl e)
     | Some (Inr (h, Some old_top, c1)) \<Rightarrow>
         Some (bind_result (bs_allocate_block (s\<lparr>bs_cells := h\<rparr>) old_top) (\<lambda>s1. Inr (s1, Some old_top, c1)))
     | Some (Inr (h, None, c1)) \<Rightarrow> extend_container (s\<lparr>bs_cells := h\<rparr>) sz c1)"
proof (cases "bs_cells s a")
  case None
  then have "alloc_in_segments (bs_cells s) sz (Some a) = Some (Inl NullDeref)"
    by (subst alloc_in_segments.simps) simp
  then show ?thesis by (simp add: gives_def)
next
  case (Some k)
  obtain b l where bl: "bs_cells s b = Some l"
    "alloc_in_segments (bs_cells s) sz (Some a) = Some (Inr (bs_cells s, None, Some b)) \<or>
     alloc_in_segments (bs_cells s) sz (Some a) =
       Some (Inr ((bs_cells s)(b \<mapsto> l\<lparr>c_top := hw_add (c_top l) sz\<rparr>), Some (c_top l), Some b)) \<and>
       hw_add (c_top l) sz < c_end l"
    using alloc_in_segments_ends[OF inv Some, of sz] by blast
  show ?thesis
  proof (use bl(2) in \<open>elim disjE conjE\<close>)
    assume "alloc_in_segments (bs_cells s) sz (Some a) = Some (Inr (bs_cells s, None, Some b))"
    then show ?thesis using extend_container_gives[OF inv o, of b sz] bl(1) by simp
  next
    let ?s1 = "s\<lparr>bs_cells := (bs_cells s)(b \<mapsto> l\<lparr>c_top := hw_add (c_top l) sz\<rparr>)\<rparr>"
    assume e: "alloc_in_segments (bs_cells s) sz (Some a) =
      Some (Inr ((bs_cells s)(b \<mapsto> l\<lparr>c_top := hw_add (c_top l) sz\<rparr>), Some (c_top l), Some b))"
      and sz: "hw_add (c_top l) sz < c_end l"
    note h = top_handed[OF inv o bl(1) sz]
    show ?thesis
    proof (cases "bs_allocate_block ?s1 (c_top l)")
      case (Inl x)
      then show ?thesis by (simp add: e gives_def)
    next
      case (Inr s2)
      then obtain osa where s2: "s2 = ?s1\<lparr>bs_start_array := osa\<rparr>" using bs_allocate_block_frame by blast
      then have "handed s objs (c_top l) sz s2" "bs_cells s2 b \<noteq> None" using h by simp_all
      then show ?thesis using Inr by (simp add: e gives_def)
    qed
  qed
qed

lemma allocate_element_gives:
  "seg_inv s \<Longrightarrow> objs_ok s objs \<Longrightarrow> gives s objs sz (allocate_element s sz (Some a))"
  unfolding allocate_element_def by (rule alloc_or_extend_gives)

lemma allocate_plab_gives:
  "seg_inv s \<Longrightarrow> objs_ok s objs \<Longrightarrow> gives s objs (BDAOldPLABSize fl) (allocate_plab fl s (Some a))"
  unfolding allocate_plab_def by (rule alloc_or_extend_gives)

section \<open>Runs\<close>

datatype request = NewContainer size_t addr | NewElement size_t cid | NewPlab cid | NewObject size_t

definition block_of :: "size_t \<Rightarrow> bda_space \<times> addr option \<times> container_t \<Rightarrow> bda_space \<times> (addr \<times> size_t) option" where
  "block_of sz = (\<lambda>(s, r, c). (s, map_option (\<lambda>p. (p, sz)) r))"

fun do_request :: "bda_flags \<Rightarrow> request \<Rightarrow> bda_space \<Rightarrow> (bda_space \<times> (addr \<times> size_t) option) result option" where
  "do_request fl (NewContainer sz r) s =
     Some (bind_result (bs_allocate_container s sz r) (\<lambda>(s1, c).
       if c = None then Inr (s1, None)
       else bind_result (cget (bs_cells s1) c) (\<lambda>k. Inr (s1, Some (c_start k, sz)))))"
| "do_request fl (NewElement sz a) s = map_option (map_sum id (block_of sz)) (allocate_element s sz (Some a))"
| "do_request fl (NewPlab a) s =
     map_option (map_sum id (block_of (BDAOldPLABSize fl))) (allocate_plab fl s (Some a))"
| "do_request fl (NewObject sz) s =
     Some (map_sum id (\<lambda>(s1, r). (s1, map_option (\<lambda>p. (p, sz)) r)) (bs_allocate s sz))"

fun run_requests :: "bda_flags \<Rightarrow> request list \<Rightarrow> bda_space \<Rightarrow> (bda_space \<times> (addr \<times> size_t) list) result option" where
  "run_requests fl [] s = Some (Inr (s, []))"
| "run_requests fl (r # rs) s =
     Option.bind (do_request fl r s) (\<lambda>x. case x of
         Inl e \<Rightarrow> Some (Inl e)
       | Inr (s1, b) \<Rightarrow>
           map_option (map_sum id (\<lambda>(s2, bs). (s2, case b of None \<Rightarrow> bs | Some c \<Rightarrow> c # bs)))
             (run_requests fl rs s1))"

text \<open>One request: \<open>objs'\<close> is the memory of ordinary objects after it.\<close>

definition served :: "bda_space \<Rightarrow> addr set \<Rightarrow> (bda_space \<times> (addr \<times> size_t) option) result option \<Rightarrow> bool" where
  "served s objs r \<longleftrightarrow>
     (\<exists>e. r = Some (Inl e)) \<or> r = Some (Inr (s, None)) \<or>
     (\<exists>s' p n objs'. r = Some (Inr (s', Some (p, n))) \<and> seg_inv s' \<and> objs_ok s' objs' \<and>
        used_in (bs_cells s') \<union> objs' = used_in (bs_cells s) \<union> objs \<union> block p n \<and>
        block p n \<inter> (used_in (bs_cells s) \<union> objs) = {} \<and> in_group s p n)"

lemma handed_served: "handed s objs p n s' \<Longrightarrow> served s objs (Some (Inr (s', Some (p, n))))"
  unfolding served_def handed_def by auto

lemma gives_served:
  assumes "gives s objs sz r"
  shows "served s objs (map_option (map_sum id (block_of sz)) r)"
proof -
  consider e where "r = Some (Inl e)" | c where "r = Some (Inr (s, None, Some c))"
    | s' p c where "r = Some (Inr (s', Some p, Some c))" "handed s objs p sz s'"
    using assms unfolding gives_def by blast
  then show ?thesis
  proof cases
    case (3 s' p c)
    then show ?thesis using handed_served[OF 3(2)] by (simp add: block_of_def)
  qed (simp_all add: served_def block_of_def)
qed

lemma push_container_served:
  assumes inv: "seg_inv s" and o: "objs_ok s objs" and i: "i < length (bs_spaces s)"
    and p: "push_container s (int i) sz = Inr (s1, c)"
  shows "c = None \<and> s1 = s \<or>
    (\<exists>a k. c = Some a \<and> bs_cells s1 a = Some k \<and> bs_cells s a = None \<and> c_top k = hw_add (c_start k) sz \<and>
       handed s objs (c_start k) sz s1)"
proof -
  have new: "bs_cells s (bs_next_cell s) = None" using seg_inv_cell_less[OF inv] by fastforce
  consider "c = None" "s1 = s" | ptr t where "c = Some (bs_next_cell s)" "pushed s i sz ptr t s1" "push_bounds s i sz ptr t"
    using push_container_pushed[OF inv i p] by blast
  then show ?thesis
  proof cases
    case (2 ptr t)
    obtain k where "bs_cells s1 (bs_next_cell s) = Some k" "c_start k = ptr" "c_top k = hw_add ptr sz"
      using pushed_new_cell[OF 2(2)] .
    then show ?thesis using 2(1) new push_handed[OF inv o i 2(2,3)] by auto
  qed simp
qed

lemma ga_find_from_range: "ga_find_from j f xs = -1 \<or> j \<le> ga_find_from j f xs \<and> ga_find_from j f xs < j + int (length xs)"
proof (induction xs arbitrary: j)
  case (Cons x xs)
  show ?case using Cons.IH[of "j + 1"] by auto
qed simp

lemma allocate_container_handed:
  assumes inv: "seg_inv s" and o: "objs_ok s objs" and s2: "bs_allocate_container s sz r = Inr (s2, c)"
  shows "c = None \<and> s2 = s \<or>
    (\<exists>a k. c = Some a \<and> bs_cells s2 a = Some k \<and> bs_cells s a = None \<and> c_top k = hw_add (c_start k) sz \<and>
       handed s objs (c_start k) sz s2)"
proof -
  define i where "i = nat (ga_find (cs_equals r) (bs_spaces s))"
  have i: "int i = ga_find (cs_equals r) (bs_spaces s)" "i < length (bs_spaces s)"
    and b: "bind_result (push_container s (int i) sz) (\<lambda>(s1, new_ctr).
      if new_ctr = None then push_container s1 0 sz else Inr (s1, new_ctr)) = Inr (s2, c)"
    using s2 ga_find_from_range[of 0 "cs_equals r" "bs_spaces s"]
    by (auto simp: bs_allocate_container_def i_def ga_find_def Let_def split: if_splits)
  have l: "0 < length (bs_spaces s)" using i(2) by linarith
  obtain s1 c1 where 1: "push_container s (int i) sz = Inr (s1, c1)"
    "(if c1 = None then push_container s1 0 sz else Inr (s1, c1)) = Inr (s2, c)"
    using b by (auto elim!: bind_resultE)
  show ?thesis
    using push_container_served[OF inv o i(2) 1(1)] push_container_served[OF inv o l, of sz s2 c] 1(2)
    by (auto split: if_splits)
qed

lemma container_served:
  assumes inv: "seg_inv s" and o: "objs_ok s objs"
  shows "served s objs (do_request fl (NewContainer sz r) s)"
proof (cases "bs_allocate_container s sz r")
  case (Inl e)
  then show ?thesis by (simp add: served_def)
next
  case (Inr x)
  obtain s2 c where s2: "bs_allocate_container s sz r = Inr (s2, c)" using Inr by (cases x) auto
  from allocate_container_handed[OF inv o s2] show ?thesis
  proof (elim disjE exE conjE)
    fix a k assume "c = Some a" "bs_cells s2 a = Some k" "handed s objs (c_start k) sz s2"
    then show ?thesis using s2 handed_served[of s objs "c_start k" sz s2] by simp
  qed (use s2 in \<open>simp add: served_def\<close>)
qed

text \<open>An ordinary object is put at the top of the group of other objects, above all its segments.\<close>

abbreviation object_grps :: "bda_space \<Rightarrow> size_t \<Rightarrow> cgrp list" where
  "object_grps s sz \<equiv> (bs_spaces s)[0 := (bs_spaces s ! 0)\<lparr>cs_space :=
     (grp_space s 0)\<lparr>ms_top := hw_add (ms_top (grp_space s 0)) sz\<rparr>\<rparr>]"

lemma object_grps_nth:
  assumes "bs_spaces s \<noteq> []"
  shows "cs_space (object_grps s sz ! j) =
      (if j = 0 then (grp_space s 0)\<lparr>ms_top := hw_add (ms_top (grp_space s 0)) sz\<rparr> else grp_space s j)"
    "cs_type (object_grps s sz ! j) = cs_type (bs_spaces s ! j)" "cs_pool (object_grps s sz ! j) = cs_pool (bs_spaces s ! j)"
  using assms by (auto simp: nth_list_update)

lemma object_seg_inv:
  assumes inv: "seg_inv s" and fits: "hw_add (ms_top (grp_space s 0)) sz \<le> ms_end (grp_space s 0)"
  shows "seg_inv (s\<lparr>bs_spaces := object_grps s sz, bs_self := self\<rparr>)" (is "seg_inv ?s1")
proof -
  have grps: "grps_ok s" and segs: "segs_ok s" and regs: "regions_ok s" using inv by (simp_all add: seg_inv_def)
  have ne: "bs_spaces s \<noteq> []" and ms: "ms_card_inv (grp_space s 0)" using grps by (auto simp: grps_ok_def grp_ok_def)
  note sp = object_grps_nth[OF ne]
  have "ms_card_inv ((grp_space s 0)\<lparr>ms_top := hw_add (ms_top (grp_space s 0)) sz\<rparr>)"
    using ms fits hw_add_ge[of "ms_top (grp_space s 0)" sz] by (auto simp: ms_card_inv_def ms_inv_def simp del: hw_add_ge)
  then have ok: "grp_ok ?s1 j" if "j < length (bs_spaces s)" for j
    using grps that by (cases "j = 0") (auto simp: sp grps_ok_def grp_ok_def is_other_grp_def grp_value_def)
  have "ms_bottom (cs_space (object_grps s sz ! j)) = ms_bottom (grp_space s j)"
    "ms_end (cs_space (object_grps s sz ! j)) = ms_end (grp_space s j)" for j by (simp_all add: sp)
  then have "grps_ok ?s1" using grps ok unfolding grps_ok_def by simp
  moreover have "seg_ok ?s1 a k" if "bs_cells s a = Some k" for a k
    by (rule seg_ok_mono[of s a k]) (use that segs in \<open>auto simp: segs_ok_def sp\<close>)
  then have "segs_ok ?s1" using segs by (simp add: segs_ok_def)
  moreover have "regions_ok ?s1" using regs by (simp add: regions_ok_def on_region_def region_container_def sp)
  ultimately show ?thesis by (simp add: seg_inv_def)
qed

lemma object_above:
  assumes inv: "seg_inv s" and fits: "hw_add (ms_top (grp_space s 0)) sz \<le> ms_end (grp_space s 0)"
    and k: "bs_cells s a = Some k"
  shows "c_hard_end k \<le> ms_top (grp_space s 0) \<or> hw_add (ms_top (grp_space s 0)) sz \<le> c_start k"
proof -
  have grps: "grps_ok s" using inv by (simp add: seg_inv_def)
  then have l: "0 < length (bs_spaces s)" and ms: "ms_inv (grp_space s 0)"
    by (auto simp: grps_ok_def grp_ok_def ms_card_inv_def)
  obtain j where j: "j < length (bs_spaces s)" "ms_bottom (grp_space s j) \<le> c_start k"
    "c_hard_end k \<le> ms_top (grp_space s j)" "ms_top (grp_space s j) \<le> ms_end (grp_space s j)"
    using seg_inv_cell[OF inv k] grps by (rule seg_bounds)
  have "j \<noteq> 0 \<Longrightarrow> ms_end (grp_space s j) \<le> ms_bottom (grp_space s 0) \<or> ms_end (grp_space s 0) \<le> ms_bottom (grp_space s j)"
    using grps j(1) l unfolding grps_ok_def by blast
  then show ?thesis using j fits ms by (cases "j = 0") (auto simp: ms_inv_def)
qed

lemma object_block:
  fixes s sz
  defines "p \<equiv> ms_top (grp_space s 0)"
  assumes inv: "seg_inv s" and o: "objs_ok s objs" and fits: "hw_add p sz \<le> ms_end (grp_space s 0)"
  shows "objs_ok (s\<lparr>bs_spaces := object_grps s sz, bs_self := self\<rparr>) (objs \<union> block p sz)"
    "block p sz \<inter> (used_in (bs_cells s) \<union> objs) = {}"
proof -
  have ne: "bs_spaces s \<noteq> []" and bp: "ms_bottom (grp_space s 0) \<le> p"
    using inv by (auto simp: seg_inv_def grps_ok_def grp_ok_def ms_card_inv_def ms_inv_def p_def)
  note above = object_above[OF inv fits[unfolded p_def], folded p_def]
  have q: "ms_bottom (grp_space s 0) \<le> q \<and> q < hw_add p sz \<and>
      (\<forall>a k. bs_cells s a = Some k \<longrightarrow> \<not> (c_start k \<le> q \<and> q < c_hard_end k))" if "q \<in> objs \<union> block p sz" for q
  proof (cases "q \<in> objs")
    case True
    then have "q < p" using o by (auto simp: objs_ok_def p_def)
    then have "q < hw_add p sz" using hw_add_ge[of p sz] by linarith
    then show ?thesis using True o by (auto simp: objs_ok_def)
  next
    case False
    then have "p \<le> q" "q < hw_add p sz" using that by (auto simp: block_def)
    then show ?thesis using bp above by (meson leD order_trans le_less_trans less_le_trans)
  qed
  then show "objs_ok (s\<lparr>bs_spaces := object_grps s sz, bs_self := self\<rparr>) (objs \<union> block p sz)"
    using object_grps_nth(1)[OF ne, of sz 0] by (simp add: objs_ok_def p_def)
  have "x \<notin> used_in (bs_cells s)" if x: "x \<in> block p sz" for x
  proof
    assume "x \<in> used_in (bs_cells s)"
    then obtain a k where a: "bs_cells s a = Some k" "c_start k \<le> x" "x < c_top k" "c_top k \<le> c_hard_end k"
      using used_in_segment[OF inv] by blast
    then show False using above[OF a(1)] x by (auto simp: block_def)
  qed
  moreover have "x \<notin> objs" if "x \<in> block p sz" for x using o that by (auto simp: objs_ok_def block_def p_def)
  ultimately show "block p sz \<inter> (used_in (bs_cells s) \<union> objs) = {}" by blast
qed

lemma object_served:
  assumes inv: "seg_inv s" and o: "objs_ok s objs"
  shows "served s objs (do_request fl (NewObject sz) s)"
proof -
  let ?sp = "grp_space s 0"
  have grps: "grps_ok s" using inv by (simp add: seg_inv_def)
  then have l: "0 < length (bs_spaces s)" and ms: "ms_card_inv ?sp" and mi: "ms_inv ?sp"
    by (auto simp: grps_ok_def grp_ok_def ms_card_inv_def)
  have at: "cs_at s 0 = Inr (bs_spaces s ! 0)" using l by (simp add: cs_at_def)
  show ?thesis
  proof (cases "hw_add (ms_top ?sp) sz \<le> ms_end ?sp")
    case False
    then have "bs_allocate s sz = Inr (s, None)"
      using mi at by (simp add: bs_allocate_def bs_cas_allocate_def ms_cas_allocate_eq ms_allocate_cases)
    then show ?thesis by (simp add: served_def)
  next
    case True
    let ?p = "ms_top ?sp"
    let ?s1 = "\<lambda>self. s\<lparr>bs_spaces := object_grps s sz, bs_self := self\<rparr>"
    have "\<exists>self. bs_allocate s sz = Inr (?s1 self, Some ?p) \<or> (\<exists>e. bs_allocate s sz = Inl e)"
      using True mi at
      by (auto simp: bs_allocate_def bs_cas_allocate_def ms_cas_allocate_eq ms_allocate_cases cs_put_def Let_def
          intro: exI[of _ "bs_self s"])
    then obtain self where "bs_allocate s sz = Inr (?s1 self, Some ?p) \<or> (\<exists>e. bs_allocate s sz = Inl e)" by blast
    moreover have g: "in_group s ?p sz" using l mi True by (auto simp: in_group_def ms_inv_def)
    have "served s objs (Some (Inr (?s1 self, Some (?p, sz))))"
      unfolding served_def using object_seg_inv[OF inv True, of self] object_block(1)[OF inv o True, where self = self]
        object_block(2)[OF inv o True] g
      by (intro disjI2 exI[of _ "?s1 self"] exI[of _ ?p] exI[of _ sz] exI[of _ "objs \<union> block ?p sz"]) auto
    ultimately show ?thesis by (auto simp: served_def)
  qed
qed

lemma do_request_served:
  assumes "seg_inv s" "objs_ok s objs"
  shows "served s objs (do_request fl r s)"
proof (cases r)
  case (NewElement sz a)
  then show ?thesis using gives_served[OF allocate_element_gives[OF assms]] by simp
next
  case (NewPlab a)
  then show ?thesis using gives_served[OF allocate_plab_gives[OF assms]] by simp
qed (use container_served[OF assms] object_served[OF assms] in blast)+

definition blocks_apart :: "(addr \<times> size_t) list \<Rightarrow> bool" where
  "blocks_apart bs \<longleftrightarrow> sorted_wrt (\<lambda>b c. block (fst b) (snd b) \<inter> block (fst c) (snd c) = {}) bs"

lemma run_requests_served:
  assumes "seg_inv s" "objs_ok s objs"
  shows "(\<exists>e. run_requests fl rs s = Some (Inl e)) \<or>
    (\<exists>s' bs. run_requests fl rs s = Some (Inr (s', bs)) \<and> seg_inv s' \<and> blocks_apart bs \<and>
      (\<forall>b \<in> set bs. block (fst b) (snd b) \<inter> (used_in (bs_cells s) \<union> objs) = {}))"
  using assms
proof (induction rs arbitrary: s objs)
  case Nil
  then show ?case by (simp add: blocks_apart_def)
next
  case (Cons r rs)
  consider e where "do_request fl r s = Some (Inl e)" | "do_request fl r s = Some (Inr (s, None))"
    | s1 p n objs1 where "do_request fl r s = Some (Inr (s1, Some (p, n)))" "seg_inv s1" "objs_ok s1 objs1"
      "used_in (bs_cells s1) \<union> objs1 = used_in (bs_cells s) \<union> objs \<union> block p n"
      "block p n \<inter> (used_in (bs_cells s) \<union> objs) = {}"
    using do_request_served[OF Cons.prems, of fl r] unfolding served_def by blast
  then show ?case
  proof cases
    case 1
    then show ?thesis by simp
  next
    case 2
    then show ?thesis using Cons.IH[OF Cons.prems] by auto
  next
    case (3 s1 p n objs1)
    consider e where "run_requests fl rs s1 = Some (Inl e)"
      | s2 bs where "run_requests fl rs s1 = Some (Inr (s2, bs))" "seg_inv s2" "blocks_apart bs"
        "\<forall>b \<in> set bs. block (fst b) (snd b) \<inter> (used_in (bs_cells s1) \<union> objs1) = {}"
      using Cons.IH[OF 3(2,3)] by blast
    then show ?thesis
    proof cases
      case (2 s2 bs)
      have d: "block (fst b) (snd b) \<inter> (used_in (bs_cells s) \<union> objs) = {} \<and> block (fst b) (snd b) \<inter> block p n = {}"
        if "b \<in> set bs" for b
        using 2(4) that unfolding 3(4) by blast
      have "blocks_apart ((p, n) # bs)" using 2(3) d unfolding blocks_apart_def by (auto simp: Int_commute)
      then show ?thesis using 2(1,2) 3(1,5) d by auto
    qed (use 3(1) in simp)
  qed
qed

end
