(* ===== verification/BdaLayout.thy ===== *)
theory BdaLayout
  imports BdaRuns
begin

text \<open>
  Setting up the big-data space: the size of the groups is found, the groups tile
  the old generation, and a freshly initialised space satisfies the invariant of
  the allocator.
\<close>

section \<open>The size of a group\<close>

definition grp_size :: "int \<Rightarrow> int \<Rightarrow> size_t \<Rightarrow> size_t" where
  "grp_size q n a =
     nat (align_size_down ((align_size_down q (int a) mod int size_t_max1) div n) (int a))"

lemma grp_size_ok:
  assumes "0 \<le> q" "q < int size_t_max1" "0 < n" "0 < a" "RegionSize dvd a"
  shows "RegionSize dvd grp_size q n a" "int (grp_size q n a) * n \<le> q"
    "0 < grp_size q n a \<Longrightarrow> 0 < q"
proof -
  define d where "d = align_size_down q (int a)"
  define z where "z = align_size_down (d div n) (int a)"
  have a: "0 < int a" "(2 ^ Log2RegionSize :: int) dvd int a" using assms by (auto simp: RegionSize_def dvd_int_pow2)
  have d: "0 \<le> d" "d \<le> q" using align_mask_bounds[OF a(1)] assms(1) by (auto simp: d_def)
  then have m: "d mod int size_t_max1 = d" using assms(2) by simp
  have "0 \<le> d div n" using d(1) assms(3) by (simp add: pos_imp_zdiv_nonneg_iff)
  then have z: "0 \<le> z" "z \<le> d div n" using align_mask_bounds[OF a(1)] by (auto simp: z_def)
  have e: "grp_size q n a = nat z" by (simp add: grp_size_def d_def[symmetric] m z_def)
  have "(2 ^ Log2RegionSize :: int) dvd z" unfolding z_def by (rule align_mask_dvd[OF a(2)])
  then show "RegionSize dvd grp_size q n a"
    using z(1) by (simp add: e RegionSize_def flip: dvd_int_pow2)
  have zn: "z * n \<le> d"
  proof -
    have "z * n \<le> d div n * n" using z(2) assms(3) by (simp add: mult_right_mono)
    also have "\<dots> \<le> d" using d(1) assms(3) by (simp add: minus_mod_eq_div_mult [symmetric])
    finally show ?thesis .
  qed
  then show "int (grp_size q n a) * n \<le> q" using d(2) z(1) by (simp add: e)
  show "0 < q" if "0 < grp_size q n a"
  proof -
    have "0 < z * n" using that assms(3) by (simp add: e)
    then show ?thesis using zn d(2) by linarith
  qed
qed

text \<open>Segments are a power of two long; the size is then the largest that fits.\<close>

lemma grp_size_pow2:
  assumes "0 \<le> q" "q < int size_t_max1" "0 < n"
  shows "int (grp_size q n (2 ^ m)) = 2 ^ m * (q div (2 ^ m * n))"
proof -
  have d: "x - x mod 2 ^ m = 2 ^ m * (x div 2 ^ m)" for x :: int by (simp add: minus_mod_eq_mult_div)
  have "0 \<le> q mod 2 ^ m" by simp
  then have "2 ^ m * (q div 2 ^ m) < int size_t_max1" using assms(2) d[of q] by linarith
  moreover have "0 \<le> 2 ^ m * (q div 2 ^ m)" using assms(1) by (simp add: pos_imp_zdiv_nonneg_iff)
  ultimately have q: "0 \<le> 2 ^ m * (q div 2 ^ m)" "2 ^ m * (q div 2 ^ m) < int size_t_max1" by blast+
  have "2 ^ m * (q div 2 ^ m) div n div 2 ^ m = 2 ^ m * (q div 2 ^ m) div (2 ^ m * n)"
    using assms(3) by (simp add: zdiv_zmult2_eq mult.commute)
  also have "\<dots> = q div (2 ^ m * n)" using assms(3) by (simp add: zdiv_zmult2_eq)
  finally show ?thesis
    using q assms by (simp add: grp_size_def align_size_down_pow2 d pos_imp_zdiv_nonneg_iff)
qed

text \<open>The retry loop ends: its quotient falls until a group has no room or enough.\<close>

lemma shrink_region_sz_ends:
  assumes q: "\<And>k. int k \<le> Q \<Longrightarrow> quot k = Q - int k" and Q: "0 \<le> Q" "Q < int size_t_max1"
    and n: "0 < n" and a: "0 < a" "RegionSize dvd a"
  shows "k \<ge> 1 \<Longrightarrow> int (k - 1) \<le> Q \<Longrightarrow> \<exists>z. shrink_region_sz quot n a k (grp_size (Q - int (k - 1)) n a) = Some z \<and>
    RegionSize dvd z \<and> int z * n \<le> Q \<and> (z = 0 \<or> a \<le> z)"
proof (induction "nat (Q - int k + 1)" arbitrary: k rule: less_induct)
  case less
  let ?z = "grp_size (Q - int (k - 1)) n a"
  have "0 \<le> Q - int (k - 1)" "Q - int (k - 1) < int size_t_max1" using less.prems Q by simp_all
  note z = grp_size_ok[OF this n a]
  show ?case
  proof (cases "?z > 0 \<and> ?z < a")
    case True
    then have k: "int k \<le> Q" using z(3) less.prems(1) by (simp add: of_nat_diff)
    have "shrink_region_sz quot n a k ?z = shrink_region_sz quot n a (k + 1) (grp_size (Q - int k) n a)"
      using True q[OF k] by (subst shrink_region_sz.simps) (simp add: grp_size_def Let_def)
    moreover have "nat (Q - int (k + 1) + 1) < nat (Q - int k + 1)" using k by simp
    ultimately show ?thesis using less.hyps[of "k + 1"] k by simp
  next
    case False
    then have "shrink_region_sz quot n a k ?z = Some ?z" by (subst shrink_region_sz.simps) auto
    moreover have "int ?z * n \<le> Q" using z(2) by simp
    ultimately show ?thesis using z(1) False by auto
  qed
qed

lemma ratio_quotient_eq:
  assumes "1 \<le> r" "int k \<le> \<lfloor>rat_of_nat sz / r\<rfloor>"
  shows "ratio_quotient r sz k = \<lfloor>rat_of_nat sz / r\<rfloor> - int k"
proof -
  have "rat_of_nat k \<le> rat_of_nat sz / r" using assms(2) by (simp add: le_floor_iff)
  then show ?thesis by (simp add: ratio_quotient_def Let_def floor_diff_of_int[of _ "int k", simplified])
qed

lemma floor_ratio:
  assumes "1 \<le> r"
  shows "0 \<le> \<lfloor>rat_of_nat sz / r\<rfloor>" "\<lfloor>rat_of_nat sz / r\<rfloor> \<le> int sz"
proof -
  show "0 \<le> \<lfloor>rat_of_nat sz / r\<rfloor>" using assms by simp
  have "rat_of_nat sz / r \<le> rat_of_nat sz / 1" using assms by (intro divide_left_mono) simp_all
  then show "\<lfloor>rat_of_nat sz / r\<rfloor> \<le> int sz" by (simp add: floor_le_iff)
qed

lemma bda_region_size_ok:
  assumes r: "1 \<le> ratio" and sz: "sz < size_t_max1" and n: "0 \<le> n" and a: "0 < a" "RegionSize dvd a"
  shows "\<exists>z. bda_region_size ratio sz n a = Some z \<and> RegionSize dvd z \<and> (z = 0 \<or> a \<le> z) \<and>
    rat_of_nat z * of_int n * ratio \<le> rat_of_nat sz"
proof (cases "n = 0")
  case True
  have "shrink_region_sz q 0 a 1 0 = Some 0" for q by (subst shrink_region_sz.simps) simp
  then have "bda_region_size ratio sz n a = Some 0" by (simp add: bda_region_size_def True Let_def)
  then show ?thesis by simp
next
  case False
  define Q where "Q = \<lfloor>rat_of_nat sz / ratio\<rfloor>"
  have q: "ratio_quotient ratio sz k = Q - int k" if "int k \<le> Q" for k
    using ratio_quotient_eq[OF r] that by (simp add: Q_def)
  have Q: "0 \<le> Q" "Q < int size_t_max1" using floor_ratio[OF r, of sz] sz by (auto simp: Q_def)
  have n': "0 < n" using n False by simp
  have e: "bda_region_size ratio sz n a = shrink_region_sz (ratio_quotient ratio sz) n a 1 (grp_size (Q - int (1 - 1)) n a)"
    using n' q[of 0] Q(1) by (simp add: bda_region_size_def grp_size_def Let_def)
  obtain z where z: "bda_region_size ratio sz n a = Some z" "RegionSize dvd z" "int z * n \<le> Q" "z = 0 \<or> a \<le> z"
    using shrink_region_sz_ends[OF q Q n' a, of 1] Q(1) unfolding e by auto
  have "rat_of_int (int z * n) \<le> rat_of_nat sz / ratio"
    using z(3) by (simp only: Q_def le_floor_iff)
  then have "rat_of_nat z * of_int n * ratio \<le> rat_of_nat sz"
    using r by (simp add: pos_le_divide_eq)
  then show ?thesis using z by blast
qed

lemma bda_region_size_largest:
  assumes r: "1 \<le> ratio" and sz: "sz < size_t_max1" and n: "0 < n"
  shows "\<exists>z. bda_region_size ratio sz n (2 ^ m) = Some z \<and> 2 ^ m dvd z \<and>
    rat_of_nat sz < rat_of_nat (z + 2 ^ m) * of_int n * ratio"
proof -
  define Q where "Q = \<lfloor>rat_of_nat sz / ratio\<rfloor>"
  define z where "z = grp_size Q n (2 ^ m)"
  have Q: "0 \<le> Q" "Q < int size_t_max1" using floor_ratio[OF r, of sz] sz by (auto simp: Q_def)
  have z: "int z = 2 ^ m * (Q div (2 ^ m * n))" unfolding z_def by (rule grp_size_pow2[OF Q n])
  then have "2 ^ m dvd int z" by simp
  then have d: "2 ^ m dvd z" by (metis of_nat_dvd_iff of_nat_numeral of_nat_power)
  then have "shrink_region_sz quot n (2 ^ m) 1 z = Some z" for quot
    by (subst shrink_region_sz.simps) (auto dest: dvd_imp_le)
  then have "bda_region_size ratio sz n (2 ^ m) = Some z"
    using n ratio_quotient_eq[OF r, of 0 sz] Q(1) by (simp add: bda_region_size_def z_def grp_size_def Q_def Let_def)
  moreover have "Q < int (z + 2 ^ m) * n"
  proof -
    have "Q = 2 ^ m * n * (Q div (2 ^ m * n)) + Q mod (2 ^ m * n)" "Q mod (2 ^ m * n) < 2 ^ m * n" using n by simp_all
    then show ?thesis unfolding of_nat_add z by (simp add: algebra_simps)
  qed
  then have "rat_of_nat sz / ratio < of_int (int (z + 2 ^ m) * n)" unfolding Q_def by (simp only: floor_less_iff)
  then have "rat_of_nat sz < rat_of_nat (z + 2 ^ m) * of_int n * ratio" using r by (simp add: pos_divide_less_eq)
  ultimately show ?thesis using d by blast
qed

text \<open>
  C26: for every admissible ratio the size of the groups is found: the loop ends,
  and the groups get whole regions, no or at least a segment each, and together at
  most the share of the space that the ratio allows.  With segments of a power of two
  they get whole segments, and with one segment more each they would exceed that share.
\<close>

theorem bda_region_size_ends:
  assumes "1 \<le> ratio" "sz < size_t_max1" "0 \<le> n" "0 < a" "RegionSize dvd a"
  shows "\<exists>z. bda_region_size ratio sz n a = Some z \<and> RegionSize dvd z \<and> (z = 0 \<or> a \<le> z) \<and>
    rat_of_nat z * of_int n * ratio \<le> rat_of_nat sz \<and>
    (0 < n \<and> (\<exists>m. a = 2 ^ m) \<longrightarrow> a dvd z \<and> rat_of_nat sz < rat_of_nat (z + a) * of_int n * ratio)"
proof -
  obtain z where z: "bda_region_size ratio sz n a = Some z" "RegionSize dvd z" "z = 0 \<or> a \<le> z"
    "rat_of_nat z * of_int n * ratio \<le> rat_of_nat sz"
    using bda_region_size_ok[OF assms] by blast
  have "a dvd z \<and> rat_of_nat sz < rat_of_nat (z + a) * of_int n * ratio" if "0 < n" "a = 2 ^ m" for m
    using bda_region_size_largest[OF assms(1,2) that(1), of m] z(1) unfolding that(2) by (elim exE conjE) simp
  then show ?thesis using z by blast
qed

theorem bda_region_size_ends_witness:
  "\<exists>z. bda_region_size 5 (2 ^ 22) 2 (2 ^ 17) = Some z \<and> RegionSize dvd z \<and> (z = 0 \<or> 2 ^ 17 \<le> z) \<and>
    rat_of_nat z * of_int 2 * 5 \<le> rat_of_nat (2 ^ 22) \<and> rat_of_nat (2 ^ 22) < rat_of_nat (z + 2 ^ 17) * of_int 2 * 5"
proof -
  have "\<exists>m. (2 :: nat) ^ 17 = 2 ^ m" by blast
  moreover have "RegionSize dvd 2 ^ 17" "(2 :: nat) ^ 22 < size_t_max1"
    by (simp_all add: size_t_max1_def RegionSize_def Log2RegionSize_def)
  ultimately show ?thesis using bda_region_size_ends[of 5 "2 ^ 22" 2 "2 ^ 17"] by auto
qed

section \<open>Tiling the old generation\<close>

definition set_bounds :: "cgrp \<Rightarrow> addr \<Rightarrow> addr \<Rightarrow> cgrp" where
  "set_bounds g b e = g\<lparr>cs_space := (cs_space g)\<lparr>ms_bottom := b, ms_end := e, ms_top := b\<rparr>\<rparr>"

text \<open>
  Pages are set up lazily and are no larger than a region; the assertion of
  \<open>initialize_regions\<close> compares a size in words with the page size in bytes.
\<close>

definition page_ok :: "setup_flags \<Rightarrow> bda_space \<Rightarrow> bool" where
  "page_ok fl s \<longleftrightarrow>
     \<not> UseNUMA fl \<and> \<not> AlwaysPreTouch fl \<and> vm_page_size fl dvd RegionSizeBytes \<and> bs_page_size s dvd RegionSize"

lemma init_space_ok:
  assumes p: "page_ok fl s" and i: "i < length (bs_spaces s)"
    and b: "RegionSizeBytes dvd b" "RegionSize dvd w" "hw_add b w < size_t_max1"
  shows "init_space fl scale s (int i) (mem_region_of b (hw_add b w)) True =
    Inr (s\<lparr>bs_spaces := (bs_spaces s)[i := set_bounds (bs_spaces s ! i) b (hw_add b w)]\<rparr>)"
proof -
  have e: "mem_region_of b (hw_add b w) = \<lparr>mr_start = b, mr_word_size = w\<rparr>"
    using b(3) by (simp add: mem_region_of_def)
  have "RegionSizeBytes dvd w * HeapWordSize"
    using b(2) by (simp add: RegionSizeBytes_def LogHeapWordSize_def HeapWordSize_def)
  then have "vm_page_size fl dvd b" "vm_page_size fl dvd hw_add b w"
    using p b(1) by (auto simp: page_ok_def hw_add_def elim: dvd_trans)
  then have "ms_initialize fl scale ms \<lparr>mr_start = b, mr_word_size = w\<rparr> True True =
      Inr (ms\<lparr>ms_bottom := b, ms_end := hw_add b w, ms_top := b\<rparr>, [])" for ms
    using p by (simp add: ms_initialize_def page_ok_def mr_end_def ms_clear_def Let_def)
  then show ?thesis
    using i by (simp add: init_space_def e set_bounds_def cs_put_def)
qed

text \<open>The groups after the first \<open>m\<close> turns of the loop.\<close>

definition tiled :: "size_t \<Rightarrow> addr \<Rightarrow> nat \<Rightarrow> cgrp list \<Rightarrow> cgrp list" where
  "tiled z start m gs =
     map (\<lambda>i. if 1 \<le> i \<and> i < m then set_bounds (gs ! i) (hw_add start ((i - 1) * z)) (hw_add start (i * z)) else gs ! i)
       [0..<length gs]"

lemma length_tiled [simp]: "length (tiled z start m gs) = length gs"
  by (simp add: tiled_def)

lemma nth_tiled: "i < length gs \<Longrightarrow> tiled z start m gs ! i =
    (if 1 \<le> i \<and> i < m then set_bounds (gs ! i) (hw_add start ((i - 1) * z)) (hw_add start (i * z)) else gs ! i)"
  by (simp add: tiled_def)

lemma tiled_one: "tiled z start 1 gs = gs"
  by (rule nth_equalityI) (auto simp: nth_tiled)

lemma tiled_Suc:
  "1 \<le> m \<Longrightarrow> m < length gs \<Longrightarrow>
   (tiled z start m gs)[m := set_bounds (gs ! m) (hw_add start ((m - 1) * z)) (hw_add start (m * z))] =
   tiled z start (Suc m) gs"
  by (rule nth_equalityI) (auto simp: nth_tiled nth_list_update)

lemma init_regions_fold:
  assumes p: "page_ok fl s" and z: "RegionSize dvd z" and b: "RegionSizeBytes dvd start"
    and e: "hw_add start ((length (bs_spaces s) - 1) * z) < size_t_max1"
  shows "1 \<le> m \<Longrightarrow> m \<le> length (bs_spaces s) \<Longrightarrow>
    fold_result (init_bda_region fl scale z) [1..<m] (s, start) =
      Inr (s\<lparr>bs_spaces := tiled z start m (bs_spaces s)\<rparr>, hw_add start ((m - 1) * z))"
proof (induction m rule: nat_induct_at_least)
  case base
  then show ?case using tiled_one[of z start "bs_spaces s"] by simp
next
  case (Suc m)
  let ?s = "s\<lparr>bs_spaces := tiled z start m (bs_spaces s)\<rparr>" and ?b = "hw_add start ((m - 1) * z)"
  have "(m - 1) * z + z = m * z" using Suc.hyps by (cases m) simp_all
  then have step: "hw_add ?b z = hw_add start (m * z)" by (simp only: hw_add_hw_add)
  have m: "m < length (bs_spaces s)" using Suc.prems by simp
  have "m * z \<le> (length (bs_spaces s) - 1) * z" using Suc.prems by (intro mult_right_mono) simp_all
  then have "hw_add start (m * z) \<le> hw_add start ((length (bs_spaces s) - 1) * z)" by simp
  then have lim: "hw_add ?b z < size_t_max1" unfolding step using e by linarith
  have "RegionSizeBytes dvd ((m - 1) * z) * HeapWordSize"
    using z by (simp add: RegionSizeBytes_def LogHeapWordSize_def HeapWordSize_def)
  then have al: "RegionSizeBytes dvd ?b" using b by (simp add: hw_add_def)
  have pg: "page_ok fl ?s" "bs_page_size s dvd z" using p z by (auto simp: page_ok_def elim: dvd_trans)
  have "init_space fl scale ?s (int m) (mem_region_of ?b (hw_add ?b z)) True =
      Inr (s\<lparr>bs_spaces := (tiled z start m (bs_spaces s))[m := set_bounds (bs_spaces s ! m) ?b (hw_add ?b z)]\<rparr>)"
    using init_space_ok[OF pg(1) _ al z lim, of m scale] m by (simp add: nth_tiled)
  then have i: "init_space fl scale ?s (int m) (mem_region_of ?b (hw_add ?b z)) True =
      Inr (s\<lparr>bs_spaces := tiled z start (Suc m) (bs_spaces s)\<rparr>)"
    unfolding step tiled_Suc[OF Suc.hyps m] .
  have "pointer_delta (hw_add ?b z) ?b mod bs_page_size ?s = 0"
    unfolding pointer_delta_hw_add[OF lim] using pg(2) by simp
  then have "init_bda_region fl scale z m (?s, ?b) =
      Inr (s\<lparr>bs_spaces := tiled z start (Suc m) (bs_spaces s)\<rparr>, hw_add start (m * z))"
    unfolding init_bda_region_def Let_def prod.case i by (simp only: step sum.case) simp
  then show ?case using Suc.IH m Suc.hyps by (simp add: fold_result_append)
qed

text \<open>The whole initialisation, in terms of the size of a group.\<close>

definition layout :: "size_t \<Rightarrow> mem_region \<Rightarrow> cgrp list \<Rightarrow> cgrp list" where
  "layout z mr gs =
     (tiled z (mr_start mr) (length gs) gs)[0 :=
        set_bounds (gs ! 0) (hw_add (mr_start mr) ((length gs - 1) * z)) (mr_end mr)]"

lemma length_layout [simp]: "length (layout z mr gs) = length gs"
  by (simp add: layout_def)

lemma nth_layout: "i < length gs \<Longrightarrow> layout z mr gs ! i =
    (if i = 0 then set_bounds (gs ! 0) (hw_add (mr_start mr) ((length gs - 1) * z)) (mr_end mr)
     else set_bounds (gs ! i) (hw_add (mr_start mr) ((i - 1) * z)) (hw_add (mr_start mr) (i * z)))"
  by (cases "gs = []") (auto simp: layout_def nth_tiled nth_list_update)

lemma clear_layout: "map (\<lambda>g. g\<lparr>cs_space := ms_clear (cs_space g)\<rparr>) (layout z mr gs) = layout z mr gs"
  by (rule nth_equalityI) (auto simp: nth_layout set_bounds_def ms_clear_def)

lemma bs_initialize_ok:
  assumes p: "page_ok fl s" and r: "1 \<le> ratio" and gs: "bs_spaces s \<noteq> []"
    and seg: "0 < bs_segment_sz s" "RegionSize dvd bs_segment_sz s"
    and mr: "RegionSizeBytes dvd mr_start mr" "RegionSize dvd mr_word_size mr" "mr_end mr < size_t_max1"
  shows "\<exists>z. bs_initialize fl scale ratio s mr True =
      Some (Inr (s\<lparr>bs_spaces := layout z mr (bs_spaces s),
        bs_self := (bs_self s)\<lparr>ms_bottom := mr_start mr, ms_end := mr_end mr, ms_top := mr_start mr\<rparr>\<rparr>)) \<and>
    RegionSize dvd z \<and> (z = 0 \<or> bs_segment_sz s \<le> z) \<and> (length (bs_spaces s) - 1) * z \<le> mr_word_size mr"
proof -
  let ?w = "mr_word_size mr" and ?n = "length (bs_spaces s)" and ?b = "mr_start mr"
  define s1 where "s1 = set_limits s ?b (mr_end mr)"
  have n: "0 < ?n" using gs by simp
  have w: "pointer_delta (mr_end mr) ?b = ?w" using mr(3) by (simp add: mr_end_def)
  have "?w \<le> mr_end mr" by (simp add: mr_end_def hw_add_def HeapWordSize_def)
  then have wlt: "?w < size_t_max1" using mr(3) by linarith
  obtain z where z: "bda_region_size ratio ?w (int ?n - 1) (bs_segment_sz s) = Some z" "RegionSize dvd z"
    "z = 0 \<or> bs_segment_sz s \<le> z" "rat_of_nat z * of_int (int ?n - 1) * ratio \<le> rat_of_nat ?w"
    using bda_region_size_ok[OF r wlt _ seg, of "int ?n - 1"] n by auto
  have "rat_of_nat ((?n - 1) * z) * 1 \<le> rat_of_nat ((?n - 1) * z) * ratio" using r by (intro mult_left_mono) simp_all
  also have "\<dots> \<le> rat_of_nat ?w"
  proof -
    have "rat_of_int (int ?n - 1) = rat_of_nat (?n - 1)" using gs by (cases "bs_spaces s") simp_all
    then have "rat_of_nat ((?n - 1) * z) = rat_of_nat z * rat_of_int (int ?n - 1)"
      by (simp only: of_nat_mult mult.commute[of "rat_of_nat (?n - 1)"])
    then show ?thesis using z(4) by (simp only:)
  qed
  finally have fit: "(?n - 1) * z \<le> ?w" by (simp only: mult_1_right of_nat_le_iff)
  have end_: "mr_end mr = hw_add (hw_add ?b ((?n - 1) * z)) (?w - (?n - 1) * z)" using fit by (simp add: mr_end_def)
  have "hw_add ?b ((?n - 1) * z) \<le> mr_end mr" using fit by (simp add: mr_end_def)
  then have lim: "hw_add ?b ((?n - 1) * z) < size_t_max1" using mr(3) by linarith
  have p1: "page_ok fl s1" using p by (simp add: page_ok_def s1_def set_limits_def)
  have s1: "bs_spaces s1 = bs_spaces s" "bs_segment_sz s1 = bs_segment_sz s" by (simp_all add: s1_def set_limits_def)
  have f: "fold_result (init_bda_region fl scale z) [1..<?n] (s1, ?b) =
      Inr (s1\<lparr>bs_spaces := tiled z ?b ?n (bs_spaces s)\<rparr>, hw_add ?b ((?n - 1) * z))"
    using init_regions_fold[OF p1 z(2) mr(1), of ?n scale] lim n by (simp add: s1)
  have "RegionSizeBytes dvd ((?n - 1) * z) * HeapWordSize"
    using z(2) by (simp add: RegionSizeBytes_def LogHeapWordSize_def HeapWordSize_def)
  then have al: "RegionSizeBytes dvd hw_add ?b ((?n - 1) * z)" using mr(1) by (simp add: hw_add_def)
  have dv: "RegionSize dvd ?w - (?n - 1) * z" using mr(2) z(2) by (simp add: dvd_diff_nat)
  let ?s2 = "s1\<lparr>bs_spaces := tiled z ?b ?n (bs_spaces s)\<rparr>"
  have i0: "init_space fl scale ?s2 0 (mem_region_of (hw_add ?b ((?n - 1) * z)) (mr_end mr)) True =
      Inr (s1\<lparr>bs_spaces := layout z mr (bs_spaces s)\<rparr>)"
    using init_space_ok[of fl ?s2 0, OF _ _ al dv] p1 n mr(3) end_
    by (simp add: page_ok_def layout_def nth_tiled)
  have "initialize_regions fl scale ratio s1 ?w ?b (mr_end mr) = Some (Inr (s1\<lparr>bs_spaces := layout z mr (bs_spaces s)\<rparr>))"
    using r z(1) mr(2) f i0
    by (simp add: initialize_regions_def s1 MinRegionSize_def Log2MinRegionSize_def RegionSize_def
        Log2RegionSize_def mod_eq_0_iff_dvd)
  then have "bs_initialize fl scale ratio s mr True = Some (Inr (bs_clear (s1\<lparr>bs_spaces := layout z mr (bs_spaces s)\<rparr>)))"
    by (simp add: bs_initialize_def w s1_def[symmetric] Let_def)
  moreover have "bs_clear (s1\<lparr>bs_spaces := layout z mr (bs_spaces s)\<rparr>) = s\<lparr>bs_spaces := layout z mr (bs_spaces s),
        bs_self := (bs_self s)\<lparr>ms_bottom := ?b, ms_end := mr_end mr, ms_top := ?b\<rparr>\<rparr>"
    by (simp add: bs_clear_def clear_layout s1_def set_limits_def) (simp add: ms_clear_def)
  ultimately show ?thesis using z(2,3) fit by auto
qed

text \<open>
  C16: initialising the space lays the groups out without gaps or overlaps: those
  of the classes of interest side by side from the bottom, equally large and in
  whole regions, and the group of other objects on the rest up to the end; all are
  empty.
\<close>

theorem groups_tile_space:
  assumes "page_ok fl s" "1 \<le> ratio" "bs_spaces s \<noteq> []" "0 < bs_segment_sz s" "RegionSize dvd bs_segment_sz s"
    "RegionSizeBytes dvd mr_start mr" "RegionSize dvd mr_word_size mr" "mr_end mr < size_t_max1"
  shows "\<exists>s' z. bs_initialize fl scale ratio s mr True = Some (Inr s') \<and> RegionSize dvd z \<and>
    (z = 0 \<or> bs_segment_sz s \<le> z) \<and> num_bda_regions s' * int z \<le> int (mr_word_size mr) \<and>
    (\<forall>i < length (bs_spaces s).
       ms_bottom (grp_space s' i) = hw_add (mr_start mr) ((if i = 0 then length (bs_spaces s) - 1 else i - 1) * z) \<and>
       ms_end (grp_space s' i) = (if i = 0 then mr_end mr else hw_add (mr_start mr) (i * z)) \<and>
       ms_top (grp_space s' i) = ms_bottom (grp_space s' i))"
proof -
  obtain z where z: "bs_initialize fl scale ratio s mr True =
      Some (Inr (s\<lparr>bs_spaces := layout z mr (bs_spaces s),
        bs_self := (bs_self s)\<lparr>ms_bottom := mr_start mr, ms_end := mr_end mr, ms_top := mr_start mr\<rparr>\<rparr>))"
    "RegionSize dvd z" "z = 0 \<or> bs_segment_sz s \<le> z" "(length (bs_spaces s) - 1) * z \<le> mr_word_size mr"
    using bs_initialize_ok[OF assms] by blast
  have "(int (length (bs_spaces s)) - 1) * int z = int ((length (bs_spaces s) - 1) * z)"
    using assms(3) by (cases "bs_spaces s") simp_all
  also have "\<dots> \<le> int (mr_word_size mr)" using z(4) by (simp only: of_nat_le_iff)
  finally show ?thesis
    using z(2,3) by (intro exI[of _ "s\<lparr>bs_spaces := layout z mr (bs_spaces s),
        bs_self := (bs_self s)\<lparr>ms_bottom := mr_start mr, ms_end := mr_end mr, ms_top := mr_start mr\<rparr>\<rparr>"] exI[of _ z])
      (simp add: z(1) num_bda_regions_def nth_layout set_bounds_def)
qed

section \<open>A fresh space\<close>

definition new_grp :: "size_t \<Rightarrow> region_table \<Rightarrow> nat \<Rightarrow> cgrp" where
  "new_grp alignment rt i =
     \<lparr>cs_space = \<lparr>ms_bottom = NULL, ms_end = NULL, ms_top = NULL, ms_alignment = alignment, ms_last_setup = mr_empty\<rparr>,
      cs_type = region_ptr rt (if i = 0 then 1 else 2 * i), cs_containers = gq_create, cs_pool = gq_create,
      cs_large_pool = gq_create, cs_last_segment = None, cs_segments_since_last_gc = 0\<rparr>"

lemma new_groups_ok:
  assumes "alignment mod page_sz = 0"
  shows "new_groups page_sz alignment rt m = Inr (map (new_grp alignment rt) [0..<m])"
  unfolding new_groups_def
proof (induction m)
  case (Suc m)
  have "new_cgrp page_sz alignment (region_ptr rt (if m = 0 then 1 else 2 * m)) = Inr (new_grp alignment rt m)"
    using assms by (simp add: new_cgrp_def new_mspace_def new_grp_def)
  then show ?case using Suc by (simp add: fold_result_append)
qed simp

lemma value_at_krm_for:
  assumes "k < 2 * length nms + 2"
  shows "value_at (krm_table (krm_for nms base)) (region_ptr (krm_table (krm_for nms base)) k) = Inr (region_layout k)"
  using assms by (auto simp: krm_for_def value_at_def region_ptr_def region_index_def bdaregion_size_def simp del: upt_Suc)

text \<open>The identifier of a group's cells is its index.\<close>

lemma new_grp_value:
  assumes "length nms \<le> 31" "i \<le> length nms" "bs_regions s = krm_table (krm_for nms base)"
    "cs_type g = cs_type (new_grp alignment (bs_regions s) i)"
  shows "grp_value s g (int i)" "is_other_grp s g \<longleftrightarrow> i = 0"
proof -
  have "value_at (bs_regions s) (cs_type g) = Inr (2 ^ i)"
    using value_at_krm_for[of 1 nms base] value_at_krm_for[of "2 * i" nms base] assms(2,4)
    by (cases "i = 0") (simp_all add: assms(3) new_grp_def region_start_def)
  moreover have "unat (2 ^ i :: bdareg_t) = 2 ^ i" using assms(1,2) by (intro unat_pow2) simp
  moreover have "exact_log2 (2 ^ i) = int i" using assms(1,2) log2_intptr_pow2[of i] by (simp add: exact_log2_def)
  ultimately show "grp_value s g (int i)" by (simp add: grp_value_def)
  show "is_other_grp s g \<longleftrightarrow> i = 0"
    unfolding is_other_grp_def assms(4) new_grp_def region_start_ptr_def region_ptr_def bdaregion_size_def by simp
qed

lemma layout_space:
  assumes "i < length gs"
  shows "ms_bottom (cs_space (layout z mr gs ! i)) = hw_add (mr_start mr) ((if i = 0 then length gs - 1 else i - 1) * z)"
    "ms_end (cs_space (layout z mr gs ! i)) = (if i = 0 then mr_end mr else hw_add (mr_start mr) (i * z))"
    "ms_top (cs_space (layout z mr gs ! i)) = ms_bottom (cs_space (layout z mr gs ! i))"
    "cs_type (layout z mr gs ! i) = cs_type (gs ! i)" "cs_pool (layout z mr gs ! i) = cs_pool (gs ! i)"
  using assms by (simp_all add: nth_layout set_bounds_def)

lemma layout_on_region:
  assumes "RegionSizeBytes dvd mr_start mr" "RegionSize dvd mr_word_size mr" "RegionSize dvd z" "i < length gs"
  shows "RegionSizeBytes dvd ms_bottom (cs_space (layout z mr gs ! i))" "RegionSizeBytes dvd ms_end (cs_space (layout z mr gs ! i))"
proof -
  have "RegionSizeBytes dvd hw_add (mr_start mr) w" if "RegionSize dvd w" for w
    using assms(1) that by (simp add: hw_add_def RegionSizeBytes_def LogHeapWordSize_def HeapWordSize_def)
  then show "RegionSizeBytes dvd ms_bottom (cs_space (layout z mr gs ! i))" "RegionSizeBytes dvd ms_end (cs_space (layout z mr gs ! i))"
    using assms by (simp_all add: layout_space mr_end_def)
qed

lemma layout_bounds:
  assumes "(length gs - 1) * z \<le> mr_word_size mr" "i < length gs"
  shows "mr_start mr \<le> ms_bottom (cs_space (layout z mr gs ! i))"
    "ms_bottom (cs_space (layout z mr gs ! i)) \<le> ms_end (cs_space (layout z mr gs ! i))"
    "ms_end (cs_space (layout z mr gs ! i)) \<le> mr_end mr"
    "j < length gs \<Longrightarrow> i \<noteq> j \<Longrightarrow> i < j \<Longrightarrow> ms_end (cs_space (layout z mr gs ! i)) \<le> ms_bottom (cs_space (layout z mr gs ! j)) \<or>
       ms_end (cs_space (layout z mr gs ! j)) \<le> ms_bottom (cs_space (layout z mr gs ! i))"
proof -
  have "i * z \<le> (length gs - 1) * z" using assms(2) by (auto intro: mult_right_mono)
  then have m: "i * z \<le> mr_word_size mr" using assms(1) by linarith
  show "mr_start mr \<le> ms_bottom (cs_space (layout z mr gs ! i))"
    "ms_bottom (cs_space (layout z mr gs ! i)) \<le> ms_end (cs_space (layout z mr gs ! i))"
    "ms_end (cs_space (layout z mr gs ! i)) \<le> mr_end mr"
    using assms m by (simp_all add: layout_space mr_end_def del: mult_le_cancel2)
  assume j: "j < length gs" "i \<noteq> j" "i < j"
  have "i * z \<le> (j - 1) * z" "j * z \<le> (length gs - 1) * z" using j by (auto intro: mult_right_mono)
  then show "ms_end (cs_space (layout z mr gs ! i)) \<le> ms_bottom (cs_space (layout z mr gs ! j)) \<or>
      ms_end (cs_space (layout z mr gs ! j)) \<le> ms_bottom (cs_space (layout z mr gs ! i))"
    using assms j by (simp add: layout_space del: mult_le_cancel2)
qed

text \<open>A summary in which no region has a container yet.\<close>

definition no_containers :: "pcdata \<Rightarrow> bool" where
  "no_containers pd \<longleftrightarrow> list_all (\<lambda>r. rd_container r = None) (pd_regions pd)"

lemma no_containers_at: "no_containers pd \<Longrightarrow> get_container_at_addr pd p = Inr c \<Longrightarrow> c = None"
  by (auto simp: no_containers_def get_container_at_addr_def rd_get_def list_all_length elim!: bind_resultE split: if_splits)

lemma layout_seg_inv:
  assumes gs: "bs_spaces s = layout z mr (map (new_grp alignment (bs_regions s)) [0..<length nms + 1])"
    and rt: "bs_regions s = krm_table (krm_for nms base)" "length nms \<le> 31"
    and z: "RegionSize dvd z" "length nms * z \<le> mr_word_size mr"
    and mr: "RegionSizeBytes dvd mr_start mr" "RegionSize dvd mr_word_size mr" "mr_end mr < size_t_max1"
    and seg: "RegionSize dvd bs_segment_sz s" "0 < bs_filler_header_size s" "bs_filler_header_size s \<le> bs_segment_sz s"
    and pd: "no_containers (bs_summary s)" "RegionSizeBytes dvd pd_region_start (bs_summary s)"
      "pd_region_start (bs_summary s) \<le> mr_start mr"
    and cells: "bs_cells s = (\<lambda>_. None)"
  shows "seg_inv s"
proof -
  let ?gs = "map (new_grp alignment (bs_regions s)) [0..<length nms + 1]"
  have l: "length ?gs = length nms + 1" "(length ?gs - 1) * z \<le> mr_word_size mr" using z(2) by simp_all
  have bounds: "mr_start mr \<le> ms_bottom (grp_space s i)" "ms_bottom (grp_space s i) \<le> ms_end (grp_space s i)"
    "ms_top (grp_space s i) = ms_bottom (grp_space s i)" "ms_end (grp_space s i) < size_t_max1"
    "RegionSizeBytes dvd ms_bottom (grp_space s i)" "RegionSizeBytes dvd ms_end (grp_space s i)"
    if "i < length nms + 1" for i
    using layout_bounds(1-3)[OF l(2), of i] layout_space(3)[of i ?gs z mr] layout_on_region[OF mr(1,2) z(1), of i ?gs] that mr(3)
    unfolding gs by auto
  have "grp_ok s i" if i: "i < length nms + 1" for i
  proof -
    have "cs_type (bs_spaces s ! i) = cs_type (new_grp alignment (bs_regions s) i)"
      "cs_pool (bs_spaces s ! i) = gq_create"
      using i layout_space(4,5)[of i ?gs z mr] unfolding gs by (auto simp: new_grp_def simp del: upt_Suc)
    moreover have "8 dvd RegionSizeBytes" "512 dvd RegionSizeBytes"
      by (simp_all add: RegionSizeBytes_def RegionSize_def Log2RegionSize_def LogHeapWordSize_def)
    then have "8 dvd ms_bottom (grp_space s i)" "512 dvd ms_end (grp_space s i)" using bounds(5,6)[OF i] dvd_trans by blast+
    ultimately show ?thesis
      using bounds[OF i] new_grp_value[OF rt(2) _ rt(1), of i "bs_spaces s ! i" alignment] i
      by (auto simp: grp_ok_def ms_card_inv_def ms_inv_def word_aligned_def HeapWordSize_def card_alignment_def
          gq_create_def mod_eq_0_iff_dvd)
  qed
  moreover have "ms_end (grp_space s i) \<le> ms_bottom (grp_space s j) \<or> ms_end (grp_space s j) \<le> ms_bottom (grp_space s i)"
    if "i < length nms + 1" "j < length nms + 1" "i \<noteq> j" for i j
    using layout_bounds(4)[OF l(2), of i j] layout_bounds(4)[OF l(2), of j i] that unfolding gs l(1)
    by (metis linorder_neqE_nat)
  moreover have len: "length (bs_spaces s) = length nms + 1" by (simp add: gs)
  ultimately have "grps_ok s" using seg by (auto simp: grps_ok_def)
  moreover have "segs_ok s" by (simp add: segs_ok_def cells)
  moreover have "pd_region_start (bs_summary s) \<le> ms_bottom (grp_space s i)" "pd_region_start (bs_summary s) \<le> ms_end (grp_space s i)"
    if "i < length nms + 1" for i
    using bounds(1,2)[OF that] pd(3) by linarith+
  then have "regions_ok s"
    unfolding regions_ok_def len on_region_def region_container_def
    using bounds pd(2) no_containers_at[OF pd(1)] by (auto intro: dvd_diff_nat)
  ultimately show ?thesis by (simp add: seg_inv_def)
qed

lemma calculate_reserved_sz_region: "RegionSize dvd calculate_reserved_sz fr s"
proof -
  define b where "b = nat \<lfloor>of_int (((8 + 16) + bs_node_fields s * ((8 + 16) + bs_dnf s * 8 +
      bs_dnf s * bs_delegation_level s * (8 + 16))) * bs_default_collection_size s mod int size_t_max1) * fr\<rfloor> div 2 ^ LogHeapWordSize"
  have "calculate_reserved_sz fr s = nat (align_size_up (int b) (2 ^ Log2RegionSize))"
    by (simp add: calculate_reserved_sz_def b_def Let_def MinRegionSize_def Log2MinRegionSize_def Log2RegionSize_def)
  moreover have "0 \<le> align_size_up (int b) (2 ^ Log2RegionSize)"
    using align_size_up_ge[of "int b" Log2RegionSize] by linarith
  ultimately show ?thesis
    using align_size_up_dvd[of Log2RegionSize "int b"] by (simp add: RegionSize_def flip: dvd_int_pow2)
qed

text \<open>
  C8: constructing the space for the classes the virtual machine was started with, initialising it on
  the old generation and finishing it once the heap is reserved gives a space that
  satisfies the allocator's invariant, and whose groups have the index of their
  class as identifier.
\<close>

theorem fresh_space_ready:
  assumes "list_all wf_name nms" "length nms \<le> 31" "new_krm (join_names nms) base garbage = Inr m"
    and "alignment mod page_sz = 0" "page_sz dvd RegionSize" "\<not> UseNUMA sfl" "\<not> AlwaysPreTouch sfl"
      "vm_page_size sfl dvd RegionSizeBytes" "1 \<le> BDARatio fl"
    and "new_bda_space fl page_sz alignment osa (krm_table m) pd (number_bdaregions m) min_fill uninit = Inr s0"
    and "0 < header_sz" "header_sz \<le> bs_segment_sz s0"
    and "RegionSizeBytes dvd mr_start mr" "RegionSize dvd mr_word_size mr" "mr_end mr < size_t_max1"
    and "no_containers pd" "RegionSizeBytes dvd pd_region_start pd" "pd_region_start pd \<le> mr_start mr"
    and "pm_initialize vm new_pm reserved = Inr (pm, True)"
  shows "\<exists>s1 s2. bs_initialize sfl scale (BDARatio fl) s0 mr True = Some (Inr s1) \<and>
    post_initialize vm header_sz reserved s1 = Inr s2 \<and> seg_inv s2"
proof -
  have m: "m = krm_for nms base" using new_krm_ok[OF assms(1,2), of base garbage] assms(3) by simp
  have n: "number_bdaregions m = length nms" by (simp add: m number_bdaregions_def krm_for_def)
  have s0: "bs_spaces s0 = map (new_grp alignment (krm_table m)) [0..<length nms + 1]" "bs_regions s0 = krm_table m"
    "bs_page_size s0 = page_sz" "bs_summary s0 = pd" "bs_cells s0 = (\<lambda>_. None)" "bs_segment_bitmap s0 = new_pm"
    "\<exists>s. bs_segment_sz s0 = calculate_reserved_sz (BDAContainerFraction fl) s"
    using assms(10) assms(4) new_groups_ok[OF assms(4), of "krm_table m"]
    by (auto simp: new_bda_space_def new_mspace_def n Let_def simp del: upt_Suc)
  have seg: "RegionSize dvd bs_segment_sz s0" "0 < bs_segment_sz s0"
    using s0(7) calculate_reserved_sz_region assms(11,12) by auto
  have pg: "page_ok sfl s0" using assms(5-8) by (simp add: page_ok_def s0)
  have ne: "bs_spaces s0 \<noteq> []" by (simp add: s0)
  obtain z where z: "bs_initialize sfl scale (BDARatio fl) s0 mr True =
      Some (Inr (s0\<lparr>bs_spaces := layout z mr (bs_spaces s0),
        bs_self := (bs_self s0)\<lparr>ms_bottom := mr_start mr, ms_end := mr_end mr, ms_top := mr_start mr\<rparr>\<rparr>))"
    "RegionSize dvd z" "(length (bs_spaces s0) - 1) * z \<le> mr_word_size mr"
    using bs_initialize_ok[OF pg assms(9) ne seg(2,1) assms(13-15)] by blast
  let ?s1 = "s0\<lparr>bs_spaces := layout z mr (bs_spaces s0),
        bs_self := (bs_self s0)\<lparr>ms_bottom := mr_start mr, ms_end := mr_end mr, ms_top := mr_start mr\<rparr>\<rparr>"
  let ?s2 = "?s1\<lparr>bs_segment_bitmap := pm, bs_filler_header_size := header_sz\<rparr>"
  have "post_initialize vm header_sz reserved ?s1 = Inr ?s2"
    using assms(19) by (simp add: post_initialize_def s0)
  moreover have "seg_inv ?s2"
    using z(2,3) assms(2,11-18) seg s0
    by (intro layout_seg_inv[where nms = nms and base = base and alignment = alignment and z = z and mr = mr])
       (simp_all add: m del: upt_Suc)
  ultimately show ?thesis using z(1) by blast
qed

end
