(* ===== verification/BdaQueues.thy ===== *)
theory BdaQueues
  imports BdaRuns
begin

text \<open>
  The queues of containers of the big-data space.  Every group has its queue, no
  container is in two of them, and allocation only ever adds containers at the end
  of a queue; what a scavenge reads of the containers it found stays as it was.
\<close>

section \<open>Queues of the groups\<close>

abbreviation grp_queue :: "bda_space \<Rightarrow> nat \<Rightarrow> genqueue" where
  "grp_queue s i \<equiv> cs_containers (bs_spaces s ! i)"

definition lists_apart :: "'a list list \<Rightarrow> bool" where
  "lists_apart xss \<longleftrightarrow>
     (\<forall>i < length xss. \<forall>j < length xss. i \<noteq> j \<longrightarrow> set (xss ! i) \<inter> set (xss ! j) = {})"

definition queues_ok :: "bda_space \<Rightarrow> cid list list \<Rightarrow> bool" where
  "queues_ok s xss \<longleftrightarrow>
     length xss = length (bs_spaces s) \<and> lists_apart xss \<and>
     (\<forall>i < length xss. gq_inv (bs_cells s) (grp_queue s i) (xss ! i))"

lemma lists_apart_Cons:
  "lists_apart (xs # xss) \<longleftrightarrow> lists_apart xss \<and> set xs \<inter> set (concat xss) = {}"
proof -
  have "set xs \<inter> set (concat xss) = {} \<longleftrightarrow> (\<forall>ys \<in> set xss. set xs \<inter> set ys = {})" by auto
  then have c: "set xs \<inter> set (concat xss) = {} \<longleftrightarrow> (\<forall>j < length xss. set xs \<inter> set (xss ! j) = {})"
    by (simp add: all_set_conv_all_nth)
  show ?thesis unfolding c lists_apart_def length_Cons All_less_Suc2 by (simp add: Int_commute cong: conj_cong) (rule conj_commute)
qed

lemma distinct_concat_apart:
  "lists_apart xss \<Longrightarrow> (\<And>i. i < length xss \<Longrightarrow> distinct (xss ! i)) \<Longrightarrow> distinct (concat xss)"
proof (induction xss)
  case (Cons xs xss)
  have "distinct (xss ! i)" if "i < length xss" for i using Cons.prems(2)[of "Suc i"] that by simp
  then show ?case using Cons.IH Cons.prems(1) Cons.prems(2)[of 0] by (auto simp: lists_apart_Cons)
qed simp

lemma lists_apart_snoc:
  assumes "lists_apart xss" "\<And>j. j < length xss \<Longrightarrow> a \<notin> set (xss ! j)"
  shows "lists_apart (xss[i := xss ! i @ [a]])"
  unfolding lists_apart_def
proof (intro allI impI)
  fix j k assume j: "j < length (xss[i := xss ! i @ [a]])" "k < length (xss[i := xss ! i @ [a]])" "j \<noteq> k"
  then have "set (xss ! j) \<inter> set (xss ! k) = {}" using assms(1) by (simp add: lists_apart_def)
  then show "set (xss[i := xss ! i @ [a]] ! j) \<inter> set (xss[i := xss ! i @ [a]] ! k) = {}"
    using j assms(2)[of j] assms(2)[of k] by (cases "i < length xss") (auto simp: nth_list_update)
qed

lemma queues_ok_distinct: "queues_ok s xss \<Longrightarrow> distinct (concat xss)"
  by (rule distinct_concat_apart) (auto simp: queues_ok_def gq_inv_def gq_list_def)

lemma queues_ok_mapped:
  assumes "queues_ok s xss" "i < length xss" "a \<in> set (xss ! i)"
  shows "\<exists>k. bs_cells s a = Some k"
  using assms dseg_mapped unfolding queues_ok_def gq_inv_def gq_list_def by blast

section \<open>What allocation keeps\<close>

text \<open>Every container is still there, changed as \<open>R\<close> allows.\<close>

definition cells_kept :: "(container \<Rightarrow> container \<Rightarrow> bool) \<Rightarrow> cheap \<Rightarrow> cheap \<Rightarrow> bool" where
  "cells_kept R h h' \<longleftrightarrow> (\<forall>a k. h a = Some k \<longrightarrow> (\<exists>k'. h' a = Some k' \<and> R k k'))"

lemma cells_keptE:
  assumes "cells_kept R h h'" "h a = Some k"
  obtains k' where "h' a = Some k'" "R k k'"
  using assms unfolding cells_kept_def by blast

lemma cells_kept_refl: "(\<And>k. R k k) \<Longrightarrow> cells_kept R h h"
  by (simp add: cells_kept_def)

lemma cells_kept_mono: "cells_kept R h h' \<Longrightarrow> (\<And>k k'. R k k' \<Longrightarrow> S k k') \<Longrightarrow> cells_kept S h h'"
  unfolding cells_kept_def by blast

lemma cells_kept_trans:
  assumes "cells_kept R h1 h2" "cells_kept R h2 h3" "\<And>k l m. R k l \<Longrightarrow> R l m \<Longrightarrow> R k m"
  shows "cells_kept R h1 h3"
  using assms unfolding cells_kept_def by meson

lemma cells_kept_upd:
  "h a = Some k \<Longrightarrow> R k k' \<Longrightarrow> (\<And>k. R k k) \<Longrightarrow> cells_kept R h (h(a \<mapsto> k'))"
  by (simp add: cells_kept_def)

text \<open>The fields a scavenge reads of the containers there are; a top only goes up.\<close>

definition scan_cell :: "container \<Rightarrow> container \<Rightarrow> bool" where
  "scan_cell k k' \<longleftrightarrow>
     c_start k' = c_start k \<and> c_saved_top k' = c_saved_top k \<and> c_previous k' = c_previous k \<and> c_top k \<le> c_top k'"

definition same_scan_cell :: "container \<Rightarrow> container \<Rightarrow> bool" where
  "same_scan_cell k k' \<longleftrightarrow> scan_cell k k' \<and> c_scanned_flag k' = c_scanned_flag k"

definition same_links_cell :: "container \<Rightarrow> container \<Rightarrow> bool" where
  "same_links_cell k k' \<longleftrightarrow> same_scan_cell k k' \<and> c_next k' = c_next k"

lemmas kept_cell_defs = scan_cell_def same_scan_cell_def same_links_cell_def

lemma same_scan_cell_refl [simp]: "scan_cell k k" "same_scan_cell k k" "same_links_cell k k"
  by (simp_all add: kept_cell_defs)

lemma scan_cell_trans: "scan_cell k l \<Longrightarrow> scan_cell l m \<Longrightarrow> scan_cell k m"
  by (simp add: kept_cell_defs)

lemma same_scan_cell_trans: "same_scan_cell k l \<Longrightarrow> same_scan_cell l m \<Longrightarrow> same_scan_cell k m"
  by (simp add: kept_cell_defs)

lemma same_links_cell_trans: "same_links_cell k l \<Longrightarrow> same_links_cell l m \<Longrightarrow> same_links_cell k m"
  by (simp add: kept_cell_defs)

definition same_scan :: "bda_space \<Rightarrow> bda_space \<Rightarrow> bool" where
  "same_scan s s' \<longleftrightarrow>
     length (bs_spaces s') = length (bs_spaces s) \<and>
     (\<forall>i < length (bs_spaces s). cs_last_segment (bs_spaces s' ! i) = cs_last_segment (bs_spaces s ! i) \<and>
        ms_bottom (grp_space s' i) = ms_bottom (grp_space s i) \<and> ms_end (grp_space s' i) = ms_end (grp_space s i)) \<and>
     cells_kept same_scan_cell (bs_cells s) (bs_cells s')"

definition queues_in :: "cid list list \<Rightarrow> cid list list \<Rightarrow> bool" where
  "queues_in xss yss \<longleftrightarrow> (\<forall>i < length xss. i < length yss \<and> set (xss ! i) \<subseteq> set (yss ! i))"

lemma queues_in_refl [simp]: "queues_in xss xss"
  by (simp add: queues_in_def)

lemma queues_in_trans: "queues_in xss yss \<Longrightarrow> queues_in yss zss \<Longrightarrow> queues_in xss zss"
  unfolding queues_in_def by (meson order_trans)

definition grows :: "bda_space \<Rightarrow> bda_space \<Rightarrow> bool" where
  "grows s s' \<longleftrightarrow> same_scan s s' \<and>
     (\<forall>xss. queues_ok s xss \<longrightarrow> (\<exists>yss. queues_ok s' yss \<and> queues_in xss yss))"

lemma grows_refl [simp]: "grows s s"
  by (auto simp: grows_def same_scan_def intro: cells_kept_refl)

lemma same_scan_trans: "same_scan s t \<Longrightarrow> same_scan t u \<Longrightarrow> same_scan s u"
  using cells_kept_trans[of same_scan_cell "bs_cells s" "bs_cells t" "bs_cells u", OF _ _ same_scan_cell_trans]
  by (simp add: same_scan_def)

lemma grows_trans: "grows s t \<Longrightarrow> grows t u \<Longrightarrow> grows s u"
  unfolding grows_def using same_scan_trans queues_in_trans by meson

text \<open>Steps that touch no queue.\<close>

definition same_queues :: "bda_space \<Rightarrow> bda_space \<Rightarrow> bool" where
  "same_queues s s' \<longleftrightarrow>
     length (bs_spaces s') = length (bs_spaces s) \<and>
     (\<forall>i < length (bs_spaces s). cs_last_segment (bs_spaces s' ! i) = cs_last_segment (bs_spaces s ! i) \<and>
        grp_queue s' i = grp_queue s i \<and> ms_bottom (grp_space s' i) = ms_bottom (grp_space s i) \<and>
        ms_end (grp_space s' i) = ms_end (grp_space s i)) \<and>
     cells_kept same_links_cell (bs_cells s) (bs_cells s')"

lemma gq_inv_frame:
  assumes "gq_inv h q xs"
    "\<And>x c. x \<in> set xs \<Longrightarrow> h x = Some c \<Longrightarrow> \<exists>c'. h' x = Some c' \<and> c_next c' = c_next c \<and> c_previous c' = c_previous c"
  shows "gq_inv h' q xs"
proof -
  have "dseg c_next c_previous h' None (remove_end q) xs None"
    by (rule dseg_frame[of _ _ h]) (use assms in \<open>simp_all add: gq_inv_def gq_list_def\<close>)
  then show ?thesis using assms(1) by (simp add: gq_inv_def gq_list_def)
qed

lemma gq_inv_kept:
  assumes "gq_inv h q xs" "cells_kept same_links_cell h h'"
  shows "gq_inv h' q xs"
proof (rule gq_inv_frame[OF assms(1)])
  fix x c assume "h x = Some c"
  with assms(2) obtain c' where "h' x = Some c'" "same_links_cell c c'" by (rule cells_keptE)
  then show "\<exists>c'. h' x = Some c' \<and> c_next c' = c_next c \<and> c_previous c' = c_previous c"
    by (simp add: kept_cell_defs)
qed

lemma same_queues_grows:
  assumes "same_queues s s'"
  shows "grows s s'"
proof -
  have k: "cells_kept same_links_cell (bs_cells s) (bs_cells s')" using assms by (simp add: same_queues_def)
  have "cells_kept same_scan_cell (bs_cells s) (bs_cells s')"
    using k by (rule cells_kept_mono) (simp add: same_links_cell_def)
  then have "same_scan s s'" using assms by (simp add: same_queues_def same_scan_def)
  moreover have "queues_ok s' xss" if "queues_ok s xss" for xss
    using that assms gq_inv_kept[OF _ k] by (simp add: queues_ok_def same_queues_def)
  ultimately show ?thesis using queues_in_refl unfolding grows_def by blast
qed

lemma same_queues_cells:
  assumes "bs_cells s b = Some k" "same_links_cell k k'"
  shows "same_queues s (s\<lparr>bs_cells := (bs_cells s)(b \<mapsto> k')\<rparr>)"
  using assms by (simp add: same_queues_def cells_kept_upd)

lemma same_queues_trans: "same_queues s t \<Longrightarrow> same_queues t u \<Longrightarrow> same_queues s u"
  using cells_kept_trans[of same_links_cell "bs_cells s" "bs_cells t" "bs_cells u", OF _ _ same_links_cell_trans]
  by (simp add: same_queues_def)

section \<open>Pushing a container\<close>

text \<open>Queueing a container changes the links of the old end, of itself, and of no other container.\<close>

lemma gq_enqueue_keeps:
  assumes "gq_enqueue h q (Some a) = Inr (h', q')" "b \<noteq> a" "h b = Some k"
  shows "\<exists>k'. h' b = Some k' \<and> same_scan_cell k k'"
proof -
  obtain c where c: "h a = Some c"
    using assms(1) by (cases "h a") (simp_all add: gq_enqueue_def Let_def)
  obtain h2 where h2: "link_next (h(a \<mapsto> c\<lparr>c_previous := insert_end q\<rparr>)) (insert_end q) (Some a) = Inr h2" "h' = h2"
    using assms(1) c by (auto simp: gq_enqueue_def Let_def split: sum.splits if_splits)
  show ?thesis
  proof (cases "insert_end q")
    case None
    then show ?thesis using h2 assms(2,3) by (auto simp: link_next_def)
  next
    case (Some y)
    then obtain d where "(h(a \<mapsto> c\<lparr>c_previous := insert_end q\<rparr>)) y = Some d"
      using h2(1) by (cases "(h(a \<mapsto> c\<lparr>c_previous := insert_end q\<rparr>)) y") (simp_all add: link_next_def)
    then have "h' = h(a \<mapsto> c\<lparr>c_previous := insert_end q\<rparr>, y \<mapsto> d\<lparr>c_next := Some a\<rparr>)"
      "b = y \<longrightarrow> d = k"
      using h2 Some assms(2,3) by (auto simp: link_next_def)
    then show ?thesis using assms(2,3) by (auto simp: kept_cell_defs)
  qed
qed

lemma pushed_same_scan:
  assumes "pushed s i sz ptr t s'" "bs_cells s (bs_next_cell s) = None"
  shows "same_scan s s'"
proof -
  obtain cq n where q: "gq_enqueue (pushed_cells s i sz ptr) (grp_queue s i) (Some (bs_next_cell s)) = Inr (bs_cells s', cq)"
    "bs_spaces s' = (bs_spaces s)[i := (bs_spaces s ! i)\<lparr>cs_space := (grp_space s i)\<lparr>ms_top := t\<rparr>,
        cs_containers := cq, cs_segments_since_last_gc := n\<rparr>]"
    using assms(1) unfolding pushed_def by blast
  have "cells_kept same_scan_cell (bs_cells s) (bs_cells s')"
    unfolding cells_kept_def
  proof (intro allI impI)
    fix b k assume k: "bs_cells s b = Some k"
    then have "b \<noteq> bs_next_cell s" using assms(2) by auto
    then show "\<exists>k'. bs_cells s' b = Some k' \<and> same_scan_cell k k'"
      using gq_enqueue_keeps[OF q(1), of b k] k by simp
  qed
  moreover have "cs_last_segment (bs_spaces s' ! j) = cs_last_segment (bs_spaces s ! j) \<and>
      ms_bottom (grp_space s' j) = ms_bottom (grp_space s j) \<and> ms_end (grp_space s' j) = ms_end (grp_space s j)"
    if "j < length (bs_spaces s)" for j
    using that by (cases "i = j") (simp_all add: q(2))
  ultimately show ?thesis by (simp add: same_scan_def q(2))
qed

lemma pushed_queues_ok:
  assumes p: "pushed s i sz ptr t s'" and new: "bs_cells s (bs_next_cell s) = None"
    and i: "i < length (bs_spaces s)" and q: "queues_ok s xss"
  shows "queues_ok s' (xss[i := xss ! i @ [bs_next_cell s]])"
proof -
  let ?a = "bs_next_cell s" and ?h = "pushed_cells s i sz ptr"
  obtain cq n where e: "gq_enqueue ?h (grp_queue s i) (Some ?a) = Inr (bs_cells s', cq)"
    "bs_spaces s' = (bs_spaces s)[i := (bs_spaces s ! i)\<lparr>cs_space := (grp_space s i)\<lparr>ms_top := t\<rparr>,
        cs_containers := cq, cs_segments_since_last_gc := n\<rparr>]"
    using p unfolding pushed_def by blast
  have l: "length xss = length (bs_spaces s)" and apart: "lists_apart xss" using q by (simp_all add: queues_ok_def)
  have fresh: "?a \<notin> set (xss ! j)" if "j < length xss" for j
    using queues_ok_mapped[OF q that] new by fastforce
  have old: "gq_inv ?h (grp_queue s j) (xss ! j)" if "j < length xss" for j
  proof (rule gq_inv_frame)
    show "gq_inv (bs_cells s) (grp_queue s j) (xss ! j)" using q that by (simp add: queues_ok_def)
  qed (use fresh[OF that] in auto)
  have list: "gq_list ?h (grp_queue s i) (xss ! i)" using old i l by (simp add: gq_inv_def)
  have un: "unlinked ?h ?a" by (simp add: unlinked_def)
  have e': "gq_list (bs_cells s') cq (xss ! i @ [?a])" "n_elements cq = n_elements (grp_queue s i) + 1"
    "\<And>b. b \<noteq> ?a \<Longrightarrow> b \<notin> set (xss ! i) \<Longrightarrow> bs_cells s' b = ?h b"
    using gq_enqueue_ok[OF list un fresh] i l e(1) by auto
  have "gq_inv (bs_cells s') (grp_queue s' j) (xss[i := xss ! i @ [?a]] ! j)" if j: "j < length xss" for j
  proof (cases "j = i")
    case True
    then show ?thesis using e' old[OF j] i l by (simp add: e(2) gq_inv_def)
  next
    case False
    have "set (xss ! i) \<inter> set (xss ! j) = {}" using apart i j l False by (simp add: lists_apart_def)
    then have "bs_cells s' b = ?h b" if "b \<in> set (xss ! j)" for b
      using e'(3)[of b] that fresh[OF j] by auto
    then have "gq_inv (bs_cells s') (grp_queue s j) (xss ! j)"
      by (intro gq_inv_frame[OF old[OF j]]) simp
    then show ?thesis using False by (simp add: e(2))
  qed
  moreover have "lists_apart (xss[i := xss ! i @ [?a]])" using apart fresh by (rule lists_apart_snoc)
  ultimately show ?thesis using l by (simp add: queues_ok_def e(2))
qed

lemma queues_in_snoc: "queues_in xss (xss[i := xss ! i @ [a]])"
  unfolding queues_in_def by (cases "i < length xss") (auto simp: nth_list_update)

lemma push_container_grows:
  assumes "seg_inv s" "push_container s i sz = Inr (s', c)"
  shows "grows s s' \<and> (c = None \<longrightarrow> s' = s)"
proof -
  obtain j where j: "i = int j" "j < length (bs_spaces s)"
    using assms(2) by (cases "cs_at s i")
      (auto simp: push_container_def cs_at_def split: if_splits intro!: that[of "nat i"])
  have "bs_cells s (bs_next_cell s) = None" using seg_inv_cell_less[OF assms(1)] by fastforce
  then have "grows s s'" if "pushed s j sz ptr t s'" for ptr t
    unfolding grows_def using pushed_same_scan[OF that] pushed_queues_ok[OF that _ j(2)] queues_in_snoc by blast
  then show ?thesis using push_container_pushed[OF assms(1) j(2)] assms(2) j(1) by fastforce
qed

section \<open>Requests\<close>

lemma link_segment_grows:
  assumes "link_segment s c l = Inr (s', p, c')"
  shows "grows s s'"
proof -
  obtain a b where ab: "c = Some a" "l = Some b"
    using assms by (cases c; cases l) (auto simp: link_segment_def elim!: bind_resultE split: option.splits)
  obtain k where k: "bs_cells s b = Some k"
    using assms ab by (cases "bs_cells s b") (auto simp: link_segment_def)
  define s1 where "s1 = s\<lparr>bs_cells := (bs_cells s)(b \<mapsto> k\<lparr>c_next_segment := c\<rparr>)\<rparr>"
  obtain m where m: "bs_cells s1 a = Some m"
    using assms ab k by (cases "bs_cells s1 a") (auto simp: link_segment_def s1_def)
  have "s' = s1\<lparr>bs_cells := (bs_cells s1)(a \<mapsto> m\<lparr>c_prev_segment := l\<rparr>)\<rparr>"
    using assms ab k m by (auto simp: link_segment_def s1_def split: if_splits)
  moreover have "same_queues s s1"
    unfolding s1_def using k by (rule same_queues_cells) (simp add: kept_cell_defs)
  moreover have "same_queues s1 (s1\<lparr>bs_cells := (bs_cells s1)(a \<mapsto> m\<lparr>c_prev_segment := l\<rparr>)\<rparr>)"
    using m by (rule same_queues_cells) (simp add: kept_cell_defs)
  ultimately show ?thesis using same_queues_trans same_queues_grows by blast
qed

lemma allocate_new_segment_grows:
  assumes "seg_inv s" "allocate_new_segment s i sz c = Some (Inr (s', p, c'))"
  shows "grows s s' \<and> (p = None \<longrightarrow> s' = s)"
proof -
  obtain s1 d where d: "push_container s i sz = Inr (s1, d)"
    using assms(2) by (cases "push_container s i sz") (auto simp: allocate_new_segment_def)
  note g = push_container_grows[OF assms(1) d]
  show ?thesis
  proof (cases d)
    case None
    then show ?thesis using assms(2) d g by (simp add: allocate_new_segment_def)
  next
    case (Some a)
    then obtain l where l: "link_segment s1 d l = Inr (s', p, c')"
      using assms(2) d by (auto simp: allocate_new_segment_def elim!: bind_resultE)
    then have "p \<noteq> None" by (auto simp: link_segment_def elim!: bind_resultE)
    then show ?thesis using g link_segment_grows[OF l] grows_trans by blast
  qed
qed

lemma extend_container_grows:
  assumes "seg_inv s" "extend_container s sz c = Some (Inr (s', p, c'))"
  shows "grows s s'"
proof -
  obtain k where k: "cget (bs_cells s) c = Inr k"
    using assms(2) by (cases "cget (bs_cells s) c") (simp_all add: extend_container_def)
  obtain s1 q c1 where 1: "allocate_new_segment s (c_space_id k) sz c = Some (Inr (s1, q, c1))"
    using assms(2) k by (auto simp: extend_container_def split: sum.splits option.splits prod.splits)
  have 2: "(case q of None \<Rightarrow> allocate_new_segment s1 0 sz c1 | Some p \<Rightarrow> Some (Inr (s1, Some p, c1))) = Some (Inr (s', p, c'))"
    using assms(2) k 1 by (auto simp: extend_container_def split: sum.splits option.splits prod.splits)
  note g = allocate_new_segment_grows[OF assms(1) 1]
  show ?thesis
  proof (cases q)
    case None
    then show ?thesis using g 2 allocate_new_segment_grows[OF assms(1), of 0 sz c1 s' p c'] by simp
  qed (use g 2 in auto)
qed

lemma alloc_in_segments_grows:
  assumes "alloc_in_segments h sz c = Some (Inr (h', p, c'))"
  shows "cells_kept same_links_cell h h' \<and> (p = None \<longrightarrow> h' = h)"
proof -
  have "\<forall>h' p c'. r = Inr (h', p, c') \<longrightarrow> cells_kept same_links_cell h h' \<and> (p = None \<longrightarrow> h' = h)"
    if "alloc_in_segments h sz c = Some r" for r
  proof (rule alloc_in_segments.raw_induct[OF _ that,
      where P = "\<lambda>h sz c r. \<forall>h' p c'. r = Inr (h', p, c') \<longrightarrow> cells_kept same_links_cell h h' \<and> (p = None \<longrightarrow> h' = h)"])
    fix f h sz c r
    assume ih: "\<And>h sz c r. f h sz c = Some r \<Longrightarrow>
        \<forall>h' p c'. r = Inr (h', p, c') \<longrightarrow> cells_kept same_links_cell h h' \<and> (p = None \<longrightarrow> h' = h)"
      and 1: "(case cget h c of Inl e \<Rightarrow> Some (Inl e) | Inr k \<Rightarrow>
          (case seg_alloc k sz of
             (k1, Some old_top) \<Rightarrow> Some (Inr (h(the c \<mapsto> k1), Some old_top, c))
           | (k1, None) \<Rightarrow>
               (if c_next_segment k = None then Some (Inr (h, None, c)) else f h sz (c_next_segment k)))) = Some r"
    show "\<forall>h' p c'. r = Inr (h', p, c') \<longrightarrow> cells_kept same_links_cell h h' \<and> (p = None \<longrightarrow> h' = h)"
    proof (intro allI impI)
      fix h' p c' assume r: "r = Inr (h', p, c')"
      obtain a k where a: "c = Some a" "h a = Some k"
        using 1 r by (cases c) (auto simp: cget_def split: option.splits)
      show "cells_kept same_links_cell h h' \<and> (p = None \<longrightarrow> h' = h)"
      proof (cases "hw_add (c_top k) sz < c_end k")
        case True
        then have "h' = h(a \<mapsto> k\<lparr>c_top := hw_add (c_top k) sz\<rparr>)" "p \<noteq> None"
          using 1 r a by (auto simp: seg_alloc_def Let_def)
        then show ?thesis
          using a(2) by (auto simp: kept_cell_defs intro!: cells_kept_upd)
      next
        case False
        then have s: "seg_alloc k sz = (k, None)" by (simp add: seg_alloc_def)
        show ?thesis
        proof (cases "c_next_segment k")
          case None
          then show ?thesis using 1 r a s by (auto intro: cells_kept_refl)
        next
          case (Some b)
          then have "f h sz (Some b) = Some r" using 1 a s by simp
          from ih[OF this] r show ?thesis by blast
        qed
      qed
    qed
  qed
  with assms show ?thesis by blast
qed

lemma alloc_or_extend_grows:
  assumes inv: "seg_inv s"
    and a: "(case alloc_in_segments (bs_cells s) sz c of
        None \<Rightarrow> None
      | Some (Inl e) \<Rightarrow> Some (Inl e)
      | Some (Inr (h, Some old_top, c1)) \<Rightarrow>
          Some (bind_result (bs_allocate_block (s\<lparr>bs_cells := h\<rparr>) old_top) (\<lambda>s1. Inr (s1, Some old_top, c1)))
      | Some (Inr (h, None, c1)) \<Rightarrow> extend_container (s\<lparr>bs_cells := h\<rparr>) sz c1) = Some (Inr (s', p, c'))"
  shows "grows s s'"
proof -
  obtain h q c1 where q: "alloc_in_segments (bs_cells s) sz c = Some (Inr (h, q, c1))"
    using a by (auto split: option.splits sum.splits prod.splits)
  note k = alloc_in_segments_grows[OF q]
  show ?thesis
  proof (cases q)
    case None
    then show ?thesis using a q k extend_container_grows[OF inv, of sz c1 s' p c'] by simp
  next
    case (Some t)
    then have "bind_result (bs_allocate_block (s\<lparr>bs_cells := h\<rparr>) t) (\<lambda>s1. Inr (s1, Some t, c1)) = Inr (s', p, c')"
      using a q by simp
    then obtain osa where "s' = s\<lparr>bs_cells := h, bs_start_array := osa\<rparr>"
      using bs_allocate_block_frame by (fastforce elim: bind_resultE)
    then have "same_queues s s'" using k by (simp add: same_queues_def)
    then show ?thesis by (rule same_queues_grows)
  qed
qed

lemma ms_cas_allocate_end: "ms_cas_allocate ms n = (ms', r) \<Longrightarrow> ms_bottom ms' = ms_bottom ms \<and> ms_end ms' = ms_end ms"
  by (auto simp: ms_cas_allocate_def Let_def split: if_splits)

lemma object_grows:
  assumes "bs_allocate s sz = Inr (s', r)"
  shows "grows s s'"
proof -
  obtain g where g: "cs_at s 0 = Inr g"
    using assms by (cases "cs_at s 0") (auto simp: bs_allocate_def bs_cas_allocate_def)
  have "s' = s \<or> (\<exists>ms. bs_spaces s' = (bs_spaces s)[0 := g\<lparr>cs_space := ms\<rparr>] \<and>
      ms_bottom ms = ms_bottom (cs_space g) \<and> ms_end ms = ms_end (cs_space g) \<and> bs_cells s' = bs_cells s)"
    using assms g by (auto simp: bs_allocate_def bs_cas_allocate_def Let_def cs_put_def dest!: ms_cas_allocate_end
        split: prod.splits option.splits if_splits)
  then have "same_queues s s'"
  proof (elim disjE exE conjE)
    fix ms assume s': "bs_spaces s' = (bs_spaces s)[0 := g\<lparr>cs_space := ms\<rparr>]" "ms_bottom ms = ms_bottom (cs_space g)" "ms_end ms = ms_end (cs_space g)"
      "bs_cells s' = bs_cells s"
    have "bs_spaces s \<noteq> []" "g = bs_spaces s ! 0" using g by (auto simp: cs_at_def split: if_splits)
    then show ?thesis by (auto simp: s' same_queues_def nth_list_update intro: cells_kept_refl)
  qed (simp add: same_queues_def cells_kept_refl)
  then show ?thesis by (rule same_queues_grows)
qed

lemma container_grows:
  assumes "seg_inv s" "bs_allocate_container s sz r = Inr (s', c)"
  shows "grows s s'"
proof -
  obtain i s1 c1 where "push_container s i sz = Inr (s1, c1)"
    "(if c1 = None then push_container s1 0 sz else Inr (s1, c1)) = Inr (s', c)"
    using assms(2) by (auto simp: bs_allocate_container_def Let_def split: if_splits elim!: bind_resultE)
  then show ?thesis
    using push_container_grows[OF assms(1)] by (metis (no_types, lifting) Inr_inject Pair_inject)
qed

lemma block_of_resultD:
  assumes "map_option (map_sum id (block_of n)) x = Some (Inr (s', b))"
  shows "\<exists>p c. x = Some (Inr (s', p, c))"
proof -
  obtain y where "x = Some y" "map_sum id (block_of n) y = Inr (s', b)" using assms by auto
  then show ?thesis by (cases y) (auto simp: block_of_def)
qed

lemma do_request_grows:
  assumes "seg_inv s" "do_request fl r s = Some (Inr (s', b))"
  shows "grows s s' \<and> seg_inv s'"
proof -
  have "grows s s'"
  proof (cases r)
    case (NewContainer sz t)
    then show ?thesis using assms container_grows[OF assms(1)]
      by (auto split: if_splits elim!: bind_resultE)
  next
    case (NewElement sz a)
    then obtain p c where "allocate_element s sz (Some a) = Some (Inr (s', p, c))"
      using assms(2) block_of_resultD[of sz "allocate_element s sz (Some a)" s' b] by auto
    then show ?thesis unfolding allocate_element_def by (rule alloc_or_extend_grows[OF assms(1)])
  next
    case (NewPlab a)
    then obtain p c where "allocate_plab fl s (Some a) = Some (Inr (s', p, c))"
      using assms(2) block_of_resultD[of "BDAOldPLABSize fl" "allocate_plab fl s (Some a)" s' b] by auto
    then show ?thesis unfolding allocate_plab_def by (rule alloc_or_extend_grows[OF assms(1)])
  next
    case (NewObject sz)
    then obtain p where "bs_allocate s sz = Inr (s', p)"
      using assms(2) by (cases "bs_allocate s sz") auto
    then show ?thesis by (rule object_grows)
  qed
  moreover have "objs_ok s {}" by (simp add: objs_ok_def)
  then have "served s {} (do_request fl r s)" by (rule do_request_served[OF assms(1)])
  then have "seg_inv s'" using assms by (auto simp: served_def)
  ultimately show ?thesis by blast
qed

end
