(* ===== verification/BdaSafety.thy ===== *)
theory BdaSafety
  imports BdaLayout BdaQueues
begin

text \<open>
  What the allocator of the big-data space promises its callers, with a small
  space of two groups, one with two segments, on which the promises are tried.
\<close>

section \<open>A sample space\<close>

definition sample_rt :: region_table where
  "sample_rt = krm_table (krm_for [''A''] 4096)"

definition sample_heap :: mem_region where
  "sample_heap = \<lparr>mr_start = 2 ^ 19, mr_word_size = 4 * 2 ^ 16\<rparr>"

definition sample_summary :: pcdata where
  "sample_summary = new_pcdata\<lparr>pd_region_start := 2 ^ 19, pd_region_end := 2 ^ 19 + 4 * 2 ^ 19,
     pd_regions := [rd_zero, rd_zero, rd_zero, rd_zero], pd_blocks := replicate 2048 0\<rparr>"

definition sample_starts :: osarray where
  "sample_starts = \<lparr>osa_reserved = sample_heap, osa_covered = sample_heap, osa_blocks = replicate 4096 clean_block\<rparr>"

definition sample_bda :: bda_space where
  "sample_bda = \<lparr>bs_self = sample_space, bs_spaces = layout (2 * 2 ^ 16) sample_heap [new_grp 4096 sample_rt 0, new_grp 4096 sample_rt 1],
     bs_segment_bitmap = new_pm, bs_page_size = 4096, bs_start_array = sample_starts, bs_filler_header_size = 2,
     bs_min_fill_size = 2, bs_segment_sz = 2 ^ 16, bs_dnf = 3, bs_delegation_level = 3,
     bs_default_collection_size = 1024, bs_node_fields = 2, bs_cells = (\<lambda>_. None), bs_next_cell = 0,
     bs_uninit = zero_container, bs_summary = sample_summary, bs_regions = sample_rt\<rparr>"

lemma sample_bda_inv: "seg_inv sample_bda"
  by (rule layout_seg_inv[where nms = "[''A'']" and base = 4096 and alignment = 4096 and z = "2 * 2 ^ 16" and mr = sample_heap])
     (simp_all add: sample_bda_def sample_rt_def sample_heap_def sample_summary_def new_pcdata_def no_containers_def
       rd_zero_def RegionSize_def RegionSizeBytes_def Log2RegionSize_def LogHeapWordSize_def HeapWordSize_def
       mr_end_def hw_add_def size_t_max1_def)

section \<open>Promises\<close>

text \<open>Requests leave the bounds of the groups alone.\<close>

lemma in_group_grows: "grows s s' \<Longrightarrow> in_group s' p n \<Longrightarrow> in_group s p n"
  unfolding grows_def same_scan_def in_group_def by auto

lemma run_requests_in_group:
  "seg_inv s \<Longrightarrow> run_requests fl rs s = Some (Inr (s', bs)) \<Longrightarrow> b \<in> set bs \<Longrightarrow> in_group s (fst b) (snd b)"
proof (induction rs arbitrary: s bs)
  case (Cons r rs)
  obtain x where "do_request fl r s = Some x" using Cons.prems(2) by (cases "do_request fl r s") simp_all
  then obtain s1 c where d: "do_request fl r s = Some (Inr (s1, c))"
    using Cons.prems(2) by (cases x) auto
  then obtain z where z: "run_requests fl rs s1 = Some z"
    "map_sum id (\<lambda>(s2, bs). (s2, case c of None \<Rightarrow> bs | Some c \<Rightarrow> c # bs)) z = Inr (s', bs)"
    using Cons.prems(2) by auto
  then obtain bs1 where b: "run_requests fl rs s1 = Some (Inr (s', bs1))" "bs = (case c of None \<Rightarrow> bs1 | Some c \<Rightarrow> c # bs1)"
    by (cases z) auto
  note 1 = d b
  have g: "grows s s1 \<and> seg_inv s1" using do_request_grows[OF Cons.prems(1) 1(1)] .
  have "objs_ok s {}" by (simp add: objs_ok_def)
  from do_request_served[OF Cons.prems(1) this, of fl r] have c: "in_group s (fst d) (snd d)" if "c = Some d" for d
    using 1(1) that by (auto simp: served_def)
  have "in_group s (fst b) (snd b)" if "b \<in> set bs1"
    using in_group_grows Cons.IH[OF _ 1(2) that] g by blast
  then show ?case using Cons.prems(3) c 1(3) by (auto split: option.splits)
qed simp

text \<open>
  C2: in a run of requests on a big-data space that has not been collected yet, for containers,
  elements, promotion buffers and ordinary objects in any order, every block handed out
  lies between the bounds of one group; the blocks are pairwise disjoint and take no
  memory that was in use in a container before; the run leaves the invariant of the space intact.
\<close>

theorem bda_blocks_disjoint:
  assumes "seg_inv s" "run_requests fl rs s = Some (Inr (s', bs))"
  shows "seg_inv s' \<and> blocks_apart bs \<and>
    (\<forall>b \<in> set bs. block (fst b) (snd b) \<inter> used_in (bs_cells s) = {} \<and>
       (\<exists>i < length (bs_spaces s).
          ms_bottom (grp_space s i) \<le> fst b \<and> hw_add (fst b) (snd b) \<le> ms_end (grp_space s i)))"
proof -
  have "objs_ok s {}" by (simp add: objs_ok_def)
  from run_requests_served[OF assms(1) this, of fl rs] show ?thesis
    using assms(2) run_requests_in_group[OF assms] unfolding in_group_def by auto
qed

text \<open>
  C17: every run of requests ends: no walk along the segments of a container
  goes round in circles, however containers have been extended before.
\<close>

theorem bda_requests_end:
  assumes "seg_inv s"
  shows "run_requests fl rs s \<noteq> None"
proof -
  have "objs_ok s {}" by (simp add: objs_ok_def)
  from run_requests_served[OF assms this, of fl rs] show ?thesis by auto
qed

definition sample_flags :: bda_flags where
  "sample_flags = \<lparr>BDAElementNumberFields = 3, BDACollectionSize = 1024, BDADelegationLevel = 3,
     ContainerNodeFields = 2, BDAContainerFraction = 1, BDARatio = 5, BDAOldPLABSize = 512\<rparr>"

definition sample_run where
  "sample_run = run_requests sample_flags [NewContainer 10 (region_ptr sample_rt 2), NewElement 20 0, NewObject 5] sample_bda"

lemmas sample_defs = sample_bda_def sample_rt_def sample_heap_def sample_summary_def sample_starts_def sample_flags_def
  layout_def tiled_def set_bounds_def new_grp_def krm_for_def new_pcdata_def rd_zero_def zero_container_def sample_space_def gq_create_def

lemmas address_eval = hw_add_def hw_sub_def HeapWordSize_def pointer_delta_def pointer_delta_sz_def size_t_max1_def
  mr_end_def mr_contains_addr_def region_ptr_def bdaregion_size_def region_start_ptr_def value_at_def region_index_def

lemmas summary_eval = region_container_def get_container_at_addr_def addr_to_region_idx_def region_ok_def rd_get_def
  rd_mod_def Log2RegionSize_def install_container_in_region_def install_bda_container_def

lemmas starts_eval = bs_allocate_block_def allocate_block_def block_for_addr_def addr_for_block_def in_blocks_def
  offset_base_def block_shift_def

lemmas alloc_eval = bs_allocate_container_def ga_find_def cs_equals_def push_container_def cs_at_def cs_put_def
  is_other_grp_def ms_cas_allocate_def allocate_and_setup_container_def allocate_container_def setup_container_def
  enqueue_container_def gq_enqueue_def link_next_def allocate_element_def alloc_in_segments.simps seg_alloc_def
  block_of_def bs_allocate_def bs_cas_allocate_def extend_container_def allocate_new_segment_def last_segment.simps
  link_segment_def allocate_plab_def

definition sample_requests :: "request list" where
  "sample_requests = [NewContainer 10 (region_ptr sample_rt 2), NewElement 20 0, NewElement 65530 0, NewPlab 0, NewObject 5]"

lemma sample_ids: "region_layout (Suc (Suc 0)) = 2" "exact_log2 2 = 1"
  using region_layout_simps(3)[of 1] log2_intptr_pow2[of 1] by (simp_all add: exact_log2_def numeral_2_eq_2)

lemma sample_run_ok:
  "\<exists>s. run_requests sample_flags sample_requests sample_bda =
     Some (Inr (s, [(2 ^ 19, 10), (2 ^ 19 + 80, 20), (2 ^ 20, 65530), (2 ^ 19 + 240, 512), (2 ^ 19 + 2 ^ 20, 5)]))"
  by (simp add: sample_requests_def sample_defs address_eval summary_eval starts_eval alloc_eval sample_ids upt_conv_Cons Let_def)

theorem bda_blocks_disjoint_witness:
  "seg_inv sample_bda \<and>
   blocks_apart [(2 ^ 19, 10), (2 ^ 19 + 80, 20), (2 ^ 20, 65530), (2 ^ 19 + 240, 512), (2 ^ 19 + 2 ^ 20, 5)]"
proof -
  obtain s where "run_requests sample_flags sample_requests sample_bda =
     Some (Inr (s, [(2 ^ 19, 10), (2 ^ 19 + 80, 20), (2 ^ 20, 65530), (2 ^ 19 + 240, 512), (2 ^ 19 + 2 ^ 20, 5)]))"
    using sample_run_ok by blast
  from bda_blocks_disjoint[OF sample_bda_inv this] sample_bda_inv show ?thesis by blast
qed

theorem bda_requests_end_witness: "run_requests sample_flags (NewPlab 7 # sample_requests) sample_bda \<noteq> None"
  by (rule bda_requests_end[OF sample_bda_inv])

section \<open>Setting up the sample\<close>

definition sample_setup :: setup_flags where
  "sample_setup = \<lparr>UseNUMA = False, AlwaysPreTouch = False, UseLargePages = False, NUMASpaceResizeRate = 0,
     vm_page_size = 4096\<rparr>"

lemmas region_eval = RegionSize_def RegionSizeBytes_def Log2RegionSize_def LogHeapWordSize_def

theorem groups_tile_space_witness:
  "\<exists>s' z. bs_initialize sample_setup (\<lambda>_ _ n. n) 5 sample_bda sample_heap True = Some (Inr s') \<and>
    ms_end (grp_space s' 1) = 2 ^ 19 + z * 8 \<and> ms_bottom (grp_space s' 0) = 2 ^ 19 + z * 8"
proof -
  have len: "length (bs_spaces sample_bda) = 2" by (simp add: sample_bda_def)
  then have ne: "bs_spaces sample_bda \<noteq> []" by auto
  have pg: "page_ok sample_setup sample_bda" by (simp add: page_ok_def sample_setup_def sample_bda_def region_eval)
  have seg: "0 < bs_segment_sz sample_bda" "RegionSize dvd bs_segment_sz sample_bda"
    by (simp_all add: sample_bda_def region_eval)
  have mr: "RegionSizeBytes dvd mr_start sample_heap" "RegionSize dvd mr_word_size sample_heap"
    "mr_end sample_heap < size_t_max1"
    by (simp_all add: sample_heap_def region_eval address_eval)
  obtain s' z where s': "bs_initialize sample_setup (\<lambda>_ _ n. n) 5 sample_bda sample_heap True = Some (Inr s')"
    "\<forall>i < 2. ms_bottom (grp_space s' i) = hw_add (mr_start sample_heap) ((if i = 0 then 2 - 1 else i - 1) * z) \<and>
       ms_end (grp_space s' i) = (if i = 0 then mr_end sample_heap else hw_add (mr_start sample_heap) (i * z)) \<and>
       ms_top (grp_space s' i) = ms_bottom (grp_space s' i)"
    using groups_tile_space[OF pg _ ne seg mr, of 5 "\<lambda>_ _ n. n", unfolded len] by auto
  from s'(2)[rule_format, of 0] s'(2)[rule_format, of 1] s'(1) show ?thesis
    by (intro exI[of _ s'] exI[of _ z]) (simp add: sample_heap_def hw_add_def HeapWordSize_def)
qed

definition sample_vm :: pm_memory where
  "sample_vm = \<lparr>page_size_for_region = (\<lambda>_. 4096), vm_allocation_granularity = 4096, expand_by = (\<lambda>_. True),
     fresh_word = (\<lambda>_. 0)\<rparr>"

lemma sample_new_bda:
  "\<exists>s0. new_bda_space sample_flags 4096 4096 sample_starts sample_rt sample_summary 1 2 zero_container = Inr s0 \<and>
    bs_segment_sz s0 = 2 ^ 17"
proof -
  have "align_size_up 70656 65536 = 131072" using align_size_up_pow2[of 70656 16] by simp
  then show ?thesis
    using new_groups_ok[of 4096 4096 sample_rt "1 + 1"]
    by (simp add: new_bda_space_def new_mspace_def calculate_reserved_sz_def sample_flags_def Let_def MinRegionSize_def
        Log2MinRegionSize_def LogHeapWordSize_def size_t_max1_def del: upt_Suc)
qed

theorem fresh_space_ready_witness:
  "\<exists>s0 s1 s2. new_bda_space sample_flags 4096 4096 sample_starts sample_rt sample_summary 1 2 zero_container = Inr s0 \<and>
    bs_initialize sample_setup (\<lambda>_ _ n. n) 5 s0 sample_heap True = Some (Inr s1) \<and>
    post_initialize sample_vm 2 sample_heap s1 = Inr s2 \<and> seg_inv s2"
proof -
  obtain s0 where s0: "new_bda_space sample_flags 4096 4096 sample_starts sample_rt sample_summary 1 2 zero_container = Inr s0"
    "bs_segment_sz s0 = 2 ^ 17"
    using sample_new_bda by blast
  have wf: "list_all wf_name [''A'']" by (simp add: wf_name_def name_buffer_size_def)
  have m: "new_krm (join_names [''A'']) 4096 (\<lambda>_. 0) = Inr (krm_for [''A''] 4096)" using new_krm_ok[OF wf] by simp
  have new: "new_bda_space sample_flags 4096 4096 sample_starts (krm_table (krm_for [''A''] 4096)) sample_summary
      (number_bdaregions (krm_for [''A''] 4096)) 2 zero_container = Inr s0"
    using s0(1) by (simp add: sample_rt_def number_bdaregions_def krm_for_def)
  obtain pm where pm: "pm_initialize sample_vm new_pm sample_heap = Inr (pm, True)"
    by (simp add: pm_initialize_def sample_vm_def sample_heap_def bits_required_region_def bits_required_def
        words_to_bits_def LogMinObjAlignment_def Let_def)
  have "\<exists>s1 s2. bs_initialize sample_setup (\<lambda>_ _ n. n) (BDARatio sample_flags) s0 sample_heap True = Some (Inr s1) \<and>
    post_initialize sample_vm 2 sample_heap s1 = Inr s2 \<and> seg_inv s2"
    by (rule fresh_space_ready[OF wf _ m _ _ _ _ _ _ new _ _ _ _ _ _ _ _ pm])
       (simp_all add: s0 sample_setup_def sample_flags_def sample_heap_def sample_summary_def new_pcdata_def no_containers_def
         rd_zero_def region_eval address_eval)
  then show ?thesis using s0(1) by (simp add: sample_flags_def)
qed

end
