(* ===== verification/TaskQueues.thy ===== *)
theory TaskQueues
  imports Prelude "HOL-Library.Signed_Division"
begin

text \<open>
  The work-stealing queues of \<open>utilities/taskqueue.hpp\<close>: the age word with its
  two halves, the circular index arithmetic, and the operations of
  \<open>GenericTaskQueue\<close> as a thread performs them when no other thread interferes.
  \<open>TaskQueueMT\<close> splits the same operations into their accesses to shared memory.
  The template parameter \<open>N\<close> is the argument \<open>N\<close>; \<open>uint\<close> and
  \<open>idx_t\<close> are 32-bit words, the \<open>size_t\<close> of the age is a 64-bit word
  whose low half is \<open>_top\<close>.
\<close>

section \<open>Ages and indices\<close>

type_synonym uint = "32 word"
type_synonym age = "64 word"

definition age_top :: "age \<Rightarrow> uint" where
  "age_top d = ucast d"

definition age_tag :: "age \<Rightarrow> uint" where
  "age_tag d = ucast (drop_bit 32 d)"

definition age_of :: "uint \<Rightarrow> uint \<Rightarrow> age" where
  "age_of tp tag = ucast tp OR push_bit 32 (ucast tag)"

definition TASKQUEUE_SIZE :: uint where
  "TASKQUEUE_SIZE = push_bit 17 1"

definition increment_index :: "uint \<Rightarrow> uint \<Rightarrow> uint" where
  "increment_index N ind = (ind + 1) AND (N - 1)"

definition decrement_index :: "uint \<Rightarrow> uint \<Rightarrow> uint" where
  "decrement_index N ind = (ind - 1) AND (N - 1)"

definition dirty_size :: "uint \<Rightarrow> uint \<Rightarrow> uint \<Rightarrow> uint" where
  "dirty_size N b tp = (b - tp) AND (N - 1)"

definition clean_size :: "uint \<Rightarrow> uint \<Rightarrow> uint \<Rightarrow> uint" where
  "clean_size N b tp = (let sz = dirty_size N b tp in if sz = N - 1 then 0 else sz)"

definition max_elems :: "uint \<Rightarrow> uint" where
  "max_elems N = N - 2"

definition age_increment :: "uint \<Rightarrow> age \<Rightarrow> age" where
  "age_increment N a =
     (let tp = increment_index N (age_top a)
      in if tp = 0 then age_of tp (age_tag a + 1) else age_of tp (age_tag a))"

lemma age_top_of [simp]: "age_top (age_of t g) = t"
  unfolding age_top_def age_of_def
  by (rule bit_word_eqI) (simp add: bit_simps)

lemma age_tag_of [simp]: "age_tag (age_of t g) = g"
  unfolding age_tag_def age_of_def
  by (rule bit_word_eqI) (auto simp: bit_simps dest: bit_imp_le_length)

lemma age_of_parts [simp]: "age_of (age_top a) (age_tag a) = a"
  unfolding age_top_def age_tag_def age_of_def
  by (rule bit_word_eqI) (auto simp: bit_simps)

lemma age_eq_iff: "a = b \<longleftrightarrow> age_top a = age_top b \<and> age_tag a = age_tag b"
  by (metis age_of_parts)

section \<open>Index arithmetic over the natural numbers\<close>

text \<open>A queue size is a power of two; below it the masks are reductions modulo the size.\<close>

definition wf_size :: "uint \<Rightarrow> bool" where
  "wf_size N \<longleftrightarrow> (\<exists>k. 2 \<le> k \<and> k < 32 \<and> N = 2 ^ k)"

lemma unat_two_power:
  assumes "k < 32"
  shows "unat (2 ^ k :: uint) = 2 ^ k"
proof -
  have "unat (2 ^ k :: uint) = unat (of_nat (2 ^ k) :: uint)" by simp
  also have "\<dots> = 2 ^ k mod 2 ^ 32" by (simp only: unat_of_nat) simp
  also have "\<dots> = 2 ^ k" using assms power_strict_increasing[of k 32 "2 :: nat"] by simp
  finally show ?thesis .
qed

lemma wf_sizeE:
  assumes "wf_size N"
  obtains k where "2 \<le> k" "k < 32" "N = 2 ^ k" "unat N = 2 ^ k" "N - 1 = mask k"
proof -
  obtain k where "2 \<le> k" "k < 32" "N = 2 ^ k" using assms by (auto simp: wf_size_def)
  moreover from this have "unat N = 2 ^ k" by (simp add: unat_two_power)
  ultimately show thesis using that by (simp add: mask_eq_exp_minus_1)
qed

lemma wf_size_ge: "wf_size N \<Longrightarrow> 4 \<le> unat N"
  by (elim wf_sizeE) (use power_increasing[of 2 _ "2 :: nat"] in auto)

lemma unat_and_mask:
  assumes "wf_size N"
  shows "unat (x AND (N - 1)) = unat x mod unat N"
proof -
  obtain k where k: "unat N = 2 ^ k" "N - 1 = mask k" using assms by (elim wf_sizeE) auto
  have "x AND (N - 1) = take_bit k x" by (simp add: k(2) take_bit_eq_mask)
  then show ?thesis by (simp add: k(1) unsigned_take_bit_eq) (simp add: take_bit_eq_mod)
qed

lemma and_size_less: "wf_size N \<Longrightarrow> x AND (N - 1) < N"
  by (simp add: word_less_nat_alt unat_and_mask) (metis mod_less_divisor not_gr_zero wf_size_ge zero_less_numeral not_le)

definition next_idx :: "nat \<Rightarrow> nat \<Rightarrow> nat" where
  "next_idx n i = (if i + 1 = n then 0 else i + 1)"

definition prev_idx :: "nat \<Rightarrow> nat \<Rightarrow> nat" where
  "prev_idx n i = (if i = 0 then n - 1 else i - 1)"

definition span :: "nat \<Rightarrow> nat \<Rightarrow> nat \<Rightarrow> nat" where
  "span n b t = (if t \<le> b then b - t else b + n - t)"

lemma unat_sub_mod:
  assumes "wf_size N" "unat b < unat N" "unat t \<le> unat N"
  shows "unat ((b - t) AND (N - 1)) = (unat b + unat N - unat t) mod unat N"
proof -
  obtain k where k: "k < 32" "unat N = 2 ^ k" using assms(1) by (elim wf_sizeE) auto
  have d: "(2 :: nat) ^ k dvd 2 ^ 32" using k(1) by (intro le_imp_power_dvd) simp
  show ?thesis
  proof (cases "unat t \<le> unat b")
    case True
    then have "unat (b - t) = unat b - unat t" "unat b + unat N - unat t = (unat b - unat t) + unat N"
      by (simp_all add: unat_sub_if')
    then show ?thesis by (simp only: unat_and_mask[OF assms(1)] mod_add_self2)
  next
    case False
    then have "unat (b - t) = unat b + 2 ^ 32 - unat t" by (simp add: unat_sub_if')
    moreover obtain c where c: "(2 :: nat) ^ 32 = 2 ^ k * c" using d by blast
    moreover have "c \<noteq> 0" using c by (cases c) auto
    then obtain c' where "c = c' + 1" by (cases c) auto
    ultimately have "unat (b - t) = (unat b + 2 ^ k - unat t) + 2 ^ k * c'"
      using assms(3) k by (simp add: algebra_simps)
    then show ?thesis by (simp only: unat_and_mask[OF assms(1)] k mod_mult_self2)
  qed
qed

lemma unat_increment_index:
  assumes "wf_size N" "unat i < unat N"
  shows "unat (increment_index N i) = next_idx (unat N) (unat i)"
proof -
  obtain k where "k < 32" "unat N = 2 ^ k" using assms(1) by (elim wf_sizeE) auto
  moreover from this have "unat N \<le> 2 ^ 31" using power_increasing[of k 31 "2 :: nat"] by simp
  ultimately have "unat (i + 1) = unat i + 1" using assms(2) by (simp add: unat_word_ariths)
  then show ?thesis using assms by (simp add: increment_index_def unat_and_mask next_idx_def mod_if)
qed

lemma unat_decrement_index:
  assumes "wf_size N" "unat i < unat N"
  shows "unat (decrement_index N i) = prev_idx (unat N) (unat i)"
  using unat_sub_mod[OF assms, of 1] assms wf_size_ge[OF assms(1)]
  by (auto simp: decrement_index_def prev_idx_def mod_if)

lemma unat_dirty_size:
  assumes "wf_size N" "unat b < unat N" "unat t < unat N"
  shows "unat (dirty_size N b t) = span (unat N) (unat b) (unat t)"
  using unat_sub_mod[OF assms(1,2), of t] assms by (auto simp: dirty_size_def span_def mod_if)

lemma unat_size_bounds:
  assumes "wf_size N"
  shows "unat (N - 1) = unat N - 1" "unat (max_elems N) = unat N - 2"
  using wf_size_ge[OF assms] by (auto simp: max_elems_def unat_sub_if' unat_sub)

section \<open>Statistics\<close>

text \<open>\<open>TaskQueueStats\<close>, which a debug build keeps in every queue.\<close>

record tq_stats =
  st_push :: size_t
  st_pop :: size_t
  st_pop_slow :: size_t
  st_steal_attempt :: size_t
  st_steal :: size_t
  st_overflow :: size_t
  st_overflow_max_len :: size_t

definition stats_reset :: tq_stats where
  "stats_reset = \<lparr>st_push = 0, st_pop = 0, st_pop_slow = 0, st_steal_attempt = 0, st_steal = 0, st_overflow = 0,
     st_overflow_max_len = 0\<rparr>"

definition record_push :: "tq_stats \<Rightarrow> tq_stats" where
  "record_push st = st\<lparr>st_push := st_push st + 1\<rparr>"

definition record_pop :: "tq_stats \<Rightarrow> tq_stats" where
  "record_pop st = st\<lparr>st_pop := st_pop st + 1\<rparr>"

definition record_pop_slow :: "tq_stats \<Rightarrow> tq_stats" where
  "record_pop_slow st = (let st' = record_pop st in st'\<lparr>st_pop_slow := st_pop_slow st' + 1\<rparr>)"

definition record_steal :: "bool \<Rightarrow> tq_stats \<Rightarrow> tq_stats" where
  "record_steal success st =
     (let st' = st\<lparr>st_steal_attempt := st_steal_attempt st + 1\<rparr>
      in if success then st'\<lparr>st_steal := st_steal st' + 1\<rparr> else st')"

definition record_overflow :: "size_t \<Rightarrow> tq_stats \<Rightarrow> tq_stats" where
  "record_overflow new_len st =
     (let st' = st\<lparr>st_overflow := st_overflow st + 1\<rparr>
      in if new_len > st_overflow_max_len st' then st'\<lparr>st_overflow_max_len := new_len\<rparr> else st')"

definition stats_verify :: "tq_stats \<Rightarrow> unit result" where
  "stats_verify st =
     (if st_push st \<noteq> st_pop st + st_steal st then Inl (AssertFailed ''push = pop + steal'')
      else if \<not> st_pop_slow st \<le> st_pop st then Inl (AssertFailed ''pop_slow <= pop'')
      else if \<not> st_steal st \<le> st_steal_attempt st then Inl (AssertFailed ''steal <= steal_attempt'')
      else if \<not> (st_overflow st = 0 \<or> st_push st \<noteq> 0) then Inl (AssertFailed ''overflow == 0 || push != 0'')
      else if \<not> (st_overflow_max_len st = 0 \<or> st_overflow st \<noteq> 0)
        then Inl (AssertFailed ''overflow_max_len == 0 || overflow != 0'')
      else Inr ())"

section \<open>The queue and its operations\<close>

record 'a taskqueue =
  tq_bottom :: uint
  tq_age :: age
  tq_elems :: "'a list"
  tq_stats :: tq_stats

definition new_taskqueue :: "'a taskqueue" where
  "new_taskqueue = \<lparr>tq_bottom = 0, tq_age = 0, tq_elems = [], tq_stats = stats_reset\<rparr>"

text \<open>\<open>junk\<close> is what the allocated array happens to hold.\<close>

definition tq_initialize :: "uint \<Rightarrow> (nat \<Rightarrow> 'a) \<Rightarrow> 'a taskqueue \<Rightarrow> 'a taskqueue" where
  "tq_initialize N junk q = q\<lparr>tq_elems := map junk [0..<unat N]\<rparr>"

definition tq_peek :: "'a taskqueue \<Rightarrow> bool" where
  "tq_peek q \<longleftrightarrow> tq_bottom q \<noteq> age_top (tq_age q)"

definition tq_size :: "uint \<Rightarrow> 'a taskqueue \<Rightarrow> uint" where
  "tq_size N q = clean_size N (tq_bottom q) (age_top (tq_age q))"

definition tq_is_empty :: "uint \<Rightarrow> 'a taskqueue \<Rightarrow> bool" where
  "tq_is_empty N q \<longleftrightarrow> tq_size N q = 0"

definition tq_dirty_size :: "uint \<Rightarrow> 'a taskqueue \<Rightarrow> uint" where
  "tq_dirty_size N q = dirty_size N (tq_bottom q) (age_top (tq_age q))"

definition tq_set_empty :: "'a taskqueue \<Rightarrow> 'a taskqueue" where
  "tq_set_empty q = q\<lparr>tq_bottom := 0, tq_age := 0\<rparr>"

definition get_elem :: "'a taskqueue \<Rightarrow> uint \<Rightarrow> 'a result" where
  "get_elem q i = (if unat i < length (tq_elems q) then Inr (tq_elems q ! unat i) else Inl OutOfBounds)"

definition put_elem :: "'a taskqueue \<Rightarrow> uint \<Rightarrow> 'a \<Rightarrow> 'a taskqueue result" where
  "put_elem q i t =
     (if unat i < length (tq_elems q) then Inr (q\<lparr>tq_elems := (tq_elems q)[unat i := t]\<rparr>) else Inl OutOfBounds)"

definition store_and_bump :: "uint \<Rightarrow> 'a \<Rightarrow> 'a taskqueue \<Rightarrow> uint \<Rightarrow> (bool \<times> 'a taskqueue) result" where
  "store_and_bump N t q localBot =
     bind_result (put_elem q localBot t) (\<lambda>q.
       Inr (True, q\<lparr>tq_bottom := increment_index N localBot, tq_stats := record_push (tq_stats q)\<rparr>))"

definition push_slow :: "uint \<Rightarrow> 'a \<Rightarrow> uint \<Rightarrow> 'a taskqueue \<Rightarrow> (bool \<times> 'a taskqueue) result" where
  "push_slow N t dirty_n_elems q =
     (if dirty_n_elems = N - 1 then store_and_bump N t q (tq_bottom q) else Inr (False, q))"

definition tq_push :: "uint \<Rightarrow> 'a \<Rightarrow> 'a taskqueue \<Rightarrow> (bool \<times> 'a taskqueue) result" where
  "tq_push N t q =
     (let localBot = tq_bottom q
      in if \<not> localBot < N then Inl (AssertFailed ''_bottom out of range.'')
         else let dirty_n_elems = dirty_size N localBot (age_top (tq_age q))
              in if \<not> dirty_n_elems < N then Inl (AssertFailed ''n_elems out of range.'')
                 else if dirty_n_elems < max_elems N then store_and_bump N t q localBot
                 else push_slow N t dirty_n_elems q)"

text \<open>Without interference the exchange in \<open>pop_local_slow\<close> finds the age it read.\<close>

definition check_not_wrapped :: "uint \<Rightarrow> uint \<Rightarrow> uint \<Rightarrow> 'b \<Rightarrow> 'b result" where
  "check_not_wrapped N localBot tp r =
     (if dirty_size N localBot tp = N - 1 then Inl (AssertFailed ''sanity'') else Inr r)"

definition pop_local_slow :: "uint \<Rightarrow> uint \<Rightarrow> age \<Rightarrow> 'a \<Rightarrow> 'a taskqueue \<Rightarrow> ('a option \<times> 'a taskqueue) result" where
  "pop_local_slow N localBot oldAge t q =
     (let newAge = age_of localBot (age_tag oldAge + 1)
      in if localBot = age_top oldAge \<and> tq_age q = oldAge
         then check_not_wrapped N localBot (age_top newAge)
                (Some t, q\<lparr>tq_age := newAge, tq_stats := record_pop_slow (tq_stats q)\<rparr>)
         else check_not_wrapped N localBot (age_top newAge) (None, q\<lparr>tq_age := newAge\<rparr>))"

definition pop_local :: "uint \<Rightarrow> 'a taskqueue \<Rightarrow> ('a option \<times> 'a taskqueue) result" where
  "pop_local N q =
     (let dirty_n_elems = dirty_size N (tq_bottom q) (age_top (tq_age q))
      in if dirty_n_elems = N - 1 then Inl (AssertFailed ''Shouldn't be possible...'')
         else if dirty_n_elems = 0 then Inr (None, q)
         else let localBot = decrement_index N (tq_bottom q); q = q\<lparr>tq_bottom := localBot\<rparr>
              in bind_result (get_elem q localBot) (\<lambda>t.
                   let tp = age_top (tq_age q)
                   in if clean_size N localBot tp > 0
                      then check_not_wrapped N localBot tp (Some t, q\<lparr>tq_stats := record_pop (tq_stats q)\<rparr>)
                      else pop_local_slow N localBot (tq_age q) t q))"

definition pop_global :: "uint \<Rightarrow> 'a taskqueue \<Rightarrow> ('a option \<times> 'a taskqueue) result" where
  "pop_global N q =
     (let oldAge = tq_age q; localBot = tq_bottom q
      in if clean_size N localBot (age_top oldAge) = 0 then Inr (None, q)
         else bind_result (get_elem q (age_top oldAge)) (\<lambda>t.
                let newAge = age_increment N oldAge
                in check_not_wrapped N localBot (age_top newAge) (Some t, q\<lparr>tq_age := newAge\<rparr>)))"

text \<open>\<open>oops_do\<close> hands the address of every slot to a closure, which may overwrite it.\<close>

fun oops_loop :: "uint \<Rightarrow> ('a \<Rightarrow> bool) \<Rightarrow> ('a \<Rightarrow> 's \<Rightarrow> 'a \<times> 's) \<Rightarrow> nat \<Rightarrow> uint \<Rightarrow> 'a taskqueue \<times> 's \<Rightarrow>
    ('a taskqueue \<times> 's) result" where
  "oops_loop N is_oop_or_null f 0 index (q, s) = Inr (q, s)"
| "oops_loop N is_oop_or_null f (Suc iters) index (q, s) =
     (let index = decrement_index N index
      in bind_result (get_elem q index) (\<lambda>t.
           if \<not> is_oop_or_null t then Inl (AssertFailed ''Not an oop or null'')
           else let (t', s') = f t s
                in bind_result (put_elem q index t') (\<lambda>q'. oops_loop N is_oop_or_null f iters index (q', s'))))"

definition tq_oops_do :: "uint \<Rightarrow> ('a \<Rightarrow> bool) \<Rightarrow> ('a \<Rightarrow> 's \<Rightarrow> 'a \<times> 's) \<Rightarrow> 'a taskqueue \<times> 's \<Rightarrow>
    ('a taskqueue \<times> 's) result" where
  "tq_oops_do N is_oop_or_null f = (\<lambda>(q, s).
     oops_loop N is_oop_or_null f (unat (tq_size N q)) (tq_bottom q) (q, s))"

end
