(* ===== verification/TaskDeques.thy ===== *)
theory TaskDeques
  imports TaskQueues
begin

text \<open>
  The contract of a bounded double-ended queue, and the task queue as an
  implementation of it: the tasks are the slots from \<open>_top\<close> to \<open>_bottom\<close>
  around the end of the array, the owner works at one end, a thief at the other.
\<close>

section \<open>The contract\<close>

datatype 'a dq_op = Push 'a | PopLocal | PopGlobal
datatype 'a dq_out = Pushed bool | Popped "'a option"

text \<open>What a sequence of calls answers, over an implementation and over a list.\<close>

fun run_ops :: "('a \<Rightarrow> 'q \<Rightarrow> (bool \<times> 'q) result) \<Rightarrow> ('q \<Rightarrow> ('a option \<times> 'q) result) \<Rightarrow>
    ('q \<Rightarrow> ('a option \<times> 'q) result) \<Rightarrow> 'a dq_op list \<Rightarrow> 'q \<Rightarrow> ('a dq_out list \<times> 'q) result" where
  "run_ops push pop_back pop_front [] q = Inr ([], q)"
| "run_ops push pop_back pop_front (c # cs) q =
     bind_result (case c of
         Push x \<Rightarrow> bind_result (push x q) (\<lambda>(b, q'). Inr (Pushed b, q'))
       | PopLocal \<Rightarrow> bind_result (pop_back q) (\<lambda>(r, q'). Inr (Popped r, q'))
       | PopGlobal \<Rightarrow> bind_result (pop_front q) (\<lambda>(r, q'). Inr (Popped r, q'))) (\<lambda>(out, q').
       bind_result (run_ops push pop_back pop_front cs q') (\<lambda>(outs, q''). Inr (out # outs, q'')))"

fun spec_op :: "nat \<Rightarrow> 'a dq_op \<Rightarrow> 'a list \<Rightarrow> 'a dq_out \<times> 'a list" where
  "spec_op cap (Push x) xs = (if length xs < cap then (Pushed True, xs @ [x]) else (Pushed False, xs))"
| "spec_op cap PopLocal xs = (if xs = [] then (Popped None, []) else (Popped (Some (last xs)), butlast xs))"
| "spec_op cap PopGlobal xs = (case xs of [] \<Rightarrow> (Popped None, []) | x # ys \<Rightarrow> (Popped (Some x), ys))"

fun spec_ops :: "nat \<Rightarrow> 'a dq_op list \<Rightarrow> 'a list \<Rightarrow> 'a dq_out list \<times> 'a list" where
  "spec_ops cap [] xs = ([], xs)"
| "spec_ops cap (c # cs) xs =
     (let (out, ys) = spec_op cap c xs; (outs, zs) = spec_ops cap cs ys in (out # outs, zs))"

locale bounded_deque =
  fixes inv :: "'q \<Rightarrow> bool"
    and content :: "'q \<Rightarrow> 'a list"
    and cap :: nat
    and push :: "'a \<Rightarrow> 'q \<Rightarrow> (bool \<times> 'q) result"
    and pop_back :: "'q \<Rightarrow> ('a option \<times> 'q) result"
    and pop_front :: "'q \<Rightarrow> ('a option \<times> 'q) result"
  assumes content_bounded: "inv q \<Longrightarrow> length (content q) \<le> cap"
    and push_room: "inv q \<Longrightarrow> length (content q) < cap \<Longrightarrow>
      \<exists>q'. push x q = Inr (True, q') \<and> inv q' \<and> content q' = content q @ [x]"
    and push_full: "inv q \<Longrightarrow> length (content q) = cap \<Longrightarrow> push x q = Inr (False, q)"
    and pop_back_none: "inv q \<Longrightarrow> content q = [] \<Longrightarrow> pop_back q = Inr (None, q)"
    and pop_back_some: "inv q \<Longrightarrow> content q = xs @ [x] \<Longrightarrow>
      \<exists>q'. pop_back q = Inr (Some x, q') \<and> inv q' \<and> content q' = xs"
    and pop_front_none: "inv q \<Longrightarrow> content q = [] \<Longrightarrow> pop_front q = Inr (None, q)"
    and pop_front_some: "inv q \<Longrightarrow> content q = x # xs \<Longrightarrow>
      \<exists>q'. pop_front q = Inr (Some x, q') \<and> inv q' \<and> content q' = xs"
begin

lemma push_any:
  assumes "inv q"
  obtains q' where "push x q = Inr (length (content q) < cap, q')" "inv q'"
    "content q' = (if length (content q) < cap then content q @ [x] else content q)"
  using push_room[OF assms, of x] push_full[OF assms, of x] content_bounded[OF assms] assms that
  by (cases "length (content q) < cap") auto

lemma pop_back_any:
  assumes "inv q"
  obtains q' where "pop_back q = Inr (if content q = [] then None else Some (last (content q)), q')" "inv q'"
    "content q' = butlast (content q)"
  using pop_back_none[OF assms] pop_back_some[OF assms, of "butlast (content q)" "last (content q)"] assms that
  by (cases "content q = []") auto

lemma pop_front_any:
  assumes "inv q"
  obtains q' where "pop_front q = Inr (case content q of [] \<Rightarrow> None | x # _ \<Rightarrow> Some x, q')" "inv q'"
    "content q' = tl (content q)"
  using pop_front_none[OF assms] pop_front_some[OF assms] assms that
  by (cases "content q") auto

lemma run_ops_spec:
  assumes "inv q"
  shows "\<exists>q'. run_ops push pop_back pop_front cs q = Inr (fst (spec_ops cap cs (content q)), q') \<and> inv q' \<and>
    content q' = snd (spec_ops cap cs (content q))"
  using assms
proof (induction cs arbitrary: q)
  case Nil
  then show ?case by simp
next
  case (Cons c cs)
  show ?case
  proof (cases c)
    case (Push x)
    obtain q1 where q1: "push x q = Inr (length (content q) < cap, q1)" "inv q1"
        "content q1 = (if length (content q) < cap then content q @ [x] else content q)"
      using push_any[OF Cons.prems] by blast
    then show ?thesis using Cons.IH[OF q1(2)] Push by (auto split: prod.splits)
  next
    case PopLocal
    obtain q1 where q1: "pop_back q = Inr (if content q = [] then None else Some (last (content q)), q1)" "inv q1"
        "content q1 = butlast (content q)"
      using pop_back_any[OF Cons.prems] by blast
    then show ?thesis using Cons.IH[OF q1(2)] PopLocal by (auto split: prod.splits)
  next
    case PopGlobal
    obtain q1 where q1: "pop_front q = Inr (case content q of [] \<Rightarrow> None | x # _ \<Rightarrow> Some x, q1)" "inv q1"
        "content q1 = tl (content q)"
      using pop_front_any[OF Cons.prems] by blast
    then show ?thesis using Cons.IH[OF q1(2)] PopGlobal by (auto split: prod.splits list.splits)
  qed
qed

end

section \<open>Slots of the circular array\<close>

definition slots :: "nat \<Rightarrow> 'a list \<Rightarrow> nat \<Rightarrow> nat \<Rightarrow> 'a list" where
  "slots n es t l = map (\<lambda>i. es ! ((t + i) mod n)) [0..<l]"

lemma length_slots [simp]: "length (slots n es t l) = l"
  by (simp add: slots_def)

lemma slots_eq_Nil [simp]: "slots n es t l = [] \<longleftrightarrow> l = 0"
  by (simp add: slots_def)

lemma slots_snoc: "0 < l \<Longrightarrow> slots n es t l = slots n es t (l - 1) @ [es ! ((t + l - 1) mod n)]"
  by (cases l) (simp_all add: slots_def)

lemma slots_Cons:
  assumes "0 < l" "t < n"
  shows "slots n es t l = es ! t # slots n es (next_idx n t) (l - 1)"
proof -
  have "(t + Suc i) mod n = (next_idx n t + i) mod n" for i
  proof (cases "t + 1 = n")
    case True
    then have "t + Suc i = n + i" by simp
    then show ?thesis using True by (simp only: next_idx_def mod_add_self1) simp
  qed (simp add: next_idx_def)
  moreover obtain l' where "l = Suc l'" using assms(1) by (cases l) auto
  ultimately show ?thesis using assms(2)
    by (simp add: slots_def map_upt_Suc del: upt_Suc)
qed

lemma index_apart:
  assumes "(t + i) mod n = (t + j) mod (n :: nat)" "i < n" "j < n"
  shows "i = j"
  using assms
proof (induction i j rule: linorder_wlog)
  case (le i j)
  then have "n dvd j - i" using mod_eq_dvd_iff_nat[of "t + i" "t + j" n] by simp
  then show ?case using le nat_dvd_not_less[of "j - i" n] by (cases "i = j") auto
qed auto

lemma slots_update:
  assumes "l < n" "length es = n"
  shows "slots n (es[(t + l) mod n := x]) t l = slots n es t l"
proof -
  have "(t + l) mod n \<noteq> (t + i) mod n" if "i < l" for i
    using index_apart[of t i n l] that assms(1) by auto
  then show ?thesis by (auto simp: slots_def)
qed

lemma slots_write:
  assumes "l < n" "length es = n"
  shows "slots n (es[(t + l) mod n := x]) t (Suc l) = slots n es t l @ [x]"
  using assms by (subst slots_snoc) (simp_all add: slots_update)

lemma span_index:
  assumes "b < n" "t < n"
  shows "(t + span n b t) mod n = b"
  using assms by (auto simp: span_def)

lemmas idx_defs = span_def next_idx_def prev_idx_def

lemma span_facts:
  assumes "b < n" "t < n"
  shows "span n b t < n" "span n b t = 0 \<longleftrightarrow> b = t" "next_idx n b < n" "prev_idx n b < n"
    "prev_idx n (next_idx n b) = b" "next_idx n (prev_idx n b) = b"
    "span n b t < n - 1 \<Longrightarrow> span n (next_idx n b) t = span n b t + 1"
    "0 < span n b t \<Longrightarrow> span n b (next_idx n t) = span n b t - 1"
    "0 < span n b t \<Longrightarrow> span n (prev_idx n b) t = span n b t - 1"
    "span n b t = 0 \<Longrightarrow> span n (prev_idx n b) t = n - 1"
    "0 < span n b t \<Longrightarrow> prev_idx n b = (t + span n b t - 1) mod n"
  using assms by (auto simp: idx_defs mod_if split: if_splits)

section \<open>The task queue as a deque\<close>

text \<open>Between its operations a queue has its indices in range and at most \<open>N - 2\<close> tasks.\<close>

definition tq_len :: "uint \<Rightarrow> 'a taskqueue \<Rightarrow> nat" where
  "tq_len N q = span (unat N) (unat (tq_bottom q)) (unat (age_top (tq_age q)))"

definition tq_ok :: "uint \<Rightarrow> 'a taskqueue \<Rightarrow> bool" where
  "tq_ok N q \<longleftrightarrow> wf_size N \<and> length (tq_elems q) = unat N \<and> unat (tq_bottom q) < unat N \<and>
     unat (age_top (tq_age q)) < unat N \<and> tq_len N q \<le> unat N - 2"

definition tq_tasks :: "uint \<Rightarrow> 'a taskqueue \<Rightarrow> 'a list" where
  "tq_tasks N q = slots (unat N) (tq_elems q) (unat (age_top (tq_age q))) (tq_len N q)"

lemma tq_okD:
  assumes "tq_ok N q"
  shows "wf_size N" "length (tq_elems q) = unat N" "unat (tq_bottom q) < unat N"
    "unat (age_top (tq_age q)) < unat N" "tq_len N q \<le> unat N - 2" "4 \<le> unat N"
    "unat (dirty_size N (tq_bottom q) (age_top (tq_age q))) = tq_len N q"
  using assms wf_size_ge unat_dirty_size[of N "tq_bottom q" "age_top (tq_age q)"] by (auto simp: tq_ok_def tq_len_def)

lemma uint_eqI: "unat a = unat b \<Longrightarrow> a = (b :: uint)"
  by (simp add: word_unat_eq_iff)

lemmas index_nat = unat_increment_index unat_decrement_index unat_dirty_size unat_size_bounds

lemma clean_size_zero:
  assumes "wf_size N" "unat b < unat N" "unat t < unat N"
  shows "clean_size N b t = 0 \<longleftrightarrow> span (unat N) (unat b) (unat t) \<in> {0, unat N - 1}"
  using assms index_nat
  by (auto simp: clean_size_def Let_def word_unat_eq_iff)

lemma tq_len_empty: "tq_ok N q \<Longrightarrow> tq_tasks N q = [] \<longleftrightarrow> tq_len N q = 0"
  by (simp add: tq_tasks_def)

lemma tq_bottom_index:
  assumes "tq_ok N q"
  shows "unat (tq_bottom q) = (unat (age_top (tq_age q)) + tq_len N q) mod unat N"
  using span_index[of "unat (tq_bottom q)" "unat N" "unat (age_top (tq_age q))"] tq_okD[OF assms]
  by (simp add: tq_len_def)

lemma store_and_bump_ok:
  assumes "tq_ok N q" "tq_len N q < unat N - 2"
  shows "\<exists>q'. store_and_bump N t q (tq_bottom q) = Inr (True, q') \<and> tq_ok N q' \<and>
    tq_tasks N q' = tq_tasks N q @ [t]"
proof -
  note o = tq_okD[OF assms(1)]
  let ?q = "q\<lparr>tq_elems := (tq_elems q)[unat (tq_bottom q) := t], tq_bottom := increment_index N (tq_bottom q),
     tq_stats := record_push (tq_stats q)\<rparr>"
  have l: "tq_len N ?q = tq_len N q + 1" "unat (increment_index N (tq_bottom q)) < unat N"
    using span_facts(3,7)[OF o(3,4)] o assms(2) by (simp_all add: tq_len_def unat_increment_index)
  then have "tq_ok N ?q" using o assms(2) by (simp add: tq_ok_def)
  moreover have "tq_tasks N ?q = tq_tasks N q @ [t]"
    using slots_write[of "tq_len N q" "unat N" "tq_elems q"] tq_bottom_index[OF assms(1)] o assms(2) l
    by (simp add: tq_tasks_def)
  ultimately show ?thesis using o by (intro exI[of _ ?q]) (simp add: store_and_bump_def put_elem_def)
qed

lemma tq_push_room:
  assumes "tq_ok N q" "length (tq_tasks N q) < unat N - 2"
  shows "\<exists>q'. tq_push N t q = Inr (True, q') \<and> tq_ok N q' \<and> tq_tasks N q' = tq_tasks N q @ [t]"
  using store_and_bump_ok[OF assms(1)] assms(2) tq_okD[OF assms(1)] index_nat
  by (simp add: tq_push_def Let_def word_less_nat_alt tq_tasks_def)

lemma tq_push_full:
  assumes "tq_ok N q" "length (tq_tasks N q) = unat N - 2"
  shows "tq_push N t q = Inr (False, q)"
proof -
  have "unat N - 2 \<noteq> unat N - Suc 0" using tq_okD(6)[OF assms(1)] by linarith
  then show ?thesis using assms(2) tq_okD[OF assms(1)] index_nat
    by (simp add: tq_push_def Let_def word_less_nat_alt tq_tasks_def push_slow_def word_unat_eq_iff)
qed

lemma pop_local_none:
  assumes "tq_ok N q" "tq_tasks N q = []"
  shows "pop_local N q = Inr (None, q)"
  using assms(2) tq_okD[OF assms(1)] index_nat
  by (simp add: pop_local_def Let_def tq_tasks_def word_unat_eq_iff)

lemma pop_global_none:
  assumes "tq_ok N q" "tq_tasks N q = []"
  shows "pop_global N q = Inr (None, q)"
  using assms(2) tq_okD[OF assms(1)] clean_size_zero[of N "tq_bottom q" "age_top (tq_age q)"]
  by (simp add: pop_global_def Let_def tq_tasks_def tq_len_def)

lemma check_not_wrapped_ok:
  assumes "wf_size N" "unat b < unat N" "unat t < unat N" "span (unat N) (unat b) (unat t) < unat N - 1"
  shows "check_not_wrapped N b t r = Inr r"
  using assms index_nat by (simp add: check_not_wrapped_def word_unat_eq_iff)

lemma pop_local_some:
  assumes "tq_ok N q" "tq_tasks N q = xs @ [x]"
  shows "\<exists>q'. pop_local N q = Inr (Some x, q') \<and> tq_ok N q' \<and> tq_tasks N q' = xs"
proof -
  note o = tq_okD[OF assms(1)]
  let ?n = "unat N" and ?t = "unat (age_top (tq_age q))" and ?b = "decrement_index N (tq_bottom q)"
  have l: "0 < tq_len N q" using assms(2) tq_len_empty[OF assms(1)] by auto
  have b: "unat ?b < ?n" "unat ?b = (?t + tq_len N q - 1) mod ?n" "span ?n (unat ?b) ?t = tq_len N q - 1"
    using span_facts[OF o(3,4)] l o by (simp_all add: unat_decrement_index tq_len_def)
  have x: "tq_elems q ! unat ?b = x" "xs = slots ?n (tq_elems q) ?t (tq_len N q - 1)"
    using assms(2) slots_snoc[OF l, of ?n "tq_elems q" ?t] b(2) by (simp_all add: tq_tasks_def)
  have d: "dirty_size N (tq_bottom q) (age_top (tq_age q)) \<noteq> N - 1" "dirty_size N (tq_bottom q) (age_top (tq_age q)) \<noteq> 0"
    using o l index_nat(4) by (auto simp: word_unat_eq_iff)
  have g: "get_elem (q\<lparr>tq_bottom := ?b\<rparr>) ?b = Inr x" using b(1) o x(1) by (simp add: get_elem_def)
  show ?thesis
  proof (cases "tq_len N q = 1")
    case True
    then have e: "unat ?b = ?t" using b span_facts(2)[OF b(1) o(4)] by simp
    then have "?b = age_top (tq_age q)" by (rule uint_eqI)
    moreover have "clean_size N ?b (age_top (tq_age q)) = 0"
      using clean_size_zero[OF o(1) b(1) o(4)] b(3) True by simp
    moreover have "check_not_wrapped N ?b ?b r = Inr r" for r :: "'a option \<times> 'a taskqueue"
      using check_not_wrapped_ok[OF o(1) b(1) b(1)] o(6) by (simp add: span_def)
    ultimately show ?thesis using d g b(1) o True x(2)
      by (simp add: pop_local_def Let_def pop_local_slow_def tq_ok_def tq_tasks_def tq_len_def slots_def span_def)
  next
    case False
    then have "0 < clean_size N ?b (age_top (tq_age q))"
      using clean_size_zero[OF o(1) b(1) o(4)] b(3) o(5,6) l by (simp add: word_neq_0_conv[symmetric])
    moreover have "check_not_wrapped N ?b (age_top (tq_age q)) r = Inr r" for r :: "'a option \<times> 'a taskqueue"
      by (rule check_not_wrapped_ok[OF o(1) b(1) o(4)]) (use b(3) o(5,6) in linarith)
    ultimately show ?thesis using d g b o x(2)
      by (simp add: pop_local_def Let_def tq_ok_def tq_tasks_def tq_len_def)
  qed
qed

lemma age_top_increment [simp]: "age_top (age_increment N a) = increment_index N (age_top a)"
  by (simp add: age_increment_def Let_def)

lemma pop_global_some:
  assumes "tq_ok N q" "tq_tasks N q = x # xs"
  shows "\<exists>q'. pop_global N q = Inr (Some x, q') \<and> tq_ok N q' \<and> tq_tasks N q' = xs"
proof -
  note o = tq_okD[OF assms(1)]
  let ?n = "unat N" and ?b = "unat (tq_bottom q)" and ?t = "unat (age_top (tq_age q))"
  have l: "0 < tq_len N q" using assms(2) tq_len_empty[OF assms(1)] by auto
  let ?a = "age_top (age_increment N (tq_age q))"
  have t: "unat ?a < ?n" "span ?n ?b (unat ?a) = tq_len N q - 1" "unat ?a = next_idx ?n ?t"
    using span_facts(3)[OF o(4,4)] span_facts(8)[OF o(3,4)] l o by (simp_all add: unat_increment_index tq_len_def)
  have x: "tq_elems q ! ?t = x" "xs = slots ?n (tq_elems q) (unat ?a) (tq_len N q - 1)"
    using assms(2) slots_Cons[OF l o(4), of "tq_elems q"] t(3) by (simp_all add: tq_tasks_def)
  have "clean_size N (tq_bottom q) (age_top (tq_age q)) \<noteq> 0"
    using clean_size_zero[OF o(1,3,4)] o l by (simp add: tq_len_def)
  moreover have "check_not_wrapped N (tq_bottom q) ?a r = Inr r" for r :: "'a option \<times> 'a taskqueue"
    by (rule check_not_wrapped_ok[OF o(1,3) t(1)]) (use t(2) o(5,6) in linarith)
  ultimately show ?thesis using t o x
    by (simp add: pop_global_def get_elem_def Let_def tq_ok_def tq_tasks_def tq_len_def)
qed

interpretation tq: bounded_deque "tq_ok N" "tq_tasks N" "unat N - 2" "tq_push N" "pop_local N" "pop_global N"
  for N :: uint
proof unfold_locales
  fix q :: "'a taskqueue"
  assume "tq_ok N q"
  then show "length (tq_tasks N q) \<le> unat N - 2" using tq_okD(5) by (simp add: tq_tasks_def)
qed (simp_all add: tq_push_room tq_push_full pop_local_none pop_local_some pop_global_none pop_global_some)

lemma new_taskqueue_ok:
  assumes "wf_size N"
  shows "tq_ok N (tq_initialize N junk new_taskqueue)" "tq_tasks N (tq_initialize N junk new_taskqueue) = []"
  using wf_size_ge[OF assms] assms
  by (simp_all add: tq_ok_def tq_initialize_def new_taskqueue_def tq_len_def tq_tasks_def span_def age_top_def slots_def)

text \<open>
  C10: Any sequence of pushes, local pops and steals on a new queue answers what a
  list of at most \<open>N - 2\<close> tasks answers, the owner working at its end and the thief at
  its front: a push is refused exactly when the list is full, a pop fails exactly when it
  is empty, no assertion fails, and the slots from \<open>_top\<close> to \<open>_bottom\<close> are the list.
\<close>

theorem taskqueue_refines_list:
  assumes "wf_size N"
  shows "\<exists>q'. run_ops (tq_push N) (pop_local N) (pop_global N) cs (tq_initialize N junk new_taskqueue) =
      Inr (fst (spec_ops (unat N - 2) cs []), q') \<and> tq_ok N q' \<and> tq_tasks N q' = snd (spec_ops (unat N - 2) cs [])"
  using tq.run_ops_spec[OF new_taskqueue_ok(1)[OF assms, of junk], of cs] new_taskqueue_ok(2)[OF assms, of junk]
  by simp

theorem taskqueue_refines_list_witness:
  "\<exists>q'. run_ops (tq_push 4) (pop_local 4) (pop_global 4)
      [Push ''a'', Push ''b'', Push ''c'', PopGlobal, Push ''d'', PopLocal, PopLocal, PopLocal]
      (tq_initialize 4 (\<lambda>_. ''junk'') new_taskqueue) =
    Inr ([Pushed True, Pushed True, Pushed False, Popped (Some ''a''), Pushed True, Popped (Some ''d''),
          Popped (Some ''b''), Popped None], q')"
proof -
  have "wf_size 4" unfolding wf_size_def by (rule exI[of _ 2]) simp
  from taskqueue_refines_list[OF this, of "[Push ''a'', Push ''b'', Push ''c'', PopGlobal, Push ''d'', PopLocal,
      PopLocal, PopLocal]" "\<lambda>_. ''junk''"]
  show ?thesis by auto
qed

end
