(* ===== verification/TaskQueueMT.thy ===== *)
theory TaskQueueMT
  imports TaskDeques "HOL-Library.Multiset"
begin

text \<open>
  The task queue under concurrency: the owner pushes and pops, any number of thieves
  steal.  Every access of \<open>push\<close>, \<open>pop_local\<close>, \<open>pop_local_slow\<close> and
  \<open>pop_global\<close> to \<open>_bottom\<close>, \<open>_age\<close> and \<open>_elems\<close> is one step, and steps of
  different threads interleave freely; the fences of the source give the order of the
  accesses of a thread.  A program counter holds the local variables that are live.
\<close>

section \<open>Accesses of the owner and of a thief\<close>

datatype 'a owner_pc =
    OIdle
  | PushRead 'a
  | PushTop 'a uint
  | PushStore 'a uint
  | PushBump 'a uint
  | PopRead
  | PopTop uint
  | PopStore uint
  | PopElem uint
  | PopCheck uint 'a
  | PopAge uint 'a
  | PopCas uint 'a age
  | PopSet uint age
  | PopAssert uint bool
  | OFault fault

datatype 'a thief_pc =
    TIdle
  | StealBottom age
  | StealElem age uint
  | StealCas age uint 'a
  | TFault fault

text \<open>The calls that returned, in the order in which they took effect.\<close>

datatype 'a ws_event =
    DidPush 'a
  | WasFull
  | OwnerTook 'a
  | WasEmpty
  | Stolen nat 'a

fun owner_access :: "uint \<Rightarrow> 'a owner_pc \<Rightarrow> 'a taskqueue \<Rightarrow> 'a owner_pc \<times> 'a taskqueue \<times> 'a ws_event list" where
  "owner_access N OIdle q = (OIdle, q, [])"
| "owner_access N (PushRead x) q =
     (if \<not> tq_bottom q < N then (OFault (AssertFailed ''_bottom out of range.''), q, [])
      else (PushTop x (tq_bottom q), q, []))"
| "owner_access N (PushTop x localBot) q =
     (let dirty_n_elems = dirty_size N localBot (age_top (tq_age q))
      in if \<not> dirty_n_elems < N then (OFault (AssertFailed ''n_elems out of range.''), q, [])
         else if dirty_n_elems < max_elems N then (PushStore x localBot, q, [])
         else if dirty_n_elems = N - 1 then (PushStore x (tq_bottom q), q, [])
         else (OIdle, q, [WasFull]))"
| "owner_access N (PushStore x localBot) q =
     (case put_elem q localBot x of Inl e \<Rightarrow> (OFault e, q, []) | Inr q' \<Rightarrow> (PushBump x localBot, q', []))"
| "owner_access N (PushBump x localBot) q =
     (OIdle, q\<lparr>tq_bottom := increment_index N localBot, tq_stats := record_push (tq_stats q)\<rparr>, [DidPush x])"
| "owner_access N PopRead q = (PopTop (tq_bottom q), q, [])"
| "owner_access N (PopTop localBot) q =
     (let dirty_n_elems = dirty_size N localBot (age_top (tq_age q))
      in if dirty_n_elems = N - 1 then (OFault (AssertFailed ''Shouldn't be possible...''), q, [])
         else if dirty_n_elems = 0 then (OIdle, q, [WasEmpty])
         else (PopStore (decrement_index N localBot), q, []))"
| "owner_access N (PopStore localBot) q = (PopElem localBot, q\<lparr>tq_bottom := localBot\<rparr>, [])"
| "owner_access N (PopElem localBot) q =
     (case get_elem q localBot of Inl e \<Rightarrow> (OFault e, q, []) | Inr t \<Rightarrow> (PopCheck localBot t, q, []))"
| "owner_access N (PopCheck localBot t) q =
     (let tp = age_top (tq_age q)
      in if clean_size N localBot tp > 0
         then (if dirty_size N localBot tp = N - 1 then (OFault (AssertFailed ''sanity''), q, [])
               else (OIdle, q\<lparr>tq_stats := record_pop (tq_stats q)\<rparr>, [OwnerTook t]))
         else (PopAge localBot t, q, []))"
| "owner_access N (PopAge localBot t) q =
     (let oldAge = tq_age q
      in if localBot = age_top oldAge then (PopCas localBot t oldAge, q, [])
         else (PopSet localBot (age_of localBot (age_tag oldAge + 1)), q, []))"
| "owner_access N (PopCas localBot t oldAge) q =
     (let newAge = age_of localBot (age_tag oldAge + 1)
      in if tq_age q = oldAge then (PopAssert localBot True, q\<lparr>tq_age := newAge\<rparr>, [OwnerTook t])
         else (PopSet localBot newAge, q, []))"
| "owner_access N (PopSet localBot newAge) q = (PopAssert localBot False, q\<lparr>tq_age := newAge\<rparr>, [WasEmpty])"
| "owner_access N (PopAssert localBot won) q =
     (if dirty_size N localBot (age_top (tq_age q)) = N - 1 then (OFault (AssertFailed ''sanity''), q, [])
      else (OIdle, if won then q\<lparr>tq_stats := record_pop_slow (tq_stats q)\<rparr> else q, []))"
| "owner_access N (OFault e) q = (OFault e, q, [])"

fun thief_access :: "uint \<Rightarrow> nat \<Rightarrow> 'a thief_pc \<Rightarrow> 'a taskqueue \<Rightarrow> 'a thief_pc \<times> 'a taskqueue \<times> 'a ws_event list" where
  "thief_access N i TIdle q = (StealBottom (tq_age q), q, [])"
| "thief_access N i (StealBottom oldAge) q =
     (if clean_size N (tq_bottom q) (age_top oldAge) = 0 then (TIdle, q, [])
      else (StealElem oldAge (tq_bottom q), q, []))"
| "thief_access N i (StealElem oldAge localBot) q =
     (case get_elem q (age_top oldAge) of Inl e \<Rightarrow> (TFault e, q, []) | Inr t \<Rightarrow> (StealCas oldAge localBot t, q, []))"
| "thief_access N i (StealCas oldAge localBot t) q =
     (let newAge = age_increment N oldAge;
          pc = (if dirty_size N localBot (age_top newAge) = N - 1 then TFault (AssertFailed ''sanity'') else TIdle)
      in if tq_age q = oldAge then (pc, q\<lparr>tq_age := newAge\<rparr>, [Stolen i t]) else (pc, q, []))"
| "thief_access N i (TFault e) q = (TFault e, q, [])"

record 'a ws_state =
  ws_queue :: "'a taskqueue"
  ws_owner :: "'a owner_pc"
  ws_thief :: "nat \<Rightarrow> 'a thief_pc"
  ws_log :: "'a ws_event list"

inductive ws_step :: "uint \<Rightarrow> 'a ws_state \<Rightarrow> 'a ws_state \<Rightarrow> bool" for N where
  call_push: "ws_owner s = OIdle \<Longrightarrow> ws_step N s (s\<lparr>ws_owner := PushRead x\<rparr>)"
| call_pop: "ws_owner s = OIdle \<Longrightarrow> ws_step N s (s\<lparr>ws_owner := PopRead\<rparr>)"
| owner: "owner_access N (ws_owner s) (ws_queue s) = (pc, q, es) \<Longrightarrow>
    ws_step N s (s\<lparr>ws_queue := q, ws_owner := pc, ws_log := ws_log s @ es\<rparr>)"
| thief: "thief_access N i (ws_thief s i) (ws_queue s) = (pc, q, es) \<Longrightarrow>
    ws_step N s (s\<lparr>ws_queue := q, ws_thief := (ws_thief s)(i := pc), ws_log := ws_log s @ es\<rparr>)"

definition ws_init :: "'a taskqueue \<Rightarrow> 'a ws_state" where
  "ws_init q = \<lparr>ws_queue = q, ws_owner = OIdle, ws_thief = (\<lambda>_. TIdle), ws_log = []\<rparr>"

text \<open>
  A run in which no step is taken while the 32-bit tag has its last value: the queue
  cannot tell an age from the one \<open>2 ^ 32\<close> tags before it.
\<close>

definition ws_run :: "uint \<Rightarrow> 'a ws_state \<Rightarrow> 'a ws_state \<Rightarrow> bool" where
  "ws_run N = (\<lambda>s s'. ws_step N s s' \<and> age_tag (tq_age (ws_queue s)) \<noteq> - 1)\<^sup>*\<^sup>*"

section \<open>The deque the log describes\<close>

fun replay :: "nat \<Rightarrow> 'a ws_event list \<Rightarrow> 'a list \<Rightarrow> 'a list option" where
  "replay cap [] xs = Some xs"
| "replay cap (DidPush x # es) xs = (if length xs < cap then replay cap es (xs @ [x]) else None)"
| "replay cap (WasFull # es) xs = (if length xs = cap then replay cap es xs else None)"
| "replay cap (OwnerTook x # es) xs = (if xs \<noteq> [] \<and> last xs = x then replay cap es (butlast xs) else None)"
| "replay cap (WasEmpty # es) xs = (if xs = [] then replay cap es xs else None)"
| "replay cap (Stolen i x # es) xs = (if xs \<noteq> [] \<and> hd xs = x then replay cap es (tl xs) else None)"

lemma replay_append:
  "replay cap (es @ fs) xs = (case replay cap es xs of None \<Rightarrow> None | Some ys \<Rightarrow> replay cap fs ys)"
  by (induction cap es xs rule: replay.induct) auto

section \<open>The invariant\<close>

text \<open>
  While a pop is undecided the task it may take still counts as queued, although
  \<open>_bottom\<close> has passed it; so the queue ends at the extended bottom.  Ages only grow in
  the order of tag and top, hence a thief whose exchange succeeds has seen no other age
  since it read the queue.
\<close>

fun mid_pop :: "'a owner_pc \<Rightarrow> bool" where
  "mid_pop (PopElem b) \<longleftrightarrow> True"
| "mid_pop (PopCheck b t) \<longleftrightarrow> True"
| "mid_pop (PopAge b t) \<longleftrightarrow> True"
| "mid_pop (PopCas b t a) \<longleftrightarrow> True"
| "mid_pop (PopSet b a) \<longleftrightarrow> True"
| "mid_pop pc \<longleftrightarrow> False"

definition ext_bottom :: "uint \<Rightarrow> 'a owner_pc \<Rightarrow> 'a taskqueue \<Rightarrow> nat" where
  "ext_bottom N pc q = (if mid_pop pc then next_idx (unat N) (unat (tq_bottom q)) else unat (tq_bottom q))"

definition ws_len :: "uint \<Rightarrow> 'a owner_pc \<Rightarrow> 'a taskqueue \<Rightarrow> nat" where
  "ws_len N pc q = span (unat N) (ext_bottom N pc q) (unat (age_top (tq_age q)))"

definition ws_tasks :: "uint \<Rightarrow> 'a owner_pc \<Rightarrow> 'a taskqueue \<Rightarrow> 'a list" where
  "ws_tasks N pc q = slots (unat N) (tq_elems q) (unat (age_top (tq_age q))) (ws_len N pc q)"

definition age_val :: "uint \<Rightarrow> age \<Rightarrow> nat" where
  "age_val N a = unat (age_tag a) * unat N + unat (age_top a)"

definition queue_inv :: "uint \<Rightarrow> 'a owner_pc \<Rightarrow> 'a taskqueue \<Rightarrow> bool" where
  "queue_inv N pc q \<longleftrightarrow> wf_size N \<and> length (tq_elems q) = unat N \<and> unat (tq_bottom q) < unat N \<and>
     unat (age_top (tq_age q)) < unat N \<and> ws_len N pc q \<le> unat N - 2"

fun owner_inv :: "uint \<Rightarrow> 'a owner_pc \<Rightarrow> 'a taskqueue \<Rightarrow> bool" where
  "owner_inv N (PushTop x b) q \<longleftrightarrow> b = tq_bottom q"
| "owner_inv N (PushStore x b) q \<longleftrightarrow> b = tq_bottom q \<and> ws_len N (PushStore x b) q < unat N - 2"
| "owner_inv N (PushBump x b) q \<longleftrightarrow> b = tq_bottom q \<and> ws_len N (PushBump x b) q < unat N - 2 \<and> tq_elems q ! unat b = x"
| "owner_inv N (PopTop b) q \<longleftrightarrow> b = tq_bottom q"
| "owner_inv N (PopStore b) q \<longleftrightarrow> b = decrement_index N (tq_bottom q)"
| "owner_inv N (PopElem b) q \<longleftrightarrow> b = tq_bottom q"
| "owner_inv N (PopCheck b t) q \<longleftrightarrow> b = tq_bottom q \<and> tq_elems q ! unat b = t"
| "owner_inv N (PopAge b t) q \<longleftrightarrow> b = tq_bottom q \<and> tq_elems q ! unat b = t \<and> ws_len N (PopAge b t) q \<le> 1"
| "owner_inv N (PopCas b t a) q \<longleftrightarrow> b = tq_bottom q \<and> tq_elems q ! unat b = t \<and> age_top a = b \<and> age_tag a \<noteq> - 1 \<and>
     (tq_age q = a \<or> tq_age q = age_increment N a)"
| "owner_inv N (PopSet b a) q \<longleftrightarrow> b = tq_bottom q \<and> ws_len N (PopSet b a :: 'a owner_pc) q = 0 \<and> age_top a = b \<and>
     age_val N (tq_age q) < age_val N a"
| "owner_inv N (PopAssert b won) q \<longleftrightarrow> b = tq_bottom q \<and> age_top (tq_age q) = b"
| "owner_inv N (OFault e) q \<longleftrightarrow> False"
| "owner_inv N pc q \<longleftrightarrow> True"

definition steal_seen :: "uint \<Rightarrow> 'a owner_pc \<Rightarrow> 'a taskqueue \<Rightarrow> age \<Rightarrow> bool" where
  "steal_seen N pc q a \<longleftrightarrow> age_val N a \<le> age_val N (tq_age q) \<and> unat (age_top a) < unat N"

definition steal_open :: "uint \<Rightarrow> 'a owner_pc \<Rightarrow> 'a taskqueue \<Rightarrow> age \<Rightarrow> uint \<Rightarrow> bool" where
  "steal_open N pc q a lb \<longleftrightarrow> steal_seen N pc q a \<and> unat lb < unat N \<and> clean_size N lb (age_top a) \<noteq> 0 \<and>
     (a = tq_age q \<longrightarrow> 0 < ws_len N pc q)"

fun thief_inv :: "uint \<Rightarrow> 'a owner_pc \<Rightarrow> 'a taskqueue \<Rightarrow> 'a thief_pc \<Rightarrow> bool" where
  "thief_inv N pc q TIdle \<longleftrightarrow> True"
| "thief_inv N pc q (StealBottom a) \<longleftrightarrow> steal_seen N pc q a"
| "thief_inv N pc q (StealElem a lb) \<longleftrightarrow> steal_open N pc q a lb"
| "thief_inv N pc q (StealCas a lb t) \<longleftrightarrow> steal_open N pc q a lb \<and> (a = tq_age q \<longrightarrow> tq_elems q ! unat (age_top a) = t)"
| "thief_inv N pc q (TFault e) \<longleftrightarrow> False"

text \<open>What a thief relies on: a new age is larger, under the old one the front task stays.\<close>

definition front_kept :: "uint \<Rightarrow> 'a owner_pc \<Rightarrow> 'a taskqueue \<Rightarrow> 'a owner_pc \<Rightarrow> 'a taskqueue \<Rightarrow> bool" where
  "front_kept N pc q pc' q' \<longleftrightarrow> age_val N (tq_age q) < age_val N (tq_age q') \<or>
     tq_age q' = tq_age q \<and> (0 < ws_len N pc q \<longrightarrow> 0 < ws_len N pc' q' \<and>
       tq_elems q' ! unat (age_top (tq_age q)) = tq_elems q ! unat (age_top (tq_age q)))"

lemma thief_inv_kept:
  assumes "front_kept N pc q pc' q'" "thief_inv N pc q tpc"
  shows "thief_inv N pc' q' tpc"
  using assms by (cases tpc) (auto simp: front_kept_def steal_seen_def steal_open_def)

lemma queue_invD:
  assumes "queue_inv N pc q"
  shows "wf_size N" "length (tq_elems q) = unat N" "unat (tq_bottom q) < unat N" "unat (age_top (tq_age q)) < unat N"
    "ws_len N pc q \<le> unat N - 2" "4 \<le> unat N" "ext_bottom N pc q < unat N"
  using assms wf_size_ge span_facts(3)[of "unat (tq_bottom q)" "unat N" 0] by (auto simp: queue_inv_def ext_bottom_def)

lemma ws_len_bottom:
  assumes "queue_inv N pc q"
  shows "\<not> mid_pop pc \<Longrightarrow> unat (dirty_size N (tq_bottom q) (age_top (tq_age q))) = ws_len N pc q"
    "mid_pop pc \<Longrightarrow> unat (dirty_size N (tq_bottom q) (age_top (tq_age q))) =
       (if ws_len N pc q = 0 then unat N - 1 else ws_len N pc q - 1)"
proof -
  note o = queue_invD[OF assms]
  show "\<not> mid_pop pc \<Longrightarrow> unat (dirty_size N (tq_bottom q) (age_top (tq_age q))) = ws_len N pc q"
    using o by (simp add: ws_len_def ext_bottom_def unat_dirty_size)
  show "unat (dirty_size N (tq_bottom q) (age_top (tq_age q))) =
       (if ws_len N pc q = 0 then unat N - 1 else ws_len N pc q - 1)" if "mid_pop pc"
    using span_facts(5)[OF o(3,4)] span_facts(9,10)[OF o(7,4)] o that
    by (simp add: ws_len_def ext_bottom_def unat_dirty_size)
qed

lemma unat_next_tag: "g \<noteq> - 1 \<Longrightarrow> unat (g + 1 :: uint) = unat g + 1"
  using unatSuc[of g] by (metis Suc_eq_plus1 add.commute add_eq_0_iff)

lemma age_val_increment:
  assumes "wf_size N" "unat (age_top a) < unat N" "age_tag a \<noteq> - 1"
  shows "age_val N (age_increment N a) = age_val N a + 1"
proof -
  have "unat (age_tag a + 1) = unat (age_tag a) + 1" by (rule unat_next_tag[OF assms(3)])
  moreover have "increment_index N (age_top a) = 0 \<longleftrightarrow> unat (age_top a) + 1 = unat N"
    using unat_increment_index[OF assms(1,2)] by (auto simp: word_unat_eq_iff next_idx_def)
  ultimately show ?thesis using assms unat_increment_index[OF assms(1,2)]
    by (auto simp: age_increment_def age_val_def Let_def next_idx_def)
qed

lemma age_val_next_tag:
  assumes "age_tag a \<noteq> - 1"
  shows "age_val N (age_of b (age_tag a + 1)) = unat (age_tag a) * unat N + unat N + unat b"
  by (simp add: age_val_def unat_next_tag[OF assms])

section \<open>Steps of the owner\<close>

definition owner_ok :: "uint \<Rightarrow> 'a owner_pc \<Rightarrow> 'a taskqueue \<Rightarrow> 'a owner_pc \<Rightarrow> 'a taskqueue \<Rightarrow> 'a ws_event list \<Rightarrow> bool" where
  "owner_ok N pc q pc' q' es \<longleftrightarrow> queue_inv N pc' q' \<and> owner_inv N pc' q' \<and> front_kept N pc q pc' q' \<and>
     replay (unat N - 2) es (ws_tasks N pc q) = Some (ws_tasks N pc' q')"

lemma ws_len_same:
  assumes "tq_bottom q' = tq_bottom q" "tq_age q' = tq_age q" "mid_pop pc' = mid_pop pc"
  shows "ws_len N pc' q' = ws_len N pc q"
  using assms by (simp add: ws_len_def ext_bottom_def)

lemma owner_ok_local:
  assumes "queue_inv N pc q" "mid_pop pc' = mid_pop pc" "owner_inv N pc' q'"
    "tq_bottom q' = tq_bottom q" "tq_age q' = tq_age q" "tq_elems q' = tq_elems q"
    "replay (unat N - 2) es (ws_tasks N pc q) = Some (ws_tasks N pc q)"
  shows "owner_ok N pc q pc' q' es"
  using assms ws_len_same[OF assms(4,5,2), of N]
  by (simp add: owner_ok_def queue_inv_def front_kept_def ws_tasks_def)

lemma push_top_ok:
  assumes i: "queue_inv N (PushTop x b) q" "owner_inv N (PushTop x b) q"
    and s: "owner_access N (PushTop x b) q = (pc', q', es)"
  shows "owner_ok N (PushTop x b) q pc' q' es"
proof -
  let ?l = "ws_len N (PushTop x b) q"
  note o = queue_invD[OF i(1)]
  have d: "unat (dirty_size N b (age_top (tq_age q))) = ?l" using ws_len_bottom(1)[OF i(1)] i(2) by simp
  have l: "ws_len N pc q = ?l" if "\<not> mid_pop pc" for pc using ws_len_same[of q q pc "PushTop x b" N] that by simp
  consider "?l < unat N - 2" "pc' = PushStore x b" "q' = q" "es = []" | "?l = unat N - 2" "pc' = OIdle" "q' = q" "es = [WasFull]"
    using s d o index_nat(4,5)[OF o(1)]
    by (auto simp: Let_def word_less_nat_alt word_unat_eq_iff split: if_splits)
  then show ?thesis
  proof cases
    case 1
    then show ?thesis using i(2) l[of "PushStore x b"] by (intro owner_ok_local[OF i(1)]) auto
  next
    case 2
    then show ?thesis by (intro owner_ok_local[OF i(1)]) (auto simp: ws_tasks_def)
  qed
qed

lemma ext_bottom_slot:
  assumes "queue_inv N pc q"
  shows "ext_bottom N pc q = (unat (age_top (tq_age q)) + ws_len N pc q) mod unat N"
  using span_index[OF queue_invD(7)[OF assms] queue_invD(4)[OF assms]] by (simp add: ws_len_def)

lemma push_store_ok:
  assumes i: "queue_inv N (PushStore x b) q" "owner_inv N (PushStore x b) q"
    and s: "owner_access N (PushStore x b) q = (pc', q', es)"
  shows "owner_ok N (PushStore x b) q pc' q' es"
proof -
  let ?l = "ws_len N (PushStore x b) q" and ?t = "unat (age_top (tq_age q))"
  note o = queue_invD[OF i(1)]
  have e: "pc' = PushBump x b" "q' = q\<lparr>tq_elems := (tq_elems q)[unat b := x]\<rparr>" "es = []"
    using s i(2) o by (auto simp: put_elem_def)
  have l: "ws_len N (PushBump x b) q' = ?l" by (rule ws_len_same) (simp_all add: e)
  have b: "unat b = (?t + ?l) mod unat N" using ext_bottom_slot[OF i(1)] i(2) by (simp add: ext_bottom_def)
  have t: "?t \<noteq> unat b" if "0 < ?l"
    using span_facts(2)[OF o(3,4)] i(2) that by (auto simp: ws_len_def ext_bottom_def)
  have "slots (unat N) (tq_elems q') ?t ?l = slots (unat N) (tq_elems q) ?t ?l"
    using slots_update[of ?l "unat N" "tq_elems q" ?t x] b o by (simp add: e)
  then show ?thesis using i o l t e
    by (auto simp: owner_ok_def queue_inv_def front_kept_def ws_tasks_def)
qed

lemma push_bump_ok:
  assumes i: "queue_inv N (PushBump x b) q" "owner_inv N (PushBump x b) q"
    and s: "owner_access N (PushBump x b) q = (pc', q', es)"
  shows "owner_ok N (PushBump x b) q pc' q' es"
proof -
  let ?l = "ws_len N (PushBump x b) q" and ?t = "unat (age_top (tq_age q))"
  note o = queue_invD[OF i(1)]
  have e: "pc' = OIdle" "es = [DidPush x]" "tq_bottom q' = increment_index N b" "tq_age q' = tq_age q"
      "tq_elems q' = tq_elems q"
    using s by auto
  have n: "unat (tq_bottom q') = next_idx (unat N) (unat b)" using e o i(2) by (simp add: unat_increment_index)
  have "span (unat N) (unat (tq_bottom q)) ?t < unat N - 2" using i(2) by (simp add: ws_len_def ext_bottom_def)
  then have l: "ws_len N OIdle q' = ?l + 1"
    using span_facts(7)[OF o(3,4)] i(2) e n by (simp add: ws_len_def ext_bottom_def)
  have "unat b = (?t + ?l) mod unat N" using ext_bottom_slot[OF i(1)] i(2) by (simp add: ext_bottom_def)
  then have "ws_tasks N OIdle q' = ws_tasks N (PushBump x b) q @ [x]"
    using slots_snoc[of "?l + 1" "unat N" "tq_elems q" ?t] i(2) l e by (auto simp: ws_tasks_def)
  moreover have "unat (tq_bottom q') < unat N" using n span_facts(3)[OF o(3,4)] i(2) by simp
  ultimately show ?thesis using i(2) o l e
    by (auto simp: owner_ok_def queue_inv_def front_kept_def ws_tasks_def)
qed

lemma pop_top_ok:
  assumes i: "queue_inv N (PopTop b) q" "owner_inv N (PopTop b) q"
    and s: "owner_access N (PopTop b) q = (pc', q', es)"
  shows "owner_ok N (PopTop b) q pc' q' es"
proof -
  note o = queue_invD[OF i(1)]
  have d: "unat (dirty_size N b (age_top (tq_age q))) = ws_len N (PopTop b) q" using ws_len_bottom(1)[OF i(1)] i(2) by simp
  consider "ws_len N (PopTop b) q = 0" "pc' = OIdle" "q' = q" "es = [WasEmpty]" | "pc' = PopStore (decrement_index N b)" "q' = q" "es = []"
    using s d o index_nat(4)[OF o(1)] by (auto simp: Let_def word_unat_eq_iff split: if_splits)
  then show ?thesis
    using i(2) by cases (intro owner_ok_local[OF i(1)]; simp add: ws_tasks_def slots_def)+
qed

lemma pop_store_ok:
  assumes i: "queue_inv N (PopStore b) q" "owner_inv N (PopStore b) q"
    and s: "owner_access N (PopStore b) q = (pc', q', es)"
  shows "owner_ok N (PopStore b) q pc' q' es"
proof -
  note o = queue_invD[OF i(1)]
  have e: "pc' = PopElem b" "q' = q\<lparr>tq_bottom := b\<rparr>" "es = []" using s by auto
  have b: "unat b = prev_idx (unat N) (unat (tq_bottom q))" using i(2) o by (simp add: unat_decrement_index)
  have "ws_len N pc' q' = ws_len N (PopStore b) q"
    using span_facts(6)[OF o(3,4)] b by (simp add: e ws_len_def ext_bottom_def)
  moreover have "unat b < unat N" using b span_facts(4)[OF o(3,4)] by simp
  ultimately show ?thesis using o e by (simp add: owner_ok_def queue_inv_def front_kept_def ws_tasks_def)
qed

lemma last_slot:
  assumes "queue_inv N pc q" "mid_pop pc" "0 < ws_len N pc q"
  shows "ws_tasks N pc q = slots (unat N) (tq_elems q) (unat (age_top (tq_age q))) (ws_len N pc q - 1) @
    [tq_elems q ! unat (tq_bottom q)]"
proof -
  note o = queue_invD[OF assms(1)]
  have "unat (tq_bottom q) = (unat (age_top (tq_age q)) + ws_len N pc q - 1) mod unat N"
    using span_facts(5)[OF o(3,4)] span_facts(11)[OF o(7,4)] assms(2,3) by (simp add: ws_len_def ext_bottom_def)
  then show ?thesis using slots_snoc[OF assms(3)] by (simp add: ws_tasks_def)
qed

lemma bottom_span:
  assumes "queue_inv N pc q" "mid_pop pc" "0 < ws_len N pc q"
  shows "span (unat N) (unat (tq_bottom q)) (unat (age_top (tq_age q))) = ws_len N pc q - 1"
  using queue_invD[OF assms(1)] ws_len_bottom(2)[OF assms(1,2)] assms(3) by (simp add: unat_dirty_size)

lemma pop_check_ok:
  assumes i: "queue_inv N (PopCheck b t) q" "owner_inv N (PopCheck b t) q"
    and s: "owner_access N (PopCheck b t) q = (pc', q', es)"
  shows "owner_ok N (PopCheck b t) q pc' q' es"
proof -
  let ?l = "ws_len N (PopCheck b t) q"
  note o = queue_invD[OF i(1)]
  have d: "unat (dirty_size N b (age_top (tq_age q))) = (if ?l = 0 then unat N - 1 else ?l - 1)"
    using ws_len_bottom(2)[OF i(1)] i(2) by simp
  have c: "clean_size N b (age_top (tq_age q)) = 0 \<longleftrightarrow> ?l \<le> 1"
    using clean_size_zero[OF o(1,3,4)] d i(2) o by (auto simp: unat_dirty_size)
  show ?thesis
  proof (cases "?l \<le> 1")
    case True
    then have e: "pc' = PopAge b t" "q' = q" "es = []" using s c by (auto simp: Let_def)
    moreover have "ws_len N (PopAge b t) q = ?l" by (rule ws_len_same) simp_all
    ultimately show ?thesis using True i(2) by (intro owner_ok_local[OF i(1)]) auto
  next
    case False
    have "dirty_size N b (age_top (tq_age q)) \<noteq> N - 1" using d False o index_nat(4)[OF o(1)] by auto
    then have e: "pc' = OIdle" "q' = q\<lparr>tq_stats := record_pop (tq_stats q)\<rparr>" "es = [OwnerTook t]"
      using s c False by (auto simp: Let_def word_neq_0_conv)
    have l: "ws_len N OIdle q' = ?l - 1"
      using bottom_span[OF i(1)] False e by (simp add: ws_len_def ext_bottom_def)
    then show ?thesis using last_slot[OF i(1)] False i(2) o e
      by (auto simp: owner_ok_def queue_inv_def front_kept_def ws_tasks_def)
  qed
qed

lemma span_self [simp]: "span n b b = 0"
  by (simp add: span_def)

lemma ws_tasks_Nil: "ws_len N pc q = 0 \<Longrightarrow> ws_tasks N pc q = []"
  by (simp add: ws_tasks_def slots_def)

lemma pop_age_ok:
  assumes i: "queue_inv N (PopAge b t) q" "owner_inv N (PopAge b t) q" and g: "age_tag (tq_age q) \<noteq> - 1"
    and s: "owner_access N (PopAge b t) q = (pc', q', es)"
  shows "owner_ok N (PopAge b t) q pc' q' es"
proof (cases "b = age_top (tq_age q)")
  case True
  then have "pc' = PopCas b t (tq_age q)" "q' = q" "es = []" using s by (auto simp: Let_def)
  then show ?thesis using True i(2) g by (intro owner_ok_local[OF i(1)]) auto
next
  case False
  note o = queue_invD[OF i(1)]
  have e: "pc' = PopSet b (age_of b (age_tag (tq_age q) + 1))" "q' = q" "es = []" using False s by (auto simp: Let_def)
  have "ws_len N (PopAge b t) q = 0"
  proof (rule ccontr)
    assume n: "ws_len N (PopAge b t) q \<noteq> 0"
    then have "span (unat N) (unat b) (unat (age_top (tq_age q))) = 0" using bottom_span[OF i(1)] i(2) by auto
    then show False using False span_facts(2)[OF o(3,4)] i(2) by (simp add: uint_eqI)
  qed
  moreover have "ws_len N pc' q = ws_len N (PopAge b t) q" by (rule ws_len_same) (simp_all add: e)
  moreover have "age_val N (tq_age q) < age_val N (age_of b (age_tag (tq_age q) + 1))"
    using age_val_next_tag[OF g] o(4) by (simp add: age_val_def)
  ultimately show ?thesis using i(2) e by (intro owner_ok_local[OF i(1)]) simp_all
qed

lemma pop_cas_ok:
  assumes i: "queue_inv N (PopCas b t a) q" "owner_inv N (PopCas b t a) q"
    and s: "owner_access N (PopCas b t a) q = (pc', q', es)"
  shows "owner_ok N (PopCas b t a) q pc' q' es"
proof -
  let ?l = "ws_len N (PopCas b t a) q"
  note o = queue_invD[OF i(1)]
  have a: "b = tq_bottom q" "tq_elems q ! unat b = t" "age_top a = b" "age_tag a \<noteq> - 1" using i(2) by auto
  have v: "age_val N a + unat N = age_val N (age_of b (age_tag a + 1))"
    using age_val_next_tag[OF a(4)] a(3) by (simp add: age_val_def)
  show ?thesis
  proof (cases "tq_age q = a")
    case True
    then have e: "pc' = PopAssert b True" "q' = q\<lparr>tq_age := age_of b (age_tag a + 1)\<rparr>" "es = [OwnerTook t]"
      using s by (auto simp: Let_def)
    have "unat (dirty_size N (tq_bottom q) (age_top (tq_age q))) = 0" using True a o by (simp add: unat_dirty_size)
    then have "?l = 1" using ws_len_bottom(2)[OF i(1)] o by (auto split: if_splits)
    then have "ws_tasks N (PopCas b t a) q = [t]" using last_slot[OF i(1)] a(1,2) by (simp add: slots_def)
    moreover have "ws_len N pc' q' = 0" using e a by (simp add: ws_len_def ext_bottom_def)
    ultimately show ?thesis using e a True v o
      by (simp add: owner_ok_def queue_inv_def front_kept_def ws_tasks_Nil)
  next
    case False
    then have e: "pc' = PopSet b (age_of b (age_tag a + 1))" "q' = q" "es = []" using s by (auto simp: Let_def)
    have c: "tq_age q = age_increment N a" using False i(2) by simp
    then have "unat (age_top (tq_age q)) = next_idx (unat N) (unat b)" using a o by (simp add: unat_increment_index)
    then have "ws_len N pc' q = 0" using a e by (simp add: ws_len_def ext_bottom_def)
    moreover have "age_val N (tq_age q) < age_val N a + unat N"
      using age_val_increment[OF o(1) _ a(4)] a(1,3) o c by simp
    ultimately show ?thesis using a e v by (intro owner_ok_local[OF i(1)]) simp_all
  qed
qed

lemma pop_set_ok:
  assumes i: "queue_inv N (PopSet b a) q" "owner_inv N (PopSet b a) q"
    and s: "owner_access N (PopSet b a) q = (pc', q', es)"
  shows "owner_ok N (PopSet b a) q pc' q' es"
proof -
  have e: "pc' = PopAssert b False" "q' = q\<lparr>tq_age := a\<rparr>" "es = [WasEmpty]" using s by auto
  have "ws_len N pc' q' = 0" using e i(2) by (simp add: ws_len_def ext_bottom_def)
  then show ?thesis using e i queue_invD[OF i(1)]
    by (auto simp: owner_ok_def queue_inv_def front_kept_def ws_tasks_Nil)
qed

lemma owner_access_ok:
  assumes i: "queue_inv N pc q" "owner_inv N pc q" and g: "age_tag (tq_age q) \<noteq> - 1"
    and s: "owner_access N pc q = (pc', q', es)"
  shows "owner_ok N pc q pc' q' es"
proof -
  note o = queue_invD[OF i(1)]
  show ?thesis
  proof (cases pc)
    case (PushRead x)
    then have "pc' = PushTop x (tq_bottom q)" "q' = q" "es = []" using s o by (auto simp: word_less_nat_alt)
    then show ?thesis using PushRead by (intro owner_ok_local[OF i(1)]) simp_all
  next
    case (PopElem b)
    then have "pc' = PopCheck b (tq_elems q ! unat b)" "q' = q" "es = []" using s i(2) o by (auto simp: get_elem_def)
    then show ?thesis using PopElem i(2) by (intro owner_ok_local[OF i(1)]) simp_all
  next
    case (PopAssert b won)
    have "dirty_size N b (age_top (tq_age q)) \<noteq> N - 1"
      using i(2) PopAssert o index_nat(4)[OF o(1)] by (auto simp: unat_dirty_size word_unat_eq_iff)
    then have "pc' = OIdle" "q' = (if won then q\<lparr>tq_stats := record_pop_slow (tq_stats q)\<rparr> else q)" "es = []"
      using s PopAssert by (auto simp: Let_def)
    then show ?thesis using PopAssert by (intro owner_ok_local[OF i(1)]) simp_all
  next
    case PopRead
    then show ?thesis using s by (intro owner_ok_local[OF i(1)]) auto
  next
    case OIdle
    then show ?thesis using s by (intro owner_ok_local[OF i(1)]) auto
  next
    case (PushTop x b)
    show ?thesis using push_top_ok[OF i[unfolded PushTop] s[unfolded PushTop]] PushTop by simp
  next
    case (PushStore x b)
    show ?thesis using push_store_ok[OF i[unfolded PushStore] s[unfolded PushStore]] PushStore by simp
  next
    case (PushBump x b)
    show ?thesis using push_bump_ok[OF i[unfolded PushBump] s[unfolded PushBump]] PushBump by simp
  next
    case (PopTop b)
    show ?thesis using pop_top_ok[OF i[unfolded PopTop] s[unfolded PopTop]] PopTop by simp
  next
    case (PopStore b)
    show ?thesis using pop_store_ok[OF i[unfolded PopStore] s[unfolded PopStore]] PopStore by simp
  next
    case (PopCheck b t)
    show ?thesis using pop_check_ok[OF i[unfolded PopCheck] s[unfolded PopCheck]] PopCheck by simp
  next
    case (PopCas b t a)
    show ?thesis using pop_cas_ok[OF i[unfolded PopCas] s[unfolded PopCas]] PopCas by simp
  next
    case (PopSet b a)
    show ?thesis using pop_set_ok[OF i[unfolded PopSet] s[unfolded PopSet]] PopSet by simp
  next
    case (PopAge b t)
    show ?thesis using pop_age_ok[OF i[unfolded PopAge] g s[unfolded PopAge]] PopAge by simp
  qed (use i in simp_all)
qed

section \<open>Steps of a thief\<close>

lemma owner_inv_steal:
  assumes i: "queue_inv N pc q" "owner_inv N pc q" and g: "age_tag (tq_age q) \<noteq> - 1"
    and l: "0 < ws_len N pc q" and q': "q' = q\<lparr>tq_age := age_increment N (tq_age q)\<rparr>"
  shows "owner_inv N pc q'" "queue_inv N pc q'" "ws_len N pc q' = ws_len N pc q - 1"
    "ws_tasks N pc q = tq_elems q ! unat (age_top (tq_age q)) # ws_tasks N pc q'"
    "age_val N (tq_age q') = age_val N (tq_age q) + 1"
proof -
  note o = queue_invD[OF i(1)]
  have t: "unat (age_top (tq_age q')) = next_idx (unat N) (unat (age_top (tq_age q)))"
    using o by (simp add: q' unat_increment_index)
  have x: "ext_bottom N pc q' = ext_bottom N pc q" by (simp add: q' ext_bottom_def)
  show len: "ws_len N pc q' = ws_len N pc q - 1"
    using span_facts(8)[OF o(7,4)] l t x by (simp add: ws_len_def)
  show v: "age_val N (tq_age q') = age_val N (tq_age q) + 1"
    using age_val_increment[OF o(1,4) g] by (simp add: q')
  show "queue_inv N pc q'" using o t len span_facts(3)[OF o(4,4)] by (simp add: queue_inv_def) (simp add: q')
  show "ws_tasks N pc q = tq_elems q ! unat (age_top (tq_age q)) # ws_tasks N pc q'"
    using slots_Cons[OF l o(4), of "tq_elems q"] t len by (simp add: ws_tasks_def) (simp add: q')
  show "owner_inv N pc q'"
  proof (cases pc)
    case (PopCas b t a)
    have "tq_age q = a"
    proof (rule ccontr)
      assume "\<not> ?thesis"
      then have "unat (age_top (tq_age q)) = next_idx (unat N) (unat (tq_bottom q))"
        using i(2) PopCas o by (auto simp: unat_increment_index)
      then show False using l PopCas by (simp add: ws_len_def ext_bottom_def)
    qed
    then show ?thesis using PopCas i(2) q' by auto
  next
    case (PopAssert b w)
    then have "0 < span (unat N) (unat (tq_bottom q)) (unat (age_top (tq_age q)))"
      using l by (simp add: ws_len_def ext_bottom_def)
    then show ?thesis using PopAssert i(2) by auto
  qed (use i(2) l len q' in auto)
qed

definition thief_ok :: "uint \<Rightarrow> 'a owner_pc \<Rightarrow> 'a taskqueue \<Rightarrow> 'a thief_pc \<Rightarrow> 'a taskqueue \<Rightarrow> 'a ws_event list \<Rightarrow> bool" where
  "thief_ok N pc q tpc' q' es \<longleftrightarrow> queue_inv N pc q' \<and> owner_inv N pc q' \<and> front_kept N pc q pc q' \<and>
     thief_inv N pc q' tpc' \<and> replay (unat N - 2) es (ws_tasks N pc q) = Some (ws_tasks N pc q')"

lemma thief_ok_local:
  "queue_inv N pc q \<Longrightarrow> owner_inv N pc q \<Longrightarrow> thief_inv N pc q tpc' \<Longrightarrow> thief_ok N pc q tpc' q []"
  by (simp add: thief_ok_def front_kept_def)

lemma steal_check:
  assumes "wf_size N" "unat lb < unat N" "unat (age_top a) < unat N" "clean_size N lb (age_top a) \<noteq> 0"
  shows "dirty_size N lb (age_top (age_increment N a)) \<noteq> N - 1"
proof -
  let ?d = "span (unat N) (unat lb) (unat (age_top a))"
  have d: "?d \<noteq> 0" using clean_size_zero[OF assms(1,2,3)] assms(4) by simp
  have "unat (increment_index N (age_top a)) < unat N"
    using span_facts(3)[OF assms(3,2)] unat_increment_index[OF assms(1,3)] by simp
  then have "unat (dirty_size N lb (increment_index N (age_top a))) = ?d - 1"
    using span_facts(8)[OF assms(2,3)] d unat_increment_index[OF assms(1,3)] unat_dirty_size[OF assms(1,2)] by simp
  moreover have "?d - 1 < unat N - 1" using span_facts(1)[OF assms(2,3)] d by linarith
  ultimately show ?thesis using index_nat(4)[OF assms(1)] by (auto simp: word_unat_eq_iff)
qed

lemma thief_access_ok:
  assumes i: "queue_inv N pc q" "owner_inv N pc q" "thief_inv N pc q tpc" and g: "age_tag (tq_age q) \<noteq> - 1"
    and s: "thief_access N j tpc q = (tpc', q', es)"
  shows "thief_ok N pc q tpc' q' es"
proof -
  note o = queue_invD[OF i(1)]
  show ?thesis
  proof (cases tpc)
    case TIdle
    then have "tpc' = StealBottom (tq_age q)" "q' = q" "es = []" using s by auto
    then show ?thesis using o by (simp add: thief_ok_local[OF i(1,2)] steal_seen_def)
  next
    case (StealBottom a)
    have "0 < ws_len N pc q" if "clean_size N (tq_bottom q) (age_top (tq_age q)) \<noteq> 0"
      using clean_size_zero[OF o(1,3,4)] ws_len_bottom[OF i(1)] that unat_dirty_size[OF o(1,3,4)]
      by (cases "mid_pop pc") (auto split: if_splits)
    then have "thief_inv N pc q tpc'" "q' = q" "es = []" using StealBottom s i(3) o
      by (auto simp: steal_open_def split: if_splits)
    then show ?thesis by (simp add: thief_ok_local[OF i(1,2)])
  next
    case (StealElem a lb)
    then have "tpc' = StealCas a lb (tq_elems q ! unat (age_top a))" "q' = q" "es = []"
      using s i(3) o by (auto simp: get_elem_def steal_open_def steal_seen_def)
    then show ?thesis using StealElem i(3) by (simp add: thief_ok_local[OF i(1,2)])
  next
    case (StealCas a lb t)
    have n: "dirty_size N lb (age_top (age_increment N a)) \<noteq> N - 1"
      using steal_check[OF o(1), of lb a] StealCas i(3) by (auto simp: steal_open_def steal_seen_def)
    show ?thesis
    proof (cases "tq_age q = a")
      case True
      then have e: "tpc' = TIdle" "q' = q\<lparr>tq_age := age_increment N (tq_age q)\<rparr>" "es = [Stolen j t]"
        using s n StealCas by (auto simp: Let_def)
      have l: "0 < ws_len N pc q" "tq_elems q ! unat (age_top (tq_age q)) = t"
        using StealCas True i(3) by (auto simp: steal_open_def)
      show ?thesis using owner_inv_steal[OF i(1,2) g l(1) e(2)] l(2) e(1,3)
        by (simp add: thief_ok_def front_kept_def)
    next
      case False
      then have "tpc' = TIdle" "q' = q" "es = []" using s n StealCas by (auto simp: Let_def)
      then show ?thesis by (simp add: thief_ok_local[OF i(1,2)])
    qed
  qed (use i(3) in simp)
qed

section \<open>All interleavings\<close>

definition ws_inv :: "uint \<Rightarrow> 'a ws_state \<Rightarrow> bool" where
  "ws_inv N s \<longleftrightarrow> queue_inv N (ws_owner s) (ws_queue s) \<and> owner_inv N (ws_owner s) (ws_queue s) \<and>
     (\<forall>i. thief_inv N (ws_owner s) (ws_queue s) (ws_thief s i)) \<and>
     replay (unat N - 2) (ws_log s) [] = Some (ws_tasks N (ws_owner s) (ws_queue s))"

lemma ws_inv_init:
  assumes "wf_size N"
  shows "ws_inv N (ws_init (tq_initialize N junk new_taskqueue))"
  using new_taskqueue_ok[OF assms, of junk]
  by (simp add: ws_inv_def ws_init_def queue_inv_def ws_len_def ext_bottom_def ws_tasks_def tq_ok_def tq_len_def tq_tasks_def slots_def)

lemma ws_inv_step:
  assumes "ws_step N s s'" "ws_inv N s" "age_tag (tq_age (ws_queue s)) \<noteq> - 1"
  shows "ws_inv N s'"
proof -
  have i: "queue_inv N (ws_owner s) (ws_queue s)" "owner_inv N (ws_owner s) (ws_queue s)"
      "\<And>i. thief_inv N (ws_owner s) (ws_queue s) (ws_thief s i)"
      "replay (unat N - 2) (ws_log s) [] = Some (ws_tasks N (ws_owner s) (ws_queue s))"
    using assms(2) by (auto simp: ws_inv_def)
  have k: "thief_inv N pc q (ws_thief s j)" if "front_kept N (ws_owner s) (ws_queue s) pc q" for pc q j
    by (rule thief_inv_kept[OF that i(3)])
  have call: "ws_inv N (s\<lparr>ws_owner := pc\<rparr>)" if "ws_owner s = OIdle" "pc = PushRead x \<or> pc = PopRead" for pc x
  proof -
    have "owner_ok N (ws_owner s) (ws_queue s) pc (ws_queue s) []"
      using that by (intro owner_ok_local[OF i(1)]) auto
    then show ?thesis using i(4) k by (auto simp: ws_inv_def owner_ok_def)
  qed
  from assms(1) show ?thesis
  proof cases
    case (call_push x)
    then show ?thesis using call by simp
  next
    case call_pop
    then show ?thesis using call by simp
  next
    case (owner pc q es)
    then have "owner_ok N (ws_owner s) (ws_queue s) pc q es" by (intro owner_access_ok[OF i(1,2) assms(3)])
    then show ?thesis using owner i(4) k by (auto simp: ws_inv_def owner_ok_def replay_append)
  next
    case (thief j pc q es)
    then have "thief_ok N (ws_owner s) (ws_queue s) pc q es" by (intro thief_access_ok[OF i(1,2,3) assms(3)])
    then show ?thesis using thief i(4) k by (auto simp: ws_inv_def thief_ok_def replay_append)
  qed
qed

lemma ws_inv_run:
  assumes "ws_run N s s'" "ws_inv N s"
  shows "ws_inv N s'"
  using assms(1) unfolding ws_run_def by induction (auto intro: ws_inv_step assms(2))

text \<open>The tasks a log says were pushed, and the ones it says were handed out.\<close>

fun pushes :: "'a ws_event list \<Rightarrow> 'a list" where
  "pushes [] = []"
| "pushes (DidPush x # es) = x # pushes es"
| "pushes (e # es) = pushes es"

fun takes :: "'a ws_event list \<Rightarrow> 'a list" where
  "takes [] = []"
| "takes (OwnerTook x # es) = x # takes es"
| "takes (Stolen i x # es) = x # takes es"
| "takes (e # es) = takes es"

lemma replay_mset:
  "replay cap es xs = Some ys \<Longrightarrow> mset xs + mset (pushes es) = mset (takes es) + mset ys"
proof (induction cap es xs rule: replay.induct)
  case (4 cap x es xs)
  then have "mset xs = add_mset x (mset (butlast xs))"
    by (metis append_butlast_last_id mset.simps(2) mset_append option.distinct(1) replay.simps(4) union_code
        add.commute add_mset_add_single mset_single_iff_right)
  then show ?case using 4 by (auto split: if_splits)
next
  case (6 cap i x es xs)
  then show ?case by (cases xs) (auto split: if_splits)
qed (auto split: if_splits)

text \<open>
  C4: However the steps of the owner and of any number of thieves interleave, as long as the
  tag has not run through its values, the queue is a deque whose operations take effect one
  after the other: the logged calls, replayed on a list of at most \<open>N - 2\<close> tasks,
  all answer as logged and leave the tasks of the array.  So every task pushed is handed out
  once or is still queued, a push is refused only by a full queue, the owner is told the queue
  is empty only when it is, and no assertion fails.
\<close>

theorem stealing_is_linearizable:
  assumes "wf_size N" "ws_run N (ws_init (tq_initialize N junk new_taskqueue)) s"
  shows "replay (unat N - 2) (ws_log s) [] = Some (ws_tasks N (ws_owner s) (ws_queue s)) \<and>
    mset (pushes (ws_log s)) = mset (takes (ws_log s)) + mset (ws_tasks N (ws_owner s) (ws_queue s)) \<and>
    (\<forall>e. ws_owner s \<noteq> OFault e) \<and> (\<forall>i e. ws_thief s i \<noteq> TFault e)"
proof (intro conjI allI)
  have v: "ws_inv N s" by (rule ws_inv_run[OF assms(2) ws_inv_init[OF assms(1)]])
  show r: "replay (unat N - 2) (ws_log s) [] = Some (ws_tasks N (ws_owner s) (ws_queue s))"
    using v by (simp add: ws_inv_def)
  show "mset (pushes (ws_log s)) = mset (takes (ws_log s)) + mset (ws_tasks N (ws_owner s) (ws_queue s))"
    using replay_mset[OF r] by simp
  show "ws_owner s \<noteq> OFault e" for e using v by (auto simp: ws_inv_def)
  have "thief_inv N (ws_owner s) (ws_queue s) (ws_thief s i)" for i using v by (simp add: ws_inv_def)
  then show "ws_thief s i \<noteq> TFault e" for i e by (metis thief_inv.simps(5))
qed

section \<open>A contested task\<close>

text \<open>Runs from schedules, to have concrete ones.\<close>

datatype 'a ws_choice = CallPush 'a | CallPop | OwnerGoes | ThiefGoes nat

fun ws_do :: "uint \<Rightarrow> 'a ws_choice \<Rightarrow> 'a ws_state \<Rightarrow> 'a ws_state" where
  "ws_do N (CallPush x) s = s\<lparr>ws_owner := PushRead x\<rparr>"
| "ws_do N CallPop s = s\<lparr>ws_owner := PopRead\<rparr>"
| "ws_do N OwnerGoes s = (let (pc, q, es) = owner_access N (ws_owner s) (ws_queue s)
     in s\<lparr>ws_queue := q, ws_owner := pc, ws_log := ws_log s @ es\<rparr>)"
| "ws_do N (ThiefGoes i) s = (let (pc, q, es) = thief_access N i (ws_thief s i) (ws_queue s)
     in s\<lparr>ws_queue := q, ws_thief := (ws_thief s)(i := pc), ws_log := ws_log s @ es\<rparr>)"

fun calls :: "'a ws_choice \<Rightarrow> bool" where
  "calls (CallPush x) \<longleftrightarrow> True"
| "calls CallPop \<longleftrightarrow> True"
| "calls c \<longleftrightarrow> False"

fun owner_idle :: "'a owner_pc \<Rightarrow> bool" where
  "owner_idle OIdle \<longleftrightarrow> True"
| "owner_idle pc \<longleftrightarrow> False"

lemma owner_idle_iff: "owner_idle pc \<longleftrightarrow> pc = OIdle"
  by (cases pc) auto

fun ws_exec :: "uint \<Rightarrow> 'a ws_choice list \<Rightarrow> 'a ws_state \<Rightarrow> 'a ws_state option" where
  "ws_exec N [] s = Some s"
| "ws_exec N (c # cs) s =
     (if age_tag (tq_age (ws_queue s)) = - 1 \<or> calls c \<and> \<not> owner_idle (ws_owner s) then None
      else ws_exec N cs (ws_do N c s))"

lemma ws_do_step:
  assumes "calls c \<Longrightarrow> owner_idle (ws_owner s)"
  shows "ws_step N s (ws_do N c s)"
  using assms by (cases c) (auto intro: ws_step.intros simp: owner_idle_iff split: prod.splits)

lemma ws_exec_run: "ws_exec N cs s = Some s' \<Longrightarrow> ws_run N s s'"
proof (induction N cs s rule: ws_exec.induct)
  case (2 N c cs s)
  then have "ws_run N (ws_do N c s) s'" "ws_step N s (ws_do N c s)" "age_tag (tq_age (ws_queue s)) \<noteq> - 1"
    by (auto intro: ws_do_step split: if_splits)
  then show ?case unfolding ws_run_def by (auto intro: converse_rtranclp_into_rtranclp)
qed (simp add: ws_run_def)

definition contest :: "nat ws_choice list" where
  "contest = CallPush 7 # replicate 4 OwnerGoes @ [ThiefGoes 1, ThiefGoes 1, ThiefGoes 1, CallPop] @
     replicate 6 OwnerGoes @ [ThiefGoes 1] @ replicate 3 OwnerGoes"

lemma contest_run:
  "map_option (\<lambda>s. (ws_log s, owner_idle (ws_owner s)))
    (ws_exec 4 contest (ws_init (tq_initialize 4 (\<lambda>_. 0) new_taskqueue))) =
   Some ([DidPush 7, Stolen 1 7, WasEmpty], True)"
  by code_simp

theorem stealing_is_linearizable_witness:
  "\<exists>s :: nat ws_state. ws_run 4 (ws_init (tq_initialize 4 (\<lambda>_. 0) new_taskqueue)) s \<and>
    ws_log s = [DidPush 7, Stolen 1 7, WasEmpty] \<and> ws_tasks 4 (ws_owner s) (ws_queue s) = []"
proof -
  obtain s where s: "ws_exec 4 contest (ws_init (tq_initialize 4 (\<lambda>_. 0) new_taskqueue)) = Some s"
      "ws_log s = [DidPush 7, Stolen 1 7, WasEmpty]"
    using contest_run by auto
  have r: "ws_run 4 (ws_init (tq_initialize 4 (\<lambda>_. 0) new_taskqueue)) s" by (rule ws_exec_run[OF s(1)])
  have "wf_size 4" unfolding wf_size_def by (rule exI[of _ 2]) simp
  from stealing_is_linearizable[OF this r] s(2) r show ?thesis by (intro exI[of _ s]) auto
qed

end
