(* ===== verification/SegStacks.thy ===== *)
theory SegStacks
  imports GlobalDefs "HOL-Library.AList"
begin

text \<open>
  \<open>Stack\<close> of \<open>utilities/stack.hpp\<close>: a stack of elements kept in linked
  segments, with a cache of emptied segments.  The segments are a store from addresses to
  element arrays with a link.  \<open>malloc\<close> stands for the C heap: given the addresses in
  use it returns one that is not; a failed allocation ends the process and has no branch.
  \<open>junk\<close> is what a new array holds and \<open>zapped\<close> what the debug build overwrites
  an unused one with, if \<open>ZapStackSegments\<close> is set.
\<close>

section \<open>State\<close>

record 'a seg =
  seg_elems :: "'a list"
  seg_link :: addr

record 'a stack =
  sk_seg_size :: size_t
  sk_max_size :: size_t
  sk_max_cache_size :: size_t
  sk_cur_seg_size :: size_t
  sk_full_seg_size :: size_t
  sk_cache_size :: size_t
  sk_cur_seg :: addr
  sk_cache :: addr
  sk_store :: "(addr \<times> 'a seg) list"

record 'a stack_env =
  env_malloc :: "addr list \<Rightarrow> addr"
  env_junk :: "nat \<Rightarrow> 'a"
  env_zapped :: "'a option"

definition max_uintx :: nat where
  "max_uintx = size_t_max1 - 1"

definition zap_pattern :: addr where
  "zap_pattern = 0xfadfadedfadfaded"

section \<open>Sizes\<close>

definition default_segment_size :: "size_t \<Rightarrow> size_t" where
  "default_segment_size elem_sz = (4096 - 2 * 8) div elem_sz"

definition adjust_segment_size :: "size_t \<Rightarrow> size_t \<Rightarrow> size_t result" where
  "adjust_segment_size elem_sz seg_size =
     (let ptr_sz = 8
      in if \<not> (elem_sz mod ptr_sz = 0 \<or> ptr_sz mod elem_sz = 0) then Inl (AssertFailed ''bad element size'')
         else if elem_sz < ptr_sz then Inr (nat (align_size_up (int (seg_size * elem_sz)) (int ptr_sz)) div elem_sz)
         else Inr seg_size)"

definition adjust_max_size :: "size_t \<Rightarrow> size_t \<Rightarrow> size_t result" where
  "adjust_max_size max_size seg_size =
     (if seg_size = 0 then Inl (AssertFailed ''cannot be 0'')
      else if \<not> (max_size \<ge> seg_size \<or> max_size = 0) then Inl (AssertFailed ''max_size too small'')
      else let limit = max_uintx - (seg_size - 1);
               max_size = (if max_size = 0 \<or> max_size > limit then limit else max_size)
           in Inr ((max_size + seg_size - 1) div seg_size * seg_size))"

section \<open>Operations\<close>

definition stack_reset :: "bool \<Rightarrow> 'a stack \<Rightarrow> 'a stack" where
  "stack_reset reset_cache s =
     (let s = s\<lparr>sk_cur_seg_size := sk_seg_size s, sk_full_seg_size := 0, sk_cur_seg := NULL\<rparr>
      in if reset_cache then s\<lparr>sk_cache_size := 0, sk_cache := NULL\<rparr> else s)"

definition new_stack :: "size_t \<Rightarrow> size_t \<Rightarrow> size_t \<Rightarrow> size_t \<Rightarrow> 'a stack result" where
  "new_stack elem_sz segment_size max_cache_size max_size =
     bind_result (adjust_segment_size elem_sz segment_size) (\<lambda>seg_size.
     bind_result (adjust_max_size max_size seg_size) (\<lambda>adjusted.
       if adjusted mod seg_size \<noteq> 0 then Inl (AssertFailed ''not a multiple'')
       else Inr (stack_reset True \<lparr>sk_seg_size = seg_size, sk_max_size = adjusted, sk_max_cache_size = max_cache_size,
         sk_cur_seg_size = 0, sk_full_seg_size = 0, sk_cache_size = 0, sk_cur_seg = NULL, sk_cache = NULL,
         sk_store = []\<rparr>)))"

definition stack_is_empty :: "'a stack \<Rightarrow> bool" where
  "stack_is_empty s \<longleftrightarrow> sk_cur_seg s = NULL"

definition stack_is_full :: "'a stack \<Rightarrow> bool" where
  "stack_is_full s \<longleftrightarrow> sk_full_seg_size s \<ge> sk_max_size s"

definition stack_size :: "'a stack \<Rightarrow> size_t" where
  "stack_size s = (if stack_is_empty s then 0 else sk_full_seg_size s + sk_cur_seg_size s)"

definition seg_at :: "'a stack \<Rightarrow> addr \<Rightarrow> 'a seg result" where
  "seg_at s a = (case map_of (sk_store s) a of None \<Rightarrow> Inl NullDeref | Some g \<Rightarrow> Inr g)"

definition put_seg :: "'a stack \<Rightarrow> addr \<Rightarrow> 'a seg \<Rightarrow> 'a stack" where
  "put_seg s a g = s\<lparr>sk_store := AList.update a g (sk_store s)\<rparr>"

definition get_link :: "'a stack \<Rightarrow> addr \<Rightarrow> addr result" where
  "get_link s a = bind_result (seg_at s a) (\<lambda>g. Inr (seg_link g))"

definition set_link :: "'a stack \<Rightarrow> addr \<Rightarrow> addr \<Rightarrow> 'a stack result" where
  "set_link s new_seg old_seg = bind_result (seg_at s new_seg) (\<lambda>g. Inr (put_seg s new_seg (g\<lparr>seg_link := old_seg\<rparr>)))"

definition stack_alloc :: "'a stack_env \<Rightarrow> 'a stack \<Rightarrow> addr \<times> 'a stack" where
  "stack_alloc env s =
     (let a = env_malloc env (map fst (sk_store s))
      in (a, put_seg s a \<lparr>seg_elems = map (env_junk env) [0..<sk_seg_size s], seg_link = zap_pattern\<rparr>))"

definition stack_free :: "'a stack \<Rightarrow> addr \<Rightarrow> 'a stack" where
  "stack_free s a = s\<lparr>sk_store := AList.delete a (sk_store s)\<rparr>"

definition zap_segment :: "'a stack_env \<Rightarrow> 'a stack \<Rightarrow> addr \<Rightarrow> bool \<Rightarrow> 'a stack result" where
  "zap_segment env s a zap_link_field =
     (case env_zapped env of None \<Rightarrow> Inr s
      | Some z \<Rightarrow> bind_result (seg_at s a) (\<lambda>g.
          Inr (put_seg s a \<lparr>seg_elems = map (\<lambda>_. z) (seg_elems g),
            seg_link = (if zap_link_field then zap_pattern else seg_link g)\<rparr>)))"

definition stack_verify :: "bool \<Rightarrow> 'a stack \<Rightarrow> 'a stack result" where
  "stack_verify at_empty_transition s =
     (if \<not> stack_size s \<le> sk_max_size s then Inl (AssertFailed ''stack exceeded bounds'')
      else if \<not> sk_cache_size s \<le> sk_max_cache_size s then Inl (AssertFailed ''cache exceeded bounds'')
      else if \<not> sk_cur_seg_size s \<le> sk_seg_size s then Inl (AssertFailed ''segment index exceeded bounds'')
      else if sk_full_seg_size s mod sk_seg_size s \<noteq> 0 then Inl (AssertFailed ''not a multiple'')
      else if \<not> (at_empty_transition \<or> stack_is_empty s = (stack_size s = 0)) then Inl (AssertFailed ''mismatch'')
      else if (sk_cache s = NULL) \<noteq> (sk_cache_size s = 0) then Inl (AssertFailed ''mismatch'')
      else if stack_is_empty s \<and> sk_cur_seg_size s \<noteq> sk_seg_size s then Inl (AssertFailed ''sanity'')
      else Inr s)"

definition next_segment :: "'a stack_env \<Rightarrow> 'a stack \<Rightarrow> (addr \<times> 'a stack) result" where
  "next_segment env s =
     (if sk_cache_size s > 0
      then bind_result (get_link s (sk_cache s)) (\<lambda>l.
             Inr (sk_cache s, s\<lparr>sk_cache := l, sk_cache_size := sk_cache_size s - 1\<rparr>))
      else let (nxt, s) = stack_alloc env s in bind_result (zap_segment env s nxt True) (\<lambda>s. Inr (nxt, s)))"

definition push_segment :: "'a stack_env \<Rightarrow> 'a stack \<Rightarrow> 'a stack result" where
  "push_segment env s =
     (if sk_cur_seg_size s \<noteq> sk_seg_size s then Inl (AssertFailed ''current segment is not full'')
      else bind_result (next_segment env s) (\<lambda>(nxt, s).
        let at_empty_transition = stack_is_empty s
        in bind_result (set_link s nxt (sk_cur_seg s)) (\<lambda>s.
             stack_verify at_empty_transition
               (s\<lparr>sk_cur_seg := nxt, sk_cur_seg_size := 0,
                  sk_full_seg_size := sk_full_seg_size s + (if at_empty_transition then 0 else sk_seg_size s)\<rparr>))))"

definition retire_segment :: "'a stack_env \<Rightarrow> 'a stack \<Rightarrow> 'a stack result" where
  "retire_segment env s =
     (if sk_cache_size s < sk_max_cache_size s
      then bind_result (zap_segment env s (sk_cur_seg s) False) (\<lambda>s.
           bind_result (set_link s (sk_cur_seg s) (sk_cache s)) (\<lambda>s.
             Inr (s\<lparr>sk_cache := sk_cur_seg s, sk_cache_size := sk_cache_size s + 1\<rparr>)))
      else bind_result (zap_segment env s (sk_cur_seg s) True) (\<lambda>s. Inr (stack_free s (sk_cur_seg s))))"

definition pop_segment :: "'a stack_env \<Rightarrow> 'a stack \<Rightarrow> 'a stack result" where
  "pop_segment env s =
     (if sk_cur_seg_size s \<noteq> 0 then Inl (AssertFailed ''current segment is not empty'')
      else bind_result (get_link s (sk_cur_seg s)) (\<lambda>prev.
      bind_result (retire_segment env s) (\<lambda>s.
        let at_empty_transition = prev = NULL
        in stack_verify at_empty_transition
             (s\<lparr>sk_cur_seg := prev, sk_cur_seg_size := sk_seg_size s,
                sk_full_seg_size := sk_full_seg_size s - (if at_empty_transition then 0 else sk_seg_size s)\<rparr>))))"

definition stack_push :: "'a stack_env \<Rightarrow> 'a \<Rightarrow> 'a stack \<Rightarrow> 'a stack result" where
  "stack_push env item s =
     (if stack_is_full s then Inl (AssertFailed ''pushing onto a full stack'')
      else bind_result (if sk_cur_seg_size s = sk_seg_size s then push_segment env s else Inr s) (\<lambda>s.
           bind_result (seg_at s (sk_cur_seg s)) (\<lambda>g.
             if sk_cur_seg_size s < length (seg_elems g)
             then Inr ((put_seg s (sk_cur_seg s) (g\<lparr>seg_elems := (seg_elems g)[sk_cur_seg_size s := item]\<rparr>))
                        \<lparr>sk_cur_seg_size := sk_cur_seg_size s + 1\<rparr>)
             else Inl OutOfBounds)))"

definition read_below :: "'a stack \<Rightarrow> 'a result" where
  "read_below s = bind_result (seg_at s (sk_cur_seg s)) (\<lambda>g.
     if 0 < sk_cur_seg_size s \<and> sk_cur_seg_size s - 1 < length (seg_elems g)
     then Inr (seg_elems g ! (sk_cur_seg_size s - 1)) else Inl OutOfBounds)"

definition stack_pop :: "'a stack_env \<Rightarrow> 'a stack \<Rightarrow> ('a \<times> 'a stack) result" where
  "stack_pop env s =
     (if stack_is_empty s then Inl (AssertFailed ''popping from an empty stack'')
      else bind_result (read_below s) (\<lambda>tmp.
           let s' = s\<lparr>sk_cur_seg_size := sk_cur_seg_size s - 1\<rparr>
           in if sk_cur_seg_size s = 1 then bind_result (pop_segment env s') (\<lambda>s''. Inr (tmp, s'')) else Inr (tmp, s')))"

text \<open>\<open>free_segments\<close> follows the links until NULL; a cycle would keep it running.\<close>

partial_function (option) free_segments :: "'a stack \<Rightarrow> addr \<Rightarrow> 'a stack result option" where
  "free_segments s a =
     (if a = NULL then Some (Inr s)
      else (case get_link s a of Inl e \<Rightarrow> Some (Inl e) | Inr prev \<Rightarrow> free_segments (stack_free s a) prev))"

definition stack_clear :: "bool \<Rightarrow> 'a stack \<Rightarrow> 'a stack result option" where
  "stack_clear clear_cache s =
     (case free_segments s (sk_cur_seg s) of None \<Rightarrow> None
      | Some r \<Rightarrow> (case r of Inl e \<Rightarrow> Some (Inl e)
        | Inr s \<Rightarrow> (case (if clear_cache then free_segments s (sk_cache s) else Some (Inr s)) of None \<Rightarrow> None
          | Some r \<Rightarrow> (case r of Inl e \<Rightarrow> Some (Inl e) | Inr s \<Rightarrow> Some (Inr (stack_reset clear_cache s))))))"

section \<open>Iterators\<close>

record stack_iter =
  it_cur_seg_size :: size_t
  it_cur_seg :: addr
  it_full_seg_size :: size_t

definition iter_sync :: "'a stack \<Rightarrow> stack_iter" where
  "iter_sync s = \<lparr>it_cur_seg_size = sk_cur_seg_size s, it_cur_seg = sk_cur_seg s, it_full_seg_size = sk_full_seg_size s\<rparr>"

definition iter_is_empty :: "stack_iter \<Rightarrow> bool" where
  "iter_is_empty it \<longleftrightarrow> it_cur_seg it = NULL"

text \<open>The element behind the address \<open>next_addr\<close> returns; the full size wraps in the last segment.\<close>

definition iter_next :: "'a stack \<Rightarrow> stack_iter \<Rightarrow> ('a \<times> stack_iter) result" where
  "iter_next s it =
     (if iter_is_empty it then Inl (AssertFailed ''no items left'')
      else bind_result (seg_at s (it_cur_seg it)) (\<lambda>g.
        if it_cur_seg_size it = 1
        then (if 0 < length (seg_elems g)
              then Inr (seg_elems g ! 0, \<lparr>it_cur_seg_size = sk_seg_size s, it_cur_seg = seg_link g,
                     it_full_seg_size = (it_full_seg_size it + size_t_max1 - sk_seg_size s) mod size_t_max1\<rparr>)
              else Inl OutOfBounds)
        else if 0 < it_cur_seg_size it \<and> it_cur_seg_size it - 1 < length (seg_elems g)
        then Inr (seg_elems g ! (it_cur_seg_size it - 1), it\<lparr>it_cur_seg_size := it_cur_seg_size it - 1\<rparr>)
        else Inl OutOfBounds))"

end
