(* ===== verification/SegStackFacts.thy ===== *)
theory SegStackFacts
  imports SegStacks
begin

text \<open>
  The segmented stack implements a list: the contract of a last-in first-out store,
  and its proof for \<open>Stack\<close>.  The segments of the stack and those of the cache are two
  disjoint chains of links in the store.
\<close>

section \<open>The contract\<close>

datatype 'a lifo_op = Put 'a | Get

fun run_lifo :: "('a \<Rightarrow> 's \<Rightarrow> 's result) \<Rightarrow> ('s \<Rightarrow> ('a \<times> 's) result) \<Rightarrow> 'a lifo_op list \<Rightarrow> 's \<Rightarrow> ('a list \<times> 's) result" where
  "run_lifo push pop [] s = Inr ([], s)"
| "run_lifo push pop (Put x # cs) s = bind_result (push x s) (\<lambda>s. run_lifo push pop cs s)"
| "run_lifo push pop (Get # cs) s = bind_result (pop s) (\<lambda>(x, s).
     bind_result (run_lifo push pop cs s) (\<lambda>(outs, s). Inr (x # outs, s)))"

text \<open>The same on a list that may hold up to \<open>cap\<close> elements; None if a call is not allowed.\<close>

fun list_lifo :: "nat \<Rightarrow> 'a lifo_op list \<Rightarrow> 'a list \<Rightarrow> ('a list \<times> 'a list) option" where
  "list_lifo cap [] vs = Some ([], vs)"
| "list_lifo cap (Put x # cs) vs = (if length vs < cap then list_lifo cap cs (x # vs) else None)"
| "list_lifo cap (Get # cs) [] = None"
| "list_lifo cap (Get # cs) (v # vs) = map_option (\<lambda>(outs, ws). (v # outs, ws)) (list_lifo cap cs vs)"

locale lifo =
  fixes rep :: "'s \<Rightarrow> 'a list \<Rightarrow> bool"
    and cap :: nat
    and push :: "'a \<Rightarrow> 's \<Rightarrow> 's result"
    and pop :: "'s \<Rightarrow> ('a \<times> 's) result"
    and is_empty :: "'s \<Rightarrow> bool"
  assumes push_rep: "rep s vs \<Longrightarrow> length vs < cap \<Longrightarrow> \<exists>s'. push x s = Inr s' \<and> rep s' (x # vs)"
    and pop_rep: "rep s (x # vs) \<Longrightarrow> \<exists>s'. pop s = Inr (x, s') \<and> rep s' vs"
    and empty_rep: "rep s vs \<Longrightarrow> is_empty s \<longleftrightarrow> vs = []"
begin

lemma run_lifo_list:
  assumes "rep s vs" "list_lifo cap cs vs = Some (outs, ws)"
  shows "\<exists>s'. run_lifo push pop cs s = Inr (outs, s') \<and> rep s' ws"
  using assms
proof (induction cs arbitrary: s vs outs)
  case (Cons c cs)
  show ?case
  proof (cases c)
    case (Put x)
    then have l: "length vs < cap" "list_lifo cap cs (x # vs) = Some (outs, ws)" using Cons.prems(2) by (auto split: if_splits)
    then obtain s1 where "push x s = Inr s1" "rep s1 (x # vs)" using push_rep[OF Cons.prems(1)] by blast
    then show ?thesis using Cons.IH[OF _ l(2)] Put by auto
  next
    case Get
    then obtain v vs1 outs1 where v: "vs = v # vs1" "list_lifo cap cs vs1 = Some (outs1, ws)" "outs = v # outs1"
      using Cons.prems(2) by (cases vs) auto
    then obtain s1 where s1: "pop s = Inr (v, s1)" "rep s1 vs1" using pop_rep Cons.prems(1) by blast
    then obtain s2 where "run_lifo push pop cs s1 = Inr (outs1, s2)" "rep s2 ws" using Cons.IH[OF _ v(2)] by blast
    then show ?thesis using Get v(3) s1(1) by simp
  qed
qed simp

end

section \<open>Chains of segments\<close>

fun seg_chain :: "(addr \<rightharpoonup> 'a seg) \<Rightarrow> addr \<Rightarrow> addr list \<Rightarrow> bool" where
  "seg_chain m a [] \<longleftrightarrow> a = NULL"
| "seg_chain m a (x # xs) \<longleftrightarrow> a = x \<and> a \<noteq> NULL \<and> (case m a of None \<Rightarrow> False | Some g \<Rightarrow> seg_chain m (seg_link g) xs)"

fun seg_values :: "(addr \<rightharpoonup> 'a seg) \<Rightarrow> nat \<Rightarrow> nat \<Rightarrow> addr list \<Rightarrow> 'a list" where
  "seg_values m n l [] = []"
| "seg_values m n l (x # xs) = (case m x of None \<Rightarrow> [] | Some g \<Rightarrow> rev (take l (seg_elems g))) @ seg_values m n n xs"

lemma seg_chain_frame:
  "seg_chain m a xs \<Longrightarrow> (\<And>x. x \<in> set xs \<Longrightarrow> m' x = m x) \<Longrightarrow> seg_chain m' a xs"
  by (induction m a xs rule: seg_chain.induct) (auto split: option.splits)

lemma seg_chain_NULL: "seg_chain m a xs \<Longrightarrow> a = NULL \<longleftrightarrow> xs = []"
  by (cases xs) auto

lemma seg_chain_dom: "seg_chain m a xs \<Longrightarrow> x \<in> set xs \<Longrightarrow> m x \<noteq> None"
  by (induction m a xs rule: seg_chain.induct) (auto split: option.splits)

lemma seg_values_frame:
  "(\<And>x. x \<in> set xs \<Longrightarrow> m' x = m x) \<Longrightarrow> seg_values m' n l xs = seg_values m n l xs"
  by (induction m n l xs rule: seg_values.induct) auto

definition stack_core :: "'a stack \<Rightarrow> addr list \<Rightarrow> addr list \<Rightarrow> bool" where
  "stack_core s xs ys \<longleftrightarrow>
     0 < sk_seg_size s \<and> sk_seg_size s dvd sk_max_size s \<and> sk_full_seg_size s \<le> sk_max_size s \<and>
     (\<forall>a g. map_of (sk_store s) a = Some g \<longrightarrow> length (seg_elems g) = sk_seg_size s) \<and>
     distinct (xs @ ys) \<and> seg_chain (map_of (sk_store s)) (sk_cur_seg s) xs \<and>
     seg_chain (map_of (sk_store s)) (sk_cache s) ys \<and>
     length ys = sk_cache_size s \<and> sk_cache_size s \<le> sk_max_cache_size s \<and> sk_cur_seg_size s \<le> sk_seg_size s \<and>
     sk_full_seg_size s = (length xs - 1) * sk_seg_size s \<and> (xs = [] \<longrightarrow> sk_cur_seg_size s = sk_seg_size s)"

definition stack_values :: "'a stack \<Rightarrow> addr list \<Rightarrow> 'a list" where
  "stack_values s xs = seg_values (map_of (sk_store s)) (sk_seg_size s) (sk_cur_seg_size s) xs"

definition stack_rep :: "'a stack \<Rightarrow> 'a list \<Rightarrow> bool" where
  "stack_rep s vs \<longleftrightarrow> (\<exists>xs ys. stack_core s xs ys \<and> 0 < sk_cur_seg_size s \<and> vs = stack_values s xs)"

definition good_malloc :: "'a stack_env \<Rightarrow> bool" where
  "good_malloc env \<longleftrightarrow> (\<forall>used. env_malloc env used \<notin> set used \<and> env_malloc env used \<noteq> NULL)"

lemma stack_coreD:
  assumes "stack_core s xs ys"
  shows "0 < sk_seg_size s" "sk_seg_size s dvd sk_max_size s" "sk_full_seg_size s \<le> sk_max_size s"
    "\<And>a g. map_of (sk_store s) a = Some g \<Longrightarrow> length (seg_elems g) = sk_seg_size s"
    "distinct (xs @ ys)" "seg_chain (map_of (sk_store s)) (sk_cur_seg s) xs"
    "seg_chain (map_of (sk_store s)) (sk_cache s) ys" "length ys = sk_cache_size s" "sk_cache_size s \<le> sk_max_cache_size s"
    "sk_cur_seg_size s \<le> sk_seg_size s" "sk_full_seg_size s = (length xs - 1) * sk_seg_size s"
    "xs = [] \<Longrightarrow> sk_cur_seg_size s = sk_seg_size s" "sk_cur_seg s = NULL \<longleftrightarrow> xs = []" "sk_cache s = NULL \<longleftrightarrow> ys = []"
  using assms unfolding stack_core_def by (auto) (cases xs; auto; fail | cases ys; auto; fail)+

lemma map_of_put_seg [simp]: "map_of (sk_store (put_seg s a g)) = (map_of (sk_store s))(a \<mapsto> g)"
  by (simp add: put_seg_def update_conv')

lemma map_of_stack_free [simp]: "map_of (sk_store (stack_free s a)) = (map_of (sk_store s))(a := None)"
  by (simp add: stack_free_def delete_conv')

lemma put_seg_sel [simp]:
  "sk_seg_size (put_seg s a g) = sk_seg_size s"
  "sk_max_size (put_seg s a g) = sk_max_size s"
  "sk_max_cache_size (put_seg s a g) = sk_max_cache_size s"
  "sk_cur_seg_size (put_seg s a g) = sk_cur_seg_size s"
  "sk_full_seg_size (put_seg s a g) = sk_full_seg_size s"
  "sk_cache_size (put_seg s a g) = sk_cache_size s"
  "sk_cur_seg (put_seg s a g) = sk_cur_seg s"
  "sk_cache (put_seg s a g) = sk_cache s"
  by (simp_all add: put_seg_def)

lemma stack_free_sel [simp]:
  "sk_seg_size (stack_free s a) = sk_seg_size s"
  "sk_max_size (stack_free s a) = sk_max_size s"
  "sk_max_cache_size (stack_free s a) = sk_max_cache_size s"
  "sk_cur_seg_size (stack_free s a) = sk_cur_seg_size s"
  "sk_full_seg_size (stack_free s a) = sk_full_seg_size s"
  "sk_cache_size (stack_free s a) = sk_cache_size s"
  "sk_cur_seg (stack_free s a) = sk_cur_seg s"
  "sk_cache (stack_free s a) = sk_cache s"
  by (simp_all add: stack_free_def)

lemma stack_verify_ok:
  assumes "stack_size s \<le> sk_max_size s" "sk_cache_size s \<le> sk_max_cache_size s" "sk_cur_seg_size s \<le> sk_seg_size s"
    "sk_seg_size s dvd sk_full_seg_size s" "b \<or> (sk_cur_seg s = NULL) = (stack_size s = 0)"
    "(sk_cache s = NULL) = (sk_cache_size s = 0)" "sk_cur_seg s = NULL \<Longrightarrow> sk_cur_seg_size s = sk_seg_size s"
  shows "stack_verify b s = Inr s"
  using assms by (auto simp: stack_verify_def stack_is_empty_def)

section \<open>Taking and retiring a segment\<close>

text \<open>The fields the segment operations leave alone, and the store up to one segment.\<close>

definition same_sizes :: "'a stack \<Rightarrow> 'a stack \<Rightarrow> bool" where
  "same_sizes s s' \<longleftrightarrow> sk_seg_size s' = sk_seg_size s \<and> sk_max_size s' = sk_max_size s \<and>
     sk_max_cache_size s' = sk_max_cache_size s \<and> sk_cur_seg_size s' = sk_cur_seg_size s \<and>
     sk_full_seg_size s' = sk_full_seg_size s \<and> sk_cur_seg s' = sk_cur_seg s"

definition same_but :: "'a stack \<Rightarrow> 'a stack \<Rightarrow> addr \<Rightarrow> bool" where
  "same_but s s' a \<longleftrightarrow> (\<forall>b. b \<noteq> a \<longrightarrow> map_of (sk_store s') b = map_of (sk_store s) b) \<and>
     (\<forall>g. map_of (sk_store s') a = Some g \<longrightarrow> length (seg_elems g) = sk_seg_size s)"

lemma zap_segment_ok:
  assumes "map_of (sk_store s) a = Some g" "length (seg_elems g) = sk_seg_size s"
  shows "\<exists>s' g'. zap_segment env s a b = Inr s' \<and> same_sizes s s' \<and> same_but s s' a \<and> sk_cache s' = sk_cache s \<and>
    sk_cache_size s' = sk_cache_size s \<and> map_of (sk_store s') a = Some g'"
  using assms
  by (cases "env_zapped env") (auto simp: zap_segment_def seg_at_def same_sizes_def same_but_def)

lemma next_segment_ok:
  assumes "stack_core s xs ys" "good_malloc env"
  shows "\<exists>nxt s' ys' g. next_segment env s = Inr (nxt, s') \<and> same_sizes s s' \<and> same_but s s' nxt \<and>
    map_of (sk_store s') nxt = Some g \<and> nxt \<noteq> NULL \<and> distinct (nxt # xs @ ys') \<and> set ys' \<subseteq> set ys \<and>
    seg_chain (map_of (sk_store s')) (sk_cache s') ys' \<and> length ys' = sk_cache_size s' \<and>
    sk_cache_size s' \<le> sk_max_cache_size s'"
proof (cases ys)
  case Nil
  note c = stack_coreD[OF assms(1)]
  define a where "a = env_malloc env (map fst (sk_store s))"
  have "a \<notin> set (map fst (sk_store s))" and n: "a \<noteq> NULL" using assms(2) unfolding good_malloc_def a_def by blast+
  then have a: "map_of (sk_store s) a = None" "a \<noteq> NULL" by (simp_all add: map_of_eq_None_iff)
  have x: "a \<notin> set xs" using c(6) a(1)
    by (auto dest: seg_chain_dom)
  define g where "g = \<lparr>seg_elems = map (env_junk env) [0..<sk_seg_size s], seg_link = zap_pattern\<rparr>"
  let ?s = "put_seg s a g"
  have "same_sizes s ?s" "sk_cache ?s = sk_cache s" "sk_cache_size ?s = sk_cache_size s" "sk_seg_size ?s = sk_seg_size s"
    by (simp_all add: same_sizes_def)
  moreover have "map_of (sk_store ?s) a = Some g" "length (seg_elems g) = sk_seg_size ?s"
    by (simp_all add: g_def)
  from zap_segment_ok[OF this] obtain s' g' where "zap_segment env ?s a True = Inr s'" "same_sizes ?s s'" "same_but ?s s' a"
      "sk_cache s' = sk_cache ?s" "sk_cache_size s' = sk_cache_size ?s" "map_of (sk_store s') a = Some g'"
    by blast
  ultimately show ?thesis using Nil c a x
    by (intro exI[of _ a] exI[of _ s'] exI[of _ "[]"] exI[of _ g'])
       (simp add: next_segment_def stack_alloc_def Let_def a_def[symmetric] g_def[symmetric] same_sizes_def same_but_def)
next
  case (Cons y ys')
  note c = stack_coreD[OF assms(1)]
  then obtain g where "map_of (sk_store s) y = Some g" "sk_cache s = y" "y \<noteq> NULL" "seg_chain (map_of (sk_store s)) (seg_link g) ys'"
    using Cons by (auto split: option.splits)
  then show ?thesis using Cons c
    by (intro exI[of _ y] exI[of _ "s\<lparr>sk_cache := seg_link g, sk_cache_size := sk_cache_size s - 1\<rparr>"] exI[of _ ys'] exI[of _ g])
       (auto simp: next_segment_def get_link_def seg_at_def same_sizes_def same_but_def)
qed

lemma next_multiple:
  assumes "n dvd (m :: nat)" "k * n < m"
  shows "k * n + n \<le> m"
proof -
  obtain j where "m = n * j" using assms(1) by blast
  moreover from this have "k < j" using assms(2) by (simp add: mult.commute)
  ultimately show ?thesis using mult_le_mono1[of "Suc k" j n] by (simp add: mult.commute)
qed

lemma push_segment_ok:
  assumes "stack_core s xs ys" "good_malloc env" "sk_cur_seg_size s = sk_seg_size s" "\<not> stack_is_full s"
  shows "\<exists>s' nxt ys'. push_segment env s = Inr s' \<and> stack_core s' (nxt # xs) ys' \<and> sk_cur_seg_size s' = 0 \<and>
    stack_values s' (nxt # xs) = stack_values s xs \<and> sk_seg_size s' = sk_seg_size s \<and> sk_max_size s' = sk_max_size s"
proof -
  note c = stack_coreD[OF assms(1)]
  obtain nxt s1 ys' g where s1: "next_segment env s = Inr (nxt, s1)" "same_sizes s s1" "same_but s s1 nxt"
      "map_of (sk_store s1) nxt = Some g" "nxt \<noteq> NULL" "distinct (nxt # xs @ ys')"
      "seg_chain (map_of (sk_store s1)) (sk_cache s1) ys'" "length ys' = sk_cache_size s1"
      "sk_cache_size s1 \<le> sk_max_cache_size s1"
    using next_segment_ok[OF assms(1,2)] by blast
  note z = s1(2)[unfolded same_sizes_def] and b = s1(3)[unfolded same_but_def]
  let ?g = "g\<lparr>seg_link := sk_cur_seg s\<rparr>" and ?e = "sk_cur_seg s = NULL"
  let ?s = "(put_seg s1 nxt ?g)\<lparr>sk_cur_seg := nxt, sk_cur_seg_size := 0,
    sk_full_seg_size := sk_full_seg_size s + (if ?e then 0 else sk_seg_size s)\<rparr>"
  have m: "map_of (sk_store ?s) = (map_of (sk_store s1))(nxt \<mapsto> ?g)" by simp
  have f: "map_of (sk_store ?s) a = map_of (sk_store s) a" if "a \<in> set xs" for a using that b s1(6) by (auto simp: m)
  have full: "sk_full_seg_size ?s = length xs * sk_seg_size s" "sk_full_seg_size ?s \<le> sk_max_size s"
    using c(11,13) next_multiple[OF c(2), of "length xs - 1"] assms(4)
    by (auto simp: stack_is_full_def algebra_simps) (cases xs; simp)+
  have "stack_core ?s (nxt # xs) ys'" unfolding stack_core_def
  proof (intro conjI)
    have "seg_chain ((map_of (sk_store s1))(nxt \<mapsto> ?g)) (sk_cur_seg s) xs" using seg_chain_frame[OF c(6) f] unfolding m .
    then show "seg_chain (map_of (sk_store ?s)) (sk_cur_seg ?s) (nxt # xs)" using s1(5) unfolding m by simp
    have "seg_chain ((map_of (sk_store s1))(nxt \<mapsto> ?g)) (sk_cache s1) ys'"
      by (rule seg_chain_frame[OF s1(7)]) (use s1(6) in auto)
    then show "seg_chain (map_of (sk_store ?s)) (sk_cache ?s) ys'" unfolding m by simp
    show "\<forall>a g. map_of (sk_store ?s) a = Some g \<longrightarrow> length (seg_elems g) = sk_seg_size ?s"
      using c(4) b s1(4) z by (auto simp: m)
  qed (use c z s1 full in auto)
  moreover have "seg_values ((map_of (sk_store s1))(nxt \<mapsto> ?g)) n l xs = seg_values (map_of (sk_store s)) n l xs" for n l
    by (rule seg_values_frame) (use f[unfolded m] in blast)
  then have "stack_values ?s (nxt # xs) = stack_values s xs"
    using assms(3) z by (simp add: stack_values_def)
  moreover have "(sk_cache s1 = NULL) = (sk_cache_size s1 = 0)" using seg_chain_NULL[OF s1(7)] s1(8) by auto
  then have "stack_verify (sk_cur_seg s1 = NULL) ?s = Inr ?s"
    using full s1(5,9) z c(1,13) by (intro stack_verify_ok) (simp_all add: stack_size_def stack_is_empty_def)
  moreover have "set_link s1 nxt (sk_cur_seg s1) = Inr (put_seg s1 nxt ?g)"
    using s1(4) z by (simp add: set_link_def seg_at_def)
  ultimately show ?thesis using assms(3) s1(1) z
    by (intro exI[of _ ?s] exI[of _ nxt] exI[of _ ys'])
       (simp add: push_segment_def Let_def stack_is_empty_def cong: if_cong split del: if_split)
qed

lemma stack_push_ok:
  assumes "stack_rep s vs" "good_malloc env" "\<not> stack_is_full s"
  shows "\<exists>s'. stack_push env x s = Inr s' \<and> stack_rep s' (x # vs) \<and> sk_max_size s' = sk_max_size s"
proof -
  obtain xs ys where c: "stack_core s xs ys" "0 < sk_cur_seg_size s" "vs = stack_values s xs"
    using assms(1) by (auto simp: stack_rep_def)
  obtain s1 a xs1 ys1 where s1: "(if sk_cur_seg_size s = sk_seg_size s then push_segment env s else Inr s) = Inr s1"
      "stack_core s1 (a # xs1) ys1" "sk_cur_seg_size s1 < sk_seg_size s1" "vs = stack_values s1 (a # xs1)"
      "sk_max_size s1 = sk_max_size s"
  proof (cases "sk_cur_seg_size s = sk_seg_size s")
    case True
    then show ?thesis using push_segment_ok[OF c(1) assms(2) True assms(3)] c(3) stack_coreD(1)[OF c(1)] that by auto
  next
    case False
    then obtain a xs1 where "xs = a # xs1" using stack_coreD(12)[OF c(1)] by (cases xs) auto
    then show ?thesis using False c stack_coreD(10)[OF c(1)] that[of s a xs1 ys] by auto
  qed
  note d = stack_coreD[OF s1(2)]
  obtain g where g: "map_of (sk_store s1) a = Some g" "sk_cur_seg s1 = a" "a \<noteq> NULL"
      "seg_chain (map_of (sk_store s1)) (seg_link g) xs1"
    using d(6) by (auto split: option.splits)
  let ?l = "sk_cur_seg_size s1" and ?g = "g\<lparr>seg_elems := (seg_elems g)[sk_cur_seg_size s1 := x]\<rparr>"
  let ?s = "(put_seg s1 a ?g)\<lparr>sk_cur_seg_size := ?l + 1\<rparr>"
  have lg: "length (seg_elems g) = sk_seg_size s1" using d(4)[OF g(1)] .
  have v: "seg_values ((map_of (sk_store s1))(a \<mapsto> ?g)) n l xs1 = seg_values (map_of (sk_store s1)) n l xs1" for n l
    by (rule seg_values_frame) (use d(5) in auto)
  have "seg_chain ((map_of (sk_store s1))(a \<mapsto> ?g)) (seg_link g) xs1" by (rule seg_chain_frame[OF g(4)]) (use d(5) in auto)
  moreover have "seg_chain ((map_of (sk_store s1))(a \<mapsto> ?g)) (sk_cache s1) ys1"
    by (rule seg_chain_frame[OF d(7)]) (use d(5) in auto)
  ultimately have "stack_core ?s (a # xs1) ys1" using d g s1(3) lg by (auto simp: stack_core_def)
  moreover have "stack_values ?s (a # xs1) = x # vs"
    using s1(3,4) g(1) lg v by (simp add: stack_values_def take_Suc_conv_app_nth)
  ultimately have "stack_rep ?s (x # vs)" unfolding stack_rep_def by (intro exI[of _ "a # xs1"] exI[of _ ys1]) simp
  then show ?thesis using assms(3) s1 g lg
    by (intro exI[of _ ?s]) (simp add: stack_push_def seg_at_def)
qed

lemma retire_segment_ok:
  assumes "stack_core s (a # xs) ys"
  shows "\<exists>s' ys'. retire_segment env s = Inr s' \<and> same_sizes s s' \<and> same_but s s' a \<and>
    seg_chain (map_of (sk_store s')) (sk_cache s') ys' \<and> length ys' = sk_cache_size s' \<and>
    sk_cache_size s' \<le> sk_max_cache_size s' \<and> distinct (xs @ ys')"
proof -
  note c = stack_coreD[OF assms]
  obtain g where g: "map_of (sk_store s) a = Some g" "sk_cur_seg s = a" "a \<noteq> NULL"
    using c(6) by (auto split: option.splits)
  obtain s1 g1 where z: "zap_segment env s a b = Inr s1" "same_sizes s s1" "same_but s s1 a" "sk_cache s1 = sk_cache s"
      "sk_cache_size s1 = sk_cache_size s" "map_of (sk_store s1) a = Some g1" if "b = (\<not> sk_cache_size s < sk_max_cache_size s)" for b
    using zap_segment_ok[OF g(1) c(4)[OF g(1)]] by (metis (full_types))
  have m: "map_of (sk_store s1) b = map_of (sk_store s) b" if "b \<in> set ys" for b
    using z(3) c(5) that by (auto simp: same_but_def)
  show ?thesis
  proof (cases "sk_cache_size s < sk_max_cache_size s")
    case True
    let ?g = "g1\<lparr>seg_link := sk_cache s\<rparr>"
    let ?s = "(put_seg s1 a ?g)\<lparr>sk_cache := a, sk_cache_size := sk_cache_size s + 1\<rparr>"
    have "seg_chain ((map_of (sk_store s1))(a \<mapsto> ?g)) (sk_cache s) ys"
      by (rule seg_chain_frame[OF c(7)]) (use m c(5) in auto)
    then show ?thesis using True z g c
      by (intro exI[of _ ?s] exI[of _ "a # ys"])
         (auto simp: retire_segment_def set_link_def seg_at_def same_sizes_def same_but_def)
  next
    case False
    have "seg_chain ((map_of (sk_store s1))(a := None)) (sk_cache s) ys"
      by (rule seg_chain_frame[OF c(7)]) (use m c(5) in auto)
    then show ?thesis using False z g c
      by (intro exI[of _ "stack_free s1 a"] exI[of _ ys])
         (auto simp: retire_segment_def same_sizes_def same_but_def)
  qed
qed

lemma pop_segment_ok:
  assumes "stack_core s (a # xs) ys" "sk_cur_seg_size s = 0"
  shows "\<exists>s' ys'. pop_segment env s = Inr s' \<and> stack_core s' xs ys' \<and> sk_cur_seg_size s' = sk_seg_size s' \<and>
    stack_values s' xs = seg_values (map_of (sk_store s)) (sk_seg_size s) (sk_seg_size s) xs \<and>
    sk_max_size s' = sk_max_size s"
proof -
  note c = stack_coreD[OF assms(1)]
  obtain g where g: "map_of (sk_store s) a = Some g" "sk_cur_seg s = a" "seg_chain (map_of (sk_store s)) (seg_link g) xs"
    using c(6) by (auto split: option.splits)
  obtain s1 ys' where s1: "retire_segment env s = Inr s1" "same_sizes s s1" "same_but s s1 a"
      "seg_chain (map_of (sk_store s1)) (sk_cache s1) ys'" "length ys' = sk_cache_size s1"
      "sk_cache_size s1 \<le> sk_max_cache_size s1" "distinct (xs @ ys')"
    using retire_segment_ok[OF assms(1)] by blast
  note z = s1(2)[unfolded same_sizes_def] and b = s1(3)[unfolded same_but_def]
  let ?d = "if seg_link g = NULL then 0 else sk_seg_size s"
  let ?s = "s1\<lparr>sk_cur_seg := seg_link g, sk_cur_seg_size := sk_seg_size s, sk_full_seg_size := sk_full_seg_size s - ?d\<rparr>"
  have f: "map_of (sk_store s1) x = map_of (sk_store s) x" if "x \<in> set xs" for x using b c(5) that by auto
  have e: "seg_link g = NULL \<longleftrightarrow> xs = []" by (rule seg_chain_NULL[OF g(3)])
  have full: "sk_full_seg_size s - ?d = (length xs - 1) * sk_seg_size s" using c(11) e by (cases xs) auto
  have size: "stack_size ?s \<le> sk_max_size s" "stack_size ?s = 0 \<longleftrightarrow> xs = []"
    using full c(1,3,11) e by (cases xs; simp add: stack_size_def stack_is_empty_def)+
  have "seg_chain (map_of (sk_store s1)) (seg_link g) xs" by (rule seg_chain_frame[OF g(3) f])
  moreover have "\<forall>a g. map_of (sk_store s1) a = Some g \<longrightarrow> length (seg_elems g) = sk_seg_size s"
    using b c(4) by metis
  moreover have "sk_full_seg_size s - ?d \<le> sk_max_size s" using c(3) by simp
  ultimately have "stack_core ?s xs ys'" unfolding stack_core_def using c(1,2) z s1(4-7) full by simp
  moreover have "(sk_cache s1 = NULL) = (sk_cache_size s1 = 0)" using seg_chain_NULL[OF s1(4)] s1(5) by auto
  then have "stack_verify (seg_link g = NULL) ?s = Inr ?s"
    using size e full s1(6) z by (intro stack_verify_ok) simp_all
  moreover have "stack_values ?s xs = seg_values (map_of (sk_store s)) (sk_seg_size s) (sk_seg_size s) xs"
    using seg_values_frame[of xs "map_of (sk_store s1)" "map_of (sk_store s)"] f z by (simp add: stack_values_def)
  ultimately show ?thesis using assms(2) s1(1) g z
    by (intro exI[of _ ?s] exI[of _ ys'])
       (simp add: pop_segment_def get_link_def seg_at_def Let_def cong: if_cong split del: if_split)
qed

lemma stack_pop_ok:
  assumes "stack_rep s (x # vs)"
  shows "\<exists>s'. stack_pop env s = Inr (x, s') \<and> stack_rep s' vs \<and> sk_max_size s' = sk_max_size s"
proof -
  obtain xs ys where c: "stack_core s xs ys" "0 < sk_cur_seg_size s" "x # vs = stack_values s xs"
    using assms(1) by (auto simp: stack_rep_def)
  then obtain a xs1 where xs: "xs = a # xs1" by (cases xs) (auto simp: stack_values_def)
  note d = stack_coreD[OF c(1)[unfolded xs]]
  obtain g where g: "map_of (sk_store s) a = Some g" "sk_cur_seg s = a" "a \<noteq> NULL"
    using d(6) by (auto split: option.splits)
  let ?l = "sk_cur_seg_size s" and ?s = "s\<lparr>sk_cur_seg_size := sk_cur_seg_size s - 1\<rparr>"
  have lg: "?l - 1 < length (seg_elems g)" using d(4)[OF g(1)] d(10) c(2) by simp
  have "take ?l (seg_elems g) = take (?l - 1) (seg_elems g) @ [seg_elems g ! (?l - 1)]"
    using take_Suc_conv_app_nth[OF lg] c(2) by simp
  then have v: "x = seg_elems g ! (?l - 1)" "vs = stack_values ?s xs"
    using c(3) g(1) by (simp_all add: stack_values_def xs)
  have core: "stack_core ?s (a # xs1) ys" using c(1) by (auto simp: xs stack_core_def)
  have r: "read_below s = Inr x" using g lg v(1) c(2) by (simp add: read_below_def seg_at_def)
  show ?thesis
  proof (cases "?l = 1")
    case True
    obtain s' ys' where p: "pop_segment env ?s = Inr s'" "stack_core s' xs1 ys'" "sk_cur_seg_size s' = sk_seg_size s'"
        "stack_values s' xs1 = seg_values (map_of (sk_store s)) (sk_seg_size s) (sk_seg_size s) xs1" "sk_max_size s' = sk_max_size s"
      using pop_segment_ok[OF core, of env] True by auto
    moreover from this have "vs = seg_values (map_of (sk_store s)) (sk_seg_size s) (sk_seg_size s) xs1"
      using v(2) True g(1) by (simp add: xs stack_values_def)
    ultimately have "stack_rep s' vs" using p(2,3) stack_coreD(1)[OF p(2)] unfolding stack_rep_def by auto
    then show ?thesis using True r g(2,3) p by (simp add: stack_pop_def stack_is_empty_def)
  next
    case False
    then show ?thesis using core r v(2) g(2,3) c(2)
      by (auto simp: stack_pop_def stack_is_empty_def stack_rep_def xs)
  qed
qed

section \<open>The stack as a list\<close>

lemma length_seg_values:
  assumes "\<And>a g. m a = Some g \<Longrightarrow> length (seg_elems g) = n" "\<And>x. x \<in> set xs \<Longrightarrow> m x \<noteq> None" "l \<le> n"
  shows "length (seg_values m n l xs) = (if xs = [] then 0 else (length xs - 1) * n + l)"
  using assms(2,3)
proof (induction xs arbitrary: l)
  case (Cons x xs)
  then obtain g where "m x = Some g" by fastforce
  moreover have "length (seg_values m n n xs) = (if xs = [] then 0 else (length xs - 1) * n + n)" using Cons by simp
  moreover have "(length xs - 1) * n + n = length xs * n" if "xs \<noteq> []" using that by (cases xs) auto
  ultimately show ?case using assms(1)[of x g] Cons.prems(2) by simp
qed simp

lemma stack_size_rep:
  assumes "stack_rep s vs"
  shows "stack_size s = length vs" "stack_is_empty s \<longleftrightarrow> vs = []" "stack_is_full s \<longleftrightarrow> sk_max_size s < length vs \<or> sk_max_size s = 0"
proof -
  obtain xs ys where c: "stack_core s xs ys" "0 < sk_cur_seg_size s" "vs = stack_values s xs"
    using assms by (auto simp: stack_rep_def)
  note d = stack_coreD[OF c(1)]
  have l: "length vs = (if xs = [] then 0 else (length xs - 1) * sk_seg_size s + sk_cur_seg_size s)"
    unfolding c(3) stack_values_def by (rule length_seg_values) (use d in \<open>auto dest: seg_chain_dom\<close>)
  show "stack_size s = length vs" "stack_is_empty s \<longleftrightarrow> vs = []"
    using l c(2) d(11,13) by (auto simp: stack_size_def stack_is_empty_def)
  have b: "sk_full_seg_size s + sk_cur_seg_size s \<le> sk_max_size s" if "sk_full_seg_size s < sk_max_size s"
    using next_multiple[OF d(2), of "length xs - 1"] d(10,11) that by simp
  show "stack_is_full s \<longleftrightarrow> sk_max_size s < length vs \<or> sk_max_size s = 0"
  proof (cases "xs = []")
    case False
    then have "length vs = sk_full_seg_size s + sk_cur_seg_size s" using l d(11) by simp
    then show ?thesis using b d(3) c(2) unfolding stack_is_full_def by (cases "sk_full_seg_size s < sk_max_size s") auto
  qed (use l d(11) in \<open>auto simp: stack_is_full_def\<close>)
qed

interpretation sk: lifo "\<lambda>s vs. stack_rep s vs \<and> sk_max_size s = m \<and> 0 < m \<and> good_malloc env" "m + 1"
    "stack_push env" "stack_pop env" stack_is_empty for env :: "'a stack_env" and m :: size_t
proof unfold_locales
  fix s x and vs :: "'a list"
  assume "stack_rep s vs \<and> sk_max_size s = m \<and> 0 < m \<and> good_malloc env" "length vs < m + 1"
  then show "\<exists>s'. stack_push env x s = Inr s' \<and> stack_rep s' (x # vs) \<and> sk_max_size s' = m \<and> 0 < m \<and> good_malloc env"
    using stack_push_ok[of s vs env x] stack_size_rep(3)[of s vs] by auto
next
  fix s x and vs :: "'a list"
  assume "stack_rep s (x # vs) \<and> sk_max_size s = m \<and> 0 < m \<and> good_malloc env"
  then show "\<exists>s'. stack_pop env s = Inr (x, s') \<and> stack_rep s' vs \<and> sk_max_size s' = m \<and> 0 < m \<and> good_malloc env"
    using stack_pop_ok[of s x vs env] by auto
next
  fix s and vs :: "'a list"
  assume "stack_rep s vs \<and> sk_max_size s = m \<and> 0 < m \<and> good_malloc env"
  then show "stack_is_empty s = (vs = [])" using stack_size_rep(2) by blast
qed

lemma new_stack_rep:
  assumes "new_stack elem_sz n cache mx = Inr s" "sk_seg_size s < size_t_max1"
  shows "stack_rep s []" "0 < sk_max_size s"
proof -
  obtain k m where k: "adjust_segment_size elem_sz n = Inr k" "adjust_max_size mx k = Inr m" "m mod k = 0"
      "s = stack_reset True \<lparr>sk_seg_size = k, sk_max_size = m, sk_max_cache_size = cache,
         sk_cur_seg_size = 0, sk_full_seg_size = 0, sk_cache_size = 0, sk_cur_seg = NULL, sk_cache = NULL, sk_store = []\<rparr>"
    using assms by (auto simp: new_stack_def split: sum.splits if_splits)
  have p: "0 < k" "m = ((if mx = 0 \<or> mx > max_uintx - (k - 1) then max_uintx - (k - 1) else mx) + k - 1) div k * k"
    using k(2) by (auto simp: adjust_max_size_def Let_def split: if_splits)
  then show "stack_rep s []" using k(3,4)
    by (auto simp: stack_rep_def stack_core_def stack_reset_def Let_def stack_values_def intro!: exI[of _ "[]"])
  let ?M = "if mx = 0 \<or> mx > max_uintx - (k - 1) then max_uintx - (k - 1) else mx"
  have "0 < ?M" using assms(2) k(4) by (auto simp: stack_reset_def Let_def max_uintx_def size_t_max1_def)
  then have "k div k \<le> (?M + k - 1) div k" by (intro div_le_mono) linarith
  then have "0 < m" using p by (simp add: p(2))
  then show "0 < sk_max_size s" using k(4) by (simp add: stack_reset_def Let_def)
qed

text \<open>
  C12: Any sequence of pushes and pops on a new \<open>Stack\<close> that keeps between none and
  \<open>max_size + 1\<close> elements pops what a list would pop, and ends in a stack that holds the
  elements of the list, whatever segments were linked, cached, reused and freed on the way; no
  assertion fails.
\<close>

theorem stack_refines_list:
  assumes "new_stack elem_sz n cache mx = Inr s" "sk_seg_size s < size_t_max1" "good_malloc env"
    "list_lifo (sk_max_size s + 1) cs [] = Some (outs, ws)"
  shows "\<exists>s'. run_lifo (stack_push env) (stack_pop env) cs s = Inr (outs, s') \<and> stack_rep s' ws \<and>
    stack_size s' = length ws \<and> (stack_is_empty s' \<longleftrightarrow> ws = [])"
  using sk.run_lifo_list[OF _ assms(4), of s env] new_stack_rep[OF assms(1,2)] assms(3) stack_size_rep by blast

text \<open>A stack that holds \<open>max_size\<close> elements does not say it is full, and takes one more.\<close>

theorem stack_exceeds_max_size:
  assumes "stack_rep s vs" "length vs = sk_max_size s" "vs \<noteq> []" "good_malloc env"
  shows "\<not> stack_is_full s \<and> (\<exists>s'. stack_push env x s = Inr s' \<and> stack_size s' = sk_max_size s' + 1 \<and> stack_is_full s')"
proof -
  have f: "\<not> stack_is_full s" using stack_size_rep(3)[OF assms(1)] assms(2,3) by auto
  obtain s' where "stack_push env x s = Inr s'" "stack_rep s' (x # vs)" "sk_max_size s' = sk_max_size s"
    using stack_push_ok[OF assms(1,4) f] by blast
  then show ?thesis using f stack_size_rep[of s' "x # vs"] assms(2) by auto
qed

definition sample_stack_env :: "nat stack_env" where
  "sample_stack_env = \<lparr>env_malloc = (\<lambda>used. Suc (sum_list used)), env_junk = (\<lambda>_. 0), env_zapped = Some 99\<rparr>"

lemma sample_malloc: "good_malloc sample_stack_env"
  using member_le_sum_list by (fastforce simp: good_malloc_def sample_stack_env_def)

theorem stack_refines_list_witness:
  "\<exists>s s'. new_stack 8 2 1 4 = Inr s \<and>
    run_lifo (stack_push sample_stack_env) (stack_pop sample_stack_env)
      [Put 1, Put 2, Put 3, Put 4, Put 5, Get, Get, Get, Put 6, Get] s = Inr ([5, 4, 3, 6], s') \<and> stack_rep s' [2, 1]"
proof -
  obtain s :: "nat stack" where s: "new_stack 8 2 1 4 = Inr s" "sk_seg_size s = 2" "sk_max_size s = 4"
    by (simp add: new_stack_def adjust_segment_size_def adjust_max_size_def max_uintx_def size_t_max1_def stack_reset_def Let_def)
  have "list_lifo (sk_max_size s + 1) [Put 1, Put 2, Put 3, Put 4, Put 5, Get, Get, Get, Put 6, Get] [] =
      Some ([5, 4, 3, 6], [2, 1 :: nat])"
    using s(3) by simp
  from stack_refines_list[OF s(1) _ sample_malloc this] s show ?thesis by (auto simp: size_t_max1_def)
qed

section \<open>Clearing and iterating\<close>

lemma free_segments_ok:
  assumes "seg_chain (map_of (sk_store s)) a xs" "distinct xs"
  shows "\<exists>s'. free_segments s a = Some (Inr s') \<and> map_of (sk_store s') = map_of (sk_store s) |` (- set xs) \<and>
    s' = s\<lparr>sk_store := sk_store s'\<rparr>"
  using assms
proof (induction xs arbitrary: s a)
  case Nil
  then show ?case by (simp add: free_segments.simps)
next
  case (Cons x xs)
  then obtain g where g: "a = x" "x \<noteq> NULL" "map_of (sk_store s) x = Some g" "seg_chain (map_of (sk_store s)) (seg_link g) xs"
    by (auto split: option.splits)
  have "seg_chain (map_of (sk_store (stack_free s x))) (seg_link g) xs"
    by (rule seg_chain_frame[OF g(4)]) (use Cons.prems(2) in auto)
  moreover have "distinct xs" using Cons.prems(2) by simp
  ultimately obtain s' where s': "free_segments (stack_free s x) (seg_link g) = Some (Inr s')"
      "map_of (sk_store s') = map_of (sk_store (stack_free s x)) |` (- set xs)" "s' = (stack_free s x)\<lparr>sk_store := sk_store s'\<rparr>"
    using Cons.IH by blast
  have "map_of (sk_store s') = map_of (sk_store s) |` (- set (x # xs))" using s'(2) by (auto simp: restrict_map_def fun_eq_iff)
  moreover have "s' = s\<lparr>sk_store := sk_store s'\<rparr>" using s'(3) by (metis stack.update_convs(9) stack.surjective stack_free_def)
  ultimately show ?case using g s'(1) by (subst free_segments.simps) (auto simp: get_link_def seg_at_def)
qed

lemma stack_clear_ok:
  assumes "stack_core s xs ys" "0 < sk_max_size s"
  shows "\<exists>s'. stack_clear b s = Some (Inr s') \<and> stack_rep s' [] \<and>
    map_of (sk_store s') = map_of (sk_store s) |` (- (set xs \<union> (if b then set ys else {})))"
proof -
  note c = stack_coreD[OF assms(1)]
  obtain s1 where s1: "free_segments s (sk_cur_seg s) = Some (Inr s1)" "map_of (sk_store s1) = map_of (sk_store s) |` (- set xs)"
      "s1 = s\<lparr>sk_store := sk_store s1\<rparr>"
    using free_segments_ok[OF c(6)] c(5) by auto
  have s1f: "sk_seg_size s1 = sk_seg_size s" "sk_max_size s1 = sk_max_size s" "sk_max_cache_size s1 = sk_max_cache_size s"
      "sk_cache_size s1 = sk_cache_size s" "sk_cache s1 = sk_cache s"
    by (subst s1(3); simp)+
  have y: "seg_chain (map_of (sk_store s1)) (sk_cache s1) ys"
    unfolding s1f by (rule seg_chain_frame[OF c(7)]) (use s1(2) c(5) in \<open>auto simp: restrict_map_def\<close>)
  show ?thesis
  proof (cases b)
    case True
    obtain s2 where s2: "free_segments s1 (sk_cache s1) = Some (Inr s2)" "map_of (sk_store s2) = map_of (sk_store s1) |` (- set ys)"
        "s2 = s1\<lparr>sk_store := sk_store s2\<rparr>"
      using free_segments_ok[OF y] c(5) by auto
    have "sk_seg_size s2 = sk_seg_size s" "sk_max_size s2 = sk_max_size s" by (subst s2(3); simp add: s1f)+
    moreover have "map_of (sk_store s2) a = Some g \<Longrightarrow> length (seg_elems g) = sk_seg_size s" for a g
      using s1(2) s2(2) c(4)[of a g] by (auto simp: restrict_map_def split: if_splits)
    ultimately have "stack_rep (stack_reset True s2) []" using c(1,2) unfolding stack_rep_def
      by (intro exI[of _ "[]"]) (auto simp: stack_core_def stack_reset_def Let_def stack_values_def)
    then show ?thesis using True s1(1,2) s2(1,2)
      by (simp add: stack_clear_def stack_reset_def Let_def Un_commute Int_commute)
  next
    case False
    have "map_of (sk_store s1) a = Some g \<Longrightarrow> length (seg_elems g) = sk_seg_size s" for a g
      using s1(2) c(4)[of a g] by (auto simp: restrict_map_def split: if_splits)
    then have "stack_core (stack_reset False s1) [] ys" using c y s1f
      by (auto simp: stack_core_def stack_reset_def Let_def)
    then have "stack_rep (stack_reset False s1) []" using c(1) s1f unfolding stack_rep_def
      by (intro exI[of _ "[]"] exI[of _ ys]) (auto simp: stack_reset_def Let_def stack_values_def)
    then show ?thesis using False s1(1,2) by (simp add: stack_clear_def stack_reset_def Let_def)
  qed
qed

fun iter_take :: "nat \<Rightarrow> 'a stack \<Rightarrow> stack_iter \<Rightarrow> ('a list \<times> stack_iter) result" where
  "iter_take 0 s it = Inr ([], it)"
| "iter_take (Suc k) s it = bind_result (iter_next s it) (\<lambda>(x, it).
     bind_result (iter_take k s it) (\<lambda>(xs, it). Inr (x # xs, it)))"

lemma iter_take_chain:
  assumes "seg_chain (map_of (sk_store s)) (it_cur_seg it) xs" "xs \<noteq> [] \<Longrightarrow> 0 < it_cur_seg_size it" "it_cur_seg_size it \<le> sk_seg_size s"
    "0 < sk_seg_size s" "\<And>a g. map_of (sk_store s) a = Some g \<Longrightarrow> length (seg_elems g) = sk_seg_size s"
    "vs = seg_values (map_of (sk_store s)) (sk_seg_size s) (it_cur_seg_size it) xs"
  shows "\<exists>it'. iter_take (length vs) s it = Inr (vs, it') \<and> iter_is_empty it'"
  using assms(1-3,6)
proof (induction vs arbitrary: it xs)
  case Nil
  have "length (seg_values (map_of (sk_store s)) (sk_seg_size s) (it_cur_seg_size it) xs) =
      (if xs = [] then 0 else (length xs - 1) * sk_seg_size s + it_cur_seg_size it)"
    by (rule length_seg_values[OF assms(5)]) (use seg_chain_dom[OF Nil(1)] Nil(3) in auto)
  then have "xs = []" using Nil(2,4) by (cases "xs = []") auto
  then show ?case using Nil by (simp add: iter_is_empty_def)
next
  case (Cons v vs)
  then obtain x xs1 where xs: "xs = x # xs1" by (cases xs) auto
  obtain g where g: "map_of (sk_store s) x = Some g" "it_cur_seg it = x" "x \<noteq> NULL" "seg_chain (map_of (sk_store s)) (seg_link g) xs1"
    using Cons.prems(1) by (auto simp: xs split: option.splits)
  let ?l = "it_cur_seg_size it"
  have lg: "?l - 1 < length (seg_elems g)" using assms(5)[OF g(1)] Cons.prems(2,3) xs by simp
  have "take ?l (seg_elems g) = take (?l - 1) (seg_elems g) @ [seg_elems g ! (?l - 1)]"
    using take_Suc_conv_app_nth[OF lg] Cons.prems(2) xs by simp
  then have v: "v = seg_elems g ! (?l - 1)"
      "vs = rev (take (?l - 1) (seg_elems g)) @ seg_values (map_of (sk_store s)) (sk_seg_size s) (sk_seg_size s) xs1"
    using Cons.prems(4) g(1) by (simp_all add: xs)
  obtain it1 where it1: "iter_next s it = Inr (v, it1)" "\<exists>it'. iter_take (length vs) s it1 = Inr (vs, it') \<and> iter_is_empty it'"
  proof (cases "?l = 1")
    case True
    let ?it = "\<lparr>it_cur_seg_size = sk_seg_size s, it_cur_seg = seg_link g,
      it_full_seg_size = (it_full_seg_size it + size_t_max1 - sk_seg_size s) mod size_t_max1\<rparr>"
    have "iter_next s it = Inr (v, ?it)"
      using True g lg v(1) by (simp add: iter_next_def iter_is_empty_def seg_at_def)
    moreover have "\<exists>it'. iter_take (length vs) s ?it = Inr (vs, it') \<and> iter_is_empty it'"
      using Cons.IH[of ?it xs1] g(4) assms(4) v(2) True by simp
    ultimately show ?thesis using that by blast
  next
    case False
    let ?it = "it\<lparr>it_cur_seg_size := ?l - 1\<rparr>"
    have "iter_next s it = Inr (v, ?it)"
      using False g lg v(1) Cons.prems(2) xs by (simp add: iter_next_def iter_is_empty_def seg_at_def)
    moreover have "\<exists>it'. iter_take (length vs) s ?it = Inr (vs, it') \<and> iter_is_empty it'"
      by (rule Cons.IH[of ?it xs]) (use Cons.prems(1-3) v(2) g False xs in simp_all)
    ultimately show ?thesis using that by blast
  qed
  then show ?case by auto
qed

text \<open>An iterator visits the elements from the last pushed to the first, and is empty then.\<close>

theorem iter_visits_all:
  assumes "stack_rep s vs"
  shows "\<exists>it'. iter_take (length vs) s (iter_sync s) = Inr (vs, it') \<and> iter_is_empty it'"
proof -
  obtain xs ys where c: "stack_core s xs ys" "0 < sk_cur_seg_size s" "vs = stack_values s xs"
    using assms by (auto simp: stack_rep_def)
  note d = stack_coreD[OF c(1)]
  show ?thesis
    by (rule iter_take_chain[where xs = xs])
       (use c(2,3) d(1,4,6,10) in \<open>simp_all add: iter_sync_def stack_values_def\<close>)
qed

end
