(* ===== verification/RandomSeeds.thy ===== *)
theory RandomSeeds
  imports Prelude "HOL-Library.Signed_Division"
begin

text \<open>
  \<open>randomParkAndMiller\<close> of \<open>utilities/taskqueue.cpp\<close>, the generator with
  which a thief picks its victims.  The C operators \<open>/\<close> and \<open>%\<close> on \<open>int\<close>
  truncate towards zero, as \<open>sdiv\<close> and \<open>smod\<close> do.  The generator multiplies by
  16807 modulo \<open>2 ^ 31 - 1\<close>, and as 16807 has the largest order possible there,
  every seed in range is reached from every other.
\<close>

definition randomParkAndMiller :: "int \<Rightarrow> int" where
  "randomParkAndMiller seed =
     (let a = 16807; m = 2147483647; q = 127773; r = 2836;
          hi = seed sdiv q; lo = seed smod q;
          test = a * lo - r * hi
      in if test > 0 then test else test + m)"

abbreviation (input) pm_mod :: int where
  "pm_mod \<equiv> 2147483647"

section \<open>One step\<close>

lemma schrage:
  fixes seed :: int
  assumes "0 \<le> seed"
  shows "16807 * (seed mod 127773) - 2836 * (seed div 127773) = 16807 * seed - pm_mod * (seed div 127773)"
proof -
  have "seed = 127773 * (seed div 127773) + seed mod 127773" by simp
  then show ?thesis by linarith
qed

lemma schrage_range:
  fixes seed :: int
  assumes "0 \<le> seed" "seed < pm_mod"
  shows "0 \<le> 16807 * (seed mod 127773)" "16807 * (seed mod 127773) < pm_mod" "0 \<le> 2836 * (seed div 127773)"
    "2836 * (seed div 127773) < pm_mod"
  using assms pos_mod_bound[of 127773 seed] pos_mod_sign[of 127773 seed] zdiv_mono1[of seed 2147483646 127773]
  by auto

lemma coprime_multiplier: "coprime (16807 :: int) pm_mod"
  by (simp add: coprime_iff_gcd_eq_1) code_simp

lemma multiple_nonzero:
  assumes "0 < seed" "seed < pm_mod"
  shows "16807 * seed mod pm_mod \<noteq> 0"
proof
  assume "16807 * seed mod pm_mod = 0"
  then have "pm_mod dvd 16807 * seed" by (rule mod_0_imp_dvd)
  then have "pm_mod dvd seed" using coprime_multiplier by (simp add: coprime_commute coprime_dvd_mult_right_iff)
  then show False using assms zdvd_not_zless by blast
qed

lemma parkMiller_step:
  assumes "0 < seed" "seed < pm_mod"
  shows "randomParkAndMiller seed = 16807 * seed mod pm_mod"
proof -
  let ?t = "16807 * (seed mod 127773) - 2836 * (seed div 127773)"
  have e: "randomParkAndMiller seed = (if 0 < ?t then ?t else ?t + pm_mod)"
    using assms by (simp add: randomParkAndMiller_def Let_def signed_divide_int_def signed_modulo_int_def)
  have t: "?t = 16807 * seed - pm_mod * (seed div 127773)" using schrage assms by simp
  have b: "- pm_mod < ?t" "?t < pm_mod" using schrage_range[of seed] assms by linarith+
  have m: "?t mod pm_mod = 16807 * seed mod pm_mod" unfolding t by (simp add: mod_diff_eq[symmetric])
  show ?thesis
  proof (cases "0 < ?t")
    case True
    then show ?thesis using b m e by simp
  next
    case False
    then have "?t + pm_mod = 16807 * seed mod pm_mod"
    proof -
      have "?t \<noteq> 0" using m multiple_nonzero[OF assms] by auto
      then have "(?t + pm_mod) mod pm_mod = ?t + pm_mod" using b False by (intro mod_pos_pos_trivial) linarith+
      then show ?thesis using m by simp
    qed
    then show ?thesis using False e by simp
  qed
qed

lemma parkMiller_range:
  assumes "0 < seed" "seed < pm_mod"
  shows "0 < randomParkAndMiller seed" "randomParkAndMiller seed < pm_mod"
  using parkMiller_step[OF assms] multiple_nonzero[OF assms] pos_mod_sign[of pm_mod "16807 * seed"]
    pos_mod_bound[of pm_mod "16807 * seed"] by linarith+

lemma parkMiller_iterate:
  assumes "0 < seed" "seed < pm_mod"
  shows "(randomParkAndMiller ^^ k) seed = 16807 ^ k * seed mod pm_mod \<and>
    0 < (randomParkAndMiller ^^ k) seed \<and> (randomParkAndMiller ^^ k) seed < pm_mod"
proof (induction k)
  case 0
  then show ?case using assms by simp
next
  case (Suc k)
  let ?x = "(randomParkAndMiller ^^ k) seed"
  have x: "0 < ?x" "?x < pm_mod" "?x = 16807 ^ k * seed mod pm_mod" using Suc by simp_all
  have "randomParkAndMiller ?x = 16807 ^ Suc k * seed mod pm_mod"
    unfolding parkMiller_step[OF x(1,2)] using x(3) by (simp add: mod_mult_right_eq mult.assoc)
  then show ?case using parkMiller_range[OF x(1,2)] by simp
qed

section \<open>The order of the multiplier\<close>

text \<open>Powers modulo \<open>2 ^ 31 - 1\<close> by squaring along the binary numeral of the exponent.\<close>

definition square_mod :: "int \<Rightarrow> int" where
  "square_mod h = h * h mod pm_mod"

fun pow_num :: "num \<Rightarrow> int" where
  "pow_num num.One = 16807"
| "pow_num (num.Bit0 n) = square_mod (pow_num n)"
| "pow_num (num.Bit1 n) = square_mod (pow_num n) * 16807 mod pm_mod"

lemma square_mod_numeral: "square_mod (numeral k) = numeral k * numeral k mod pm_mod"
  by (simp add: square_mod_def)

lemma mod_square_mult: "x mod m * (x mod m) mod m * a mod m = a * x * x mod (m :: int)"
  by (simp add: mod_simps mult_ac)

lemma pow_num_power: "pow_num n = 16807 ^ numeral n mod pm_mod"
proof (induction n)
  case (Bit0 n)
  then show ?case by (simp only: pow_num.simps square_mod_def Let_def power_numeral_even mod_mult_eq)
next
  case (Bit1 n)
  then show ?case by (simp only: pow_num.simps square_mod_def Let_def power_numeral_odd mod_square_mult)
qed simp

lemmas power_num = pow_num_power[symmetric]

definition unit_power :: "nat \<Rightarrow> bool" where
  "unit_power k \<longleftrightarrow> 16807 ^ k mod pm_mod = 1"

lemma multiplier_powers:
  "unit_power 2147483646"
  "\<not> unit_power 1073741823"
  "\<not> unit_power 715827882"
  "\<not> unit_power 306783378"
  "\<not> unit_power 195225786"
  "\<not> unit_power 69273666"
  "\<not> unit_power 14221746"
  "\<not> unit_power 6487866"
  by (simp_all only: unit_power_def power_num) (simp_all add: square_mod_numeral)

lemma unit_power_mult:
  assumes "unit_power i"
  shows "unit_power (i * j)"
proof -
  have "16807 ^ (i * j) mod pm_mod = (16807 ^ i mod pm_mod) ^ j mod pm_mod" by (simp add: power_mult power_mod)
  then show ?thesis using assms by (simp add: unit_power_def)
qed

lemma unit_power_add:
  assumes "unit_power i"
  shows "16807 ^ (i + j) mod pm_mod = 16807 ^ j mod pm_mod"
proof -
  have "16807 ^ (i + j) mod pm_mod = (16807 ^ i mod pm_mod) * 16807 ^ j mod pm_mod" by (simp add: power_add mod_mult_left_eq)
  then show ?thesis using assms by (simp add: unit_power_def)
qed

lemma unit_power_mod:
  assumes "unit_power i"
  shows "16807 ^ (j mod i) mod pm_mod = 16807 ^ j mod pm_mod"
  using unit_power_add[OF unit_power_mult[OF assms], of "j div i" "j mod i"] by simp

text \<open>The numbers that divide \<open>2 ^ 31 - 2\<close> and have no divisor of their own.\<close>

definition period_primes :: "nat list" where
  "period_primes = [2, 3, 7, 11, 31, 151, 331]"

lemma period_prime_divisor:
  fixes g :: nat
  assumes "p \<in> set period_primes" "g dvd p" "g \<noteq> 1"
  shows "g = p"
proof -
  have all: "list_all (\<lambda>p. list_all (\<lambda>g. p mod g = 0 \<longrightarrow> g = 1 \<or> g = p) [1..p]) [2 :: int, 3, 7, 11, 31, 151, 331]"
    by code_simp
  have p: "0 < p" "int p \<in> set [2, 3, 7, 11, 31, 151, 331]" using assms(1) by (auto simp: period_primes_def)
  have c: "\<forall>g \<in> set [1..int p]. int p mod g = 0 \<longrightarrow> g = 1 \<or> g = int p" by (rule bspec[OF all[unfolded list_all_iff] p(2)])
  have "int g \<in> set [1..int p]" using dvd_imp_le[OF assms(2)] dvd_pos_nat[OF p(1) assms(2)] p(1) by simp
  moreover have "int p mod int g = 0" using assms(2) by (simp add: zmod_int[symmetric] dvd_imp_mod_0)
  ultimately show ?thesis using c assms(3) by fastforce
qed

lemma proper_divisor:
  fixes d :: nat
  assumes "d dvd 2147483646" "d \<noteq> 2147483646"
  shows "\<exists>p \<in> set period_primes. d dvd 2147483646 div p"
proof -
  obtain e where e: "2147483646 = d * e" using assms(1) by blast
  have "\<exists>p \<in> set period_primes. \<not> coprime e p"
  proof (rule ccontr)
    assume "\<not> ?thesis"
    then have "coprime e (2 * 3 * 3 * 7 * 11 * 31 * 151 * 331)" by (simp only: period_primes_def coprime_mult_right_iff) simp
    moreover have "2 * 3 * 3 * 7 * 11 * 31 * 151 * 331 = d * e" using e by simp
    then have "e dvd 2 * 3 * 3 * 7 * 11 * 31 * 151 * 331" by (simp only: dvd_triv_right)
    ultimately have "e dvd 1" using coprime_common_divisor dvd_refl by blast
    then show False using e assms(2) by simp
  qed
  then obtain p where p: "p \<in> set period_primes" "gcd e p \<noteq> 1" by (auto simp: coprime_iff_gcd_eq_1)
  then have "gcd e p = p" by (intro period_prime_divisor) auto
  then have "p dvd e" using gcd_dvd1[of e p] by simp
  then obtain f where "e = p * f" by blast
  moreover have "0 < p" using p(1) by (auto simp: period_primes_def)
  ultimately have f: "p * (d * f) = 2147483646" "0 < p" using e by (simp_all add: mult.left_commute)
  have "p * (d * f) div p = d * f" using f(2) by simp
  then have "2147483646 div p = d * f" by (simp only: f(1))
  then show ?thesis using p(1) by (intro bexI[of _ p]) simp_all
qed

lemma multiplier_order:
  assumes "0 < k" "k < 2147483646"
  shows "\<not> unit_power k"
proof
  assume "unit_power k"
  define d where "d = (LEAST j. 0 < j \<and> unit_power j)"
  have d: "0 < d" "unit_power d" "d \<le> k"
    using LeastI[of "\<lambda>j. 0 < j \<and> unit_power j" k] Least_le[of "\<lambda>j. 0 < j \<and> unit_power j" k] \<open>unit_power k\<close> assms(1)
    unfolding d_def by auto
  have "unit_power (2147483646 mod d)"
    using multiplier_powers(1) by (simp only: unit_power_def unit_power_mod[OF d(2)])
  moreover have "2147483646 mod d < d" using d(1) by simp
  ultimately have "2147483646 mod d = 0"
    using not_less_Least[of "2147483646 mod d" "\<lambda>j. 0 < j \<and> unit_power j"] unfolding d_def by auto
  then have "d dvd 2147483646" by (rule mod_0_imp_dvd)
  then obtain p where p: "p \<in> set period_primes" "d dvd 2147483646 div p"
    using proper_divisor[of d] d(3) assms(2) by auto
  then obtain f where "2147483646 div p = d * f" by blast
  then have "unit_power (2147483646 div p)" using unit_power_mult[OF d(2)] by simp
  then show False using p(1) multiplier_powers(2-8) by (auto simp: period_primes_def)
qed

section \<open>Every seed is reached\<close>

abbreviation (input) seeds :: "int set" where
  "seeds \<equiv> {1..2147483646}"

lemma coprime_power: "coprime (16807 ^ k :: int) pm_mod"
  using coprime_multiplier by (simp only: coprime_power_left_iff) simp

lemma powers_distinct: "inj_on (\<lambda>k. 16807 ^ k mod pm_mod) {..<2147483646}"
proof (rule inj_onI, goal_cases)
  case (1 i j)
  have "i = j" if ij: "i \<le> j" "i < 2147483646" "j < 2147483646" "16807 ^ i mod pm_mod = 16807 ^ j mod pm_mod" for i j :: nat
  proof (rule ccontr)
    assume "i \<noteq> j"
    have "pm_mod dvd 16807 ^ j - 16807 ^ i" using ij(4) by (simp only: mod_eq_dvd_iff[symmetric])
    moreover have "(16807 :: int) ^ j - 16807 ^ i = 16807 ^ i * (16807 ^ (j - i) - 1)"
      using ij(1) by (simp add: right_diff_distrib power_add[symmetric])
    ultimately have "pm_mod dvd 16807 ^ (j - i) - 1"
      using coprime_power[of i] by (simp only: coprime_commute coprime_dvd_mult_right_iff)
    then have "unit_power (j - i)" by (simp add: unit_power_def mod_eq_dvd_iff[symmetric])
    then show False using multiplier_order[of "j - i"] ij \<open>i \<noteq> j\<close> by auto
  qed
  then show ?case using 1 by (cases "i \<le> j") (metis lessThan_iff nat_le_linear)+
qed

lemma powers_cover:
  assumes "x \<in> seeds"
  obtains k where "k < 2147483646" "16807 ^ k mod pm_mod = x"
proof -
  let ?f = "\<lambda>k :: nat. 16807 ^ k mod pm_mod"
  have "?f k \<in> seeds" for k
    using parkMiller_iterate[of 1 k] by simp
  then have "?f ` {..<2147483646} \<subseteq> seeds" by blast
  moreover have "card (?f ` {..<2147483646}) = card seeds" by (simp only: card_image[OF powers_distinct]) simp
  ultimately have "?f ` {..<2147483646} = seeds" by (intro card_subset_eq) auto
  then have "x \<in> ?f ` {..<2147483646}" using assms by (simp only:)
  then obtain k where "x = ?f k" "k \<in> {..<2147483646}" by (rule imageE)
  then show thesis by (intro that[of k]) (simp_all only: lessThan_iff)
qed

lemma parkMiller_reaches:
  assumes "x \<in> seeds" "y \<in> seeds"
  shows "\<exists>k. (randomParkAndMiller ^^ k) x = y"
proof -
  obtain i where i: "i < 2147483646" "16807 ^ i mod pm_mod = x" using powers_cover[OF assms(1)] .
  obtain j where j: "16807 ^ j mod pm_mod = y" using powers_cover[OF assms(2)] by blast
  let ?k = "j + (2147483646 - i)"
  have "(randomParkAndMiller ^^ ?k) x = 16807 ^ ?k * (16807 ^ i mod pm_mod) mod pm_mod"
    using parkMiller_iterate[of x ?k] assms(1) i(2) by simp
  also have "\<dots> = 16807 ^ (2147483646 + j) mod pm_mod"
    using i(1) by (simp only: mod_mult_right_eq power_add[symmetric]) (simp add: add.commute)
  also have "\<dots> = y" using unit_power_add[OF multiplier_powers(1), of j] j by (simp only:)
  finally show ?thesis by blast
qed

text \<open>
  C24: From a seed between 1 and \<open>2 ^ 31 - 2\<close> the generator computes 16807 times the seed
  modulo \<open>2 ^ 31 - 1\<close>, every product and difference on the way fits in an \<open>int\<close>,
  the result is such a seed again, and from it every such seed is reached in some number of calls.
\<close>

theorem parkMiller_modular:
  assumes "0 < seed" "seed < 2147483647"
  shows "randomParkAndMiller seed = 16807 * seed mod 2147483647 \<and>
    {16807 * (seed smod 127773), 2836 * (seed sdiv 127773), 16807 * (seed smod 127773) - 2836 * (seed sdiv 127773),
     randomParkAndMiller seed} \<subseteq> {- (2 ^ 31)..<2 ^ 31} \<and>
    randomParkAndMiller seed \<in> {1..2147483646} \<and> (\<forall>y. y \<in> {1..2147483646} \<longrightarrow> (\<exists>k. (randomParkAndMiller ^^ k) seed = y))"
proof (intro conjI)
  have e: "seed smod 127773 = seed mod 127773" "seed sdiv 127773 = seed div 127773"
    using assms by (simp_all add: signed_divide_int_def signed_modulo_int_def)
  have fit: "x \<in> {- (2 ^ 31)..<2 ^ 31}" if "- pm_mod < x" "x < pm_mod" for x :: int using that by simp
  note r = parkMiller_range[OF assms] schrage_range[OF less_imp_le[OF assms(1)] assms(2)]
  show "{16807 * (seed smod 127773), 2836 * (seed sdiv 127773), 16807 * (seed smod 127773) - 2836 * (seed sdiv 127773),
     randomParkAndMiller seed} \<subseteq> {- (2 ^ 31)..<2 ^ 31}"
    unfolding e by (intro insert_subset[THEN iffD2] conjI empty_subsetI fit; use r in linarith)
  show "randomParkAndMiller seed \<in> {1..2147483646}" using r by simp
  show "\<forall>y. y \<in> {1..2147483646} \<longrightarrow> (\<exists>k. (randomParkAndMiller ^^ k) seed = y)"
    using parkMiller_reaches[of seed] assms by simp
qed (rule parkMiller_step[OF assms])

theorem parkMiller_modular_witness:
  "randomParkAndMiller 17 = 285719 \<and> (\<exists>k. (randomParkAndMiller ^^ k) 17 = 3)"
  using parkMiller_modular[of 17] by simp

end
