(* ===== verification/TaskQueueSets.thy ===== *)
theory TaskQueueSets
  imports TaskDeques SegStackFacts RandomSeeds
begin

text \<open>
  What \<open>utilities/taskqueue.hpp\<close> builds from the queue: \<open>OverflowTaskQueue\<close>, which
  keeps in a \<open>Stack\<close> what the queue refuses, and \<open>GenericTaskQueueSet\<close>, which picks the
  queues to steal from with the random number generator; and the words that stand for tasks.
\<close>

section \<open>Task words\<close>

text \<open>
  \<open>StarTask\<close> and \<open>BDARefTask\<close> mark the address of a compressed reference in its
  lowest bit, \<open>PSPromotionManager\<close> the address of a partly scanned array in the next.
\<close>

type_synonym ptr64 = "64 word"

definition COMPRESSED_OOP_MASK :: ptr64 where
  "COMPRESSED_OOP_MASK = 1"

definition star_narrow :: "ptr64 \<Rightarrow> ptr64 result" where
  "star_narrow p = (if p AND COMPRESSED_OOP_MASK \<noteq> 0 then Inl (AssertFailed ''Information loss!'')
     else Inr (p OR COMPRESSED_OOP_MASK))"

definition star_wide :: "ptr64 \<Rightarrow> ptr64 result" where
  "star_wide p = (if p AND COMPRESSED_OOP_MASK \<noteq> 0 then Inl (AssertFailed ''Information loss!'') else Inr p)"

definition star_as_oop :: "ptr64 \<Rightarrow> ptr64" where
  "star_as_oop h = h"

definition star_as_narrow :: "ptr64 \<Rightarrow> ptr64" where
  "star_as_narrow h = h AND NOT COMPRESSED_OOP_MASK"

definition star_is_narrow :: "ptr64 \<Rightarrow> bool" where
  "star_is_narrow h \<longleftrightarrow> h AND COMPRESSED_OOP_MASK \<noteq> 0"

record 'c bdaref_task =
  bt_holder :: ptr64
  bt_container :: 'c

definition bdaref_narrow :: "ptr64 \<Rightarrow> 'c \<Rightarrow> 'c bdaref_task result" where
  "bdaref_narrow p c = (if p AND COMPRESSED_OOP_MASK \<noteq> 0 then Inl (AssertFailed ''Information loss!'')
     else Inr \<lparr>bt_holder = p OR COMPRESSED_OOP_MASK, bt_container = c\<rparr>)"

definition bdaref_wide :: "ptr64 \<Rightarrow> 'c \<Rightarrow> 'c bdaref_task result" where
  "bdaref_wide p c = (if p AND COMPRESSED_OOP_MASK \<noteq> 0 then Inl (AssertFailed ''Information loss!'')
     else Inr \<lparr>bt_holder = p, bt_container = c\<rparr>)"

definition bdaref_as_narrow :: "'c bdaref_task \<Rightarrow> ptr64" where
  "bdaref_as_narrow t = bt_holder t AND NOT COMPRESSED_OOP_MASK"

definition bdaref_is_narrow :: "'c bdaref_task \<Rightarrow> bool" where
  "bdaref_is_narrow t \<longleftrightarrow> bt_holder t AND COMPRESSED_OOP_MASK \<noteq> 0"

definition PS_CHUNKED_ARRAY_OOP_MASK :: ptr64 where
  "PS_CHUNKED_ARRAY_OOP_MASK = 2"

definition is_oop_masked :: "ptr64 \<Rightarrow> bool" where
  "is_oop_masked p \<longleftrightarrow> p AND PS_CHUNKED_ARRAY_OOP_MASK = PS_CHUNKED_ARRAY_OOP_MASK"

definition mask_chunked_array_oop :: "ptr64 \<Rightarrow> ptr64 result" where
  "mask_chunked_array_oop obj =
     (if is_oop_masked obj then Inl (AssertFailed ''invariant'')
      else let ret = obj OR PS_CHUNKED_ARRAY_OOP_MASK
           in if \<not> is_oop_masked ret then Inl (AssertFailed ''invariant'') else Inr ret)"

definition unmask_chunked_array_oop :: "ptr64 \<Rightarrow> ptr64 result" where
  "unmask_chunked_array_oop p =
     (if \<not> is_oop_masked p then Inl (AssertFailed ''invariant'')
      else if star_is_narrow p then Inl (AssertFailed ''chunked array oops cannot be narrow'')
      else let ret = star_as_oop p AND NOT PS_CHUNKED_ARRAY_OOP_MASK
           in if is_oop_masked ret then Inl (AssertFailed ''invariant'') else Inr ret)"

text \<open>\<open>ObjArrayTask\<close>, whose index is an \<open>int\<close>.\<close>

record obj_array_task =
  oat_obj :: ptr64
  oat_index :: int

definition obj_array_task_of :: "ptr64 \<Rightarrow> size_t \<Rightarrow> obj_array_task result" where
  "obj_array_task_of ob idx =
     (if \<not> idx \<le> 2 ^ 31 - 1 then Inl (AssertFailed ''too big'') else Inr \<lparr>oat_obj = ob, oat_index = int idx\<rparr>)"

definition oat_is_valid :: "(ptr64 \<Rightarrow> int option) \<Rightarrow> obj_array_task \<Rightarrow> bool" where
  "oat_is_valid array_length t \<longleftrightarrow> oat_obj t \<noteq> 0 \<and> (case array_length (oat_obj t) of None \<Rightarrow> False
     | Some len \<Rightarrow> 0 < oat_index t \<and> oat_index t < len)"

section \<open>Overflow queues\<close>

record 'a ovq =
  oq_queue :: "'a taskqueue"
  oq_stack :: "'a stack"

definition oq_push :: "uint \<Rightarrow> 'a stack_env \<Rightarrow> 'a \<Rightarrow> 'a ovq \<Rightarrow> (bool \<times> 'a ovq) result" where
  "oq_push N env t q =
     bind_result (tq_push N t (oq_queue q)) (\<lambda>(ok, tq).
       if ok then Inr (True, q\<lparr>oq_queue := tq\<rparr>)
       else bind_result (stack_push env t (oq_stack q)) (\<lambda>s.
         Inr (True, \<lparr>oq_queue = tq\<lparr>tq_stats := record_overflow (stack_size s) (tq_stats tq)\<rparr>, oq_stack = s\<rparr>)))"

definition taskqueue_empty :: "uint \<Rightarrow> 'a ovq \<Rightarrow> bool" where
  "taskqueue_empty N q \<longleftrightarrow> tq_is_empty N (oq_queue q)"

definition overflow_empty :: "'a ovq \<Rightarrow> bool" where
  "overflow_empty q \<longleftrightarrow> stack_is_empty (oq_stack q)"

definition oq_is_empty :: "uint \<Rightarrow> 'a ovq \<Rightarrow> bool" where
  "oq_is_empty N q \<longleftrightarrow> taskqueue_empty N q \<and> overflow_empty q"

definition pop_overflow :: "'a stack_env \<Rightarrow> 'a ovq \<Rightarrow> ('a option \<times> 'a ovq) result" where
  "pop_overflow env q =
     (if overflow_empty q then Inr (None, q)
      else bind_result (stack_pop env (oq_stack q)) (\<lambda>(t, s). Inr (Some t, q\<lparr>oq_stack := s\<rparr>)))"

definition oq_pop_local :: "uint \<Rightarrow> 'a ovq \<Rightarrow> ('a option \<times> 'a ovq) result" where
  "oq_pop_local N q = bind_result (pop_local N (oq_queue q)) (\<lambda>(r, tq). Inr (r, q\<lparr>oq_queue := tq\<rparr>))"

section \<open>Queue sets\<close>

record 'a tq_set =
  qs_n :: nat
  qs_queues :: "'a taskqueue option list"

definition new_tq_set :: "nat \<Rightarrow> 'a tq_set" where
  "new_tq_set n = \<lparr>qs_n = n, qs_queues = replicate n None\<rparr>"

definition register_queue :: "nat \<Rightarrow> 'a taskqueue \<Rightarrow> 'a tq_set \<Rightarrow> 'a tq_set result" where
  "register_queue i q s =
     (if \<not> i < qs_n s then Inl (AssertFailed ''index out of range.'')
      else Inr (s\<lparr>qs_queues := (qs_queues s)[i := Some q]\<rparr>))"

definition qs_queue :: "'a tq_set \<Rightarrow> nat \<Rightarrow> 'a taskqueue result" where
  "qs_queue s i = (if i < length (qs_queues s)
     then (case qs_queues s ! i of None \<Rightarrow> Inl NullDeref | Some q \<Rightarrow> Inr q) else Inl OutOfBounds)"

text \<open>The loops that draw a victim; \<open>% _n\<close> is on unsigned values.\<close>

partial_function (option) draw_victim :: "nat \<Rightarrow> (nat \<Rightarrow> bool) \<Rightarrow> nat \<Rightarrow> int \<Rightarrow> (nat \<times> int) option" where
  "draw_victim n excluded k seed =
     (if excluded k then (let seed' = randomParkAndMiller seed in draw_victim n excluded (nat (seed' mod 2 ^ 32) mod n) seed')
      else Some (k, seed))"

definition steal_from :: "uint \<Rightarrow> 'a tq_set \<Rightarrow> nat \<Rightarrow> ('a option \<times> 'a tq_set) result" where
  "steal_from N s k = bind_result (qs_queue s k) (\<lambda>q.
     bind_result (pop_global N q) (\<lambda>(t, q'). Inr (t, s\<lparr>qs_queues := (qs_queues s)[k := Some q']\<rparr>)))"

definition steal_larger :: "uint \<Rightarrow> 'a tq_set \<Rightarrow> nat \<Rightarrow> nat \<Rightarrow> ('a option \<times> 'a tq_set) result" where
  "steal_larger N s k1 k2 =
     bind_result (qs_queue s k1) (\<lambda>q1. bind_result (qs_queue s k2) (\<lambda>q2.
       if tq_size N q2 > tq_size N q1 then steal_from N s k2 else steal_from N s k1))"

definition steal_best_of_2 :: "uint \<Rightarrow> nat \<Rightarrow> int \<Rightarrow> 'a tq_set \<Rightarrow> ('a option \<times> 'a tq_set \<times> int) result option" where
  "steal_best_of_2 N queue_num seed s =
     (if qs_n s > 2 then
        (case draw_victim (qs_n s) (\<lambda>k. k = queue_num) queue_num seed of None \<Rightarrow> None
         | Some (k1, seed) \<Rightarrow>
           (case draw_victim (qs_n s) (\<lambda>k. k = queue_num \<or> k = k1) queue_num seed of None \<Rightarrow> None
            | Some (k2, seed) \<Rightarrow>
              Some (bind_result (steal_larger N s k1 k2) (\<lambda>(t, s). Inr (t, s, seed)))))
      else if qs_n s = 2 then
        Some (bind_result (steal_from N s ((queue_num + 1) mod 2)) (\<lambda>(t, s). Inr (t, s, seed)))
      else if qs_n s \<noteq> 1 then Some (Inl (AssertFailed ''can't be zero.''))
      else Some (Inr (None, s, seed)))"

text \<open>A thief records the outcome in the statistics of its own queue.\<close>

definition note_steal :: "nat \<Rightarrow> bool \<Rightarrow> 'a tq_set \<Rightarrow> 'a tq_set result" where
  "note_steal i success s = bind_result (qs_queue s i) (\<lambda>q.
     Inr (s\<lparr>qs_queues := (qs_queues s)[i := Some (q\<lparr>tq_stats := record_steal success (tq_stats q)\<rparr>)]\<rparr>))"

fun steal_loop :: "nat \<Rightarrow> uint \<Rightarrow> nat \<Rightarrow> int \<Rightarrow> 'a tq_set \<Rightarrow> ('a option \<times> 'a tq_set \<times> int) result option" where
  "steal_loop 0 N queue_num seed s =
     Some (bind_result (note_steal queue_num False s) (\<lambda>s. Inr (None, s, seed)))"
| "steal_loop (Suc i) N queue_num seed s =
     (case steal_best_of_2 N queue_num seed s of None \<Rightarrow> None
      | Some r \<Rightarrow> (case r of Inl e \<Rightarrow> Some (Inl e)
        | Inr (t, s', seed') \<Rightarrow>
          (if t \<noteq> None then Some (bind_result (note_steal queue_num True s') (\<lambda>s'. Inr (t, s', seed')))
           else steal_loop i N queue_num seed' s')))"

definition steal :: "uint \<Rightarrow> nat \<Rightarrow> int \<Rightarrow> 'a tq_set \<Rightarrow> ('a option \<times> 'a tq_set \<times> int) result option" where
  "steal N queue_num seed s = steal_loop (2 * qs_n s) N queue_num seed s"

fun peek_from :: "'a tq_set \<Rightarrow> nat \<Rightarrow> nat \<Rightarrow> bool result" where
  "peek_from s j 0 = Inr False"
| "peek_from s j (Suc k) = bind_result (qs_queue s j) (\<lambda>q. if tq_peek q then Inr True else peek_from s (Suc j) k)"

definition qs_peek :: "'a tq_set \<Rightarrow> bool result" where
  "qs_peek s = peek_from s 0 (qs_n s)"

end
