(* ===== verification/TaskSteals.thy ===== *)
theory TaskSteals
  imports TaskQueueSets
begin

text \<open>
  Properties of task words, overflow queues and queue sets: tasks keep their kind and
  address, drawing a victim ends from every seed, and a steal takes the oldest task of
  another thread's queue and touches nothing else.
\<close>

section \<open>Task words\<close>

lemma and_power_zero: "p AND 2 ^ n = 0 \<longleftrightarrow> \<not> bit (p :: ptr64) n" if "n < 64"
  using that by (auto simp: bit_eq_iff[of "p AND 2 ^ n"] bit_simps)

lemma and_power_self: "p AND 2 ^ n = 2 ^ n \<longleftrightarrow> bit (p :: ptr64) n" if "n < 64"
  using that by (auto simp: bit_eq_iff[of "p AND 2 ^ n"] bit_simps)

lemma bit_or_power: "bit (p OR 2 ^ n) m \<longleftrightarrow> bit (p :: ptr64) m \<or> m = n" if "n < 64"
  using that by (auto simp: bit_simps)

lemma or_and_not_power: "(p OR 2 ^ n) AND NOT (2 ^ n) = (p :: ptr64)" if "\<not> bit p n"
  using that by (auto simp: bit_eq_iff[of "(p OR 2 ^ n) AND NOT (2 ^ n)"] bit_simps dest: bit_imp_le_length)

lemma mark_tests:
  "star_is_narrow h \<longleftrightarrow> bit h 0" "bdaref_is_narrow t \<longleftrightarrow> bit (bt_holder t) 0" "is_oop_masked h \<longleftrightarrow> bit h 1"
  using and_power_zero[of 0] and_power_self[of 1]
  by (simp_all add: star_is_narrow_def bdaref_is_narrow_def is_oop_masked_def COMPRESSED_OOP_MASK_def
      PS_CHUNKED_ARRAY_OOP_MASK_def)

lemma mark_constructors:
  assumes "\<not> bit p 0"
  shows "star_wide p = Inr p" "star_narrow p = Inr (p OR 2 ^ 0)" "bdaref_wide p c = Inr \<lparr>bt_holder = p, bt_container = c\<rparr>"
    "bdaref_narrow p c = Inr \<lparr>bt_holder = p OR 2 ^ 0, bt_container = c\<rparr>"
  using assms and_power_zero[of 0 p]
  by (simp_all add: star_wide_def star_narrow_def bdaref_wide_def bdaref_narrow_def COMPRESSED_OOP_MASK_def)

lemma unmark_narrow:
  "star_as_narrow h = h AND NOT (2 ^ 0)" "bdaref_as_narrow t = bt_holder t AND NOT (2 ^ 0)"
  by (simp_all add: star_as_narrow_def bdaref_as_narrow_def COMPRESSED_OOP_MASK_def)

lemma chunked_mark:
  assumes "\<not> bit p 0" "\<not> bit p 1"
  shows "mask_chunked_array_oop p = Inr (p OR 2 ^ 1)" "unmask_chunked_array_oop (p OR 2 ^ 1) = Inr p"
  using assms or_and_not_power[OF assms(2)] bit_or_power[of 1 p]
  by (simp_all only: mask_chunked_array_oop_def unmask_chunked_array_oop_def mark_tests Let_def star_as_oop_def
      PS_CHUNKED_ARRAY_OOP_MASK_def power_one_right) simp_all

text \<open>
  C25: The mark bits of a task word never mix.  A reference address with its two low bits
  clear comes back from a \<open>StarTask\<close> or \<open>BDARefTask\<close> with the kind it was pushed with,
  a partly scanned array comes back as that array and is never taken for a compressed
  reference, and no reference is taken for an array.
\<close>

theorem task_words_keep_kind:
  assumes "\<not> bit p 0" "\<not> bit p 1"
  shows "(\<exists>h. star_wide p = Inr h \<and> \<not> star_is_narrow h \<and> star_as_oop h = p \<and> \<not> is_oop_masked h) \<and>
    (\<exists>h. star_narrow p = Inr h \<and> star_is_narrow h \<and> star_as_narrow h = p \<and> \<not> is_oop_masked h) \<and>
    (\<exists>h. mask_chunked_array_oop p = Inr h \<and> star_wide h = Inr h \<and> is_oop_masked h \<and> \<not> star_is_narrow h \<and>
      unmask_chunked_array_oop h = Inr p) \<and>
    (\<exists>t. bdaref_wide p c = Inr t \<and> \<not> bdaref_is_narrow t \<and> bt_holder t = p \<and> bt_container t = c) \<and>
    (\<exists>t. bdaref_narrow p c = Inr t \<and> bdaref_is_narrow t \<and> bdaref_as_narrow t = p \<and> bt_container t = c)"
proof -
  have "\<not> bit (p OR 2 ^ 1) 0" "bit (p OR 2 ^ 1) 1" "bit (p OR 2 ^ 0) 0" "\<not> bit (p OR 2 ^ 0) 1"
    using assms bit_or_power[of 1 p] bit_or_power[of 0 p] by simp_all
  then show ?thesis
    using assms chunked_mark[OF assms] mark_constructors(1,2)[OF assms(1)] mark_constructors(3,4)[OF assms(1), of c]
      mark_constructors(1)[of "p OR 2 ^ 1"]
      or_and_not_power[OF assms(1)]
    by (simp only: mark_tests unmark_narrow star_as_oop_def sum.inject ex_simps simp_thms bdaref_task.simps)
qed

lemma power_bit_clear: "n \<noteq> m \<Longrightarrow> \<not> bit (2 ^ m :: ptr64) n"
  by (simp add: bit_exp_iff)

theorem task_words_keep_kind_witness:
  "(\<exists>h. mask_chunked_array_oop (2 ^ 12) = Inr h \<and> unmask_chunked_array_oop h = Inr (2 ^ 12)) \<and>
    (\<exists>h. star_narrow (2 ^ 12) = Inr h \<and> star_as_narrow h = 2 ^ 12)"
proof -
  have "\<not> bit (2 ^ 12 :: ptr64) 0" "\<not> bit (2 ^ 12 :: ptr64) 1" by (rule power_bit_clear, simp)+
  note t = task_words_keep_kind[OF this, of "()"]
  obtain h where "mask_chunked_array_oop (2 ^ 12) = Inr h \<and> star_wide h = Inr h \<and> is_oop_masked h \<and> \<not> star_is_narrow h \<and>
      unmask_chunked_array_oop h = Inr (2 ^ 12)"
    using t[THEN conjunct2, THEN conjunct2, THEN conjunct1] ..
  moreover obtain k where "star_narrow (2 ^ 12) = Inr k \<and> star_is_narrow k \<and> star_as_narrow k = 2 ^ 12 \<and> \<not> is_oop_masked k"
    using t[THEN conjunct2, THEN conjunct1] ..
  ultimately show ?thesis by (intro conjI exI[of _ h] exI[of _ k]) simp_all
qed

section \<open>Drawing a victim\<close>

lemma draw_victim_again:
  "excluded k \<Longrightarrow> draw_victim n excluded k seed =
     draw_victim n excluded (nat (randomParkAndMiller seed mod 2 ^ 32) mod n) (randomParkAndMiller seed)"
  by (subst draw_victim.simps) (simp only: if_True Let_def)

lemma draw_victim_done: "\<not> excluded k \<Longrightarrow> draw_victim n excluded k seed = Some (k, seed)"
  by (subst draw_victim.simps) (simp only: if_False)

abbreviation (input) seed_ok :: "int \<Rightarrow> bool" where
  "seed_ok seed \<equiv> 0 < seed \<and> seed < 2147483647"

lemma draw_victim_ends:
  assumes "\<not> excluded (nat ((randomParkAndMiller ^^ Suc j) seed mod 2 ^ 32) mod n)" "seed_ok seed" "k < n"
  shows "\<exists>k' seed'. draw_victim n excluded k seed = Some (k', seed') \<and> \<not> excluded k' \<and> k' < n \<and> seed_ok seed'"
  using assms
proof (induction j arbitrary: seed k)
  let ?next = "\<lambda>seed. nat (randomParkAndMiller seed mod 2 ^ 32) mod n"
  case 0
  show ?case
  proof (cases "excluded k")
    case True
    have "\<not> excluded (?next seed)" using 0(1) by (simp only: funpow.simps id_apply o_apply simp_thms)
    from draw_victim_done[of excluded, OF this] draw_victim_again[of excluded, OF True, of n seed]
    have "draw_victim n excluded k seed = Some (?next seed, randomParkAndMiller seed)" by (simp only:)
    moreover have "?next seed < n" using 0(3) by (simp only: mod_less_divisor)
    ultimately show ?thesis using parkMiller_range[of seed] 0(2) \<open>\<not> excluded (?next seed)\<close> by blast
  qed (use draw_victim_done[of excluded k n seed] 0 in blast)
next
  let ?next = "\<lambda>seed. nat (randomParkAndMiller seed mod 2 ^ 32) mod n"
  case (Suc j)
  show ?case
  proof (cases "excluded k")
    case True
    have "\<not> excluded (nat ((randomParkAndMiller ^^ Suc j) (randomParkAndMiller seed) mod 2 ^ 32) mod n)"
      using Suc.prems(1) by (simp only: funpow_Suc_right o_apply simp_thms)
    moreover have "seed_ok (randomParkAndMiller seed)" using parkMiller_range[of seed] Suc.prems(2) by blast
    moreover have "?next seed < n" using Suc.prems(3) by (simp only: mod_less_divisor)
    ultimately show ?thesis unfolding draw_victim_again[of excluded, OF True, of n seed] by (rule Suc.IH)
  qed (use draw_victim_done[of excluded k n seed] Suc.prems in blast)
qed

text \<open>Of the seeds 1, 2 and 3 at least one gives a queue that is not excluded, and all are reached.\<close>

lemma draw_victim_other:
  assumes "2 < n" "seed_ok seed" "k < n" "\<And>j. excluded j \<longleftrightarrow> j = a \<or> j = b"
  shows "\<exists>k' seed'. draw_victim n excluded k seed = Some (k', seed') \<and> k' \<noteq> a \<and> k' \<noteq> b \<and> k' < n \<and> seed_ok seed'"
proof -
  have "\<exists>y \<in> {1, 2, 3 :: int}. \<not> excluded (nat y mod n)"
  proof (rule ccontr)
    assume "\<not> ?thesis"
    then have "{1 mod n, 2 mod n, 3 mod n} \<subseteq> {a, b}" using assms(4) by auto
    moreover have "1 mod n = 1" "2 mod n = 2" "3 mod n = 0 \<or> 3 mod n = 3" using assms(1) by (auto simp: mod_if)
    ultimately show False by auto
  qed
  then obtain y :: int where y: "y \<in> {1, 2, 3}" "\<not> excluded (nat y mod n)" by blast
  have "y \<in> seeds" using y(1) by auto
  moreover have "randomParkAndMiller seed \<in> seeds" using parkMiller_range[of seed] assms(2) by simp
  ultimately obtain j where "(randomParkAndMiller ^^ j) (randomParkAndMiller seed) = y"
    using parkMiller_reaches by blast
  then have "(randomParkAndMiller ^^ Suc j) seed = y" by (simp only: funpow_Suc_right o_apply)
  moreover have "nat (y mod 2 ^ 32) = nat y" using y(1) by auto
  ultimately have "\<not> excluded (nat ((randomParkAndMiller ^^ Suc j) seed mod 2 ^ 32) mod n)" using y(2) by (simp only: simp_thms)
  from draw_victim_ends[of excluded, OF this assms(2,3)] show ?thesis using assms(4) by blast
qed

section \<open>Stealing\<close>

definition set_ok :: "uint \<Rightarrow> 'a tq_set \<Rightarrow> bool" where
  "set_ok N s \<longleftrightarrow> length (qs_queues s) = qs_n s \<and> (\<forall>i < qs_n s. \<exists>q. qs_queues s ! i = Some q \<and> tq_ok N q)"

definition tasks_of :: "uint \<Rightarrow> 'a tq_set \<Rightarrow> nat \<Rightarrow> 'a list" where
  "tasks_of N s i = (case qs_queues s ! i of None \<Rightarrow> [] | Some q \<Rightarrow> tq_tasks N q)"

text \<open>What a steal by thread \<open>i\<close> does to the queues.\<close>

definition stolen :: "uint \<Rightarrow> nat \<Rightarrow> 'a tq_set \<Rightarrow> 'a option \<Rightarrow> 'a tq_set \<Rightarrow> bool" where
  "stolen N i s t s' \<longleftrightarrow> qs_n s' = qs_n s \<and> set_ok N s' \<and>
     (case t of None \<Rightarrow> \<forall>j < qs_n s. tasks_of N s' j = tasks_of N s j
      | Some x \<Rightarrow> \<exists>k < qs_n s. k \<noteq> i \<and> tasks_of N s k = x # tasks_of N s' k \<and>
          (\<forall>j < qs_n s. j \<noteq> k \<longrightarrow> tasks_of N s' j = tasks_of N s j))"

lemma set_okE:
  assumes "set_ok N s" "i < qs_n s"
  obtains q where "qs_queues s ! i = Some q" "tq_ok N q" "qs_queue s i = Inr q" "i < length (qs_queues s)"
  using assms by (auto simp: set_ok_def qs_queue_def)

lemma set_ok_update:
  assumes "set_ok N s" "i < qs_n s" "tq_ok N q"
  shows "set_ok N (s\<lparr>qs_queues := (qs_queues s)[i := Some q]\<rparr>)"
    "tasks_of N (s\<lparr>qs_queues := (qs_queues s)[i := Some q]\<rparr>) i = tq_tasks N q"
    "j \<noteq> i \<Longrightarrow> tasks_of N (s\<lparr>qs_queues := (qs_queues s)[i := Some q]\<rparr>) j = tasks_of N s j"
  using assms by (auto simp: set_ok_def tasks_of_def nth_list_update)

lemma steal_from_ok:
  assumes "set_ok N s" "k < qs_n s" "k \<noteq> i"
  shows "\<exists>t s'. steal_from N s k = Inr (t, s') \<and> stolen N i s t s'"
proof -
  obtain q where q: "qs_queues s ! k = Some q" "tq_ok N q" "qs_queue s k = Inr q" using set_okE[OF assms(1,2)] by blast
  obtain q' where q': "pop_global N q = Inr (case tq_tasks N q of [] \<Rightarrow> None | x # _ \<Rightarrow> Some x, q')" "tq_ok N q'"
      "tq_tasks N q' = tl (tq_tasks N q)"
    using tq.pop_front_any[OF q(2)] by blast
  let ?s = "s\<lparr>qs_queues := (qs_queues s)[k := Some q']\<rparr>"
  note u = set_ok_update[OF assms(1,2) q'(2)]
  have t: "tasks_of N s k = tq_tasks N q" using q(1) by (simp add: tasks_of_def)
  have "stolen N i s (case tq_tasks N q of [] \<Rightarrow> None | x # _ \<Rightarrow> Some x) ?s"
  proof (cases "tq_tasks N q")
    case Nil
    then have "tasks_of N ?s j = tasks_of N s j" for j using u(2,3) t q'(3) by (cases "j = k") auto
    then show ?thesis using Nil u(1) by (simp add: stolen_def)
  next
    case (Cons x xs)
    then show ?thesis using u assms(2,3) t q'(3) by (auto simp: stolen_def intro!: exI[of _ k])
  qed
  then show ?thesis using q(3) q'(1) by (simp add: steal_from_def)
qed

lemma steal_best_of_2_ok:
  assumes "set_ok N s" "i < qs_n s" "seed_ok seed"
  shows "\<exists>t s' seed'. steal_best_of_2 N i seed s = Some (Inr (t, s', seed')) \<and> stolen N i s t s' \<and> seed_ok seed'"
proof -
  consider "2 < qs_n s" | "qs_n s = 2" | "qs_n s = 1" using assms(2) by linarith
  then show ?thesis
  proof cases
    case 1
    obtain k1 s1 where k1: "draw_victim (qs_n s) (\<lambda>k. k = i) i seed = Some (k1, s1)" "k1 \<noteq> i" "k1 < qs_n s" "seed_ok s1"
      using draw_victim_other[OF 1 assms(3,2), of "\<lambda>k. k = i" i i] by auto
    obtain k2 s2 where k2: "draw_victim (qs_n s) (\<lambda>k. k = i \<or> k = k1) i s1 = Some (k2, s2)" "k2 \<noteq> i" "k2 < qs_n s" "seed_ok s2"
      using draw_victim_other[OF 1 k1(4) assms(2), of "\<lambda>k. k = i \<or> k = k1" i k1] by auto
    obtain q1 q2 where "qs_queue s k1 = Inr q1" "qs_queue s k2 = Inr q2"
      using set_okE[OF assms(1) k1(3)] set_okE[OF assms(1) k2(3)] by metis
    then have "\<exists>t s'. steal_larger N s k1 k2 = Inr (t, s') \<and> stolen N i s t s'"
      using steal_from_ok[OF assms(1) k1(3,2)] steal_from_ok[OF assms(1) k2(3,2)] by (simp add: steal_larger_def)
    then show ?thesis using 1 k1(1) k2(1,4) by (auto simp: steal_best_of_2_def)
  next
    case 2
    have "(i + 1) mod 2 < qs_n s" "(i + 1) mod 2 \<noteq> i" using 2 assms(2) by (auto simp: less_2_cases_iff)
    from steal_from_ok[OF assms(1) this] 2 assms(3) show ?thesis by (auto simp: steal_best_of_2_def)
  next
    case 3
    then show ?thesis using assms by (auto simp: steal_best_of_2_def stolen_def)
  qed
qed

lemma note_steal_ok:
  assumes "set_ok N s" "i < qs_n s"
  shows "\<exists>s'. note_steal i b s = Inr s' \<and> set_ok N s' \<and> qs_n s' = qs_n s \<and> (\<forall>j. tasks_of N s' j = tasks_of N s j)"
proof -
  obtain q where q: "qs_queues s ! i = Some q" "tq_ok N q" "qs_queue s i = Inr q" using set_okE[OF assms] by blast
  let ?q = "q\<lparr>tq_stats := record_steal b (tq_stats q)\<rparr>"
  have o: "tq_ok N ?q" "tq_tasks N ?q = tq_tasks N q" using q(2) by (simp_all add: tq_ok_def tq_len_def tq_tasks_def)
  note u = set_ok_update[OF assms o(1)]
  have "tasks_of N (s\<lparr>qs_queues := (qs_queues s)[i := Some ?q]\<rparr>) j = tasks_of N s j" for j
    using u(2,3) o(2) q(1) by (cases "j = i") (auto simp: tasks_of_def)
  then show ?thesis using u(1) q(3) by (simp add: note_steal_def)
qed

lemma stolen_noted:
  assumes "stolen N i s t s1" "note_steal i b s1 = Inr s'" "set_ok N s'" "qs_n s' = qs_n s1" "\<forall>j. tasks_of N s' j = tasks_of N s1 j"
  shows "stolen N i s t s'"
  using assms by (auto simp: stolen_def split: option.splits)

lemma stolen_then:
  assumes "stolen N i s None s1" "stolen N i s1 t s'"
  shows "stolen N i s t s'"
  using assms by (auto simp: stolen_def split: option.splits)

lemma steal_loop_ok:
  assumes "set_ok N s" "i < qs_n s" "seed_ok seed"
  shows "\<exists>t s' seed'. steal_loop m N i seed s = Some (Inr (t, s', seed')) \<and> stolen N i s t s' \<and> seed_ok seed'"
  using assms
proof (induction m arbitrary: seed s)
  case 0
  obtain s' where "note_steal i False s = Inr s'" "set_ok N s'" "qs_n s' = qs_n s" "\<forall>j. tasks_of N s' j = tasks_of N s j"
    using note_steal_ok[OF 0(1,2)] by blast
  then show ?case using 0(3) by (auto simp: stolen_def)
next
  case (Suc m)
  obtain t s1 seed1 where s1: "steal_best_of_2 N i seed s = Some (Inr (t, s1, seed1))" "stolen N i s t s1" "seed_ok seed1"
    using steal_best_of_2_ok[OF Suc.prems] by blast
  have o: "set_ok N s1" "i < qs_n s1" using s1(2) Suc.prems(2) by (auto simp: stolen_def)
  show ?case
  proof (cases t)
    case None
    then show ?thesis using Suc.IH[OF o s1(3)] s1 stolen_then by fastforce
  next
    case (Some x)
    obtain s' where "note_steal i True s1 = Inr s'" "set_ok N s'" "qs_n s' = qs_n s1" "\<forall>j. tasks_of N s' j = tasks_of N s1 j"
      using note_steal_ok[OF o] by blast
    then show ?thesis using s1 Some stolen_noted by fastforce
  qed
qed

text \<open>
  C11: With well-formed queues and a seed between \<open>1\<close> and \<open>2 ^ 31 - 2\<close>, \<open>steal\<close> always returns: the loops that
  draw two victims other than the thief end.  It answers with the oldest task of the queue of
  another thread, which loses just that task, or with nothing and then no queue has changed; the
  new seed is in that range again.
\<close>

theorem steal_takes_oldest:
  assumes "set_ok N s" "i < qs_n s" "0 < seed" "seed < 2147483647"
  shows "\<exists>t s' seed'. steal N i seed s = Some (Inr (t, s', seed')) \<and> 0 < seed' \<and> seed' < 2147483647 \<and>
    qs_n s' = qs_n s \<and> set_ok N s' \<and>
    (t = None \<longrightarrow> (\<forall>j < qs_n s. tasks_of N s' j = tasks_of N s j)) \<and>
    (\<forall>x. t = Some x \<longrightarrow> (\<exists>k < qs_n s. k \<noteq> i \<and> tasks_of N s k = x # tasks_of N s' k \<and>
       (\<forall>j < qs_n s. j \<noteq> k \<longrightarrow> tasks_of N s' j = tasks_of N s j)))"
proof -
  obtain t s' seed' where r: "steal N i seed s = Some (Inr (t, s', seed'))" "stolen N i s t s'" "seed_ok seed'"
    using steal_loop_ok[OF assms(1,2), of seed "2 * qs_n s"] assms(3,4) unfolding steal_def by blast
  have "qs_n s' = qs_n s" "set_ok N s'" "t = None \<longrightarrow> (\<forall>j < qs_n s. tasks_of N s' j = tasks_of N s j)"
      "\<forall>x. t = Some x \<longrightarrow> (\<exists>k < qs_n s. k \<noteq> i \<and> tasks_of N s k = x # tasks_of N s' k \<and>
        (\<forall>j < qs_n s. j \<noteq> k \<longrightarrow> tasks_of N s' j = tasks_of N s j))"
    using r(2) by (auto simp: stolen_def)
  then show ?thesis using r(1,3) by blast
qed

theorem steal_takes_oldest_witness:
  "\<exists>s s' :: nat tq_set. \<exists>t seed'. qs_n s = 3 \<and> set_ok 4 s \<and> steal 4 0 17 s = Some (Inr (t, s', seed')) \<and> set_ok 4 s'"
proof -
  have w: "wf_size 4" unfolding wf_size_def by (rule exI[of _ 2]) simp
  define q :: "nat taskqueue" where "q = tq_initialize 4 (\<lambda>_. 0) new_taskqueue"
  have q: "tq_ok 4 q" "tq_tasks 4 q = []" unfolding q_def by (rule new_taskqueue_ok[OF w])+
  have "length (tq_tasks 4 q) < unat (4 :: uint) - 2" using q(2) by simp
  then obtain q1 :: "nat taskqueue" where q1: "tq_ok 4 q1" "tq_tasks 4 q1 = [7]" using tq_push_room[OF q(1), of 7] q(2) by auto
  let ?s = "\<lparr>qs_n = 3, qs_queues = [Some q, Some q1, Some q1]\<rparr>"
  have "set_ok 4 ?s" using q q1 by (auto simp: set_ok_def less_Suc_eq numeral_3_eq_3)
  note s = this
  have "0 < qs_n ?s" "(0 :: int) < 17" "(17 :: int) < 2147483647" by simp_all
  from steal_takes_oldest[OF s this] obtain t s' seed' where "steal 4 0 17 ?s = Some (Inr (t, s', seed'))" "set_ok 4 s'"
    by (elim exE conjE)
  then show ?thesis using s by (intro exI[of _ ?s] exI[of _ s'] exI[of _ t] exI[of _ seed']) simp
qed

end
