(* ===== verification/Terminators.thy ===== *)
theory Terminators
  imports TaskQueueSets
begin

text \<open>
  \<open>ParallelTaskTerminator\<close> of \<open>utilities/taskqueue.cpp\<close> and the loop of
  \<open>StealBDARefTask::do_it\<close> around it.  The spinning of a waiting thread is local and is
  modelled as a function; the counter, the queues and the calls are a step relation over all
  threads.  A queue is the list of its tasks, which is what the accesses of
  \<open>TaskQueueMT\<close> add up to; its owner's overflow stack counts as work in hand.
\<close>

section \<open>Spinning\<close>

type_synonym uintx = "64 word"

record spin_flags =
  WorkStealingHardSpins :: uintx
  WorkStealingSpinToYieldRatio :: uintx
  WorkStealingYieldsBeforeSleep :: uintx

record spin =
  yield_count :: uint
  hard_spin_count :: uint
  hard_spin_limit :: uint
  hard_spin_start :: uint

datatype spin_action = Yields | Spins uint | Sleeps

definition spin_init :: "spin_flags \<Rightarrow> spin" where
  "spin_init fl =
     (let limit = (if WorkStealingSpinToYieldRatio fl > 0
                   then max (ucast (drop_bit (unat (WorkStealingSpinToYieldRatio fl)) (WorkStealingHardSpins fl))) 1
                   else ucast (WorkStealingHardSpins fl))
      in \<lparr>yield_count = 0, hard_spin_count = 0, hard_spin_limit = limit, hard_spin_start = limit\<rparr>)"

definition spin_once :: "spin_flags \<Rightarrow> spin \<Rightarrow> spin_action \<times> spin" where
  "spin_once fl sp =
     (if ucast (yield_count sp) \<le> WorkStealingYieldsBeforeSleep fl then
        let sp = sp\<lparr>yield_count := yield_count sp + 1\<rparr>
        in if ucast (hard_spin_count sp) > WorkStealingSpinToYieldRatio fl
           then (Yields, sp\<lparr>hard_spin_count := 0, hard_spin_limit := hard_spin_start sp\<rparr>)
           else let limit = min (2 * hard_spin_limit sp) (ucast (WorkStealingHardSpins fl))
                in (Spins limit, sp\<lparr>hard_spin_limit := limit, hard_spin_count := hard_spin_count sp + 1\<rparr>)
      else (Sleeps, sp\<lparr>yield_count := 0\<rparr>))"

section \<open>Offering termination\<close>

text \<open>
  \<open>Busy\<close>: the thread holds a task and may push and pop on its own queue.
  \<open>Hungry\<close>: it holds none and its queue is empty; it steals or calls
  \<open>offer_termination\<close>.  The other values are places in that function.
\<close>

datatype term_pc =
    Busy
  | Hungry
  | Offering
  | Waiting spin
  | Pausing spin_action spin
  | Peeking nat spin
  | Leaving
  | CheckLeft
  | AllDone
  | TermFault fault

record 'a term_state =
  ts_n_threads :: int
  ts_n_queues :: nat
  ts_offered :: int
  ts_queues :: "nat \<Rightarrow> 'a list"
  ts_pc :: "nat \<Rightarrow> term_pc"

abbreviation term_goto :: "nat \<Rightarrow> term_pc \<Rightarrow> 'a term_state \<Rightarrow> 'a term_state" where
  "term_goto i pc s \<equiv> s\<lparr>ts_pc := (ts_pc s)(i := pc)\<rparr>"

abbreviation term_queue :: "nat \<Rightarrow> 'a list \<Rightarrow> 'a term_state \<Rightarrow> 'a term_state" where
  "term_queue i ts s \<equiv> s\<lparr>ts_queues := (ts_queues s)(i := ts)\<rparr>"

definition new_terminator :: "nat \<Rightarrow> nat \<Rightarrow> (nat \<Rightarrow> 'a list) \<Rightarrow> 'a term_state" where
  "new_terminator n m qs =
     \<lparr>ts_n_threads = int n, ts_n_queues = m, ts_offered = 0, ts_queues = qs, ts_pc = (\<lambda>_. Busy)\<rparr>"

definition enter_offer :: "nat \<Rightarrow> 'a term_state \<Rightarrow> 'a term_state" where
  "enter_offer i s =
     (if \<not> 0 < ts_n_threads s then term_goto i (TermFault (AssertFailed ''Initialization is incorrect'')) s
      else if \<not> ts_offered s < ts_n_threads s then term_goto i (TermFault (AssertFailed ''Invariant'')) s
      else term_goto i Offering s)"

definition wait_round :: "spin_flags \<Rightarrow> nat \<Rightarrow> spin \<Rightarrow> 'a term_state \<Rightarrow> 'a term_state" where
  "wait_round fl i sp s =
     (if \<not> ts_offered s \<le> ts_n_threads s then term_goto i (TermFault (AssertFailed ''Invariant'')) s
      else if ts_offered s = ts_n_threads s then term_goto i AllDone s
      else (case spin_once fl sp of (act, sp) \<Rightarrow> term_goto i (Pausing act sp) s))"

text \<open>\<open>yield\<close> and \<open>sleep\<close> look at the counter again; a hard spin does not.\<close>

definition pause_round :: "nat \<Rightarrow> spin_action \<Rightarrow> spin \<Rightarrow> 'a term_state \<Rightarrow> 'a term_state" where
  "pause_round i act sp s =
     (case act of Spins k \<Rightarrow> term_goto i (Peeking 0 sp) s
      | _ \<Rightarrow> if \<not> ts_offered s \<le> ts_n_threads s then term_goto i (TermFault (AssertFailed ''Invariant'')) s
             else term_goto i (Peeking 0 sp) s)"

text \<open>One iteration of \<open>peek\<close> over the queues of the set, and what follows its end:
  \<open>te\<close> is what a terminator, where there is one, answers to \<open>should_exit_termination\<close>.\<close>

definition peek_round :: "bool \<Rightarrow> nat \<Rightarrow> nat \<Rightarrow> spin \<Rightarrow> 'a term_state \<Rightarrow> 'a term_state" where
  "peek_round te i j sp s =
     (if j < ts_n_queues s
      then (if ts_queues s j \<noteq> [] then term_goto i Leaving s else term_goto i (Peeking (Suc j) sp) s)
      else if te then term_goto i Leaving s
      else term_goto i (Waiting sp) s)"

definition check_left :: "nat \<Rightarrow> 'a term_state \<Rightarrow> 'a term_state" where
  "check_left i s =
     (if \<not> ts_offered s < ts_n_threads s then term_goto i (TermFault (AssertFailed ''Invariant'')) s
      else term_goto i Hungry s)"

fun term_access :: "spin_flags \<Rightarrow> bool \<Rightarrow> nat \<Rightarrow> term_pc \<Rightarrow> 'a term_state \<Rightarrow> 'a term_state" where
  "term_access fl te i Offering s = (term_goto i (Waiting (spin_init fl)) s)\<lparr>ts_offered := ts_offered s + 1\<rparr>"
| "term_access fl te i (Waiting sp) s = wait_round fl i sp s"
| "term_access fl te i (Pausing act sp) s = pause_round i act sp s"
| "term_access fl te i (Peeking j sp) s = peek_round te i j sp s"
| "term_access fl te i Leaving s = (term_goto i CheckLeft s)\<lparr>ts_offered := ts_offered s - 1\<rparr>"
| "term_access fl te i CheckLeft s = check_left i s"
| "term_access fl te i pc s = s"

text \<open>
  The steps of the threads below \<open>_n_threads\<close>: those of the loop of
  \<open>StealBDARefTask::do_it\<close> and, inside \<open>offer_termination\<close>, one for each access to
  shared memory.
\<close>

inductive term_step :: "spin_flags \<Rightarrow> 'a term_state \<Rightarrow> 'a term_state \<Rightarrow> bool" for fl where
  push: "int i < ts_n_threads s \<Longrightarrow> ts_pc s i = Busy \<Longrightarrow> term_step fl s (term_queue i (ts_queues s i @ [t]) s)"
| pop: "int i < ts_n_threads s \<Longrightarrow> ts_pc s i = Busy \<Longrightarrow> ts_queues s i = ts @ [t] \<Longrightarrow>
    term_step fl s (term_queue i ts s)"
| drained: "int i < ts_n_threads s \<Longrightarrow> ts_pc s i = Busy \<Longrightarrow> ts_queues s i = [] \<Longrightarrow>
    term_step fl s (term_goto i Hungry s)"
| stole: "int i < ts_n_threads s \<Longrightarrow> ts_pc s i = Hungry \<Longrightarrow> k \<noteq> i \<Longrightarrow> k < ts_n_queues s \<Longrightarrow>
    ts_queues s k = t # ts \<Longrightarrow> term_step fl s (term_goto i Busy (term_queue k ts s))"
| offer: "int i < ts_n_threads s \<Longrightarrow> ts_pc s i = Hungry \<Longrightarrow> term_step fl s (enter_offer i s)"
| access: "int i < ts_n_threads s \<Longrightarrow> ts_pc s i \<noteq> Busy \<Longrightarrow> ts_pc s i \<noteq> Hungry \<Longrightarrow>
    term_step fl s (term_access fl te i (ts_pc s i) s)"

definition reset_for_reuse :: "'a term_state \<Rightarrow> 'a term_state result" where
  "reset_for_reuse s =
     (if ts_offered s \<noteq> 0
      then (if ts_offered s \<noteq> ts_n_threads s then Inl (AssertFailed ''Terminator may still be in use'')
            else Inr (s\<lparr>ts_offered := 0\<rparr>))
      else Inr s)"

definition reset_for_reuse_n :: "int \<Rightarrow> 'a term_state \<Rightarrow> 'a term_state result" where
  "reset_for_reuse_n n s = bind_result (reset_for_reuse s) (\<lambda>s. Inr (s\<lparr>ts_n_threads := n\<rparr>))"

section \<open>When termination is declared\<close>

fun counted :: "term_pc \<Rightarrow> bool" where
  "counted (Waiting sp) \<longleftrightarrow> True"
| "counted (Pausing act sp) \<longleftrightarrow> True"
| "counted (Peeking j sp) \<longleftrightarrow> True"
| "counted Leaving \<longleftrightarrow> True"
| "counted AllDone \<longleftrightarrow> True"
| "counted pc \<longleftrightarrow> False"

fun term_failed :: "term_pc \<Rightarrow> bool" where
  "term_failed (TermFault e) \<longleftrightarrow> True"
| "term_failed pc \<longleftrightarrow> False"

definition offering :: "nat \<Rightarrow> 'a term_state \<Rightarrow> nat set" where
  "offering n s = {i. i < n \<and> counted (ts_pc s i)}"

definition quiescent :: "nat \<Rightarrow> 'a term_state \<Rightarrow> bool" where
  "quiescent n s \<longleftrightarrow> (\<forall>i. i < n \<longrightarrow> ts_pc s i \<noteq> Busy)"

definition term_inv :: "nat \<Rightarrow> 'a term_state \<Rightarrow> bool" where
  "term_inv n s \<longleftrightarrow> 0 < n \<and> n \<le> ts_n_queues s \<and> ts_n_threads s = int n \<and>
     ts_offered s = int (card (offering n s)) \<and>
     (\<forall>i < ts_n_queues s. ts_queues s i \<noteq> [] \<longrightarrow> i < n \<and> ts_pc s i = Busy) \<and>
     (\<forall>i < n. \<not> term_failed (ts_pc s i)) \<and>
     ((\<exists>i < n. ts_pc s i = AllDone) \<longrightarrow> quiescent n s)"

lemma finite_offering [simp]: "finite (offering n s)"
  by (simp add: offering_def)

lemma card_offering_le: "card (offering n s) \<le> n"
  using card_mono[of "{..<n}" "offering n s"] by (auto simp: offering_def)

lemma card_offering_less: "i < n \<Longrightarrow> \<not> counted (ts_pc s i) \<Longrightarrow> card (offering n s) < n"
  using psubset_card_mono[of "{..<n}" "offering n s"] by (auto simp: offering_def)

lemma all_offering: "card (offering n s) = n \<Longrightarrow> i < n \<Longrightarrow> counted (ts_pc s i)"
  using card_offering_less by (metis less_irrefl)

lemma offering_goto:
  "i < n \<Longrightarrow> offering n (term_goto i pc s) = (if counted pc then insert i (offering n s) else offering n s - {i})"
  by (auto simp: offering_def)

lemma offering_mem: "i \<in> offering n s \<longleftrightarrow> i < n \<and> counted (ts_pc s i)"
  by (simp add: offering_def)

lemma idle_queue: "term_inv n s \<Longrightarrow> i < n \<Longrightarrow> ts_pc s i \<noteq> Busy \<Longrightarrow> ts_queues s i = []"
  unfolding term_inv_def by (meson less_le_trans)

text \<open>A thread that moves between two places where it is counted, or between two where it is
  not, and neither starts nor stops working, keeps the invariant.\<close>

lemma term_inv_goto:
  assumes "term_inv n s" "i < n" "counted pc = counted (ts_pc s i)" "\<not> term_failed pc" "pc \<noteq> Busy" "ts_pc s i \<noteq> Busy"
    "pc = AllDone \<Longrightarrow> quiescent n s"
  shows "term_inv n (term_goto i pc s)"
proof -
  have o: "offering n (term_goto i pc s) = offering n s"
    using assms(2,3) by (auto simp: offering_def)
  have q: "quiescent n s \<Longrightarrow> quiescent n (term_goto i pc s)"
    using assms(5) by (simp add: quiescent_def)
  show ?thesis
    using assms o q idle_queue[OF assms(1,2,6)] by (auto simp: term_inv_def)
qed

lemma term_inv_count:
  assumes "term_inv n s" "i < n" "\<not> term_failed pc" "pc \<noteq> Busy" "pc \<noteq> AllDone" "ts_pc s i \<noteq> Busy"
    and "k = int (card (offering n (term_goto i pc s)))"
  shows "term_inv n ((term_goto i pc s)\<lparr>ts_offered := k\<rparr>)"
proof -
  have o: "offering n (x\<lparr>ts_offered := k\<rparr>) = offering n x" for x :: "'a term_state"
    by (simp add: offering_def)
  have q: "quiescent n s \<Longrightarrow> quiescent n ((term_goto i pc s)\<lparr>ts_offered := k\<rparr>)"
    using assms(4) by (simp add: quiescent_def)
  show ?thesis
    using assms o q idle_queue[OF assms(1,2,6)] by (auto simp: term_inv_def)
qed

lemma term_inv_access:
  assumes inv: "term_inv n s" and i: "i < n" and pc: "ts_pc s i \<noteq> Busy" "ts_pc s i \<noteq> Hungry"
  shows "term_inv n (term_access fl te i (ts_pc s i) s)"
proof -
  have n: "ts_n_threads s = int n" "ts_offered s = int (card (offering n s))" "0 < n"
    using inv by (auto simp: term_inv_def)
  have le: "card (offering n s) \<le> n" by (rule card_offering_le)
  have lt: "\<not> counted (ts_pc s i) \<Longrightarrow> card (offering n s) < n" by (rule card_offering_less[OF i])
  have every: "card (offering n s) = n \<Longrightarrow> quiescent n s"
    using all_offering[of n s] by (fastforce simp: quiescent_def)
  note go = term_inv_goto[OF inv i] and cnt = term_inv_count[OF inv i]
  show ?thesis
  proof (cases "ts_pc s i")
    case Offering
    then have "i \<notin> offering n s" by (simp add: offering_mem)
    then show ?thesis using Offering i n by (auto intro!: cnt simp: offering_goto)
  next
    case (Waiting sp)
    then show ?thesis using n le every by (auto simp: wait_round_def split: prod.split intro!: go)
  next
    case (Pausing act sp)
    then show ?thesis using n le by (auto simp: pause_round_def split: spin_action.split intro!: go)
  next
    case (Peeking j sp)
    then show ?thesis by (auto simp: peek_round_def intro!: go)
  next
    case Leaving
    then have "i \<in> offering n s" using i by (simp add: offering_mem)
    then have "ts_offered s - 1 = int (card (offering n s - {i}))"
      using n(2) card_gt_0_iff[of "offering n s"] by (auto simp: card_Diff_singleton of_nat_diff)
    then show ?thesis using Leaving i by (auto intro!: cnt simp: offering_goto)
  next
    case CheckLeft
    then show ?thesis using n lt by (auto simp: check_left_def intro!: go)
  next
    case AllDone
    then show ?thesis using inv by simp
  next
    case (TermFault e)
    then show ?thesis using inv by simp
  qed (use pc in simp_all)
qed

lemma term_inv_work:
  assumes inv: "term_inv n s" and i: "i < n" and b: "ts_pc s i = Busy"
  shows "term_inv n (term_queue i ts s)" and "ts_queues s i = [] \<Longrightarrow> term_inv n (term_goto i Hungry s)"
proof -
  have o: "offering n (term_queue i ts s) = offering n s" "offering n (term_goto i Hungry s) = offering n s"
    using b by (auto simp: offering_def)
  have q: "\<not> quiescent n s" using i b by (auto simp: quiescent_def)
  show "term_inv n (term_queue i ts s)" using assms o q by (auto simp: term_inv_def)
  show "term_inv n (term_goto i Hungry s)" if "ts_queues s i = []"
    using assms o q that by (auto simp: term_inv_def)
qed

lemma term_inv_stole:
  assumes inv: "term_inv n s" and i: "i < n" and h: "ts_pc s i = Hungry"
    and k: "k \<noteq> i" "k < ts_n_queues s" "ts_queues s k = t # ts"
  shows "term_inv n (term_goto i Busy (term_queue k ts s))"
proof -
  have o: "offering n (term_goto i Busy (term_queue k ts s)) = offering n s"
    using h by (auto simp: offering_def)
  have b: "k < n" "ts_pc s k = Busy" using inv k by (auto simp: term_inv_def)
  then have q: "\<not> quiescent n s" by (auto simp: quiescent_def)
  have "ts_queues s i = []" using idle_queue[OF inv i] h by simp
  then show ?thesis using assms o q b by (auto simp: term_inv_def)
qed

lemma term_inv_threads: "term_inv n s \<Longrightarrow> int i < ts_n_threads s \<longleftrightarrow> i < n"
  by (simp add: term_inv_def)

lemma term_inv_offer:
  assumes "term_inv n s" "i < n" "ts_pc s i = Hungry"
  shows "term_inv n (enter_offer i s)"
proof -
  have "ts_offered s < ts_n_threads s" "0 < ts_n_threads s"
    using assms card_offering_less[of i n s] by (auto simp: term_inv_def)
  then show ?thesis using assms by (auto simp: enter_offer_def intro!: term_inv_goto)
qed

lemma term_inv_step:
  assumes "term_step fl s s'" "term_inv n s"
  shows "term_inv n s'"
  using assms
proof (induction rule: term_step.induct)
  case (stole i s k t ts)
  then show ?case by (intro term_inv_stole) (simp_all add: term_inv_threads)
qed (simp_all add: term_inv_threads term_inv_work term_inv_offer term_inv_access)

inductive term_run :: "spin_flags \<Rightarrow> 'a term_state \<Rightarrow> 'a term_state \<Rightarrow> bool" for fl where
  start: "term_run fl s s"
| more: "term_run fl s s' \<Longrightarrow> term_step fl s' s'' \<Longrightarrow> term_run fl s s''"

lemma term_inv_run: "term_run fl s s' \<Longrightarrow> term_inv n s \<Longrightarrow> term_inv n s'"
  by (induction rule: term_run.induct) (auto intro: term_inv_step)

lemma term_inv_new:
  assumes "0 < n" "n \<le> m" "\<And>i. n \<le> i \<Longrightarrow> qs i = []"
  shows "term_inv n (new_terminator n m qs)"
proof -
  have "qs i \<noteq> [] \<Longrightarrow> i < n" for i using assms(3)[of i] by linarith
  then show ?thesis using assms(1,2) by (auto simp: term_inv_def new_terminator_def offering_def)
qed

text \<open>The invariant says what the two outcomes of a call mean.\<close>

lemma term_inv_done:
  assumes "term_inv n s" "i < n" "ts_pc s i = AllDone" "j < ts_n_queues s"
  shows "ts_queues s j = []" and "j < n \<Longrightarrow> ts_pc s j \<noteq> Busy"
proof -
  have q: "quiescent n s" using assms by (auto simp: term_inv_def)
  then show "j < n \<Longrightarrow> ts_pc s j \<noteq> Busy" by (simp add: quiescent_def)
  show "ts_queues s j = []"
    using assms(1,4) q by (auto simp: term_inv_def quiescent_def)
qed

lemma term_fault_free: "term_inv n s \<Longrightarrow> i < n \<Longrightarrow> ts_pc s i \<noteq> TermFault e"
  by (auto simp: term_inv_def)

lemma AllDone_step: "term_step fl s s' \<Longrightarrow> ts_pc s i = AllDone \<Longrightarrow> ts_pc s' i = AllDone"
proof (induction rule: term_step.induct)
  case (access k s te)
  then show ?case
    by (cases "ts_pc s k") (auto simp: wait_round_def pause_round_def peek_round_def check_left_def
        split: spin_action.split prod.split)
qed (auto simp: enter_offer_def)

lemma AllDone_run: "term_run fl s s' \<Longrightarrow> ts_pc s i = AllDone \<Longrightarrow> ts_pc s' i = AllDone"
  by (induction rule: term_run.induct) (auto intro: AllDone_step)

lemma queues_step: "term_step fl s s' \<Longrightarrow> ts_n_queues s' = ts_n_queues s"
proof (induction rule: term_step.induct)
  case (access k s te)
  then show ?case
    by (cases "ts_pc s k") (auto simp: wait_round_def pause_round_def peek_round_def check_left_def
        split: spin_action.split prod.split)
qed (auto simp: enter_offer_def)

lemma queues_run: "term_run fl s s' \<Longrightarrow> ts_n_queues s' = ts_n_queues s"
  by (induction rule: term_run.induct) (auto dest: queues_step)

text \<open>C7: Termination is declared only when there is nothing left to do.  Start \<open>n\<close> threads on
  any queues (those of the set beyond the threads are empty), and let them push, pop, steal and
  offer termination in any interleaving of their accesses to the counter and the queues.  As soon
  as \<open>offer_termination\<close> has returned true to one of them, every queue of the set is empty and
  no thread holds a task, in that state and in every later one; the counter is always the number
  of threads inside the waiting loop, and none of the assertions of the terminator fails.\<close>

theorem termination_is_global:
  assumes "0 < n" "n \<le> m" "\<And>i. n \<le> i \<Longrightarrow> qs i = []"
    and "term_run fl (new_terminator n m qs) s" and "i < n"
  shows "ts_offered s = int (card {i. i < n \<and> counted (ts_pc s i)}) \<and> (\<forall>e. ts_pc s i \<noteq> TermFault e) \<and>
    (ts_pc s i = AllDone \<longrightarrow> (\<forall>s'. term_run fl s s' \<longrightarrow>
       (\<forall>j < m. ts_queues s' j = []) \<and> (\<forall>j < n. ts_pc s' j \<noteq> Busy) \<and> ts_pc s' i = AllDone))"
proof -
  have inv: "term_inv n s" using term_inv_run[OF assms(4) term_inv_new[OF assms(1-3)]] .
  have m: "ts_n_queues s = m" using queues_run[OF assms(4)] by (simp add: new_terminator_def)
  have "(\<forall>j < m. ts_queues s' j = []) \<and> (\<forall>j < n. ts_pc s' j \<noteq> Busy) \<and> ts_pc s' i = AllDone"
    if "ts_pc s i = AllDone" "term_run fl s s'" for s'
    using term_inv_done[OF term_inv_run[OF that(2) inv] assms(5) AllDone_run[OF that(2,1)]]
      queues_run[OF that(2)] AllDone_run[OF that(2,1)] m assms(2) by auto
  then show ?thesis
    using inv term_fault_free[OF inv assms(5)] by (auto simp: term_inv_def offering_def)
qed

text \<open>A scheduler for the model: the thread pops or offers as soon as it can.\<close>

definition term_pick :: "spin_flags \<Rightarrow> nat \<Rightarrow> 'a term_state \<Rightarrow> 'a term_state" where
  "term_pick fl i s =
     (case ts_pc s i of
        Busy \<Rightarrow> if ts_queues s i = [] then term_goto i Hungry s else term_queue i (butlast (ts_queues s i)) s
      | Hungry \<Rightarrow> enter_offer i s
      | pc \<Rightarrow> term_access fl False i pc s)"

lemma term_pick_step: "int i < ts_n_threads s \<Longrightarrow> term_step fl s (term_pick fl i s)"
proof (cases "ts_pc s i")
  case Busy
  then show "int i < ts_n_threads s \<Longrightarrow> ?thesis"
    using term_step.pop[of i s "butlast (ts_queues s i)" "last (ts_queues s i)"]
    by (auto simp: term_pick_def intro: term_step.drained)
qed (auto simp: term_pick_def intro: term_step.offer dest: term_step.access[of i s fl False])

lemma term_inv_pick: "term_inv n s \<Longrightarrow> i < n \<Longrightarrow> term_inv n (term_pick fl i s)"
  by (rule term_inv_step[OF term_pick_step]) (simp_all add: term_inv_threads)

lemma term_run_picks:
  "term_inv n s \<Longrightarrow> (\<forall>i \<in> set is. i < n) \<Longrightarrow> term_run fl s0 s \<Longrightarrow> term_run fl s0 (fold (term_pick fl) is s)"
proof (induction "is" arbitrary: s)
  case (Cons i "is")
  then show ?case
    using term_run.more[OF Cons.prems(3) term_pick_step[of i s fl]] term_inv_pick[of n s i fl]
    by (simp add: term_inv_threads)
qed simp

text \<open>The property on a run: two threads on three queues, the first with two tasks.\<close>

definition demo_flags :: spin_flags where
  "demo_flags = \<lparr>WorkStealingHardSpins = 4096, WorkStealingSpinToYieldRatio = 10, WorkStealingYieldsBeforeSleep = 5000\<rparr>"

definition demo_queues :: "nat \<Rightarrow> nat list" where
  "demo_queues i = (if i = 0 then [7, 8] else [])"

definition demo_end :: "nat term_state" where
  "demo_end = fold (term_pick demo_flags) [0, 1, 1, 1, 1, 1, 1, 1, 0, 0, 0, 0, 0, 1, 1, 1, 1, 0]
     (new_terminator 2 3 demo_queues)"

lemmas demo_simps = demo_end_def demo_queues_def demo_flags_def term_pick_def new_terminator_def enter_offer_def
  wait_round_def pause_round_def peek_round_def check_left_def spin_init_def spin_once_def Let_def

lemma demo_pc: "ts_pc demo_end 1 = AllDone" "\<exists>sp. ts_pc demo_end 0 = Peeking 0 sp"
  by (simp_all add: demo_simps)

lemma demo_run: "term_run demo_flags (new_terminator 2 3 demo_queues) demo_end"
  unfolding demo_end_def
  by (rule term_run_picks[of 2]) (auto intro: term_inv_new term_run.start simp: demo_queues_def)

lemma demo_threads: "ts_n_threads demo_end = 2"
  by (simp add: demo_simps)

theorem termination_is_global_witness:
  "ts_offered demo_end = 2 \<and> ts_pc demo_end 1 = AllDone \<and> ts_queues (term_pick demo_flags 0 demo_end) 0 = [] \<and>
   ts_queues (term_pick demo_flags 0 demo_end) 2 = [] \<and> ts_pc (term_pick demo_flags 0 demo_end) 1 = AllDone"
proof -
  have q: "2 \<le> i \<Longrightarrow> demo_queues i = []" for i by (simp add: demo_queues_def)
  have g: "ts_pc demo_end 1 = AllDone \<longrightarrow> (\<forall>s'. term_run demo_flags demo_end s' \<longrightarrow>
       (\<forall>j < 3. ts_queues s' j = []) \<and> (\<forall>j < 2. ts_pc s' j \<noteq> Busy) \<and> ts_pc s' 1 = AllDone)"
    using termination_is_global[of 2 3 demo_queues demo_flags demo_end 1] q demo_run by simp
  have "term_run demo_flags demo_end (term_pick demo_flags 0 demo_end)"
    using demo_threads by (intro term_run.more[OF term_run.start term_pick_step]) simp
  moreover have "ts_offered demo_end = 2" by (simp add: demo_simps)
  ultimately show ?thesis using g demo_pc by simp
qed

section \<open>Every thread can leave\<close>

lemma term_run_trans: "term_run fl s' s'' \<Longrightarrow> term_run fl s s' \<Longrightarrow> term_run fl s s''"
  by (induction rule: term_run.induct) (auto intro: term_run.more)

fun settle_rank :: "nat \<Rightarrow> term_pc \<Rightarrow> nat" where
  "settle_rank m Offering = 1"
| "settle_rank m Hungry = 2"
| "settle_rank m CheckLeft = 3"
| "settle_rank m Leaving = 4"
| "settle_rank m (Peeking j sp) = Suc (m - j)"
| "settle_rank m (Pausing act sp) = Suc (Suc m)"
| "settle_rank m pc = 0"

lemma pick_other: "j \<noteq> i \<Longrightarrow> ts_pc (term_pick fl i s) j = ts_pc s j"
  by (cases "ts_pc s i") (auto simp: term_pick_def enter_offer_def wait_round_def pause_round_def peek_round_def
      check_left_def split: spin_action.split prod.split)

lemma pick_not_busy: "ts_pc s i \<noteq> Busy \<Longrightarrow> ts_pc (term_pick fl i s) i \<noteq> Busy"
  by (cases "ts_pc s i") (auto simp: term_pick_def enter_offer_def wait_round_def pause_round_def peek_round_def
      check_left_def split: spin_action.split prod.split)

lemma quiescent_pick: "quiescent n s \<Longrightarrow> i < n \<Longrightarrow> quiescent n (term_pick fl i s)"
  by (metis quiescent_def pick_other pick_not_busy)

lemma quiescent_queues: "term_inv n s \<Longrightarrow> quiescent n s \<Longrightarrow> j < ts_n_queues s \<Longrightarrow> ts_queues s j = []"
  by (auto simp: term_inv_def quiescent_def)

lemma rank_pick:
  assumes inv: "term_inv n s" and q: "quiescent n s" and i: "i < n"
    and r: "0 < settle_rank (ts_n_queues s) (ts_pc s i)"
  shows "settle_rank (ts_n_queues s) (ts_pc (term_pick fl i s) i) < settle_rank (ts_n_queues s) (ts_pc s i)"
proof -
  have n: "ts_n_threads s = int n" "ts_offered s = int (card (offering n s))" "0 < n"
    using inv by (auto simp: term_inv_def)
  have le: "card (offering n s) \<le> n" by (rule card_offering_le)
  have lt: "\<not> counted (ts_pc s i) \<Longrightarrow> card (offering n s) < n" by (rule card_offering_less[OF i])
  show ?thesis
    using r n le lt quiescent_queues[OF inv q]
    by (cases "ts_pc s i") (auto simp: term_pick_def enter_offer_def pause_round_def peek_round_def check_left_def
        split: spin_action.split)
qed

definition calm :: "spin_flags \<Rightarrow> nat \<Rightarrow> 'a term_state \<Rightarrow> 'a term_state \<Rightarrow> bool" where
  "calm fl n s s' \<longleftrightarrow> term_run fl s s' \<and> term_inv n s' \<and> quiescent n s' \<and> ts_n_queues s' = ts_n_queues s"

lemma calm_refl: "term_inv n s \<Longrightarrow> quiescent n s \<Longrightarrow> calm fl n s s"
  by (simp add: calm_def term_run.start)

lemma calm_trans: "calm fl n s s' \<Longrightarrow> calm fl n s' s'' \<Longrightarrow> calm fl n s s''"
  by (auto simp: calm_def intro: term_run_trans)

lemma calm_pick:
  assumes "term_inv n s" "quiescent n s" "i < n"
  shows "calm fl n s (term_pick fl i s)"
proof -
  have st: "term_step fl s (term_pick fl i s)" using assms by (simp add: term_pick_step term_inv_threads)
  then show ?thesis
    using assms term_run.more[OF term_run.start st] queues_step[OF st]
    by (simp add: calm_def quiescent_pick term_inv_pick)
qed

lemma settle_one:
  assumes "term_inv n s" "quiescent n s" "i < n"
  shows "\<exists>s'. calm fl n s s' \<and> settle_rank (ts_n_queues s) (ts_pc s' i) = 0 \<and> (\<forall>j. j \<noteq> i \<longrightarrow> ts_pc s' j = ts_pc s j)"
  using assms
proof (induction "settle_rank (ts_n_queues s) (ts_pc s i)" arbitrary: s rule: less_induct)
  case less
  show ?case
  proof (cases "settle_rank (ts_n_queues s) (ts_pc s i) = 0")
    case True
    then show ?thesis using calm_refl less.prems by blast
  next
    case False
    define t where "t = term_pick fl i s"
    have c: "calm fl n s t" unfolding t_def using less.prems by (rule calm_pick)
    then have t: "term_inv n t" "quiescent n t" "ts_n_queues t = ts_n_queues s" by (auto simp: calm_def)
    have "settle_rank (ts_n_queues t) (ts_pc t i) < settle_rank (ts_n_queues s) (ts_pc s i)"
      using rank_pick[OF less.prems] False t by (simp add: t_def)
    from less.hyps[OF this t(1,2) less.prems(3)] obtain s' where
      s': "calm fl n t s'" "settle_rank (ts_n_queues t) (ts_pc s' i) = 0" "\<forall>j. j \<noteq> i \<longrightarrow> ts_pc s' j = ts_pc t j"
      by blast
    then show ?thesis using calm_trans[OF c s'(1)] t(3) by (auto simp: t_def pick_other)
  qed
qed

lemma settle_all:
  assumes "term_inv n s" "quiescent n s" "k \<le> n"
  shows "\<exists>s'. calm fl n s s' \<and> (\<forall>i < k. settle_rank (ts_n_queues s) (ts_pc s' i) = 0)"
  using assms(3)
proof (induction k)
  case 0
  then show ?case using calm_refl assms by blast
next
  case (Suc k)
  then obtain t where t: "calm fl n s t" "\<forall>i < k. settle_rank (ts_n_queues s) (ts_pc t i) = 0" by auto
  then have "ts_n_queues t = ts_n_queues s" "term_inv n t" "quiescent n t" by (auto simp: calm_def)
  with settle_one[of n t k fl] Suc.prems obtain s' where
    "calm fl n t s'" "settle_rank (ts_n_queues s) (ts_pc s' k) = 0" "\<forall>j. j \<noteq> k \<longrightarrow> ts_pc s' j = ts_pc t j" by auto
  then show ?case using calm_trans[OF t(1)] t(2) by (metis less_Suc_eq)
qed

lemma settled_counted:
  assumes "term_inv n s" "quiescent n s" "i < n" "settle_rank m (ts_pc s i) = 0"
  shows "ts_pc s i = AllDone \<or> (\<exists>sp. ts_pc s i = Waiting sp)"
  using assms by (cases "ts_pc s i") (auto simp: term_inv_def quiescent_def)

lemma leave_all:
  assumes "term_inv n s" "quiescent n s" "\<forall>i < n. settle_rank m (ts_pc s i) = 0" "k \<le> n"
  shows "\<exists>s'. calm fl n s s' \<and> (\<forall>i < n. settle_rank m (ts_pc s' i) = 0) \<and> (\<forall>i < k. ts_pc s' i = AllDone)"
  using assms(4)
proof (induction k)
  case 0
  then show ?case using calm_refl assms by blast
next
  case (Suc k)
  then obtain t where t: "calm fl n s t" "\<forall>i < n. settle_rank m (ts_pc t i) = 0" "\<forall>i < k. ts_pc t i = AllDone" by auto
  then have i: "term_inv n t" "quiescent n t" by (auto simp: calm_def)
  have "offering n t = {..<n}"
    using settled_counted[OF i] t(2) by (fastforce simp: offering_def)
  then have off: "ts_offered t = ts_n_threads t" using i(1) by (simp add: term_inv_def)
  have k: "k < n" using Suc.prems by simp
  have d: "ts_pc (term_pick fl k t) k = AllDone"
    using settled_counted[OF i k, of m] t(2) k off by (auto simp: term_pick_def wait_round_def)
  have "\<forall>i < n. settle_rank m (ts_pc (term_pick fl k t) i) = 0"
  proof (intro allI impI)
    fix i assume "i < n"
    then show "settle_rank m (ts_pc (term_pick fl k t) i) = 0"
      using t(2) d pick_other[of i k fl t] by (cases "i = k") auto
  qed
  moreover have "\<forall>i < Suc k. ts_pc (term_pick fl k t) i = AllDone"
    using t(3) d pick_other[of _ k fl t] by (metis less_Suc_eq)
  ultimately show ?case using calm_trans[OF t(1) calm_pick[OF i k, of fl]] by blast
qed

text \<open>C21: Termination is not missed.  In every state the threads can reach in which none of them
  holds a task, wherever they stand in \<open>offer_termination\<close>, spinning, peeking or on their way
  out, there is a continuation in which the call returns true to every one of them.\<close>

theorem termination_can_complete:
  assumes "0 < n" "n \<le> m" "\<And>i. n \<le> i \<Longrightarrow> qs i = []"
    and "term_run fl (new_terminator n m qs) s" and "\<And>i. i < n \<Longrightarrow> ts_pc s i \<noteq> Busy"
  shows "\<exists>s'. term_run fl s s' \<and> (\<forall>i < n. ts_pc s' i = AllDone)"
proof -
  have inv: "term_inv n s" using term_inv_run[OF assms(4) term_inv_new[OF assms(1-3)]] .
  have q: "quiescent n s" using assms(5) by (simp add: quiescent_def)
  from settle_all[OF inv q order.refl] obtain t where
    t: "calm fl n s t" "\<forall>i < n. settle_rank (ts_n_queues s) (ts_pc t i) = 0" by blast
  then have "term_inv n t" "quiescent n t" by (auto simp: calm_def)
  from leave_all[OF this t(2) order.refl] obtain s' where "calm fl n t s'" "\<forall>i < n. ts_pc s' i = AllDone" by blast
  then show ?thesis using calm_trans[OF t(1)] by (auto simp: calm_def)
qed

theorem termination_can_complete_witness:
  "\<exists>s'. term_run demo_flags demo_end s' \<and> ts_pc s' 0 = AllDone \<and> ts_pc s' 1 = AllDone"
proof -
  have "2 \<le> i \<Longrightarrow> demo_queues i = []" for i by (simp add: demo_queues_def)
  moreover have "ts_pc demo_end i \<noteq> Busy" if "i < 2" for i
    using that demo_pc by (auto simp: less_2_cases_iff)
  ultimately obtain s' where "term_run demo_flags demo_end s'" "\<forall>i < 2. ts_pc s' i = AllDone"
    using termination_can_complete[of 2 3 demo_queues demo_flags demo_end] demo_run by auto
  then show ?thesis by auto
qed

text \<open>A terminator that has declared termination to all its threads may be used again.\<close>

lemma reset_after_termination:
  assumes "term_inv n s" "\<And>i. i < n \<Longrightarrow> ts_pc s i = AllDone"
  shows "reset_for_reuse_n k s = Inr (s\<lparr>ts_offered := 0, ts_n_threads := k\<rparr>)"
proof -
  have "offering n s = {..<n}" using assms(2) by (auto simp: offering_def)
  then show ?thesis using assms(1) by (auto simp: reset_for_reuse_n_def reset_for_reuse_def term_inv_def)
qed

lemma reset_while_used: "reset_for_reuse s = Inl e \<longleftrightarrow>
    ts_offered s \<notin> {0, ts_n_threads s} \<and> e = AssertFailed ''Terminator may still be in use''"
  by (auto simp: reset_for_reuse_def)

end
