(* ===== verification/RootTasks.thy ===== *)
theory RootTasks
  imports BdaQueues BdaSafety "HOL-Library.Multiset"
begin

text \<open>
  \<open>OldToYoungBDARootsTask\<close> of \<open>bda/bdaTasks.cpp\<close>.  Before the tasks start,
  \<open>save_tops_for_scavenge\<close> notes the top of every container and the last
  container of every group.  Task \<open>k\<close> of \<open>W\<close> then walks each group backwards
  from that container, beginning \<open>k\<close> containers before it and taking every
  \<open>W\<close>-th.  The tasks run at the same time, and promotion puts new containers
  at the end of the queues meanwhile.
\<close>

section \<open>The task\<close>

text \<open>
  A task stands at its entry, at the head of the loop over the groups, at the head
  of the loop over the containers, at the end of that loop's body, or is over.  A
  step returns the container it hands to \<open>scavenge_bda_contents_parallel\<close> and
  the address up to which it is to be scanned; the allocations that scanning and
  \<open>drain_bda_stacks\<close> make are steps of their own.
\<close>

datatype root_pc = Enter | NextSpace nat | Walk nat container_t | Advance nat cid | RootsDone

fun task_step ::
  "nat \<Rightarrow> nat \<Rightarrow> nat \<Rightarrow> bda_space \<Rightarrow> root_pc \<Rightarrow> (bda_space \<times> root_pc \<times> (cid \<times> addr) option) result" where
  "task_step ParallelGCThreads batch_width order_number s Enter =
     (case bs_used_in_words s of
        Some (Inl e) \<Rightarrow> Inl e
      | Some (Inr n) \<Rightarrow>
          if n > 0 then
            if order_number < ParallelGCThreads then Inr (s, NextSpace 0, None) else Inl (AssertFailed ''Sanity'')
          else Inl (AssertFailed ''Should not be called if there is no work.'')
      | None \<Rightarrow> Inr (s, Enter, None))"
| "task_step ParallelGCThreads batch_width order_number s (NextSpace spc_id) =
     (if spc_id < length (bs_spaces s) then
        bind_result (cs_at s (int spc_id)) (\<lambda>bda_space.
        if cs_last_segment bda_space = None then Inr (s, NextSpace (spc_id + 1), None)
        else bind_result (get_previous_n_segment (bs_cells s) (cs_last_segment bda_space) (int order_number)) (\<lambda>c.
          Inr (s, Walk spc_id c, None)))
      else Inr (s, RootsDone, None))"
| "task_step ParallelGCThreads batch_width order_number s (Walk spc_id None) = Inr (s, NextSpace (spc_id + 1), None)"
| "task_step ParallelGCThreads batch_width order_number s (Walk spc_id (Some c)) =
     bind_result (cget (bs_cells s) (Some c)) (\<lambda>k.
     if c_saved_top k = NULL \<or> c_start k = c_saved_top k then Inr (s, Advance spc_id c, None)
     else if c_scanned_flag k \<noteq> -1 then Inl (AssertFailed ''this segment was already scanned.'')
     else bind_result (cmod (bs_cells s) (Some c) (\<lambda>k. k\<lparr>c_scanned_flag := int order_number\<rparr>)) (\<lambda>h.
       if c_start k < c_saved_top k then Inr (s\<lparr>bs_cells := h\<rparr>, Advance spc_id c, Some (c, c_saved_top k))
       else Inl (AssertFailed ''container or segment is empty allocated'')))"
| "task_step ParallelGCThreads batch_width order_number s (Advance spc_id c) =
     bind_result (get_previous_n_segment (bs_cells s) (Some c) (int batch_width)) (\<lambda>c.
     Inr (s, Walk spc_id c, None))"
| "task_step ParallelGCThreads batch_width order_number s RootsDone = Inr (s, RootsDone, None)"

text \<open>
  All tasks of a scavenge.  \<open>rs_log\<close> and \<open>rs_steps\<close> only record: which task
  scanned which container up to where, and how many steps each has taken.
\<close>

record roots_state =
  rs_space :: bda_space
  rs_pc :: "nat \<Rightarrow> root_pc"
  rs_log :: "(nat \<times> cid \<times> addr) list"
  rs_steps :: "nat \<Rightarrow> nat"

definition roots_start :: "bda_space \<Rightarrow> roots_state" where
  "roots_start s = \<lparr>rs_space = s, rs_pc = (\<lambda>_. Enter), rs_log = [], rs_steps = (\<lambda>_. 0)\<rparr>"

definition log_of :: "nat \<Rightarrow> (cid \<times> addr) option \<Rightarrow> (nat \<times> cid \<times> addr) list" where
  "log_of k ev = (case ev of None \<Rightarrow> [] | Some e \<Rightarrow> [(k, e)])"

inductive roots_step :: "bda_flags \<Rightarrow> nat \<Rightarrow> nat \<Rightarrow> roots_state \<Rightarrow> roots_state \<Rightarrow> bool" for fl n W where
  task: "k < W \<Longrightarrow> rs_pc st k \<noteq> RootsDone \<Longrightarrow> task_step n W k (rs_space st) (rs_pc st k) = Inr (s', pc, ev) \<Longrightarrow>
    roots_step fl n W st (st\<lparr>rs_space := s', rs_pc := (rs_pc st)(k := pc), rs_log := rs_log st @ log_of k ev,
      rs_steps := (rs_steps st)(k := rs_steps st k + 1)\<rparr>)"
| promote: "do_request fl r (rs_space st) = Some (Inr (s', b)) \<Longrightarrow> roots_step fl n W st (st\<lparr>rs_space := s'\<rparr>)"

abbreviation roots_run :: "bda_flags \<Rightarrow> nat \<Rightarrow> nat \<Rightarrow> roots_state \<Rightarrow> roots_state \<Rightarrow> bool" where
  "roots_run fl n W \<equiv> (roots_step fl n W)\<^sup>*\<^sup>*"

section \<open>Every W-th element\<close>

function stride :: "nat \<Rightarrow> 'a list \<Rightarrow> 'a list" where
  "stride W [] = []"
| "stride W (y # ys) = y # stride W (drop (W - 1) ys)"
  by pat_completeness auto
termination by (relation "measure (length \<circ> snd)") auto

lemma set_stride: "set (stride W ys) \<subseteq> set ys"
  by (induction W ys rule: stride.induct) (auto dest: in_set_dropD)

text \<open>Starting at each of the first \<open>W\<close> places, the walks share out the list.\<close>

lemma strides_partition:
  assumes "0 < W"
  shows "(\<Sum>k<W. mset (stride W (drop k ys))) = mset ys"
proof (induction ys)
  case (Cons y ys)
  obtain V where V: "W = Suc V" using assms by (cases W) auto
  have "(\<Sum>k<W. mset (stride W (drop k (y # ys)))) =
      mset (stride W (y # ys)) + (\<Sum>k<V. mset (stride W (drop k ys)))"
    unfolding V by (subst sum.lessThan_Suc_shift) simp
  also have "\<dots> = {#y#} + (mset (stride W (drop V ys)) + (\<Sum>k<V. mset (stride W (drop k ys))))"
    by (simp add: V)
  also have "\<dots> = {#y#} + (\<Sum>k<W. mset (stride W (drop k ys)))" by (simp add: V add.commute)
  finally show ?case using Cons.IH by simp
qed simp

section \<open>Saving the tops\<close>

lemma queue_cells_dseg: "dseg c_next g h prev p xs None \<Longrightarrow> queue_cells h p = Some (Inr xs)"
  by (induction xs arbitrary: prev p) (subst queue_cells.simps, auto split: option.splits)+

lemma grp_cells_ok:
  assumes "gq_inv (bs_cells s) (cs_containers g) xs" "xs \<noteq> []"
  shows "grp_cells s g = Some (Inr xs)"
proof -
  have "dseg c_next c_previous (bs_cells s) None (remove_end (cs_containers g)) xs None"
    "remove_end (cs_containers g) \<noteq> None" "insert_end (cs_containers g) \<noteq> None"
    using assms by (cases xs; auto simp: gq_inv_def gq_list_def last_ptr_def)+
  then show ?thesis using queue_cells_dseg by (auto simp: grp_cells_def gq_iterator_def)
qed

lemma fold_save_top:
  assumes "\<And>a. a \<in> set as \<Longrightarrow> h a \<noteq> None"
  shows "fold_result (\<lambda>a h. cmod h (Some a) save_top) as h =
    Inr (\<lambda>b. if b \<in> set as then map_option save_top (h b) else h b)"
  using assms
proof (induction as arbitrary: h)
  case (Cons a as)
  obtain k where k: "h a = Some k" using Cons.prems[of a] by auto
  have s: "save_top (save_top k) = save_top k" for k by (simp add: save_top_def)
  have "fold_result (\<lambda>a h. cmod h (Some a) save_top) (a # as) h =
      fold_result (\<lambda>a h. cmod h (Some a) save_top) as (h(a \<mapsto> save_top k))"
    using k by (simp del: fun_upd_apply)
  also have "\<dots> = Inr (\<lambda>b. if b \<in> set as then map_option save_top ((h(a \<mapsto> save_top k)) b) else (h(a \<mapsto> save_top k)) b)"
    by (rule Cons.IH) (use Cons.prems in auto)
  also have "\<dots> = Inr (\<lambda>b. if b \<in> set (a # as) then map_option save_top (h b) else h b)"
    using k s by (auto intro!: ext)
  finally show ?case .
qed simp

definition save_cells :: "cid set \<Rightarrow> cheap \<Rightarrow> cheap" where
  "save_cells A h = (\<lambda>b. if b \<in> A then map_option save_top (h b) else h b)"

lemma save_top_ptrs_ok:
  assumes q: "queues_ok s xss" and i: "i < length xss"
  shows "save_top_ptrs (int i) s = Some (Inr (s\<lparr>bs_cells := save_cells (set (xss ! i)) (bs_cells s),
    bs_spaces := (bs_spaces s)[i := (bs_spaces s ! i)\<lparr>cs_last_segment := last_ptr None (xss ! i)\<rparr>]\<rparr>))"
proof -
  let ?g = "bs_spaces s ! i"
  have g: "gq_inv (bs_cells s) (cs_containers ?g) (xss ! i)" and l: "i < length (bs_spaces s)"
    using assms by (simp_all add: queues_ok_def)
  have n: "container_count ?g = int (length (xss ! i))" and e: "gq_bot (cs_containers ?g) = last_ptr None (xss ! i)"
    using g by (simp_all add: container_count_def gq_inv_def gq_list_def gq_bot_def)
  have at: "cs_at s (int i) = Inr ?g" using l by simp
  have m: "a \<in> set (xss ! i) \<Longrightarrow> bs_cells s a \<noteq> None" for a using queues_ok_mapped[OF q i] by auto
  show ?thesis
  proof (cases "xss ! i = []")
    case True
    then show ?thesis by (simp add: save_top_ptrs_def at n save_cells_def cs_put_def)
  next
    case False
    then show ?thesis
      using grp_cells_ok[OF g False] fold_save_top[OF m]
      by (simp add: save_top_ptrs_def at n e save_cells_def cs_put_def)
  qed
qed

text \<open>Saving tops changes neither the queues nor what the allocator relies on.\<close>

lemma save_top_simps [simp]:
  "c_next (save_top k) = c_next k" "c_previous (save_top k) = c_previous k" "c_start (save_top k) = c_start k"
  "c_top (save_top k) = c_top k" "c_saved_top (save_top k) = c_top k" "c_scanned_flag (save_top k) = -1"
  "c_end (save_top k) = c_end k" "c_hard_end (save_top k) = c_hard_end k" "c_space_id (save_top k) = c_space_id k"
  "c_next_segment (save_top k) = c_next_segment k" "save_top (save_top k) = save_top k"
  by (simp_all add: save_top_def)

lemma save_cells_comp: "save_cells A (save_cells B h) = save_cells (A \<union> B) h"
  by (auto simp: save_cells_def option.map_comp comp_def intro!: ext)

lemma gq_inv_save_cells: "gq_inv h q xs \<Longrightarrow> gq_inv (save_cells A h) q xs"
  by (erule gq_inv_frame) (simp add: save_cells_def)

lemma seg_inv_groups:
  assumes "seg_inv s" "length gs = length (bs_spaces s)"
    "\<And>i. i < length (bs_spaces s) \<Longrightarrow> cs_space (gs ! i) = grp_space s i \<and> cs_type (gs ! i) = cs_type (bs_spaces s ! i) \<and>
       cs_pool (gs ! i) = cs_pool (bs_spaces s ! i)"
  shows "seg_inv (s\<lparr>bs_spaces := gs\<rparr>)"
proof -
  have "grp_ok (s\<lparr>bs_spaces := gs\<rparr>) i \<longleftrightarrow> grp_ok s i" if "i < length (bs_spaces s)" for i
    using assms(3)[OF that] by (cases "i = 0") (simp_all add: grp_ok_def is_other_grp_def grp_value_def)
  then have "grps_ok (s\<lparr>bs_spaces := gs\<rparr>)"
    using assms by (auto simp: seg_inv_def grps_ok_def)
  moreover have "segs_ok (s\<lparr>bs_spaces := gs\<rparr>)"
    using assms(1) assms(2,3) by (simp add: seg_inv_def segs_ok_def seg_ok_def cong: conj_cong)
  moreover have "regions_ok (s\<lparr>bs_spaces := gs\<rparr>)"
    using assms by (simp add: seg_inv_def regions_ok_def on_region_def region_container_def)
  ultimately show ?thesis by (simp add: seg_inv_def)
qed

lemma seg_inv_save_cells:
  assumes "seg_inv s"
  shows "seg_inv (s\<lparr>bs_cells := save_cells A (bs_cells s)\<rparr>)"
proof (rule retopped_seg_inv[OF assms])
  have k': "k' = k \<or> k' = save_top k" if "bs_cells s a = Some k" "save_cells A (bs_cells s) a = Some k'" for a k k'
    using that by (auto simp: save_cells_def split: if_splits)
  have "seg_ok s a k" if "bs_cells s a = Some k" for a k using seg_inv_cell[OF assms that] .
  then show "retopped (bs_cells s) (save_cells A (bs_cells s))"
    unfolding retopped_def using k' by (auto simp: save_cells_def seg_ok_def)
qed

definition saved_tops :: "bda_space \<Rightarrow> cid list list \<Rightarrow> nat set \<Rightarrow> bda_space \<Rightarrow> bool" where
  "saved_tops s xss I s' \<longleftrightarrow>
     seg_inv s' \<and> queues_ok s' xss \<and> bs_cells s' = save_cells (\<Union>i \<in> I. set (xss ! i)) (bs_cells s) \<and>
     (\<forall>i \<in> I. cs_last_segment (bs_spaces s' ! i) = last_ptr None (xss ! i))"

lemma save_tops_loop_ok:
  assumes "saved_tops s xss I s1" "\<And>i. i \<in> set is \<Longrightarrow> i < length xss"
  shows "\<exists>s'. save_tops_loop is s1 = Some (Inr s') \<and> saved_tops s xss (I \<union> set is) s'"
  using assms
proof (induction "is" arbitrary: s1 I)
  case (Cons i "is")
  define s2 where "s2 = s1\<lparr>bs_cells := save_cells (set (xss ! i)) (bs_cells s1),
    bs_spaces := (bs_spaces s1)[i := (bs_spaces s1 ! i)\<lparr>cs_last_segment := last_ptr None (xss ! i)\<rparr>]\<rparr>"
  have i: "i < length xss" and inv: "seg_inv s1" and q: "queues_ok s1 xss"
    and l: "length (bs_spaces s1) = length xss"
    using Cons.prems by (auto simp: saved_tops_def queues_ok_def)
  have r: "save_top_ptrs (int i) s1 = Some (Inr s2)" unfolding s2_def using q i by (rule save_top_ptrs_ok)
  let ?s = "s1\<lparr>bs_cells := save_cells (set (xss ! i)) (bs_cells s1)\<rparr>"
  have "seg_inv (?s\<lparr>bs_spaces := (bs_spaces ?s)[i := (bs_spaces ?s ! i)\<lparr>cs_last_segment := last_ptr None (xss ! i)\<rparr>]\<rparr>)"
    by (rule seg_inv_groups[OF seg_inv_save_cells[OF inv]]) (use i l in \<open>auto simp: nth_list_update\<close>)
  then have "seg_inv s2" by (simp add: s2_def)
  moreover have "gq_inv (bs_cells s2) (grp_queue s2 j) (xss ! j)" if "j < length xss" for j
  proof -
    have "grp_queue s2 j = grp_queue s1 j" using that l by (cases "j = i") (simp_all add: s2_def)
    moreover have "gq_inv (bs_cells s1) (grp_queue s1 j) (xss ! j)" using q that by (simp add: queues_ok_def)
    ultimately show ?thesis by (simp add: s2_def gq_inv_save_cells)
  qed
  then have "queues_ok s2 xss" using q by (simp add: queues_ok_def s2_def)
  moreover have "bs_cells s2 = save_cells (\<Union>j \<in> insert i I. set (xss ! j)) (bs_cells s)"
    using Cons.prems(1) by (simp add: saved_tops_def s2_def save_cells_comp)
  moreover have "cs_last_segment (bs_spaces s2 ! j) = last_ptr None (xss ! j)" if "j \<in> insert i I" for j
    using that Cons.prems(1) i l by (cases "j = i") (auto simp: saved_tops_def s2_def)
  ultimately have "saved_tops s xss (insert i I) s2" by (simp add: saved_tops_def)
  from Cons.IH[OF this] Cons.prems(2) r show ?case by auto
qed simp

lemma save_tops_ok:
  assumes "seg_inv s" "queues_ok s xss"
  shows "\<exists>s'. save_tops_for_scavenge s = Some (Inr s') \<and> saved_tops s xss {..<length xss} s'"
proof -
  have "saved_tops s xss {} s" using assms by (simp add: saved_tops_def save_cells_def)
  from save_tops_loop_ok[OF this, of "[0..<length xss]"] assms(2) show ?thesis
    by (auto simp: save_tops_for_scavenge_def queues_ok_def atLeast0LessThan)
qed

section \<open>Walking backwards\<close>

definition hd_ptr :: "cid list \<Rightarrow> container_t" where
  "hd_ptr ys = (case ys of [] \<Rightarrow> None | y # _ \<Rightarrow> Some y)"

lemma hd_ptr_Nil [simp]: "hd_ptr [] = None"
  by (simp add: hd_ptr_def)

lemma hd_ptr_drop: "hd_ptr (drop p ys) = (if p < length ys then Some (ys ! p) else None)"
  by (auto simp: hd_ptr_def Cons_nth_drop_Suc[symmetric])

lemma last_ptr_rev: "last_ptr None xs = hd_ptr (rev xs)"
  by (cases xs rule: rev_cases) (simp_all add: hd_ptr_def)

text \<open>The containers \<open>ys\<close> are linked backwards in this order.\<close>

definition back_list :: "cheap \<Rightarrow> cid list \<Rightarrow> bool" where
  "back_list h ys \<longleftrightarrow>
     (\<forall>p < length ys. \<exists>k. h (ys ! p) = Some k \<and> c_previous k = hd_ptr (drop (Suc p) ys))"

lemma back_list_queue:
  assumes "gq_inv h q xs"
  shows "back_list h (rev xs)"
  unfolding back_list_def
proof (intro allI impI)
  fix p assume p: "p < length (rev xs)"
  let ?i = "length xs - Suc p"
  have "dseg c_next c_previous h None (remove_end q) xs None" using assms by (simp add: gq_inv_def gq_list_def)
  moreover have "?i < length xs" using p by simp
  ultimately obtain k where "h (xs ! ?i) = Some k" "c_previous k = (if ?i = 0 then None else Some (xs ! (?i - 1)))"
    unfolding dseg_nth by blast
  then show "\<exists>k. h (rev xs ! p) = Some k \<and> c_previous k = hd_ptr (drop (Suc p) (rev xs))"
    using p by (auto simp: rev_nth hd_ptr_drop)
qed

lemma back_list_kept:
  assumes "back_list h ys" "cells_kept scan_cell h h'"
  shows "back_list h' ys"
  unfolding back_list_def
proof (intro allI impI)
  fix p assume "p < length ys"
  then obtain k where k: "h (ys ! p) = Some k" "c_previous k = hd_ptr (drop (Suc p) ys)"
    using assms(1) unfolding back_list_def by blast
  from assms(2) k(1) obtain k' where "h' (ys ! p) = Some k'" "scan_cell k k'" by (rule cells_keptE)
  then show "\<exists>k. h' (ys ! p) = Some k \<and> c_previous k = hd_ptr (drop (Suc p) ys)"
    using k(2) by (simp add: scan_cell_def)
qed

lemma nth_from_back:
  assumes "back_list h ys"
  shows "nth_from c_previous h (hd_ptr (drop p ys)) n = Inr (hd_ptr (drop (p + n) ys))"
proof (induction n arbitrary: p)
  case (Suc n)
  show ?case
  proof (cases "p < length ys")
    case True
    then obtain k where "h (ys ! p) = Some k" "c_previous k = hd_ptr (drop (Suc p) ys)"
      using assms unfolding back_list_def by blast
    then show ?thesis using Suc.IH[of "Suc p"] True by (simp add: hd_ptr_drop)
  qed (simp add: hd_ptr_drop)
qed simp

lemma get_previous_back:
  assumes "back_list h ys" "p < length ys"
  shows "get_previous_n_segment h (Some (ys ! p)) (int n) = Inr (hd_ptr (drop (p + n) ys))"
  using nth_from_back[OF assms(1), of p n] assms(2) by (simp add: get_previous_n_segment_def hd_ptr_drop)

lemma stride_drop:
  assumes "0 < W" "p < length ys"
  shows "stride W (drop p ys) = ys ! p # stride W (drop (p + W) ys)"
proof -
  have "stride W (drop p ys) = stride W (ys ! p # drop (Suc p) ys)" using assms(2) by (simp add: Cons_nth_drop_Suc)
  then show ?thesis using assms(1) by (simp add: add.commute)
qed

section \<open>There is work\<close>

text \<open>A container of a big-data group holds at least a word.\<close>

definition holds_objects :: "bda_space \<Rightarrow> cid list list \<Rightarrow> bool" where
  "holds_objects s xss \<longleftrightarrow>
     (\<exists>i a k. 0 < i \<and> i < length xss \<and> a \<in> set (xss ! i) \<and> bs_cells s a = Some k \<and> hw_add (c_start k) 1 \<le> c_top k)"

lemma sum_grps_ok:
  assumes "\<And>g. g \<in> set gs \<Longrightarrow> \<exists>n. f g = Some (Inr n)"
  shows "\<exists>m. sum_grps f gs = Some (Inr m) \<and> (\<forall>g \<in> set gs. \<forall>n. f g = Some (Inr n) \<longrightarrow> n \<le> m)"
  using assms
proof (induction gs)
  case (Cons g gs)
  obtain n where n: "f g = Some (Inr n)" using Cons.prems[of g] by auto
  obtain m where m: "sum_grps f gs = Some (Inr m)" "\<forall>g \<in> set gs. \<forall>n. f g = Some (Inr n) \<longrightarrow> n \<le> m"
    using Cons by auto
  show ?case using n m by (auto intro: trans_le_add2)
qed simp

lemma cs_used_ok:
  assumes "queues_ok s yss" "i < length yss"
  shows "\<exists>n. cs_used_in_words s (bs_spaces s ! i) = Some (Inr n) \<and>
    (\<not> is_other_grp s (bs_spaces s ! i) \<longrightarrow> (\<forall>a \<in> set (yss ! i). \<forall>k. bs_cells s a = Some k \<longrightarrow>
       pointer_delta (c_top k) (c_start k) \<le> n))"
proof -
  have g: "gq_inv (bs_cells s) (grp_queue s i) (yss ! i)" using assms by (simp add: queues_ok_def)
  then have n: "container_count (bs_spaces s ! i) = int (length (yss ! i))"
    by (simp add: container_count_def gq_inv_def)
  show ?thesis
  proof (cases "is_other_grp s (bs_spaces s ! i) \<or> yss ! i = []")
    case True
    then show ?thesis using n by (auto simp: cs_used_in_words_def)
  next
    case False
    then have c: "grp_cells s (bs_spaces s ! i) = Some (Inr (yss ! i))" using grp_cells_ok[OF g] by blast
    let ?u = "\<lambda>a. pointer_delta (c_top (the (bs_cells s a))) (c_start (the (bs_cells s a)))"
    have "cs_used_in_words s (bs_spaces s ! i) = Some (Inr (sum_list (map ?u (yss ! i))))"
      using False n c by (simp add: cs_used_in_words_def cells_of_def comp_def)
    moreover have "?u a \<le> sum_list (map ?u (yss ! i))" if "a \<in> set (yss ! i)" for a
      using that by (intro member_le_sum_list) simp_all
    ultimately show ?thesis by fastforce
  qed
qed

section \<open>The state of the space during the scavenge\<close>

text \<open>\<open>s0\<close> is the space after the tops were saved, \<open>xss\<close> its containers then.\<close>

definition scan_base :: "bda_space \<Rightarrow> cid list list \<Rightarrow> bool" where
  "scan_base s0 xss \<longleftrightarrow>
     (\<forall>i < length xss. back_list (bs_cells s0) (rev (xss ! i))) \<and>
     (\<forall>a \<in> set (concat xss). \<exists>k. bs_cells s0 a = Some k \<and> c_start k \<le> c_saved_top k) \<and>
     distinct (concat xss) \<and> holds_objects s0 xss"

definition scan_state :: "bda_space \<Rightarrow> cid list list \<Rightarrow> bda_space \<Rightarrow> bool" where
  "scan_state s0 xss s \<longleftrightarrow>
     seg_inv s \<and> length (bs_spaces s) = length xss \<and> (\<exists>yss. queues_ok s yss \<and> queues_in xss yss) \<and>
     (\<forall>i < length xss. cs_last_segment (bs_spaces s ! i) = last_ptr None (xss ! i)) \<and>
     cells_kept scan_cell (bs_cells s0) (bs_cells s)"

definition live :: "bda_space \<Rightarrow> cid \<Rightarrow> bool" where
  "live s a \<longleftrightarrow> (case bs_cells s a of None \<Rightarrow> False | Some k \<Rightarrow> c_saved_top k \<noteq> NULL \<and> c_start k \<noteq> c_saved_top k)"

definition saved_top_of :: "bda_space \<Rightarrow> cid \<Rightarrow> addr" where
  "saved_top_of s a = (case bs_cells s a of None \<Rightarrow> NULL | Some k \<Rightarrow> c_saved_top k)"

definition flag_of :: "bda_space \<Rightarrow> cid \<Rightarrow> int" where
  "flag_of s a = (case bs_cells s a of None \<Rightarrow> 0 | Some k \<Rightarrow> c_scanned_flag k)"

abbreviation set_flag :: "bda_space \<Rightarrow> cid \<Rightarrow> nat \<Rightarrow> bda_space" where
  "set_flag s a k \<equiv> s\<lparr>bs_cells := (bs_cells s)(a := map_option (\<lambda>c. c\<lparr>c_scanned_flag := int k\<rparr>) (bs_cells s a))\<rparr>"

lemma scan_state_cell:
  assumes "scan_base s0 xss" "scan_state s0 xss s" "a \<in> set (concat xss)"
  obtains k k' where "bs_cells s0 a = Some k" "bs_cells s a = Some k'" "scan_cell k k'" "c_start k \<le> c_saved_top k"
proof -
  obtain k where k: "bs_cells s0 a = Some k" "c_start k \<le> c_saved_top k" using assms(1,3) unfolding scan_base_def by blast
  have "cells_kept scan_cell (bs_cells s0) (bs_cells s)" using assms(2) by (simp add: scan_state_def)
  then obtain k' where "bs_cells s a = Some k'" "scan_cell k k'" using k(1) by (rule cells_keptE)
  then show ?thesis using that k by blast
qed

lemma scan_state_grows:
  assumes "scan_state s0 xss s" "grows s s'" "seg_inv s'"
  shows "scan_state s0 xss s'" "\<And>a. a \<in> set (concat xss) \<Longrightarrow> scan_base s0 xss \<Longrightarrow> flag_of s' a = flag_of s a"
proof -
  have k: "cells_kept same_scan_cell (bs_cells s) (bs_cells s')" and l: "length (bs_spaces s') = length (bs_spaces s)"
    using assms(2) by (simp_all add: grows_def same_scan_def)
  have "cells_kept scan_cell (bs_cells s) (bs_cells s')"
    using k by (rule cells_kept_mono) (simp add: same_scan_cell_def)
  then have "cells_kept scan_cell (bs_cells s0) (bs_cells s')"
    using assms(1) scan_cell_trans by (auto simp: scan_state_def intro: cells_kept_trans)
  moreover have "\<exists>yss. queues_ok s' yss \<and> queues_in xss yss"
    using assms(1,2) queues_in_trans unfolding scan_state_def grows_def by meson
  ultimately show "scan_state s0 xss s'"
    using assms l by (simp add: scan_state_def grows_def same_scan_def)
  fix a assume a: "a \<in> set (concat xss)" "scan_base s0 xss"
  obtain m where m: "bs_cells s a = Some m" using scan_state_cell[OF a(2) assms(1) a(1)] by blast
  then obtain m' where "bs_cells s' a = Some m'" "same_scan_cell m m'" using k cells_keptE by blast
  then show "flag_of s' a = flag_of s a" using m by (simp add: flag_of_def same_scan_cell_def)
qed

lemma scan_state_flag:
  assumes "scan_state s0 xss s" "bs_cells s a = Some k"
  shows "scan_state s0 xss (set_flag s a j)"
proof -
  let ?h = "(bs_cells s)(a := map_option (\<lambda>c. c\<lparr>c_scanned_flag := int j\<rparr>) (bs_cells s a))"
  have k: "cells_kept scan_cell (bs_cells s) ?h"
    using assms(2) by (auto simp: cells_kept_def scan_cell_def)
  have inv: "seg_inv s" using assms(1) by (simp add: scan_state_def)
  have "retopped (bs_cells s) ?h"
    using seg_inv_cell[OF inv] assms(2) by (auto simp: retopped_def seg_ok_def)
  then have "seg_inv (set_flag s a j)" by (rule retopped_seg_inv[OF inv])
  moreover have "gq_inv ?h q xs" if "gq_inv (bs_cells s) q xs" for q xs
    by (rule gq_inv_frame[OF that]) (use assms(2) in auto)
  then have "queues_ok (set_flag s a j) yss" if "queues_ok s yss" for yss
    using that by (simp add: queues_ok_def)
  then have "\<exists>yss. queues_ok (set_flag s a j) yss \<and> queues_in xss yss"
    using assms(1) unfolding scan_state_def by blast
  moreover have "cells_kept scan_cell (bs_cells s0) ?h"
    using assms(1) k scan_cell_trans by (auto simp: scan_state_def intro: cells_kept_trans)
  ultimately show ?thesis using assms(1) by (simp add: scan_state_def)
qed

lemma used_positive:
  assumes "scan_base s0 xss" "scan_state s0 xss s"
  shows "\<exists>n. bs_used_in_words s = Some (Inr n) \<and> 0 < n"
proof -
  obtain yss where y: "queues_ok s yss" "queues_in xss yss" using assms(2) by (auto simp: scan_state_def)
  have inv: "seg_inv s" using assms(2) by (simp add: scan_state_def)
  have l: "length yss = length (bs_spaces s)" using y(1) by (simp add: queues_ok_def)
  obtain i a k where i: "0 < i" "i < length xss" "a \<in> set (xss ! i)" "bs_cells s0 a = Some k" "hw_add (c_start k) 1 \<le> c_top k"
    using assms(1) unfolding scan_base_def holds_objects_def by blast
  obtain k' where k': "bs_cells s a = Some k'" "scan_cell k k'"
    using assms(2) i(4) unfolding scan_state_def by (blast elim: cells_keptE)
  have i': "i < length yss" "a \<in> set (yss ! i)" using y(2) i by (auto simp: queues_in_def)
  then have no: "\<not> is_other_grp s (bs_spaces s ! i)"
    using inv i(1) l by (auto simp: seg_inv_def grps_ok_def grp_ok_def)
  have grps: "grps_ok s" using inv by (simp add: seg_inv_def)
  have ok: "seg_ok s a k'" using seg_inv_cell[OF inv k'(1)] .
  then obtain j where j: "j < length (bs_spaces s)" "c_hard_end k' \<le> ms_top (grp_space s j)"
      "ms_top (grp_space s j) \<le> ms_end (grp_space s j)"
    using grps by (rule seg_bounds)
  have "ms_end (grp_space s j) < size_t_max1"
    using grps j(1) by (auto simp: grps_ok_def grp_ok_def ms_card_inv_def ms_inv_def split: if_splits)
  then have "c_start k' \<le> c_top k'" "c_top k' < size_t_max1" using ok j by (auto simp: seg_ok_def)
  then have "1 \<le> pointer_delta (c_top k') (c_start k')"
    using i(5) k'(2) by (simp add: pointer_delta_ge_iff scan_cell_def)
  moreover obtain n where n: "cs_used_in_words s (bs_spaces s ! i) = Some (Inr n)"
      "pointer_delta (c_top k') (c_start k') \<le> n"
    using cs_used_ok[OF y(1) i'(1)] no i'(2) k'(1) by blast
  moreover have "\<exists>n. cs_used_in_words s g = Some (Inr n)" if "g \<in> set (bs_spaces s)" for g
    using that cs_used_ok[OF y(1)] l by (metis in_set_conv_nth)
  then obtain m where "sum_grps (cs_used_in_words s) (bs_spaces s) = Some (Inr m)"
      "\<forall>g \<in> set (bs_spaces s). \<forall>n. cs_used_in_words s g = Some (Inr n) \<longrightarrow> n \<le> m"
    using sum_grps_ok by blast
  moreover have "bs_spaces s ! i \<in> set (bs_spaces s)" using i'(1) l by simp
  ultimately show ?thesis unfolding bs_used_in_words_def by fastforce
qed

section \<open>One step of a task\<close>

text \<open>
  The containers task \<open>k\<close> has still to visit, from group \<open>i\<close> on, and with
  them a bound on the steps it has still to make.
\<close>

definition todo :: "nat \<Rightarrow> nat \<Rightarrow> cid list list \<Rightarrow> nat \<Rightarrow> cid list" where
  "todo W k xss i = concat (map (\<lambda>xs. stride W (drop k (rev xs))) (drop i xss))"

fun pc_left :: "nat \<Rightarrow> nat \<Rightarrow> cid list list \<Rightarrow> root_pc \<Rightarrow> cid list \<Rightarrow> nat \<Rightarrow> bool" where
  "pc_left W k xss Enter zs c \<longleftrightarrow> zs = todo W k xss 0 \<and> c = 2 * length zs + 2 * length xss + 2"
| "pc_left W k xss (NextSpace i) zs c \<longleftrightarrow>
     i \<le> length xss \<and> zs = todo W k xss i \<and> c = 2 * length zs + 2 * (length xss - i) + 1"
| "pc_left W k xss (Walk i q) zs c \<longleftrightarrow>
     i < length xss \<and> c = 2 * length zs + 2 * (length xss - i) \<and>
     (\<exists>p. q = hd_ptr (drop p (rev (xss ! i))) \<and> zs = stride W (drop p (rev (xss ! i))) @ todo W k xss (i + 1))"
| "pc_left W k xss (Advance i a) zs c \<longleftrightarrow>
     i < length xss \<and> c = 2 * length zs + 2 * (length xss - i) + 1 \<and>
     (\<exists>p. p < length (xss ! i) \<and> a = rev (xss ! i) ! p \<and>
        zs = stride W (drop (p + W) (rev (xss ! i))) @ todo W k xss (i + 1))"
| "pc_left W k xss RootsDone zs c \<longleftrightarrow> zs = [] \<and> c = 0"

lemma todo_step: "i < length xss \<Longrightarrow> todo W k xss i = stride W (drop k (rev (xss ! i))) @ todo W k xss (i + 1)"
  by (simp add: todo_def Cons_nth_drop_Suc[symmetric])

lemma todo_end: "length xss \<le> i \<Longrightarrow> todo W k xss i = []"
  by (simp add: todo_def)

lemma set_todo: "set (todo W k xss i) \<subseteq> set (concat xss)"
proof -
  have "set (stride W (drop k (rev xs))) \<subseteq> set xs" for xs :: "cid list"
    using set_stride[of W "drop k (rev xs)"] set_drop_subset[of k "rev xs"] by simp
  then show ?thesis unfolding todo_def by (auto dest: in_set_dropD)
qed

text \<open>
  A step either only moves the task, perhaps past an empty container, or scans the
  next container up to its saved top; in both cases fewer steps are left.
\<close>

definition moves :: "bda_space \<Rightarrow> cid list \<Rightarrow> cid list \<Rightarrow> nat \<Rightarrow> bda_space \<Rightarrow> bda_space \<Rightarrow> (cid \<times> addr) option \<Rightarrow> bool" where
  "moves s0 zs zs' k s s' ev \<longleftrightarrow>
     (case ev of
        None \<Rightarrow> s' = s \<and> filter (live s0) zs' = filter (live s0) zs
      | Some (a, t) \<Rightarrow> live s0 a \<and> t = saved_top_of s0 a \<and> zs = a # zs' \<and> bs_cells s a \<noteq> None \<and> s' = set_flag s a k)"

lemma walk_step:
  assumes b: "scan_base s0 xss" and st: "scan_state s0 xss s" and W: "0 < W"
    and l: "pc_left W k xss (Walk i q) zs c"
    and f: "\<And>a. a \<in> set zs \<Longrightarrow> live s0 a \<Longrightarrow> flag_of s a = -1"
  shows "\<exists>s' pc ev zs' c'. task_step n W k s (Walk i q) = Inr (s', pc, ev) \<and> pc_left W k xss pc zs' c' \<and> c' < c \<and>
    moves s0 zs zs' k s s' ev"
proof -
  let ?ys = "rev (xss ! i)"
  obtain p where p: "q = hd_ptr (drop p ?ys)" "zs = stride W (drop p ?ys) @ todo W k xss (i + 1)"
    and i: "i < length xss" and c: "c = 2 * length zs + 2 * (length xss - i)"
    using l by auto
  show ?thesis
  proof (cases "p < length ?ys")
    case False
    then have "q = None" "zs = todo W k xss (i + 1)" using p by simp_all
    then show ?thesis using i c by (auto simp: moves_def)
  next
    case True
    let ?a = "?ys ! p" and ?zs = "stride W (drop (p + W) ?ys) @ todo W k xss (i + 1)"
    have q: "q = Some ?a" and zs: "zs = ?a # ?zs" using p True stride_drop[OF W True] by (simp_all add: hd_ptr_drop)
    have adv: "pc_left W k xss (Advance i ?a) ?zs (2 * length ?zs + 2 * (length xss - i) + 1)"
      using i True by auto
    have less: "2 * length ?zs + 2 * (length xss - i) + 1 < c" by (simp add: c zs)
    have "?a \<in> set (xss ! i)" using True nth_mem[of p ?ys] by simp
    then have "?a \<in> set (concat xss)" using i by auto
    with b st obtain m m' where m: "bs_cells s0 ?a = Some m" "bs_cells s ?a = Some m'" "scan_cell m m'"
      "c_start m \<le> c_saved_top m"
      by (rule scan_state_cell)
    show ?thesis
    proof (cases "live s0 ?a")
      case False
      then have "task_step n W k s (Walk i q) = Inr (s, Advance i ?a, None)"
        using m q by (auto simp: live_def scan_cell_def)
      moreover have "moves s0 zs ?zs k s s None" using False zs by (simp add: moves_def)
      ultimately show ?thesis using adv less by blast
    next
      case live: True
      then have "c_scanned_flag m' = -1" using f[of ?a] zs m(2) by (simp add: flag_of_def)
      moreover have "c_start m' < c_saved_top m'" "c_saved_top m' \<noteq> NULL" "saved_top_of s0 ?a = c_saved_top m'"
        using live m by (auto simp: live_def scan_cell_def saved_top_of_def)
      ultimately have "task_step n W k s (Walk i q) = Inr (set_flag s ?a k, Advance i ?a, Some (?a, saved_top_of s0 ?a))"
        using m(2) q by simp
      moreover have "moves s0 zs ?zs k s (set_flag s ?a k) (Some (?a, saved_top_of s0 ?a))"
        using live zs m(2) by (simp add: moves_def)
      ultimately show ?thesis using adv less by blast
    qed
  qed
qed

lemma task_step_ok:
  assumes b: "scan_base s0 xss" and st: "scan_state s0 xss s" and W: "0 < W" and k: "k < n"
    and l: "pc_left W k xss pc zs c" and nd: "pc \<noteq> RootsDone"
    and f: "\<And>a. a \<in> set zs \<Longrightarrow> live s0 a \<Longrightarrow> flag_of s a = -1"
  shows "\<exists>s' pc' ev zs' c'. task_step n W k s pc = Inr (s', pc', ev) \<and> pc_left W k xss pc' zs' c' \<and> c' < c \<and>
    moves s0 zs zs' k s s' ev"
proof (cases pc)
  case Enter
  then show ?thesis using used_positive[OF b st] l k by (auto simp: moves_def)
next
  case (NextSpace i)
  have len: "length (bs_spaces s) = length xss" using st by (simp add: scan_state_def)
  show ?thesis
  proof (cases "i < length xss")
    case False
    then show ?thesis using NextSpace l len by (auto simp: moves_def todo_end)
  next
    case True
    let ?ys = "rev (xss ! i)"
    have last: "cs_last_segment (bs_spaces s ! i) = hd_ptr ?ys" using st True by (simp add: scan_state_def last_ptr_rev)
    have zs: "zs = stride W (drop k ?ys) @ todo W k xss (i + 1)" using l NextSpace True todo_step by auto
    have links: "back_list (bs_cells s) ?ys"
      using b st True by (auto simp: scan_base_def scan_state_def intro: back_list_kept)
    show ?thesis
    proof (cases "xss ! i = []")
      case empty: True
      then show ?thesis using NextSpace True len last l zs by (auto simp: moves_def)
    next
      case False
      then have y: "hd_ptr ?ys = Some (?ys ! 0)" using hd_ptr_drop[of 0 ?ys] by simp
      have "get_previous_n_segment (bs_cells s) (Some (?ys ! 0)) (int k) = Inr (hd_ptr (drop k ?ys))"
        using get_previous_back[OF links, of 0 k] False by simp
      then have "task_step n W k s pc = Inr (s, Walk i (hd_ptr (drop k ?ys)), None)"
        using NextSpace True len last y by simp
      moreover have "pc_left W k xss (Walk i (hd_ptr (drop k ?ys))) zs (2 * length zs + 2 * (length xss - i))"
        using True zs by auto
      moreover have "moves s0 zs zs k s s None" by (simp add: moves_def)
      moreover have "2 * length zs + 2 * (length xss - i) < c" using NextSpace l by simp
      ultimately show ?thesis by blast
    qed
  qed
next
  case (Walk i q)
  then show ?thesis using walk_step[OF b st W _ f] l by blast
next
  case (Advance i a)
  let ?ys = "rev (xss ! i)"
  obtain p where p: "i < length xss" "p < length (xss ! i)" "a = ?ys ! p"
    "zs = stride W (drop (p + W) ?ys) @ todo W k xss (i + 1)" "c = 2 * length zs + 2 * (length xss - i) + 1"
    using l Advance by auto
  have "back_list (bs_cells s) ?ys"
    using b st p(1) by (auto simp: scan_base_def scan_state_def intro: back_list_kept)
  from get_previous_back[OF this, of p W]
  have "task_step n W k s pc = Inr (s, Walk i (hd_ptr (drop (p + W) ?ys)), None)" using Advance p by simp
  moreover have "pc_left W k xss (Walk i (hd_ptr (drop (p + W) ?ys))) zs (2 * length zs + 2 * (length xss - i))"
    using p by auto
  moreover have "moves s0 zs zs k s s None" by (simp add: moves_def)
  moreover have "2 * length zs + 2 * (length xss - i) < c" using p by simp
  ultimately show ?thesis by blast
qed (use nd in simp)

section \<open>All tasks\<close>

lemma todo_partition:
  assumes "0 < W"
  shows "(\<Sum>k<W. mset (todo W k xss 0)) = mset (concat xss)"
proof (induction xss)
  case (Cons xs xss)
  have "(\<Sum>k<W. mset (todo W k (xs # xss) 0)) =
      (\<Sum>k<W. mset (stride W (drop k (rev xs)))) + (\<Sum>k<W. mset (todo W k xss 0))"
    by (simp add: todo_def sum.distrib)
  then show ?case using Cons.IH strides_partition[OF assms, of "rev xs"] by simp
qed (simp add: todo_def)

lemma todo_length:
  assumes "0 < W" "k < W"
  shows "length (todo W k xss 0) \<le> length (concat xss)"
proof -
  have "(\<Sum>k<W. mset (todo W k xss 0)) =
      mset (todo W k xss 0) + (\<Sum>k \<in> {..<W} - {k}. mset (todo W k xss 0))"
    using assms(2) by (intro sum.remove) auto
  then have "size (mset (todo W k xss 0)) \<le> size (\<Sum>k<W. mset (todo W k xss 0))" by simp
  then show ?thesis using todo_partition[OF assms(1), of xss] by (metis size_mset)
qed

lemma todos_apart:
  assumes "0 < W" "k < W" "distinct (concat xss)"
  shows "distinct (todo W k xss 0)" "j < W \<Longrightarrow> a \<in> set (todo W j xss 0) \<Longrightarrow> a \<in> set (todo W k xss 0) \<Longrightarrow> j = k"
proof -
  let ?t = "\<lambda>k. mset (todo W k xss 0)"
  have one: "(\<Sum>k<W. count (?t k) a) \<le> 1" for a
    using assms(3) unfolding count_sum[symmetric] todo_partition[OF assms(1)]
    by (simp add: distinct_count_atmost_1)
  have "count (?t k) a \<le> 1" for a
    using one[of a] member_le_sum[of k "{..<W}" "\<lambda>k. count (?t k) a"] assms(2) by simp
  then have "count (?t k) a = (if a \<in> set (todo W k xss 0) then 1 else 0)" for a
    by (metis One_nat_def count_greater_zero_iff le_eq_less_or_eq less_Suc0 count_eq_zero_iff set_mset_mset)
  then show "distinct (todo W k xss 0)" by (simp add: distinct_count_atmost_1)
  assume j: "j < W" "a \<in> set (todo W j xss 0)" "a \<in> set (todo W k xss 0)"
  show "j = k"
  proof (rule ccontr)
    assume "j \<noteq> k"
    then have "(\<Sum>i \<in> {j, k}. count (?t i) a) = count (?t j) a + count (?t k) a" by simp
    moreover have "(\<Sum>i \<in> {j, k}. count (?t i) a) \<le> (\<Sum>i<W. count (?t i) a)"
      using j(1) assms(2) by (intro sum_mono2) auto
    moreover have "0 < count (?t j) a" "0 < count (?t k) a" using j(2,3) by (simp_all add: count_greater_zero_iff)
    ultimately show False using one[of a] by linarith
  qed
qed

definition scanned_cells :: "(nat \<times> cid \<times> addr) list \<Rightarrow> cid list" where
  "scanned_cells es = map (\<lambda>e. fst (snd e)) es"

abbreviation scanned_by :: "nat \<Rightarrow> (nat \<times> cid \<times> addr) list \<Rightarrow> cid list" where
  "scanned_by k es \<equiv> scanned_cells (filter (\<lambda>e. fst e = k) es)"

definition task_inv :: "bda_space \<Rightarrow> cid list list \<Rightarrow> nat \<Rightarrow> roots_state \<Rightarrow> nat \<Rightarrow> bool" where
  "task_inv s0 xss W st k \<longleftrightarrow>
     (\<exists>zs c. pc_left W k xss (rs_pc st k) zs c \<and>
        scanned_by k (rs_log st) @ filter (live s0) zs = filter (live s0) (todo W k xss 0) \<and>
        rs_steps st k + c \<le> 2 * length (todo W k xss 0) + 2 * length xss + 2)"

definition roots_inv :: "bda_space \<Rightarrow> cid list list \<Rightarrow> nat \<Rightarrow> roots_state \<Rightarrow> bool" where
  "roots_inv s0 xss W st \<longleftrightarrow>
     scan_state s0 xss (rs_space st) \<and>
     (\<forall>e \<in> set (rs_log st). fst e < W \<and> snd (snd e) = saved_top_of s0 (fst (snd e))) \<and>
     (\<forall>a \<in> set (concat xss). a \<notin> set (scanned_cells (rs_log st)) \<longrightarrow> flag_of (rs_space st) a = -1) \<and>
     (\<forall>k < W. task_inv s0 xss W st k)"

lemma set_scanned:
  "(\<forall>e \<in> set es. fst e < W) \<Longrightarrow> a \<in> set (scanned_cells es) \<Longrightarrow> \<exists>k < W. a \<in> set (scanned_by k es)"
  by (auto simp: scanned_cells_def)

text \<open>No container a task has still to scan has been scanned, by itself or by another.\<close>

lemma roots_inv_fresh:
  assumes inv: "roots_inv s0 xss W st" and d: "distinct (concat xss)" and k: "k < W"
    and zs: "scanned_by k (rs_log st) @ filter (live s0) zs = filter (live s0) (todo W k xss 0)"
    and a: "a \<in> set zs" "live s0 a"
  shows "a \<notin> set (scanned_cells (rs_log st))" "a \<in> set (concat xss)"
proof -
  have W: "0 < W" using k by simp
  have t: "a \<in> set (todo W k xss 0)"
    using a arg_cong[OF zs, of set] by auto
  then show "a \<in> set (concat xss)" using set_todo by blast
  have dk: "distinct (scanned_by k (rs_log st) @ filter (live s0) zs)"
    unfolding zs using todos_apart(1)[OF W k d] by simp
  show "a \<notin> set (scanned_cells (rs_log st))"
  proof
    assume "a \<in> set (scanned_cells (rs_log st))"
    then obtain j where j: "j < W" "a \<in> set (scanned_by j (rs_log st))"
      using inv set_scanned by (metis roots_inv_def)
    then have "a \<in> set (todo W j xss 0)"
      using inv unfolding roots_inv_def task_inv_def by (metis Un_iff filter_is_subset set_append subsetD)
    then have "j = k" using todos_apart(2)[OF W k d j(1)] t by blast
    then show False using dk j(2) a by auto
  qed
qed

lemma roots_start_inv:
  assumes "scan_state s0 xss s0" "\<And>a. a \<in> set (concat xss) \<Longrightarrow> flag_of s0 a = -1"
  shows "roots_inv s0 xss W (roots_start s0)"
  using assms by (simp add: roots_inv_def roots_start_def task_inv_def scanned_cells_def)

lemma roots_promote_inv:
  assumes "scan_base s0 xss" "roots_inv s0 xss W st" "do_request fl r (rs_space st) = Some (Inr (s', b))"
  shows "roots_inv s0 xss W (st\<lparr>rs_space := s'\<rparr>)"
proof -
  have st: "scan_state s0 xss (rs_space st)" using assms(2) by (simp add: roots_inv_def)
  then have "seg_inv (rs_space st)" by (simp add: scan_state_def)
  from do_request_grows[OF this assms(3)] scan_state_grows[OF st] assms(1)
  have "scan_state s0 xss s'" "\<And>a. a \<in> set (concat xss) \<Longrightarrow> flag_of s' a = flag_of (rs_space st) a" by blast+
  then show ?thesis using assms(2) by (simp add: roots_inv_def task_inv_def)
qed

lemma roots_task_ok:
  assumes b: "scan_base s0 xss" and inv: "roots_inv s0 xss W st" and k: "k < W" "W \<le> n" "rs_pc st k \<noteq> RootsDone"
  shows "\<exists>s' pc ev. task_step n W k (rs_space st) (rs_pc st k) = Inr (s', pc, ev) \<and>
    roots_inv s0 xss W (st\<lparr>rs_space := s', rs_pc := (rs_pc st)(k := pc), rs_log := rs_log st @ log_of k ev,
      rs_steps := (rs_steps st)(k := rs_steps st k + 1)\<rparr>)"
proof -
  obtain zs c where zs: "pc_left W k xss (rs_pc st k) zs c"
    "scanned_by k (rs_log st) @ filter (live s0) zs = filter (live s0) (todo W k xss 0)"
    "rs_steps st k + c \<le> 2 * length (todo W k xss 0) + 2 * length xss + 2"
    using inv k(1) unfolding roots_inv_def task_inv_def by blast
  have d: "distinct (concat xss)" using b by (simp add: scan_base_def)
  have st: "scan_state s0 xss (rs_space st)" using inv by (simp add: roots_inv_def)
  have W: "0 < W" "k < n" using k by simp_all
  note fresh = roots_inv_fresh[OF inv d k(1) zs(2)]
  have f: "flag_of (rs_space st) a = -1" if "a \<in> set zs" "live s0 a" for a
    using inv fresh[OF that] unfolding roots_inv_def by blast
  obtain s' pc ev zs' c' where
    step: "task_step n W k (rs_space st) (rs_pc st k) = Inr (s', pc, ev)" "pc_left W k xss pc zs' c'" "c' < c"
      "moves s0 zs zs' k (rs_space st) s' ev"
    using task_step_ok[OF b st W zs(1) k(3) f] by blast
  let ?st = "st\<lparr>rs_space := s', rs_pc := (rs_pc st)(k := pc), rs_log := rs_log st @ log_of k ev,
      rs_steps := (rs_steps st)(k := rs_steps st k + 1)\<rparr>"
  have state: "scan_state s0 xss s'"
    using step(4) st scan_state_flag by (auto simp: moves_def split: option.splits)
  have old: "flag_of (rs_space st) a = -1" if "a \<in> set (concat xss)" "a \<notin> set (scanned_cells (rs_log st))" for a
    using inv that unfolding roots_inv_def by blast
  have flags: "flag_of s' a = -1" if a: "a \<in> set (concat xss)" "a \<notin> set (scanned_cells (rs_log ?st))" for a
  proof (cases ev)
    case None
    then show ?thesis using old[OF a(1)] a(2) step(4) by (simp add: moves_def scanned_cells_def log_of_def)
  next
    case (Some e)
    then have "a \<noteq> fst e" "a \<notin> set (scanned_cells (rs_log st))" using a(2) by (auto simp: scanned_cells_def log_of_def)
    then show ?thesis using old[OF a(1)] Some step(4) by (auto simp: moves_def flag_of_def)
  qed
  have entries: "\<forall>e \<in> set (rs_log ?st). fst e < W \<and> snd (snd e) = saved_top_of s0 (fst (snd e))"
    using inv step(4) k(1) by (auto simp: roots_inv_def moves_def log_of_def split: option.splits)
  have "scanned_by k (rs_log ?st) @ filter (live s0) zs' = filter (live s0) (todo W k xss 0)"
    using zs(2) step(4) by (auto simp: moves_def log_of_def scanned_cells_def split: option.splits)
  then have own: "task_inv s0 xss W ?st k" using step(2,3) zs(3) unfolding task_inv_def by fastforce
  have "task_inv s0 xss W ?st j" if "j < W" "j \<noteq> k" for j
  proof -
    have "filter (\<lambda>e. fst e = j) (rs_log ?st) = filter (\<lambda>e. fst e = j) (rs_log st)"
      using that(2) by (simp add: log_of_def split: option.splits)
    then show ?thesis using inv that by (simp add: roots_inv_def task_inv_def)
  qed
  then have "roots_inv s0 xss W ?st"
    unfolding roots_inv_def using state flags entries own by (auto simp del: set_concat)
  then show ?thesis using step(1) by blast
qed

lemma roots_run_inv:
  assumes b: "scan_base s0 xss" and n: "W \<le> n" and run: "roots_run fl n W st st'" and inv: "roots_inv s0 xss W st"
  shows "roots_inv s0 xss W st'"
  using run
proof (induction rule: rtranclp_induct)
  case (step y z)
  from step.hyps(2) show ?case
  proof cases
    case (task k s' pc ev)
    then show ?thesis using roots_task_ok[OF b step.IH _ n, of k] by auto
  next
    case (promote r s' b)
    then show ?thesis using roots_promote_inv[OF assms(1) step.IH] by blast
  qed
qed (rule inv)

lemma log_partition:
  "(\<forall>e \<in> set es. fst e < W) \<Longrightarrow> (\<Sum>k<W. mset (scanned_by k es)) = mset (scanned_cells es)"
proof (induction es)
  case (Cons e es)
  have "(\<Sum>k<W. mset (scanned_by k (e # es))) =
      (\<Sum>k<W. (if k = fst e then {#fst (snd e)#} else {#}) + mset (scanned_by k es))"
    by (rule sum.cong) (auto simp: scanned_cells_def)
  also have "\<dots> = {#fst (snd e)#} + (\<Sum>k<W. mset (scanned_by k es))"
    using Cons.prems by (simp add: sum.distrib)
  finally show ?case using Cons by (simp add: scanned_cells_def)
qed (simp add: scanned_cells_def)

lemma filter_mset_sum: "filter_mset P (\<Sum>k<n. f k) = (\<Sum>k<n. filter_mset P (f k))" for n :: nat
  by (induction n) simp_all

lemma roots_complete:
  assumes "0 < W" "roots_inv s0 xss W st" "\<And>k. k < W \<Longrightarrow> rs_pc st k = RootsDone"
  shows "mset (map snd (rs_log st)) = mset (map (\<lambda>a. (a, saved_top_of s0 a)) (filter (live s0) (concat xss)))"
proof -
  have "scanned_by k (rs_log st) = filter (live s0) (todo W k xss 0)" if "k < W" for k
    using assms(2,3) that unfolding roots_inv_def task_inv_def by auto
  then have "mset (scanned_cells (rs_log st)) = (\<Sum>k<W. filter_mset (live s0) (mset (todo W k xss 0)))"
    using assms(2) log_partition[of "rs_log st" W] by (simp add: roots_inv_def)
  also have "\<dots> = filter_mset (live s0) (\<Sum>k<W. mset (todo W k xss 0))"
    by (rule filter_mset_sum[symmetric])
  also have "\<dots> = mset (filter (live s0) (concat xss))" using todo_partition[OF assms(1), of xss] by simp
  finally have "mset (scanned_cells (rs_log st)) = mset (filter (live s0) (concat xss))" .
  moreover have "map snd (rs_log st) = map (\<lambda>a. (a, saved_top_of s0 a)) (scanned_cells (rs_log st))"
    using assms(2) by (auto simp: roots_inv_def scanned_cells_def)
  ultimately show ?thesis by (metis mset_map)
qed

section \<open>Every container is scanned once\<close>

text \<open>The containers that hold something before the scavenge, with their tops.\<close>

definition scan_work :: "bda_space \<Rightarrow> cid list list \<Rightarrow> (cid \<times> addr) list" where
  "scan_work s xss = map (\<lambda>a. (a, c_top (the (bs_cells s a))))
     (filter (\<lambda>a. c_start (the (bs_cells s a)) \<noteq> c_top (the (bs_cells s a))) (concat xss))"

lemma saved_scan:
  assumes inv: "seg_inv s" and q: "queues_ok s xss" and o: "holds_objects s xss"
    and sv: "saved_tops s xss {..<length xss} s0"
  shows "scan_base s0 xss" "scan_state s0 xss s0" "\<And>a. a \<in> set (concat xss) \<Longrightarrow> flag_of s0 a = -1"
    "map (\<lambda>a. (a, saved_top_of s0 a)) (filter (live s0) (concat xss)) = scan_work s xss"
proof -
  have q0: "queues_ok s0 xss" and inv0: "seg_inv s0" using sv by (simp_all add: saved_tops_def)
  have cell: "\<exists>k. bs_cells s a = Some k \<and> bs_cells s0 a = Some (save_top k) \<and> c_start k \<le> c_top k"
    if a: "a \<in> set (concat xss)" for a
  proof -
    obtain i where i: "i < length xss" "a \<in> set (xss ! i)" using a by (auto simp: in_set_conv_nth[of _ xss])
    obtain k where k: "bs_cells s a = Some k" using queues_ok_mapped[OF q i] by blast
    have "bs_cells s0 a = Some (save_top k)" using sv i k by (auto simp: saved_tops_def save_cells_def)
    then show ?thesis using k seg_inv_cell[OF inv k] by (simp add: seg_ok_def)
  qed
  have "holds_objects s0 xss"
  proof -
    obtain i a k where i: "0 < i" "i < length xss" "a \<in> set (xss ! i)" "bs_cells s a = Some k" "hw_add (c_start k) 1 \<le> c_top k"
      using o unfolding holds_objects_def by blast
    have "a \<in> set (concat xss)" using i(2,3) by auto
    then have "bs_cells s0 a = Some (save_top k)" using cell i(4) by fastforce
    then show ?thesis unfolding holds_objects_def using i by (intro exI[of _ i] exI[of _ a] exI[of _ "save_top k"]) simp
  qed
  moreover have "back_list (bs_cells s0) (rev (xss ! i))" if "i < length xss" for i
    using q0 that by (auto simp: queues_ok_def intro: back_list_queue)
  moreover have "\<forall>a \<in> set (concat xss). \<exists>k. bs_cells s0 a = Some k \<and> c_start k \<le> c_saved_top k"
    using cell by fastforce
  ultimately show "scan_base s0 xss" using queues_ok_distinct[OF q0] unfolding scan_base_def by blast
  have "length (bs_spaces s0) = length xss" using q0 by (simp add: queues_ok_def)
  then show "scan_state s0 xss s0"
    using q0 inv0 sv queues_in_refl cells_kept_refl[of scan_cell "bs_cells s0"]
    unfolding scan_state_def saved_tops_def by auto
  show "flag_of s0 a = -1" if "a \<in> set (concat xss)" for a
    using cell[OF that] by (auto simp: flag_of_def)
  have "live s0 a \<longleftrightarrow> c_start (the (bs_cells s a)) \<noteq> c_top (the (bs_cells s a))"
    "saved_top_of s0 a = c_top (the (bs_cells s a))" if "a \<in> set (concat xss)" for a
    using cell[OF that] by (auto simp: live_def saved_top_of_def)
  then show "map (\<lambda>a. (a, saved_top_of s0 a)) (filter (live s0) (concat xss)) = scan_work s xss"
    unfolding scan_work_def by (intro map_cong filter_cong) auto
qed

text \<open>
  C5: the tasks that scan the containers share them out.  Take a space whose
  invariant holds, with containers \<open>xss\<close> of which one holds something.  After the
  tops are saved, let \<open>W\<close> tasks run in any interleaving with each other and with
  allocations of any kind.  No task ever meets a NULL pointer or a failing
  assertion, none makes more than a bounded number of steps, and when all are over
  the containers scanned are the ones that held something before the scavenge,
  each once, up to the top it had then.
\<close>

theorem roots_scanned_once:
  assumes "seg_inv s" "queues_ok s xss" "holds_objects s xss" "0 < W" "W \<le> ParallelGCThreads"
  shows "\<exists>s0. save_tops_for_scavenge s = Some (Inr s0) \<and>
    (\<forall>st. roots_run fl ParallelGCThreads W (roots_start s0) st \<longrightarrow>
       (\<forall>k < W. rs_pc st k \<noteq> RootsDone \<longrightarrow>
          (\<exists>r. task_step ParallelGCThreads W k (rs_space st) (rs_pc st k) = Inr r)) \<and>
       (\<forall>k < W. rs_steps st k \<le> 2 * length (concat xss) + 2 * length xss + 2) \<and>
       ((\<forall>k < W. rs_pc st k = RootsDone) \<longrightarrow> mset (map snd (rs_log st)) = mset (scan_work s xss)))"
proof -
  obtain s0 where s0: "save_tops_for_scavenge s = Some (Inr s0)" "saved_tops s xss {..<length xss} s0"
    using save_tops_ok[OF assms(1,2)] by blast
  note b = saved_scan[OF assms(1-3) s0(2)]
  have inv: "roots_inv s0 xss W st" if "roots_run fl ParallelGCThreads W (roots_start s0) st" for st
    using roots_run_inv[OF b(1) assms(5) that roots_start_inv[OF b(2,3)]] .
  have "rs_steps st k \<le> 2 * length (concat xss) + 2 * length xss + 2"
    if "roots_run fl ParallelGCThreads W (roots_start s0) st" "k < W" for st k
    using inv[OF that(1)] that(2) todo_length[OF assms(4) that(2), of xss]
    unfolding roots_inv_def task_inv_def by fastforce
  then show ?thesis
    using s0(1) inv roots_task_ok[OF b(1) inv _ assms(5)] roots_complete[OF assms(4) inv] unfolding b(4) by blast
qed

text \<open>The queues of a new space are empty, and requests keep them in order.\<close>

lemma new_queues_ok:
  assumes "\<And>i. i < length (bs_spaces s) \<Longrightarrow> grp_queue s i = gq_create"
  shows "queues_ok s (replicate (length (bs_spaces s)) [])"
  using assms gq_create_inv by (simp add: queues_ok_def lists_apart_def)

lemma sample_push: "\<exists>s'. push_container sample_bda (int 1) 10 = Inr (s', Some 0)"
  by (simp add: sample_defs address_eval summary_eval starts_eval alloc_eval sample_ids upt_conv_Cons Let_def)

lemma sample_scanned:
  "\<exists>s. seg_inv s \<and> queues_ok s [[], [0]] \<and> holds_objects s [[], [0]] \<and>
    push_container sample_bda (int 1) 10 = Inr (s, Some 0)"
proof -
  obtain s where s: "push_container sample_bda (int 1) 10 = Inr (s, Some 0)" using sample_push by blast
  have l: "1 < length (bs_spaces sample_bda)" and nc: "bs_next_cell sample_bda = 0" "bs_cells sample_bda 0 = None"
    by (simp_all add: sample_defs)
  obtain ptr t where p: "pushed sample_bda 1 10 ptr t s" "push_bounds sample_bda 1 10 ptr t"
    using push_container_pushed[OF sample_bda_inv l s] by auto
  have "queues_ok sample_bda (replicate (length (bs_spaces sample_bda)) [])"
    by (rule new_queues_ok) (auto simp: sample_defs less_Suc_eq)
  then have "queues_ok sample_bda [[], []]" by (simp add: sample_defs)
  from pushed_queues_ok[OF p(1) _ l this] have q: "queues_ok s [[], [0]]" using nc by simp
  obtain k where k: "bs_cells s 0 = Some k" using queues_ok_mapped[OF q, of 1 0] by auto
  have "c_start k = ptr \<and> c_top k = hw_add ptr 10"
  proof (use p(1) k in \<open>cases rule: pushed_cell\<close>)
    case new
    then show ?thesis using strip_links_eqD(1,2)[OF new(2)] by simp
  qed (use nc in simp)
  then have "holds_objects s [[], [0]]"
    unfolding holds_objects_def using k by (intro exI[of _ 1] exI[of _ 0] exI[of _ k]) simp
  then show ?thesis using s q pushed_seg_inv[OF sample_bda_inv l p] by blast
qed

theorem roots_scanned_once_witness:
  "\<exists>s s0 r. push_container sample_bda (int 1) 10 = Inr (s, Some 0) \<and> save_tops_for_scavenge s = Some (Inr s0) \<and>
    task_step 4 2 1 s0 Enter = Inr r"
proof -
  obtain s where s: "seg_inv s" "queues_ok s [[], [0]]" "holds_objects s [[], [0]]"
    "push_container sample_bda (int 1) 10 = Inr (s, Some 0)"
    using sample_scanned by blast
  obtain s0 where s0: "save_tops_for_scavenge s = Some (Inr s0)"
    "\<And>st. roots_run sample_flags 4 2 (roots_start s0) st \<Longrightarrow> rs_pc st 1 \<noteq> RootsDone \<Longrightarrow>
       \<exists>r. task_step 4 2 1 (rs_space st) (rs_pc st 1) = Inr r"
    using roots_scanned_once[OF s(1-3), of 2 4 sample_flags] by auto
  have "\<exists>r. task_step 4 2 1 s0 Enter = Inr r" using s0(2)[of "roots_start s0"] by (simp add: roots_start_def)
  then show ?thesis using s(4) s0(1) by blast
qed

end
