(* ===== verification/Fillers.thy ===== *)
theory Fillers
  imports ObjectStarts
begin

text \<open>
  Filler objects, \<open>gc_interface/collectedHeap.cpp\<close>: the sizes of array headers and the
  largest array, and the functions that cover a dead range with objects so that the heap can
  still be walked.  The heap maps the address of an object to what its header says.  The
  alignment of objects and the width of class pointers are options of the virtual machine and
  parameters here.
\<close>

section \<open>Sizes\<close>

record layout =
  UseCompressedClassPointers :: bool
  LogObjAlignment :: nat

definition max_jint :: nat where
  "max_jint = 2 ^ 31 - 1"

definition length_offset_in_bytes :: "layout \<Rightarrow> size_t" where
  "length_offset_in_bytes L = (if UseCompressedClassPointers L then 8 + 4 else 16)"

definition array_header_size_in_bytes :: "layout \<Rightarrow> size_t" where
  "array_header_size_in_bytes L = align_ptr_up (length_offset_in_bytes L + 4) HeapWordSize"

text \<open>The header of an \<open>int\<close> array in words; \<open>T_INT\<close> needs no alignment of its own.\<close>

definition array_header_size :: "layout \<Rightarrow> size_t" where
  "array_header_size L = array_header_size_in_bytes L div HeapWordSize"

definition align_object_size :: "layout \<Rightarrow> size_t \<Rightarrow> size_t" where
  "align_object_size L s = align_ptr_up s (2 ^ LogObjAlignment L)"

definition max_array_length :: "layout \<Rightarrow> size_t" where
  "max_array_length L =
     (let words = align_ptr_down ((size_t_max1 - 1) div HeapWordSize - array_header_size L) (2 ^ LogObjAlignment L);
          elements = HeapWordSize * words div 4
      in if max_jint < elements then align_ptr_down (max_jint - array_header_size L) (2 ^ LogObjAlignment L)
         else elements)"

definition filler_array_hdr_size :: "layout \<Rightarrow> size_t" where
  "filler_array_hdr_size L = align_ptr_up (array_header_size L) 1"

definition filler_array_min_size :: "layout \<Rightarrow> size_t" where
  "filler_array_min_size L = align_object_size L (filler_array_hdr_size L)"

definition filler_array_max_size :: "layout \<Rightarrow> size_t" where
  "filler_array_max_size L = align_object_size L (filler_array_hdr_size L + max_array_length L div 2)"

definition min_fill_size :: "layout \<Rightarrow> size_t" where
  "min_fill_size L = align_object_size L 2"

section \<open>Objects\<close>

datatype heap_obj =
    IntArray int
  | PlainObject
  | Copied size_t

type_synonym heap = "addr \<rightharpoonup> heap_obj"

text \<open>A \<open>size_t\<close> stored into a Java \<open>int\<close>.\<close>

definition as_jint :: "size_t \<Rightarrow> int" where
  "as_jint n = (int n + 2 ^ 31) mod 2 ^ 32 - 2 ^ 31"

definition int_array_words :: "layout \<Rightarrow> int \<Rightarrow> size_t result" where
  "int_array_words L len =
     (if \<not> len \<le> int (max_array_length L) then Inl (AssertFailed ''no overflow'')
      else let bytes = nat (len mod 2 ^ 32) * 4 + array_header_size L * HeapWordSize;
               words = (bytes + (HeapWordSize - 1)) div 2 ^ LogHeapWordSize
           in if \<not> words \<le> max_jint then Inl (AssertFailed ''no overflow'')
              else Inr (align_object_size L words))"

fun obj_words :: "layout \<Rightarrow> heap_obj \<Rightarrow> size_t result" where
  "obj_words L (IntArray len) = int_array_words L len"
| "obj_words L PlainObject = Inr (align_object_size L 2)"
| "obj_words L (Copied n) = Inr n"

definition heap_words :: "layout \<Rightarrow> heap \<Rightarrow> addr \<Rightarrow> size_t" where
  "heap_words L h p = (case h p of None \<Rightarrow> 0 | Some ob \<Rightarrow> (case obj_words L ob of Inl _ \<Rightarrow> 0 | Inr n \<Rightarrow> n))"

section \<open>Filling\<close>

definition fill_args_check :: "layout \<Rightarrow> (addr \<Rightarrow> bool) \<Rightarrow> addr \<Rightarrow> size_t \<Rightarrow> unit result" where
  "fill_args_check L is_in_reserved start words =
     (if \<not> words \<ge> min_fill_size L then Inl (AssertFailed ''too small to fill'')
      else if words mod 2 ^ LogObjAlignment L \<noteq> 0 then Inl (AssertFailed ''unaligned size'')
      else if \<not> is_in_reserved start then Inl (AssertFailed ''not in heap'')
      else if \<not> is_in_reserved (hw_add start (words - 1)) then Inl (AssertFailed ''not in heap'')
      else Inr ())"

definition fill_with_array :: "layout \<Rightarrow> heap \<Rightarrow> addr \<Rightarrow> size_t \<Rightarrow> heap result" where
  "fill_with_array L h start words =
     (if \<not> words \<ge> filler_array_min_size L then Inl (AssertFailed ''too small for an array'')
      else if \<not> words \<le> filler_array_max_size L then Inl (AssertFailed ''too big for a single object'')
      else let len = (words - filler_array_hdr_size L) * HeapWordSize div 4
           in if \<not> as_jint len \<ge> 0 then Inl (AssertFailed ''size too large'')
              else Inr (h(start \<mapsto> IntArray (as_jint len))))"

definition fill_with_object_impl :: "layout \<Rightarrow> heap \<Rightarrow> addr \<Rightarrow> size_t \<Rightarrow> heap result" where
  "fill_with_object_impl L h start words =
     (if \<not> words \<le> filler_array_max_size L then Inl (AssertFailed ''too big for a single object'')
      else if words \<ge> filler_array_min_size L then fill_with_array L h start words
      else if words > 0
      then (if words \<noteq> min_fill_size L then Inl (AssertFailed ''unaligned size'')
            else Inr (h(start \<mapsto> PlainObject)))
      else Inr h)"

definition fill_with_object :: "layout \<Rightarrow> (addr \<Rightarrow> bool) \<Rightarrow> heap \<Rightarrow> addr \<Rightarrow> size_t \<Rightarrow> heap result" where
  "fill_with_object L is_in_reserved h start words =
     bind_result (fill_args_check L is_in_reserved start words) (\<lambda>_. fill_with_object_impl L h start words)"

partial_function (option) fill_loop :: "layout \<Rightarrow> heap \<Rightarrow> addr \<Rightarrow> size_t \<Rightarrow> heap result option" where
  "fill_loop L h start words =
     (if words > filler_array_max_size L then
        let cur = (if words - filler_array_max_size L \<ge> min_fill_size L then filler_array_max_size L
                   else filler_array_max_size L - min_fill_size L)
        in case fill_with_array L h start cur of
             Inl e \<Rightarrow> Some (Inl e)
           | Inr h \<Rightarrow> fill_loop L h (hw_add start cur) (words - cur)
      else Some (fill_with_object_impl L h start words))"

definition fill_with_objects :: "layout \<Rightarrow> (addr \<Rightarrow> bool) \<Rightarrow> heap \<Rightarrow> addr \<Rightarrow> size_t \<Rightarrow> heap result option" where
  "fill_with_objects L is_in_reserved h start words =
     (case fill_args_check L is_in_reserved start words of
        Inl e \<Rightarrow> Some (Inl e)
      | Inr _ \<Rightarrow> fill_loop L h start words)"

section \<open>Facts\<close>

lemma array_header_cases: "array_header_size L = (if UseCompressedClassPointers L then 2 else 3)"
  by (simp add: array_header_size_def array_header_size_in_bytes_def length_offset_in_bytes_def HeapWordSize_def
      align_ptr_up_def align_size_up_def)

lemma filler_hdr [simp]: "filler_array_hdr_size L = array_header_size L"
  by (simp add: filler_array_hdr_size_def align_ptr_up_def align_size_up_def)

lemma aligned_id: "2 ^ LogObjAlignment L dvd s \<Longrightarrow> align_object_size L s = s"
  unfolding align_object_size_def by (meson align_ptr_up_ge align_ptr_up_least order_antisym order_refl)

lemma align_dvd: "2 ^ LogObjAlignment L dvd align_object_size L s"
  by (simp add: align_object_size_def align_ptr_up_dvd)

lemma align_ge: "s \<le> align_object_size L s"
  by (simp add: align_object_size_def align_ptr_up_ge)

text \<open>The layouts whose largest filler is an array the virtual machine can describe.\<close>

definition fillable :: "layout \<Rightarrow> bool" where
  "fillable L \<longleftrightarrow> 2 * (filler_array_max_size L - array_header_size L) \<le> max_array_length L \<and>
     min_fill_size L + filler_array_min_size L \<le> filler_array_max_size L"

lemma max_array_length_le: "max_array_length L \<le> max_jint"
  by (auto simp: max_array_length_def Let_def align_ptr_down_eq intro: diff_le_self order.trans)

lemma fill_with_array_ok:
  assumes L: "fillable L" and w: "filler_array_min_size L \<le> words" "words \<le> filler_array_max_size L"
    and d: "2 ^ LogObjAlignment L dvd words"
  shows "\<exists>len. fill_with_array L h start words = Inr (h(start \<mapsto> IntArray len)) \<and> obj_words L (IntArray len) = Inr words"
proof -
  define pay where "pay = words - array_header_size L"
  have hdr: "array_header_size L \<le> words"
    using w(1) align_ge[of "array_header_size L" L] by (simp add: filler_array_min_size_def)
  have len: "2 * pay \<le> max_array_length L" "2 * pay \<le> max_jint"
    using L w(2) max_array_length_le[of L] by (auto simp: fillable_def pay_def)
  have j: "as_jint (2 * pay) = int (2 * pay)"
    using len(2) by (simp add: as_jint_def max_jint_def)
  have m: "nat (int (2 * pay) mod 2 ^ 32) = 2 * pay"
    using len(2) by (simp add: max_jint_def)
  have b: "(2 * pay * 4 + array_header_size L * HeapWordSize + (HeapWordSize - 1)) div 2 ^ LogHeapWordSize = words"
    using hdr by (simp add: pay_def HeapWordSize_def LogHeapWordSize_def)
  have "words \<le> max_jint"
    using len(2) hdr array_header_cases[of L] by (auto simp: pay_def max_jint_def split: if_splits)
  then have "int_array_words L (int (2 * pay)) = Inr words"
    unfolding int_array_words_def Let_def m b using len(1) aligned_id[OF d] by simp
  then show ?thesis
    using w j by (auto simp: fill_with_array_def pay_def HeapWordSize_def)
qed

lemma fill_with_object_impl_ok:
  assumes L: "fillable L" and w: "min_fill_size L \<le> words" "words \<le> filler_array_max_size L"
    and d: "2 ^ LogObjAlignment L dvd words"
  shows "\<exists>ob. fill_with_object_impl L h start words = Inr (h(start \<mapsto> ob)) \<and> obj_words L ob = Inr words"
proof (cases "filler_array_min_size L \<le> words")
  case True
  then show ?thesis
    using fill_with_array_ok[OF L True w(2) d, of h start] w(2) by (auto simp: fill_with_object_impl_def simp del: obj_words.simps)
next
  case False
  have min2: "2 \<le> min_fill_size L" using align_ge[of 2 L] by (simp add: min_fill_size_def)
  have "words < align_object_size L 3"
    using False array_header_cases[of L] w(1) by (auto simp: filler_array_min_size_def min_fill_size_def split: if_splits)
  moreover have "3 \<le> words \<Longrightarrow> align_object_size L 3 \<le> words"
    using align_ptr_up_least[of 3 words] d by (simp add: align_object_size_def)
  ultimately have "words = 2" using w(1) min2 by linarith
  then have "words = min_fill_size L" using w(1) min2 by linarith
  then show ?thesis
    using False w min2 by (auto simp: fill_with_object_impl_def min_fill_size_def)
qed

lemma tiles_heap_cong:
  assumes "tiles (heap_words L h) p os q" "\<And>x. p \<le> x \<Longrightarrow> x < q \<Longrightarrow> h' x = h x"
  shows "tiles (heap_words L h') p os q"
  using assms
proof (induction os arbitrary: p)
  case (Cons x os)
  have "hw_add x (heap_words L h x) \<le> q" using Cons.prems(1) tiles_le by fastforce
  moreover have "x < hw_add x (heap_words L h x)" using Cons.prems(1) by (simp add: hw_add_def HeapWordSize_def)
  ultimately have "x < q" by linarith
  then have x: "heap_words L h' x = heap_words L h x" using Cons.prems by (simp add: heap_words_def)
  have "\<And>y. hw_add x (heap_words L h x) \<le> y \<Longrightarrow> y < q \<Longrightarrow> h' y = h y"
    using Cons.prems(1,2) hw_add_ge[of x] by (metis order.trans tiles.simps(2))
  then show ?case using Cons.IH[of "hw_add x (heap_words L h x)"] Cons.prems(1) x by simp
qed simp

lemma fill_loop_ok:
  assumes L: "fillable L" and "min_fill_size L \<le> words" "2 ^ LogObjAlignment L dvd words"
  shows "\<exists>h' os. fill_loop L h start words = Some (Inr h') \<and> tiles (heap_words L h') start os (hw_add start words) \<and>
    (\<forall>p. p \<notin> set os \<longrightarrow> h' p = h p)"
  using assms(2,3)
proof (induction words arbitrary: h start rule: less_induct)
  case (less words)
  define mx where "mx = filler_array_max_size L"
  define mn where "mn = min_fill_size L"
  have mn: "2 \<le> mn" using align_ge[of 2 L] by (simp add: mn_def min_fill_size_def)
  have filler_min: "2 \<le> filler_array_min_size L"
    using align_ge[of "array_header_size L" L] array_header_cases[of L] by (simp add: filler_array_min_size_def split: if_splits)
  show ?case
  proof (cases "words > mx")
    case False
    obtain ob where ob: "fill_with_object_impl L h start words = Inr (h(start \<mapsto> ob))" "obj_words L ob = Inr words"
      using fill_with_object_impl_ok[OF L less.prems(1) _ less.prems(2)] False by (force simp: mx_def)
    have "tiles (heap_words L (h(start \<mapsto> ob))) start [start] (hw_add start words)"
      using ob(2) less.prems(1) mn by (simp add: heap_words_def mn_def)
    then show ?thesis
      using False ob(1) by (subst fill_loop.simps) (fastforce simp: mx_def)
  next
    case True
    define cur where "cur = (if words - mx \<ge> mn then mx else mx - mn)"
    have L': "mn + filler_array_min_size L \<le> mx" using L by (simp add: fillable_def mn_def mx_def)
    have d: "2 ^ LogObjAlignment L dvd cur"
      by (auto simp: cur_def mx_def mn_def filler_array_max_size_def min_fill_size_def align_dvd intro: dvd_diff_nat)
    have c: "filler_array_min_size L \<le> cur" "cur \<le> mx" "0 < cur" "cur < words" "mn \<le> words - cur"
      using L' mn True filler_min by (auto simp: cur_def)
    obtain len where len: "fill_with_array L h start cur = Inr (h(start \<mapsto> IntArray len))" "obj_words L (IntArray len) = Inr cur"
      using fill_with_array_ok[OF L c(1) _ d] c(2) by (force simp: mx_def)
    have "2 ^ LogObjAlignment L dvd words - cur" using d less.prems(2) by simp
    then obtain h' os where h': "fill_loop L (h(start \<mapsto> IntArray len)) (hw_add start cur) (words - cur) = Some (Inr h')"
        "tiles (heap_words L h') (hw_add start cur) os (hw_add start words)"
        "\<forall>p. p \<notin> set os \<longrightarrow> h' p = (h(start \<mapsto> IntArray len)) p"
      using less.IH[of "words - cur" "h(start \<mapsto> IntArray len)" "hw_add start cur"] c
      by (auto simp: mn_def simp del: fun_upd_apply)
    have s: "start \<notin> set os" using tiles_bounds[OF h'(2)] c(3) hw_add_gt[of cur start] by fastforce
    then have "heap_words L h' start = cur" using h'(3) len(2) by (simp add: heap_words_def)
    then have "tiles (heap_words L h') start (start # os) (hw_add start words)" using h'(2) c(3) by simp
    moreover have "\<forall>p. p \<notin> set (start # os) \<longrightarrow> h' p = h p" using h'(3) by simp
    moreover have "fill_loop L h start words = Some (Inr h')"
      unfolding fill_loop.simps[of L h start words] Let_def mx_def[symmetric] mn_def[symmetric]
      unfolding cur_def[symmetric] using True len(1) h'(1) by simp
    ultimately show ?thesis by blast
  qed
qed

text \<open>C13: Filling leaves a heap that can be walked.  For a range of the heap that is at least as
  large as the smallest object and a multiple of the object alignment, \<open>fill_with_objects\<close>
  ends without a failed assertion, and the fillers it writes lie side by side from the first
  word of the range to the last, their sizes read from their headers; no other address is
  written.  Larger ranges take several arrays.\<close>

theorem fill_with_objects_tiles:
  assumes "fillable L" "min_fill_size L \<le> words" "words mod 2 ^ LogObjAlignment L = 0"
    and "is_in_reserved start" "is_in_reserved (hw_add start (words - 1))"
  shows "\<exists>h' os. fill_with_objects L is_in_reserved h start words = Some (Inr h') \<and>
    tiles (heap_words L h') start os (hw_add start words) \<and> (\<forall>p. p \<notin> set os \<longrightarrow> h' p = h p)"
proof -
  have "fill_args_check L is_in_reserved start words = Inr ()"
    using assms(2-5) by (simp add: fill_args_check_def)
  then show ?thesis
    using fill_loop_ok[OF assms(1,2)] assms(3) by (simp add: fill_with_objects_def mod_eq_0_iff_dvd)
qed

definition default_layout :: layout where
  "default_layout = \<lparr>UseCompressedClassPointers = True, LogObjAlignment = 0\<rparr>"

text \<open>With the default alignment of eight bytes every filler can be described, whatever the class
  pointers.\<close>

lemmas layout_sizes = filler_array_max_size_def filler_array_min_size_def min_fill_size_def max_array_length_def
  align_object_size_def align_ptr_up_def align_size_up_def align_ptr_down_def align_size_down_def array_header_cases
  HeapWordSize_def max_jint_def size_t_max1_def Let_def

lemma fillable_default: "LogObjAlignment L = 0 \<Longrightarrow> fillable L"
  by (simp add: fillable_def layout_sizes)

theorem fill_with_objects_tiles_witness:
  "\<exists>h' os. fill_with_objects default_layout (\<lambda>p. 1024 \<le> p \<and> p < 2 ^ 40) Map.empty 1024 3000000000 = Some (Inr h') \<and>
    tiles (heap_words default_layout h') 1024 os (hw_add 1024 3000000000)"
proof -
  have "fillable default_layout" by (simp add: fillable_default default_layout_def)
  moreover have "min_fill_size default_layout \<le> 3000000000"
    by (simp add: default_layout_def layout_sizes)
  moreover have "(3000000000 :: nat) mod 2 ^ LogObjAlignment default_layout = 0" by (simp add: default_layout_def)
  ultimately show ?thesis
    using fill_with_objects_tiles[of default_layout 3000000000 "\<lambda>p. 1024 \<le> p \<and> p < 2 ^ 40" 1024 Map.empty]
    by (auto simp: hw_add_def HeapWordSize_def)
qed

text \<open>With 32-byte alignment and wide class pointers the bound is rounded up past what an array can
  hold: the largest filler the assertions let through has a negative length.\<close>

theorem filler_max_size_too_large:
  "fill_with_array \<lparr>UseCompressedClassPointers = False, LogObjAlignment = 2\<rparr> h start
     (filler_array_max_size \<lparr>UseCompressedClassPointers = False, LogObjAlignment = 2\<rparr>) =
   Inl (AssertFailed ''size too large'')"
  by (simp add: fill_with_array_def layout_sizes as_jint_def)

end
