(* ===== verification/PromotionLabs.thy ===== *)
theory PromotionLabs
  imports Fillers Containers
begin

text \<open>
  Promotion buffers: \<open>PSPromotionLAB\<close> and its young and old variants
  (\<open>parallelScavenge/psPromotionLAB.hpp\<close>, \<open>.cpp\<close>, \<open>.inline.hpp\<close>), and
  \<open>BDAOldPromotionLAB\<close>, which serves the elements of one container only
  (\<open>bda/bdaOldPromotionLAB.cpp\<close>).  The start array is shared by all buffers and passed along;
  None is a NULL pointer to it.  The patterns a debug build writes into free memory are left
  out: the heap records the headers of objects.
\<close>

section \<open>Buffers\<close>

datatype lab_state = needs_flush | flushed | zero_size

record lab =
  lab_top :: addr
  lab_bottom :: addr
  lab_end :: addr
  lab_state :: lab_state

definition lab_is_flushed :: "('a lab_scheme) \<Rightarrow> bool" where
  "lab_is_flushed l \<longleftrightarrow> lab_state l = flushed"

definition lab_contains :: "('a lab_scheme) \<Rightarrow> addr \<Rightarrow> bool" where
  "lab_contains l p \<longleftrightarrow> lab_bottom l \<le> p \<and> p < lab_end l"

definition lab_free :: "('a lab_scheme) \<Rightarrow> size_t" where
  "lab_free l = pointer_delta_sz (lab_end l) (lab_top l) 1"

definition filler_header_size :: "layout \<Rightarrow> size_t" where
  "filler_header_size L = align_object_size L (array_header_size L)"

definition lab_initialize :: "layout \<Rightarrow> (mem_region \<Rightarrow> bool) \<Rightarrow> mem_region \<Rightarrow> ('a lab_scheme) \<Rightarrow> ('a lab_scheme) result" where
  "lab_initialize L lab_is_valid mr l =
     (if \<not> lab_is_valid mr then Inl (AssertFailed ''Sanity'')
      else let l = l\<lparr>lab_bottom := mr_start mr, lab_end := mr_end mr, lab_top := mr_start mr\<rparr>
           in bind_result
                (if lab_free l > 0
                 then (if \<not> mr_word_size mr \<ge> filler_header_size L then Inl (AssertFailed ''lab is too small'')
                       else Inr (l\<lparr>lab_end := mr_end mr - filler_header_size L * HeapWordSize, lab_state := needs_flush\<rparr>))
                 else Inr (l\<lparr>lab_state := zero_size\<rparr>))
                (\<lambda>l. if \<not> lab_top l \<le> lab_end l then Inl (AssertFailed ''pointers out of order'') else Inr l))"

definition lab_flush :: "layout \<Rightarrow> heap \<Rightarrow> ('a lab_scheme) \<Rightarrow> (heap \<times> 'a lab_scheme) result" where
  "lab_flush L h l =
     (if lab_state l = flushed then Inl (AssertFailed ''Attempt to flush PLAB twice'')
      else if \<not> lab_top l \<le> lab_end l then Inl (AssertFailed ''pointers out of order'')
      else if lab_state l = zero_size then Inr (h, l)
      else let tlab_end = hw_add (lab_end l) (filler_header_size L);
               array_length = (pointer_delta tlab_end (lab_top l) + size_t_max1 - array_header_size L) mod size_t_max1
           in if \<not> array_length * (HeapWordSize div 4) < max_jint then Inl (AssertFailed ''array too big in PSPromotionLAB'')
              else Inr (h(lab_top l \<mapsto> IntArray (as_jint (array_length * (HeapWordSize div 4)))),
                        l\<lparr>lab_bottom := NULL, lab_end := NULL, lab_top := NULL, lab_state := flushed\<rparr>))"

definition lab_unallocate :: "(addr \<Rightarrow> bool) \<Rightarrow> ('a lab_scheme) \<Rightarrow> addr \<Rightarrow> size_t \<Rightarrow> (bool \<times> 'a lab_scheme) result" where
  "lab_unallocate is_in l obj obj_size =
     (if \<not> is_in obj then Inl (AssertFailed ''Object outside heap'')
      else if lab_contains l obj
      then (if hw_add obj obj_size \<noteq> lab_top l then Inl (AssertFailed ''Not matching last allocation'')
            else Inr (True, l\<lparr>lab_top := obj\<rparr>))
      else Inr (False, l))"

section \<open>Old buffers\<close>

definition obj_aligned :: "layout \<Rightarrow> addr \<Rightarrow> bool" where
  "obj_aligned L p \<longleftrightarrow> p = align_object_size L p"

definition old_allocate :: "layout \<Rightarrow> ('a lab_scheme) \<Rightarrow> osarray option \<Rightarrow> size_t \<Rightarrow>
    ('a lab_scheme \<times> osarray option \<times> addr option) result" where
  "old_allocate L l start_array sz =
     (case start_array of
        None \<Rightarrow> Inl (AssertFailed ''Sanity'')
      | Some osa \<Rightarrow>
        let obj = lab_top l; new_top = hw_add obj sz mod size_t_max1
        in if new_top > obj \<and> new_top \<le> lab_end l
           then (if \<not> (obj_aligned L obj \<and> obj_aligned L new_top) then Inl (AssertFailed ''checking alignment'')
                 else bind_result (allocate_block osa obj) (\<lambda>osa. Inr (l\<lparr>lab_top := new_top\<rparr>, Some osa, Some obj)))
           else Inr (l, Some osa, None))"

definition old_flush :: "layout \<Rightarrow> heap \<Rightarrow> ('a lab_scheme) \<Rightarrow> osarray option \<Rightarrow> (heap \<times> 'a lab_scheme \<times> osarray option) result" where
  "old_flush L h l start_array =
     (if lab_state l = flushed then Inl (AssertFailed ''Attempt to flush PLAB twice'')
      else if \<not> lab_top l \<le> lab_end l then Inl (AssertFailed ''pointers out of order'')
      else if lab_state l = zero_size then Inr (h, l, start_array)
      else bind_result (lab_flush L h l) (\<lambda>(h', l').
           case start_array of
             None \<Rightarrow> Inl (AssertFailed ''Sanity'')
           | Some osa \<Rightarrow> bind_result (allocate_block osa (lab_top l)) (\<lambda>osa. Inr (h', l', Some osa))))"

definition old_lab_is_valid :: "osarray \<Rightarrow> mem_region \<Rightarrow> mem_region \<Rightarrow> bool result" where
  "old_lab_is_valid osa used mr =
     (if \<not> mr_contains (osa_covered osa) mr then Inl (AssertFailed ''Sanity'') else Inr (mr_contains used mr))"

section \<open>Buffers for a container\<close>

record bda_lab = lab +
  bl_container :: container_t

definition bda_lab_is_valid :: "cheap \<Rightarrow> container_t \<Rightarrow> mem_region \<Rightarrow> bool" where
  "bda_lab_is_valid ch container mr =
     (case cget ch container of
        Inl _ \<Rightarrow> container = None
      | Inr c \<Rightarrow> mr_contains (mem_region_of (c_start c) (c_top c)) mr)"

definition bda_lab_initialize :: "layout \<Rightarrow> cheap \<Rightarrow> mem_region \<Rightarrow> container_t \<Rightarrow> bda_lab \<Rightarrow> bda_lab result" where
  "bda_lab_initialize L ch mr container l =
     lab_initialize L (bda_lab_is_valid ch container) mr (l\<lparr>bl_container := container\<rparr>)"

definition bda_lab_allocate :: "layout \<Rightarrow> bda_lab \<Rightarrow> osarray option \<Rightarrow> size_t \<Rightarrow> container_t \<Rightarrow>
    (bda_lab \<times> osarray option \<times> addr option) result" where
  "bda_lab_allocate L l start_array sz container =
     (if bl_container l \<noteq> container then Inr (l, start_array, None) else old_allocate L l start_array sz)"

section \<open>Young buffers\<close>

definition align_allocation_or_fail ::
  "layout \<Rightarrow> (addr \<Rightarrow> bool) \<Rightarrow> heap \<Rightarrow> addr \<Rightarrow> addr \<Rightarrow> nat \<Rightarrow> (heap \<times> addr option) result" where
  "align_allocation_or_fail L is_in_reserved h p e alignment =
     (if alignment \<le> HeapWordSize * 2 ^ LogObjAlignment L then Inr (h, Some p)
      else if p mod HeapWordSize \<noteq> 0 then Inl (AssertFailed ''Address is not properly aligned.'')
      else if alignment mod HeapWordSize \<noteq> 0 then Inl (AssertFailed ''Alignment size is incorrect.'')
      else let new_addr = align_ptr_up p alignment; padding = pointer_delta new_addr p
           in if padding = 0 then Inr (h, Some p)
              else let small = padding < min_fill_size L;
                       padding = (if small then padding + alignment div HeapWordSize else padding);
                       new_addr = (if small then hw_add p padding else new_addr)
                   in if small \<and> \<not> padding \<ge> min_fill_size L
                      then Inl (AssertFailed ''alignment_in_bytes is expect to be larger than the minimum object size'')
                      else if \<not> new_addr > p then Inl (AssertFailed ''Unexpected arithmetic overflow'')
                      else if new_addr < e
                      then bind_result (fill_with_object L is_in_reserved h p padding) (\<lambda>h. Inr (h, Some new_addr))
                      else Inr (h, None))"

definition young_allocate ::
  "layout \<Rightarrow> (addr \<Rightarrow> bool) \<Rightarrow> nat \<Rightarrow> heap \<Rightarrow> ('a lab_scheme) \<Rightarrow> size_t \<Rightarrow> (heap \<times> 'a lab_scheme \<times> addr option) result" where
  "young_allocate L is_in_reserved SurvivorAlignmentInBytes h l sz =
     bind_result (align_allocation_or_fail L is_in_reserved h (lab_top l) (lab_end l) SurvivorAlignmentInBytes) (\<lambda>(h, r).
       case r of
         None \<Rightarrow> Inr (h, l, None)
       | Some obj \<Rightarrow>
         let new_top = hw_add obj sz mod size_t_max1
         in if new_top > obj \<and> new_top \<le> lab_end l
            then (if \<not> (obj mod SurvivorAlignmentInBytes = 0 \<and> obj_aligned L new_top)
                  then Inl (AssertFailed ''checking alignment'')
                  else Inr (h, l\<lparr>lab_top := new_top\<rparr>, Some obj))
            else Inr (h, l\<lparr>lab_top := obj\<rparr>, None))"

section \<open>The life of a buffer\<close>

text \<open>What a promotion manager does with a buffer between \<open>initialize\<close> and \<open>flush\<close>:
  it allocates for an element of a container and copies it there; when another thread has
  forwarded the object first, it takes the allocation back at once.\<close>

record lab_op =
  op_words :: size_t
  op_container :: container_t
  op_won :: bool

record lab_run =
  lr_lab :: bda_lab
  lr_osa :: "osarray option"
  lr_heap :: heap
  lr_objs :: "addr list"

definition lab_copy :: "layout \<Rightarrow> (addr \<Rightarrow> bool) \<Rightarrow> lab_op \<Rightarrow> lab_run \<Rightarrow> lab_run result" where
  "lab_copy L is_in x r =
     bind_result (bda_lab_allocate L (lr_lab r) (lr_osa r) (op_words x) (op_container x)) (\<lambda>(l, osa, p).
       case p of
         None \<Rightarrow> Inr (r\<lparr>lr_lab := l, lr_osa := osa\<rparr>)
       | Some p \<Rightarrow>
         let r = r\<lparr>lr_lab := l, lr_osa := osa, lr_heap := (lr_heap r)(p \<mapsto> Copied (op_words x))\<rparr>
         in if op_won x then Inr (r\<lparr>lr_objs := lr_objs r @ [p]\<rparr>)
            else bind_result (lab_unallocate is_in l p (op_words x)) (\<lambda>(b, l). Inr (r\<lparr>lr_lab := l\<rparr>)))"

fun lab_copies :: "layout \<Rightarrow> (addr \<Rightarrow> bool) \<Rightarrow> lab_op list \<Rightarrow> lab_run \<Rightarrow> lab_run result" where
  "lab_copies L is_in [] r = Inr r"
| "lab_copies L is_in (x # xs) r = bind_result (lab_copy L is_in x r) (lab_copies L is_in xs)"

text \<open>The invariant: the objects copied so far tile the buffer up to its top, and the start array
  has their starts, and perhaps the top, where an allocation was taken back.\<close>

definition lab_inv :: "layout \<Rightarrow> addr \<Rightarrow> addr \<Rightarrow> addr set \<Rightarrow> lab_run \<Rightarrow> bool" where
  "lab_inv L b e S r \<longleftrightarrow>
     lab_bottom (lr_lab r) = b \<and> hw_add (lab_end (lr_lab r)) (filler_header_size L) = e \<and>
     lab_top (lr_lab r) \<le> lab_end (lr_lab r) \<and> lab_top (lr_lab r) mod 8 = 0 \<and> lab_state (lr_lab r) = needs_flush \<and>
     tiles (heap_words L (lr_heap r)) b (lr_objs r) (lab_top (lr_lab r)) \<and>
     (\<exists>osa T. lr_osa r = Some osa \<and> osa_wf osa \<and> osa_rep osa (S \<union> set (lr_objs r) \<union> T) \<and>
        T \<subseteq> {lab_top (lr_lab r)} \<and> osa_base osa \<le> b \<and> e \<le> mr_end (osa_covered osa))"

lemma filler_header_pos: "2 \<le> filler_header_size L"
  using align_ge[of "array_header_size L" L] array_header_cases[of L] by (simp add: filler_header_size_def split: if_splits)

lemma obj_aligned_default [simp]: "LogObjAlignment L = 0 \<Longrightarrow> obj_aligned L p"
  by (simp add: obj_aligned_def aligned_id)

lemma tiles_snoc: "tiles f p (xs @ [x]) q \<longleftrightarrow> tiles f p xs x \<and> f x > 0 \<and> q = hw_add x (f x)"
  by (induction xs arbitrary: p) auto

lemma tiles_place:
  assumes "tiles (heap_words L h) b os t" "0 < n"
  shows "tiles (heap_words L (h(t \<mapsto> Copied n))) b os t"
    and "tiles (heap_words L (h(t \<mapsto> Copied n))) b (os @ [t]) (hw_add t n)"
proof -
  show 1: "tiles (heap_words L (h(t \<mapsto> Copied n))) b os t"
    using assms(1) by (rule tiles_heap_cong) simp
  then show "tiles (heap_words L (h(t \<mapsto> Copied n))) b (os @ [t]) (hw_add t n)"
    using assms(2) by (simp add: tiles_snoc heap_words_def)
qed

text \<open>An allocation is refused and changes nothing, or it moves the top and enters the old top in
  the start array.\<close>

lemma bda_lab_allocate_cases:
  assumes inv: "lab_inv L b e S r" and L: "LogObjAlignment L = 0" and n: "0 < n" "n < 2 ^ 32" and e: "e < 2 ^ 63"
    and t: "t = lab_top (lr_lab r)"
  shows "bda_lab_allocate L (lr_lab r) (lr_osa r) n c = Inr (lr_lab r, lr_osa r, None) \<or>
    (\<exists>osa'. bda_lab_allocate L (lr_lab r) (lr_osa r) n c = Inr ((lr_lab r)\<lparr>lab_top := hw_add t n\<rparr>, Some osa', Some t) \<and>
      t < hw_add t n \<and> hw_add t n \<le> lab_end (lr_lab r) \<and> osa_wf osa' \<and> osa_rep osa' (insert t (S \<union> set (lr_objs r))) \<and>
      osa_base osa' \<le> b \<and> e \<le> mr_end (osa_covered osa'))"
proof -
  obtain osa T where osa: "lr_osa r = Some osa" "osa_wf osa" "osa_rep osa (S \<union> set (lr_objs r) \<union> T)" "T \<subseteq> {t}"
      "osa_base osa \<le> b" "e \<le> mr_end (osa_covered osa)"
    using inv by (auto simp: lab_inv_def t)
  have lab: "t \<le> lab_end (lr_lab r)" "t mod 8 = 0" "b \<le> t" "lab_end (lr_lab r) < e"
    using inv filler_header_pos[of L] by (auto simp: lab_inv_def t hw_add_def HeapWordSize_def dest: tiles_le)
  have top: "hw_add t n mod size_t_max1 = hw_add t n"
    using lab e n(2) by (simp add: hw_add_def HeapWordSize_def size_t_max1_def)
  have gt: "hw_add t n > t" using n(1) by (simp add: hw_add_def HeapWordSize_def)
  have cov: "mr_contains_addr (osa_covered osa) t"
    using lab osa(5,6) by (simp add: mr_contains_addr_def osa_base_def)
  obtain osa' where osa': "allocate_block osa t = Inr osa'" "osa_wf osa'"
      "osa_rep osa' (insert t (S \<union> set (lr_objs r) \<union> T))" "osa_covered osa' = osa_covered osa"
    using allocate_block_ok[OF osa(2,3) cov lab(2)] by auto
  have "insert t (S \<union> set (lr_objs r) \<union> T) = insert t (S \<union> set (lr_objs r))" using osa(4) by auto
  then show ?thesis
    using osa osa' top gt L
    by (auto simp: bda_lab_allocate_def old_allocate_def Let_def t[symmetric] osa_base_def)
qed

lemma lab_copy_ok:
  assumes inv: "lab_inv L b e S r" and L: "LogObjAlignment L = 0" and x: "0 < op_words x" "op_words x < 2 ^ 32"
    and e: "e < 2 ^ 63" and isin: "\<And>p. b \<le> p \<Longrightarrow> p < e \<Longrightarrow> is_in p"
  shows "\<exists>r'. lab_copy L is_in x r = Inr r' \<and> lab_inv L b e S r'"
proof -
  define t where "t = lab_top (lr_lab r)"
  define n where "n = op_words x"
  have lab: "lab_bottom (lr_lab r) = b" "hw_add (lab_end (lr_lab r)) (filler_header_size L) = e"
      "t mod 8 = 0" "tiles (heap_words L (lr_heap r)) b (lr_objs r) t" "lab_state (lr_lab r) = needs_flush"
    using inv by (auto simp: lab_inv_def t_def)
  have bt: "b \<le> t" using tiles_le[OF lab(4)] .
  have te: "lab_end (lr_lab r) < e" using lab(2) filler_header_pos[of L] by (auto simp: hw_add_def HeapWordSize_def)
  note pl = tiles_place[OF lab(4), of n]
  from bda_lab_allocate_cases[OF inv L x e t_def, of "op_container x"] show ?thesis
  proof (elim disjE exE conjE)
    assume "bda_lab_allocate L (lr_lab r) (lr_osa r) (op_words x) (op_container x) = Inr (lr_lab r, lr_osa r, None)"
    then show ?thesis using inv by (simp add: lab_copy_def)
  next
    fix osa'
    assume al: "bda_lab_allocate L (lr_lab r) (lr_osa r) (op_words x) (op_container x) =
        Inr ((lr_lab r)\<lparr>lab_top := hw_add t (op_words x)\<rparr>, Some osa', Some t)"
      and tn: "t < hw_add t (op_words x)" "hw_add t (op_words x) \<le> lab_end (lr_lab r)"
      and osa': "osa_wf osa'" "osa_rep osa' (insert t (S \<union> set (lr_objs r)))" "osa_base osa' \<le> b"
        "e \<le> mr_end (osa_covered osa')"
    show ?thesis
    proof (cases "op_won x")
      case True
      then show ?thesis
        using lab osa' pl x(1) tn
        by (auto simp: lab_copy_def al n_def Let_def lab_inv_def hw_add_def HeapWordSize_def intro!: exI[of _ "{}"])
    next
      case False
      have "lab_unallocate is_in ((lr_lab r)\<lparr>lab_top := hw_add t (op_words x)\<rparr>) t (op_words x) = Inr (True, lr_lab r)"
        using isin[of t] bt te tn lab(1) by (simp add: lab_unallocate_def lab_contains_def t_def)
      then show ?thesis
        using False lab osa' pl x(1) tn
        by (auto simp: lab_copy_def al n_def Let_def lab_inv_def t_def intro!: exI[of _ "{t}"])
    qed
  qed
qed

lemma lab_copies_ok:
  assumes "lab_inv L b e S r" "LogObjAlignment L = 0" "list_all (\<lambda>x. 0 < op_words x \<and> op_words x < 2 ^ 32) xs"
    and "e < 2 ^ 63" "\<And>p. b \<le> p \<Longrightarrow> p < e \<Longrightarrow> is_in p"
  shows "\<exists>r'. lab_copies L is_in xs r = Inr r' \<and> lab_inv L b e S r'"
  using assms(1,3)
proof (induction xs arbitrary: r)
  case (Cons x xs)
  then have x: "0 < op_words x" "op_words x < 2 ^ 32" by auto
  obtain r1 where "lab_copy L is_in x r = Inr r1" "lab_inv L b e S r1"
    using lab_copy_ok[OF Cons.prems(1) assms(2) x assms(4), of is_in] assms(5) by blast
  then show ?case using Cons.IH[of r1] Cons.prems(2) by simp
qed simp

lemma int_array_words_default:
  assumes "LogObjAlignment L = 0" "k \<le> 2 ^ 29"
  shows "int_array_words L (as_jint (2 * k)) = Inr (k + array_header_size L)"
  using assms by (auto simp: int_array_words_def as_jint_def layout_sizes LogHeapWordSize_def)

lemma wrap_diff:
  assumes "r \<le> l" "l < size_t_max1"
  shows "(l + size_t_max1 - r) mod size_t_max1 = l - r"
proof -
  have "l + size_t_max1 - r = (l - r) + size_t_max1" using assms(1) by simp
  moreover have "l - r < size_t_max1" using assms(2) by simp
  ultimately show ?thesis by (metis mod_add_self2 mod_less)
qed

lemma lab_flush_ok:
  assumes L: "LogObjAlignment L = 0" and e: "hw_add (lab_end l) (filler_header_size L) = e" "e < 2 ^ 63" "e \<le> t + 2 ^ 32"
    and t: "lab_top l = t" "t \<le> lab_end l" "t mod 8 = 0" "e mod 8 = 0" and st: "lab_state l = needs_flush"
  shows "\<exists>h' l'. lab_flush L h l = Inr (h', l') \<and> lab_is_flushed l' \<and> heap_words L h' t > 0 \<and>
    hw_add t (heap_words L h' t) = e \<and> (\<forall>p. p \<noteq> t \<longrightarrow> h' p = h p)"
proof -
  define w where "w = (e - t) div 8"
  define hdr where "hdr = array_header_size L"
  have f: "filler_header_size L = hdr" by (simp add: filler_header_size_def aligned_id L hdr_def)
  have hdr: "2 \<le> hdr" "hdr \<le> 3" using array_header_cases[of L] by (auto simp: hdr_def)
  have te: "t + 8 * hdr \<le> e" using e(1) t(2) f by (simp add: hw_add_def HeapWordSize_def)
  have "8 dvd e - t" using t(3,4) by (simp add: dvd_diff_nat mod_eq_0_iff_dvd)
  then have w8: "8 * w = e - t" by (simp add: w_def)
  then have w: "hdr \<le> w" "w \<le> 2 ^ 29" "hw_add t w = e"
    using te e(3) by (auto simp: hw_add_def HeapWordSize_def)
  have pd: "pointer_delta e t = w"
    using te e(2) by (subst pointer_delta_le) (auto simp: w_def HeapWordSize_def size_t_max1_def)
  have al: "(w + size_t_max1 - hdr) mod size_t_max1 = w - hdr"
    using w(1,2) by (intro wrap_diff) (auto simp: size_t_max1_def)
  have sz: "obj_words L (IntArray (as_jint ((w - hdr) * 2))) = Inr w"
    using int_array_words_default[OF L, of "w - hdr"] w(1,2) by (simp add: hdr_def[symmetric] mult.commute)
  define h' where "h' = h(t \<mapsto> IntArray (as_jint ((w - hdr) * 2)))"
  have hw: "heap_words L h' t = w" using sz by (simp add: heap_words_def h'_def)
  have "lab_flush L h l = Inr (h', l\<lparr>lab_bottom := NULL, lab_end := NULL, lab_top := NULL, lab_state := flushed\<rparr>)"
    unfolding lab_flush_def Let_def f e(1)[unfolded f] t(1) pd hdr_def[symmetric] al
    using st t(2) w(2) by (simp add: h'_def HeapWordSize_def max_jint_def)
  then show ?thesis using hw w(1,3) hdr by (auto simp: lab_is_flushed_def h'_def)
qed

lemma old_flush_ok:
  assumes inv: "lab_inv L b e S r" and L: "LogObjAlignment L = 0" and e: "e < 2 ^ 63" "e \<le> b + 2 ^ 32" "e mod 8 = 0"
  shows "\<exists>h' l' osa' t. old_flush L (lr_heap r) (lr_lab r) (lr_osa r) = Inr (h', l', Some osa') \<and> lab_is_flushed l' \<and>
    tiles (heap_words L h') b (lr_objs r @ [t]) e \<and> osa_wf osa' \<and> osa_rep osa' (S \<union> set (lr_objs r @ [t])) \<and>
    osa_base osa' \<le> b \<and> e \<le> mr_end (osa_covered osa')"
proof -
  define t where "t = lab_top (lr_lab r)"
  obtain osa T where osa: "lr_osa r = Some osa" "osa_wf osa" "osa_rep osa (S \<union> set (lr_objs r) \<union> T)" "T \<subseteq> {t}"
      "osa_base osa \<le> b" "e \<le> mr_end (osa_covered osa)"
    using inv by (auto simp: lab_inv_def t_def)
  have lab: "hw_add (lab_end (lr_lab r)) (filler_header_size L) = e" "t \<le> lab_end (lr_lab r)" "t mod 8 = 0"
      "tiles (heap_words L (lr_heap r)) b (lr_objs r) t" "lab_state (lr_lab r) = needs_flush"
    using inv by (auto simp: lab_inv_def t_def)
  have bt: "b \<le> t" using tiles_le[OF lab(4)] .
  have te: "e \<le> t + 2 ^ 32" using e(2) bt by linarith
  obtain h' l' where fl: "lab_flush L (lr_heap r) (lr_lab r) = Inr (h', l')" "lab_is_flushed l'" "heap_words L h' t > 0"
      "hw_add t (heap_words L h' t) = e" "\<And>p. p \<noteq> t \<Longrightarrow> h' p = lr_heap r p"
    using lab_flush_ok[OF L lab(1) e(1) te t_def[symmetric] lab(2,3) e(3) lab(5), of "lr_heap r"] by blast
  have "t < e" using fl(3,4) by (auto simp: hw_add_def HeapWordSize_def)
  then have cov: "mr_contains_addr (osa_covered osa) t" using bt osa(5,6) by (simp add: mr_contains_addr_def osa_base_def)
  obtain osa' where osa': "allocate_block osa t = Inr osa'" "osa_wf osa'"
      "osa_rep osa' (insert t (S \<union> set (lr_objs r) \<union> T))" "osa_covered osa' = osa_covered osa"
    using allocate_block_ok[OF osa(2,3) cov lab(3)] by auto
  have ins: "insert t (S \<union> set (lr_objs r) \<union> T) = S \<union> set (lr_objs r @ [t])" using osa(4) by auto
  have tl: "tiles (heap_words L h') b (lr_objs r @ [t]) e"
    using tiles_heap_cong[OF lab(4), of h'] fl(3-5) by (auto simp: tiles_snoc)
  have "old_flush L (lr_heap r) (lr_lab r) (lr_osa r) = Inr (h', l', Some osa')"
    using fl(1) osa(1) osa'(1) lab(2,5) by (simp add: old_flush_def t_def)
  then show ?thesis
    using fl(2) tl osa'(2-4) ins osa(5,6) by (auto simp: osa_base_def)
qed

lemma bda_lab_initialize_ok:
  assumes L: "LogObjAlignment L = 0" and v: "bda_lab_is_valid ch c mr" and w: "filler_header_size L \<le> mr_word_size mr"
    and s: "mr_start mr mod 8 = 0" "mr_end mr < 2 ^ 63"
    and osa: "osa_wf osa" "osa_rep osa S" "osa_base osa \<le> mr_start mr" "mr_end mr \<le> mr_end (osa_covered osa)"
  shows "\<exists>l. bda_lab_initialize L ch mr c l0 = Inr l \<and> bl_container l = c \<and>
    lab_inv L (mr_start mr) (mr_end mr) S \<lparr>lr_lab = l, lr_osa = Some osa, lr_heap = h, lr_objs = []\<rparr>"
proof -
  define k where "k = mr_word_size mr - filler_header_size L"
  have e: "mr_end mr = hw_add (mr_start mr) (mr_word_size mr)" by (simp add: mr_end_def)
  have end_eq: "mr_end mr - filler_header_size L * HeapWordSize = hw_add (mr_start mr) k"
    using w by (simp add: e hw_add_def HeapWordSize_def k_def diff_mult_distrib)
  have "(mr_end mr + size_t_max1 - mr_start mr) mod size_t_max1 = mr_end mr - mr_start mr"
    using s(2) by (intro wrap_diff) (auto simp: size_t_max1_def)
  then have fr: "pointer_delta_sz (mr_end mr) (mr_start mr) 1 > 0"
    using filler_header_pos[of L] w by (simp add: pointer_delta_sz_def e hw_add_def HeapWordSize_def)
  have "hw_add (hw_add (mr_start mr) k) (filler_header_size L) = mr_end mr" using w by (simp add: e k_def)
  then show ?thesis
    using v w s fr osa
    by (auto simp: bda_lab_initialize_def lab_initialize_def lab_free_def Let_def end_eq lab_inv_def intro!: exI[of _ "{}"])
qed

text \<open>C6: A promotion buffer leaves its region walkable.  Give a buffer a region of a container
  that is large enough for a filler, let the promotion manager copy any sequence of elements
  into it, some of another container and refused, some lost to another thread and taken back,
  and flush it.  Every call succeeds, the objects kept and one filler array lie side by side
  over the whole region, and for every address of it the bounded search of the start array
  finds the object that covers the address.\<close>

theorem lab_fills_region:
  assumes L: "LogObjAlignment L = 0" and v: "bda_lab_is_valid ch c mr"
    and w: "filler_header_size L \<le> mr_word_size mr" "mr_word_size mr \<le> 2 ^ 29"
    and s: "mr_start mr mod 8 = 0" "mr_end mr < 2 ^ 63"
    and osa: "osa_wf osa" "osa_rep osa S" "osa_base osa \<le> mr_start mr" "mr_end mr \<le> mr_end (osa_covered osa)"
    and S: "\<forall>x \<in> S. x < mr_start mr \<or> mr_end mr \<le> x"
    and xs: "list_all (\<lambda>x. 0 < op_words x \<and> op_words x < 2 ^ 32) xs"
    and isin: "\<And>p. mr_contains_addr mr p \<Longrightarrow> is_in p"
  shows "\<exists>l r h' l' osa' os.
    bda_lab_initialize L ch mr c l0 = Inr l \<and>
    lab_copies L is_in xs \<lparr>lr_lab = l, lr_osa = Some osa, lr_heap = h, lr_objs = []\<rparr> = Inr r \<and>
    old_flush L (lr_heap r) (lr_lab r) (lr_osa r) = Inr (h', l', Some osa') \<and> lab_is_flushed l' \<and>
    (\<exists>t. os = lr_objs r @ [t]) \<and> tiles (heap_words L h') (mr_start mr) os (mr_end mr) \<and>
    (\<forall>a. mr_contains_addr mr a \<longrightarrow> (\<exists>x \<in> set os. x \<le> a \<and> a < hw_add x (heap_words L h' x) \<and>
       object_start_bounded osa' (heap_words L h') a (mr_start mr) = Some (Inr x)))"
proof -
  define b where "b = mr_start mr"
  define e where "e = mr_end mr"
  have be: "e \<le> b + 2 ^ 32" "e mod 8 = 0"
    using w(2) s(1) by (auto simp: b_def e_def mr_end_def hw_add_def HeapWordSize_def)
  obtain l where l: "bda_lab_initialize L ch mr c l0 = Inr l"
      "lab_inv L b e S \<lparr>lr_lab = l, lr_osa = Some osa, lr_heap = h, lr_objs = []\<rparr>"
    using bda_lab_initialize_ok[OF L v w(1) s osa] by (auto simp: b_def e_def)
  have "is_in p" if "b \<le> p" "p < e" for p using isin that by (simp add: mr_contains_addr_def b_def e_def)
  then obtain r where r: "lab_copies L is_in xs \<lparr>lr_lab = l, lr_osa = Some osa, lr_heap = h, lr_objs = []\<rparr> = Inr r"
      "lab_inv L b e S r"
    using lab_copies_ok[OF l(2) L xs, of is_in] s(2) unfolding e_def by blast
  obtain h' l' osa' t where f: "old_flush L (lr_heap r) (lr_lab r) (lr_osa r) = Inr (h', l', Some osa')" "lab_is_flushed l'"
      "tiles (heap_words L h') b (lr_objs r @ [t]) e" "osa_wf osa'" "osa_rep osa' (S \<union> set (lr_objs r @ [t]))"
      "osa_base osa' \<le> b" "e \<le> mr_end (osa_covered osa')"
    using old_flush_ok[OF r(2) L _ be] s(2) unfolding e_def by blast
  have out: "\<forall>x \<in> S \<union> set (lr_objs r @ [t]). x \<in> set (lr_objs r @ [t]) \<or> x < b \<or> e \<le> x"
    using S by (auto simp: b_def e_def)
  have "\<exists>x \<in> set (lr_objs r @ [t]). x \<le> a \<and> a < hw_add x (heap_words L h' x) \<and>
      object_start_bounded osa' (heap_words L h') a b = Some (Inr x)" if "mr_contains_addr mr a" for a
    using object_start_bounded_ok[OF f(4,5,3) out f(6,7), of a] that
    by (auto simp: mr_contains_addr_def b_def e_def)
  then show ?thesis using l(1) r(1) f(1-3) unfolding b_def e_def by blast
qed

definition sample_containers :: cheap where
  "sample_containers = [0 \<mapsto> \<lparr>c_top = 1536, c_start = 1024, c_end = 1520, c_hard_end = 1536, c_saved_top = 0, c_space_id = 1,
     c_scanned_flag = 0, c_next_segment = None, c_prev_segment = None, c_next = None, c_previous = None\<rparr>]"

definition sample_lab :: bda_lab where
  "sample_lab = \<lparr>lab_top = 0, lab_bottom = 0, lab_end = 0, lab_state = flushed, bl_container = None\<rparr>"

definition sample_copies :: "lab_op list" where
  "sample_copies = [\<lparr>op_words = 10, op_container = Some 0, op_won = True\<rparr>, \<lparr>op_words = 5, op_container = Some 1, op_won = True\<rparr>,
     \<lparr>op_words = 8, op_container = Some 0, op_won = False\<rparr>, \<lparr>op_words = 90, op_container = Some 0, op_won = True\<rparr>]"

theorem lab_fills_region_witness:
  "\<exists>l r h' l' osa' os.
    bda_lab_initialize default_layout sample_containers \<lparr>mr_start = 1024, mr_word_size = 64\<rparr> (Some 0) sample_lab = Inr l \<and>
    lab_copies default_layout (\<lambda>_. True) sample_copies
      \<lparr>lr_lab = l, lr_osa = Some sample_osa, lr_heap = Map.empty, lr_objs = []\<rparr> = Inr r \<and>
    old_flush default_layout (lr_heap r) (lr_lab r) (lr_osa r) = Inr (h', l', Some osa') \<and>
    tiles (heap_words default_layout h') 1024 os 1536 \<and>
    (\<exists>x \<in> set os. object_start_bounded osa' (heap_words default_layout h') 1200 1024 = Some (Inr x))"
proof -
  let ?mr = "\<lparr>mr_start = 1024, mr_word_size = 64\<rparr>"
  have e: "mr_end ?mr = 1536" by (simp add: mr_end_def hw_add_def HeapWordSize_def)
  have v: "bda_lab_is_valid sample_containers (Some 0) ?mr"
    by (simp add: bda_lab_is_valid_def sample_containers_def mr_contains_def mr_end_def mem_region_of_def hw_add_def
        pointer_delta_le HeapWordSize_def size_t_max1_def)
  have f: "filler_header_size default_layout = 2"
    by (simp add: filler_header_size_def aligned_id default_layout_def array_header_cases)
  obtain l r h' l' osa' os where 1:
    "bda_lab_initialize default_layout sample_containers ?mr (Some 0) sample_lab = Inr l"
    "lab_copies default_layout (\<lambda>_. True) sample_copies
      \<lparr>lr_lab = l, lr_osa = Some sample_osa, lr_heap = Map.empty, lr_objs = []\<rparr> = Inr r"
    "old_flush default_layout (lr_heap r) (lr_lab r) (lr_osa r) = Inr (h', l', Some osa')"
    "tiles (heap_words default_layout h') (mr_start ?mr) os (mr_end ?mr)"
    and 2: "\<forall>a. mr_contains_addr ?mr a \<longrightarrow> (\<exists>x \<in> set os. x \<le> a \<and> a < hw_add x (heap_words default_layout h' x) \<and>
       object_start_bounded osa' (heap_words default_layout h') a (mr_start ?mr) = Some (Inr x))"
    using lab_fills_region[of default_layout sample_containers "Some 0" ?mr sample_osa "{}" sample_copies "\<lambda>_. True"
        sample_lab Map.empty, OF _ v] sample_osa_ok sample_osa_base e f
    by (auto simp: default_layout_def sample_copies_def)
  have "mr_contains_addr ?mr 1200" using e by (simp add: mr_contains_addr_def)
  then show ?thesis using 1 2 e by fastforce
qed

section \<open>Survivor alignment\<close>

text \<open>A young buffer hands out an address with the survivor alignment, at or above its old top and
  with the whole object below its end; what it skips is one filler.\<close>

lemma fill_gap_ok:
  assumes L: "LogObjAlignment L = 0" and n: "2 \<le> n" "n \<le> 2 ^ 20" and r: "rsv p" "rsv (hw_add p (n - 1))"
  shows "\<exists>h'. fill_with_object L rsv h p n = Inr h' \<and> tiles (heap_words L h') p [p] (hw_add p n) \<and> (\<forall>x. x \<noteq> p \<longrightarrow> h' x = h x)"
proof -
  have m: "min_fill_size L = 2" "n \<le> filler_array_max_size L" using n(2) L by (simp_all add: layout_sizes)
  obtain ob where "fill_with_object_impl L h p n = Inr (h(p \<mapsto> ob))" "obj_words L ob = Inr n"
    using fill_with_object_impl_ok[OF fillable_default[OF L], of n h p] m n(1) L by auto
  moreover have "fill_args_check L rsv p n = Inr ()" using m(1) n(1) L r by (simp add: fill_args_check_def)
  ultimately show ?thesis using n(1) by (auto simp: fill_with_object_def heap_words_def)
qed

lemma align_allocation_ok:
  assumes L: "LogObjAlignment L = 0" and a: "a = 2 ^ k" "4 \<le> k" "k \<le> 15" and p: "p mod 8 = 0" "p < 2 ^ 62"
    and r: "\<And>x. p \<le> x \<Longrightarrow> x < e \<Longrightarrow> rsv x"
  shows "align_allocation_or_fail L rsv h p e a = Inr (h, None) \<or>
    (\<exists>q h'. align_allocation_or_fail L rsv h p e a = Inr (h', Some q) \<and> p \<le> q \<and> q mod a = 0 \<and>
      (q = p \<and> h' = h \<or> q < e \<and> tiles (heap_words L h') p [p] q \<and> (\<forall>x. x \<noteq> p \<longrightarrow> h' x = h x)))"
proof -
  define q where "q = align_ptr_up p a"
  have "(8 :: nat) dvd 2 ^ k" using le_imp_power_dvd[of 3 k 2] a(2) by simp
  then have a8: "8 dvd a" "16 \<le> a" "a \<le> 2 ^ 15"
    using a power_increasing[of 4 k "2 :: nat"] power_increasing[of k 15 "2 :: nat"] by auto
  have q: "p \<le> q" "q < p + a" "a dvd q" using a(1) align_ptr_up_ge[of p k] align_ptr_up_lt[of p k] align_ptr_up_dvd[of k p]
    by (simp_all add: q_def)
  define n where "n = (q - p) div 8"
  have q8: "8 dvd q - p" using a8(1) q(3) p(1) by (auto intro: dvd_diff_nat dvd_trans)
  then have qn: "q = hw_add p n" using q(1) by (simp add: n_def hw_add_def HeapWordSize_def)
  have n: "pointer_delta q p = n" "n \<le> 2 ^ 12"
    using q p(2) a8(3) by (auto simp: n_def pointer_delta_le size_t_max1_def HeapWordSize_def)
  have mf: "min_fill_size L = 2" using L by (simp add: layout_sizes)
  define m where "m = (if n < 2 then n + a div 8 else n)"
  have m: "n \<noteq> 0 \<Longrightarrow> 2 \<le> m" "m \<le> 2 ^ 20" "hw_add p m mod a = 0"
  proof -
    show "n \<noteq> 0 \<Longrightarrow> 2 \<le> m" "m \<le> 2 ^ 20" using a8 n(2) by (auto simp: m_def)
    have "hw_add p (n + a div 8) = q + a" using a8(1) qn by (auto simp: hw_add_def HeapWordSize_def)
    then show "hw_add p m mod a = 0" using q(3) qn by (auto simp: m_def)
  qed
  have unf: "align_allocation_or_fail L rsv h p e a =
    (if n = 0 then Inr (h, Some p)
     else if hw_add p m < e then bind_result (fill_with_object L rsv h p m) (\<lambda>h. Inr (h, Some (hw_add p m)))
     else Inr (h, None))"
  proof -
    have c: "\<not> a \<le> HeapWordSize * 2 ^ LogObjAlignment L" "p mod HeapWordSize = 0" "a mod HeapWordSize = 0"
      using a8 p(1) L by (auto simp: HeapWordSize_def)
    have sm: "(if n < 2 then n + a div HeapWordSize else n) = m" "(if n < 2 then hw_add p m else q) = hw_add p m"
      using qn by (simp_all add: m_def HeapWordSize_def)
    have "n \<noteq> 0 \<Longrightarrow> p < hw_add p m" using m(1) by (auto simp: hw_add_def HeapWordSize_def)
    then show ?thesis
      unfolding align_allocation_or_fail_def Let_def q_def[symmetric] n(1) mf sm using c m(1) by simp
  qed
  show ?thesis
  proof (cases "n = 0 \<or> \<not> hw_add p m < e")
    case True
    then show ?thesis using unf q(3) qn by auto
  next
    case False
    then have m2: "2 \<le> m" "hw_add p m < e" using m(1) by auto
    then have "hw_add p (m - 1) < e" "p < e"
      by (auto simp: hw_add_def HeapWordSize_def diff_mult_distrib)
    then have "rsv p" "rsv (hw_add p (m - 1))" using r by auto
    then obtain h' where "fill_with_object L rsv h p m = Inr h'" "tiles (heap_words L h') p [p] (hw_add p m)"
        "\<forall>x. x \<noteq> p \<longrightarrow> h' x = h x"
      using fill_gap_ok[OF L m2(1) m(2)] by blast
    then show ?thesis using unf m(3) False by auto
  qed
qed

lemma young_allocate_ok:
  assumes L: "LogObjAlignment L = 0" and a: "a = 2 ^ k" "4 \<le> k" "k \<le> 15" and p: "lab_top l mod 8 = 0" "lab_end l < 2 ^ 62"
    and le: "lab_top l \<le> lab_end l" and n: "0 < n" "n < 2 ^ 32"
    and r: "\<And>x. lab_top l \<le> x \<Longrightarrow> x < lab_end l \<Longrightarrow> rsv x"
  shows "\<exists>h' l' obj. young_allocate L rsv a h l n = Inr (h', l', obj) \<and> lab_end l' = lab_end l \<and>
    lab_top l \<le> lab_top l' \<and> lab_top l' \<le> lab_end l \<and>
    (\<forall>q. obj = Some q \<longrightarrow> lab_top l \<le> q \<and> q mod a = 0 \<and> lab_top l' = hw_add q n)"
proof -
  have "lab_top l < 2 ^ 62" using p(2) le by simp
  from align_allocation_ok[OF L a p(1) this, of "lab_end l" rsv h] r consider
      "align_allocation_or_fail L rsv h (lab_top l) (lab_end l) a = Inr (h, None)"
    | q h' where "align_allocation_or_fail L rsv h (lab_top l) (lab_end l) a = Inr (h', Some q)" "lab_top l \<le> q"
        "q mod a = 0" "q \<le> lab_end l"
    using le by fastforce
  then show ?thesis
  proof cases
    case 1
    then show ?thesis using le by (simp add: young_allocate_def)
  next
    case (2 q h')
    have "hw_add q n mod size_t_max1 = hw_add q n" "q < hw_add q n"
      using 2 n p(2) by (auto simp: hw_add_def HeapWordSize_def size_t_max1_def)
    then show ?thesis using 2 L by (auto simp: young_allocate_def Let_def)
  qed
qed

end
