(* ===== verification/Promotions.thy ===== *)
theory Promotions
  imports BdaQueues PromotionLabs
begin

text \<open>
  Promotion of containers and their elements:
  \<open>copy_bdaref_to_survivor_space\<close> and what calls it in
  \<open>parallelScavenge/psPromotionManager.inline.hpp\<close> and \<open>.cpp\<close>,
  \<open>BDAScavenge::copy_and_push_safe_barrier\<close> of \<open>bda/bdaScavenge.inline.hpp\<close> and the
  task \<open>BDARefRootsTask\<close> of \<open>bda/bdaTasks.cpp\<close>.  The state is that of one promotion
  manager with the heap it works on.  An object is a record of its size, its kind
  and its reference slots; the forwarding pointers kept in mark words are a map of
  their own.  A location is a slot of an object or a cell outside the heap.
\<close>

section \<open>Objects and locations\<close>

datatype obj_kind = Instance | ObjArray | TypeArray

text \<open>\<open>jo_length\<close> is the length word of an array, which chunking changes in the old image.\<close>

record jobj =
  jo_words :: size_t
  jo_kind :: obj_kind
  jo_length :: nat
  jo_refs :: "addr list"

datatype ploc = RootLoc nat | FieldLoc addr nat

text \<open>
  A task of the stack \<open>_bdaref_stack\<close>: a location, or an array of which a
  part has still to be scanned.  The words that encode the two are in \<open>TaskQueueSets\<close>.
\<close>

datatype bda_task = LocTask ploc container_t | ChunkTask addr container_t

text \<open>
  The machine: options, the bounds of the generations, and what other threads do.
  \<open>rival o\<close> is the address to which another thread has forwarded \<open>o\<close> between
  the test of the mark word and the exchange, None if none has.
\<close>

record prom_env =
  pe_layout :: layout
  pe_flags :: bda_flags
  young_boundary :: addr
  to_space_top_before_gc :: addr
  to_space_end :: addr
  heap_is_in :: "addr \<Rightarrow> bool"
  heap_is_in_reserved :: "addr \<Rightarrow> bool"
  PSChunkLargeArrays :: bool
  array_chunk_size :: nat
  min_array_size_for_chunking :: nat
  queue_max_elems :: nat
  rival :: "addr \<Rightarrow> addr option"

text \<open>
  \<open>pm_local\<close> and \<open>pm_overflow\<close> are the two parts of the stack, last pushed
  first; \<open>pm_depth\<close> the locations pushed on the stack of the ordinary scavenge.
  \<open>pm_cards\<close> are the locations whose cards were marked, \<open>pm_failed\<close> the objects
  left in place, \<open>pm_copies\<close> the objects copied with their new addresses.
\<close>

record prom =
  pm_space :: bda_space
  pm_lab :: bda_lab
  pm_fillers :: heap
  pm_objs :: "addr \<rightharpoonup> jobj"
  pm_fwd :: "addr \<rightharpoonup> addr"
  pm_roots :: "nat \<Rightarrow> addr"
  pm_local :: "bda_task list"
  pm_overflow :: "bda_task list"
  pm_depth :: "ploc list"
  pm_cards :: "ploc list"
  pm_failed :: "addr list"
  pm_copies :: "(addr \<times> addr) list"
  pm_old_gen_is_full :: bool

definition is_obj_in_young :: "prom_env \<Rightarrow> addr \<Rightarrow> bool" where
  "is_obj_in_young env a \<longleftrightarrow> a \<ge> young_boundary env"

definition load_loc :: "prom \<Rightarrow> ploc \<Rightarrow> addr result" where
  "load_loc s p =
     (case p of
        RootLoc n \<Rightarrow> Inr (pm_roots s n)
      | FieldLoc x i \<Rightarrow>
          (case pm_objs s x of
             None \<Rightarrow> Inl NullDeref
           | Some ob \<Rightarrow> if i < length (jo_refs ob) then Inr (jo_refs ob ! i) else Inl OutOfBounds))"

definition store_loc :: "ploc \<Rightarrow> addr \<Rightarrow> prom \<Rightarrow> prom result" where
  "store_loc p v s =
     (case p of
        RootLoc n \<Rightarrow> Inr (s\<lparr>pm_roots := (pm_roots s)(n := v)\<rparr>)
      | FieldLoc x i \<Rightarrow>
          (case pm_objs s x of
             None \<Rightarrow> Inl NullDeref
           | Some ob \<Rightarrow> if i < length (jo_refs ob)
               then Inr (s\<lparr>pm_objs := (pm_objs s)(x \<mapsto> ob\<lparr>jo_refs := (jo_refs ob)[i := v]\<rparr>)\<rparr>) else Inl OutOfBounds))"

definition loc_in_heap :: "prom_env \<Rightarrow> ploc \<Rightarrow> bool" where
  "loc_in_heap env p = (case p of RootLoc _ \<Rightarrow> False | FieldLoc x _ \<Rightarrow> heap_is_in env x)"

definition loc_in_reserved :: "prom_env \<Rightarrow> ploc \<Rightarrow> bool" where
  "loc_in_reserved env p = (case p of RootLoc _ \<Rightarrow> False | FieldLoc x _ \<Rightarrow> heap_is_in_reserved env x)"

definition loc_in_young :: "prom_env \<Rightarrow> ploc \<Rightarrow> bool" where
  "loc_in_young env p = (case p of RootLoc _ \<Rightarrow> False | FieldLoc x _ \<Rightarrow> is_obj_in_young env x)"

definition mark_card :: "ploc \<Rightarrow> prom \<Rightarrow> prom" where
  "mark_card p s = s\<lparr>pm_cards := p # pm_cards s\<rparr>"

section \<open>Pushing\<close>

definition push_bdaref_stack :: "prom_env \<Rightarrow> bda_task \<Rightarrow> prom \<Rightarrow> prom" where
  "push_bdaref_stack env t s =
     (if length (pm_local s) < queue_max_elems env then s\<lparr>pm_local := t # pm_local s\<rparr>
      else s\<lparr>pm_overflow := t # pm_overflow s\<rparr>)"

text \<open>The part both claims share: \<open>push\<close> is the stack that takes an object not yet moved.\<close>

definition forward_or_push :: "prom_env \<Rightarrow> (prom \<Rightarrow> prom) \<Rightarrow> ploc \<Rightarrow> addr \<Rightarrow> prom \<Rightarrow> prom result" where
  "forward_or_push env push p a s =
     (case pm_fwd s a of
        Some b \<Rightarrow> store_loc p b (if is_obj_in_young env b then mark_card p s else s)
      | None \<Rightarrow> Inr (push s))"

definition claim_or_forward_bdaref :: "prom_env \<Rightarrow> ploc \<Rightarrow> container_t \<Rightarrow> prom \<Rightarrow> prom result" where
  "claim_or_forward_bdaref env p ct s =
     bind_result (load_loc s p) (\<lambda>a.
     if \<not> is_obj_in_young env a then Inl (AssertFailed ''revisiting object?'')
     else if \<not> loc_in_heap env p then Inl (AssertFailed ''pointer outside heap'')
     else forward_or_push env (push_bdaref_stack env (LocTask p ct)) p a s)"

definition claim_or_forward_depth :: "prom_env \<Rightarrow> ploc \<Rightarrow> prom \<Rightarrow> prom result" where
  "claim_or_forward_depth env p s =
     bind_result (load_loc s p) (\<lambda>a.
     if \<not> (is_obj_in_young env a \<and> (a < to_space_top_before_gc env \<or> a \<ge> to_space_end env))
     then Inl (AssertFailed ''revisiting object?'')
     else if \<not> loc_in_heap env p then Inl (AssertFailed ''pointer outside heap'')
     else forward_or_push env (\<lambda>s. s\<lparr>pm_depth := p # pm_depth s\<rparr>) p a s)"

text \<open>Applying a claim to the slots \<open>is\<close> of \<open>x\<close> that point into the young generation.\<close>

definition claim_slots ::
  "prom_env \<Rightarrow> (ploc \<Rightarrow> prom \<Rightarrow> prom result) \<Rightarrow> addr \<Rightarrow> nat list \<Rightarrow> prom \<Rightarrow> prom result" where
  "claim_slots env visit x is s =
     fold_result (\<lambda>i s. bind_result (load_loc s (FieldLoc x i)) (\<lambda>a.
       if is_obj_in_young env a then visit (FieldLoc x i) s else Inr s)) is s"

text \<open>
  Instances are scanned from the last field to the first, arrays from the first element.  Of the
  instances, those of \<open>java.lang.ref.Reference\<close> and of \<open>java.lang.Class\<close>, which have their own order of
  scanning, are not told apart.
\<close>

definition obj_slots :: "jobj \<Rightarrow> nat list" where
  "obj_slots ob =
     (case jo_kind ob of
        Instance \<Rightarrow> rev [0..<length (jo_refs ob)]
      | ObjArray \<Rightarrow> [0..<jo_length ob]
      | TypeArray \<Rightarrow> [])"

definition push_bdaref_contents :: "prom_env \<Rightarrow> addr \<Rightarrow> container_t \<Rightarrow> prom \<Rightarrow> prom result" where
  "push_bdaref_contents env x container s =
     (case pm_objs s x of
        None \<Rightarrow> Inl NullDeref
      | Some ob \<Rightarrow> claim_slots env (\<lambda>p. claim_or_forward_bdaref env p container) x (obj_slots ob) s)"

definition push_contents :: "prom_env \<Rightarrow> addr \<Rightarrow> prom \<Rightarrow> prom result" where
  "push_contents env x s =
     (case pm_objs s x of
        None \<Rightarrow> Inl NullDeref
      | Some ob \<Rightarrow> claim_slots env (claim_or_forward_depth env) x (obj_slots ob) s)"

section \<open>Copying\<close>

text \<open>An object for which there is no room stays where it is, forwarded to itself.\<close>

definition bda_oop_promotion_failed :: "prom_env \<Rightarrow> addr \<Rightarrow> prom \<Rightarrow> (prom \<times> addr) result" where
  "bda_oop_promotion_failed env obj s =
     (case rival env obj of
        None \<Rightarrow> bind_result (push_contents env obj (s\<lparr>pm_fwd := (pm_fwd s)(obj \<mapsto> obj)\<rparr>)) (\<lambda>s.
          Inr (s\<lparr>pm_failed := obj # pm_failed s\<rparr>, obj))
      | Some b \<Rightarrow> Inr (s\<lparr>pm_fwd := (pm_fwd s)(obj \<mapsto> b)\<rparr>, b))"

text \<open>
  Installing a copy at \<open>new_obj\<close>: when another thread was faster, \<open>undo\<close> gives
  the memory back, and the image written there is no object any more.
\<close>

definition install_copy ::
  "prom_env \<Rightarrow> addr \<Rightarrow> jobj \<Rightarrow> addr \<Rightarrow> container_t \<Rightarrow> (prom \<Rightarrow> prom result) \<Rightarrow> prom \<Rightarrow> (prom \<times> addr) result" where
  "install_copy env obj ob new_obj container undo s =
     (case rival env obj of
        None \<Rightarrow>
          let s1 = s\<lparr>pm_objs := (pm_objs s)(new_obj \<mapsto> ob), pm_fwd := (pm_fwd s)(obj \<mapsto> new_obj),
                pm_copies := (obj, new_obj) # pm_copies s\<rparr>
          in if jo_words ob > min_array_size_for_chunking env \<and> jo_kind ob = ObjArray \<and> PSChunkLargeArrays env
             then Inr (push_bdaref_stack env (ChunkTask obj container) s1, new_obj)
             else bind_result (push_bdaref_contents env new_obj container s1) (\<lambda>s. Inr (s, new_obj))
      | Some b \<Rightarrow> bind_result (undo (s\<lparr>pm_fwd := (pm_fwd s)(obj \<mapsto> b)\<rparr>)) (\<lambda>s. Inr (s, b)))"

text \<open>\<open>container->_top = container->_start\<close>.\<close>

definition undo_container :: "container_t \<Rightarrow> prom \<Rightarrow> prom result" where
  "undo_container c s =
     bind_result (cmod (bs_cells (pm_space s)) c (\<lambda>k. k\<lparr>c_top := c_start k\<rparr>)) (\<lambda>h.
     Inr (s\<lparr>pm_space := (pm_space s)\<lparr>bs_cells := h\<rparr>\<rparr>))"

definition undo_element :: "prom_env \<Rightarrow> addr \<Rightarrow> size_t \<Rightarrow> prom \<Rightarrow> prom result" where
  "undo_element env new_obj n s =
     bind_result (lab_unallocate (heap_is_in env) (pm_lab s) new_obj n) (\<lambda>(ok, l).
     if ok then Inr (s\<lparr>pm_lab := l\<rparr>)
     else bind_result (fill_with_object (pe_layout env) (heap_is_in_reserved env) (pm_fillers s) new_obj n) (\<lambda>h.
       Inr (s\<lparr>pm_lab := l, pm_fillers := h\<rparr>)))"

definition lab_allocate :: "prom_env \<Rightarrow> size_t \<Rightarrow> container_t \<Rightarrow> prom \<Rightarrow> (prom \<times> addr option) result" where
  "lab_allocate env n c s =
     bind_result (bda_lab_allocate (pe_layout env) (pm_lab s) (Some (bs_start_array (pm_space s))) n c) (\<lambda>(l, osa, r).
     Inr (s\<lparr>pm_lab := l, pm_space := (pm_space s)\<lparr>bs_start_array := the osa\<rparr>\<rparr>, r))"

text \<open>Taking a new buffer: the old one is flushed only when there is memory for the new one.\<close>

definition refill_lab :: "prom_env \<Rightarrow> size_t \<Rightarrow> addr \<Rightarrow> container_t \<Rightarrow> prom \<Rightarrow> (prom \<times> addr option) result" where
  "refill_lab env n lab_base c s =
     bind_result (old_flush (pe_layout env) (pm_fillers s) (pm_lab s) (Some (bs_start_array (pm_space s)))) (\<lambda>(h, l, osa).
     let s1 = s\<lparr>pm_fillers := h, pm_lab := l, pm_space := (pm_space s)\<lparr>bs_start_array := the osa\<rparr>\<rparr> in
     bind_result (bda_lab_initialize (pe_layout env) (bs_cells (pm_space s1))
         \<lparr>mr_start = lab_base, mr_word_size = BDAOldPLABSize (pe_flags env)\<rparr> c (pm_lab s1)) (\<lambda>l.
     lab_allocate env n c (s1\<lparr>pm_lab := l\<rparr>)))"

definition element_memory ::
  "prom_env \<Rightarrow> size_t \<Rightarrow> container_t \<Rightarrow> prom \<Rightarrow> (prom \<times> addr option \<times> container_t) result option" where
  "element_memory env n c s =
     (case lab_allocate env n c s of
        Inl e \<Rightarrow> Some (Inl e)
      | Inr (s1, Some p) \<Rightarrow> Some (Inr (s1, Some p, c))
      | Inr (s1, None) \<Rightarrow>
          if n > BDAOldPLABSize (pe_flags env) div 2 then
            map_option (\<lambda>r. bind_result r (\<lambda>(sp, p, c1). Inr (s1\<lparr>pm_space := sp\<rparr>, p, c1)))
              (allocate_element (pm_space s1) n c)
          else
            map_option (\<lambda>r. bind_result r (\<lambda>(sp, p, c1).
                case p of
                  None \<Rightarrow> Inr (s1\<lparr>pm_space := sp\<rparr>, None, c1)
                | Some lab_base \<Rightarrow>
                    bind_result (refill_lab env n lab_base c1 (s1\<lparr>pm_space := sp\<rparr>)) (\<lambda>(s2, p). Inr (s2, p, c1))))
              (allocate_plab (pe_flags env) (pm_space s1) c))"

datatype ref_target = AsContainer addr | AsElement container_t

definition copy_bdaref_to_survivor_space ::
  "prom_env \<Rightarrow> addr \<Rightarrow> ref_target \<Rightarrow> prom \<Rightarrow> (prom \<times> addr) result option" where
  "copy_bdaref_to_survivor_space env obj r s =
     (case pm_fwd s obj of
        Some b \<Rightarrow> Some (Inr (s, b))
      | None \<Rightarrow>
          (case pm_objs s obj of
             None \<Rightarrow> Some (Inl NullDeref)
           | Some ob \<Rightarrow>
               (case r of
                  AsContainer region \<Rightarrow>
                    Some (bind_result (bs_allocate_container (pm_space s) (jo_words ob) region) (\<lambda>(sp, c).
                      let s1 = s\<lparr>pm_space := sp\<rparr> in
                      if c = None then bda_oop_promotion_failed env obj (s1\<lparr>pm_old_gen_is_full := True\<rparr>)
                      else bind_result (cget (bs_cells sp) c) (\<lambda>k.
                        install_copy env obj ob (c_start k) c (undo_container c) s1)))
                | AsElement c \<Rightarrow>
                    map_option (\<lambda>r. bind_result r (\<lambda>(s1, p, c1).
                      case p of
                        None \<Rightarrow> bda_oop_promotion_failed env obj (s1\<lparr>pm_old_gen_is_full := True\<rparr>)
                      | Some new_obj \<Rightarrow>
                          install_copy env obj ob new_obj c1 (undo_element env new_obj (jo_words ob)) s1))
                      (element_memory env (jo_words ob) c s))))"

definition copy_and_push_safe_barrier :: "prom_env \<Rightarrow> ploc \<Rightarrow> ref_target \<Rightarrow> prom \<Rightarrow> prom result option" where
  "copy_and_push_safe_barrier env p r s =
     (case load_loc s p of
        Inl e \<Rightarrow> Some (Inl e)
      | Inr a \<Rightarrow>
          if \<not> is_obj_in_young env a then Some (Inl (AssertFailed ''revisiting object?''))
          else map_option (\<lambda>x. bind_result x (\<lambda>(s1, b).
                 bind_result (store_loc p b s1) (\<lambda>s2.
                 Inr (if \<not> loc_in_young env p \<and> loc_in_reserved env p \<and> is_obj_in_young env b
                      then mark_card p s2 else s2))))
               (case pm_fwd s a of Some b \<Rightarrow> Some (Inr (s, b)) | None \<Rightarrow> copy_bdaref_to_survivor_space env a r s))"

section \<open>Draining\<close>

definition set_length :: "addr \<Rightarrow> nat \<Rightarrow> prom \<Rightarrow> prom" where
  "set_length x n s = s\<lparr>pm_objs := (pm_objs s)(x := map_option (\<lambda>ob. ob\<lparr>jo_length := n\<rparr>) (pm_objs s x))\<rparr>"

definition process_bda_array_chunk :: "prom_env \<Rightarrow> addr \<Rightarrow> container_t \<Rightarrow> prom \<Rightarrow> prom result" where
  "process_bda_array_chunk env old c s =
     (case pm_objs s old of
        None \<Rightarrow> Inl NullDeref
      | Some ob \<Rightarrow>
          if \<not> (PSChunkLargeArrays env \<and> jo_kind ob = ObjArray) then Inl (AssertFailed ''invariant'')
          else (case pm_fwd s old of
             None \<Rightarrow> Inl (AssertFailed ''invariant'')
           | Some obj \<Rightarrow>
               let e = jo_length ob
               in if e > min_array_size_for_chunking env then
                    (if \<not> e > array_chunk_size env then Inl (AssertFailed ''invariant'')
                     else let start = e - array_chunk_size env
                          in claim_slots env (\<lambda>p. claim_or_forward_bdaref env p c) obj [start..<e]
                               (push_bdaref_stack env (ChunkTask old c) (set_length old start s)))
                  else (case pm_objs s obj of
                     None \<Rightarrow> Inl NullDeref
                   | Some nb \<Rightarrow>
                       claim_slots env (\<lambda>p. claim_or_forward_bdaref env p c) obj [0..<e]
                         (set_length old (jo_length nb) s))))"

definition process_popped_bdaref_depth :: "prom_env \<Rightarrow> bda_task \<Rightarrow> prom \<Rightarrow> prom result option" where
  "process_popped_bdaref_depth env t s =
     (case t of
        ChunkTask old ct \<Rightarrow> Some (process_bda_array_chunk env old ct s)
      | LocTask p ct \<Rightarrow> copy_and_push_safe_barrier env p (AsElement ct) s)"

definition process_dequeued_bdaroot :: "prom_env \<Rightarrow> nat \<times> addr \<Rightarrow> prom \<Rightarrow> prom result option" where
  "process_dequeued_bdaroot env r s =
     (if is_obj_in_young env (pm_roots s (fst r))
      then copy_and_push_safe_barrier env (RootLoc (fst r)) (AsContainer (snd r)) s else Some (Inr s))"

text \<open>\<open>in_local\<close> tells the second of the two inner loops from the first.\<close>

partial_function (option) drain_loop :: "prom_env \<Rightarrow> bool \<Rightarrow> prom \<Rightarrow> prom result option" where
  "drain_loop env in_local s =
     (if \<not> in_local then
        (case pm_overflow s of
           [] \<Rightarrow> drain_loop env True s
         | t # ts \<Rightarrow>
             (case process_popped_bdaref_depth env t (s\<lparr>pm_overflow := ts\<rparr>) of
                None \<Rightarrow> None
              | Some (Inl e) \<Rightarrow> Some (Inl e)
              | Some (Inr s1) \<Rightarrow> drain_loop env False s1))
      else
        (case pm_local s of
           [] \<Rightarrow> if pm_overflow s \<noteq> [] then drain_loop env False s else Some (Inr s)
         | t # ts \<Rightarrow>
             (case process_popped_bdaref_depth env t (s\<lparr>pm_local := ts\<rparr>) of
                None \<Rightarrow> None
              | Some (Inl e) \<Rightarrow> Some (Inl e)
              | Some (Inr s1) \<Rightarrow> drain_loop env True s1)))"

definition drain_bda_stacks :: "prom_env \<Rightarrow> prom \<Rightarrow> prom result option" where
  "drain_bda_stacks env s = drain_loop env False s"

text \<open>\<open>refs\<close> are the references the queue gives out, with their regions.\<close>

fun bda_ref_roots_task :: "prom_env \<Rightarrow> (nat \<times> addr) list \<Rightarrow> prom \<Rightarrow> prom result option" where
  "bda_ref_roots_task env [] s = Some (Inr s)"
| "bda_ref_roots_task env (r # refs) s =
     (case process_dequeued_bdaroot env r s of
        None \<Rightarrow> None
      | Some (Inl e) \<Rightarrow> Some (Inl e)
      | Some (Inr s1) \<Rightarrow>
          (case drain_bda_stacks env s1 of
             None \<Rightarrow> None
           | Some (Inl e) \<Rightarrow> Some (Inl e)
           | Some (Inr s2) \<Rightarrow> bda_ref_roots_task env refs s2))"

end
