(* ===== verification/PromotionMemory.thy ===== *)
theory PromotionMemory
  imports Promotions
begin

text \<open>
  The memory of promoted objects.  Whether an object gets a container of its own,
  a block of a container's segment or a piece of the promotion buffer, the memory it
  gets was free and lies in the old generation.
\<close>

section \<open>Memory that is taken\<close>

text \<open>\<open>E\<close> is the memory of the objects outside containers, \<open>lab_room\<close> what the buffer has left.\<close>

definition lab_room :: "prom \<Rightarrow> addr set" where
  "lab_room s = {lab_top (pm_lab s)..<lab_end (pm_lab s)}"

definition taken :: "addr set \<Rightarrow> prom \<Rightarrow> addr set" where
  "taken E s = (used_in (bs_cells (pm_space s)) \<union> E) - lab_room s"

definition mem_inv :: "prom_env \<Rightarrow> addr set \<Rightarrow> prom \<Rightarrow> bool" where
  "mem_inv env E s \<longleftrightarrow>
     seg_inv (pm_space s) \<and> objs_ok (pm_space s) E \<and>
     (\<forall>i < length (bs_spaces (pm_space s)). ms_end (grp_space (pm_space s) i) \<le> young_boundary env) \<and>
     lab_room s \<subseteq> used_in (bs_cells (pm_space s))"

text \<open>A step that changes memory management only.\<close>

definition same_objs :: "prom \<Rightarrow> prom \<Rightarrow> bool" where
  "same_objs s s' \<longleftrightarrow>
     pm_objs s' = pm_objs s \<and> pm_fwd s' = pm_fwd s \<and> pm_roots s' = pm_roots s \<and> pm_local s' = pm_local s \<and>
     pm_overflow s' = pm_overflow s \<and> pm_depth s' = pm_depth s \<and> pm_cards s' = pm_cards s \<and>
     pm_failed s' = pm_failed s \<and> pm_copies s' = pm_copies s"

lemma same_objs_updates [simp]:
  "same_objs s s"
  "same_objs s (s'\<lparr>pm_space := sp\<rparr>) \<longleftrightarrow> same_objs s s'" "same_objs s (s'\<lparr>pm_lab := l\<rparr>) \<longleftrightarrow> same_objs s s'"
  "same_objs s (s'\<lparr>pm_fillers := h\<rparr>) \<longleftrightarrow> same_objs s s'"
  by (simp_all add: same_objs_def)

lemma same_objs_trans: "same_objs s t \<Longrightarrow> same_objs t u \<Longrightarrow> same_objs s u"
  by (simp add: same_objs_def)

lemma objs_ok_start_array [simp]: "objs_ok (s\<lparr>bs_start_array := osa\<rparr>) E \<longleftrightarrow> objs_ok s E"
  by (simp add: objs_ok_def)

lemma used_below:
  assumes "mem_inv env E s" "p \<in> used_in (bs_cells (pm_space s))"
  shows "p < young_boundary env"
proof -
  have inv: "seg_inv (pm_space s)" using assms(1) by (simp add: mem_inv_def)
  obtain a k where a: "bs_cells (pm_space s) a = Some k" "c_start k \<le> p" "p < c_top k" "c_top k \<le> c_hard_end k"
    using used_in_segment[OF inv assms(2)] .
  have "seg_ok (pm_space s) a k" "grps_ok (pm_space s)" using inv seg_inv_cell[OF inv a(1)] by (simp_all add: seg_inv_def)
  then obtain i where "i < length (bs_spaces (pm_space s))" "c_hard_end k \<le> ms_top (grp_space (pm_space s) i)"
      "ms_top (grp_space (pm_space s) i) \<le> ms_end (grp_space (pm_space s) i)"
    by (rule seg_bounds)
  then show ?thesis using assms(1) a by (fastforce simp: mem_inv_def)
qed

lemma objs_below:
  assumes "mem_inv env E s" "p \<in> E"
  shows "p < young_boundary env"
proof -
  have g: "grps_ok (pm_space s)" and o: "objs_ok (pm_space s) E" using assms(1) by (simp_all add: mem_inv_def seg_inv_def)
  have l: "0 < length (bs_spaces (pm_space s))" using g by (simp add: grps_ok_def)
  then have "ms_top (grp_space (pm_space s) 0) \<le> ms_end (grp_space (pm_space s) 0)"
    using g by (auto simp: grps_ok_def grp_ok_def ms_card_inv_def ms_inv_def)
  moreover have "ms_end (grp_space (pm_space s) 0) \<le> young_boundary env" using assms(1) l by (simp add: mem_inv_def)
  moreover have "p < ms_top (grp_space (pm_space s) 0)" using o assms(2) by (auto simp: objs_ok_def)
  ultimately show ?thesis by simp
qed

lemma taken_below: "mem_inv env E s \<Longrightarrow> p \<in> taken E s \<Longrightarrow> p < young_boundary env"
  using used_below objs_below by (auto simp: taken_def)

section \<open>Allocation\<close>

text \<open>A step that takes the block \<open>B\<close>.\<close>

definition takes :: "prom_env \<Rightarrow> addr set \<Rightarrow> addr set \<Rightarrow> prom \<Rightarrow> prom \<Rightarrow> bool" where
  "takes env E B s s' \<longleftrightarrow>
     mem_inv env E s' \<and> same_objs s s' \<and> taken E s \<union> B \<subseteq> taken E s' \<and> B \<inter> taken E s = {}"

lemma takes_refl: "mem_inv env E s \<Longrightarrow> takes env E {} s s"
  by (simp add: takes_def)

lemma takes_trans: "takes env E {} s t \<Longrightarrow> takes env E B t u \<Longrightarrow> takes env E B s u"
  unfolding takes_def using same_objs_trans by blast

lemma lab_allocate_takes:
  assumes inv: "mem_inv env E s" and n: "hw_add 0 n < size_t_max1" and a: "lab_allocate env n c s = Inr (s', r)"
  shows "takes env E (case r of None \<Rightarrow> {} | Some p \<Rightarrow> block p n) s s'"
proof -
  let ?l = "pm_lab s" and ?t = "lab_top (pm_lab s)"
  obtain l osa where 1: "bda_lab_allocate (pe_layout env) ?l (Some (bs_start_array (pm_space s))) n c = Inr (l, osa, r)"
    "s' = s\<lparr>pm_lab := l, pm_space := (pm_space s)\<lparr>bs_start_array := the osa\<rparr>\<rparr>"
    using a unfolding lab_allocate_def by (auto elim!: bind_resultE)
  have so: "same_objs s s'" by (simp add: 1(2))
  have wrap: "?t < hw_add ?t n mod size_t_max1 \<Longrightarrow> hw_add ?t n mod size_t_max1 \<le> lab_end ?l \<Longrightarrow>
      hw_add ?t n mod size_t_max1 = hw_add ?t n"
  proof -
    assume gt: "?t < hw_add ?t n mod size_t_max1"
    have "hw_add ?t n mod size_t_max1 < size_t_max1" by (simp add: size_t_max1_def)
    then have t: "?t < size_t_max1" using gt by linarith
    show ?thesis
    proof (cases "hw_add ?t n < size_t_max1")
      case False
      then have "hw_add ?t n mod size_t_max1 = hw_add ?t n - size_t_max1"
        using t n by (subst mod_if, subst mod_if) (auto simp: hw_add_def)
      then show ?thesis using gt n False by (simp add: hw_add_def)
    qed simp
  qed
  consider "l = ?l" "r = None" | "l = ?l\<lparr>lab_top := hw_add ?t n\<rparr>" "r = Some ?t" "hw_add ?t n \<le> lab_end ?l"
    using 1(1) wrap
    by (auto simp: bda_lab_allocate_def old_allocate_def Let_def split: if_splits elim!: bind_resultE)
  then show ?thesis
  proof cases
    case 1
    then show ?thesis using inv so \<open>s' = _\<close> by (simp add: takes_def mem_inv_def taken_def lab_room_def)
  next
    case 2
    have ge: "?t \<le> hw_add ?t n" by (simp add: hw_add_def)
    have room: "lab_room s' = {hw_add ?t n..<lab_end ?l}" "lab_room s = block ?t n \<union> {hw_add ?t n..<lab_end ?l}"
      using 2 \<open>s' = _\<close> by (auto simp: lab_room_def block_def dest: order_trans[OF ge])
    have "lab_room s \<subseteq> used_in (bs_cells (pm_space s))" using inv by (simp add: mem_inv_def)
    then have "mem_inv env E s'" "block ?t n \<subseteq> used_in (bs_cells (pm_space s))"
      using inv room \<open>s' = _\<close> by (auto simp: mem_inv_def)
    moreover have "block ?t n \<inter> lab_room s' = {}" unfolding room by (auto simp: block_def)
    ultimately show ?thesis
      using so 2 room \<open>s' = _\<close> unfolding takes_def taken_def by auto
  qed
qed

lemma handed_takes:
  assumes inv: "mem_inv env E s" and h: "handed (pm_space s) E p n sp" and g: "grows (pm_space s) sp"
  shows "takes env E (block p n) s (s\<lparr>pm_space := sp\<rparr>)"
proof -
  have u: "used_in (bs_cells sp) = used_in (bs_cells (pm_space s)) \<union> block p n"
    "block p n \<inter> (used_in (bs_cells (pm_space s)) \<union> E) = {}" "seg_inv sp" "objs_ok sp E"
    using h by (simp_all add: handed_def)
  have "ms_end (grp_space sp i) \<le> young_boundary env" if "i < length (bs_spaces sp)" for i
    using g inv that by (simp add: grows_def same_scan_def mem_inv_def)
  moreover have r: "lab_room (s\<lparr>pm_space := sp\<rparr>) = lab_room s" by (simp add: lab_room_def)
  moreover have l: "lab_room s \<subseteq> used_in (bs_cells (pm_space s))" using inv by (simp add: mem_inv_def)
  ultimately have "mem_inv env E (s\<lparr>pm_space := sp\<rparr>)" using u by (auto simp: mem_inv_def)
  moreover have "block p n \<inter> lab_room s = {}" using u(2) l by blast
  ultimately show ?thesis using u(1,2) r unfolding takes_def taken_def by auto
qed

lemma bda_lab_initialize_room:
  assumes "bda_lab_initialize L h mr c l = Inr l'"
  shows "lab_top l' = mr_start mr" "lab_end l' \<le> mr_end mr"
  using assms
  by (auto simp: bda_lab_initialize_def lab_initialize_def Let_def split: if_splits elim!: bind_resultE)

lemma refill_lab_takes:
  assumes inv: "mem_inv env E s" and h: "handed (pm_space s) E lab_base (BDAOldPLABSize (pe_flags env)) sp"
    and g: "grows (pm_space s) sp" and n: "hw_add 0 n < size_t_max1"
    and r: "refill_lab env n lab_base c (s\<lparr>pm_space := sp\<rparr>) = Inr (s', r)"
  shows "takes env E (case r of None \<Rightarrow> {} | Some p \<Rightarrow> block p n) s s'"
proof -
  let ?w = "BDAOldPLABSize (pe_flags env)" and ?s = "s\<lparr>pm_space := sp\<rparr>"
  obtain fh l osa l' where 1: "bda_lab_initialize (pe_layout env) (bs_cells sp) \<lparr>mr_start = lab_base, mr_word_size = ?w\<rparr> c l = Inr l'"
    "lab_allocate env n c (s\<lparr>pm_fillers := fh, pm_space := sp\<lparr>bs_start_array := the osa\<rparr>, pm_lab := l'\<rparr>) = Inr (s', r)"
    using r unfolding refill_lab_def Let_def by (auto elim!: bind_resultE)
  define s1 where "s1 = s\<lparr>pm_fillers := fh, pm_space := sp\<lparr>bs_start_array := the osa\<rparr>, pm_lab := l'\<rparr>"
  have room: "lab_room s1 \<subseteq> block lab_base ?w"
    using bda_lab_initialize_room[OF 1(1)] by (auto simp: s1_def lab_room_def block_def mr_end_def)
  have u: "used_in (bs_cells sp) = used_in (bs_cells (pm_space s)) \<union> block lab_base ?w"
    "block lab_base ?w \<inter> (used_in (bs_cells (pm_space s)) \<union> E) = {}"
    using h by (simp_all add: handed_def)
  have "mem_inv env E ?s" using handed_takes[OF inv h g] by (simp add: takes_def)
  then have "mem_inv env E s1" using room u(1) by (auto simp: mem_inv_def s1_def)
  moreover have "taken E s \<subseteq> taken E s1" using room u by (auto simp: taken_def s1_def)
  ultimately have "takes env E {} s s1" by (simp add: takes_def s1_def)
  then show ?thesis using lab_allocate_takes[OF \<open>mem_inv env E s1\<close> n] 1(2) takes_trans unfolding s1_def by blast
qed

lemma alloc_in_segments_None: "alloc_in_segments h sz None = Some (Inl NullDeref)"
  by (subst alloc_in_segments.simps) simp

lemma allocate_element_ok:
  assumes inv: "mem_inv env E s" and a: "allocate_element (pm_space s) n c = Some (Inr (sp, p, c'))"
  shows "grows (pm_space s) sp" "p = None \<Longrightarrow> sp = pm_space s" "p = Some q \<Longrightarrow> handed (pm_space s) E q n sp"
proof -
  have i: "seg_inv (pm_space s)" "objs_ok (pm_space s) E" using inv by (simp_all add: mem_inv_def)
  show "grows (pm_space s) sp" using a unfolding allocate_element_def by (rule alloc_or_extend_grows[OF i(1)])
  obtain b where "c = Some b" using a by (cases c) (simp_all add: allocate_element_def alloc_in_segments_None)
  then have "gives (pm_space s) E n (Some (Inr (sp, p, c')))" using allocate_element_gives[OF i] a by metis
  then show "p = None \<Longrightarrow> sp = pm_space s" "p = Some q \<Longrightarrow> handed (pm_space s) E q n sp" by (auto simp: gives_def)
qed

lemma allocate_plab_ok:
  assumes inv: "mem_inv env E s" and a: "allocate_plab fl (pm_space s) c = Some (Inr (sp, p, c'))"
  shows "grows (pm_space s) sp" "p = None \<Longrightarrow> sp = pm_space s"
    "p = Some q \<Longrightarrow> handed (pm_space s) E q (BDAOldPLABSize fl) sp"
proof -
  have i: "seg_inv (pm_space s)" "objs_ok (pm_space s) E" using inv by (simp_all add: mem_inv_def)
  show "grows (pm_space s) sp" using a unfolding allocate_plab_def by (rule alloc_or_extend_grows[OF i(1)])
  obtain b where "c = Some b" using a by (cases c) (simp_all add: allocate_plab_def alloc_in_segments_None)
  then have "gives (pm_space s) E (BDAOldPLABSize fl) (Some (Inr (sp, p, c')))" using allocate_plab_gives[OF i] a by metis
  then show "p = None \<Longrightarrow> sp = pm_space s" "p = Some q \<Longrightarrow> handed (pm_space s) E q (BDAOldPLABSize fl) sp"
    by (auto simp: gives_def)
qed

text \<open>Allocation for an element always ends.\<close>

lemma element_memory_ends:
  assumes inv: "mem_inv env E s" and n: "hw_add 0 n < size_t_max1"
  shows "element_memory env n c s \<noteq> None"
proof (cases "lab_allocate env n c s")
  case (Inr x)
  obtain s1 p where x: "x = (s1, p)" by (cases x)
  have "mem_inv env E s1" using lab_allocate_takes[OF inv n] Inr x by (auto simp: takes_def)
  then have i: "seg_inv (pm_space s1)" "objs_ok (pm_space s1) E" by (simp_all add: mem_inv_def)
  have "allocate_element (pm_space s1) n c \<noteq> None" "allocate_plab (pe_flags env) (pm_space s1) c \<noteq> None"
    using allocate_element_gives[OF i, of n] allocate_plab_gives[OF i, of "pe_flags env"]
    by (cases c; fastforce simp: gives_def allocate_element_def allocate_plab_def alloc_in_segments_None)+
  then show ?thesis using Inr x by (cases p) (simp_all add: element_memory_def)
qed (simp add: element_memory_def)

lemma element_memory_takes:
  assumes inv: "mem_inv env E s" and n: "hw_add 0 n < size_t_max1"
    and e: "element_memory env n c s = Some (Inr (s', p, c'))"
  shows "takes env E (case p of None \<Rightarrow> {} | Some q \<Rightarrow> block q n) s s'"
proof -
  obtain s1 p1 where l: "lab_allocate env n c s = Inr (s1, p1)"
    using e by (cases "lab_allocate env n c s") (auto simp: element_memory_def)
  note t = lab_allocate_takes[OF inv n l]
  show ?thesis
  proof (cases p1)
    case (Some q)
    then show ?thesis using e l t by (simp add: element_memory_def)
  next
    case None
    then have t1: "takes env E {} s s1" and i1: "mem_inv env E s1" using t by (simp_all add: takes_def)
    show ?thesis
    proof (cases "n > BDAOldPLABSize (pe_flags env) div 2")
      case True
      then obtain sp where a: "allocate_element (pm_space s1) n c = Some (Inr (sp, p, c'))" "s' = s1\<lparr>pm_space := sp\<rparr>"
        using e l None by (auto simp: element_memory_def elim!: bind_resultE)
      note ok = allocate_element_ok[OF i1 a(1)]
      show ?thesis
      proof (cases p)
        case None
        then show ?thesis using t1 ok(2) a(2) by simp
      next
        case (Some q)
        then show ?thesis using takes_trans[OF t1 handed_takes[OF i1 ok(3) ok(1)]] a(2) by simp
      qed
    next
      case False
      then obtain sp pb where a: "allocate_plab (pe_flags env) (pm_space s1) c = Some (Inr (sp, pb, c'))"
        and k: "(case pb of None \<Rightarrow> Inr (s1\<lparr>pm_space := sp\<rparr>, None, c') | Some lab_base \<Rightarrow>
          bind_result (refill_lab env n lab_base c' (s1\<lparr>pm_space := sp\<rparr>)) (\<lambda>(s2, p). Inr (s2, p, c'))) = Inr (s', p, c')"
        using e l None by (auto simp: element_memory_def split: option.splits elim!: bind_resultE)
      note ok = allocate_plab_ok[OF i1 a]
      show ?thesis
      proof (cases pb)
        case None
        then show ?thesis using t1 ok(2) k by simp
      next
        case (Some b)
        then have "refill_lab env n b c' (s1\<lparr>pm_space := sp\<rparr>) = Inr (s', p)" using k by (auto elim!: bind_resultE)
        from refill_lab_takes[OF i1 ok(3)[OF Some] ok(1) n this] show ?thesis using takes_trans[OF t1] by blast
      qed
    qed
  qed
qed

lemma container_memory_takes:
  assumes inv: "mem_inv env E s" and a: "bs_allocate_container (pm_space s) n r = Inr (sp, c)"
  shows "c = None \<and> sp = pm_space s \<or>
    (\<exists>b k. c = Some b \<and> bs_cells sp b = Some k \<and> bs_cells (pm_space s) b = None \<and> c_top k = hw_add (c_start k) n \<and>
       handed (pm_space s) E (c_start k) n sp \<and> takes env E (block (c_start k) n) s (s\<lparr>pm_space := sp\<rparr>))"
proof -
  have i: "seg_inv (pm_space s)" "objs_ok (pm_space s) E" using inv by (simp_all add: mem_inv_def)
  show ?thesis
    using allocate_container_handed[OF i a] handed_takes[OF inv _ container_grows[OF i(1) a]] by blast
qed

section \<open>Giving memory back\<close>

lemma used_objs_apart:
  assumes "mem_inv env E s"
  shows "used_in (bs_cells (pm_space s)) \<inter> E = {}"
proof -
  have i: "seg_inv (pm_space s)" "objs_ok (pm_space s) E" using assms by (simp_all add: mem_inv_def)
  have "p \<notin> E" if "p \<in> used_in (bs_cells (pm_space s))" for p
  proof -
    obtain a k where "bs_cells (pm_space s) a = Some k" "c_start k \<le> p" "p < c_top k" "c_top k \<le> c_hard_end k"
      using used_in_segment[OF i(1) \<open>p \<in> _\<close>] .
    then show ?thesis using i(2) by (fastforce simp: objs_ok_def)
  qed
  then show ?thesis by blast
qed

text \<open>What is left when the block just taken is given back: at least what was taken before.\<close>

definition gives_back :: "prom_env \<Rightarrow> addr set \<Rightarrow> prom \<Rightarrow> prom \<Rightarrow> bool" where
  "gives_back env E s s' \<longleftrightarrow> mem_inv env E s' \<and> same_objs s s' \<and> taken E s \<subseteq> taken E s'"

lemma undo_container_ok:
  assumes inv: "mem_inv env E s" and c: "bs_cells sp b = Some k" "bs_cells (pm_space s) b = None"
      "c_top k = hw_add (c_start k) n"
    and h: "handed (pm_space s) E (c_start k) n sp" and t: "takes env E (block (c_start k) n) s (s\<lparr>pm_space := sp\<rparr>)"
    and u: "undo_container (Some b) (s\<lparr>pm_space := sp, pm_fwd := f\<rparr>) = Inr s'"
  shows "gives_back env E (s\<lparr>pm_fwd := f\<rparr>) s'"
proof -
  let ?h = "bs_cells sp" and ?k = "k\<lparr>c_top := c_start k\<rparr>"
  have s': "s' = s\<lparr>pm_fwd := f, pm_space := sp\<lparr>bs_cells := ?h(b \<mapsto> ?k)\<rparr>\<rparr>"
    using u c(1) by (simp add: undo_container_def)
  have used: "used_in ?h = used_in (bs_cells (pm_space s)) \<union> block (c_start k) n"
      "block (c_start k) n \<inter> (used_in (bs_cells (pm_space s)) \<union> E) = {}" "seg_inv sp" "objs_ok sp E"
    using h by (simp_all add: handed_def)
  have "?h = ?h(b \<mapsto> k)" using c(1) by auto
  then have "used_in ?h = used_in (?h(b := None)) \<union> block (c_start k) n"
    using used_in_upd[of ?h b k] c(3) by (simp add: block_def)
  moreover have new: "used_in (?h(b \<mapsto> ?k)) = used_in (?h(b := None))" using used_in_upd[of ?h b ?k] by simp
  ultimately have keep: "used_in (bs_cells (pm_space s)) \<subseteq> used_in (?h(b \<mapsto> ?k))" using used(1,2) by blast
  have "c_start k \<le> c_hard_end k" using seg_inv_cell[OF used(3) c(1)] by (simp add: seg_ok_def)
  then have "retopped ?h (?h(b \<mapsto> ?k))"
    using seg_inv_cell[OF used(3)] c(1) by (auto simp: retopped_def seg_ok_def)
  then have "seg_inv (sp\<lparr>bs_cells := ?h(b \<mapsto> ?k)\<rparr>)" by (rule retopped_seg_inv[OF used(3)])
  moreover have "objs_ok (sp\<lparr>bs_cells := ?h(b \<mapsto> ?k)\<rparr>) E" using used(4) c(1) by (auto simp: objs_ok_def)
  moreover have "mem_inv env E (s\<lparr>pm_space := sp\<rparr>)" using t by (simp add: takes_def)
  moreover have "lab_room s \<subseteq> used_in (bs_cells (pm_space s))" using inv by (simp add: mem_inv_def)
  ultimately have "mem_inv env E s'" using keep unfolding mem_inv_def s' by (simp add: lab_room_def)
  moreover have "taken E (s\<lparr>pm_fwd := f\<rparr>) \<subseteq> taken E s'" using keep by (auto simp: taken_def s' lab_room_def)
  moreover have "same_objs (s\<lparr>pm_fwd := f\<rparr>) s'"
    unfolding s' by simp
  ultimately show ?thesis by (simp add: gives_back_def)
qed

lemma undo_element_ok:
  assumes inv: "mem_inv env E s0" and t: "takes env E (block q n) s0 s"
    and u: "undo_element env q n (s\<lparr>pm_fwd := f\<rparr>) = Inr s'"
  shows "gives_back env E (s0\<lparr>pm_fwd := f\<rparr>) s'"
proof -
  have i: "mem_inv env E s" and sub: "taken E s0 \<union> block q n \<subseteq> taken E s" and apart: "block q n \<inter> taken E s0 = {}"
    and so: "same_objs s0 s"
    using t by (simp_all add: takes_def)
  have "block q n \<inter> E = {}"
    using apart used_objs_apart[OF inv] inv by (auto simp: taken_def mem_inv_def)
  then have used: "block q n \<subseteq> used_in (bs_cells (pm_space s))" using sub by (auto simp: taken_def)
  have so': "same_objs (s0\<lparr>pm_fwd := f\<rparr>) (s\<lparr>pm_fwd := f, pm_lab := l, pm_fillers := fh\<rparr>)" for l fh
    using so by (simp add: same_objs_def)
  obtain ok l where l: "lab_unallocate (heap_is_in env) (pm_lab s) q n = Inr (ok, l)"
    and r: "(if ok then Inr (s\<lparr>pm_fwd := f, pm_lab := l\<rparr>) else
      bind_result (fill_with_object (pe_layout env) (heap_is_in_reserved env) (pm_fillers s) q n) (\<lambda>h.
        Inr (s\<lparr>pm_fwd := f, pm_lab := l, pm_fillers := h\<rparr>))) = Inr s'"
    using u by (auto simp: undo_element_def elim!: bind_resultE cong: if_cong)
  have "ok \<and> l = (pm_lab s)\<lparr>lab_top := q\<rparr> \<and> hw_add q n = lab_top (pm_lab s) \<or> \<not> ok \<and> l = pm_lab s"
    using l by (auto simp: lab_unallocate_def split: if_splits)
  then obtain fh where s': "s' = s\<lparr>pm_fwd := f, pm_lab := l, pm_fillers := fh\<rparr>"
    "ok \<and> l = (pm_lab s)\<lparr>lab_top := q\<rparr> \<and> hw_add q n = lab_top (pm_lab s) \<or> \<not> ok \<and> l = pm_lab s"
    using r that[of "pm_fillers s"] by (auto elim!: bind_resultE)
  have room: "lab_room s' \<subseteq> lab_room s \<union> block q n"
    using s' by (auto simp: lab_room_def block_def)
  have "lab_room s' \<subseteq> used_in (bs_cells (pm_space s))" using room used i by (auto simp: mem_inv_def)
  then have "mem_inv env E s'" using i by (simp add: mem_inv_def s'(1))
  moreover have "taken E (s0\<lparr>pm_fwd := f\<rparr>) \<subseteq> taken E s'"
    using sub apart room by (auto simp: taken_def s'(1) lab_room_def)
  ultimately show ?thesis using so' s'(1) by (simp add: gives_back_def)
qed

end
