(* ===== verification/PromotionDrains.thy ===== *)
theory PromotionDrains
  imports PromotionMemory
begin

text \<open>
  The invariant of promotion: every copy lies in memory of its own, every reference
  of a copy into the young generation has been replaced by a new address or will
  still be visited, and the originals are untouched but for their length words.
  Claiming a slot and copying an object keep it.
\<close>

section \<open>The invariant\<close>

definition tasks :: "prom \<Rightarrow> bda_task set" where
  "tasks s = set (pm_local s) \<union> set (pm_overflow s)"

text \<open>Slot \<open>i\<close> of the copy \<open>q\<close> of \<open>x\<close> will still be seen: \<open>P\<close> are slots being seen to right now.\<close>

definition pending :: "(addr \<times> nat) set \<Rightarrow> prom \<Rightarrow> addr \<Rightarrow> addr \<Rightarrow> nat \<Rightarrow> bool" where
  "pending P s x q i \<longleftrightarrow>
     (q, i) \<in> P \<or> (\<exists>ct. LocTask (FieldLoc q i) ct \<in> tasks s) \<or>
     (\<exists>ct ob. ChunkTask x ct \<in> tasks s \<and> pm_objs s x = Some ob \<and> i < jo_length ob)"

text \<open>The value \<open>w\<close> in the copy of a slot that held \<open>v\<close>.\<close>

definition slot_ok :: "addr \<Rightarrow> (addr \<rightharpoonup> addr) \<Rightarrow> bool \<Rightarrow> addr \<Rightarrow> addr \<Rightarrow> bool" where
  "slot_ok Y fwd pend v w \<longleftrightarrow> v < Y \<and> w = v \<or> Y \<le> v \<and> fwd v = Some w \<or> Y \<le> v \<and> w = v \<and> pend"

definition copy_ok :: "prom_env \<Rightarrow> (addr \<times> nat) set \<Rightarrow> prom \<Rightarrow> addr \<Rightarrow> addr \<Rightarrow> bool" where
  "copy_ok env P s x q \<longleftrightarrow>
     young_boundary env \<le> x \<and> q < young_boundary env \<and> pm_fwd s x = Some q \<and>
     (\<exists>ob nb. pm_objs s x = Some ob \<and> pm_objs s q = Some nb \<and> jo_words nb = jo_words ob \<and> jo_kind nb = jo_kind ob \<and>
        length (jo_refs nb) = length (jo_refs ob) \<and>
        (\<forall>i < length (jo_refs ob).
           slot_ok (young_boundary env) (pm_fwd s) (pending P s x q i) (jo_refs ob ! i) (jo_refs nb ! i)))"

definition obj_wf :: "jobj \<Rightarrow> bool" where
  "obj_wf ob \<longleftrightarrow>
     0 < jo_words ob \<and> hw_add 0 (jo_words ob) < size_t_max1 \<and>
     (jo_kind ob = ObjArray \<longrightarrow> jo_length ob = length (jo_refs ob)) \<and> (jo_kind ob = TypeArray \<longrightarrow> jo_refs ob = [])"

text \<open>All of an object but its length word.\<close>

definition body :: "jobj \<Rightarrow> jobj" where
  "body ob = ob\<lparr>jo_length := 0\<rparr>"

text \<open>The young objects are those of \<open>objs0\<close>, and the ones copied or not yet seen are unchanged.\<close>

definition young_inv :: "prom_env \<Rightarrow> (addr \<rightharpoonup> jobj) \<Rightarrow> prom \<Rightarrow> bool" where
  "young_inv env objs0 s \<longleftrightarrow>
     (\<forall>x. young_boundary env \<le> x \<longrightarrow>
        (pm_objs s x = None \<longleftrightarrow> objs0 x = None) \<and>
        (pm_fwd s x = None \<longrightarrow> pm_objs s x = objs0 x) \<and>
        (pm_fwd s x \<noteq> Some x \<longrightarrow> map_option body (pm_objs s x) = map_option body (objs0 x))) \<and>
     (\<forall>x b. pm_fwd s x = Some b \<longrightarrow>
        young_boundary env \<le> x \<and> objs0 x \<noteq> None \<and> (b = x \<or> b < young_boundary env \<or> objs0 b = None))"

definition task_ok :: "prom_env \<Rightarrow> prom \<Rightarrow> bda_task \<Rightarrow> bool" where
  "task_ok env s t =
     (case t of
        LocTask p ct \<Rightarrow> (\<exists>x i. p = FieldLoc x i \<and> x < young_boundary env)
      | ChunkTask x ct \<Rightarrow> \<exists>q. (x, q) \<in> set (pm_copies s))"

abbreviation words_of :: "(addr \<rightharpoonup> jobj) \<Rightarrow> addr \<Rightarrow> size_t" where
  "words_of objs0 x \<equiv> jo_words (the (objs0 x))"

definition copy_blocks :: "(addr \<rightharpoonup> jobj) \<Rightarrow> prom \<Rightarrow> (addr \<times> size_t) list" where
  "copy_blocks objs0 s = map (\<lambda>(x, q). (q, words_of objs0 x)) (pm_copies s)"

text \<open>The copies have the lengths their originals had.\<close>

definition lengths_ok :: "(addr \<rightharpoonup> jobj) \<Rightarrow> prom \<Rightarrow> bool" where
  "lengths_ok objs0 s \<longleftrightarrow> (\<forall>(x, q) \<in> set (pm_copies s). map_option jo_length (pm_objs s q) = map_option jo_length (objs0 x))"

definition prom_inv :: "prom_env \<Rightarrow> addr set \<Rightarrow> (addr \<rightharpoonup> jobj) \<Rightarrow> (addr \<times> nat) set \<Rightarrow> prom \<Rightarrow> bool" where
  "prom_inv env E objs0 P s \<longleftrightarrow>
     mem_inv env E s \<and> young_inv env objs0 s \<and>
     (\<forall>x. x < young_boundary env \<longrightarrow> pm_objs s x \<noteq> None \<longrightarrow> x \<in> taken E s) \<and>
     (\<forall>(x, q) \<in> set (pm_copies s). copy_ok env P s x q) \<and>
     blocks_apart (copy_blocks objs0 s) \<and> (\<forall>b \<in> set (copy_blocks objs0 s). block (fst b) (snd b) \<subseteq> taken E s) \<and>
     (\<forall>t \<in> tasks s. task_ok env s t) \<and>
     (\<forall>x b. pm_fwd s x = Some b \<longrightarrow> (x, b) \<in> set (pm_copies s) \<or> b = x \<or> rival env x = Some b) \<and>
     lengths_ok objs0 s"

lemma prom_invD:
  assumes "prom_inv env E objs0 P s"
  shows "mem_inv env E s" "young_inv env objs0 s" "\<And>x q. (x, q) \<in> set (pm_copies s) \<Longrightarrow> copy_ok env P s x q"
    "\<And>t. t \<in> tasks s \<Longrightarrow> task_ok env s t"
    "\<And>x. x < young_boundary env \<Longrightarrow> pm_objs s x \<noteq> None \<Longrightarrow> x \<in> taken E s"
  using assms unfolding prom_inv_def by auto

lemma slot_ok_mono: "slot_ok Y f p v w \<Longrightarrow> (p \<Longrightarrow> p') \<Longrightarrow> (\<And>x y. f x = Some y \<Longrightarrow> f' x = Some y) \<Longrightarrow> slot_ok Y f' p' v w"
  by (auto simp: slot_ok_def)

text \<open>
  A step that leaves the copies and their originals alone, keeps what was pending
  pending and forwards at most more objects.
\<close>

lemma copy_ok_mono:
  assumes "copy_ok env P s x q" "\<And>a b. pm_fwd s a = Some b \<Longrightarrow> pm_fwd s' a = Some b"
    "pm_objs s' x = pm_objs s x" "pm_objs s' q = pm_objs s q"
    "\<And>i. pending P s x q i \<Longrightarrow> pending P' s' x q i"
  shows "copy_ok env P' s' x q"
proof -
  obtain ob nb where o: "pm_objs s x = Some ob" "pm_objs s q = Some nb" "jo_words nb = jo_words ob" "jo_kind nb = jo_kind ob"
    "length (jo_refs nb) = length (jo_refs ob)"
    and sl: "\<And>i. i < length (jo_refs ob) \<Longrightarrow>
      slot_ok (young_boundary env) (pm_fwd s) (pending P s x q i) (jo_refs ob ! i) (jo_refs nb ! i)"
    using assms(1) unfolding copy_ok_def by blast
  have "slot_ok (young_boundary env) (pm_fwd s') (pending P' s' x q i) (jo_refs ob ! i) (jo_refs nb ! i)"
    if "i < length (jo_refs ob)" for i
    using sl[OF that] assms(5)[of i] assms(2) by (rule slot_ok_mono)
  then show ?thesis using assms(1-4) o unfolding copy_ok_def by metis
qed

lemma pending_mono:
  assumes "pending P s x q i" "P \<subseteq> P'" "tasks s \<subseteq> tasks s'" "pm_objs s' x = pm_objs s x"
  shows "pending P' s' x q i"
  using assms unfolding pending_def by auto

lemma prom_inv_mono:
  assumes "prom_inv env E objs0 P s" "P \<subseteq> P'"
  shows "prom_inv env E objs0 P' s"
proof -
  have "copy_ok env P' s x q" if "(x, q) \<in> set (pm_copies s)" for x q
    by (rule copy_ok_mono[OF prom_invD(3)[OF assms(1) that]]) (use assms(2) in \<open>auto elim: pending_mono\<close>)
  then show ?thesis using assms(1) unfolding prom_inv_def by blast
qed

section \<open>Storing and pushing\<close>

definition slot_of :: "ploc \<Rightarrow> (addr \<times> nat) set" where
  "slot_of p = (case p of RootLoc _ \<Rightarrow> {} | FieldLoc x i \<Rightarrow> {(x, i)})"

text \<open>The locations written to: outside the heap, in an old object, or in an object left in place.\<close>

definition loc_ok :: "prom_env \<Rightarrow> prom \<Rightarrow> ploc \<Rightarrow> bool" where
  "loc_ok env s p = (case p of RootLoc _ \<Rightarrow> True | FieldLoc x i \<Rightarrow> x < young_boundary env \<or> pm_fwd s x = Some x)"

text \<open>Only the slots of \<open>x\<close> and the roots may change; tasks for locations may be added.\<close>

definition claims :: "addr option \<Rightarrow> prom \<Rightarrow> prom \<Rightarrow> bool" where
  "claims x s s' \<longleftrightarrow>
     pm_space s' = pm_space s \<and> pm_lab s' = pm_lab s \<and> pm_fwd s' = pm_fwd s \<and> pm_copies s' = pm_copies s \<and>
     (\<forall>z. Some z \<noteq> x \<longrightarrow> pm_objs s' z = pm_objs s z) \<and>
     (\<forall>z. map_option (\<lambda>ob. ob\<lparr>jo_refs := []\<rparr>) (pm_objs s' z) = map_option (\<lambda>ob. ob\<lparr>jo_refs := []\<rparr>) (pm_objs s z)) \<and>
     (\<forall>z. map_option (length \<circ> jo_refs) (pm_objs s' z) = map_option (length \<circ> jo_refs) (pm_objs s z)) \<and>
     tasks s \<subseteq> tasks s' \<and> (x \<noteq> None \<longrightarrow> pm_roots s' = pm_roots s)"

lemma claims_refl [simp]: "claims x s s"
  by (simp add: claims_def)

lemma claims_trans: "claims x s t \<Longrightarrow> claims x t u \<Longrightarrow> claims x s u"
  unfolding claims_def by auto

definition loc_obj :: "ploc \<Rightarrow> addr option" where
  "loc_obj p = (case p of RootLoc _ \<Rightarrow> None | FieldLoc x _ \<Rightarrow> Some x)"

lemma store_loc_claims: "store_loc p b s = Inr s' \<Longrightarrow> claims (loc_obj p) s s'"
  by (auto simp: store_loc_def claims_def loc_obj_def tasks_def split: ploc.splits option.splits if_splits)

lemma store_loc_tasks:
  "store_loc p b s = Inr s' \<Longrightarrow> pm_local s' = pm_local s \<and> pm_overflow s' = pm_overflow s \<and>
    pm_failed s' = pm_failed s"
  by (auto simp: store_loc_def split: ploc.splits option.splits if_splits)

lemma taken_claims: "claims x s s' \<Longrightarrow> taken E s' = taken E s"
  by (simp add: claims_def taken_def lab_room_def)

lemma mem_inv_claims: "claims x s s' \<Longrightarrow> mem_inv env E s' \<longleftrightarrow> mem_inv env E s"
  by (simp add: claims_def mem_inv_def lab_room_def)

lemma claims_dom: "claims x s s' \<Longrightarrow> pm_objs s' z = None \<longleftrightarrow> pm_objs s z = None"
  unfolding claims_def by (metis option.map_disc_iff)

lemma claims_length:
  assumes "claims x s s'" "pm_objs s z = Some ob"
  obtains ob' where "pm_objs s' z = Some ob'" "jo_length ob' = jo_length ob" "jo_words ob' = jo_words ob"
    "jo_kind ob' = jo_kind ob" "length (jo_refs ob') = length (jo_refs ob)"
proof -
  have "map_option (\<lambda>ob. ob\<lparr>jo_refs := []\<rparr>) (pm_objs s' z) = Some (ob\<lparr>jo_refs := []\<rparr>)"
    "map_option (length \<circ> jo_refs) (pm_objs s' z) = Some (length (jo_refs ob))"
    using assms unfolding claims_def by simp_all
  then obtain ob' where "pm_objs s' z = Some ob'" "ob'\<lparr>jo_refs := []\<rparr> = ob\<lparr>jo_refs := []\<rparr>" "length (jo_refs ob') = length (jo_refs ob)"
    by auto
  then show ?thesis using that by (cases ob, cases ob') simp
qed

lemma lengths_ok_claims: "claims x s s' \<Longrightarrow> lengths_ok objs0 s' \<longleftrightarrow> lengths_ok objs0 s"
proof -
  assume c: "claims x s s'"
  have "map_option jo_length (pm_objs s' q) = map_option jo_length (pm_objs s q)" for q
    using claims_dom[OF c, of q] by (cases "pm_objs s q") (auto elim: claims_length[OF c])
  then show ?thesis using c by (simp add: lengths_ok_def claims_def)
qed

text \<open>Everything but the copies' slots, for a step that changes slots of \<open>x\<close> only.\<close>

lemma young_inv_claims:
  assumes y: "young_inv env objs0 s" and c: "claims (loc_obj p) s s'" and p: "loc_ok env s p"
  shows "young_inv env objs0 s'"
proof -
  have f: "pm_fwd s' = pm_fwd s" using c by (simp add: claims_def)
  have "pm_objs s' x = pm_objs s x" if "young_boundary env \<le> x" "pm_fwd s x \<noteq> Some x" for x
  proof -
    have "Some x \<noteq> loc_obj p" using p that by (auto simp: loc_ok_def loc_obj_def split: ploc.splits)
    then show ?thesis using c by (simp add: claims_def)
  qed
  then show ?thesis using y claims_dom[OF c] unfolding young_inv_def f by (metis option.distinct(1))
qed

lemma task_ok_mono: "task_ok env s t \<Longrightarrow> set (pm_copies s) \<subseteq> set (pm_copies s') \<Longrightarrow> task_ok env s' t"
  by (auto simp: task_ok_def split: bda_task.splits)

text \<open>For a step that claims slots, the invariant comes down to the copies and the tasks.\<close>

lemma prom_inv_claims:
  assumes inv: "prom_inv env E objs0 P s" and c: "claims (loc_obj p) s s'" and p: "loc_ok env s p"
    and cp: "\<And>x q. (x, q) \<in> set (pm_copies s) \<Longrightarrow> copy_ok env P' s' x q"
    and t: "\<And>t. t \<in> tasks s' - tasks s \<Longrightarrow> task_ok env s' t"
  shows "prom_inv env E objs0 P' s'"
proof -
  have e: "pm_copies s' = pm_copies s" "copy_blocks objs0 s' = copy_blocks objs0 s"
    using c by (simp_all add: claims_def copy_blocks_def)
  have "task_ok env s' u" if u: "u \<in> tasks s'" for u
  proof (cases "u \<in> tasks s")
    case True
    then show ?thesis using task_ok_mono[OF prom_invD(4)[OF inv True], of s'] e(1) by simp
  qed (use t u in blast)
  moreover have "young_inv env objs0 s'" using young_inv_claims[OF prom_invD(2)[OF inv] c p] .
  moreover have f: "pm_fwd s' = pm_fwd s" using c by (simp add: claims_def)
  moreover have "\<forall>(x, q) \<in> set (pm_copies s). copy_ok env P' s' x q" using cp by blast
  ultimately show ?thesis
    using inv unfolding prom_inv_def taken_claims[OF c] mem_inv_claims[OF c] lengths_ok_claims[OF c] e claims_dom[OF c] f by blast
qed

text \<open>The original of a copy is no place that is written to.\<close>

lemma original_apart:
  assumes "copy_ok env P s x q" "loc_ok env s p"
  shows "loc_obj p \<noteq> Some x"
  using assms by (auto simp: copy_ok_def loc_ok_def loc_obj_def split: ploc.splits)

lemma store_forwarded:
  assumes inv: "prom_inv env E objs0 P s" and p: "loc_ok env s p" and a: "load_loc s p = Inr a" "young_boundary env \<le> a"
    and b: "pm_fwd s a = Some b" and st: "store_loc p b s = Inr s'"
  shows "prom_inv env E objs0 (P - slot_of p) s'"
proof (rule prom_inv_claims[OF inv store_loc_claims[OF st] p])
  note c = store_loc_claims[OF st]
  have ts: "tasks s' = tasks s" using store_loc_tasks[OF st] by (simp add: tasks_def)
  show "task_ok env s' t" if "t \<in> tasks s' - tasks s" for t using that ts by simp
  fix x q assume "(x, q) \<in> set (pm_copies s)"
  then have ok: "copy_ok env P s x q" using inv by (rule prom_invD(3)[rotated])
  then obtain ob nb where o: "pm_objs s x = Some ob" "pm_objs s q = Some nb" "jo_words nb = jo_words ob" "jo_kind nb = jo_kind ob"
      "length (jo_refs nb) = length (jo_refs ob)"
    and sl: "\<And>i. i < length (jo_refs ob) \<Longrightarrow>
      slot_ok (young_boundary env) (pm_fwd s) (pending P s x q i) (jo_refs ob ! i) (jo_refs nb ! i)"
    unfolding copy_ok_def by blast
  have f: "pm_fwd s' = pm_fwd s" using c by (simp add: claims_def)
  have x: "pm_objs s' x = pm_objs s x" using original_apart[OF ok p] c by (auto simp: claims_def)
  have pend: "pending (P - slot_of p) s' x q i" if "pending P s x q i" "(q, i) \<notin> slot_of p" for i
    using that ts x unfolding pending_def by auto
  obtain nb' where nb': "pm_objs s' q = Some nb'" "jo_words nb' = jo_words nb" "jo_kind nb' = jo_kind nb"
      "length (jo_refs nb') = length (jo_refs nb)"
    using claims_length[OF c o(2)] by metis
  have "slot_ok (young_boundary env) (pm_fwd s') (pending (P - slot_of p) s' x q i) (jo_refs ob ! i) (jo_refs nb' ! i)"
    if i: "i < length (jo_refs ob)" for i
  proof (cases "p = FieldLoc q i")
    case True
    then have v: "jo_refs nb ! i = a" "jo_refs nb' ! i = b"
      using a(1) st o(2) nb'(1) i o(5) by (auto simp: load_loc_def store_loc_def split: if_splits)
    have "pm_fwd s (jo_refs ob ! i) = Some b \<and> young_boundary env \<le> jo_refs ob ! i"
      using sl[OF i] a(2) b prom_invD(2)[OF inv] unfolding v(1) slot_ok_def young_inv_def by (metis option.inject not_less)
    then show ?thesis unfolding v slot_ok_def f by blast
  next
    case False
    then have "(q, i) \<notin> slot_of p" by (auto simp: slot_of_def split: ploc.splits)
    moreover have "jo_refs nb' ! i = jo_refs nb ! i"
      using st o(2) nb'(1) False by (auto simp: store_loc_def split: ploc.splits option.splits if_splits)
    ultimately show ?thesis using sl[OF i] pend[of i] f by (auto simp: slot_ok_def)
  qed
  then show "copy_ok env (P - slot_of p) s' x q"
    using ok o nb' x f unfolding copy_ok_def by (metis (no_types, lifting))
qed

text \<open>Fields the invariant does not read.\<close>

lemmas prom_inv_defs = prom_inv_def mem_inv_def young_inv_def copy_ok_def pending_def tasks_def taken_def lab_room_def
  task_ok_def copy_blocks_def lengths_ok_def

lemma prom_inv_other [simp]:
  "prom_inv env E objs0 P (s\<lparr>pm_cards := cs\<rparr>) \<longleftrightarrow> prom_inv env E objs0 P s"
  "prom_inv env E objs0 P (s\<lparr>pm_depth := ds\<rparr>) \<longleftrightarrow> prom_inv env E objs0 P s"
  "prom_inv env E objs0 P (s\<lparr>pm_failed := fs\<rparr>) \<longleftrightarrow> prom_inv env E objs0 P s"
  "prom_inv env E objs0 P (s\<lparr>pm_old_gen_is_full := b\<rparr>) \<longleftrightarrow> prom_inv env E objs0 P s"
  by (simp_all add: prom_inv_defs cong: bda_task.case_cong)

fun is_chunk :: "bda_task \<Rightarrow> bool" where
  "is_chunk (LocTask p ct) = False"
| "is_chunk (ChunkTask x ct) = True"

definition chunks :: "prom \<Rightarrow> bda_task list" where
  "chunks s = filter is_chunk (pm_local s @ pm_overflow s)"

lemma push_tasks [simp]: "tasks (push_bdaref_stack env t s) = insert t (tasks s)"
  by (simp add: push_bdaref_stack_def tasks_def)

lemma push_claims [simp]: "claims x s (push_bdaref_stack env t s)"
  unfolding claims_def push_tasks by (simp add: push_bdaref_stack_def) blast

lemma push_chunks [simp]: "chunks (push_bdaref_stack env (LocTask p ct) s) = chunks s"
  by (simp add: push_bdaref_stack_def chunks_def)

lemma copy_ok_claims:
  assumes "copy_ok env P s x q" "claims y s s'" "\<And>z. pm_objs s' z = pm_objs s z" "\<And>i. pending P s x q i \<Longrightarrow> pending P' s' x q i"
  shows "copy_ok env P' s' x q"
  by (rule copy_ok_mono[OF assms(1)]) (use assms in \<open>auto simp: claims_def\<close>)

lemma push_objs [simp]: "pm_objs (push_bdaref_stack env t s) = pm_objs s"
  by (simp add: push_bdaref_stack_def)

lemma push_loc_ok:
  assumes inv: "prom_inv env E objs0 P s" and x: "x < young_boundary env"
  shows "prom_inv env E objs0 (P - {(x, i)}) (push_bdaref_stack env (LocTask (FieldLoc x i) ct) s)"
proof (rule prom_inv_claims[OF inv, where p = "FieldLoc x i"])
  let ?s = "push_bdaref_stack env (LocTask (FieldLoc x i) ct) s"
  show "copy_ok env (P - {(x, i)}) ?s y q" if "(y, q) \<in> set (pm_copies s)" for y q
    by (rule copy_ok_claims[OF prom_invD(3)[OF inv that] push_claims]) (auto simp: pending_def)
qed (use x in \<open>auto simp: loc_ok_def task_ok_def\<close>)

text \<open>A slot that does not point into the young generation needs no visit.\<close>

lemma skip_slot_ok:
  assumes inv: "prom_inv env E objs0 P s" and l: "load_loc s (FieldLoc x i) = Inr a" "a < young_boundary env"
  shows "prom_inv env E objs0 (P - {(x, i)}) s"
proof -
  have "copy_ok env (P - {(x, i)}) s y q" if "(y, q) \<in> set (pm_copies s)" for y q
  proof -
    have ok: "copy_ok env P s y q" using prom_invD(3)[OF inv that] .
    obtain ob nb where o: "pm_objs s y = Some ob" "pm_objs s q = Some nb" "jo_words nb = jo_words ob" "jo_kind nb = jo_kind ob"
        "length (jo_refs nb) = length (jo_refs ob)"
      and sl: "\<And>i. i < length (jo_refs ob) \<Longrightarrow>
        slot_ok (young_boundary env) (pm_fwd s) (pending P s y q i) (jo_refs ob ! i) (jo_refs nb ! i)"
      using ok unfolding copy_ok_def by blast
    have "slot_ok (young_boundary env) (pm_fwd s) (pending (P - {(x, i)}) s y q j) (jo_refs ob ! j) (jo_refs nb ! j)"
      if j: "j < length (jo_refs ob)" for j
    proof (cases "q = x \<and> j = i")
      case True
      then have "jo_refs nb ! j < young_boundary env" using l o(2,5) j by (auto simp: load_loc_def split: if_splits)
      then show ?thesis using sl[OF j] by (auto simp: slot_ok_def)
    next
      case False
      then have "pending P s y q j \<Longrightarrow> pending (P - {(x, i)}) s y q j" by (auto simp: pending_def)
      then show ?thesis using sl[OF j] by (auto simp: slot_ok_def)
    qed
    then show ?thesis using ok o unfolding copy_ok_def by blast
  qed
  then show ?thesis using inv unfolding prom_inv_def by blast
qed

lemma claims_mark_card [simp]: "claims x (mark_card p s) s' \<longleftrightarrow> claims x s s'"
  by (simp add: claims_def mark_card_def tasks_def)

lemma forward_ok:
  assumes inv: "prom_inv env E objs0 P s" and p: "loc_ok env s p" and a: "load_loc s p = Inr a" "young_boundary env \<le> a"
    and b: "pm_fwd s a = Some b" and st: "store_loc p b (if c then mark_card p s else s) = Inr s'"
  shows "prom_inv env E objs0 (P - slot_of p) s' \<and> claims (loc_obj p) s s' \<and> chunks s' = chunks s"
proof -
  let ?s = "if c then mark_card p s else s"
  have i: "prom_inv env E objs0 P ?s" using inv by (simp add: mark_card_def)
  have "prom_inv env E objs0 (P - slot_of p) s'"
    by (rule store_forwarded[OF i _ _ a(2) _ st]) (use p a(1) b in \<open>simp_all add: mark_card_def loc_ok_def load_loc_def cong: ploc.case_cong\<close>)
  moreover have "claims (loc_obj p) s s'" using store_loc_claims[OF st] by (simp split: if_splits)
  moreover have "chunks s' = chunks s" using store_loc_tasks[OF st] by (simp add: chunks_def mark_card_def split: if_splits)
  ultimately show ?thesis by blast
qed

lemma claim_bdaref_ok:
  assumes inv: "prom_inv env E objs0 P s" and x: "x < young_boundary env"
    and c: "claim_or_forward_bdaref env (FieldLoc x i) ct s = Inr s'"
  shows "prom_inv env E objs0 (P - {(x, i)}) s' \<and> claims (Some x) s s' \<and> chunks s' = chunks s"
proof -
  obtain a where a: "load_loc s (FieldLoc x i) = Inr a" "young_boundary env \<le> a"
    "forward_or_push env (push_bdaref_stack env (LocTask (FieldLoc x i) ct)) (FieldLoc x i) a s = Inr s'"
    using c by (auto simp: claim_or_forward_bdaref_def is_obj_in_young_def split: if_splits elim!: bind_resultE)
  show ?thesis
  proof (cases "pm_fwd s a")
    case None
    then show ?thesis using a(3) push_loc_ok[OF inv x] by (auto simp: forward_or_push_def)
  next
    case (Some b)
    then show ?thesis
      using forward_ok[OF inv _ a(1,2) Some] a(3) x by (auto simp: forward_or_push_def loc_ok_def slot_of_def loc_obj_def)
  qed
qed

lemma claim_slots_ok:
  assumes "prom_inv env E objs0 P s" "x < young_boundary env"
    "claim_slots env (\<lambda>p. claim_or_forward_bdaref env p ct) x is s = Inr s'"
  shows "prom_inv env E objs0 (P - {x} \<times> set is) s' \<and> claims (Some x) s s' \<and> chunks s' = chunks s"
  using assms
proof (induction "is" arbitrary: P s)
  case (Cons i "is")
  obtain a s1 where a: "load_loc s (FieldLoc x i) = Inr a"
    "(if is_obj_in_young env a then claim_or_forward_bdaref env (FieldLoc x i) ct s else Inr s) = Inr s1"
    "claim_slots env (\<lambda>p. claim_or_forward_bdaref env p ct) x is s1 = Inr s'"
    using Cons.prems(3) by (auto simp: claim_slots_def elim!: bind_resultE)
  have 1: "prom_inv env E objs0 (P - {(x, i)}) s1 \<and> claims (Some x) s s1 \<and> chunks s1 = chunks s"
    using a(1,2) skip_slot_ok[OF Cons.prems(1)] claim_bdaref_ok[OF Cons.prems(1,2)]
    by (auto simp: is_obj_in_young_def split: if_splits)
  have "P - {x} \<times> set (i # is) = P - {(x, i)} - {x} \<times> set is" by auto
  then show ?case using Cons.IH[OF _ Cons.prems(2) a(3), of "P - {(x, i)}"] 1 claims_trans by metis
qed (simp add: claim_slots_def)

text \<open>Pushing the contents of an object left in place on the other stack.\<close>

lemma claim_depth_ok:
  assumes inv: "prom_inv env E objs0 P s" and x: "pm_fwd s x = Some x"
    and c: "claim_or_forward_depth env (FieldLoc x i) s = Inr s'"
  shows "prom_inv env E objs0 P s' \<and> claims (Some x) s s' \<and> chunks s' = chunks s"
proof -
  obtain a where a: "load_loc s (FieldLoc x i) = Inr a" "young_boundary env \<le> a"
    "forward_or_push env (\<lambda>s. s\<lparr>pm_depth := FieldLoc x i # pm_depth s\<rparr>) (FieldLoc x i) a s = Inr s'"
    using c by (auto simp: claim_or_forward_depth_def is_obj_in_young_def split: if_splits elim!: bind_resultE)
  show ?thesis
  proof (cases "pm_fwd s a")
    case None
    then show ?thesis using a(3) inv by (auto simp: forward_or_push_def claims_def tasks_def chunks_def)
  next
    case (Some b)
    have "prom_inv env E objs0 (P - slot_of (FieldLoc x i)) s' \<and> claims (loc_obj (FieldLoc x i)) s s' \<and> chunks s' = chunks s"
      by (rule forward_ok[OF inv _ a(1,2) Some]) (use a(3) x Some in \<open>auto simp: forward_or_push_def loc_ok_def\<close>)
    then show ?thesis using prom_inv_mono[of env E objs0 "P - slot_of (FieldLoc x i)" s' P] by (auto simp: loc_obj_def)
  qed
qed

lemma depth_slots_ok:
  assumes "prom_inv env E objs0 P s" "pm_fwd s x = Some x" "claim_slots env (claim_or_forward_depth env) x is s = Inr s'"
  shows "prom_inv env E objs0 P s' \<and> claims (Some x) s s' \<and> chunks s' = chunks s"
  using assms
proof (induction "is" arbitrary: s)
  case (Cons i "is")
  obtain a s1 where a: "load_loc s (FieldLoc x i) = Inr a"
    "(if is_obj_in_young env a then claim_or_forward_depth env (FieldLoc x i) s else Inr s) = Inr s1"
    "claim_slots env (claim_or_forward_depth env) x is s1 = Inr s'"
    using Cons.prems(3) by (auto simp: claim_slots_def elim!: bind_resultE)
  have 1: "prom_inv env E objs0 P s1 \<and> claims (Some x) s s1 \<and> chunks s1 = chunks s"
    using a(1,2) Cons.prems(1) claim_depth_ok[OF Cons.prems(1,2)] by (auto split: if_splits)
  then have "pm_fwd s1 x = Some x" using Cons.prems(2) by (simp add: claims_def)
  then show ?case using Cons.IH[OF _ _ a(3)] 1 claims_trans by metis
qed (simp add: claim_slots_def)

section \<open>Copying\<close>

text \<open>
  What a step that disposes of the young object \<open>x\<close> comes to: it is forwarded,
  other objects that are not new are untouched, and so are the roots.
\<close>

definition disposes :: "addr \<Rightarrow> addr \<Rightarrow> prom \<Rightarrow> prom \<Rightarrow> bool" where
  "disposes x b s s' \<longleftrightarrow>
     pm_fwd s' = (pm_fwd s)(x \<mapsto> b) \<and> pm_roots s' = pm_roots s \<and>
     (\<forall>z. z \<noteq> x \<longrightarrow> pm_objs s z \<noteq> None \<longrightarrow> pm_objs s' z = pm_objs s z)"

definition rival_ok :: "prom_env \<Rightarrow> (addr \<rightharpoonup> jobj) \<Rightarrow> bool" where
  "rival_ok env objs0 \<longleftrightarrow>
     (\<forall>x b. rival env x = Some b \<longrightarrow> b = x \<or> b < young_boundary env \<or> objs0 b = None)"

text \<open>The state after forwarding \<open>x\<close>, before anything is pushed.\<close>

lemma forwarded_inv:
  assumes inv: "prom_inv env E objs0 P s" and x: "young_boundary env \<le> x" "pm_fwd s x = None" "pm_objs s x \<noteq> None"
    and b: "b = x \<or> b < young_boundary env \<or> objs0 b = None" "b = x \<or> rival env x = Some b"
  shows "prom_inv env E objs0 P (s\<lparr>pm_fwd := (pm_fwd s)(x \<mapsto> b)\<rparr>)"
proof -
  let ?s = "s\<lparr>pm_fwd := (pm_fwd s)(x \<mapsto> b)\<rparr>"
  have t: "tasks ?s = tasks s" "taken E ?s = taken E s" "mem_inv env E ?s \<longleftrightarrow> mem_inv env E s" "copy_blocks objs0 ?s = copy_blocks objs0 s"
      "lengths_ok objs0 ?s \<longleftrightarrow> lengths_ok objs0 s"
    by (simp_all add: tasks_def taken_def lab_room_def mem_inv_def copy_blocks_def lengths_ok_def)
  have "copy_ok env P ?s y q" if "(y, q) \<in> set (pm_copies s)" for y q
    by (rule copy_ok_mono[OF prom_invD(3)[OF inv that]]) (use x(2) in \<open>auto simp: pending_def t\<close>)
  moreover have "young_inv env objs0 ?s"
    using prom_invD(2)[OF inv] x b(1) unfolding young_inv_def by auto
  moreover have "task_ok env ?s u \<longleftrightarrow> task_ok env s u" for u by (simp add: task_ok_def cong: bda_task.case_cong)
  ultimately show ?thesis using inv b(2) unfolding prom_inv_def t by auto
qed

lemma promotion_failed_ok:
  assumes inv: "prom_inv env E objs0 P s" and x: "young_boundary env \<le> x" "pm_fwd s x = None" "pm_objs s x \<noteq> None"
    and rv: "rival_ok env objs0" and f: "bda_oop_promotion_failed env x s = Inr (s', b)"
  shows "prom_inv env E objs0 P s' \<and> disposes x b s s'"
proof (cases "rival env x")
  case (Some c)
  then have "s' = s\<lparr>pm_fwd := (pm_fwd s)(x \<mapsto> b)\<rparr>" "b = x \<or> b < young_boundary env \<or> objs0 b = None" "rival env x = Some b"
    using f rv Some by (auto simp: bda_oop_promotion_failed_def rival_ok_def)
  then show ?thesis using forwarded_inv[OF inv x] by (simp add: disposes_def)
next
  case None
  let ?s = "s\<lparr>pm_fwd := (pm_fwd s)(x \<mapsto> x)\<rparr>"
  obtain s1 ob where 1: "claim_slots env (claim_or_forward_depth env) x (obj_slots ob) ?s = Inr s1"
    "s' = s1\<lparr>pm_failed := x # pm_failed s1\<rparr>" "b = x"
    using f None by (auto simp: bda_oop_promotion_failed_def push_contents_def split: option.splits elim!: bind_resultE)
  have "prom_inv env E objs0 P s1 \<and> claims (Some x) ?s s1"
    using depth_slots_ok[OF forwarded_inv[OF inv x, of x] _ 1(1)] by simp
  then show ?thesis using 1 by (simp add: disposes_def claims_def)
qed

lemma gives_back_inv:
  assumes inv: "prom_inv env E objs0 P s" and g: "gives_back env E s s'"
  shows "prom_inv env E objs0 P s'"
proof -
  have so: "same_objs s s'" and m: "mem_inv env E s'" "taken E s \<subseteq> taken E s'" using g by (simp_all add: gives_back_def)
  have e: "tasks s' = tasks s" "pm_copies s' = pm_copies s" "pm_objs s' = pm_objs s" "pm_fwd s' = pm_fwd s"
      "copy_blocks objs0 s' = copy_blocks objs0 s" "lengths_ok objs0 s' \<longleftrightarrow> lengths_ok objs0 s"
    using so by (simp_all add: same_objs_def tasks_def copy_blocks_def lengths_ok_def)
  have "copy_ok env P s' y q" if "(y, q) \<in> set (pm_copies s)" for y q
    by (rule copy_ok_mono[OF prom_invD(3)[OF inv that]]) (auto simp: pending_def e)
  moreover have "young_inv env objs0 s'" using prom_invD(2)[OF inv] by (simp add: young_inv_def e)
  moreover have "task_ok env s' u \<longleftrightarrow> task_ok env s u" for u by (simp add: task_ok_def e cong: bda_task.case_cong)
  ultimately show ?thesis using inv m unfolding prom_inv_def e by blast
qed

lemma takes_gives_back: "takes env E B s s' \<Longrightarrow> gives_back env E s s'"
  by (simp add: takes_def gives_back_def)

definition objs_wf :: "prom_env \<Rightarrow> (addr \<rightharpoonup> jobj) \<Rightarrow> bool" where
  "objs_wf env objs0 \<longleftrightarrow> (\<forall>x ob. young_boundary env \<le> x \<longrightarrow> objs0 x = Some ob \<longrightarrow> obj_wf ob)"

abbreviation with_copy :: "prom \<Rightarrow> addr \<Rightarrow> jobj \<Rightarrow> addr \<Rightarrow> prom" where
  "with_copy s x ob q \<equiv> s\<lparr>pm_objs := (pm_objs s)(q \<mapsto> ob), pm_fwd := (pm_fwd s)(x \<mapsto> q), pm_copies := (x, q) # pm_copies s\<rparr>"

text \<open>The block an object is copied to holds no object.\<close>

lemma copy_fresh:
  assumes inv: "prom_inv env E objs0 P s0" and t: "takes env E (block q n) s0 s" and n: "0 < n"
  shows "pm_objs s0 q = None" "q < young_boundary env" "\<And>y z. (y, z) \<in> set (pm_copies s0) \<Longrightarrow> z \<noteq> q"
proof -
  have q: "q \<in> block q n" using n by (simp add: block_def hw_add_def HeapWordSize_def)
  then have "q \<in> taken E s" "q \<notin> taken E s0" "mem_inv env E s" using t by (auto simp: takes_def)
  then show Y: "q < young_boundary env" using taken_below by blast
  then show none: "pm_objs s0 q = None" using prom_invD(5)[OF inv] \<open>q \<notin> _\<close> by blast
  show "z \<noteq> q" if "(y, z) \<in> set (pm_copies s0)" for y z
    using prom_invD(3)[OF inv that] none by (auto simp: copy_ok_def)
qed

lemma with_copy_inv:
  assumes inv: "prom_inv env E objs0 P s0" and x: "young_boundary env \<le> x" "pm_fwd s0 x = None" "pm_objs s0 x = Some ob"
    and wf: "obj_wf ob" and t: "takes env E (block q (jo_words ob)) s0 s"
  shows "prom_inv env E objs0 (P \<union> {q} \<times> {..<length (jo_refs ob)}) (with_copy s x ob q)"
proof -
  let ?s = "with_copy s x ob q" and ?P = "P \<union> {q} \<times> {..<length (jo_refs ob)}"
  have n: "0 < jo_words ob" using wf by (simp add: obj_wf_def)
  note fr = copy_fresh[OF inv t n]
  have so: "same_objs s0 s" and m: "mem_inv env E s" "taken E s0 \<union> block q (jo_words ob) \<subseteq> taken E s" "block q (jo_words ob) \<inter> taken E s0 = {}"
    using t by (simp_all add: takes_def)
  have e: "pm_objs s = pm_objs s0" "pm_fwd s = pm_fwd s0" "pm_copies s = pm_copies s0" "tasks ?s = tasks s0"
      "taken E ?s = taken E s" "mem_inv env E ?s \<longleftrightarrow> mem_inv env E s"
    using so by (simp_all add: same_objs_def tasks_def taken_def lab_room_def mem_inv_def)
  have y0: "young_inv env objs0 s0" using prom_invD(2)[OF inv] .
  then have o0: "objs0 x = Some ob" using x by (auto simp: young_inv_def)
  have "copy_ok env ?P ?s y z" if "(y, z) \<in> set (pm_copies ?s)" for y z
  proof (cases "(y, z) = (x, q)")
    case True
    then show ?thesis
      using x fr(2) e by (auto simp: copy_ok_def slot_ok_def pending_def)
  next
    case False
    then have yz: "(y, z) \<in> set (pm_copies s0)" using that e(3) by auto
    have ok: "copy_ok env P s0 y z" using prom_invD(3)[OF inv yz] .
    have "y \<noteq> q" using ok fr(2) by (auto simp: copy_ok_def)
    then show ?thesis
      by (intro copy_ok_mono[OF ok]) (use fr(3)[OF yz] x(2) e in \<open>auto simp: pending_def\<close>)
  qed
  moreover have "young_inv env objs0 ?s"
    using y0 x fr(2) o0 unfolding young_inv_def e by auto
  moreover have cb: "copy_blocks objs0 ?s = (q, jo_words ob) # copy_blocks objs0 s0"
    by (simp add: copy_blocks_def e o0)
  have old: "block (fst b) (snd b) \<subseteq> taken E s0" if "b \<in> set (copy_blocks objs0 s0)" for b
    using inv that by (simp add: prom_inv_def)
  have "block (fst b) (snd b) \<subseteq> taken E s" if "b \<in> set (copy_blocks objs0 ?s)" for b
  proof -
    from that consider "b = (q, jo_words ob)" | "b \<in> set (copy_blocks objs0 s0)" unfolding cb by auto
    then show ?thesis
    proof cases
      case 2
      then show ?thesis using old[OF 2] m(2) by blast
    qed (use m(2) in simp)
  qed
  moreover have "block q (jo_words ob) \<inter> block (fst b) (snd b) = {}" if "b \<in> set (copy_blocks objs0 s0)" for b
    using old[OF that] m(3) by blast
  then have "blocks_apart (copy_blocks objs0 ?s)"
    using inv unfolding cb blocks_apart_def prom_inv_def by simp
  moreover have "z \<in> taken E s" if "z < young_boundary env" "pm_objs ?s z \<noteq> None" for z
    using that m(2) prom_invD(5)[OF inv, of z] n e(1)
    by (cases "z = q") (auto simp: block_def hw_add_def HeapWordSize_def)
  moreover have "task_ok env ?s u" if "u \<in> tasks s0" for u
    using prom_invD(4)[OF inv that] e(3) by (auto intro: task_ok_mono)
  moreover have "(y, b) \<in> set (pm_copies ?s) \<or> b = y \<or> rival env y = Some b" if "pm_fwd ?s y = Some b" for y b
    using that inv e(2,3) unfolding prom_inv_def by (cases "y = x") auto
  moreover have "lengths_ok objs0 ?s"
    using inv fr(3) o0 e(1,3) by (auto simp: prom_inv_def lengths_ok_def)
  ultimately show ?thesis
    using m(1) unfolding prom_inv_def e(4-6) by blast
qed

lemma obj_slots_all: "obj_wf ob \<Longrightarrow> set (obj_slots ob) = {..<length (jo_refs ob)}"
  by (auto simp: obj_wf_def obj_slots_def split: obj_kind.splits)

lemma push_chunk_ok:
  assumes inv: "prom_inv env E objs0 (P \<union> {q} \<times> {..<n}) s" and x: "(x, q) \<in> set (pm_copies s)"
    and u: "\<And>y. (y, q) \<in> set (pm_copies s) \<Longrightarrow> y = x" and ob: "pm_objs s x = Some ob" "n \<le> jo_length ob"
  shows "prom_inv env E objs0 P (push_bdaref_stack env (ChunkTask x ct) s)"
proof (rule prom_inv_claims[OF inv, where p = "RootLoc 0"])
  let ?s = "push_bdaref_stack env (ChunkTask x ct) s"
  show "copy_ok env P ?s y z" if yz: "(y, z) \<in> set (pm_copies s)" for y z
  proof (rule copy_ok_claims[OF prom_invD(3)[OF inv yz] push_claims])
    show "pending P ?s y z i" if "pending (P \<union> {q} \<times> {..<n}) s y z i" for i
      using that u yz ob by (auto simp: pending_def)
  qed simp
  have "pm_copies ?s = pm_copies s" by (simp add: push_bdaref_stack_def)
  then show "task_ok env ?s t" if "t \<in> tasks ?s - tasks s" for t using that x by (auto simp: task_ok_def)
qed (simp_all add: loc_ok_def)

lemma install_copy_ok:
  assumes inv: "prom_inv env E objs0 P s0" and x: "young_boundary env \<le> x" "pm_fwd s0 x = None" "pm_objs s0 x = Some ob"
    and wf: "obj_wf ob" and rv: "rival_ok env objs0" and t: "takes env E (block q (jo_words ob)) s0 s"
    and undo: "\<And>b s'. undo (s\<lparr>pm_fwd := (pm_fwd s)(x \<mapsto> b)\<rparr>) = Inr s' \<Longrightarrow>
      gives_back env E (s0\<lparr>pm_fwd := (pm_fwd s0)(x \<mapsto> b)\<rparr>) s'"
    and i: "install_copy env x ob q c undo s = Inr (s', b)"
  shows "prom_inv env E objs0 P s' \<and> disposes x b s0 s'"
proof (cases "rival env x")
  case (Some r)
  then have u: "undo (s\<lparr>pm_fwd := (pm_fwd s)(x \<mapsto> b)\<rparr>) = Inr s'" "b = r"
    using i by (auto simp: install_copy_def elim!: bind_resultE)
  have g: "gives_back env E (s0\<lparr>pm_fwd := (pm_fwd s0)(x \<mapsto> b)\<rparr>) s'" using undo[OF u(1)] .
  have "b = x \<or> b < young_boundary env \<or> objs0 b = None" "b = x \<or> rival env x = Some b"
    using Some u(2) rv by (auto simp: rival_ok_def)
  from gives_back_inv[OF forwarded_inv[OF inv x(1,2) _ this] g] x(3) g show ?thesis
    by (simp add: disposes_def gives_back_def same_objs_def)
next
  case None
  let ?s = "with_copy s x ob q" and ?N = "{q} \<times> {..<length (jo_refs ob)}"
  have n: "0 < jo_words ob" using wf by (simp add: obj_wf_def)
  have so: "same_objs s0 s" using t by (simp add: takes_def)
  note fr = copy_fresh[OF inv t n]
  have inv1: "prom_inv env E objs0 (P \<union> ?N) ?s" using with_copy_inv[OF inv x wf t] .
  have d: "disposes x q s0 s2" if c: "claims (Some q) ?s s2" for s2
  proof -
    have "pm_objs s2 z = pm_objs s0 z" if "pm_objs s0 z \<noteq> None" for z
    proof -
      have "z \<noteq> q" using that fr(1) by auto
      then show ?thesis using c so by (simp add: claims_def same_objs_def)
    qed
    then show ?thesis using c so by (simp add: disposes_def claims_def same_objs_def)
  qed
  show ?thesis
  proof (cases "jo_words ob > min_array_size_for_chunking env \<and> jo_kind ob = ObjArray \<and> PSChunkLargeArrays env")
    case True
    then have s': "s' = push_bdaref_stack env (ChunkTask x c) ?s" "b = q" using i None by (auto simp: install_copy_def Let_def)
    have "pm_objs ?s x = Some ob" using x so fr(2) by (auto simp: same_objs_def)
    moreover have "length (jo_refs ob) \<le> jo_length ob" using True wf by (simp add: obj_wf_def)
    moreover have "y = x" if "(y, q) \<in> set (pm_copies ?s)" for y using that fr(3)[of y q] so by (auto simp: same_objs_def)
    ultimately have "prom_inv env E objs0 P s'" unfolding s' by (intro push_chunk_ok[OF inv1]) auto
    then show ?thesis using d[of s'] s' by simp
  next
    case False
    then obtain s2 where s2: "claim_slots env (\<lambda>p. claim_or_forward_bdaref env p c) q (obj_slots ob) ?s = Inr s2" "s' = s2" "b = q"
      using i None by (auto simp: install_copy_def Let_def push_bdaref_contents_def elim!: bind_resultE)
    have "P \<union> ?N - {q} \<times> set (obj_slots ob) \<subseteq> P" using obj_slots_all[OF wf] by auto
    then show ?thesis
      using claim_slots_ok[OF inv1 fr(2) s2(1)] prom_inv_mono d[of s2] s2(2,3) by blast
  qed
qed

lemma copy_bdaref_ok:
  assumes inv: "prom_inv env E objs0 P s" and x: "young_boundary env \<le> x" "pm_fwd s x = None"
    and wf: "objs_wf env objs0" and rv: "rival_ok env objs0"
  shows "\<exists>r'. copy_bdaref_to_survivor_space env x r s = Some r' \<and>
    (\<forall>s' b. r' = Inr (s', b) \<longrightarrow> prom_inv env E objs0 P s' \<and> disposes x b s s')"
proof (cases "pm_objs s x")
  case None
  then show ?thesis using x(2) by (simp add: copy_bdaref_to_survivor_space_def)
next
  case (Some ob)
  have m: "mem_inv env E s" using prom_invD(1)[OF inv] .
  have "objs0 x = Some ob" using prom_invD(2)[OF inv] x Some by (auto simp: young_inv_def)
  then have w: "obj_wf ob" "hw_add 0 (jo_words ob) < size_t_max1" using wf x(1) by (auto simp: objs_wf_def obj_wf_def)
  have failed: "prom_inv env E objs0 P s' \<and> disposes x b s s'"
    if "takes env E B s s1" "bda_oop_promotion_failed env x (s1\<lparr>pm_old_gen_is_full := True\<rparr>) = Inr (s', b)" for B s1 s' b
  proof -
    have so: "same_objs s s1" using that(1) by (simp add: takes_def)
    have i1: "prom_inv env E objs0 P (s1\<lparr>pm_old_gen_is_full := True\<rparr>)"
      using gives_back_inv[OF inv takes_gives_back[OF that(1)]] by simp
    have "prom_inv env E objs0 P s' \<and> disposes x b (s1\<lparr>pm_old_gen_is_full := True\<rparr>) s'"
      by (rule promotion_failed_ok[OF i1 x(1) _ _ rv that(2)]) (use so x(2) Some in \<open>simp_all add: same_objs_def\<close>)
    then show ?thesis using so by (simp add: disposes_def same_objs_def)
  qed
  show ?thesis
  proof (cases r)
    case (AsContainer rg)
    have "prom_inv env E objs0 P s' \<and> disposes x b s s'"
      if r: "bind_result (bs_allocate_container (pm_space s) (jo_words ob) rg) (\<lambda>(sp, c).
          let s1 = s\<lparr>pm_space := sp\<rparr> in
          if c = None then bda_oop_promotion_failed env x (s1\<lparr>pm_old_gen_is_full := True\<rparr>)
          else bind_result (cget (bs_cells sp) c) (\<lambda>k. install_copy env x ob (c_start k) c (undo_container c) s1)) = Inr (s', b)"
      for s' b
    proof -
      obtain sp c where a: "bs_allocate_container (pm_space s) (jo_words ob) rg = Inr (sp, c)"
        "(if c = None then bda_oop_promotion_failed env x (s\<lparr>pm_space := sp, pm_old_gen_is_full := True\<rparr>)
          else bind_result (cget (bs_cells sp) c) (\<lambda>k. install_copy env x ob (c_start k) c (undo_container c) (s\<lparr>pm_space := sp\<rparr>))) = Inr (s', b)"
        using r by (auto simp: Let_def elim!: bind_resultE cong: if_cong)
      from container_memory_takes[OF m a(1)] show ?thesis
      proof (elim disjE exE conjE)
        assume "c = None" "sp = pm_space s"
        then show ?thesis using a(2) failed[of "{}" s s' b] takes_refl[OF m] by simp
      next
        fix e k assume c: "c = Some e" and k: "bs_cells sp e = Some k" "bs_cells (pm_space s) e = None"
          "c_top k = hw_add (c_start k) (jo_words ob)" and h: "handed (pm_space s) E (c_start k) (jo_words ob) sp"
          and t: "takes env E (block (c_start k) (jo_words ob)) s (s\<lparr>pm_space := sp\<rparr>)"
        have "install_copy env x ob (c_start k) c (undo_container c) (s\<lparr>pm_space := sp\<rparr>) = Inr (s', b)" using a(2) c k(1) by simp
        from install_copy_ok[OF inv x Some w(1) rv t _ this] undo_container_ok[OF m k h t] c show ?thesis by simp
      qed
    qed
    then show ?thesis using AsContainer x(2) Some by (simp add: copy_bdaref_to_survivor_space_def)
  next
    case (AsElement c)
    obtain em where em: "element_memory env (jo_words ob) c s = Some em" using element_memory_ends[OF m w(2), of c] by blast
    have "prom_inv env E objs0 P s' \<and> disposes x b s s'"
      if r: "bind_result em (\<lambda>(s1, p, c1). case p of
          None \<Rightarrow> bda_oop_promotion_failed env x (s1\<lparr>pm_old_gen_is_full := True\<rparr>)
        | Some q \<Rightarrow> install_copy env x ob q c1 (undo_element env q (jo_words ob)) s1) = Inr (s', b)" for s' b
    proof -
      obtain s1 p c1 where e: "em = Inr (s1, p, c1)" using r by (cases em) auto
      note t = element_memory_takes[OF m w(2) em[unfolded e]]
      show ?thesis
      proof (cases p)
        case None
        then show ?thesis using r e t failed[of "{}" s1 s' b] by simp
      next
        case (Some q)
        then have t: "takes env E (block q (jo_words ob)) s s1" using t by simp
        have f: "pm_fwd s1 = pm_fwd s" using t by (simp add: takes_def same_objs_def)
        have "install_copy env x ob q c1 (undo_element env q (jo_words ob)) s1 = Inr (s', b)" using r e Some by simp
        from install_copy_ok[OF inv x \<open>pm_objs s x = Some ob\<close> w(1) rv t _ this] undo_element_ok[OF m t] show ?thesis
          by (simp add: f)
      qed
    qed
    then show ?thesis using AsElement x(2) Some em by (simp add: copy_bdaref_to_survivor_space_def)
  qed
qed

end
