(* ===== verification/PromotionRuns.thy ===== *)
theory PromotionRuns
  imports PromotionDrains BdaSafety
begin

text \<open>
  Running the promotion: each task taken from the stack brings the promotion forward,
  the loops that drain the stack end, and the task for the queued references does
  what it is for.
\<close>

section \<open>Progress\<close>

text \<open>The young objects no thread has seen yet, and the lengths still to scan of chunked arrays.\<close>

definition unseen :: "prom_env \<Rightarrow> (addr \<rightharpoonup> jobj) \<Rightarrow> prom \<Rightarrow> addr set" where
  "unseen env objs0 s = {x. young_boundary env \<le> x \<and> objs0 x \<noteq> None \<and> pm_fwd s x = None}"

definition chunk_objs :: "prom \<Rightarrow> addr set" where
  "chunk_objs s = {x. \<exists>ct. ChunkTask x ct \<in> tasks s}"

definition length_of :: "prom \<Rightarrow> addr \<Rightarrow> nat" where
  "length_of s x = (case pm_objs s x of None \<Rightarrow> 0 | Some ob \<Rightarrow> jo_length ob)"

definition chunk_work :: "prom \<Rightarrow> nat" where
  "chunk_work s = (\<Sum>x \<in> chunk_objs s. length_of s x)"

definition rank :: "prom_env \<Rightarrow> (addr \<rightharpoonup> jobj) \<Rightarrow> prom \<Rightarrow> nat \<times> nat \<times> nat \<times> nat" where
  "rank env objs0 s =
     (card (unseen env objs0 s), length (chunks s), chunk_work s, length (pm_local s) + length (pm_overflow s))"

abbreviation rank_less :: "((nat \<times> nat \<times> nat \<times> nat) \<times> nat \<times> nat \<times> nat \<times> nat) set" where
  "rank_less \<equiv> less_than <*lex*> less_than <*lex*> less_than <*lex*> less_than"

lemma finite_chunk_objs [simp]: "finite (chunk_objs s)"
proof -
  have "chunk_objs s \<subseteq> (\<lambda>t. case t of ChunkTask x ct \<Rightarrow> x | LocTask p ct \<Rightarrow> 0) ` tasks s"
    by (force simp: chunk_objs_def split: bda_task.splits)
  then show ?thesis by (rule finite_subset) (simp add: tasks_def)
qed

lemma chunk_objs_chunks: "chunk_objs s = {x. \<exists>ct. ChunkTask x ct \<in> set (chunks s)}"
  by (auto simp: chunk_objs_def chunks_def tasks_def)

lemma length_of_claims: "claims x s s' \<Longrightarrow> length_of s' z = length_of s z"
  unfolding length_of_def using claims_dom[of x s s' z] by (cases "pm_objs s z") (auto elim: claims_length)

lemma chunk_work_claims: "claims x s s' \<Longrightarrow> chunks s' = chunks s \<Longrightarrow> chunk_work s' = chunk_work s"
  by (simp add: chunk_work_def chunk_objs_chunks length_of_claims)

text \<open>Forwarding an object leaves fewer unseen.\<close>

lemma disposes_rank:
  assumes fin: "finite {x. young_boundary env \<le> x \<and> objs0 x \<noteq> None}" and y: "young_inv env objs0 s'"
    and x: "pm_fwd s x = None" "pm_fwd s' = (pm_fwd s)(x \<mapsto> b)"
  shows "card (unseen env objs0 s') < card (unseen env objs0 s)"
proof -
  have "pm_fwd s' x = Some b" using x(2) by simp
  then have "young_boundary env \<le> x" "objs0 x \<noteq> None" using y unfolding young_inv_def by blast+
  then have m: "x \<in> unseen env objs0 s" using x(1) by (simp add: unseen_def)
  have "unseen env objs0 s' = unseen env objs0 s - {x}" using x(2) by (auto simp: unseen_def)
  moreover have "finite (unseen env objs0 s)" by (rule finite_subset[OF _ fin]) (auto simp: unseen_def)
  ultimately show ?thesis using m card_Diff1_less by metis
qed

section \<open>One task\<close>

text \<open>The fields a run only adds to.\<close>

definition later :: "prom \<Rightarrow> prom \<Rightarrow> bool" where
  "later s s' \<longleftrightarrow> pm_roots s' = pm_roots s \<and> (\<forall>x b. pm_fwd s x = Some b \<longrightarrow> pm_fwd s' x = Some b)"

lemma later_refl [simp]: "later s s"
  by (simp add: later_def)

lemma later_trans: "later s t \<Longrightarrow> later t u \<Longrightarrow> later s u"
  by (simp add: later_def)

lemma load_disposed:
  assumes "disposes a b s s1" "load_loc s p = Inr v" "\<And>x i. p = FieldLoc x i \<Longrightarrow> x \<noteq> a"
  shows "load_loc s1 p = Inr v"
proof (cases p)
  case (FieldLoc x i)
  then have "pm_objs s x \<noteq> None" using assms(2) by (auto simp: load_loc_def split: option.splits)
  then have "pm_objs s1 x = pm_objs s x" using assms(1) assms(3)[OF FieldLoc] by (simp add: disposes_def)
  then show ?thesis using assms(2) FieldLoc by (simp add: load_loc_def)
qed (use assms in \<open>simp add: load_loc_def disposes_def\<close>)

text \<open>
  The location is updated and its slot seen to; either an unseen object was
  forwarded, or nothing was pushed.
\<close>

definition barrier_done :: "prom_env \<Rightarrow> addr set \<Rightarrow> (addr \<rightharpoonup> jobj) \<Rightarrow> (addr \<times> nat) set \<Rightarrow> ploc \<Rightarrow> prom \<Rightarrow> prom \<Rightarrow> bool" where
  "barrier_done env E objs0 P p s s' \<longleftrightarrow>
     prom_inv env E objs0 (P - slot_of p) s' \<and>
     (\<forall>x b. pm_fwd s x = Some b \<longrightarrow> pm_fwd s' x = Some b) \<and>
     (\<exists>a. load_loc s p = Inr a \<and> load_loc s' p = Inr (the (pm_fwd s' a)) \<and> pm_fwd s' a \<noteq> None) \<and>
     (case p of RootLoc n \<Rightarrow> \<forall>m. m \<noteq> n \<longrightarrow> pm_roots s' m = pm_roots s m | FieldLoc _ _ \<Rightarrow> pm_roots s' = pm_roots s) \<and>
     (card (unseen env objs0 s') < card (unseen env objs0 s) \<or>
      pm_fwd s' = pm_fwd s \<and> chunks s' = chunks s \<and> chunk_work s' = chunk_work s \<and>
      pm_local s' = pm_local s \<and> pm_overflow s' = pm_overflow s)"

lemma chunks_store: "store_loc p b s = Inr s' \<Longrightarrow> chunks s' = chunks s"
  using store_loc_tasks[of p b s s'] by (simp add: chunks_def)

lemma load_stored:
  assumes "load_loc s p = Inr a" "store_loc p b s = Inr s'"
  shows "load_loc s' p = Inr b"
  using assms by (auto simp: load_loc_def store_loc_def split: ploc.splits option.splits if_splits)

lemma store_roots_case:
  "store_loc p b s = Inr s' \<Longrightarrow>
    (case p of RootLoc n \<Rightarrow> \<forall>m. m \<noteq> n \<longrightarrow> pm_roots s' m = pm_roots s m | FieldLoc _ _ \<Rightarrow> pm_roots s' = pm_roots s)"
  by (auto simp: store_loc_def split: ploc.splits option.splits if_splits)

lemma mark_card_same [simp]:
  "load_loc (mark_card p s) l = load_loc s l" "pm_fwd (mark_card p s) = pm_fwd s" "pm_roots (mark_card p s) = pm_roots s"
  "chunks (mark_card p s) = chunks s" "unseen env objs0 (mark_card p s) = unseen env objs0 s"
  "chunk_work (mark_card p s) = chunk_work s" "pm_local (mark_card p s) = pm_local s" "pm_overflow (mark_card p s) = pm_overflow s"
  "prom_inv env E objs0 P (mark_card p s) \<longleftrightarrow> prom_inv env E objs0 P s"
  by (simp_all add: mark_card_def load_loc_def chunks_def unseen_def chunk_work_def chunk_objs_def length_of_def tasks_def
      cong: ploc.case_cong)

lemma barrier_done_card: "barrier_done env E objs0 P p s (if c then mark_card p s' else s') \<longleftrightarrow> barrier_done env E objs0 P p s s'"
  by (simp add: barrier_done_def cong: ploc.case_cong)

text \<open>Storing the new address once the object is forwarded.\<close>

lemma store_done:
  assumes inv: "prom_inv env E objs0 P s" and p: "loc_ok env s p" and a: "load_loc s p = Inr a" "young_boundary env \<le> a"
    and b: "pm_fwd s a = Some b" and st: "store_loc p b s = Inr s'"
  shows "barrier_done env E objs0 P p s s' \<and> pm_fwd s' = pm_fwd s"
proof -
  have c: "claims (loc_obj p) s s'" using store_loc_claims[OF st] .
  then have f: "pm_fwd s' = pm_fwd s" by (simp add: claims_def)
  show ?thesis
    using store_forwarded[OF inv p a b st] f chunk_work_claims[OF c chunks_store[OF st]] chunks_store[OF st] store_loc_tasks[OF st]
      a(1) b load_stored[OF a(1) st] store_roots_case[OF st]
    unfolding barrier_done_def by simp
qed

lemma barrier_ok:
  assumes inv: "prom_inv env E objs0 P s" and p: "\<And>x i. p = FieldLoc x i \<Longrightarrow> x < young_boundary env"
    and wf: "objs_wf env objs0" and rv: "rival_ok env objs0" and fin: "finite {x. young_boundary env \<le> x \<and> objs0 x \<noteq> None}"
  shows "\<exists>r'. copy_and_push_safe_barrier env p r s = Some r' \<and> (\<forall>s'. r' = Inr s' \<longrightarrow> barrier_done env E objs0 P p s s')"
proof (cases "load_loc s p")
  case (Inl e)
  then show ?thesis by (simp add: copy_and_push_safe_barrier_def)
next
  case (Inr a)
  note l = this
  show ?thesis
  proof (cases "is_obj_in_young env a")
    case False
    then show ?thesis using l by (simp add: copy_and_push_safe_barrier_def)
  next
    case True
    then have y: "young_boundary env \<le> a" by (simp add: is_obj_in_young_def)
    have lo: "loc_ok env s' p" for s' using p by (auto simp: loc_ok_def split: ploc.splits)
    let ?c = "case pm_fwd s a of Some b \<Rightarrow> Some (Inr (s, b)) | None \<Rightarrow> copy_bdaref_to_survivor_space env a r s"
    obtain r1 where r1: "?c = Some r1"
      and ok: "\<And>s1 b. r1 = Inr (s1, b) \<Longrightarrow> prom_inv env E objs0 P s1 \<and> pm_fwd s1 a = Some b \<and> (s1 = s \<or> pm_fwd s a = None \<and> disposes a b s s1)"
    proof (cases "pm_fwd s a")
      case None
      then show ?thesis using that copy_bdaref_ok[OF inv y None wf rv, of r] by (auto simp: disposes_def)
    qed (use that inv in auto)
    have "barrier_done env E objs0 P p s s2"
      if s1: "r1 = Inr (s1, b)" and st: "store_loc p b s1 = Inr s2" for s1 b s2
    proof -
      note o = ok[OF s1]
      show ?thesis
      proof (cases "s1 = s")
        case True
        then show ?thesis using store_done[OF inv lo l y _ st[unfolded True]] o by blast
      next
        case False
        then have d: "disposes a b s s1" "pm_fwd s a = None" using o by simp_all
        have l1: "load_loc s1 p = Inr a" using load_disposed[OF d(1) l] p y by force
        note sd = store_done[OF conjunct1[OF o] lo l1 y _ st]
        have "card (unseen env objs0 s2) < card (unseen env objs0 s)"
          by (rule disposes_rank[OF fin _ d(2)]) (use sd o d(1) prom_invD(2) in \<open>auto simp: barrier_done_def disposes_def\<close>)
        moreover have "pm_roots s1 = pm_roots s" "\<And>x b. pm_fwd s x = Some b \<Longrightarrow> pm_fwd s1 x = Some b"
          using d by (auto simp: disposes_def)
        ultimately show ?thesis using sd o l l1 unfolding barrier_done_def by (auto cong: ploc.case_cong)
      qed
    qed
    then show ?thesis using l True r1 unfolding copy_and_push_safe_barrier_def
      by (auto simp: barrier_done_card elim!: bind_resultE)
  qed
qed

section \<open>Taking tasks\<close>

text \<open>\<open>s\<close> is \<open>s0\<close> without the task \<open>t\<close>, the last pushed on one of the two parts.\<close>

definition popped :: "bda_task \<Rightarrow> prom \<Rightarrow> prom \<Rightarrow> bool" where
  "popped t s0 s \<longleftrightarrow> s0 = s\<lparr>pm_local := t # pm_local s\<rparr> \<or> s0 = s\<lparr>pm_overflow := t # pm_overflow s\<rparr>"

text \<open>The slots the task is about.\<close>

definition slots_of :: "prom \<Rightarrow> bda_task \<Rightarrow> (addr \<times> nat) set" where
  "slots_of s t =
     (case t of
        LocTask p ct \<Rightarrow> slot_of p
      | ChunkTask x ct \<Rightarrow> {the (pm_fwd s x)} \<times> {..<length_of s x})"

lemma popped_same:
  assumes "popped t s0 s"
  shows "pm_objs s0 = pm_objs s" "pm_fwd s0 = pm_fwd s" "pm_copies s0 = pm_copies s" "pm_roots s0 = pm_roots s"
    "tasks s0 = insert t (tasks s)" "copy_blocks objs0 s0 = copy_blocks objs0 s" "taken E s0 = taken E s"
    "mem_inv env E s0 \<longleftrightarrow> mem_inv env E s" "task_ok env s0 u \<longleftrightarrow> task_ok env s u" "unseen env objs0 s0 = unseen env objs0 s"
    "young_inv env objs0 s0 \<longleftrightarrow> young_inv env objs0 s"
    "length (pm_local s0) + length (pm_overflow s0) = Suc (length (pm_local s) + length (pm_overflow s))"
    "lengths_ok objs0 s0 \<longleftrightarrow> lengths_ok objs0 s"
  using assms[unfolded popped_def]
  by - (erule disjE; simp add: tasks_def copy_blocks_def taken_def lab_room_def mem_inv_def task_ok_def unseen_def young_inv_def lengths_ok_def
      cong: bda_task.case_cong)+

lemma popped_chunks:
  assumes "popped t s0 s"
  shows "length (chunks s0) = (if is_chunk t then Suc (length (chunks s)) else length (chunks s))"
    "\<not> is_chunk t \<Longrightarrow> chunk_work s0 = chunk_work s"
proof -
  show "length (chunks s0) = (if is_chunk t then Suc (length (chunks s)) else length (chunks s))"
    using assms by (auto simp: popped_def chunks_def)
  show "chunk_work s0 = chunk_work s" if "\<not> is_chunk t"
  proof -
    have "chunk_objs s0 = chunk_objs s" using that popped_same(5)[OF assms] by (auto simp: chunk_objs_def)
    then show ?thesis using popped_same(1)[OF assms] by (simp add: chunk_work_def length_of_def)
  qed
qed

lemma popped_inv:
  assumes inv: "prom_inv env E objs0 P s0" and p: "popped t s0 s"
  shows "prom_inv env E objs0 (P \<union> slots_of s t) s" "task_ok env s t"
proof -
  note e = popped_same[OF p]
  have "copy_ok env (P \<union> slots_of s t) s x q" if "(x, q) \<in> set (pm_copies s)" for x q
  proof (rule copy_ok_mono)
    show ok: "copy_ok env P s0 x q" using prom_invD(3)[OF inv] that e(3) by simp
    show "pending (P \<union> slots_of s t) s x q i" if "pending P s0 x q i" for i
      using that ok e(1,2,5) by (auto simp: pending_def slots_of_def slot_of_def copy_ok_def length_of_def)
  qed (simp_all add: e)
  then show "prom_inv env E objs0 (P \<union> slots_of s t) s"
    using inv unfolding prom_inv_def e by blast
  show "task_ok env s t" using prom_invD(4)[OF inv, of t] e(5,9) by simp
qed

section \<open>Large arrays\<close>

lemma copies_unique:
  assumes inv: "prom_inv env E objs0 P s" and wf: "objs_wf env objs0"
    and c: "(x, q) \<in> set (pm_copies s)" "(y, q) \<in> set (pm_copies s)"
  shows "y = x"
proof -
  have pos: "0 < words_of objs0 z" if z: "(z, q) \<in> set (pm_copies s)" for z
  proof -
    have "young_boundary env \<le> z" "pm_fwd s z = Some q" using prom_invD(3)[OF inv z] by (simp_all add: copy_ok_def)
    then obtain ob where "objs0 z = Some ob" using prom_invD(2)[OF inv] unfolding young_inv_def by blast
    then show ?thesis using wf \<open>young_boundary env \<le> z\<close> by (auto simp: objs_wf_def obj_wf_def)
  qed
  obtain i j where ij: "i < length (pm_copies s)" "pm_copies s ! i = (x, q)" "j < length (pm_copies s)" "pm_copies s ! j = (y, q)"
    using c by (auto simp: in_set_conv_nth)
  have "i = j"
  proof (rule ccontr)
    assume n: "i \<noteq> j"
    have "blocks_apart (copy_blocks objs0 s)" using inv by (simp add: prom_inv_def)
    then have "block q (words_of objs0 x) \<inter> block q (words_of objs0 y) = {}"
      using n ij sorted_wrt_nth_less[of "\<lambda>b c. block (fst b) (snd b) \<inter> block (fst c) (snd c) = {}" "copy_blocks objs0 s" i j]
        sorted_wrt_nth_less[of "\<lambda>b c. block (fst b) (snd b) \<inter> block (fst c) (snd c) = {}" "copy_blocks objs0 s" j i]
      by (cases "i < j") (simp_all add: copy_blocks_def blocks_apart_def Int_commute)
    then show False using pos[OF c(1)] pos[OF c(2)] by (auto simp: block_def hw_add_def HeapWordSize_def)
  qed
  then show ?thesis using ij by simp
qed

lemma set_length_objs:
  "pm_objs (set_length x n s) z = (if z = x then map_option (\<lambda>ob. ob\<lparr>jo_length := n\<rparr>) (pm_objs s x) else pm_objs s z)"
  by (simp add: set_length_def)

lemma set_length_inv:
  assumes inv: "prom_inv env E objs0 P s" and x: "(x, q) \<in> set (pm_copies s)"
  shows "prom_inv env E objs0 (P \<union> {q} \<times> {..<length_of s x}) (set_length x n s)"
proof -
  let ?s = "set_length x n s" and ?P = "P \<union> {q} \<times> {..<length_of s x}"
  have e: "pm_fwd ?s = pm_fwd s" "pm_copies ?s = pm_copies s" "tasks ?s = tasks s" "copy_blocks objs0 ?s = copy_blocks objs0 s"
    "taken E ?s = taken E s" "mem_inv env E ?s \<longleftrightarrow> mem_inv env E s" "\<And>t. task_ok env ?s t \<longleftrightarrow> task_ok env s t"
    "\<And>z. pm_objs ?s z = None \<longleftrightarrow> pm_objs s z = None"
    by (simp_all add: set_length_def tasks_def copy_blocks_def taken_def lab_room_def mem_inv_def task_ok_def cong: bda_task.case_cong)
  have okx: "copy_ok env P s x q" using prom_invD(3)[OF inv x] .
  have "copy_ok env ?P ?s y z" if yz: "(y, z) \<in> set (pm_copies s)" for y z
  proof -
    have ok: "copy_ok env P s y z" using prom_invD(3)[OF inv yz] .
    have z: "z \<noteq> x" using ok okx by (auto simp: copy_ok_def)
    have pd: "pending ?P ?s y z i" if "pending P s y z i" for i
      using that ok okx e(3) by (cases "y = x") (auto simp: pending_def copy_ok_def length_of_def set_length_objs)
    show ?thesis
    proof (cases "y = x")
      case False
      then show ?thesis by (intro copy_ok_mono[OF ok]) (use z pd in \<open>auto simp: e set_length_objs\<close>)
    next
      case True
      then show ?thesis using ok z pd unfolding copy_ok_def e(1)
        by (auto simp: set_length_objs) (metis slot_ok_mono)
    qed
  qed
  moreover have "map_option body (pm_objs ?s z) = map_option body (pm_objs s z)"
      "pm_fwd s z = None \<Longrightarrow> pm_objs ?s z = pm_objs s z" for z
    using okx by (auto simp: set_length_objs copy_ok_def body_def option.map_comp o_def)
  then have "young_inv env objs0 ?s" using prom_invD(2)[OF inv] unfolding young_inv_def e by simp
  moreover have "lengths_ok objs0 ?s"
  proof -
    have "z \<noteq> x" if "(y, z) \<in> set (pm_copies s)" for y z using prom_invD(3)[OF inv that] okx by (auto simp: copy_ok_def)
    then show ?thesis using inv unfolding prom_inv_def lengths_ok_def e(2) by (fastforce simp: set_length_objs)
  qed
  ultimately show ?thesis using inv unfolding prom_inv_def e by blast
qed

definition chunk_done :: "prom_env \<Rightarrow> addr \<Rightarrow> prom \<Rightarrow> prom \<Rightarrow> bool" where
  "chunk_done env x s s' \<longleftrightarrow>
     pm_fwd s' = pm_fwd s \<and> pm_roots s' = pm_roots s \<and>
     (length (chunks s') = length (chunks s) \<or>
      length (chunks s') = Suc (length (chunks s)) \<and> chunk_objs s' = insert x (chunk_objs s) \<and>
      length_of s' x < length_of s x \<and> (\<forall>z. z \<noteq> x \<longrightarrow> length_of s' z = length_of s z))"

lemma set_length_same [simp]:
  "pm_fwd (set_length x n s) = pm_fwd s" "pm_roots (set_length x n s) = pm_roots s" "pm_copies (set_length x n s) = pm_copies s"
  "chunks (set_length x n s) = chunks s" "tasks (set_length x n s) = tasks s"
  by (simp_all add: set_length_def chunks_def tasks_def)

lemma length_of_set: "length_of (set_length x n s) z = (if z = x \<and> pm_objs s x \<noteq> None then n else length_of s z)"
  by (auto simp: length_of_def set_length_objs)

lemma push_same [simp]:
  "pm_fwd (push_bdaref_stack env t s) = pm_fwd s" "pm_roots (push_bdaref_stack env t s) = pm_roots s"
  "length (chunks (push_bdaref_stack env (ChunkTask x ct) s)) = Suc (length (chunks s))"
  "chunk_objs (push_bdaref_stack env (ChunkTask x ct) s) = insert x (chunk_objs s)"
  "length_of (push_bdaref_stack env t s) = length_of s"
  by (auto simp: push_bdaref_stack_def chunks_def chunk_objs_def tasks_def length_of_def fun_eq_iff)

lemma chunk_ok:
  assumes inv: "prom_inv env E objs0 (slots_of s (ChunkTask x ct)) s" and x: "task_ok env s (ChunkTask x ct)"
    and wf: "objs_wf env objs0" and n: "0 < array_chunk_size env" and r: "process_bda_array_chunk env x ct s = Inr s'"
  shows "prom_inv env E objs0 {} s' \<and> chunk_done env x s s'"
proof -
  obtain q where q: "(x, q) \<in> set (pm_copies s)" using x by (auto simp: task_ok_def)
  have ok: "copy_ok env (slots_of s (ChunkTask x ct)) s x q" using prom_invD(3)[OF inv q] .
  then obtain ob where o: "pm_objs s x = Some ob" "pm_fwd s x = Some q" "q < young_boundary env" by (auto simp: copy_ok_def)
  let ?e = "jo_length ob" and ?start = "jo_length ob - array_chunk_size env"
  have l: "length_of s x = ?e" using o(1) by (simp add: length_of_def)
  have sl: "slots_of s (ChunkTask x ct) = {q} \<times> {..<?e}" by (simp add: slots_of_def o l)
  have inv1: "prom_inv env E objs0 ({q} \<times> {..<?e}) (set_length x k s)" for k
    using set_length_inv[OF inv q, of k] by (simp add: sl l)
  have fin: "prom_inv env E objs0 {} s' \<and> claims (Some q) s1 s' \<and> chunks s' = chunks s1"
    if "prom_inv env E objs0 ({q} \<times> set is) s1" "claim_slots env (\<lambda>p. claim_or_forward_bdaref env p ct) q is s1 = Inr s'" for "is" s1
    using claim_slots_ok[OF that(1) o(3) that(2)] by simp
  show ?thesis
  proof (cases "?e > min_array_size_for_chunking env")
    case True
    let ?s = "push_bdaref_stack env (ChunkTask x ct) (set_length x ?start s)"
    have c: "claim_slots env (\<lambda>p. claim_or_forward_bdaref env p ct) q [?start..<?e] ?s = Inr s'" "?e > array_chunk_size env"
      using r o True by (auto simp: process_bda_array_chunk_def Let_def split: if_splits)
    have "prom_inv env E objs0 ({q} \<times> {?start..<?e} \<union> {q} \<times> {..<?start}) (set_length x ?start s)"
      by (rule prom_inv_mono[OF inv1]) auto
    then have "prom_inv env E objs0 ({q} \<times> {?start..<?e}) ?s"
    proof (rule push_chunk_ok[where ob = "ob\<lparr>jo_length := ?start\<rparr>"])
      show "y = x" if "(y, q) \<in> set (pm_copies (set_length x ?start s))" for y
        using copies_unique[OF inv wf q] that by simp
    qed (use q o in \<open>simp_all add: set_length_objs\<close>)
    then have f: "prom_inv env E objs0 {} s' \<and> claims (Some q) ?s s' \<and> chunks s' = chunks ?s"
      using fin[OF _ c(1)] by simp
    then have "length_of s' z = length_of ?s z" for z using length_of_claims by blast
    moreover have "chunk_objs s' = chunk_objs ?s" using f by (simp add: chunk_objs_chunks)
    ultimately show ?thesis using f c(2) n o(1) l by (auto simp: chunk_done_def claims_def length_of_set chunk_objs_def)
  next
    case False
    then obtain k where "claim_slots env (\<lambda>p. claim_or_forward_bdaref env p ct) q [0..<?e] (set_length x k s) = Inr s'"
      using r o by (auto simp: process_bda_array_chunk_def Let_def split: if_splits option.splits)
    from fin[OF _ this] inv1[of k] show ?thesis by (simp add: chunk_done_def claims_def lessThan_atLeast0)
  qed
qed

section \<open>Draining\<close>

text \<open>What holds of the machine throughout: the objects, the other threads, the option.\<close>

definition machine_ok :: "prom_env \<Rightarrow> (addr \<rightharpoonup> jobj) \<Rightarrow> bool" where
  "machine_ok env objs0 \<longleftrightarrow>
     objs_wf env objs0 \<and> rival_ok env objs0 \<and> 0 < array_chunk_size env \<and> finite {x. young_boundary env \<le> x \<and> objs0 x \<noteq> None}"

lemma chunk_rank:
  assumes p: "popped (ChunkTask x ct) s0 s" and d: "chunk_done env x s s'"
  shows "(rank env objs0 s', rank env objs0 s0) \<in> rank_less"
proof -
  note e = popped_same[OF p]
  have u: "unseen env objs0 s' = unseen env objs0 s0" using d e(10) by (simp add: chunk_done_def unseen_def)
  have c: "length (chunks s0) = Suc (length (chunks s))" using popped_chunks(1)[OF p] by simp
  have co: "chunk_objs s0 = insert x (chunk_objs s)" using e(5) by (auto simp: chunk_objs_def)
  have lo: "length_of s0 = length_of s" using e(1) by (simp add: length_of_def fun_eq_iff)
  have "chunk_work s' < chunk_work s0"
    if "chunk_objs s' = insert x (chunk_objs s)" "length_of s' x < length_of s x" "\<forall>z. z \<noteq> x \<longrightarrow> length_of s' z = length_of s z"
    unfolding chunk_work_def that(1) co lo
    by (rule sum_strict_mono_ex1) (use that(2,3) in \<open>auto intro: le_less_trans simp: less_imp_le\<close>, metis less_imp_le order_refl)
  then show ?thesis using d c u by (auto simp: rank_def chunk_done_def)
qed

lemma process_ok:
  assumes inv: "prom_inv env E objs0 {} s0" and p: "popped t s0 s" and m: "machine_ok env objs0"
  shows "\<exists>r. process_popped_bdaref_depth env t s = Some r \<and>
    (\<forall>s'. r = Inr s' \<longrightarrow> prom_inv env E objs0 {} s' \<and> later s0 s' \<and> (rank env objs0 s', rank env objs0 s0) \<in> rank_less)"
proof (cases t)
  case (ChunkTask x ct)
  note i = popped_inv[OF inv p, simplified]
  have "prom_inv env E objs0 {} s' \<and> later s0 s' \<and> (rank env objs0 s', rank env objs0 s0) \<in> rank_less"
    if "process_bda_array_chunk env x ct s = Inr s'" for s'
  proof -
    have "prom_inv env E objs0 {} s' \<and> chunk_done env x s s'"
      using chunk_ok[OF _ _ _ _ that] i m unfolding ChunkTask machine_ok_def by blast
    then show ?thesis using chunk_rank[OF p[unfolded ChunkTask]] popped_same[OF p] by (auto simp: later_def chunk_done_def)
  qed
  then show ?thesis using ChunkTask by (simp add: process_popped_bdaref_depth_def)
next
  case (LocTask l ct)
  note i = popped_inv[OF inv p, simplified]
  obtain x k where l: "l = FieldLoc x k" "x < young_boundary env" using i(2) LocTask by (auto simp: task_ok_def)
  have "\<exists>r'. copy_and_push_safe_barrier env l (AsElement ct) s = Some r' \<and>
      (\<forall>s'. r' = Inr s' \<longrightarrow> barrier_done env E objs0 (slots_of s t) l s s')"
    by (rule barrier_ok[OF i(1)]) (use l m in \<open>auto simp: machine_ok_def\<close>)
  moreover have "prom_inv env E objs0 {} s' \<and> later s0 s' \<and> (rank env objs0 s', rank env objs0 s0) \<in> rank_less"
    if b: "barrier_done env E objs0 (slots_of s t) l s s'" for s'
  proof -
    have "slots_of s t = slot_of l" using LocTask by (simp add: slots_of_def)
    then have "prom_inv env E objs0 {} s'" "later s0 s'"
      using b popped_same(2,4)[OF p] l(1) by (simp_all add: barrier_done_def later_def)
    moreover have "(rank env objs0 s', rank env objs0 s0) \<in> rank_less"
      using b popped_same(10,12)[OF p] popped_chunks[OF p] LocTask by (auto simp: barrier_done_def rank_def unseen_def)
    ultimately show ?thesis by blast
  qed
  ultimately show ?thesis using LocTask by (auto simp: process_popped_bdaref_depth_def)
qed

definition drain_mode :: "bool \<Rightarrow> prom \<Rightarrow> nat" where
  "drain_mode in_local s =
     (if in_local then (if pm_local s = [] then 1 else 0) else if pm_overflow s = [] then 2 else 0)"

definition drained :: "prom_env \<Rightarrow> addr set \<Rightarrow> (addr \<rightharpoonup> jobj) \<Rightarrow> prom \<Rightarrow> prom result option \<Rightarrow> bool" where
  "drained env E objs0 s r \<longleftrightarrow>
     (case r of
        None \<Rightarrow> False
      | Some (Inl e) \<Rightarrow> True
      | Some (Inr s') \<Rightarrow> prom_inv env E objs0 {} s' \<and> later s s' \<and> pm_local s' = [] \<and> pm_overflow s' = [])"

lemma drained_later: "later s t \<Longrightarrow> drained env E objs0 t r \<Longrightarrow> drained env E objs0 s r"
  by (auto simp: drained_def elim: later_trans split: option.splits sum.splits)

lemma wf_drain: "wf (rank_less <*lex*> less_than)"
  by (intro wf_lex_prod wf_less_than)

lemma drain_loop_ok:
  assumes m: "machine_ok env objs0"
  shows "prom_inv env E objs0 {} s \<Longrightarrow> drained env E objs0 s (drain_loop env b s)"
proof (induction "(rank env objs0 s, drain_mode b s)" arbitrary: s b rule: wf_induct_rule[OF wf_drain])
  case (1 s b)
  have task: "drained env E objs0 s (case process_popped_bdaref_depth env t s1 of
        None \<Rightarrow> None | Some (Inl e) \<Rightarrow> Some (Inl e) | Some (Inr s1) \<Rightarrow> drain_loop env b' s1)" if pp: "popped t s s1" for t s1 b'
  proof -
    obtain r where r: "process_popped_bdaref_depth env t s1 = Some r"
      "\<And>s'. r = Inr s' \<Longrightarrow> prom_inv env E objs0 {} s' \<and> later s s' \<and> (rank env objs0 s', rank env objs0 s) \<in> rank_less"
      using process_ok[OF 1(2) pp m] by blast
    show ?thesis
    proof (cases r)
      case (Inr s')
      then show ?thesis using r(2)[OF Inr] 1(1)[of s' b'] drained_later r(1) by auto
    qed (use r(1) in \<open>simp add: drained_def\<close>)
  qed
  have turn: "drained env E objs0 s (drain_loop env b' s)" if "drain_mode b' s < drain_mode b s" for b'
    using 1(1)[of s b'] 1(2) that by simp
  show ?case
  proof (cases b)
    case False
    show ?thesis
    proof (cases "pm_overflow s")
      case Nil
      then show ?thesis using turn[of True] False by (simp add: drain_loop.simps[of env False s] drain_mode_def)
    next
      case (Cons t ts)
      then show ?thesis using task[of t "s\<lparr>pm_overflow := ts\<rparr>" False] False
        by (simp add: drain_loop.simps[of env False s] popped_def)
    qed
  next
    case True
    show ?thesis
    proof (cases "pm_local s")
      case Nil
      then show ?thesis using turn[of False] True 1(2)
        by (simp add: drain_loop.simps[of env True s] drain_mode_def drained_def)
    next
      case (Cons t ts)
      then show ?thesis using task[of t "s\<lparr>pm_local := ts\<rparr>" True] True
        by (simp add: drain_loop.simps[of env True s] popped_def)
    qed
  qed
qed

section \<open>The queued references\<close>

text \<open>Each root that was given out and pointed into the young generation has its object's new address.\<close>

definition roots_done :: "prom_env \<Rightarrow> nat set \<Rightarrow> prom \<Rightarrow> prom \<Rightarrow> bool" where
  "roots_done env R s s' \<longleftrightarrow>
     (\<forall>n. if n \<in> R \<and> is_obj_in_young env (pm_roots s n) then pm_fwd s' (pm_roots s n) = Some (pm_roots s' n)
          else pm_roots s' n = pm_roots s n)"

lemma dequeued_ok:
  assumes inv: "prom_inv env E objs0 {} s" and m: "machine_ok env objs0"
  shows "\<exists>r. process_dequeued_bdaroot env (n, rg) s = Some r \<and>
    (\<forall>s'. r = Inr s' \<longrightarrow> prom_inv env E objs0 {} s' \<and> roots_done env {n} s s' \<and>
      (\<forall>x b. pm_fwd s x = Some b \<longrightarrow> pm_fwd s' x = Some b))"
proof (cases "is_obj_in_young env (pm_roots s n)")
  case True
  have "\<exists>r. copy_and_push_safe_barrier env (RootLoc n) (AsContainer rg) s = Some r \<and>
      (\<forall>s'. r = Inr s' \<longrightarrow> barrier_done env E objs0 {} (RootLoc n) s s')"
    by (rule barrier_ok[OF inv]) (use m in \<open>auto simp: machine_ok_def\<close>)
  then show ?thesis using True
    by (fastforce simp: process_dequeued_bdaroot_def barrier_done_def roots_done_def load_loc_def)
next
  case False
  then show ?thesis using inv by (simp add: process_dequeued_bdaroot_def roots_done_def)
qed

lemma roots_done_trans:
  assumes "roots_done env {n} s s1" "later s1 s2" "roots_done env R s2 s'" "n \<notin> R"
    "\<And>x b. pm_fwd s2 x = Some b \<Longrightarrow> pm_fwd s' x = Some b"
  shows "roots_done env (insert n R) s s'"
  unfolding roots_done_def
proof
  fix k
  have e: "pm_roots s2 = pm_roots s1" "\<And>x b. pm_fwd s1 x = Some b \<Longrightarrow> pm_fwd s2 x = Some b" using assms(2) by (simp_all add: later_def)
  have 1: "if k = n \<and> is_obj_in_young env (pm_roots s k) then pm_fwd s1 (pm_roots s k) = Some (pm_roots s1 k)
      else pm_roots s1 k = pm_roots s k" using assms(1)[unfolded roots_done_def, rule_format, of k] by (simp split: if_splits)
  have 2: "if k \<in> R \<and> is_obj_in_young env (pm_roots s2 k) then pm_fwd s' (pm_roots s2 k) = Some (pm_roots s' k)
      else pm_roots s' k = pm_roots s2 k" using assms(3) unfolding roots_done_def by blast
  show "if k \<in> insert n R \<and> is_obj_in_young env (pm_roots s k) then pm_fwd s' (pm_roots s k) = Some (pm_roots s' k)
      else pm_roots s' k = pm_roots s k"
    using 1 2 e(1) assms(4) assms(5)[OF e(2)] by (cases "k = n") (auto split: if_splits)
qed

lemma ref_roots_ok:
  assumes m: "machine_ok env objs0"
  shows "prom_inv env E objs0 {} s \<Longrightarrow> pm_local s = [] \<Longrightarrow> pm_overflow s = [] \<Longrightarrow> distinct (map fst refs) \<Longrightarrow>
    \<exists>r. bda_ref_roots_task env refs s = Some r \<and>
      (\<forall>s'. r = Inr s' \<longrightarrow> prom_inv env E objs0 {} s' \<and> pm_local s' = [] \<and> pm_overflow s' = [] \<and>
        roots_done env (fst ` set refs) s s' \<and> (\<forall>x b. pm_fwd s x = Some b \<longrightarrow> pm_fwd s' x = Some b))"
proof (induction refs arbitrary: s)
  case Nil
  then show ?case by (simp add: roots_done_def)
next
  case (Cons ref refs)
  obtain n rg where ref: "ref = (n, rg)" by (cases ref)
  obtain r1 where r1: "process_dequeued_bdaroot env ref s = Some r1"
    "\<And>s1. r1 = Inr s1 \<Longrightarrow> prom_inv env E objs0 {} s1 \<and> roots_done env {n} s s1 \<and> (\<forall>x b. pm_fwd s x = Some b \<longrightarrow> pm_fwd s1 x = Some b)"
    using dequeued_ok[OF Cons.prems(1) m, of n rg] ref by blast
  show ?case
  proof (cases r1)
    case (Inl e)
    then show ?thesis using r1(1) by simp
  next
    case (Inr s1)
    note i1 = r1(2)[OF Inr]
    have d: "drained env E objs0 s1 (drain_bda_stacks env s1)" using drain_loop_ok[OF m conjunct1[OF i1]] by (simp add: drain_bda_stacks_def)
    show ?thesis
    proof (cases "drain_bda_stacks env s1")
      case None
      then show ?thesis using d by (simp add: drained_def)
    next
      case (Some r2)
      show ?thesis
      proof (cases r2)
        case (Inl e)
        then show ?thesis using r1(1) Inr Some by simp
      next
        case (Inr s2)
        have i2: "prom_inv env E objs0 {} s2" "later s1 s2" "pm_local s2 = []" "pm_overflow s2 = []"
          using d Some Inr by (simp_all add: drained_def)
        obtain r where r: "bda_ref_roots_task env refs s2 = Some r"
          "\<And>s'. r = Inr s' \<Longrightarrow> prom_inv env E objs0 {} s' \<and> pm_local s' = [] \<and> pm_overflow s' = [] \<and>
            roots_done env (fst ` set refs) s2 s' \<and> (\<forall>x b. pm_fwd s2 x = Some b \<longrightarrow> pm_fwd s' x = Some b)"
          using Cons.IH[OF i2(1,3,4)] Cons.prems(4) by auto
        have "roots_done env (fst ` set (ref # refs)) s s'" if "r = Inr s'" for s'
          using roots_done_trans[of env n s s1 s2 "fst ` set refs" s'] i1 i2(2) r(2)[OF that] Cons.prems(4) ref by simp
        moreover have "bda_ref_roots_task env (ref # refs) s = Some r" using r1(1) \<open>r1 = Inr s1\<close> Some Inr r(1) by simp
        ultimately show ?thesis using r(2) i1 i2(2) by (auto simp: later_def)
      qed
    qed
  qed
qed

section \<open>What promotion achieves\<close>

text \<open>The state in which the task begins.\<close>

definition prom_start :: "prom_env \<Rightarrow> addr set \<Rightarrow> prom \<Rightarrow> bool" where
  "prom_start env E s \<longleftrightarrow>
     mem_inv env E s \<and> pm_local s = [] \<and> pm_overflow s = [] \<and> pm_fwd s = Map.empty \<and> pm_copies s = [] \<and>
     (\<forall>x. x < young_boundary env \<longrightarrow> pm_objs s x \<noteq> None \<longrightarrow> x \<in> taken E s)"

definition relocates :: "prom_env \<Rightarrow> prom \<Rightarrow> addr \<Rightarrow> addr \<Rightarrow> bool" where
  "relocates env s v w \<longleftrightarrow> (if is_obj_in_young env v then pm_fwd s v = Some w else w = v)"

text \<open>\<open>q\<close> is, at the end, a copy in the old generation of what \<open>x\<close> was in the beginning.\<close>

definition copied_ok :: "prom_env \<Rightarrow> prom \<Rightarrow> prom \<Rightarrow> addr \<Rightarrow> addr \<Rightarrow> bool" where
  "copied_ok env s s' x q \<longleftrightarrow>
     is_obj_in_young env x \<and> \<not> is_obj_in_young env q \<and>
     (\<exists>ob nb. pm_objs s x = Some ob \<and> pm_objs s' q = Some nb \<and> jo_words nb = jo_words ob \<and> jo_kind nb = jo_kind ob \<and>
        jo_length nb = jo_length ob \<and> list_all2 (relocates env s') (jo_refs ob) (jo_refs nb))"

lemma prom_start_inv: "prom_start env E s \<Longrightarrow> prom_inv env E (pm_objs s) {} s"
  by (auto simp: prom_start_def prom_inv_def young_inv_def copy_blocks_def blocks_apart_def tasks_def lengths_ok_def)

lemma prom_end_copied:
  assumes inv: "prom_inv env E (pm_objs s) {} s'" and e: "pm_local s' = []" "pm_overflow s' = []"
    and x: "(x, q) \<in> set (pm_copies s')"
  shows "copied_ok env s s' x q"
proof -
  have ok: "copy_ok env {} s' x q" using prom_invD(3)[OF inv x] .
  obtain ob nb where o: "pm_objs s' x = Some ob" "pm_objs s' q = Some nb" "jo_words nb = jo_words ob" "jo_kind nb = jo_kind ob"
      "length (jo_refs nb) = length (jo_refs ob)"
    and sl: "\<And>i. i < length (jo_refs ob) \<Longrightarrow>
      slot_ok (young_boundary env) (pm_fwd s') (pending {} s' x q i) (jo_refs ob ! i) (jo_refs nb ! i)"
    using ok unfolding copy_ok_def by blast
  have y: "young_boundary env \<le> x" "q < young_boundary env" "pm_fwd s' x \<noteq> Some x" using ok by (auto simp: copy_ok_def)
  then have "map_option body (pm_objs s' x) = map_option body (pm_objs s x)" using prom_invD(2)[OF inv] by (simp add: young_inv_def)
  then obtain o0 where o0: "pm_objs s x = Some o0" "body o0 = body ob" using o(1) by (cases "pm_objs s x") auto
  have b: "jo_words o0 = jo_words ob" "jo_kind o0 = jo_kind ob" "jo_refs o0 = jo_refs ob"
    using o0(2) by (cases ob; cases o0; simp add: body_def)+
  have "\<not> pending {} s' x q i" for i using e by (simp add: pending_def tasks_def)
  then have "list_all2 (relocates env s') (jo_refs o0) (jo_refs nb)"
    using sl o(5) b(3) by (force simp: list_all2_conv_all_nth relocates_def slot_ok_def is_obj_in_young_def)
  moreover have "lengths_ok (pm_objs s) s'" using inv by (simp add: prom_inv_def)
  then have "jo_length nb = jo_length o0" using x o(2) o0(1) by (auto simp: lengths_ok_def)
  ultimately show ?thesis using y o o0(1) b by (auto simp: copied_ok_def is_obj_in_young_def)
qed

text \<open>
  C1: promotion is complete and keeps objects intact.  Let the task for the queued
  references begin with an empty stack in a space whose invariant holds, on young
  objects of which no thread has moved any; between the test of an object's mark
  word and the exchange that forwards it another thread may always come first.
  The task ends.  If no assertion fails on the way, then the stack is empty again;
  every reference given out by the queue has been redirected to where its object was forwarded; the copies lie
  in the old generation and do not overlap; each has the size, kind and length of its
  original, its references into the young generation all replaced by the addresses
  to which the objects were forwarded, and the others kept; and an object is
  forwarded to its copy, to itself, or to where the other thread has put it.
\<close>

theorem promotion_complete:
  assumes "prom_start env E s" "machine_ok env (pm_objs s)" "distinct (map fst refs)"
  shows "\<exists>r. bda_ref_roots_task env refs s = Some r \<and>
    (\<forall>s'. r = Inr s' \<longrightarrow>
       pm_local s' = [] \<and> pm_overflow s' = [] \<and> roots_done env (fst ` set refs) s s' \<and>
       blocks_apart (copy_blocks (pm_objs s) s') \<and> (\<forall>(x, q) \<in> set (pm_copies s'). copied_ok env s s' x q) \<and>
       (\<forall>x b. pm_fwd s' x = Some b \<longrightarrow> (x, b) \<in> set (pm_copies s') \<or> b = x \<or> rival env x = Some b))"
proof -
  have "pm_local s = []" "pm_overflow s = []" using assms(1) by (simp_all add: prom_start_def)
  from ref_roots_ok[OF assms(2) prom_start_inv[OF assms(1)] this assms(3)] obtain r where
    r: "bda_ref_roots_task env refs s = Some r" "\<And>s'. r = Inr s' \<Longrightarrow> prom_inv env E (pm_objs s) {} s' \<and> pm_local s' = [] \<and>
      pm_overflow s' = [] \<and> roots_done env (fst ` set refs) s s'"
    by blast
  have "blocks_apart (copy_blocks (pm_objs s) s')"
    "\<forall>x b. pm_fwd s' x = Some b \<longrightarrow> (x, b) \<in> set (pm_copies s') \<or> b = x \<or> rival env x = Some b" if "r = Inr s'" for s'
    using r(2)[OF that] by (simp_all add: prom_inv_def)
  then show ?thesis using r prom_end_copied by blast
qed

section \<open>A small scavenge\<close>

text \<open>
  A list of two nodes: the first, at \<open>2 ^ 22\<close>, refers to itself and to the second,
  which refers back.  The second node gets memory from a new buffer.
\<close>

definition sample_env :: prom_env where
  "sample_env = \<lparr>pe_layout = \<lparr>UseCompressedClassPointers = False, LogObjAlignment = 0\<rparr>, pe_flags = sample_flags,
     young_boundary = 2 ^ 22, to_space_top_before_gc = 2 ^ 23, to_space_end = 2 ^ 23, heap_is_in = (\<lambda>_. True), heap_is_in_reserved = (\<lambda>_. True),
     PSChunkLargeArrays = True, array_chunk_size = 50, min_array_size_for_chunking = 75, queue_max_elems = 1,
     rival = (\<lambda>_. None)\<rparr>"

definition sample_prom :: prom where
  "sample_prom = \<lparr>pm_space = sample_bda,
     pm_lab = \<lparr>lab_top = 0, lab_bottom = 0, lab_end = 0, lab_state = zero_size, bl_container = None\<rparr>,
     pm_fillers = Map.empty,
     pm_objs = [2 ^ 22 \<mapsto> \<lparr>jo_words = 10, jo_kind = Instance, jo_length = 0, jo_refs = [2 ^ 22, 2 ^ 22 + 80, 0]\<rparr>,
        2 ^ 22 + 80 \<mapsto> \<lparr>jo_words = 20, jo_kind = ObjArray, jo_length = 1, jo_refs = [2 ^ 22]\<rparr>],
     pm_fwd = Map.empty, pm_roots = (\<lambda>_. 2 ^ 22), pm_local = [], pm_overflow = [], pm_depth = [], pm_cards = [],
     pm_failed = [], pm_copies = [], pm_old_gen_is_full = False\<rparr>"

lemma sample_prom_start: "prom_start sample_env {} sample_prom"
proof -
  have "ms_end (grp_space sample_bda i) \<le> 2 ^ 22" if "i < 2" for i
    using that by (auto simp: less_2_cases_iff sample_defs address_eval)
  then show ?thesis using sample_bda_inv
    by (auto simp: prom_start_def sample_prom_def sample_env_def mem_inv_def objs_ok_def lab_room_def sample_defs split: if_splits)
qed

lemma sample_machine: "machine_ok sample_env (pm_objs sample_prom)"
proof -
  have "finite (dom (pm_objs sample_prom))" by (simp add: sample_prom_def)
  then have "finite {x. 2 ^ 22 \<le> x \<and> pm_objs sample_prom x \<noteq> None}" by (rule rev_finite_subset) auto
  then show ?thesis
    by (auto simp: machine_ok_def objs_wf_def obj_wf_def rival_ok_def sample_prom_def sample_env_def hw_add_def HeapWordSize_def
        size_t_max1_def split: if_splits)
qed

lemmas prom_eval = process_dequeued_bdaroot_def copy_and_push_safe_barrier_def copy_bdaref_to_survivor_space_def
  install_copy_def push_bdaref_contents_def claim_slots_def obj_slots_def load_loc_def store_loc_def is_obj_in_young_def
  claim_or_forward_bdaref_def forward_or_push_def push_bdaref_stack_def loc_in_heap_def loc_in_reserved_def loc_in_young_def
  drain_bda_stacks_def drain_loop.simps process_popped_bdaref_depth_def element_memory_def lab_allocate_def refill_lab_def
  bda_lab_allocate_def old_allocate_def old_flush_def bda_lab_initialize_def lab_initialize_def bda_lab_is_valid_def
  lab_free_def mr_contains_def mem_region_of_def

lemma sample_filler: "filler_header_size \<lparr>UseCompressedClassPointers = False, LogObjAlignment = 0\<rparr> = 3"
  by (simp add: filler_header_size_def array_header_cases aligned_id)

lemma sample_promotion:
  "\<exists>s'. bda_ref_roots_task sample_env [(0, region_ptr sample_rt 2)] sample_prom = Some (Inr s') \<and>
     pm_copies s' = [(2 ^ 22 + 80, 2 ^ 19 + 80), (2 ^ 22, 2 ^ 19)]"
  by (simp add: sample_prom_def sample_env_def prom_eval sample_defs address_eval summary_eval starts_eval alloc_eval sample_ids
      sample_filler upt_conv_Cons Let_def)

theorem promotion_complete_witness:
  "\<exists>s'. bda_ref_roots_task sample_env [(0, region_ptr sample_rt 2)] sample_prom = Some (Inr s') \<and>
     roots_done sample_env {0} sample_prom s' \<and> copied_ok sample_env sample_prom s' (2 ^ 22) (2 ^ 19) \<and>
     copied_ok sample_env sample_prom s' (2 ^ 22 + 80) (2 ^ 19 + 80)"
proof -
  obtain s' where s': "bda_ref_roots_task sample_env [(0, region_ptr sample_rt 2)] sample_prom = Some (Inr s')"
    "pm_copies s' = [(2 ^ 22 + 80, 2 ^ 19 + 80), (2 ^ 22, 2 ^ 19)]"
    using sample_promotion by blast
  from promotion_complete[OF sample_prom_start sample_machine, of "[(0, region_ptr sample_rt 2)]"] s' show ?thesis by auto
qed

end
