(* ===== verification/Spec2Isabelle.thy ===== *)
theory Spec2Isabelle
  imports KlassRegions GenQueueMT RefQueueMT BitSets ObjectStarts MarkCompact BdaSafety TaskQueueMT TaskSteals
    Terminators RootTasks PromotionRuns
begin

text \<open>
  A verification library for the Big Data Aware (BDA) extension of the HotSpot
  virtual machine, \<open>src/bdavm\<close>.  Paths below are relative to
  \<open>src/bdavm/src/share/vm\<close>.

  \<^bold>\<open>The program.\<close>  The extension keeps collection objects and what they hold
  together.  The option \<open>BDAKlasses\<close> lists classes of interest; the class map
  (\<open>oops/klassRegionMap\<close>) gives each of them two region identifiers, one for its
  containers and one for their elements (\<open>bda/bdaGlobals\<close>).  The old generation is
  a \<open>MutableBDASpace\<close> (\<open>bda/mutableBDASpace\<close>), an array of groups: index 0 for all
  other objects, one group per class.  A group is a \<open>MutableSpace\<close> cut into
  containers, chains of segments, which stand in a \<open>GenQueue\<close>.  While the program
  runs, new collection objects are entered in a \<open>RefQueue\<close>.  A scavenge dequeues
  them, gives each a container, and copies to it what the object refers to, through
  promotion buffers and work-stealing task queues; other tasks scan the containers
  that were there before for references into the young generation.  The collector
  of the old generation marks objects in a bit map, summarises them per region and
  slides them together.

  \<^bold>\<open>Conventions.\<close>  \<open>Prelude\<close> has the types: an address or \<open>size_t\<close> is a natural
  number with the wrap-around at \<open>2 ^ 64\<close> written out where the source can reach it;
  \<open>uint\<close> arithmetic that wraps is on words.  A failing assertion, a NULL
  dereference or an access out of bounds is a value of \<^typ>\<open>fault\<close>, so that a
  fallible operation has a result of type \<^typ>\<open>'a result\<close>; debug builds are
  modelled, except for the assertions a theory says it leaves out; printing and
  tracing are not.  Pointers to shared structures are keys of explicit stores.  Code of several threads is a step relation with one step per
  access to shared memory.  A loop that might run forever is an option, None when it
  does, and that it ends is proved.

  \<^bold>\<open>The theories.\<close>
  \<^item> \<open>GlobalDefs\<close>: \<open>utilities/globalDefinitions.hpp\<close>, alignment, pointer
    differences, logarithms.  The loop of \<open>log2_intptr\<close> has 65 units of fuel, one
    more than there are bits, and the lemmas show that this is enough.
  \<^item> \<open>BdaRegion\<close>, \<open>KlassRegions\<close>: \<open>bda/bdaGlobals\<close> and \<open>oops/klassRegionMap\<close>,
    parsing of the class list, the table of identifiers, the hash table from classes
    to regions.  Parsing is a round trip, every class finds its identifiers, and the
    table breaks with more than 31 classes.  The locale \<open>klass_table\<close> is the contract of the
    hash table.
  \<^item> \<open>Containers\<close>, \<open>Queues\<close>, \<open>GenQueue\<close>, \<open>GenQueueMT\<close>, \<open>RefQueue\<close>,
    \<open>RefQueueMT\<close>: \<open>struct container\<close>, \<open>bda/gen_queue.hpp\<close> and
    \<open>bda/refqueue\<close>.  The locale \<open>fifo_queue\<close> is interpreted for both queues; the
    \<open>MT\<close> theories prove that concurrent enqueues into a \<open>GenQueue\<close> and
    concurrent dequeues from a \<open>RefQueue\<close> neither lose nor double an element, and
    that concurrent enqueues into a \<open>RefQueue\<close> lose none unless it was empty; for an
    empty one they exhibit the schedule that loses an element.
  \<^item> \<open>BitMaps\<close>, \<open>BitMapFacts\<close>, \<open>BitMapSearch\<close>, \<open>BitSets\<close>:
    \<open>utilities/bitMap\<close>, word by word, with the locale \<open>bit_set\<close> for its clients.
  \<^item> \<open>MemRegions\<close>, \<open>BumpSpaces\<close>, \<open>MutableSpaces\<close>, \<open>ObjectStarts\<close>:
    \<open>memory/memRegion\<close>, \<open>shared/mutableSpace\<close>,
    \<open>parallelScavenge/objectStartArray\<close>.  The locale \<open>bump_space\<close> proves once
    that blocks handed out by moving a top do not overlap.
  \<^item> \<open>ParMarkBitMaps\<close>, \<open>ParMarkObjects\<close>: \<open>parallelScavenge/parMarkBitMap\<close>, the
    two bit maps as the list of objects they stand for.
  \<^item> \<open>CompactData\<close>, \<open>RegionWords\<close>, \<open>SummaryData\<close>, \<open>SummaryPlan\<close>,
    \<open>Compaction\<close>, \<open>MarkCompact\<close>: \<open>ParallelCompactData\<close> and the functions of
    \<open>parallelScavenge/psParallelCompact\<close> that plan the move.  The packed word of a
    region refines a pair, \<open>summarize\<close> is the sliding of the live words, and
    \<open>calc_new_pointer\<close> sends every live object to where the live words before it end.
  \<^item> \<open>CgrpSpaces\<close>, \<open>BdaSpaces\<close>: all of \<open>MutableBDASpace\<close> with its groups that
    allocates, sets up, saves tops and verifies; the record \<^typ>\<open>bda_space\<close> holds what the
    groups share.
  \<^item> \<open>BdaAlloc\<close>, \<open>BdaRuns\<close>, \<open>BdaLayout\<close>, \<open>BdaSafety\<close>, \<open>BdaQueues\<close>: the
    invariant \<open>seg_inv\<close> of that record; a new space satisfies it, every request keeps
    it, all requests end, and the blocks handed out are disjoint and inside one group; the queues of
    containers only grow at their ends.
  \<^item> \<open>SegStacks\<close>, \<open>SegStackFacts\<close>, \<open>RandomSeeds\<close>, \<open>TaskQueues\<close>,
    \<open>TaskDeques\<close>, \<open>TaskQueueMT\<close>, \<open>TaskQueueSets\<close>, \<open>TaskSteals\<close>,
    \<open>Terminators\<close>: \<open>utilities/stack\<close> and \<open>utilities/taskqueue\<close>.  The stack and
    the queue implement the locales \<open>lifo\<close> and \<open>bounded_deque\<close>; under every
    interleaving of owner and thieves the operations are those of a double-ended list; a
    thief's random choice ends; termination is declared only when all work is done,
    and can be reached.
  \<^item> \<open>Fillers\<close>, \<open>PromotionLabs\<close>: the dead ranges filled by
    \<open>gc_interface/collectedHeap.cpp\<close>, and the promotion buffers of
    \<open>parallelScavenge/psPromotionLAB\<close> and \<open>bda/bdaOldPromotionLAB\<close>.
  \<^item> \<open>RootTasks\<close>: \<open>OldToYoungBDARootsTask\<close> of \<open>bda/bdaTasks.cpp\<close>, all tasks
    together, with allocations between their steps: every container is scanned once.
  \<^item> \<open>Promotions\<close>, \<open>PromotionMemory\<close>, \<open>PromotionDrains\<close>, \<open>PromotionRuns\<close>:
    \<open>copy_bdaref_to_survivor_space\<close> and what is around it in
    \<open>parallelScavenge/psPromotionManager\<close>, \<open>bda/bdaScavenge.inline.hpp\<close> and
    \<open>BDARefRootsTask\<close>.  The record \<^typ>\<open>prom\<close> is one promotion manager with the space,
    its buffer, the objects and their forwarding pointers.  \<open>PromotionMemory\<close> shows
    that an object is copied to memory that was free; \<open>PromotionDrains\<close> has the
    invariant of the stack and its proof for claiming and copying; \<open>PromotionRuns\<close>
    has the measure by which draining ends and what it has achieved then.

  \<^bold>\<open>Parameters.\<close>  Virtual memory (whether committing succeeds, what new memory
  holds), page sizes, \<open>malloc\<close>, the options of the virtual machine, the layout of
  objects and the class hierarchy are arguments.  In the promotion, what the other
  threads do to an object between the test of its mark word and the exchange is the
  argument \<open>rival\<close>: the address it was forwarded to, if any.  The hypotheses
  collected in \<open>machine_ok\<close> say that objects have a positive size, that an object
  array has as many slots as its length word says, that there are finitely many, that
  a rival forwards an object to itself, to the old generation or to an address that
  held no object before, and that \<open>ParGCArrayScanChunk\<close> is positive, which
  \<open>runtime/arguments.cpp\<close> checks.  Objects refer to each other through uncompressed
  pointers there, the case for which \<open>drain_bda_stacks\<close> is written.

  \<^bold>\<open>Not modelled.\<close>  The part of the repository that is HotSpot as it was: compilers,
  interpreter, class files, runtime, services, platform code, the other collectors.
  Of the parallel collector: the card table (scanning the cards of a container is the
  event \<open>task_step\<close> returns), the generations and their resizing policies, worker
  threads and task manager, the ordinary copying of \<open>copy_to_survivor_space\<close>, the closures
  that move objects and update pointers, the heuristics for the dense prefix, and
  \<open>summarize_bda_regions\<close> and \<open>clear_bda_range\<close> of \<open>psParallelCompact.cpp\<close>, which plan
  the move of the containers: \<open>seg_inv\<close> and the theorems on it are about a space that has
  not been collected.  In the promotion, references and class mirrors are ordinary
  instances: \<open>InstanceRefKlass\<close> also enters them in the lists of discovered references, and
  \<open>InstanceMirrorKlass\<close> also scans static fields.  Of
  the extension: \<open>OldToYoungNonBDARootsTask\<close>, because \<open>get_next_beg_seg\<close> and
  \<open>get_next_end_seg\<close>, which it calls, compute a value and do not return it;
  \<open>bda/bdaParallelCompact\<close>, whose tables are allocated while the code that
  would fill them is commented out, and \<open>bda/bdaTaskqueue.hpp\<close>, which nothing
  uses; statistics and printing.
\<close>

end
